(* ===== verification/Prelude.thy ===== *)
theory Prelude
  imports Main "HOL-Library.Word" "HOL-Library.Sublist"
begin

text \<open>
  Shared vocabulary of the naudio development: names for the fixed-width C++ types, the
  wrap-around conversions between them, and an executable model of \<open>std::map\<close> and
  \<open>std::set\<close> with an ordered key (association lists and lists that are strictly ascending,
  so that \<open>begin()\<close> is the head and iteration is the list order). The contract of the ordered
  map is the locale \<open>ordered_map\<close>, interpreted here on the association-list operations; the
  reorder buffer and the FEC decoder rest on its facts.
\<close>

unbundle bit_operations_syntax

section \<open>Names for the machine types\<close>

type_synonym u8 = "8 word"
type_synonym u16 = "16 word"
type_synonym u32 = "32 word"
type_synonym u64 = "64 word"
type_synonym bytes = "u8 list"

named_theorems codec_simps \<open>equations that evaluate the big-endian cursors\<close>
named_theorems omap_simps \<open>equations of the ordered map and the ordered set\<close>

text \<open>
  \<open>i32\<close> is \<open>static_cast<std::int32_t>\<close> of an integer (two's complement), \<open>wrap32\<close> is
  \<open>static_cast<std::uint32_t>\<close>, both as integers; \<open>i32_ok\<close> says that a signed 32-bit
  computation does not overflow (signed overflow is undefined behaviour in C++).
\<close>

definition i32 :: "int \<Rightarrow> int" where
  "i32 x = sint (word_of_int x :: u32)"

definition wrap32 :: "int \<Rightarrow> int" where
  "wrap32 x = x mod 2 ^ 32"

definition i32_ok :: "int \<Rightarrow> bool" where
  "i32_ok x \<longleftrightarrow> - (2 ^ 31) \<le> x \<and> x < 2 ^ 31"

lemma i32_ident: "i32_ok x \<Longrightarrow> i32 x = x"
  by (simp add: i32_def i32_ok_def sint_sbintrunc' signed_take_bit_int_eq_self)

lemma i32_range: "i32_ok (i32 x)"
  using sint_range_size [of "word_of_int x :: u32"] by (simp add: i32_def i32_ok_def word_size)

lemma sint_i32_ok: "i32_ok (sint (w :: u32))"
  using sint_range_size [of w] by (simp add: i32_ok_def word_size)

lemma i32_sint [simp]: "i32 (sint (w :: u32)) = sint w"
  by (simp add: i32_def)

lemma wrap32_range: "0 \<le> wrap32 x \<and> wrap32 x < 2 ^ 32"
  by (simp add: wrap32_def)

lemma wrap32_sint: "wrap32 (sint (w :: u32)) = uint w"
  by (simp add: wrap32_def uint_sint take_bit_eq_mod)

text \<open>C++ integer division truncates towards zero.\<close>

definition cdiv :: "int \<Rightarrow> int \<Rightarrow> int" where
  "cdiv a b = sgn a * sgn b * (\<bar>a\<bar> div \<bar>b\<bar>)"

lemma cdiv_nonneg: "0 \<le> a \<Longrightarrow> 0 < b \<Longrightarrow> cdiv a b = a div b"
  by (cases "a = 0") (simp_all add: cdiv_def)

text \<open>Exceptions of the standard library that the sources throw, with their message.\<close>

datatype cpp_exn = Invalid_argument string

section \<open>Lists\<close>

lemma strict_sorted_distinct: "sorted_wrt (<) (xs :: 'a :: linorder list) \<Longrightarrow> distinct xs"
  by (simp add: strict_sorted_iff)

lemma take_append_last:
  "length ys \<le> n \<Longrightarrow> drop (length xs + length ys - n) (xs @ ys) =
    drop (length xs + length ys - n) xs @ ys"
  by simp

lemma list_all_set: "list_all P xs \<longleftrightarrow> (\<forall>x \<in> set xs. P x)"
  by (rule list_all_iff)

section \<open>A list without one position\<close>

definition drop_nth :: "nat \<Rightarrow> 'a list \<Rightarrow> 'a list" where
  "drop_nth i xs = take i xs @ drop (Suc i) xs"

lemma set_drop_nth: "set (drop_nth i xs) \<subseteq> set xs"
  by (auto simp: drop_nth_def dest: in_set_takeD in_set_dropD)

lemma length_drop_nth [simp]: "i < length xs \<Longrightarrow> length (drop_nth i xs) = length xs - 1"
  by (simp add: drop_nth_def)

lemma distinct_drop_nth: "distinct xs \<Longrightarrow> distinct (drop_nth i xs)"
  using set_take_disj_set_drop_if_distinct[of xs i "Suc i"] by (simp add: drop_nth_def)

lemma set_drop_nth_distinct:
  assumes "distinct xs" "i < length xs"
  shows "set (drop_nth i xs) = set xs - {xs ! i}"
proof -
  have xs: "xs = take i xs @ xs ! i # drop (Suc i) xs" by (rule id_take_nth_drop[OF assms(2)])
  then have "distinct (take i xs @ xs ! i # drop (Suc i) xs)" "set xs = set (take i xs @ xs ! i # drop (Suc i) xs)" using assms(1) by metis+
  then show ?thesis by (auto simp: drop_nth_def)
qed

section \<open>Ordered maps: \<open>std::map\<close>\<close>

type_synonym ('k, 'v) omap = "('k \<times> 'v) list"

abbreviation omap_keys :: "('k, 'v) omap \<Rightarrow> 'k list" where
  "omap_keys m \<equiv> map fst m"

definition omap_ok :: "('k :: linorder, 'v) omap \<Rightarrow> bool" where
  "omap_ok m \<longleftrightarrow> sorted_wrt (<) (omap_keys m)"

abbreviation omap_get :: "('k, 'v) omap \<Rightarrow> 'k \<Rightarrow> 'v option" where
  "omap_get \<equiv> map_of"

text \<open>\<open>insert_or_assign\<close> and \<open>erase(key)\<close>.\<close>

fun omap_put :: "'k :: linorder \<Rightarrow> 'v \<Rightarrow> ('k, 'v) omap \<Rightarrow> ('k, 'v) omap" where
  "omap_put k v [] = [(k, v)]"
| "omap_put k v ((k', v') # m) =
     (if k < k' then (k, v) # (k', v') # m
      else if k = k' then (k, v) # m
      else (k', v') # omap_put k v m)"

definition omap_del :: "'k \<Rightarrow> ('k, 'v) omap \<Rightarrow> ('k, 'v) omap" where
  "omap_del k m = filter (\<lambda>e. fst e \<noteq> k) m"

lemma set_omap_keys_put [omap_simps]: "fst ` set (omap_put k v m) = insert k (fst ` set m)"
proof (induction m)
  case (Cons e m)
  then show ?case by (cases e) auto
qed simp

lemma omap_ok_Nil [simp]: "omap_ok []"
  by (simp add: omap_ok_def)

lemma omap_ok_Cons: "omap_ok (e # m) \<longleftrightarrow> (\<forall>k \<in> fst ` set m. fst e < k) \<and> omap_ok m"
  by (simp add: omap_ok_def)

lemma omap_ok_distinct: "omap_ok m \<Longrightarrow> distinct (omap_keys m)"
  by (simp add: omap_ok_def strict_sorted_iff)

lemma omap_ok_put: "omap_ok m \<Longrightarrow> omap_ok (omap_put k v m)"
proof (induction m)
  case Nil
  then show ?case by (simp add: omap_ok_def)
next
  case (Cons e m)
  obtain k' v' where e: "e = (k', v')" by (cases e)
  have tl: "omap_ok (omap_put k v m)" and bound: "\<forall>x \<in> fst ` set m. k' < x"
    using Cons by (simp_all add: omap_ok_Cons e)
  then show ?case
    using Cons.prems by (simp add: omap_ok_Cons e set_omap_keys_put) fastforce
qed

lemma omap_get_put: "omap_get (omap_put k v m) = (omap_get m)(k \<mapsto> v)"
  by (induction m) auto

lemma omap_get_put_eq [omap_simps]: "omap_get (omap_put k v m) x = (if x = k then Some v else omap_get m x)"
  by (simp add: omap_get_put)

lemma omap_ok_del: "omap_ok m \<Longrightarrow> omap_ok (omap_del k m)"
  by (simp add: omap_ok_def omap_del_def sorted_wrt_map sorted_wrt_filter)

lemma omap_get_del: "omap_get (omap_del k m) = (omap_get m)(k := None)"
  by (induction m) (auto simp: omap_del_def)

lemma set_omap_keys_del [omap_simps]: "fst ` set (omap_del k m) = fst ` set m - {k}"
  by (auto simp: omap_del_def)

lemma omap_get_None [omap_simps]: "omap_get m k = None \<longleftrightarrow> k \<notin> fst ` set m"
  by (auto simp: map_of_eq_None_iff)

lemma omap_get_Some_in: "omap_get m k = Some v \<Longrightarrow> k \<in> fst ` set m"
  by (metis omap_get_None option.distinct(1))

lemma length_omap_put: "length (omap_put k v m) \<le> Suc (length m)"
  by (induction m) auto

lemma length_omap_put_fresh: "k \<notin> fst ` set m \<Longrightarrow> length (omap_put k v m) = Suc (length m)"
  by (induction m) auto

lemma length_omap_put_old:
  "omap_ok m \<Longrightarrow> k \<in> fst ` set m \<Longrightarrow> length (omap_put k v m) = length m"
  by (induction m) (force simp: omap_ok_Cons)+

lemma omap_put_last:
  "\<forall>x \<in> fst ` set m. x < k \<Longrightarrow> omap_put k v m = m @ [(k, v)]"
  by (induction m) auto

lemma omap_del_length: "length (omap_del k m) \<le> length m"
  by (simp add: omap_del_def)

lemma omap_del_length_less: "k \<in> fst ` set m \<Longrightarrow> length (omap_del k m) < length m"
  by (auto simp: omap_del_def intro!: length_filter_less)

text \<open>The contract of an ordered map, as a client sees it.\<close>

locale ordered_map =
  fixes lookup :: "'m \<Rightarrow> 'k :: linorder \<Rightarrow> 'v option"
    and assign :: "'k \<Rightarrow> 'v \<Rightarrow> 'm \<Rightarrow> 'm"
    and erase :: "'k \<Rightarrow> 'm \<Rightarrow> 'm"
    and invar :: "'m \<Rightarrow> bool"
    and keys :: "'m \<Rightarrow> 'k list"
  assumes lookup_assign: "invar m \<Longrightarrow> lookup (assign k v m) = (lookup m)(k \<mapsto> v)"
    and lookup_erase: "invar m \<Longrightarrow> lookup (erase k m) = (lookup m)(k := None)"
    and invar_assign: "invar m \<Longrightarrow> invar (assign k v m)"
    and invar_erase: "invar m \<Longrightarrow> invar (erase k m)"
    and dom_lookup: "invar m \<Longrightarrow> dom (lookup m) = set (keys m)"
    and keys_ascending: "invar m \<Longrightarrow> sorted_wrt (<) (keys m)"
begin

lemma keys_assign: "invar m \<Longrightarrow> set (keys (assign k v m)) = insert k (set (keys m))"
  by (metis dom_fun_upd dom_lookup invar_assign lookup_assign option.distinct(1))

lemma keys_erase: "invar m \<Longrightarrow> set (keys (erase k m)) = set (keys m) - {k}"
  by (metis dom_fun_upd dom_lookup invar_erase lookup_erase)

lemma length_assign:
  assumes "invar m"
  shows "length (keys (assign k v m)) = (if lookup m k = None then Suc (length (keys m)) else length (keys m))"
proof -
  have card: "length (keys m') = card (set (keys m'))" if "invar m'" for m'
    using keys_ascending [OF that] by (simp add: strict_sorted_iff distinct_card)
  have "lookup m k = None \<longleftrightarrow> k \<notin> set (keys m)"
    using dom_lookup [OF assms] by auto
  then show ?thesis
    using assms by (simp add: card invar_assign keys_assign card_insert_if)
qed

lemma assign_last_wins: "invar m \<Longrightarrow> lookup (assign k w (assign k v m)) = lookup (assign k w m)"
  by (simp add: lookup_assign invar_assign)

lemma erase_assign_fresh: "invar m \<Longrightarrow> lookup m k = None \<Longrightarrow> lookup (erase k (assign k v m)) = lookup m"
  by (simp add: lookup_assign lookup_erase invar_assign fun_upd_idem)

end

interpretation om: ordered_map map_of omap_put omap_del omap_ok "map fst"
proof
  fix m :: "('a \<times> 'b) list" and k v
  assume m: "omap_ok m"
  show "omap_get (omap_put k v m) = (omap_get m)(k \<mapsto> v)" by (rule omap_get_put)
  show "omap_get (omap_del k m) = (omap_get m)(k := None)" by (rule omap_get_del)
  show "omap_ok (omap_put k v m)" using m by (rule omap_ok_put)
  show "omap_ok (omap_del k m)" using m by (rule omap_ok_del)
  show "dom (omap_get m) = set (omap_keys m)" by (simp add: dom_map_of_conv_image_fst)
  show "sorted_wrt (<) (omap_keys m)" using m by (simp add: omap_ok_def)
qed

section \<open>Ordered sets: \<open>std::set\<close>\<close>

fun oset_insert :: "'a :: linorder \<Rightarrow> 'a list \<Rightarrow> 'a list" where
  "oset_insert x [] = [x]"
| "oset_insert x (y # ys) = (if x < y then x # y # ys else if x = y then y # ys else y # oset_insert x ys)"

lemma set_oset_insert [omap_simps]: "set (oset_insert x xs) = insert x (set xs)"
  by (induction xs) auto

lemma oset_insert_sorted: "sorted_wrt (<) xs \<Longrightarrow> sorted_wrt (<) (oset_insert x xs)"
  by (induction xs) (auto simp: set_oset_insert)

lemma length_oset_insert: "length (oset_insert x xs) \<le> Suc (length xs)"
  by (induction xs) auto

lemma oset_insert_nonempty [simp]: "oset_insert x xs \<noteq> []"
  by (cases xs) auto

section \<open>\<open>std::to_string\<close> of an unsigned value\<close>

definition digit :: "nat \<Rightarrow> char" where
  "digit n = char_of (48 + n)"

fun to_string :: "nat \<Rightarrow> string" where
  "to_string n = (if n < 10 then [digit n] else to_string (n div 10) @ [digit (n mod 10)])"

text \<open>A signed decimal number.\<close>

definition int_string :: "int \<Rightarrow> string" where
  "int_string x = (if x < 0 then CHR ''-'' # to_string (nat (- x)) else to_string (nat x))"

declare to_string.simps [simp del]

lemma of_char_digit: "n < 10 \<Longrightarrow> of_char (digit n) = 48 + n"
  by (simp add: digit_def)

lemma digit_inject: "m < 10 \<Longrightarrow> n < 10 \<Longrightarrow> digit m = digit n \<Longrightarrow> m = n"
  by (metis add_left_cancel of_char_digit)

lemma to_string_nonempty [simp]: "to_string n \<noteq> []"
  by (subst to_string.simps) simp

lemmas to_string_nonempty' [simp] = to_string_nonempty [symmetric]

lemma to_string_inject: "to_string m = to_string n \<Longrightarrow> m = n"
proof (induction m arbitrary: n rule: to_string.induct)
  case (1 m)
  show ?case
  proof (cases "m < 10")
    case True
    with 1(2) have "n < 10" by (subst (asm) (1 2) to_string.simps) (auto split: if_splits)
    with True 1(2) show ?thesis by (subst (asm) (1 2) to_string.simps) (auto dest: digit_inject)
  next
    case False
    with 1(2) have n: "\<not> n < 10" by (subst (asm) (1 2) to_string.simps) (auto split: if_splits)
    with False 1(2) have "to_string (m div 10) = to_string (n div 10)" "digit (m mod 10) = digit (n mod 10)"
      by (subst (asm) (1 2) to_string.simps; simp)+
    then have "m div 10 = n div 10" "m mod 10 = n mod 10" using 1(1) [OF False] digit_inject [of "m mod 10" "n mod 10"] by simp_all
    then show ?thesis by (metis div_mult_mod_eq)
  qed
qed

lemma colon_not_digit: "n < 10 \<Longrightarrow> digit n \<noteq> CHR '':''"
  using of_char_digit [of n] by auto

lemma colon_notin_to_string: "CHR '':'' \<notin> set (to_string n)"
proof (induction n rule: to_string.induct)
  case (1 n)
  then show ?case by (subst to_string.simps) (simp add: colon_not_digit [symmetric])
qed

text \<open>A host and a port joined by a colon determine both: the last colon separates them.\<close>

lemma endpoint_inject:
  assumes "h @ CHR '':'' # to_string p = h' @ CHR '':'' # to_string p'"
  shows "h = h' \<and> p = p'"
proof -
  let ?split = "\<lambda>x. (takeWhile (\<lambda>c. c \<noteq> CHR '':'') (rev x), dropWhile (\<lambda>c. c \<noteq> CHR '':'') (rev x))"
  have "?split (k @ CHR '':'' # to_string q) = (rev (to_string q), CHR '':'' # rev k)" for k q
    using colon_notin_to_string [of q] by (subst rev_append, subst rev.simps) (auto simp: takeWhile_append dropWhile_append)
  from this [of h p] this [of h' p'] assms have "h = h' \<and> to_string p = to_string p'" by simp
  then show ?thesis using to_string_inject by blast
qed

end
