(* ===== verification/Byte_Cursor.thy ===== *)
theory Byte_Cursor
  imports Prelude
begin

text \<open>
  The big-endian cursors of \<open>include/naudio/ByteCursor.hpp\<close>. A \<open>ByteWriter\<close> is the byte list
  accumulated so far, and each \<open>put\<close> appends; a \<open>ByteReader\<close> is a record of the borrowed
  bytes, the position and the sticky \<open>truncated\<close> flag, and each \<open>get\<close> returns the value with
  the advanced reader. The lemmas show that reading what was written gives the value back, that
  a reader never moves past the end, and that a read past the end trips the flag.
\<close>

section \<open>ByteWriter\<close>

type_synonym byte_writer = bytes

definition putU8 :: "u8 \<Rightarrow> byte_writer \<Rightarrow> byte_writer" where
  "putU8 v buf = buf @ [v]"

definition putU16 :: "u16 \<Rightarrow> byte_writer \<Rightarrow> byte_writer" where
  "putU16 v buf = buf @ [ucast (drop_bit 8 v AND 0xFF), ucast (v AND 0xFF)]"

definition be_bytes32 :: "u32 \<Rightarrow> bytes" where
  "be_bytes32 u = map (\<lambda>i. ucast (drop_bit (i * 8) u AND 0xFF)) [3, 2, 1, 0]"

definition putI32 :: "u32 \<Rightarrow> byte_writer \<Rightarrow> byte_writer" where
  "putI32 v buf = buf @ be_bytes32 v"

definition putU32 :: "u32 \<Rightarrow> byte_writer \<Rightarrow> byte_writer" where
  "putU32 u buf = buf @ be_bytes32 u"

definition be_bytes64 :: "u64 \<Rightarrow> bytes" where
  "be_bytes64 u = map (\<lambda>i. ucast (drop_bit (i * 8) u AND 0xFF)) [7, 6, 5, 4, 3, 2, 1, 0]"

definition putI64 :: "u64 \<Rightarrow> byte_writer \<Rightarrow> byte_writer" where
  "putI64 v buf = buf @ be_bytes64 v"

definition putBytes :: "bytes \<Rightarrow> byte_writer \<Rightarrow> byte_writer" where
  "putBytes d buf = buf @ d"

section \<open>ByteReader\<close>

record byte_reader =
  rd_data :: bytes
  rd_pos :: nat
  rd_truncated :: bool

definition mk_reader :: "bytes \<Rightarrow> byte_reader" where
  "mk_reader d = \<lparr>rd_data = d, rd_pos = 0, rd_truncated = False\<rparr>"

definition remaining :: "byte_reader \<Rightarrow> nat" where
  "remaining r = (if rd_pos r < length (rd_data r) then length (rd_data r) - rd_pos r else 0)"

definition setPosition :: "nat \<Rightarrow> byte_reader \<Rightarrow> byte_reader" where
  "setPosition p r = r\<lparr>rd_pos := p\<rparr>"

definition getU8 :: "byte_reader \<Rightarrow> u8 \<times> byte_reader" where
  "getU8 r = (if rd_pos r < length (rd_data r)
     then (rd_data r ! rd_pos r, r\<lparr>rd_pos := rd_pos r + 1\<rparr>)
     else (0, r\<lparr>rd_truncated := True\<rparr>))"

definition getU16 :: "byte_reader \<Rightarrow> u16 \<times> byte_reader" where
  "getU16 r = (let (hi, r1) = getU8 r; (lo, r2) = getU8 r1
     in (push_bit 8 (ucast hi) OR ucast lo, r2))"

text \<open>The accumulation loops \<open>v = (v << 8) | getU8()\<close> of the 32-bit and the 64-bit getters.\<close>

fun get_be :: "nat \<Rightarrow> 'a :: len word \<Rightarrow> byte_reader \<Rightarrow> 'a word \<times> byte_reader" where
  "get_be 0 v r = (v, r)"
| "get_be (Suc n) v r = (let (b, r') = getU8 r in get_be n (push_bit 8 v OR ucast b) r')"

definition getI32 :: "byte_reader \<Rightarrow> u32 \<times> byte_reader" where
  "getI32 r = get_be 4 0 r"

definition getI64 :: "byte_reader \<Rightarrow> u64 \<times> byte_reader" where
  "getI64 r = get_be 8 0 r"

definition readBytes :: "nat \<Rightarrow> byte_reader \<Rightarrow> bytes \<times> byte_reader" where
  "readBytes n r = (let avail = remaining r; tk = (if n < avail then n else avail);
       out = take tk (drop (rd_pos r) (rd_data r));
       r' = r\<lparr>rd_pos := rd_pos r + tk\<rparr>
     in (out, if tk < n then r'\<lparr>rd_truncated := True\<rparr> else r'))"

text \<open>A \<open>std::string\<close> is a sequence of bytes; \<open>readString\<close> copies them verbatim.\<close>

definition str_bytes :: "string \<Rightarrow> bytes" where
  "str_bytes s = map (\<lambda>c. word_of_nat (of_char c)) s"

definition bytes_str :: "bytes \<Rightarrow> string" where
  "bytes_str b = map (\<lambda>w. char_of (unat w)) b"

definition readString :: "nat \<Rightarrow> byte_reader \<Rightarrow> string \<times> byte_reader" where
  "readString n r = (let (b, r') = readBytes n r in (bytes_str b, r'))"

section \<open>Strings and bytes\<close>

lemma of_char_lt_256: "(of_char c :: nat) < 256"
  using nat_of_char_less_256 by simp

lemma char_of_byte_of_char [simp]: "char_of (unat (word_of_nat (of_char c) :: u8)) = c"
proof -
  have "unat (word_of_nat (of_char c) :: u8) = of_char c"
    using of_char_lt_256 [of c] by (simp add: unat_of_nat)
  then show ?thesis by simp
qed

lemma bytes_str_str_bytes [simp]: "bytes_str (str_bytes s) = s"
  by (simp add: bytes_str_def str_bytes_def comp_def)

lemma length_str_bytes [simp]: "length (str_bytes s) = length s"
  by (simp add: str_bytes_def)

lemma str_bytes_eq_Nil [simp]: "str_bytes s = [] \<longleftrightarrow> s = []"
  by (simp add: str_bytes_def)

lemma length_bytes_str [simp]: "length (bytes_str b) = length b"
  by (simp add: bytes_str_def)

lemma take_str_bytes: "take n (str_bytes s) = str_bytes (take n s)"
  by (simp add: str_bytes_def take_map)

section \<open>Readers at a position\<close>

text \<open>
  \<open>reader_at pre suf t\<close> is a reader that has consumed \<open>pre\<close> and has \<open>suf\<close> before it; every
  getter is an equation on such readers.
\<close>

definition reader_at :: "bytes \<Rightarrow> bytes \<Rightarrow> bool \<Rightarrow> byte_reader" where
  "reader_at pre suf t = \<lparr>rd_data = pre @ suf, rd_pos = length pre, rd_truncated = t\<rparr>"

lemma mk_reader_at [codec_simps]: "mk_reader d = reader_at [] d False"
  by (simp add: mk_reader_def reader_at_def)

lemma remaining_at [codec_simps]: "remaining (reader_at pre suf t) = length suf"
  by (simp add: remaining_def reader_at_def)

lemma rd_pos_at [codec_simps]: "rd_pos (reader_at pre suf t) = length pre"
  by (simp add: reader_at_def)

lemma truncated_at [codec_simps]: "rd_truncated (reader_at pre suf t) = t"
  by (simp add: reader_at_def)

lemma getU8_at [codec_simps]: "getU8 (reader_at pre (b # bs) t) = (b, reader_at (pre @ [b]) bs t)"
  by (simp add: getU8_def reader_at_def)

lemma getU8_at_end [codec_simps]: "getU8 (reader_at pre [] t) = (0, reader_at pre [] True)"
  by (simp add: getU8_def reader_at_def)

lemma readBytes_at [codec_simps]:
  "readBytes (length xs) (reader_at pre (xs @ ys) t) = (xs, reader_at (pre @ xs) ys t)"
  by (simp add: readBytes_def remaining_at) (simp add: reader_at_def)

lemma readBytes_at_take:
  "n \<le> length suf \<Longrightarrow> readBytes n (reader_at pre suf t) = (take n suf, reader_at (pre @ take n suf) (drop n suf) t)"
  using readBytes_at [of "take n suf" pre "drop n suf" t] by simp

lemma readBytes_at_short:
  "length suf < n \<Longrightarrow> readBytes n (reader_at pre suf t) = (suf, reader_at (pre @ suf) [] True)"
  by (simp add: readBytes_def remaining_at) (simp add: reader_at_def)

lemma readString_at [codec_simps]:
  "n = length s \<Longrightarrow> readString n (reader_at pre (str_bytes s @ ys) t) = (s, reader_at (pre @ str_bytes s) ys t)"
  using readBytes_at [of "str_bytes s" pre ys t] by (simp add: readString_def)

lemma setPosition_at [codec_simps]:
  "n = length pre + length xs \<Longrightarrow> setPosition n (reader_at pre (xs @ ys) t) = reader_at (pre @ xs) ys t"
  by (simp add: setPosition_def reader_at_def)

lemma reader_at_inject:
  "reader_at pre suf t = reader_at pre' suf' t' \<longleftrightarrow> pre = pre' \<and> suf = suf' \<and> t = t'"
  by (auto simp: reader_at_def)

section \<open>Big-endian round trips\<close>

text \<open>Byte \<open>i\<close> of a word, counted from the least significant one.\<close>

definition byte_of :: "nat \<Rightarrow> 'a :: len word \<Rightarrow> u8" where
  "byte_of i u = ucast (drop_bit (i * 8) u AND 0xFF)"

lemma and_ff_take_bit: "(x :: 'a :: len word) AND 0xFF = take_bit 8 x"
  by (simp add: take_bit_eq_mask mask_numeral)

lemma ucast_byte_of: "ucast (byte_of i (u :: 'a :: len word)) = take_bit 8 (drop_bit (i * 8) u)"
  by (rule bit_word_eqI) (auto simp: byte_of_def and_ff_take_bit bit_simps dest: bit_imp_le_length)

lemma be_join:
  "push_bit k (drop_bit (m + k) (u :: 'a :: len word)) OR take_bit k (drop_bit m u) = drop_bit m u"
  by (rule bit_word_eqI) (auto simp: bit_simps not_le dest: bit_imp_le_length)

lemma be_join8:
  "push_bit 8 (drop_bit (8 + i * 8) (u :: 'a :: len word)) OR ucast (byte_of i u) = drop_bit (i * 8) u"
  using be_join [of 8 "i * 8" u] by (simp only: ucast_byte_of add.commute)

lemma get_be_bytes:
  "get_be n (drop_bit (n * 8) u) (reader_at pre (map (\<lambda>i. byte_of i u) (rev [0..<n]) @ ys) t) =
    (u, reader_at (pre @ map (\<lambda>i. byte_of i u) (rev [0..<n])) ys t)"
proof (induction n arbitrary: pre)
  case (Suc n)
  then show ?case
    by (simp add: getU8_at be_join8 del: push_bit_numeral)
qed simp

lemma be_bytes32_alt: "be_bytes32 u = map (\<lambda>i. byte_of i u) (rev [0..<4])"
  by (simp add: be_bytes32_def byte_of_def upt_rec)

lemma be_bytes64_alt: "be_bytes64 u = map (\<lambda>i. byte_of i u) (rev [0..<8])"
  by (simp add: be_bytes64_def byte_of_def upt_rec)

lemma length_be_bytes [simp]: "length (be_bytes32 u) = 4" "length (be_bytes64 w) = 8"
  by (simp_all add: be_bytes32_def be_bytes64_def)

lemma drop_bit_32 [simp]: "drop_bit 32 (u :: u32) = 0"
  by (rule bit_word_eqI) (auto simp: bit_simps dest: bit_imp_le_length)

lemma drop_bit_64 [simp]: "drop_bit 64 (u :: u64) = 0"
  by (rule bit_word_eqI) (auto simp: bit_simps dest: bit_imp_le_length)

lemma getI32_at [codec_simps]:
  "getI32 (reader_at pre (be_bytes32 u @ ys) t) = (u, reader_at (pre @ be_bytes32 u) ys t)"
  using get_be_bytes [of 4 u pre ys t] by (simp add: getI32_def be_bytes32_alt)

lemma getI64_at [codec_simps]:
  "getI64 (reader_at pre (be_bytes64 u @ ys) t) = (u, reader_at (pre @ be_bytes64 u) ys t)"
  using get_be_bytes [of 8 u pre ys t] by (simp add: getI64_def be_bytes64_alt)

definition be_bytes16 :: "u16 \<Rightarrow> bytes" where
  "be_bytes16 v = [byte_of 1 v, byte_of 0 v]"

lemma length_be_bytes16 [simp]: "length (be_bytes16 v) = 2"
  by (simp add: be_bytes16_def)

lemma putU16_be: "putU16 v buf = buf @ be_bytes16 v"
  by (simp add: putU16_def be_bytes16_def byte_of_def)

lemmas put_defs = putU8_def putU16_be putI32_def putU32_def putI64_def putBytes_def

lemma u16_join: "push_bit 8 (ucast (byte_of 1 v)) OR ucast (byte_of 0 v) = (v :: u16)"
proof -
  have "push_bit 8 (drop_bit (8 + 1 * 8) v) OR ucast (byte_of 1 v) = drop_bit (1 * 8) v"
    by (rule be_join8)
  moreover have "drop_bit (8 + 1 * 8) v = 0"
    by (rule bit_word_eqI) (auto simp: bit_simps dest: bit_imp_le_length)
  ultimately have "ucast (byte_of 1 v) = drop_bit 8 v" by simp
  then show ?thesis using be_join8 [of 0 v] by simp
qed

lemma getU16_pair [codec_simps]:
  "getU16 (reader_at pre (a # b # bs) t) = (push_bit 8 (ucast a) OR ucast b, reader_at (pre @ [a, b]) bs t)"
  by (simp add: getU16_def codec_simps)

lemma getU16_at [codec_simps]:
  "getU16 (reader_at pre (be_bytes16 v @ bs) t) = (v, reader_at (pre @ be_bytes16 v) bs t)"
  by (simp only: be_bytes16_def append_Cons append_Nil getU16_pair u16_join)

section \<open>Horner form\<close>

text \<open>
  The value a run of bytes denotes in big-endian order, and that it is inverse to \<open>byte_of\<close> in
  both directions for the widths of the frame fields.
\<close>

definition be_fold :: "'a :: len word \<Rightarrow> bytes \<Rightarrow> 'a word" where
  "be_fold v bs = fold (\<lambda>b v. push_bit 8 v OR ucast b) bs v"

lemma be_fold_simps [simp]: "be_fold v [] = v" "be_fold v (b # bs) = be_fold (push_bit 8 v OR ucast b) bs"
  by (simp_all add: be_fold_def)

lemma be_fold_bytes: "be_fold (drop_bit (n * 8) u) (map (\<lambda>i. byte_of i u) (rev [0..<n])) = u"
proof (induction n)
  case (Suc n)
  then show ?case by (simp add: be_join8 del: push_bit_numeral)
qed simp

lemma be_fold_bytes32: "be_fold 0 (be_bytes32 u) = u"
  using be_fold_bytes [of 4 u] by (simp add: be_bytes32_alt)

lemma be_fold_bytes64: "be_fold 0 (be_bytes64 u) = u"
  using be_fold_bytes [of 8 u] by (simp add: be_bytes64_alt)

lemma bit_byte_of: "bit (byte_of i (u :: 'a :: len word)) n \<longleftrightarrow> n < 8 \<and> bit u (i * 8 + n)"
  by (auto simp: byte_of_def and_ff_take_bit bit_simps dest: bit_imp_le_length)

lemma bit_u8_high [simp]: "\<not> bit (b :: u8) (8 + n)"
  using bit_imp_le_length [of b "8 + n"] by auto

lemma byte_of_shift_0:
  "8 \<le> LENGTH('a :: len) \<Longrightarrow> byte_of 0 (push_bit 8 (v :: 'a word) OR ucast b) = b"
  by (rule bit_word_eqI) (auto simp: bit_byte_of bit_or_iff bit_push_bit_iff bit_ucast_iff)

lemma byte_of_shift_Suc:
  "(i + 2) * 8 \<le> LENGTH('a :: len) \<Longrightarrow> byte_of (Suc i) (push_bit 8 (v :: 'a word) OR ucast (b :: u8)) = byte_of i v"
  by (rule bit_word_eqI)
    (auto simp: bit_byte_of bit_or_iff bit_push_bit_iff bit_ucast_iff add.assoc dest: bit_imp_le_length)

lemma be_fold_snoc: "be_fold v (bs @ [b]) = push_bit 8 (be_fold v bs) OR ucast b"
  by (simp add: be_fold_def)

lemma rev_upt_Suc: "rev [0..<Suc n] = map Suc (rev [0..<n]) @ [0]"
  by (simp only: upt_conv_Cons [of 0 "Suc n"] zero_less_Suc rev.simps map_Suc_upt [symmetric] rev_map)

lemma bytes_of_be_fold:
  assumes "length bs * 8 \<le> LENGTH('a :: len)"
  shows "map (\<lambda>i. byte_of i (be_fold (v :: 'a word) bs)) (rev [0..<length bs]) = bs"
  using assms
proof (induction bs rule: rev_induct)
  case (snoc b bs)
  let ?u = "be_fold v (bs @ [b])"
  have "map (\<lambda>i. byte_of i ?u) (rev [0..<Suc (length bs)]) =
      map (\<lambda>i. byte_of (Suc i) ?u) (rev [0..<length bs]) @ [byte_of 0 ?u]"
    by (simp only: rev_upt_Suc map_append map_map comp_def list.map)
  also have "map (\<lambda>i. byte_of (Suc i) ?u) (rev [0..<length bs]) =
      map (\<lambda>i. byte_of i (be_fold v bs)) (rev [0..<length bs])"
    using snoc.prems by (intro map_cong refl) (simp only: be_fold_snoc, rule byte_of_shift_Suc, simp)
  also have "\<dots> = bs" using snoc by simp
  also have "byte_of 0 ?u = b"
    using snoc.prems by (simp only: be_fold_snoc) (rule byte_of_shift_0, simp)
  finally show ?case by simp
qed simp

end
