(* ===== verification/Crc32.thy ===== *)
theory Crc32
  imports Prelude
begin

text \<open>
  The CRC-32/ISO-HDLC of \<open>src/Crc32.cpp\<close>: the 256-entry table and the table-driven loop, and
  a bit-at-a-time reference. The lemmas show that the two agree, that the running register is
  an injective function of the previous register and of the byte fed, and so that two messages
  of the same length that differ in one byte have different checksums.
\<close>

definition crc32_poly :: u32 where
  "crc32_poly = 0xEDB88320"

text \<open>One round of the inner loop of \<open>crc32Table\<close>.\<close>

definition crc32_round :: "u32 \<Rightarrow> u32" where
  "crc32_round c = (if c AND 1 \<noteq> 0 then crc32_poly XOR drop_bit 1 c else drop_bit 1 c)"

definition crc32_entry :: "u32 \<Rightarrow> u32" where
  "crc32_entry i = (crc32_round ^^ 8) i"

definition crc32Table :: "u32 list" where
  "crc32Table = map (\<lambda>i. crc32_entry (word_of_nat i)) [0..<256]"

definition crc32_step :: "u32 \<Rightarrow> u8 \<Rightarrow> u32" where
  "crc32_step crc b = crc32Table ! unat ((crc XOR ucast b) AND 0xFF) XOR drop_bit 8 crc"

definition crc32 :: "bytes \<Rightarrow> u32" where
  "crc32 data = fold (\<lambda>b crc. crc32_step crc b) data 0xFFFFFFFF XOR 0xFFFFFFFF"

section \<open>The bitwise reference\<close>

definition crc32_ref_step :: "u32 \<Rightarrow> u8 \<Rightarrow> u32" where
  "crc32_ref_step crc b = (crc32_round ^^ 8) (crc XOR ucast b)"

definition crc32_ref :: "bytes \<Rightarrow> u32" where
  "crc32_ref data = fold (\<lambda>b crc. crc32_ref_step crc b) data 0xFFFFFFFF XOR 0xFFFFFFFF"

section \<open>Linearity of a round\<close>

lemma and_one_word: "(c :: u32) AND 1 = (if bit c 0 then 1 else 0)"
  by (simp add: and_one_eq mod_2_eq_odd bit_0)

lemma crc32_round_alt: "crc32_round c = drop_bit 1 c XOR (if bit c 0 then crc32_poly else 0)"
  by (simp add: crc32_round_def and_one_word xor.commute)

lemma crc32_round_xor: "crc32_round (a XOR b) = crc32_round a XOR crc32_round b"
  by (cases "bit a 0"; cases "bit b 0")
    (simp_all add: crc32_round_alt drop_bit_xor bit_xor_iff ac_simps)

lemma crc32_rounds_xor: "(crc32_round ^^ n) (a XOR b) = (crc32_round ^^ n) a XOR (crc32_round ^^ n) b"
  by (induction n arbitrary: a b) (simp_all add: crc32_round_xor)

lemma crc32_round_even: "\<not> bit c 0 \<Longrightarrow> crc32_round c = drop_bit 1 c"
  by (simp add: crc32_round_alt)

lemma crc32_rounds_zero_low:
  "(\<And>i. i < n \<Longrightarrow> \<not> bit c i) \<Longrightarrow> (crc32_round ^^ n) c = drop_bit n c"
proof (induction n)
  case (Suc n)
  then have "(crc32_round ^^ n) c = drop_bit n c" by simp
  moreover have "\<not> bit (drop_bit n c) 0" using Suc.prems [of n] by (simp add: bit_drop_bit_eq)
  ultimately show ?case by (simp add: crc32_round_even)
qed simp

section \<open>The table-driven loop computes the reference\<close>

lemma crc32Table_nth: "i < 256 \<Longrightarrow> crc32Table ! i = crc32_entry (word_of_nat i)"
  by (simp add: crc32Table_def)

lemma low_byte_lt: "unat ((x :: u32) AND 0xFF) < 256"
proof -
  have "x AND 0xFF = take_bit 8 x"
    by (simp add: take_bit_eq_mask mask_numeral)
  then show ?thesis
    using take_bit_nat_less_exp [of 8 "unat x"] by (simp add: unsigned_take_bit_eq)
qed

lemma split_low_byte: "(x :: u32) = (x AND 0xFF) XOR (x AND NOT (mask 8))"
proof -
  have "x = (x AND mask 8) XOR (x AND NOT (mask 8))"
    by (rule bit_word_eqI) (auto simp: bit_simps)
  then show ?thesis by (simp add: mask_numeral)
qed

lemma bit_not_ff: "bit ((x :: u32) AND NOT (mask 8)) i \<longleftrightarrow> bit x i \<and> 8 \<le> i"
  by (auto simp: bit_and_iff bit_not_iff bit_mask_iff dest: bit_imp_le_length)

lemma drop_ucast_byte: "drop_bit 8 (ucast (b :: u8) :: u32) = 0"
  by (rule bit_word_eqI) (auto simp: bit_simps dest: bit_imp_le_length)

lemma crc32_step_ref: "crc32_step crc b = crc32_ref_step crc b"
proof -
  let ?x = "crc XOR ucast b"
  let ?lo = "?x AND 0xFF" and ?hi = "?x AND NOT (mask 8)"
  have hi: "(crc32_round ^^ 8) ?hi = drop_bit 8 ?hi"
    by (rule crc32_rounds_zero_low) (simp add: bit_not_ff)
  have drop: "drop_bit 8 ?hi = drop_bit 8 crc"
  proof (rule bit_word_eqI)
    fix n assume n: "n < LENGTH(32)"
    have "\<not> bit (ucast b :: u32) (8 + n)"
      using bit_imp_le_length [of b "8 + n"] by (auto simp: bit_ucast_iff)
    then have "bit ?hi (8 + n) = bit crc (8 + n)"
      by (simp only: bit_not_ff bit_xor_iff) simp
    then show "bit (drop_bit 8 ?hi) n = bit (drop_bit 8 crc) n"
      by (simp only: bit_drop_bit_eq comp_def)
  qed
  have "crc32_ref_step crc b = (crc32_round ^^ 8) (?lo XOR ?hi)"
    unfolding crc32_ref_step_def by (subst split_low_byte) (rule refl)
  also have "\<dots> = crc32_entry ?lo XOR drop_bit 8 crc"
    by (simp only: crc32_rounds_xor hi drop crc32_entry_def)
  also have "crc32_entry ?lo = crc32Table ! unat ?lo"
    by (simp add: crc32Table_nth low_byte_lt)
  finally show ?thesis by (simp add: crc32_step_def)
qed

lemma crc32_eq_ref: "crc32 data = crc32_ref data"
  by (simp add: crc32_def crc32_ref_def crc32_step_ref)

section \<open>A round loses nothing\<close>

text \<open>
  The polynomial has its top bit set, so the top bit of a round's result tells whether the
  polynomial was added, and the round can be undone.
\<close>

lemma bit_poly_31: "bit crc32_poly 31"
  by (simp add: crc32_poly_def bit_numeral_rec)

lemma xor_right_inject: "(a :: u32) XOR c = b XOR c \<longleftrightarrow> a = b"
  by (metis xor.assoc xor.right_neutral xor_self_eq)

lemma xor_left_inject: "(c :: u32) XOR a = c XOR b \<longleftrightarrow> a = b"
  by (metis xor.commute xor_right_inject)

lemma crc32_round_inject: "crc32_round a = crc32_round b \<longleftrightarrow> a = b"
proof
  assume eq: "crc32_round a = crc32_round b"
  have top: "bit (crc32_round c) 31 \<longleftrightarrow> bit c 0" for c
    using bit_poly_31 bit_imp_le_length [of c 32]
    by (cases "bit c 0") (auto simp: crc32_round_alt bit_xor_iff bit_drop_bit_eq)
  have low: "bit a 0 = bit b 0" using eq top by metis
  then have "drop_bit 1 a = drop_bit 1 b"
    using eq by (cases "bit b 0") (simp_all add: crc32_round_alt xor_right_inject)
  then have high: "bit a (Suc n) = bit b (Suc n)" for n
    by (metis bit_drop_bit_eq comp_apply plus_1_eq_Suc)
  show "a = b"
  proof (rule bit_word_eqI)
    fix n show "bit a n = bit b n" using low high by (cases n) auto
  qed
qed simp

lemma crc32_rounds_inject: "(crc32_round ^^ n) a = (crc32_round ^^ n) b \<longleftrightarrow> a = b"
  by (induction n) (simp_all add: crc32_round_inject)

lemma ucast_u8_u32_inject: "(ucast (a :: u8) :: u32) = ucast b \<longleftrightarrow> a = b"
proof
  assume eq: "(ucast a :: u32) = ucast b"
  show "a = b"
  proof (rule bit_word_eqI)
    fix n assume "n < LENGTH(8)"
    moreover have "bit (ucast a :: u32) n = bit (ucast b :: u32) n" by (simp only: eq)
    ultimately show "bit a n = bit b n" by (simp add: bit_ucast_iff)
  qed
qed simp

lemma crc32_ref_step_inject_crc: "crc32_ref_step c b = crc32_ref_step d b \<longleftrightarrow> c = d"
  by (simp add: crc32_ref_step_def crc32_rounds_inject xor_right_inject)

lemma crc32_ref_step_inject_byte: "crc32_ref_step c a = crc32_ref_step c b \<longleftrightarrow> a = b"
  by (simp add: crc32_ref_step_def crc32_rounds_inject xor_left_inject ucast_u8_u32_inject)

lemma crc32_fold_inject:
  "fold (\<lambda>b crc. crc32_ref_step crc b) data c = fold (\<lambda>b crc. crc32_ref_step crc b) data d \<longleftrightarrow> c = d"
  by (induction data arbitrary: c d) (simp_all add: crc32_ref_step_inject_crc)

text \<open>Every corruption of a single byte changes the checksum.\<close>

lemma crc32_single_byte:
  assumes "a \<noteq> b"
  shows "crc32 (xs @ a # ys) \<noteq> crc32 (xs @ b # ys)"
  using assms
  by (simp add: crc32_eq_ref crc32_ref_def xor_right_inject crc32_fold_inject crc32_ref_step_inject_byte)

lemma crc32_update_neq:
  assumes "i < length d" and "d ! i \<noteq> v"
  shows "crc32 (d[i := v]) \<noteq> crc32 d"
proof -
  have "crc32 (take i d @ v # drop (Suc i) d) \<noteq> crc32 (take i d @ d ! i # drop (Suc i) d)"
    using assms(2) by (intro crc32_single_byte) simp
  then show ?thesis
    using assms(1) by (simp add: upd_conv_take_nth_drop id_take_nth_drop [symmetric])
qed

end
