(* ===== verification/Audio_Packet.thy ===== *)
theory Audio_Packet
  imports Byte_Cursor Crc32
begin

text \<open>
  The 0xAF01 frame codec: \<open>include/naudio/AudioPacket.hpp\<close> and \<open>src/AudioPacket.cpp\<close>. A packet
  is a record of the six fields of the class; the wall clock read by the constructor is an
  argument. The lemmas show that decoding inverts encoding (up to the payload clamp), that a
  decoded frame re-encodes to the very bytes it came from, that every single-byte corruption
  outside the length field is rejected, and the arithmetic of the UDP chunk size.
\<close>

section \<open>Packet types\<close>

datatype packet_type = AudioRx | AudioTx | Control | Heartbeat | FecParity

fun packet_type_value :: "packet_type \<Rightarrow> u8" where
  "packet_type_value AudioRx = 0x00"
| "packet_type_value AudioTx = 0x01"
| "packet_type_value Control = 0x02"
| "packet_type_value Heartbeat = 0x03"
| "packet_type_value FecParity = 0x04"

definition packetTypeFromValue :: "u8 \<Rightarrow> packet_type option" where
  "packetTypeFromValue v =
     (if v = 0x00 then Some AudioRx
      else if v = 0x01 then Some AudioTx
      else if v = 0x02 then Some Control
      else if v = 0x03 then Some Heartbeat
      else if v = 0x04 then Some FecParity
      else None)"

fun packetTypeName :: "packet_type \<Rightarrow> string" where
  "packetTypeName AudioRx = ''AUDIO_RX''"
| "packetTypeName AudioTx = ''AUDIO_TX''"
| "packetTypeName Control = ''CONTROL''"
| "packetTypeName Heartbeat = ''HEARTBEAT''"
| "packetTypeName FecParity = ''FEC_PARITY''"

section \<open>The packet\<close>

definition MAGIC :: u16 where "MAGIC = 0xAF01"
definition VERSION :: u8 where "VERSION = 1"
definition HEADER_SIZE :: nat where "HEADER_SIZE = 19"
definition CRC_SIZE :: nat where "CRC_SIZE = 4"
definition MAX_PAYLOAD :: nat where "MAX_PAYLOAD = 16384"
definition UDP_MAX_PAYLOAD :: nat where "UDP_MAX_PAYLOAD = 1400"
definition UDP_MAX_AUDIO_PAYLOAD :: nat where
  "UDP_MAX_AUDIO_PAYLOAD = UDP_MAX_PAYLOAD - HEADER_SIZE - CRC_SIZE"

lemmas packet_consts = MAGIC_def VERSION_def HEADER_SIZE_def CRC_SIZE_def MAX_PAYLOAD_def
  UDP_MAX_PAYLOAD_def UDP_MAX_AUDIO_PAYLOAD_def

record audio_packet =
  version :: u8
  ptype :: packet_type
  flags :: u8
  sequence :: u32
  timestamp :: u64
  payload :: bytes

definition mk_packet :: "u64 \<Rightarrow> packet_type \<Rightarrow> u32 \<Rightarrow> bytes \<Rightarrow> audio_packet" where
  "mk_packet nowNanos t s d =
     \<lparr>version = VERSION, ptype = t, flags = 0, sequence = s, timestamp = nowNanos, payload = d\<rparr>"

definition createRxAudio :: "u64 \<Rightarrow> u32 \<Rightarrow> bytes \<Rightarrow> audio_packet" where
  "createRxAudio now s d = mk_packet now AudioRx s d"

definition createTxAudio :: "u64 \<Rightarrow> u32 \<Rightarrow> bytes \<Rightarrow> audio_packet" where
  "createTxAudio now s d = mk_packet now AudioTx s d"

definition createControl :: "u64 \<Rightarrow> u32 \<Rightarrow> bytes \<Rightarrow> audio_packet" where
  "createControl now s d = mk_packet now Control s d"

definition createHeartbeat :: "u64 \<Rightarrow> u32 \<Rightarrow> audio_packet" where
  "createHeartbeat now s = mk_packet now Heartbeat s []"

definition hasFlag :: "u8 \<Rightarrow> audio_packet \<Rightarrow> bool" where
  "hasFlag f p \<longleftrightarrow> flags p AND f \<noteq> 0"

definition setFlag :: "u8 \<Rightarrow> bool \<Rightarrow> audio_packet \<Rightarrow> audio_packet" where
  "setFlag f v p = p\<lparr>flags := (if v then flags p OR f else flags p AND NOT f)\<rparr>"

definition packetSize :: "nat \<Rightarrow> nat" where
  "packetSize n = HEADER_SIZE + n + CRC_SIZE"

definition packet_udpMaxAudioPayload :: "nat \<Rightarrow> nat" where
  "packet_udpMaxAudioPayload sampleFrameBytes =
     (if sampleFrameBytes = 0 then UDP_MAX_AUDIO_PAYLOAD
      else let fits = (UDP_MAX_AUDIO_PAYLOAD div sampleFrameBytes) * sampleFrameBytes
        in if fits > 0 then fits
           else let raw = (MAX_PAYLOAD div sampleFrameBytes) * sampleFrameBytes
             in if raw > 0 then raw else MAX_PAYLOAD)"

section \<open>Serialize and deserialize\<close>

text \<open>Header and payload, the bytes the CRC covers.\<close>

definition packet_body :: "audio_packet \<Rightarrow> bytes" where
  "packet_body p =
     (let payloadLen = min (length (payload p)) MAX_PAYLOAD;
          w = putU16 MAGIC [];
          w = putU8 (version p) w;
          w = putU8 (packet_type_value (ptype p)) w;
          w = putU8 (flags p) w;
          w = putI32 (sequence p) w;
          w = putI64 (timestamp p) w;
          w = putU16 (word_of_nat payloadLen) w
      in putBytes (take payloadLen (payload p)) w)"

definition serialize :: "audio_packet \<Rightarrow> bytes" where
  "serialize p = (let w = packet_body p in putU32 (crc32 w) w)"

text \<open>Field reads of \<open>deserialize\<close>, in the source's shift-and-or form.\<close>

definition read_u16 :: "bytes \<Rightarrow> nat \<Rightarrow> u16" where
  "read_u16 d i = push_bit 8 (ucast (d ! i)) OR ucast (d ! (i + 1))"

definition read_u32 :: "bytes \<Rightarrow> nat \<Rightarrow> u32" where
  "read_u32 d i = push_bit 24 (ucast (d ! i)) OR push_bit 16 (ucast (d ! (i + 1)))
     OR push_bit 8 (ucast (d ! (i + 2))) OR ucast (d ! (i + 3))"

definition read_u64 :: "bytes \<Rightarrow> nat \<Rightarrow> u64" where
  "read_u64 d i = fold (\<lambda>j v. push_bit 8 v OR ucast (d ! j)) [i..<i + 8] 0"

definition deserialize :: "bytes \<Rightarrow> audio_packet option" where
  "deserialize d =
     (if length d < HEADER_SIZE + CRC_SIZE then None
      else if read_u16 d 0 \<noteq> MAGIC then None
      else let ver = d ! 2; typeByte = d ! 3; fl = d ! 4;
               sq = read_u32 d 5;
               ts = read_u64 d 9;
               payloadLen = unat (read_u16 d 17)
        in case packetTypeFromValue typeByte of
             None \<Rightarrow> None
           | Some t \<Rightarrow>
               if payloadLen > MAX_PAYLOAD \<or> length d < HEADER_SIZE + payloadLen + CRC_SIZE then None
               else let pl = take payloadLen (drop HEADER_SIZE d);
                        crcOff = HEADER_SIZE + payloadLen;
                        receivedCrc = read_u32 d crcOff;
                        crc = crc32 (take crcOff d)
                 in if crc \<noteq> receivedCrc then None
                    else Some \<lparr>version = ver, ptype = t, flags = fl, sequence = sq,
                           timestamp = ts, payload = pl\<rparr>)"

section \<open>Types and flags\<close>

lemma packetTypeFromValue_value [simp]: "packetTypeFromValue (packet_type_value t) = Some t"
  by (cases t) (simp_all add: packetTypeFromValue_def)

lemma packetTypeFromValue_Some: "packetTypeFromValue v = Some t \<longleftrightarrow> v = packet_type_value t"
  by (cases t) (auto simp: packetTypeFromValue_def split: if_splits)

section \<open>Field layout\<close>

lemma packet_body_layout:
  "packet_body p = be_bytes16 MAGIC @ [version p, packet_type_value (ptype p), flags p]
     @ be_bytes32 (sequence p) @ be_bytes64 (timestamp p)
     @ be_bytes16 (word_of_nat (min (length (payload p)) MAX_PAYLOAD))
     @ take MAX_PAYLOAD (payload p)"
  by (simp add: packet_body_def Let_def put_defs min_def)

lemma length_packet_body: "length (packet_body p) = HEADER_SIZE + min (length (payload p)) MAX_PAYLOAD"
  by (simp add: packet_body_layout HEADER_SIZE_def)

lemma serialize_layout: "serialize p = packet_body p @ be_bytes32 (crc32 (packet_body p))"
  by (simp add: serialize_def put_defs Let_def)

lemma length_serialize: "length (serialize p) = packetSize (min (length (payload p)) MAX_PAYLOAD)"
  by (simp add: serialize_layout length_packet_body packetSize_def CRC_SIZE_def)

lemma nth_of_drop: "drop i d = xs @ ys \<Longrightarrow> j < length xs \<Longrightarrow> d ! (i + j) = xs ! j"
  by (metis append_Nil2 drop_all linorder_not_less nth_append nth_drop append_is_Nil_conv
      length_0_conv not_less_zero order_less_imp_le)

lemma be_bytes16_alt: "be_bytes16 u = map (\<lambda>i. byte_of i u) (rev [0..<2])"
  by (simp add: be_bytes16_def upt_rec)

lemma be_fold_bytes16: "be_fold 0 (be_bytes16 (u :: u16)) = u"
proof -
  have "drop_bit (2 * 8) u = 0"
    by (rule bit_word_eqI) (auto simp: bit_simps dest: bit_imp_le_length)
  then show ?thesis using be_fold_bytes [of 2 u] by (simp only: be_bytes16_alt)
qed

lemma map_nth_upt_drop: "i + n \<le> length d \<Longrightarrow> map (\<lambda>j. d ! j) [i..<i + n] = take n (drop i d)"
  by (rule nth_equalityI) simp_all

lemma map_nth_upt_prefix:
  "drop i d = xs @ r \<Longrightarrow> xs \<noteq> [] \<Longrightarrow> map (\<lambda>j. d ! j) [i..<i + length xs] = xs"
proof -
  assume d: "drop i d = xs @ r" and ne: "xs \<noteq> []"
  from d have len: "length xs \<le> length d - i" by (metis length_append length_drop le_add1)
  with ne have "i + length xs \<le> length d" by (cases xs) auto
  then show ?thesis by (simp add: map_nth_upt_drop d)
qed

lemma read_u16_fold: "read_u16 d i = be_fold 0 (map (\<lambda>j. d ! j) [i..<i + 2])"
proof -
  have "[i..<i + 2] = [i, i + 1]" by (simp add: upt_rec)
  then show ?thesis
    by (simp only: read_u16_def list.map be_fold_simps push_bit_of_0 or.left_neutral)
qed

lemma read_u16_be: "drop i d = be_bytes16 v @ r \<Longrightarrow> read_u16 d i = v"
proof -
  assume d: "drop i d = be_bytes16 v @ r"
  have "be_bytes16 v \<noteq> []" by (simp add: be_bytes16_def)
  from map_nth_upt_prefix [OF d this] show ?thesis
    by (simp only: read_u16_fold be_fold_bytes16 length_be_bytes16)
qed

lemma read_u32_fold: "read_u32 d i = be_fold 0 (map (\<lambda>j. d ! j) [i..<i + 4])"
proof -
  have join: "push_bit 24 a OR push_bit 16 b OR push_bit 8 c OR e =
      push_bit 8 (push_bit 8 (push_bit 8 a OR b) OR c) OR e" for a b c e :: u32
    by (simp only: push_bit_or push_bit_push_bit or.assoc) simp
  have "[i..<i + 4] = [i, i + 1, i + 2, i + 3]" by (simp add: upt_rec)
  then show ?thesis
    by (simp only: read_u32_def list.map be_fold_simps push_bit_of_0 or.left_neutral join)
qed

lemma read_u64_fold: "read_u64 d i = be_fold 0 (map (\<lambda>j. d ! j) [i..<i + 8])"
  by (simp add: read_u64_def be_fold_def fold_map comp_def)

lemma read_u32_be: "drop i d = be_bytes32 v @ r \<Longrightarrow> read_u32 d i = v"
proof -
  assume d: "drop i d = be_bytes32 v @ r"
  have "be_bytes32 v \<noteq> []" by (simp add: be_bytes32_def)
  from map_nth_upt_prefix [OF d this] show ?thesis by (simp add: read_u32_fold be_fold_bytes32)
qed

lemma read_u64_be: "drop i d = be_bytes64 v @ r \<Longrightarrow> read_u64 d i = v"
proof -
  assume d: "drop i d = be_bytes64 v @ r"
  have "be_bytes64 v \<noteq> []" by (simp add: be_bytes64_def)
  from map_nth_upt_prefix [OF d this] show ?thesis by (simp add: read_u64_fold be_fold_bytes64)
qed

text \<open>The converse: re-encoding what was read gives the bytes that were read.\<close>

lemma be_bytes16_read: "i + 2 \<le> length d \<Longrightarrow> be_bytes16 (read_u16 d i) = take 2 (drop i d)"
  using bytes_of_be_fold [of "take 2 (drop i d)" "0 :: u16"]
  by (simp only: be_bytes16_alt read_u16_fold map_nth_upt_drop) simp

lemma be_bytes32_read: "i + 4 \<le> length d \<Longrightarrow> be_bytes32 (read_u32 d i) = take 4 (drop i d)"
  using bytes_of_be_fold [of "take 4 (drop i d)" "0 :: u32"]
  by (simp add: be_bytes32_alt read_u32_fold map_nth_upt_drop)

lemma be_bytes64_read: "i + 8 \<le> length d \<Longrightarrow> be_bytes64 (read_u64 d i) = take 8 (drop i d)"
  using bytes_of_be_fold [of "take 8 (drop i d)" "0 :: u64"]
  by (simp add: be_bytes64_alt read_u64_fold map_nth_upt_drop)

section \<open>The codec\<close>

text \<open>The encoding of a packet whose payload fits, field by field.\<close>

definition frame :: "audio_packet \<Rightarrow> bytes" where
  "frame p = be_bytes16 MAGIC @ [version p, packet_type_value (ptype p), flags p]
     @ be_bytes32 (sequence p) @ be_bytes64 (timestamp p)
     @ be_bytes16 (word_of_nat (length (payload p))) @ payload p"

lemma length_frame: "length (frame p) = HEADER_SIZE + length (payload p)"
  by (simp add: frame_def HEADER_SIZE_def)

lemma packet_body_frame: "packet_body p = frame (p\<lparr>payload := take MAX_PAYLOAD (payload p)\<rparr>)"
  by (simp add: packet_body_layout frame_def min.commute)

lemma serialize_frame:
  "length (payload p) \<le> MAX_PAYLOAD \<Longrightarrow> serialize p = frame p @ be_bytes32 (crc32 (frame p))"
  by (simp add: serialize_layout packet_body_frame)

lemma serialize_clamp: "serialize p = serialize (p\<lparr>payload := take MAX_PAYLOAD (payload p)\<rparr>)"
  by (simp add: serialize_layout packet_body_frame)

lemma drop_app: "n = length xs \<Longrightarrow> drop n (xs @ ys) = ys"
  by simp

lemma unat_payload_len: "n \<le> MAX_PAYLOAD \<Longrightarrow> unat (word_of_nat n :: u16) = n"
  by (simp add: MAX_PAYLOAD_def unat_of_nat)

lemma frame_reads:
  assumes "length (payload p) \<le> MAX_PAYLOAD"
  shows "read_u16 (frame p @ r) 0 = MAGIC"
    and "(frame p @ r) ! 2 = version p"
    and "(frame p @ r) ! 3 = packet_type_value (ptype p)"
    and "(frame p @ r) ! 4 = flags p"
    and "read_u32 (frame p @ r) 5 = sequence p"
    and "read_u64 (frame p @ r) 9 = timestamp p"
    and "read_u16 (frame p @ r) 17 = word_of_nat (length (payload p))"
    and "drop HEADER_SIZE (frame p @ r) = payload p @ r"
proof -
  let ?len = "be_bytes16 (word_of_nat (length (payload p)))"
  let ?b = "[version p, packet_type_value (ptype p), flags p]"
  let ?s = "be_bytes32 (sequence p)" and ?t = "be_bytes64 (timestamp p)"
  have f: "frame p @ r = be_bytes16 MAGIC @ ?b @ ?s @ ?t @ ?len @ payload p @ r"
    by (simp add: frame_def)
  show "read_u16 (frame p @ r) 0 = MAGIC"
    by (rule read_u16_be [where r = "?b @ ?s @ ?t @ ?len @ payload p @ r"]) (simp add: f)
  show "(frame p @ r) ! 2 = version p" "(frame p @ r) ! 3 = packet_type_value (ptype p)"
    "(frame p @ r) ! 4 = flags p"
    by (simp_all add: f be_bytes16_def)
  have "drop 5 (frame p @ r) = ?s @ ?t @ ?len @ payload p @ r"
    unfolding f using drop_app [of 5 "be_bytes16 MAGIC @ ?b"] by simp
  then show "read_u32 (frame p @ r) 5 = sequence p" by (rule read_u32_be)
  have "drop 9 (frame p @ r) = ?t @ ?len @ payload p @ r"
    unfolding f using drop_app [of 9 "be_bytes16 MAGIC @ ?b @ ?s"] by simp
  then show "read_u64 (frame p @ r) 9 = timestamp p" by (rule read_u64_be)
  have "drop 17 (frame p @ r) = ?len @ payload p @ r"
    unfolding f using drop_app [of 17 "be_bytes16 MAGIC @ ?b @ ?s @ ?t"] by simp
  then show "read_u16 (frame p @ r) 17 = word_of_nat (length (payload p))" by (rule read_u16_be)
  show "drop HEADER_SIZE (frame p @ r) = payload p @ r"
    unfolding f HEADER_SIZE_def using drop_app [of 19 "be_bytes16 MAGIC @ ?b @ ?s @ ?t @ ?len"] by simp
qed

lemma deserialize_frame:
  assumes "length (payload p) \<le> MAX_PAYLOAD"
  shows "deserialize (frame p @ be_bytes32 c @ extra) = (if crc32 (frame p) = c then Some p else None)"
proof -
  define d where "d = frame p @ be_bytes32 c @ extra"
  note reads = frame_reads [OF assms, of "be_bytes32 c @ extra", folded d_def]
  have len: "length d = HEADER_SIZE + length (payload p) + CRC_SIZE + length extra"
    by (simp add: d_def length_frame CRC_SIZE_def)
  have crc: "read_u32 d (HEADER_SIZE + length (payload p)) = c"
    by (rule read_u32_be [where r = extra]) (simp add: d_def length_frame [symmetric])
  have tk: "take (HEADER_SIZE + length (payload p)) d = frame p"
    by (simp add: d_def length_frame [symmetric])
  have "deserialize d = (if crc32 (frame p) = c then Some p else None)"
    using assms len by (simp add: deserialize_def reads crc tk unat_payload_len Let_def)
  then show ?thesis by (simp only: d_def)
qed

lemma deserialize_serialize_extra:
  "deserialize (serialize p @ extra) = Some (p\<lparr>payload := take MAX_PAYLOAD (payload p)\<rparr>)"
proof -
  let ?q = "p\<lparr>payload := take MAX_PAYLOAD (payload p)\<rparr>"
  have ser: "serialize p @ extra = frame ?q @ be_bytes32 (crc32 (frame ?q)) @ extra"
    by (simp add: serialize_layout packet_body_frame)
  have "length (payload ?q) \<le> MAX_PAYLOAD" by simp
  from deserialize_frame [OF this, of "crc32 (frame ?q)" extra] show ?thesis
    unfolding ser by simp
qed

lemma deserialize_SomeD:
  assumes "deserialize d = Some p"
  shows "length (payload p) \<le> MAX_PAYLOAD \<and> d = serialize p @ drop (length (serialize p)) d"
proof -
  let ?n = "unat (read_u16 d 17)"
  have len: "HEADER_SIZE + ?n + CRC_SIZE \<le> length d" and n: "?n \<le> MAX_PAYLOAD"
    and magic: "read_u16 d 0 = MAGIC" and ty: "d ! 3 = packet_type_value (ptype p)"
    and crc: "crc32 (take (HEADER_SIZE + ?n) d) = read_u32 d (HEADER_SIZE + ?n)"
    and fields: "version p = d ! 2" "flags p = d ! 4" "sequence p = read_u32 d 5"
      "timestamp p = read_u64 d 9" "payload p = take ?n (drop HEADER_SIZE d)"
    using assms by (auto simp: deserialize_def Let_def packetTypeFromValue_Some split: if_splits option.splits)
  have l23: "23 \<le> length d" using len by (simp add: HEADER_SIZE_def CRC_SIZE_def)
  have plen: "length (payload p) = ?n" using len by (simp add: fields)
  have "frame p = take 2 (drop 0 d) @ take 3 (drop 2 d) @ take 4 (drop 5 d) @ take 8 (drop 9 d)
      @ take 2 (drop 17 d) @ take ?n (drop 19 d)"
  proof -
    have "[d ! 2, d ! 3, d ! 4] = take 3 (drop 2 d)"
      using map_nth_upt_drop [of 2 3 d] l23 by (simp add: upt_rec)
    moreover have "be_bytes16 (word_of_nat (length (payload p))) = take 2 (drop 17 d)"
      using be_bytes16_read [of 17 d] l23 by (simp add: plen)
    moreover have "be_bytes16 MAGIC = take 2 (drop 0 d)"
      using be_bytes16_read [of 0 d] l23 by (simp add: magic)
    ultimately show ?thesis
      using be_bytes32_read [of 5 d] be_bytes64_read [of 9 d] l23
      by (simp add: frame_def fields(1-4) ty [symmetric]) (simp add: fields HEADER_SIZE_def)
  qed
  also have "\<dots> = take (HEADER_SIZE + ?n) d"
    using take_add [of 2 3 d] take_add [of 5 4 d] take_add [of 9 8 d] take_add [of 17 2 d]
      take_add [of 19 ?n d] by (simp add: HEADER_SIZE_def)
  finally have fr: "frame p = take (HEADER_SIZE + ?n) d" .
  have "serialize p = take (HEADER_SIZE + ?n) d @ take 4 (drop (HEADER_SIZE + ?n) d)"
    using n plen crc len be_bytes32_read [of "HEADER_SIZE + ?n" d]
    by (simp add: serialize_frame fr CRC_SIZE_def)
  also have "\<dots> = take (HEADER_SIZE + ?n + 4) d" by (simp add: take_add)
  finally have "serialize p = take (length (serialize p)) d"
    by (metis length_take min.cobounded2 min_def take_all_iff take_take)
  then show ?thesis using n plen by (metis append_take_drop_id)
qed

lemma deserialize_crc:
  assumes "deserialize d = Some p"
  shows "length (payload p) = unat (read_u16 d 17)"
    and "HEADER_SIZE + unat (read_u16 d 17) + CRC_SIZE \<le> length d"
    and "crc32 (take (HEADER_SIZE + unat (read_u16 d 17)) d) = read_u32 d (HEADER_SIZE + unat (read_u16 d 17))"
  using assms by (auto simp: deserialize_def Let_def split: if_splits option.splits)

lemma read_u32_update_other: "i < j \<Longrightarrow> read_u32 (d[i := v]) j = read_u32 d j"
  by (simp add: read_u32_def)

lemma read_u32_update_neq:
  assumes "j \<le> i" "i < j + 4" "j + 4 \<le> length d" "v \<noteq> d ! i"
  shows "read_u32 (d[i := v]) j \<noteq> read_u32 d j"
proof
  assume "read_u32 (d[i := v]) j = read_u32 d j"
  then have "be_bytes32 (read_u32 (d[i := v]) j) = be_bytes32 (read_u32 d j)" by simp
  then have "take 4 (drop j (d[i := v])) ! (i - j) = take 4 (drop j d) ! (i - j)"
    using assms by (simp add: be_bytes32_read)
  then show False using assms by simp
qed

lemma deserialize_update_None:
  assumes ok: "deserialize d = Some p" and i: "i < packetSize (length (payload p))"
    and len: "i \<noteq> 17" "i \<noteq> 18" and v: "v \<noteq> d ! i"
  shows "deserialize (d[i := v]) = None"
proof (rule ccontr)
  assume "deserialize (d[i := v]) \<noteq> None"
  then obtain q where q: "deserialize (d[i := v]) = Some q" by auto
  let ?n = "unat (read_u16 d 17)" and ?e = "d[i := v]"
  have n: "read_u16 ?e 17 = read_u16 d 17" using len by (simp add: read_u16_def)
  have bound: "HEADER_SIZE + ?n + CRC_SIZE \<le> length d" and il: "i < HEADER_SIZE + ?n + CRC_SIZE"
    using deserialize_crc(1,2) [OF ok] i by (simp_all add: packetSize_def)
  have crc_d: "crc32 (take (HEADER_SIZE + ?n) d) = read_u32 d (HEADER_SIZE + ?n)"
    by (rule deserialize_crc(3) [OF ok])
  have crc_e: "crc32 (take (HEADER_SIZE + ?n) ?e) = read_u32 ?e (HEADER_SIZE + ?n)"
    using deserialize_crc(3) [OF q] by (simp only: n)
  show False
  proof (cases "i < HEADER_SIZE + ?n")
    case True
    have "crc32 ((take (HEADER_SIZE + ?n) d)[i := v]) \<noteq> crc32 (take (HEADER_SIZE + ?n) d)"
      using True bound v by (intro crc32_update_neq) auto
    then show False
      using crc_d crc_e True by (simp add: take_update_swap read_u32_update_other)
  next
    case False
    then have "read_u32 ?e (HEADER_SIZE + ?n) \<noteq> read_u32 d (HEADER_SIZE + ?n)"
      using il bound v by (intro read_u32_update_neq) (auto simp: CRC_SIZE_def)
    then show False using crc_d crc_e False by simp
  qed
qed

lemma deserialize_serialize: "deserialize (serialize p) = Some (p\<lparr>payload := take MAX_PAYLOAD (payload p)\<rparr>)"
  using deserialize_serialize_extra [of p "[]"] by simp

section \<open>Properties\<close>

text \<open>
  C1: the decoder accepts exactly the encodings. A byte string decodes to a packet if and only
  if it starts with that packet's serialization and the packet's payload fits the wire limit:
  nothing else is accepted, and bytes after the frame are ignored.
\<close>

theorem codec_decode_iff:
  "deserialize d = Some p \<longleftrightarrow> length (payload p) \<le> MAX_PAYLOAD \<and> (\<exists>extra. d = serialize p @ extra)"
proof
  assume "deserialize d = Some p"
  then show "length (payload p) \<le> MAX_PAYLOAD \<and> (\<exists>extra. d = serialize p @ extra)"
    using deserialize_SomeD by blast
next
  assume "length (payload p) \<le> MAX_PAYLOAD \<and> (\<exists>extra. d = serialize p @ extra)"
  then show "deserialize d = Some p" by (auto simp: deserialize_serialize_extra)
qed

text \<open>
  What the encoder emits is always decodable and gives back every field; the payload comes
  back clamped to the wire limit, and the frame is never longer than the limit allows.
\<close>

theorem codec_roundtrip:
  "deserialize (serialize p) = Some (p\<lparr>payload := take MAX_PAYLOAD (payload p)\<rparr>) \<and>
   length (serialize p) = packetSize (min (length (payload p)) MAX_PAYLOAD)"
  by (simp add: deserialize_serialize length_serialize)

text \<open>
  C35: a frame that decodes, with any one byte outside the two length bytes changed, is rejected:
  the CRC detects every single-byte corruption of the header, the payload and the CRC itself.
\<close>

theorem codec_single_byte_corruption:
  assumes "deserialize d = Some p" and "i < packetSize (length (payload p))"
    and "i \<noteq> 17" and "i \<noteq> 18" and "v \<noteq> d ! i"
  shows "deserialize (d[i := v]) = None"
  using assms by (rule deserialize_update_None)

theorem codec_single_byte_corruption_witness:
  "deserialize ((serialize (mk_packet 5 AudioRx 7 [1, 2]))[19 := 9]) = None"
proof (rule codec_single_byte_corruption)
  let ?p = "mk_packet 5 AudioRx 7 [1, 2]"
  show "deserialize (serialize ?p) = Some ?p"
    by (simp add: deserialize_serialize) (simp add: mk_packet_def MAX_PAYLOAD_def)
  show "19 < packetSize (length (payload ?p))"
    by (simp add: mk_packet_def packetSize_def HEADER_SIZE_def)
  have "serialize ?p ! 19 = 1"
    by (simp add: serialize_layout packet_body_layout mk_packet_def MAX_PAYLOAD_def be_bytes16_def
        be_bytes32_def be_bytes64_def)
  then show "9 \<noteq> serialize ?p ! 19" by simp
qed simp_all

text \<open>
  The table-driven CRC loop computes the bit-at-a-time CRC-32 (reflected polynomial
  0xEDB88320, all-ones start value, complemented result).
\<close>

theorem crc32_table_correct: "crc32 data = crc32_ref data"
  by (rule crc32_eq_ref)

text \<open>
  The UDP chunk size is never zero (so the send loop advances), never above what a frame
  can carry, a whole number of sample frames whenever one sample frame fits a frame, and inside
  the MTU advisory whenever one sample frame fits the advisory.
\<close>

theorem udp_chunk_size:
  "0 < packet_udpMaxAudioPayload n \<and> packet_udpMaxAudioPayload n \<le> MAX_PAYLOAD \<and>
   (n \<le> MAX_PAYLOAD \<longrightarrow> n dvd packet_udpMaxAudioPayload n \<or> n = 0) \<and>
   (n \<le> UDP_MAX_AUDIO_PAYLOAD \<longrightarrow> packetSize (packet_udpMaxAudioPayload n) \<le> UDP_MAX_PAYLOAD)"
proof (cases "n = 0 \<or> n \<le> UDP_MAX_AUDIO_PAYLOAD")
  case True
  then have "0 < n \<Longrightarrow> 0 < UDP_MAX_AUDIO_PAYLOAD div n"
    by (simp add: div_greater_zero_iff)
  moreover have "UDP_MAX_AUDIO_PAYLOAD div n * n \<le> UDP_MAX_AUDIO_PAYLOAD" by simp
  moreover from this have "UDP_MAX_AUDIO_PAYLOAD div n * n \<le> MAX_PAYLOAD"
    by (rule order_trans) (simp add: packet_consts)
  ultimately show ?thesis
    using True by (auto simp: packet_udpMaxAudioPayload_def Let_def packetSize_def packet_consts)
next
  case False
  have "MAX_PAYLOAD div n * n \<le> MAX_PAYLOAD" by simp
  with False show ?thesis
    by (auto simp: packet_udpMaxAudioPayload_def Let_def div_greater_zero_iff MAX_PAYLOAD_def)
qed

theorem udp_chunk_size_witness:
  "packet_udpMaxAudioPayload 4 = 1376 \<and> (4::nat) dvd packet_udpMaxAudioPayload 4 \<and>
   packetSize (packet_udpMaxAudioPayload 4) \<le> UDP_MAX_PAYLOAD"
  using udp_chunk_size [of 4] by (simp add: packet_udpMaxAudioPayload_def packet_consts packetSize_def)

end
