(* ===== verification/Fec_Encoder.thy ===== *)
theory Fec_Encoder
  imports Audio_Packet
begin

text \<open>
  The XOR parity encoder: \<open>src/FecEncoder.cpp\<close>. The lemmas give the algebra of the payload XOR
  (shared with the decoder) and the parity packet of a block in closed form.
\<close>

section \<open>Operations\<close>

definition PARITY_HEADER_SIZE :: nat where "PARITY_HEADER_SIZE = 5"
definition MIN_BLOCK_SIZE :: nat where "MIN_BLOCK_SIZE = 2"
definition MAX_BLOCK_SIZE :: nat where "MAX_BLOCK_SIZE = 10"

record fec_encoder =
  fe_blockSize :: nat
  fe_payloads :: "bytes list"
  fe_startSequence :: u32
  fe_maxPayloadLen :: nat

definition mk_fec_encoder :: "nat \<Rightarrow> cpp_exn + fec_encoder" where
  "mk_fec_encoder n =
     (if n < MIN_BLOCK_SIZE \<or> n > MAX_BLOCK_SIZE then Inl (Invalid_argument ''blockSize must be 2-10'')
      else Inr \<lparr>fe_blockSize = n, fe_payloads = [], fe_startSequence = 0, fe_maxPayloadLen = 0\<rparr>)"

text \<open>The inner loop \<open>for j < p.size(): acc[j] ^= p[j]\<close>, bounded by the accumulator.\<close>

fun xor_into :: "bytes \<Rightarrow> bytes \<Rightarrow> bytes" where
  "xor_into (a # as) (p # ps) = (a XOR p) # xor_into as ps"
| "xor_into as [] = as"
| "xor_into [] ps = []"

definition buildParityPacket :: "u64 \<Rightarrow> u32 \<Rightarrow> fec_encoder \<Rightarrow> audio_packet" where
  "buildParityPacket now lastSequence e =
     (let xorData = foldl xor_into (replicate (fe_maxPayloadLen e) 0) (fe_payloads e);
          w = putI32 (fe_startSequence e) [];
          w = putU8 (word_of_nat (fe_blockSize e)) w;
          w = putBytes xorData w
      in mk_packet now FecParity (lastSequence + 1) w)"

definition fe_reset :: "fec_encoder \<Rightarrow> fec_encoder" where
  "fe_reset e = e\<lparr>fe_payloads := [], fe_maxPayloadLen := 0\<rparr>"

definition recordAndMaybeEmit :: "u64 \<Rightarrow> audio_packet \<Rightarrow> fec_encoder \<Rightarrow> fec_encoder \<times> audio_packet option" where
  "recordAndMaybeEmit now p e =
     (let e = (if fe_payloads e = [] then e\<lparr>fe_startSequence := sequence p, fe_maxPayloadLen := 0\<rparr> else e);
          e = (if length (payload p) > fe_maxPayloadLen e then e\<lparr>fe_maxPayloadLen := length (payload p)\<rparr> else e);
          e = e\<lparr>fe_payloads := fe_payloads e @ [payload p]\<rparr>
      in if length (fe_payloads e) \<ge> fe_blockSize e
         then (fe_reset e, Some (buildParityPacket now (sequence p) e))
         else (e, None))"

definition fe_currentCount :: "fec_encoder \<Rightarrow> nat" where
  "fe_currentCount e = length (fe_payloads e)"

text \<open>The packets of a send path in order, with the parities they release.\<close>

fun fe_run :: "u64 \<Rightarrow> audio_packet list \<Rightarrow> fec_encoder \<Rightarrow> fec_encoder \<times> audio_packet option list" where
  "fe_run now [] e = (e, [])"
| "fe_run now (p # ps) e = (let (e', r) = recordAndMaybeEmit now p e; (e'', rs) = fe_run now ps e' in (e'', r # rs))"

section \<open>The algebra of the payload XOR\<close>

lemma length_xor_into [simp]: "length (xor_into a p) = length a"
  by (induction a p rule: xor_into.induct) auto

lemma length_foldl_xor [simp]: "length (foldl xor_into a ps) = length a"
  by (induction ps arbitrary: a) auto

lemma xor_into_nth: "j < length a \<Longrightarrow> xor_into a p ! j = (if j < length p then a ! j XOR p ! j else a ! j)"
proof (induction a p arbitrary: j rule: xor_into.induct)
  case (1 a as p ps)
  then show ?case by (cases j) auto
qed auto

lemma xor_into_commute: "xor_into (xor_into a p) q = xor_into (xor_into a q) p"
  by (rule nth_equalityI) (auto simp: xor_into_nth ac_simps)

lemma xor_into_twice [simp]: "xor_into (xor_into a p) p = a"
  by (rule nth_equalityI) (auto simp: xor_into_nth ac_simps)

text \<open>A payload zero-extended to a length.\<close>

definition pad_to :: "nat \<Rightarrow> bytes \<Rightarrow> bytes" where
  "pad_to n p = p @ replicate (n - length p) 0"

lemma pad_to_exact [simp]: "length p = n \<Longrightarrow> pad_to n p = p"
  by (simp add: pad_to_def)

lemma xor_into_pad: "length p \<le> n \<Longrightarrow> xor_into (replicate n 0) p = pad_to n p"
  by (rule nth_equalityI) (auto simp: xor_into_nth pad_to_def nth_append)

lemma foldl_xor_pull: "foldl xor_into (xor_into a p) ps = xor_into (foldl xor_into a ps) p"
  by (induction ps arbitrary: a) (simp_all add: xor_into_commute)

text \<open>Folding the same payloads in again cancels them, in whatever order.\<close>

lemma foldl_xor_cancel: "foldl xor_into (foldl xor_into a ps) ps = a"
  by (induction ps arbitrary: a) (simp_all add: foldl_xor_pull)

lemma foldl_xor_missing:
  "foldl xor_into (foldl xor_into a (xs @ y # zs)) (xs @ zs) = xor_into a y"
proof -
  have "foldl xor_into a (xs @ y # zs) = xor_into (foldl xor_into a (xs @ zs)) y"
    by (simp add: foldl_xor_pull)
  then show ?thesis by (simp only: foldl_xor_pull foldl_xor_cancel)
qed

section \<open>A block\<close>

definition max_len :: "bytes list \<Rightarrow> nat" where
  "max_len pls = fold max (map length pls) 0"

definition parity_payload :: "u32 \<Rightarrow> bytes list \<Rightarrow> bytes" where
  "parity_payload s pls = be_bytes32 s @ word_of_nat (length pls) #
     foldl xor_into (replicate (max_len pls) 0) pls"

lemma max_len_snoc: "max_len (pls @ [p]) = max (length p) (max_len pls)"
  by (simp add: max_len_def)

lemma max_len_uniform: "pls \<noteq> [] \<Longrightarrow> \<forall>p \<in> set pls. length p = n \<Longrightarrow> max_len pls = n"
proof (induction pls rule: rev_induct)
  case (snoc p pls)
  then show ?case by (cases "pls = []") (auto simp: max_len_snoc, simp add: max_len_def)
qed simp

lemma max_len_upper: "p \<in> set pls \<Longrightarrow> length p \<le> max_len pls"
proof (induction pls rule: rev_induct)
  case (snoc q pls)
  then show ?case by (auto simp: max_len_snoc max_def)
qed simp

text \<open>The encoder in the middle of a block, after the packets \<open>ps\<close>.\<close>

definition fe_mid :: "nat \<Rightarrow> audio_packet list \<Rightarrow> fec_encoder \<Rightarrow> bool" where
  "fe_mid n ps e \<longleftrightarrow> fe_blockSize e = n \<and> fe_payloads e = map payload ps \<and> length ps < n \<and>
     (ps \<noteq> [] \<longrightarrow> fe_startSequence e = sequence (hd ps) \<and> fe_maxPayloadLen e = max_len (map payload ps))"

lemma record_mid:
  assumes "fe_mid n ps e"
  shows "Suc (length ps) < n \<Longrightarrow> \<exists>e'. recordAndMaybeEmit now p e = (e', None) \<and> fe_mid n (ps @ [p]) e'"
    and "Suc (length ps) = n \<Longrightarrow> \<exists>e'. recordAndMaybeEmit now p e =
      (e', Some (mk_packet now FecParity (sequence p + 1) (parity_payload (sequence (hd (ps @ [p]))) (map payload (ps @ [p])))))
      \<and> fe_mid n [] e'"
proof -
  let ?e = "e\<lparr>fe_startSequence := sequence (hd (ps @ [p])), fe_maxPayloadLen := max_len (map payload (ps @ [p])),
    fe_payloads := map payload (ps @ [p])\<rparr>"
  have e: "recordAndMaybeEmit now p e = (if length (fe_payloads ?e) \<ge> fe_blockSize ?e
    then (fe_reset ?e, Some (buildParityPacket now (sequence p) ?e)) else (?e, None))"
  proof (cases "ps = []")
    case True
    with assms show ?thesis by (auto simp: recordAndMaybeEmit_def fe_mid_def max_len_def Let_def)
  next
    case False
    then have "max_len (map payload (ps @ [p])) = max (length (payload p)) (fe_maxPayloadLen e)"
      and "sequence (hd (ps @ [p])) = fe_startSequence e"
      using assms by (auto simp: fe_mid_def max_len_snoc)
    with False assms show ?thesis
      by (cases e) (auto simp: recordAndMaybeEmit_def fe_mid_def Let_def max_def)
  qed
  show "Suc (length ps) < n \<Longrightarrow> \<exists>e'. recordAndMaybeEmit now p e = (e', None) \<and> fe_mid n (ps @ [p]) e'"
    using assms by (simp add: e fe_mid_def)
  show "Suc (length ps) = n \<Longrightarrow> \<exists>e'. recordAndMaybeEmit now p e =
      (e', Some (mk_packet now FecParity (sequence p + 1) (parity_payload (sequence (hd (ps @ [p]))) (map payload (ps @ [p])))))
      \<and> fe_mid n [] e'"
    using assms by (simp add: e fe_mid_def fe_reset_def buildParityPacket_def parity_payload_def put_defs)
qed

lemma fe_run_block:
  assumes "fe_mid n ps e" and "length ps + length qs = n" and "qs \<noteq> []"
  shows "\<exists>e'. fe_run now qs e = (e', replicate (length qs - 1) None @
      [Some (mk_packet now FecParity (sequence (last qs) + 1)
        (parity_payload (sequence (hd (ps @ qs))) (map payload (ps @ qs))))]) \<and> fe_mid n [] e'"
  using assms
proof (induction qs arbitrary: ps e)
  case (Cons q qs)
  show ?case
  proof (cases "qs = []")
    case True
    with record_mid(2) [OF Cons.prems(1), of now q] Cons.prems(2) show ?thesis by auto
  next
    case False
    then have "Suc (length ps) < n" using Cons.prems(2) by (cases qs) auto
    from record_mid(1) [OF Cons.prems(1) this, of now q] obtain e'
      where e': "recordAndMaybeEmit now q e = (e', None)" "fe_mid n (ps @ [q]) e'" by auto
    from False obtain m where m: "length qs = Suc m" by (cases qs) auto
    from Cons.IH [OF e'(2)] Cons.prems(2) False obtain e''
      where "fe_run now qs e' = (e'', replicate (length qs - 1) None @
        [Some (mk_packet now FecParity (sequence (last qs) + 1)
          (parity_payload (sequence (hd (ps @ q # qs))) (map payload (ps @ q # qs))))])" "fe_mid n [] e''"
      by auto
    with e'(1) False m show ?thesis by simp
  qed
qed simp

lemma fe_mid_fresh: "mk_fec_encoder n = Inr e \<Longrightarrow> fe_mid n [] e"
  by (auto simp: mk_fec_encoder_def fe_mid_def MIN_BLOCK_SIZE_def split: if_splits)

end
