(* ===== verification/Fec_Decoder.thy ===== *)
theory Fec_Decoder
  imports Fec_Encoder
begin

text \<open>
  The XOR recovery decoder with its hold-until-resolved delivery: \<open>src/FecDecoder.cpp\<close>.
  Sequence numbers are the signed 32-bit values the source uses as map keys, as integers; the
  calls to the emitter are a list of (packet or silence, provenance) pairs. \<open>now\<close> is the last
  reading of the injected clock that a call makes (an earlier reading of the same call only sets a
  time stamp that the last one overwrites or that the call drops), \<open>nanos\<close> the wall clock that the
  constructor of a recovered packet reads.
\<close>

section \<open>State\<close>

datatype provenance = Live | Recovered

record fec_block =
  fb_startSeq :: int
  fb_blockSize :: int
  fb_touchedAtMs :: int
  fb_packets :: "(int, audio_packet) omap"
  fb_missingSequences :: "int list"

record held_packet =
  hp_packet :: audio_packet
  hp_provenance :: provenance

record fec_decoder =
  fd_blockTimeoutMs :: int
  fd_pendingIdleMs :: int
  fd_activeBlocks :: "(int, fec_block) omap"
  fd_discardedSequences :: "int list"
  fd_heldPackets :: "(int, held_packet) omap"
  fd_holding :: bool
  fd_holdBaseSeq :: int
  fd_nextExpectedSeq :: int
  fd_packetsRecoveredByFec :: int
  fd_fecBlocksComplete :: int
  fd_fecBlocksFailed :: int
  fd_fecBlocksUnreconciled :: int
  fd_pendingPacketsDiscarded :: int

type_synonym fec_emits = "(audio_packet option \<times> provenance) list"

definition DEFAULT_BLOCK_TIMEOUT_MS :: int where "DEFAULT_BLOCK_TIMEOUT_MS = 60"
definition MIN_PENDING_IDLE_MS :: int where "MIN_PENDING_IDLE_MS = DEFAULT_BLOCK_TIMEOUT_MS * 2"
definition MAX_PENDING_IDLE_MS :: int where "MAX_PENDING_IDLE_MS = 500"
definition MAX_PENDING_PACKETS :: nat where "MAX_PENDING_PACKETS = 4 * MAX_BLOCK_SIZE"
definition MAX_HELD_PACKETS :: nat where "MAX_HELD_PACKETS = 2 * MAX_BLOCK_SIZE"
definition PENDING_KEY :: int where "PENDING_KEY = - (2 ^ 31)"

definition mk_fec_decoder :: "int \<Rightarrow> fec_decoder" where
  "mk_fec_decoder blockTimeoutMs =
     \<lparr>fd_blockTimeoutMs = blockTimeoutMs, fd_pendingIdleMs = blockTimeoutMs * 2, fd_activeBlocks = [],
      fd_discardedSequences = [], fd_heldPackets = [], fd_holding = False, fd_holdBaseSeq = 0,
      fd_nextExpectedSeq = -1, fd_packetsRecoveredByFec = 0, fd_fecBlocksComplete = 0,
      fd_fecBlocksFailed = 0, fd_fecBlocksUnreconciled = 0, fd_pendingPacketsDiscarded = 0\<rparr>"

definition mk_fec_block :: "int \<Rightarrow> int \<Rightarrow> int \<Rightarrow> fec_block" where
  "mk_fec_block s bs touched = \<lparr>fb_startSeq = s, fb_blockSize = bs, fb_touchedAtMs = touched,
     fb_packets = [], fb_missingSequences = []\<rparr>"

definition fb_covers :: "int \<Rightarrow> fec_block \<Rightarrow> bool" where
  "fb_covers sq b \<longleftrightarrow> sq \<ge> fb_startSeq b \<and> sq < fb_startSeq b + fb_blockSize b"

definition fd_isAudio :: "packet_type \<Rightarrow> bool" where
  "fd_isAudio t \<longleftrightarrow> t = AudioRx \<or> t = AudioTx"

text \<open>\<open>std::clamp\<close>.\<close>

definition setPendingIdleTimeoutMs :: "int \<Rightarrow> fec_decoder \<Rightarrow> fec_decoder" where
  "setPendingIdleTimeoutMs idleMs d = d\<lparr>fd_pendingIdleMs :=
     (if idleMs < MIN_PENDING_IDLE_MS then MIN_PENDING_IDLE_MS
      else if MAX_PENDING_IDLE_MS < idleMs then MAX_PENDING_IDLE_MS else idleMs)\<rparr>"

definition fd_reset :: "fec_decoder \<Rightarrow> fec_decoder" where
  "fd_reset d = d\<lparr>fd_activeBlocks := [], fd_discardedSequences := [], fd_heldPackets := [],
     fd_holding := False, fd_holdBaseSeq := 0, fd_nextExpectedSeq := -1, fd_packetsRecoveredByFec := 0,
     fd_fecBlocksComplete := 0, fd_fecBlocksFailed := 0, fd_fecBlocksUnreconciled := 0,
     fd_pendingPacketsDiscarded := 0\<rparr>"

section \<open>Hold and release\<close>

definition noteSequenceAndDetectGap :: "int \<Rightarrow> fec_decoder \<Rightarrow> fec_decoder \<times> int option" where
  "noteSequenceAndDetectGap sq d =
     (let nxt = i32 (wrap32 sq + 1)
      in if fd_nextExpectedSeq d < 0 then (d\<lparr>fd_nextExpectedSeq := nxt\<rparr>, None)
         else let ahead = wrap32 (wrap32 sq - wrap32 (fd_nextExpectedSeq d))
           in if ahead \<ge> 0x80000000 then (d, None)
              else let gapStart = fd_nextExpectedSeq d; d = d\<lparr>fd_nextExpectedSeq := nxt\<rparr>
                in if ahead = 0 then (d, None) else (d, Some gapStart))"

definition beginHold :: "int \<Rightarrow> fec_decoder \<Rightarrow> fec_decoder" where
  "beginHold baseSeq d = (if fd_holding d then d else d\<lparr>fd_holding := True, fd_holdBaseSeq := baseSeq\<rparr>)"

text \<open>The stable sort by the wrapping distance from the hold's origin.\<close>

definition hold_distance :: "int \<Rightarrow> held_packet \<Rightarrow> int" where
  "hold_distance base h = wrap32 (uint (sequence (hp_packet h)) - wrap32 base)"

definition releaseHeld :: "fec_decoder \<Rightarrow> fec_decoder \<times> fec_emits" where
  "releaseHeld d =
     (if \<not> fd_holding d then (d, [])
      else let ordered = sort_key (hold_distance (fd_holdBaseSeq d)) (map snd (fd_heldPackets d))
        in (d\<lparr>fd_heldPackets := [], fd_holding := False\<rparr>,
            map (\<lambda>h. (Some (hp_packet h), hp_provenance h)) ordered))"

section \<open>The pending block\<close>

definition matchingBlockKey :: "int \<Rightarrow> fec_decoder \<Rightarrow> int option" where
  "matchingBlockKey sq d = map_option fst (find (\<lambda>(k, b). fb_covers sq b) (fd_activeBlocks d))"

text \<open>
  \<open>getOrCreateBlock\<close> returns a reference that the caller writes through; here the write is the
  argument \<open>f\<close>.
\<close>

definition getOrCreateBlock :: "int \<Rightarrow> int \<Rightarrow> (fec_block \<Rightarrow> fec_block) \<Rightarrow> fec_decoder \<Rightarrow> fec_decoder" where
  "getOrCreateBlock now key f d =
     (let b = (case omap_get (fd_activeBlocks d) key of
                 None \<Rightarrow> mk_fec_block PENDING_KEY 0 now
               | Some b \<Rightarrow> if key = PENDING_KEY then b\<lparr>fb_touchedAtMs := now\<rparr> else b)
      in d\<lparr>fd_activeBlocks := omap_put key (f b) (fd_activeBlocks d)\<rparr>)"

text \<open>The three eviction loops of \<open>capPending\<close>, each from the front of an ordered container.\<close>

fun cap_packets :: "(int, audio_packet) omap \<Rightarrow> int list \<Rightarrow> int \<Rightarrow> (int, audio_packet) omap \<times> int list \<times> int" where
  "cap_packets [] disc n = ([], disc, n)"
| "cap_packets ((k, p) # ps) disc n =
     (if length ((k, p) # ps) > MAX_PENDING_PACKETS then cap_packets ps (oset_insert k disc) (n + 1)
      else ((k, p) # ps, disc, n))"

fun cap_set :: "int list \<Rightarrow> int list" where
  "cap_set [] = []"
| "cap_set (x # xs) = (if length (x # xs) > MAX_PENDING_PACKETS then cap_set xs else x # xs)"

definition capPending :: "fec_decoder \<Rightarrow> fec_decoder" where
  "capPending d =
     (case omap_get (fd_activeBlocks d) PENDING_KEY of
        None \<Rightarrow> d
      | Some b \<Rightarrow>
          let (ps, disc, n) = cap_packets (fb_packets b) (fd_discardedSequences d) (fd_pendingPacketsDiscarded d)
          in d\<lparr>fd_activeBlocks := omap_put PENDING_KEY
                 (b\<lparr>fb_packets := ps, fb_missingSequences := cap_set (fb_missingSequences b)\<rparr>) (fd_activeBlocks d),
               fd_discardedSequences := cap_set disc, fd_pendingPacketsDiscarded := n\<rparr>)"

definition storeInBlock :: "int \<Rightarrow> int \<Rightarrow> audio_packet \<Rightarrow> fec_decoder \<Rightarrow> fec_decoder" where
  "storeInBlock now sq p d =
     (let key = (case matchingBlockKey sq d of Some k \<Rightarrow> k | None \<Rightarrow> PENDING_KEY);
          d = getOrCreateBlock now key (\<lambda>b. b\<lparr>fb_packets := omap_put sq p (fb_packets b)\<rparr>) d
      in if key = PENDING_KEY then capPending d else d)"

definition recordMissing :: "int \<Rightarrow> int \<Rightarrow> fec_decoder \<Rightarrow> fec_decoder" where
  "recordMissing now sq d =
     (let key = (case matchingBlockKey sq d of Some k \<Rightarrow> k | None \<Rightarrow> PENDING_KEY);
          d = getOrCreateBlock now key (\<lambda>b. b\<lparr>fb_missingSequences := oset_insert sq (fb_missingSequences b)\<rparr>) d
      in if key = PENDING_KEY then capPending d else d)"

section \<open>Parity\<close>

definition in_range :: "int \<Rightarrow> int \<Rightarrow> int \<Rightarrow> bool" where
  "in_range startSeq blockEnd sq \<longleftrightarrow> sq \<ge> startSeq \<and> sq < blockEnd"

text \<open>Move the pending entries of the range into the block, re-file the others.\<close>

fun split_packets :: "int \<Rightarrow> int \<Rightarrow> int \<Rightarrow> (int, audio_packet) omap \<Rightarrow> fec_block \<Rightarrow> fec_decoder \<Rightarrow> fec_block \<times> fec_decoder" where
  "split_packets now s e [] b d = (b, d)"
| "split_packets now s e ((sq, p) # ps) b d =
     (if in_range s e sq then split_packets now s e ps (b\<lparr>fb_packets := omap_put sq p (fb_packets b)\<rparr>) d
      else split_packets now s e ps b
        (getOrCreateBlock now PENDING_KEY (\<lambda>b. b\<lparr>fb_packets := omap_put sq p (fb_packets b)\<rparr>) d))"

fun split_missing :: "int \<Rightarrow> int \<Rightarrow> int \<Rightarrow> int list \<Rightarrow> fec_block \<Rightarrow> fec_decoder \<Rightarrow> fec_block \<times> fec_decoder" where
  "split_missing now s e [] b d = (b, d)"
| "split_missing now s e (sq # ms) b d =
     (if in_range s e sq then split_missing now s e ms (b\<lparr>fb_missingSequences := oset_insert sq (fb_missingSequences b)\<rparr>) d
      else split_missing now s e ms b
        (getOrCreateBlock now PENDING_KEY (\<lambda>b. b\<lparr>fb_missingSequences := oset_insert sq (fb_missingSequences b)\<rparr>) d))"

definition collect_block :: "int \<Rightarrow> int \<Rightarrow> int \<Rightarrow> fec_decoder \<Rightarrow> fec_block \<times> fec_decoder" where
  "collect_block now startSeq blockSize d =
     (let blockEnd = startSeq + blockSize;
          (block, d) = (case omap_get (fd_activeBlocks d) startSeq of
              None \<Rightarrow> (mk_fec_block startSeq blockSize now, d)
            | Some b \<Rightarrow> (b\<lparr>fb_blockSize := blockSize\<rparr>,
                d\<lparr>fd_activeBlocks := omap_del startSeq (fd_activeBlocks d)\<rparr>))
      in case omap_get (fd_activeBlocks d) PENDING_KEY of
           None \<Rightarrow> (block, d)
         | Some pending \<Rightarrow>
             let d = d\<lparr>fd_activeBlocks := omap_del PENDING_KEY (fd_activeBlocks d)\<rparr>;
                 (block, d) = split_packets now startSeq blockEnd (fb_packets pending) block d;
                 (block, d) = split_missing now startSeq blockEnd (fb_missingSequences pending) block d
             in (block, capPending d))"

text \<open>The scan of the range: what it holds, slot by slot.\<close>

record range_info =
  ri_missingCount :: nat
  ri_missingSeq :: int
  ri_audioOnly :: bool
  ri_hasDiscarded :: bool
  ri_typeSeen :: bool
  ri_typeUniform :: bool
  ri_memberType :: packet_type

definition scan_slot :: "int list \<Rightarrow> (int, audio_packet) omap \<Rightarrow> int \<Rightarrow> range_info \<Rightarrow> range_info" where
  "scan_slot disc ps s r =
     (let sq = i32 s
      in case omap_get ps sq of
           None \<Rightarrow> r\<lparr>ri_missingCount := ri_missingCount r + 1, ri_missingSeq := sq,
             ri_hasDiscarded := ri_hasDiscarded r \<or> sq \<in> set disc\<rparr>
         | Some p \<Rightarrow>
             if \<not> fd_isAudio (ptype p) then r\<lparr>ri_audioOnly := False\<rparr>
             else if \<not> ri_typeSeen r then r\<lparr>ri_memberType := ptype p, ri_typeSeen := True\<rparr>
             else if ptype p \<noteq> ri_memberType r then r\<lparr>ri_typeUniform := False\<rparr>
             else r)"

definition scan_range :: "int list \<Rightarrow> (int, audio_packet) omap \<Rightarrow> int \<Rightarrow> int \<Rightarrow> range_info" where
  "scan_range disc ps startSeq blockEnd = fold (scan_slot disc ps) [startSeq..blockEnd - 1]
     \<lparr>ri_missingCount = 0, ri_missingSeq = -1, ri_audioOnly = True, ri_hasDiscarded = False,
      ri_typeSeen = False, ri_typeUniform = True, ri_memberType = AudioRx\<rparr>"

definition atOrPastBlockEnd :: "int \<Rightarrow> int \<Rightarrow> int \<Rightarrow> bool" where
  "atOrPastBlockEnd startSeq blockSize sq =
     (let dist = wrap32 (wrap32 sq - wrap32 startSeq) in dist \<ge> wrap32 blockSize \<and> dist < 0x80000000)"

definition scanForMember :: "int \<Rightarrow> int \<Rightarrow> (int, audio_packet) omap \<Rightarrow> bool" where
  "scanForMember startSeq blockSize ps =
     list_ex (\<lambda>(sq, p). fd_isAudio (ptype p) \<and> atOrPastBlockEnd startSeq blockSize sq) ps"

definition displaced_member :: "int \<Rightarrow> int \<Rightarrow> fec_block \<Rightarrow> fec_decoder \<Rightarrow> bool" where
  "displaced_member startSeq blockSize block d \<longleftrightarrow>
     scanForMember startSeq blockSize (fb_packets block) \<or>
     (case omap_get (fd_activeBlocks d) PENDING_KEY of None \<Rightarrow> False
      | Some b \<Rightarrow> scanForMember startSeq blockSize (fb_packets b)) \<or>
     list_ex (atOrPastBlockEnd startSeq blockSize) (fd_discardedSequences d)"

definition recover_payload :: "bytes \<Rightarrow> (int, audio_packet) omap \<Rightarrow> int \<Rightarrow> int \<Rightarrow> bytes" where
  "recover_payload xorData ps startSeq blockEnd =
     fold (\<lambda>s acc. case omap_get ps (i32 s) of None \<Rightarrow> acc | Some p \<Rightarrow> xor_into acc (payload p))
       [startSeq..blockEnd - 1] xorData"

text \<open>The verdict on a collected block.\<close>

definition resolve_block :: "u64 \<Rightarrow> int \<Rightarrow> int \<Rightarrow> bytes \<Rightarrow> fec_block \<Rightarrow> fec_decoder \<Rightarrow> fec_decoder \<times> fec_emits" where
  "resolve_block nanos startSeq blockSize xorData block d =
     (let blockEnd = startSeq + blockSize;
          ri = scan_range (fd_discardedSequences d) (fb_packets block) startSeq blockEnd;
          displaced = displaced_member startSeq blockSize block d;
          d = d\<lparr>fd_discardedSequences := filter (\<lambda>sq. sq \<ge> i32 blockEnd) (fd_discardedSequences d)\<rparr>
      in if \<not> ri_audioOnly ri \<or> ri_hasDiscarded ri \<or> \<not> ri_typeUniform ri
         then (d\<lparr>fd_fecBlocksUnreconciled := fd_fecBlocksUnreconciled d + 1\<rparr>, [])
         else if ri_missingCount ri = 0
         then (d\<lparr>fd_fecBlocksComplete := fd_fecBlocksComplete d + 1\<rparr>, [])
         else if ri_missingCount ri = 1
         then if displaced then (d\<lparr>fd_fecBlocksUnreconciled := fd_fecBlocksUnreconciled d + 1\<rparr>, [])
           else let recovered = mk_packet nanos (ri_memberType ri) (word_of_int (ri_missingSeq ri))
                      (recover_payload xorData (fb_packets block) startSeq blockEnd);
                    d = beginHold (ri_missingSeq ri) d
             in (d\<lparr>fd_heldPackets := omap_put (ri_missingSeq ri)
                     \<lparr>hp_packet = recovered, hp_provenance = Recovered\<rparr> (fd_heldPackets d),
                   fd_packetsRecoveredByFec := fd_packetsRecoveredByFec d + 1,
                   fd_fecBlocksComplete := fd_fecBlocksComplete d + 1\<rparr>, [])
         else (d\<lparr>fd_fecBlocksFailed := fd_fecBlocksFailed d + 1\<rparr>,
               map (\<lambda>s. (None, Live))
                 (filter (\<lambda>s. omap_get (fb_packets block) (i32 s) = None \<and> i32 s \<in> set (fb_missingSequences block))
                   [startSeq..blockEnd - 1])))"

definition handleParity :: "u64 \<Rightarrow> int \<Rightarrow> audio_packet \<Rightarrow> fec_decoder \<Rightarrow> fec_decoder \<times> fec_emits" where
  "handleParity nanos now parity d =
     (if length (payload parity) < PARITY_HEADER_SIZE then (d, [])
      else let (start, r) = getI32 (mk_reader (payload parity));
               startSeq = sint start;
               (size8, r) = getU8 r;
               blockSize = uint size8;
               (xorData, r) = readBytes (length (payload parity) - PARITY_HEADER_SIZE) r
        in if blockSize < int MIN_BLOCK_SIZE \<or> blockSize > int MAX_BLOCK_SIZE
           then (d\<lparr>fd_fecBlocksUnreconciled := fd_fecBlocksUnreconciled d + 1\<rparr>, [])
           else let (block, d) = collect_block now startSeq blockSize d
             in resolve_block nanos startSeq blockSize xorData block d)"

section \<open>Entry points\<close>

definition fd_process :: "u64 \<Rightarrow> int \<Rightarrow> audio_packet option \<Rightarrow> int \<Rightarrow> fec_decoder \<Rightarrow> fec_decoder \<times> fec_emits" where
  "fd_process nanos now packet sq d =
     (case packet of
        Some p \<Rightarrow>
          if ptype p = FecParity then
            let (d, _) = noteSequenceAndDetectGap (sint (sequence p)) d;
                (d, es) = handleParity nanos now p d;
                (d, es') = releaseHeld d
            in (d, es @ es')
          else
            let (d, gap) = noteSequenceAndDetectGap sq d;
                d = (case gap of Some g \<Rightarrow> beginHold g d | None \<Rightarrow> d)
            in if fd_holding d then
                 let d = d\<lparr>fd_heldPackets := omap_put sq \<lparr>hp_packet = p, hp_provenance = Live\<rparr> (fd_heldPackets d)\<rparr>;
                     d = storeInBlock now sq p d
                 in if length (fd_heldPackets d) > MAX_HELD_PACKETS then releaseHeld d else (d, [])
               else (storeInBlock now sq p d, [(Some p, Live)])
      | None \<Rightarrow> (recordMissing now sq (beginHold sq d), []))"

definition fd_processPacket :: "u64 \<Rightarrow> int \<Rightarrow> audio_packet \<Rightarrow> fec_decoder \<Rightarrow> fec_decoder \<times> fec_emits" where
  "fd_processPacket nanos now p d = fd_process nanos now (Some p) (sint (sequence p)) d"

definition fd_checkTimeoutAt :: "int \<Rightarrow> fec_decoder \<Rightarrow> fec_decoder \<times> fec_emits" where
  "fd_checkTimeoutAt nowMs d =
     (let expired = filter (\<lambda>(key, b). nowMs - fb_touchedAtMs b >
            (if key = PENDING_KEY then fd_pendingIdleMs d else fd_blockTimeoutMs d)) (fd_activeBlocks d);
          nulls = sum_list (map (\<lambda>(_, b). length (fb_missingSequences b)) expired);
          failed = length (filter (\<lambda>(_, b). fb_missingSequences b \<noteq> []) expired);
          discarded = sum_list (map (\<lambda>(_, b). length (fb_packets b)) expired);
          d = d\<lparr>fd_discardedSequences := fold oset_insert (concat (map (\<lambda>(_, b). omap_keys (fb_packets b)) expired))
                  (fd_discardedSequences d),
                fd_activeBlocks := fold omap_del (map fst expired) (fd_activeBlocks d),
                fd_fecBlocksFailed := fd_fecBlocksFailed d + int failed,
                fd_pendingPacketsDiscarded := fd_pendingPacketsDiscarded d + int discarded\<rparr>;
          (d, es) = releaseHeld d
      in (d, replicate nulls (None, Live) @ es))"

text \<open>A run of packets handed over by the reorder buffer.\<close>

fun fd_run :: "u64 \<Rightarrow> (audio_packet \<times> int) list \<Rightarrow> fec_decoder \<Rightarrow> fec_decoder \<times> fec_emits" where
  "fd_run nanos [] d = (d, [])"
| "fd_run nanos ((p, now) # ps) d =
     (let (d', es) = fd_processPacket nanos now p d; (d'', es') = fd_run nanos ps d' in (d'', es @ es'))"

section \<open>Feeding consecutive packets\<close>

abbreviation sq_of :: "audio_packet \<Rightarrow> int" where
  "sq_of p \<equiv> sint (sequence p)"

definition pend :: "int \<Rightarrow> (int, audio_packet) omap \<Rightarrow> (int, fec_block) omap" where
  "pend t pk = [(PENDING_KEY, \<lparr>fb_startSeq = PENDING_KEY, fb_blockSize = 0, fb_touchedAtMs = t,
     fb_packets = pk, fb_missingSequences = []\<rparr>)]"

definition pend_has :: "fec_decoder \<Rightarrow> (int, audio_packet) omap \<Rightarrow> bool" where
  "pend_has d pk \<longleftrightarrow> (pk = [] \<and> fd_activeBlocks d = []) \<or> (\<exists>t. fd_activeBlocks d = pend t pk)"

lemma fec_consts: "MAX_PENDING_PACKETS = 40" "MAX_HELD_PACKETS = 20" "MIN_BLOCK_SIZE = 2" "MAX_BLOCK_SIZE = 10"
  by (simp_all add: MAX_PENDING_PACKETS_def MAX_HELD_PACKETS_def MIN_BLOCK_SIZE_def MAX_BLOCK_SIZE_def)

lemma cap_packets_id: "length ps \<le> MAX_PENDING_PACKETS \<Longrightarrow> cap_packets ps disc n = (ps, disc, n)"
  by (cases ps) auto

lemma cap_set_id: "length xs \<le> MAX_PENDING_PACKETS \<Longrightarrow> cap_set xs = xs"
  by (cases xs) auto

lemma storeInBlock_pend:
  assumes "pend_has d pk" and "\<forall>e \<in> set pk. fst e < sq" and "length pk < MAX_PENDING_PACKETS"
    and "fd_discardedSequences d = []"
  shows "storeInBlock now sq p d = d\<lparr>fd_activeBlocks := pend now (pk @ [(sq, p)])\<rparr>"
proof -
  have put: "omap_put sq p pk = pk @ [(sq, p)]" using assms(2) by (simp add: omap_put_last)
  have "matchingBlockKey sq d = None"
    using assms(1) by (auto simp: matchingBlockKey_def pend_has_def pend_def fb_covers_def)
  moreover have "getOrCreateBlock now PENDING_KEY (\<lambda>b. b\<lparr>fb_packets := omap_put sq p (fb_packets b)\<rparr>) d =
      d\<lparr>fd_activeBlocks := pend now (pk @ [(sq, p)])\<rparr>"
    using assms(1) put by (auto simp: getOrCreateBlock_def pend_has_def pend_def mk_fec_block_def)
  ultimately show ?thesis
    using assms(3,4) by (cases d) (simp add: storeInBlock_def capPending_def pend_def cap_packets_id cap_set_id)
qed

lemma note_in_sync:
  assumes "fd_nextExpectedSeq d = sq" and "0 \<le> sq" and "sq < 2 ^ 31 - 1"
  shows "noteSequenceAndDetectGap sq d = (d\<lparr>fd_nextExpectedSeq := sq + 1\<rparr>, None)"
  using assms by (simp add: noteSequenceAndDetectGap_def wrap32_def i32_ident i32_ok_def)

lemma note_gap:
  assumes "fd_nextExpectedSeq d = g" and "0 \<le> g" and "g < sq" and "sq < 2 ^ 31 - 1"
  shows "noteSequenceAndDetectGap sq d = (d\<lparr>fd_nextExpectedSeq := sq + 1\<rparr>, Some g)"
  using assms by (simp add: noteSequenceAndDetectGap_def wrap32_def i32_ident i32_ok_def)

lemma process_live:
  assumes "ptype p \<noteq> FecParity" and "sq_of p = fd_nextExpectedSeq d" and "0 \<le> sq_of p" and "sq_of p < 2 ^ 31 - 1"
    and "\<not> fd_holding d" and "pend_has d pk" and "\<forall>e \<in> set pk. fst e < sq_of p"
    and "length pk < MAX_PENDING_PACKETS" and "fd_discardedSequences d = []"
  shows "fd_processPacket nanos now p d =
    (d\<lparr>fd_activeBlocks := pend now (pk @ [(sq_of p, p)]), fd_nextExpectedSeq := sq_of p + 1\<rparr>, [(Some p, Live)])"
proof -
  let ?d = "d\<lparr>fd_nextExpectedSeq := sq_of p + 1\<rparr>"
  have "pend_has ?d pk" using assms(6) by (simp add: pend_has_def)
  from storeInBlock_pend [OF this assms(7,8)] assms(9)
  have "storeInBlock now (sq_of p) p ?d = ?d\<lparr>fd_activeBlocks := pend now (pk @ [(sq_of p, p)])\<rparr>" by simp
  with assms(1,5) note_in_sync [OF assms(2) [symmetric] assms(3,4)] show ?thesis
    by (simp add: fd_processPacket_def fd_process_def)
qed

lemma process_held:
  assumes "ptype p \<noteq> FecParity" and "sq_of p = fd_nextExpectedSeq d" and "0 \<le> sq_of p" and "sq_of p < 2 ^ 31 - 1"
    and "fd_holding d" and "pend_has d pk" and "\<forall>e \<in> set pk. fst e < sq_of p"
    and "length pk < MAX_PENDING_PACKETS" and "fd_discardedSequences d = []"
    and "\<forall>e \<in> set (fd_heldPackets d). fst e < sq_of p" and "length (fd_heldPackets d) < MAX_HELD_PACKETS"
  shows "fd_processPacket nanos now p d =
    (d\<lparr>fd_activeBlocks := pend now (pk @ [(sq_of p, p)]), fd_nextExpectedSeq := sq_of p + 1,
       fd_heldPackets := fd_heldPackets d @ [(sq_of p, \<lparr>hp_packet = p, hp_provenance = Live\<rparr>)]\<rparr>, [])"
proof -
  let ?h = "fd_heldPackets d @ [(sq_of p, \<lparr>hp_packet = p, hp_provenance = Live\<rparr>)]"
  let ?d = "d\<lparr>fd_nextExpectedSeq := sq_of p + 1, fd_heldPackets := ?h\<rparr>"
  have put: "omap_put (sq_of p) \<lparr>hp_packet = p, hp_provenance = Live\<rparr> (fd_heldPackets d) = ?h"
    using assms(10) by (simp add: omap_put_last)
  have "pend_has ?d pk" using assms(6) by (simp add: pend_has_def)
  from storeInBlock_pend [OF this assms(7,8)] assms(9)
  have "storeInBlock now (sq_of p) p ?d = ?d\<lparr>fd_activeBlocks := pend now (pk @ [(sq_of p, p)])\<rparr>" by simp
  with assms(1,5,11) put note_in_sync [OF assms(2) [symmetric] assms(3,4)] show ?thesis
    by (cases d) (simp add: fd_processPacket_def fd_process_def)
qed

text \<open>The first packet after a gap is processed as if the hold had been opened before it.\<close>

lemma process_gap_opens_hold:
  assumes "ptype p \<noteq> FecParity" and "fd_nextExpectedSeq d = g" and "0 \<le> g" and "g < sq_of p" and "sq_of p < 2 ^ 31 - 1"
    and "\<not> fd_holding d"
  shows "fd_processPacket nanos now p d = fd_processPacket nanos now p
    (d\<lparr>fd_nextExpectedSeq := sq_of p, fd_holding := True, fd_holdBaseSeq := g\<rparr>)"
proof -
  let ?d = "d\<lparr>fd_nextExpectedSeq := sq_of p, fd_holding := True, fd_holdBaseSeq := g\<rparr>"
  have "noteSequenceAndDetectGap (sq_of p) ?d = (?d\<lparr>fd_nextExpectedSeq := sq_of p + 1\<rparr>, None)"
    using assms(3-5) by (intro note_in_sync) auto
  with assms(1,6) note_gap [OF assms(2-5)] show ?thesis
    by (cases d) (simp add: fd_processPacket_def fd_process_def beginHold_def)
qed

text \<open>Packets with consecutive sequences from \<open>a\<close>, none of them a parity.\<close>

definition consecutive :: "int \<Rightarrow> audio_packet list \<Rightarrow> bool" where
  "consecutive a qs \<longleftrightarrow> map sq_of qs = [a..a + int (length qs) - 1] \<and> (\<forall>q \<in> set qs. ptype q \<noteq> FecParity) \<and>
     0 \<le> a \<and> a + int (length qs) < 2 ^ 31"

lemma consecutive_Cons:
  "consecutive a (q # qs) \<longleftrightarrow> sq_of q = a \<and> ptype q \<noteq> FecParity \<and> 0 \<le> a \<and> a < 2 ^ 31 - 1 \<and> consecutive (a + 1) qs"
  by (auto simp: consecutive_def upto_rec1 algebra_simps)

lemma consecutive_append:
  "consecutive a (xs @ ys) \<Longrightarrow> consecutive a xs \<and> consecutive (a + int (length xs)) ys"
proof (induction xs arbitrary: a)
  case (Cons x xs)
  from Cons.IH [of "a + 1"] Cons.prems show ?case by (simp add: consecutive_Cons algebra_simps)
qed (simp add: consecutive_def)

lemma consecutive_set: "consecutive a qs \<Longrightarrow> q \<in> set qs \<Longrightarrow> a \<le> sq_of q \<and> sq_of q < a + int (length qs)"
  by (induction qs arbitrary: a) (force simp: consecutive_Cons)+

definition kv :: "audio_packet \<Rightarrow> int \<times> audio_packet" where
  "kv p = (sq_of p, p)"

lemma fst_kv [simp]: "fst (kv p) = sq_of p"
  by (simp add: kv_def)

lemma run_live:
  assumes "consecutive (fd_nextExpectedSeq d) qs" and "length ts = length qs" and "\<not> fd_holding d" and "pend_has d pk"
    and "\<forall>e \<in> set pk. fst e < fd_nextExpectedSeq d" and "length pk + length qs \<le> MAX_PENDING_PACKETS"
    and "fd_discardedSequences d = []"
  shows "\<exists>ab. fd_run nanos (zip qs ts) d =
      (d\<lparr>fd_activeBlocks := ab, fd_nextExpectedSeq := fd_nextExpectedSeq d + int (length qs)\<rparr>, map (\<lambda>q. (Some q, Live)) qs)
    \<and> pend_has (d\<lparr>fd_activeBlocks := ab\<rparr>) (pk @ map kv qs)"
  using assms
proof (induction qs arbitrary: d pk ts)
  case Nil
  then show ?case by (cases d) (auto simp: pend_has_def)
next
  case (Cons q qs)
  obtain t ts' where ts: "ts = t # ts'" "length ts' = length qs" using Cons.prems(2) by (cases ts) auto
  have q: "sq_of q = fd_nextExpectedSeq d" "ptype q \<noteq> FecParity" "0 \<le> sq_of q" "sq_of q < 2 ^ 31 - 1"
    "consecutive (sq_of q + 1) qs"
    using Cons.prems(1) by (auto simp: consecutive_Cons)
  let ?d = "d\<lparr>fd_activeBlocks := pend t (pk @ [(sq_of q, q)]), fd_nextExpectedSeq := sq_of q + 1\<rparr>"
  have step: "fd_processPacket nanos t q d = (?d, [(Some q, Live)])"
    using Cons.prems q by (intro process_live) auto
  have "\<exists>ab. fd_run nanos (zip qs ts') ?d =
      (?d\<lparr>fd_activeBlocks := ab, fd_nextExpectedSeq := fd_nextExpectedSeq ?d + int (length qs)\<rparr>, map (\<lambda>q. (Some q, Live)) qs)
    \<and> pend_has (?d\<lparr>fd_activeBlocks := ab\<rparr>) ((pk @ [(sq_of q, q)]) @ map kv qs)"
    using Cons.prems(3,5,6,7) q ts by (intro Cons.IH) (auto simp: pend_has_def)
  then show ?case
    using q(1) by (auto simp: ts step kv_def [of q] pend_has_def algebra_simps)
qed

lemma run_held:
  assumes "consecutive (fd_nextExpectedSeq d) qs" and "length ts = length qs" and "fd_holding d" and "pend_has d pk"
    and "\<forall>e \<in> set pk. fst e < fd_nextExpectedSeq d" and "length pk + length qs \<le> MAX_PENDING_PACKETS"
    and "fd_discardedSequences d = []" and "\<forall>e \<in> set (fd_heldPackets d). fst e < fd_nextExpectedSeq d"
    and "length (fd_heldPackets d) + length qs \<le> MAX_HELD_PACKETS"
  shows "\<exists>ab. fd_run nanos (zip qs ts) d =
      (d\<lparr>fd_activeBlocks := ab, fd_nextExpectedSeq := fd_nextExpectedSeq d + int (length qs),
         fd_heldPackets := fd_heldPackets d @ map (\<lambda>q. (sq_of q, \<lparr>hp_packet = q, hp_provenance = Live\<rparr>)) qs\<rparr>, [])
    \<and> pend_has (d\<lparr>fd_activeBlocks := ab\<rparr>) (pk @ map kv qs)"
  using assms
proof (induction qs arbitrary: d pk ts)
  case Nil
  then show ?case by (cases d) (auto simp: pend_has_def)
next
  case (Cons q qs)
  obtain t ts' where ts: "ts = t # ts'" "length ts' = length qs" using Cons.prems(2) by (cases ts) auto
  have q: "sq_of q = fd_nextExpectedSeq d" "ptype q \<noteq> FecParity" "0 \<le> sq_of q" "sq_of q < 2 ^ 31 - 1"
    "consecutive (sq_of q + 1) qs"
    using Cons.prems(1) by (auto simp: consecutive_Cons)
  let ?h = "fd_heldPackets d @ [(sq_of q, \<lparr>hp_packet = q, hp_provenance = Live\<rparr>)]"
  let ?d = "d\<lparr>fd_activeBlocks := pend t (pk @ [(sq_of q, q)]), fd_nextExpectedSeq := sq_of q + 1, fd_heldPackets := ?h\<rparr>"
  have step: "fd_processPacket nanos t q d = (?d, [])"
    using Cons.prems q by (intro process_held) auto
  have "\<exists>ab. fd_run nanos (zip qs ts') ?d =
      (?d\<lparr>fd_activeBlocks := ab, fd_nextExpectedSeq := fd_nextExpectedSeq ?d + int (length qs),
         fd_heldPackets := fd_heldPackets ?d @ map (\<lambda>q. (sq_of q, \<lparr>hp_packet = q, hp_provenance = Live\<rparr>)) qs\<rparr>, [])
    \<and> pend_has (?d\<lparr>fd_activeBlocks := ab\<rparr>) ((pk @ [(sq_of q, q)]) @ map kv qs)"
    using Cons.prems(3,5-9) q ts by (intro Cons.IH) (auto simp: pend_has_def)
  then show ?case
    using q(1) by (auto simp: ts step kv_def [of q] pend_has_def algebra_simps)
qed

section \<open>The parity of a block\<close>

lemma split_all_in_range:
  assumes "\<forall>x \<in> set ps. in_range s e (fst x)" and "omap_ok (fb_packets b @ ps)"
  shows "split_packets now s e ps b d = (b\<lparr>fb_packets := fb_packets b @ ps\<rparr>, d)"
  using assms
proof (induction ps arbitrary: b)
  case (Cons x ps)
  obtain k p where x: "x = (k, p)" by (cases x)
  have "\<forall>y \<in> fst ` set (fb_packets b). y < k"
    using Cons.prems(2) by (auto simp: omap_ok_def sorted_wrt_append x)
  then have "omap_put k p (fb_packets b) = fb_packets b @ [(k, p)]" by (rule omap_put_last)
  with Cons show ?case by (simp add: x)
qed simp

lemma collect_pending:
  assumes "pend_has d pk" and "omap_ok pk" and "\<forall>x \<in> set pk. in_range s (s + n) (fst x)" and "s \<noteq> PENDING_KEY"
  shows "\<exists>b. collect_block now s n d = (b, d\<lparr>fd_activeBlocks := []\<rparr>) \<and> fb_packets b = pk"
proof -
  from assms(1) consider "pk = []" "fd_activeBlocks d = []" | t where "fd_activeBlocks d = pend t pk"
    by (auto simp: pend_has_def)
  then show ?thesis
  proof cases
    case 1
    then show ?thesis by (cases d) (simp add: collect_block_def mk_fec_block_def)
  next
    case 2
    from split_all_in_range [OF assms(3), of "mk_fec_block s n now" now] assms(2,4) 2 show ?thesis
      by (simp add: collect_block_def pend_def omap_del_def mk_fec_block_def capPending_def)
  qed
qed

lemma scan_fold:
  assumes "\<forall>x \<in> set xs. i32 x = x" and "\<forall>x \<in> set xs. \<forall>p. omap_get ps x = Some p \<longrightarrow> ptype p = t" and "fd_isAudio t"
    and "ri_typeSeen r \<longrightarrow> ri_memberType r = t" and "r' = fold (scan_slot disc ps) xs r"
  shows "ri_missingCount r' = ri_missingCount r + length (filter (\<lambda>x. omap_get ps x = None) xs) \<and>
    ri_missingSeq r' = last (ri_missingSeq r # filter (\<lambda>x. omap_get ps x = None) xs) \<and>
    ri_audioOnly r' = ri_audioOnly r \<and> ri_typeUniform r' = ri_typeUniform r \<and>
    ri_hasDiscarded r' = (ri_hasDiscarded r \<or> (\<exists>x \<in> set xs. omap_get ps x = None \<and> x \<in> set disc)) \<and>
    ri_typeSeen r' = (ri_typeSeen r \<or> (\<exists>x \<in> set xs. omap_get ps x \<noteq> None)) \<and>
    (ri_typeSeen r' \<longrightarrow> ri_memberType r' = t)"
  using assms(1,2,4,5)
proof (induction xs arbitrary: r)
  case (Cons x xs)
  let ?r = "scan_slot disc ps x r"
  have x: "i32 x = x" using Cons.prems(1) by simp
  have seen: "ri_typeSeen ?r \<longrightarrow> ri_memberType ?r = t"
    using Cons.prems assms(3) by (auto simp: scan_slot_def x split: option.splits)
  show ?case
  proof (cases "omap_get ps x")
    case None
    then have "?r = r\<lparr>ri_missingCount := ri_missingCount r + 1, ri_missingSeq := x,
      ri_hasDiscarded := ri_hasDiscarded r \<or> x \<in> set disc\<rparr>" by (simp add: scan_slot_def x)
    with Cons.IH [of ?r] Cons.prems seen None show ?thesis by simp
  next
    case (Some p)
    then have "ptype p = t" using Cons.prems(2) by simp
    with Some assms(3) Cons.prems(3) have "?r = (if ri_typeSeen r then r else r\<lparr>ri_memberType := t, ri_typeSeen := True\<rparr>)"
      by (simp add: scan_slot_def x)
    with Cons.IH [of ?r] Cons.prems seen Some show ?thesis by (auto split: if_splits)
  qed
qed simp

lemma recover_list:
  "\<forall>q \<in> set qs. i32 (sq_of q) = sq_of q \<and> omap_get ps (sq_of q) = Some q \<Longrightarrow>
   fold (\<lambda>s acc. case omap_get ps (i32 s) of None \<Rightarrow> acc | Some p \<Rightarrow> xor_into acc (payload p)) (map sq_of qs) acc =
   foldl xor_into acc (map payload qs)"
  by (induction qs arbitrary: acc) auto

text \<open>One encoder block: consecutive audio packets of one type, the longest of \<open>len\<close> bytes, clear of the wrap.\<close>

definition source_block :: "int \<Rightarrow> packet_type \<Rightarrow> nat \<Rightarrow> audio_packet list \<Rightarrow> bool" where
  "source_block s t len ps \<longleftrightarrow> consecutive s ps \<and> s + int (length ps) < 2 ^ 31 - 1 \<and> fd_isAudio t \<and>
     (\<forall>p \<in> set ps. ptype p = t) \<and> len = max_len (map payload ps) \<and>
     MIN_BLOCK_SIZE \<le> length ps \<and> length ps \<le> MAX_BLOCK_SIZE"

lemma handleParity_parse:
  assumes "payload q = parity_payload st pls" and "MIN_BLOCK_SIZE \<le> length pls" and "length pls \<le> MAX_BLOCK_SIZE"
  shows "handleParity nanos now q d =
    (let (block, d') = collect_block now (sint st) (int (length pls)) d
     in resolve_block nanos (sint st) (int (length pls)) (foldl xor_into (replicate (max_len pls) 0) pls) block d')"
proof -
  have "uint (word_of_nat (length pls) :: u8) = int (length pls)"
    using assms(3) by (simp add: fec_consts uint_nat unat_of_nat)
  moreover have "length (be_bytes32 st) = 4" by (simp add: be_bytes32_def)
  moreover have "readBytes (length xs) (reader_at pre xs t) = (xs, reader_at (pre @ xs) [] t)" for pre xs t
    using readBytes_at [of xs pre "[]" t] by simp
  note this [of "foldl xor_into (replicate (max_len pls) 0) pls", simplified]
  ultimately show ?thesis
    using assms by (simp add: handleParity_def parity_payload_def codec_simps PARITY_HEADER_SIZE_def fec_consts Let_def)
qed

lemma consecutive_ident:
  assumes "consecutive s qs" and "x \<in> set [s..s + int (length qs) - 1]"
  shows "i32 x = x" and "wrap32 x = x" and "0 \<le> x"
  using assms by (auto simp: consecutive_def i32_ident i32_ok_def wrap32_def)

lemma consecutive_sorted: "consecutive s qs \<Longrightarrow> sorted_wrt (<) (map sq_of qs)"
proof (induction qs arbitrary: s)
  case (Cons q qs)
  then show ?case using consecutive_set [of "s + 1" qs] by (fastforce simp: consecutive_Cons)
qed simp

lemma map_of_kv: "distinct (map sq_of qs) \<Longrightarrow> q \<in> set qs \<Longrightarrow> map_of (map kv qs) (sq_of q) = Some q"
  by (rule map_of_is_SomeI) (auto simp: kv_def comp_def)

lemma fst_set_kv: "fst ` set (map kv qs) = sq_of ` set qs"
  by (simp add: image_image)

lemma omap_ok_kv: "sorted_wrt (<) (map sq_of qs) \<Longrightarrow> omap_ok (map kv qs)"
  by (simp add: omap_ok_def comp_def)

text \<open>The facts of a block that lost the packet between \<open>pre\<close> and \<open>post\<close>.\<close>

lemma loss_facts:
  assumes "source_block s t len (pre @ lost # post)"
  shows "distinct (map sq_of (pre @ post))" and "omap_ok (map kv (pre @ post))"
    and "sq_of lost = s + int (length pre)"
    and "\<And>x. x \<in> set [s..s + int (length (pre @ lost # post)) - 1] \<Longrightarrow>
      map_of (map kv (pre @ post)) x = None \<longleftrightarrow> x = sq_of lost"
    and "\<And>x p. map_of (map kv (pre @ post)) x = Some p \<Longrightarrow> p \<in> set (pre @ post) \<and> x = sq_of p"
    and "pre @ post \<noteq> []"
proof -
  have c: "consecutive s (pre @ lost # post)" using assms by (simp add: source_block_def)
  have srt: "sorted_wrt (<) (map sq_of (pre @ lost # post))" using c by (rule consecutive_sorted)
  then have srt': "sorted_wrt (<) (map sq_of (pre @ post))" by (simp add: sorted_wrt_append)
  from srt' show "distinct (map sq_of (pre @ post))" by (rule strict_sorted_distinct)
  from srt' show "omap_ok (map kv (pre @ post))" by (rule omap_ok_kv)
  show "sq_of lost = s + int (length pre)"
    using consecutive_append [OF c] by (simp add: consecutive_Cons)
  have notin: "sq_of lost \<notin> sq_of ` set (pre @ post)" using srt by (force simp: sorted_wrt_append)
  have all: "set [s..s + int (length (pre @ lost # post)) - 1] = insert (sq_of lost) (sq_of ` set (pre @ post))"
  proof -
    have "set [s..s + int (length (pre @ lost # post)) - 1] = set (map sq_of (pre @ lost # post))"
      using c by (simp only: consecutive_def)
    then show ?thesis by auto
  qed
  show "map_of (map kv (pre @ post)) x = None \<longleftrightarrow> x = sq_of lost"
    if "x \<in> set [s..s + int (length (pre @ lost # post)) - 1]" for x
    using that notin unfolding all map_of_eq_None_iff fst_set_kv by (metis insert_iff)
  show "p \<in> set (pre @ post) \<and> x = sq_of p" if "map_of (map kv (pre @ post)) x = Some p" for x p
    using map_of_SomeD [OF that] by (auto simp: kv_def)
  show "pre @ post \<noteq> []" using assms by (auto simp: source_block_def fec_consts)
qed

lemma filter_eq_single: "distinct xs \<Longrightarrow> x \<in> set xs \<Longrightarrow> (\<And>y. y \<in> set xs \<Longrightarrow> P y \<longleftrightarrow> y = x) \<Longrightarrow> filter P xs = [x]"
proof (induction xs)
  case (Cons a xs)
  show ?case
  proof (cases "a = x")
    case True
    then have "filter P xs = []" using Cons.prems by (auto simp: filter_empty_conv)
    then show ?thesis using True Cons.prems(3) by simp
  next
    case False
    then show ?thesis using Cons by simp
  qed
qed simp

lemma not_displaced:
  assumes "consecutive s qs" and "\<forall>e \<in> set ps. fst e \<in> set [s..s + int (length qs) - 1]"
  shows "\<not> scanForMember s (int (length qs)) ps"
proof -
  have "\<not> atOrPastBlockEnd s (int (length qs)) x" if "x \<in> set [s..s + int (length qs) - 1]" for x
    using that assms(1) by (auto simp: atOrPastBlockEnd_def wrap32_def consecutive_def)
  then show ?thesis using assms(2) by (auto simp: scanForMember_def list_ex_iff)
qed

lemma resolve_single_loss:
  assumes "source_block s t len (pre @ lost # post)" and "fb_packets b = map kv (pre @ post)"
    and "fd_activeBlocks d = []" and "fd_discardedSequences d = []"
  defines "pls \<equiv> map payload (pre @ lost # post)" and "n \<equiv> int (length (pre @ lost # post))"
  shows "resolve_block nanos s n (foldl xor_into (replicate (max_len pls) 0) pls) b d =
    (let d' = beginHold (sq_of lost) d
     in (d'\<lparr>fd_heldPackets := omap_put (sq_of lost)
           \<lparr>hp_packet = mk_packet nanos t (word_of_int (sq_of lost)) (pad_to len (payload lost)), hp_provenance = Recovered\<rparr> (fd_heldPackets d'),
         fd_packetsRecoveredByFec := fd_packetsRecoveredByFec d' + 1,
         fd_fecBlocksComplete := fd_fecBlocksComplete d' + 1\<rparr>, []))"
proof -
  note L = loss_facts [OF assms(1)]
  have c: "consecutive s (pre @ lost # post)" using assms(1) by (simp add: source_block_def)
  let ?xs = "[s..s + n - 1]"
  have xs: "?xs = map sq_of (pre @ lost # post)" using c by (simp only: consecutive_def n_def)
  have id: "\<forall>x \<in> set ?xs. i32 x = x" using consecutive_ident(1) [OF c] by (simp add: n_def)
  have ty: "\<forall>x \<in> set ?xs. \<forall>p. map_of (map kv (pre @ post)) x = Some p \<longrightarrow> ptype p = t"
    using L(5) assms(1) by (fastforce simp: source_block_def)
  have none: "filter (\<lambda>x. map_of (map kv (pre @ post)) x = None) ?xs = [sq_of lost]"
  proof (rule filter_eq_single)
    show "sq_of lost \<in> set ?xs" by (simp add: xs)
  qed (use L(4) in \<open>auto simp: n_def\<close>)
  obtain ri where ri: "ri = scan_range [] (map kv (pre @ post)) s (s + n)" by simp
  have some: "\<exists>x \<in> set ?xs. map_of (map kv (pre @ post)) x \<noteq> None"
  proof -
    let ?q = "hd (pre @ post)"
    have q: "?q \<in> set (pre @ post)" using L(6) by (rule hd_in_set)
    then have "sq_of ?q \<in> set ?xs" unfolding xs by auto
    moreover have "map_of (map kv (pre @ post)) (sq_of ?q) \<noteq> None" using map_of_kv [OF L(1) q] by simp
    ultimately show ?thesis by blast
  qed
  have "ri_missingCount ri = 1 \<and> ri_missingSeq ri = sq_of lost \<and> ri_audioOnly ri \<and> ri_typeUniform ri \<and>
      \<not> ri_hasDiscarded ri \<and> ri_memberType ri = t"
    using scan_fold [OF id ty _ _ ri [unfolded scan_range_def]] assms(1) none some by (simp add: source_block_def)
  moreover have "\<not> displaced_member s n b d"
  proof -
    have "\<forall>e \<in> set (fb_packets b). fst e \<in> set [s..s + int (length (pre @ lost # post)) - 1]"
      unfolding assms(2) xs [unfolded n_def] by auto
    from not_displaced [OF c this] show ?thesis
      using assms(3,4) by (simp add: displaced_member_def n_def)
  qed
  moreover have "recover_payload (foldl xor_into (replicate (max_len pls) 0) pls) (map kv (pre @ post)) s (s + n) = pad_to len (payload lost)"
    (is "?rec = _")
  proof -
    define m where "m = map kv (pre @ post)"
    have get: "\<forall>q \<in> set qs. i32 (sq_of q) = sq_of q \<and> omap_get m (sq_of q) = Some q"
      if "set qs \<subseteq> set (pre @ post)" for qs
      using that id map_of_kv [OF L(1)] unfolding xs m_def by auto
    have "i32 (sq_of lost) = sq_of lost" "map_of m (sq_of lost) = None"
      using id L(4) [of "sq_of lost"] unfolding xs xs [unfolded n_def] m_def by auto
    then have "recover_payload acc m s (s + n) = foldl xor_into acc (map payload (pre @ post))" for acc
      unfolding recover_payload_def xs using recover_list [OF get [of pre]] recover_list [OF get [of post]] by simp
    then have "?rec = foldl xor_into (foldl xor_into (replicate (max_len pls) 0) pls) (map payload (pre @ post))"
      by (simp only: m_def)
    also have "\<dots> = xor_into (replicate (max_len pls) 0) (payload lost)"
      unfolding pls_def using foldl_xor_missing [of _ "map payload pre" "payload lost" "map payload post"] by simp
    also have "\<dots> = pad_to len (payload lost)"
      using assms(1) max_len_upper [of "payload lost" pls] by (simp add: xor_into_pad pls_def source_block_def)
    finally show ?thesis .
  qed
  ultimately show ?thesis
    using assms(2,4) by (cases d) (simp add: resolve_block_def Let_def ri beginHold_def)
qed

lemma omap_put_first: "\<forall>x \<in> fst ` set m. k < x \<Longrightarrow> omap_put k v m = (k, v) # m"
  by (cases m) auto

definition held_live :: "audio_packet \<Rightarrow> int \<times> held_packet" where
  "held_live q = (sq_of q, \<lparr>hp_packet = q, hp_provenance = Live\<rparr>)"

lemma uint_of_sint: "0 \<le> sint (w :: u32) \<Longrightarrow> uint w = sint w"
  using wrap32_sint [of w] sint_i32_ok [of w] by (simp add: wrap32_def i32_ok_def)

text \<open>Releasing the hold of a block: the recovered packet first, then the held ones in order.\<close>

lemma release_in_order:
  assumes "fd_holding d" and "fd_holdBaseSeq d = g" and "0 \<le> g" and "g < 2 ^ 31" and "consecutive (g + 1) post"
    and "uint (sequence (hp_packet h)) = g" and "fd_heldPackets d = (g, h) # map held_live post"
  shows "releaseHeld d = (d\<lparr>fd_heldPackets := [], fd_holding := False\<rparr>,
    (Some (hp_packet h), hp_provenance h) # map (\<lambda>q. (Some q, Live)) post)"
proof -
  have dist: "hold_distance g (snd (held_live q)) = sq_of q - g" if "q \<in> set post" for q
  proof -
    have q: "g + 1 \<le> sq_of q" "sq_of q < 2 ^ 31"
      using consecutive_set [OF assms(5) that] assms(5) by (auto simp: consecutive_def)
    with assms(3) show ?thesis by (simp add: hold_distance_def held_live_def uint_of_sint wrap32_def)
  qed
  have h: "hold_distance g h = 0" using assms(3,4,6) by (simp add: hold_distance_def wrap32_def)
  have "map (hold_distance g) (map snd (fd_heldPackets d)) = 0 # map (\<lambda>q. sq_of q - g) post"
    using dist by (simp add: assms(7) h)
  moreover have "sorted (map (\<lambda>q. sq_of q - g) post)"
    using consecutive_sorted [OF assms(5)] by (auto simp: sorted_wrt_map elim: sorted_wrt_mono_rel [rotated])
  moreover have "\<forall>q \<in> set post. g \<le> sq_of q" using consecutive_set [OF assms(5)] by fastforce
  ultimately have "sorted (map (hold_distance g) (map snd (fd_heldPackets d)))" by simp
  then have "sort_key (hold_distance g) (map snd (fd_heldPackets d)) = map snd (fd_heldPackets d)"
    by (rule sort_key_id_if_sorted)
  then show ?thesis
    using assms(1,2,7) by (simp add: releaseHeld_def held_live_def comp_def)
qed

text \<open>
  A decoder between blocks: nothing stored, held or remembered, and the next sequence is \<open>s\<close>.
\<close>

definition fec_idle :: "int \<Rightarrow> fec_decoder \<Rightarrow> bool" where
  "fec_idle s d \<longleftrightarrow> fd_activeBlocks d = [] \<and> fd_heldPackets d = [] \<and> \<not> fd_holding d \<and>
     fd_discardedSequences d = [] \<and> fd_nextExpectedSeq d = s"

text \<open>The parity packet the encoder builds for a block.\<close>

definition parity_of :: "audio_packet list \<Rightarrow> audio_packet \<Rightarrow> bool" where
  "parity_of ps q \<longleftrightarrow> ptype q = FecParity \<and> sequence q = sequence (last ps) + 1 \<and>
     payload q = parity_payload (sequence (hd ps)) (map payload ps)"

lemma source_block_parity:
  assumes "source_block s t len ps" and "parity_of ps q"
  shows "sq_of (hd ps) = s" and "sq_of q = s + int (length ps)" and "0 \<le> s" and "ps \<noteq> []"
proof -
  show ne: "ps \<noteq> []" using assms(1) by (auto simp: source_block_def fec_consts)
  have c: "consecutive s ps" using assms(1) by (simp add: source_block_def)
  then show "0 \<le> s" by (simp add: consecutive_def)
  show "sq_of (hd ps) = s" using c ne by (cases ps) (auto simp: consecutive_Cons)
  have "consecutive (s + int (length (butlast ps))) [last ps]"
    using consecutive_append [of s "butlast ps" "[last ps]"] c ne by simp
  moreover have "int (length (butlast ps)) = int (length ps) - 1" using ne by (cases ps) auto
  ultimately have last: "sq_of (last ps) = s + int (length ps) - 1" by (simp add: consecutive_Cons)
  have "sq_of q = sint (word_of_int (sq_of (last ps) + 1) :: u32)"
    using assms(2) by (simp add: parity_of_def)
  also have "\<dots> = i32 (s + int (length ps))" by (simp add: i32_def last)
  also have "\<dots> = s + int (length ps)"
    using assms(1) \<open>0 \<le> s\<close> by (intro i32_ident) (auto simp: source_block_def i32_ok_def)
  finally show "sq_of q = s + int (length ps)" .
qed

lemma fd_run_append: "fd_run nanos (xs @ ys) d =
    (let (d', es) = fd_run nanos xs d; (d'', es') = fd_run nanos ys d' in (d'', es @ es'))"
  by (induction xs arbitrary: d) (auto simp: Let_def split: prod.splits)

text \<open>After the loss: what follows in the block is held behind the slot \<open>g\<close>.\<close>

lemma loss_tail:
  assumes "fd_nextExpectedSeq d = g" and "0 \<le> g" and "consecutive (g + 1) post" and "length ts = length post"
    and "\<not> fd_holding d" and "fd_heldPackets d = []" and "fd_discardedSequences d = []"
    and "pend_has d pk" and "\<forall>e \<in> set pk. fst e < g" and "length pk + length post \<le> MAX_BLOCK_SIZE"
  shows "\<exists>ab. fd_run nanos (zip post ts) d = (d\<lparr>fd_activeBlocks := ab,
      fd_nextExpectedSeq := (if post = [] then g else g + 1 + int (length post)),
      fd_holding := post \<noteq> [], fd_holdBaseSeq := (if post = [] then fd_holdBaseSeq d else g),
      fd_heldPackets := map held_live post\<rparr>, []) \<and> pend_has (d\<lparr>fd_activeBlocks := ab\<rparr>) (pk @ map kv post)"
proof (cases post)
  case Nil
  with assms(1,5,6,8) show ?thesis by (cases d) (auto simp: pend_has_def)
next
  case (Cons q qs)
  let ?d = "d\<lparr>fd_nextExpectedSeq := g + 1, fd_holding := True, fd_holdBaseSeq := g\<rparr>"
  obtain t ts' where ts: "ts = t # ts'" using assms(4) Cons by (cases ts) auto
  have q: "sq_of q = g + 1" "ptype q \<noteq> FecParity" "g + 1 < 2 ^ 31 - 1"
    using assms(3) by (auto simp: Cons consecutive_Cons)
  have "fd_processPacket nanos t q d = fd_processPacket nanos t q ?d"
    using process_gap_opens_hold [of q d g nanos t] assms(1,2,5) q by simp
  then have same: "fd_run nanos (zip post ts) d = fd_run nanos (zip post ts) ?d"
    by (simp add: Cons ts)
  have hl: "(\<lambda>q. (sq_of q, \<lparr>hp_packet = q, hp_provenance = Live\<rparr>)) = held_live"
    by (simp add: fun_eq_iff held_live_def)
  have "\<exists>ab. fd_run nanos (zip post ts) ?d =
      (?d\<lparr>fd_activeBlocks := ab, fd_nextExpectedSeq := fd_nextExpectedSeq ?d + int (length post),
         fd_heldPackets := fd_heldPackets ?d @ map (\<lambda>q. (sq_of q, \<lparr>hp_packet = q, hp_provenance = Live\<rparr>)) post\<rparr>, [])
    \<and> pend_has (?d\<lparr>fd_activeBlocks := ab\<rparr>) (pk @ map kv post)"
    using assms by (intro run_held) (auto simp: pend_has_def fec_consts)
  then obtain ab where ab: "fd_run nanos (zip post ts) ?d =
      (?d\<lparr>fd_activeBlocks := ab, fd_nextExpectedSeq := g + 1 + int (length post), fd_heldPackets := map held_live post\<rparr>, [])"
    "pend_has (?d\<lparr>fd_activeBlocks := ab\<rparr>) (pk @ map kv post)"
    unfolding hl using assms(6) by auto
  show ?thesis
    by (rule exI [of _ ab], cases d) (use same ab Cons in \<open>simp add: pend_has_def\<close>)
qed

lemma note_forward:
  assumes "0 \<le> fd_nextExpectedSeq d" and "fd_nextExpectedSeq d \<le> sq" and "sq < 2 ^ 31 - 1"
  shows "fst (noteSequenceAndDetectGap sq d) = d\<lparr>fd_nextExpectedSeq := sq + 1\<rparr>"
  using note_in_sync [of d sq] note_gap [of d "fd_nextExpectedSeq d" sq] assms
  by (cases "fd_nextExpectedSeq d = sq") auto

text \<open>The parity that resolves the loss.\<close>

lemma loss_parity:
  assumes "source_block s t len (pre @ lost # post)" and "parity_of (pre @ lost # post) q"
    and "pend_has d (map kv (pre @ post))" and "fd_discardedSequences d = []"
    and "fd_heldPackets d = map held_live post" and "fd_holding d \<longrightarrow> fd_holdBaseSeq d = sq_of lost"
    and "0 \<le> fd_nextExpectedSeq d" and "fd_nextExpectedSeq d \<le> sq_of q"
  shows "fd_processPacket nanos now q d = (d\<lparr>fd_activeBlocks := [], fd_heldPackets := [], fd_holding := False,
      fd_holdBaseSeq := sq_of lost, fd_nextExpectedSeq := sq_of q + 1,
      fd_packetsRecoveredByFec := fd_packetsRecoveredByFec d + 1, fd_fecBlocksComplete := fd_fecBlocksComplete d + 1\<rparr>,
    (Some (mk_packet nanos t (sequence lost) (pad_to len (payload lost))), Recovered) # map (\<lambda>q. (Some q, Live)) post)"
proof -
  let ?ps = "pre @ lost # post"
  note L = loss_facts [OF assms(1)] and P = source_block_parity [OF assms(1,2)]
  have c: "consecutive s ?ps" using assms(1) by (simp add: source_block_def)
  have g: "sq_of lost = s + int (length pre)" by (rule L(3))
  have post: "consecutive (sq_of lost + 1) post"
    using consecutive_append [OF c] by (simp add: consecutive_Cons)
  define d1 where "d1 = d\<lparr>fd_nextExpectedSeq := sq_of q + 1\<rparr>"
  have note1: "fst (noteSequenceAndDetectGap (sq_of q) d) = d1"
    unfolding d1_def using assms(1,7,8) P(2) by (intro note_forward) (auto simp: source_block_def)
  have lens: "MIN_BLOCK_SIZE \<le> length (map payload ?ps)" "length (map payload ?ps) \<le> MAX_BLOCK_SIZE"
    using assms(1) by (simp_all add: source_block_def)
  have pay: "payload q = parity_payload (sequence (hd ?ps)) (map payload ?ps)" using assms(2) by (simp add: parity_of_def)
  have "\<forall>x \<in> set (map kv (pre @ post)). in_range s (s + int (length ?ps)) (fst x)"
    using consecutive_set [OF c] by (auto simp: in_range_def)
  moreover have "s \<noteq> PENDING_KEY" using P(3) by (simp add: PENDING_KEY_def)
  ultimately obtain b where b: "collect_block now s (int (length ?ps)) d1 = (b, d1\<lparr>fd_activeBlocks := []\<rparr>)"
    "fb_packets b = map kv (pre @ post)"
    using collect_pending [of d1 "map kv (pre @ post)" s "int (length ?ps)" now] assms(3) L(2) by (auto simp: d1_def pend_has_def)
  let ?h = "\<lparr>hp_packet = mk_packet nanos t (sequence lost) (pad_to len (payload lost)), hp_provenance = Recovered\<rparr>"
  have put: "omap_put (sq_of lost) ?h (map held_live post) = (sq_of lost, ?h) # map held_live post"
    using consecutive_set [OF post] by (intro omap_put_first) (fastforce simp: held_live_def)
  define d2 where "d2 = d\<lparr>fd_activeBlocks := [], fd_nextExpectedSeq := sq_of q + 1, fd_holding := True,
    fd_holdBaseSeq := sq_of lost, fd_heldPackets := (sq_of lost, ?h) # map held_live post,
    fd_packetsRecoveredByFec := fd_packetsRecoveredByFec d + 1, fd_fecBlocksComplete := fd_fecBlocksComplete d + 1\<rparr>"
  have "handleParity nanos now q d1 = resolve_block nanos s (int (length ?ps))
      (foldl xor_into (replicate (max_len (map payload ?ps)) 0) (map payload ?ps)) b (d1\<lparr>fd_activeBlocks := []\<rparr>)"
    using handleParity_parse [OF pay lens, of nanos now d1] b(1) by (simp add: P(1) Let_def)
  also have "\<dots> = (d2, [])"
    using resolve_single_loss [OF assms(1) b(2), of "d1\<lparr>fd_activeBlocks := []\<rparr>" nanos] assms(4-6) put
    by (cases d) (simp add: d1_def d2_def beginHold_def Let_def)
  finally have hp: "handleParity nanos now q d1 = (d2, [])" .
  have "0 \<le> sq_of lost" using g P(3) by simp
  moreover have "sq_of lost < 2 ^ 31" using sint_i32_ok [of "sequence lost"] by (simp add: i32_ok_def)
  ultimately have "releaseHeld d2 = (d2\<lparr>fd_heldPackets := [], fd_holding := False\<rparr>,
      (Some (hp_packet ?h), hp_provenance ?h) # map (\<lambda>q. (Some q, Live)) post)"
    using post uint_of_sint [of "sequence lost"] by (intro release_in_order) (auto simp: d2_def mk_packet_def)
  with note1 hp assms(2) show ?thesis
    by (cases d) (simp add: fd_processPacket_def fd_process_def case_prod_beta parity_of_def d2_def)
qed

lemma single_loss_run:
  assumes "source_block s t len (pre @ lost # post)" and "parity_of (pre @ lost # post) q" and "fec_idle s d"
    and "length ts = length pre" and "length us = length post"
  shows "fd_run nanos (zip pre ts @ zip post us @ [(q, v)]) d =
    (d\<lparr>fd_holdBaseSeq := sq_of lost, fd_nextExpectedSeq := sq_of q + 1,
       fd_packetsRecoveredByFec := fd_packetsRecoveredByFec d + 1, fd_fecBlocksComplete := fd_fecBlocksComplete d + 1\<rparr>,
     map (\<lambda>p. (Some p, Live)) pre @
       (Some (mk_packet nanos t (sequence lost) (pad_to len (payload lost))), Recovered) # map (\<lambda>p. (Some p, Live)) post)"
proof -
  have c: "consecutive s (pre @ lost # post)" and n: "length (pre @ lost # post) \<le> MAX_BLOCK_SIZE"
    using assms(1) by (simp_all add: source_block_def)
  have pre: "consecutive s pre" and post: "consecutive (sq_of lost + 1) post" and g: "sq_of lost = s + int (length pre)"
    using consecutive_append [OF c] by (auto simp: consecutive_Cons)
  have s0: "0 \<le> s" using c by (simp add: consecutive_def)
  have "pend_has d []" using assms(3) by (simp add: fec_idle_def pend_has_def)
  with run_live [of d pre ts "[]" nanos] assms(3,4) pre n obtain ab1 where r1: "fd_run nanos (zip pre ts) d =
      (d\<lparr>fd_activeBlocks := ab1, fd_nextExpectedSeq := sq_of lost\<rparr>, map (\<lambda>p. (Some p, Live)) pre)"
    "pend_has (d\<lparr>fd_activeBlocks := ab1\<rparr>) (map kv pre)"
    by (auto simp: fec_idle_def g fec_consts)
  let ?d1 = "d\<lparr>fd_activeBlocks := ab1, fd_nextExpectedSeq := sq_of lost\<rparr>"
  have ph: "pend_has ?d1 (map kv pre)" using r1(2) by (simp add: pend_has_def)
  have lt: "\<forall>e \<in> set (map kv pre). fst e < sq_of lost" using consecutive_set [OF pre] g by auto
  from loss_tail [OF _ _ post assms(5), of ?d1 "map kv pre" nanos] ph lt assms(3) g s0 n
  obtain ab2 where r2: "fd_run nanos (zip post us) ?d1 = (?d1\<lparr>fd_activeBlocks := ab2,
      fd_nextExpectedSeq := (if post = [] then sq_of lost else sq_of lost + 1 + int (length post)),
      fd_holding := post \<noteq> [], fd_holdBaseSeq := (if post = [] then fd_holdBaseSeq ?d1 else sq_of lost),
      fd_heldPackets := map held_live post\<rparr>, [])" "pend_has (?d1\<lparr>fd_activeBlocks := ab2\<rparr>) (map kv (pre @ post))"
    by (auto simp: fec_idle_def)
  let ?d2 = "?d1\<lparr>fd_activeBlocks := ab2,
      fd_nextExpectedSeq := (if post = [] then sq_of lost else sq_of lost + 1 + int (length post)),
      fd_holding := post \<noteq> [], fd_holdBaseSeq := (if post = [] then fd_holdBaseSeq ?d1 else sq_of lost),
      fd_heldPackets := map held_live post\<rparr>"
  have "pend_has ?d2 (map kv (pre @ post))" using r2(2) by (simp add: pend_has_def)
  from loss_parity [OF assms(1,2) this, of nanos v] assms(3) g s0 source_block_parity(2) [OF assms(1,2)]
  have r3: "fd_processPacket nanos v q ?d2 = (d\<lparr>fd_holdBaseSeq := sq_of lost, fd_nextExpectedSeq := sq_of q + 1,
       fd_packetsRecoveredByFec := fd_packetsRecoveredByFec d + 1, fd_fecBlocksComplete := fd_fecBlocksComplete d + 1\<rparr>,
     (Some (mk_packet nanos t (sequence lost) (pad_to len (payload lost))), Recovered) # map (\<lambda>p. (Some p, Live)) post)"
    by (cases d) (simp add: fec_idle_def)
  define d2 where "d2 = ?d2"
  show ?thesis by (simp add: fd_run_append r1(1) r2(1) [folded d2_def] r3 [folded d2_def])
qed

text \<open>The same block when nothing is lost.\<close>

lemma resolve_complete:
  assumes "source_block s t len ps" and "fb_packets b = map kv ps" and "fd_discardedSequences d = []"
  shows "resolve_block nanos s (int (length ps)) xd b d = (d\<lparr>fd_fecBlocksComplete := fd_fecBlocksComplete d + 1\<rparr>, [])"
proof -
  have c: "consecutive s ps" using assms(1) by (simp add: source_block_def)
  let ?xs = "[s..s + int (length ps) - 1]"
  have xs: "?xs = map sq_of ps" using c by (simp only: consecutive_def)
  have id: "\<forall>x \<in> set ?xs. i32 x = x" using consecutive_ident(1) [OF c] by blast
  have dist: "distinct (map sq_of ps)" using consecutive_sorted [OF c] by (rule strict_sorted_distinct)
  have get: "\<forall>x \<in> set ?xs. \<exists>p \<in> set ps. map_of (map kv ps) x = Some p"
    using map_of_kv [OF dist] unfolding xs by auto
  have ty: "\<forall>x \<in> set ?xs. \<forall>p. map_of (map kv ps) x = Some p \<longrightarrow> ptype p = t"
    using get assms(1) by (fastforce simp: source_block_def)
  have none: "filter (\<lambda>x. map_of (map kv ps) x = None) ?xs = []"
    using get by (fastforce simp: filter_empty_conv)
  obtain ri where ri: "ri = scan_range [] (map kv ps) s (s + int (length ps))" by simp
  have "ri_missingCount ri = 0 \<and> ri_audioOnly ri \<and> ri_typeUniform ri \<and> \<not> ri_hasDiscarded ri"
    using scan_fold [OF id ty _ _ ri [unfolded scan_range_def]] assms(1) none by (simp add: source_block_def)
  then show ?thesis
    using assms(2,3) by (cases d) (simp add: resolve_block_def Let_def ri)
qed

lemma no_loss_run:
  assumes "source_block s t len ps" and "parity_of ps q" and "fec_idle s d" and "length ts = length ps"
  shows "fd_run nanos (zip ps ts @ [(q, v)]) d =
    (d\<lparr>fd_nextExpectedSeq := sq_of q + 1, fd_fecBlocksComplete := fd_fecBlocksComplete d + 1\<rparr>,
     map (\<lambda>p. (Some p, Live)) ps)"
proof -
  have c: "consecutive s ps" and n: "MIN_BLOCK_SIZE \<le> length (map payload ps)" "length (map payload ps) \<le> MAX_BLOCK_SIZE"
    using assms(1) by (simp_all add: source_block_def)
  note P = source_block_parity [OF assms(1,2)]
  have "pend_has d []" using assms(3) by (simp add: fec_idle_def pend_has_def)
  with run_live [of d ps ts "[]" nanos] assms(3,4) c n obtain ab where r1: "fd_run nanos (zip ps ts) d =
      (d\<lparr>fd_activeBlocks := ab, fd_nextExpectedSeq := sq_of q\<rparr>, map (\<lambda>p. (Some p, Live)) ps)"
    "pend_has (d\<lparr>fd_activeBlocks := ab\<rparr>) (map kv ps)"
    by (auto simp: fec_idle_def P(2) fec_consts)
  define d1 where "d1 = d\<lparr>fd_activeBlocks := ab, fd_nextExpectedSeq := sq_of q + 1\<rparr>"
  have note1: "fst (noteSequenceAndDetectGap (sq_of q) (d\<lparr>fd_activeBlocks := ab, fd_nextExpectedSeq := sq_of q\<rparr>)) = d1"
    unfolding d1_def using assms(1) P by (subst note_forward) (auto simp: source_block_def)
  have pay: "payload q = parity_payload (sequence (hd ps)) (map payload ps)" using assms(2) by (simp add: parity_of_def)
  have srt: "sorted_wrt (<) (map sq_of ps)" using c by (rule consecutive_sorted)
  have "\<forall>x \<in> set (map kv ps). in_range s (s + int (length ps)) (fst x)"
    using consecutive_set [OF c] by (auto simp: in_range_def)
  moreover have "s \<noteq> PENDING_KEY" using P(3) by (simp add: PENDING_KEY_def)
  ultimately obtain b where b: "collect_block v s (int (length ps)) d1 = (b, d1\<lparr>fd_activeBlocks := []\<rparr>)"
    "fb_packets b = map kv ps"
    using collect_pending [of d1 "map kv ps" s "int (length ps)" v] r1(2) omap_ok_kv [OF srt]
    by (auto simp: d1_def pend_has_def)
  have "handleParity nanos v q d1 = (d1\<lparr>fd_activeBlocks := [], fd_fecBlocksComplete := fd_fecBlocksComplete d + 1\<rparr>, [])"
    using handleParity_parse [OF pay n, of nanos v d1] b resolve_complete [OF assms(1) b(2)] assms(3)
    by (simp add: P(1) Let_def d1_def fec_idle_def)
  then have "fd_processPacket nanos v q (d\<lparr>fd_activeBlocks := ab, fd_nextExpectedSeq := sq_of q\<rparr>) =
      (d\<lparr>fd_nextExpectedSeq := sq_of q + 1, fd_fecBlocksComplete := fd_fecBlocksComplete d + 1\<rparr>, [])"
    using note1 assms(2,3)
    by (cases d) (simp add: fd_processPacket_def fd_process_def case_prod_beta parity_of_def d1_def releaseHeld_def fec_idle_def)
  then show ?thesis by (simp add: fd_run_append r1(1))
qed

section \<open>Blocks across the sign boundary\<close>

text \<open>Two audio packets at the largest and the smallest signed sequence number.\<close>

definition wrap_pair :: "packet_type \<Rightarrow> bytes \<Rightarrow> bytes \<Rightarrow> audio_packet list" where
  "wrap_pair t a b = [mk_packet 0 t 0x7FFFFFFF a, mk_packet 0 t 0x80000000 b]"

lemma i32_wrap: "i32 2147483648 = - 2147483648" "i32 2147483647 = 2147483647" "i32 (- 2147483648) = -2147483648"
  "i32 2147483649 = - 2147483647" "i32 2147483650 = - 2147483646"
  by (simp_all add: i32_def)

lemma wrap_duplicate_run:
  assumes "fd_isAudio t" and "length a = length b"
    and "parity_of (wrap_pair t a b) q"
  shows "snd (fd_run nanos (zip (wrap_pair t a b @ [q]) [0, 1, 2]) (mk_fec_decoder 60)) =
    map (\<lambda>p. (Some p, Live)) (wrap_pair t a b) @ [(Some (mk_packet nanos t 0x80000000 b), Recovered)]"
proof -
  have nt: "t \<noteq> FecParity" using assms(1) by (auto simp: fd_isAudio_def)
  let ?p0 = "mk_packet 0 t 0x7FFFFFFF a" and ?p1 = "mk_packet 0 t 0x80000000 b"
  have q: "ptype q = FecParity" "sequence q = 0x80000001"
     "payload q = parity_payload 0x7FFFFFFF [a, b]"
    using assms(3) by (auto simp: parity_of_def wrap_pair_def mk_packet_def)
  define d0 where "d0 = mk_fec_decoder 60"
  define d1 where "d1 = d0\<lparr>fd_nextExpectedSeq := - 2147483648, fd_activeBlocks := pend 0 [(2147483647, ?p0)]\<rparr>"
  define d2 where "d2 = d0\<lparr>fd_nextExpectedSeq := - 2147483647, fd_activeBlocks := pend 1 [(- 2147483648, ?p1), (2147483647, ?p0)]\<rparr>"
  have s0: "fd_processPacket nanos 0 ?p0 d0 = (d1, [(Some ?p0, Live)])"
    using nt by (simp add: d0_def d1_def fd_processPacket_def fd_process_def mk_packet_def mk_fec_decoder_def noteSequenceAndDetectGap_def
      wrap32_def i32_wrap storeInBlock_def matchingBlockKey_def getOrCreateBlock_def mk_fec_block_def capPending_def pend_def fec_consts)
  have s1: "fd_processPacket nanos 1 ?p1 d1 = (d2, [(Some ?p1, Live)])"
    using nt by (simp add: d0_def d1_def d2_def fd_processPacket_def fd_process_def mk_packet_def mk_fec_decoder_def noteSequenceAndDetectGap_def
      wrap32_def i32_wrap storeInBlock_def matchingBlockKey_def getOrCreateBlock_def mk_fec_block_def capPending_def pend_def fec_consts
      fb_covers_def)
  let ?d2 = "d2\<lparr>fd_nextExpectedSeq := - 2147483646\<rparr>"
  have c: "collect_block 2 2147483647 2 ?d2 = ((mk_fec_block 2147483647 2 2)\<lparr>fb_packets := [(2147483647, ?p0)]\<rparr>,
     ?d2\<lparr>fd_activeBlocks := pend 2 [(- 2147483648, ?p1)]\<rparr>)"
    by (simp add: collect_block_def d2_def d0_def pend_def PENDING_KEY_def mk_fec_decoder_def omap_del_def in_range_def
     getOrCreateBlock_def mk_fec_block_def capPending_def fec_consts)
  have up: "[2147483647..2147483648] = [2147483647, 2147483648 :: int]" by (simp add: upto_rec1)
  have ml: "max_len [a, b] = length b" using assms(2) by (simp add: max_len_def)
  have x: "xor_into (foldl xor_into (replicate (length b) 0) [a, b]) a = b"
    using foldl_xor_missing [of _ "[a]" b "[]"] xor_into_pad [of b "length b"] by simp
  have r: "resolve_block nanos 2147483647 2 (foldl xor_into (replicate (max_len [a, b]) 0) [a, b])
      ((mk_fec_block 2147483647 2 2)\<lparr>fb_packets := [(2147483647, ?p0)]\<rparr>) (?d2\<lparr>fd_activeBlocks := pend 2 [(- 2147483648, ?p1)]\<rparr>) =
    (?d2\<lparr>fd_activeBlocks := pend 2 [(- 2147483648, ?p1)], fd_holding := True, fd_holdBaseSeq := - 2147483648,
      fd_heldPackets := [(- 2147483648, \<lparr>hp_packet = mk_packet nanos t 0x80000000 b, hp_provenance = Recovered\<rparr>)],
      fd_packetsRecoveredByFec := 1, fd_fecBlocksComplete := 1\<rparr>, [])"
    using assms(1) nt x
    by (simp add: resolve_block_def Let_def scan_range_def up scan_slot_def i32_wrap mk_fec_block_def d2_def d0_def mk_fec_decoder_def
      mk_packet_def displaced_member_def scanForMember_def pend_def atOrPastBlockEnd_def wrap32_def recover_payload_def ml beginHold_def)
  have nt2: "fst (noteSequenceAndDetectGap (sq_of q) d2) = ?d2"
    by (simp add: q(2) d2_def d0_def noteSequenceAndDetectGap_def wrap32_def i32_wrap)
  have "handleParity nanos 2 q ?d2 = resolve_block nanos 2147483647 2 (foldl xor_into (replicate (max_len [a, b]) 0) [a, b])
      ((mk_fec_block 2147483647 2 2)\<lparr>fb_packets := [(2147483647, ?p0)]\<rparr>) (?d2\<lparr>fd_activeBlocks := pend 2 [(- 2147483648, ?p1)]\<rparr>)"
    using handleParity_parse [OF q(3), of nanos 2 ?d2] c by (simp add: fec_consts Let_def del: foldl.simps)
  then have "snd (fd_processPacket nanos 2 q d2) = [(Some (mk_packet nanos t 0x80000000 b), Recovered)]"
    using nt2 q(1) by (simp add: fd_processPacket_def fd_process_def r case_prod_beta releaseHeld_def del: foldl.simps)
  with s0 s1 show ?thesis
    by (simp add: wrap_pair_def case_prod_beta flip: d0_def)
qed

section \<open>A displaced member that is lost\<close>

text \<open>
  A control packet that is consumed before the decoder (sequence 1) displaces the last member of the
  block past the range the parity announces. When that member is the packet that gets lost, nothing
  witnesses the displacement: its payload is delivered in the control packet's slot, ahead of audio
  that was sent before it.
\<close>

definition displaced_block :: "packet_type \<Rightarrow> bytes \<Rightarrow> bytes \<Rightarrow> bytes \<Rightarrow> audio_packet list" where
  "displaced_block t a b c = [mk_packet 0 t 0 a, mk_packet 0 t 2 b, mk_packet 0 t 3 c]"

lemma i32_small: "i32 0 = 0" "i32 1 = 1" "i32 2 = 2" "i32 3 = 3" "i32 4 = 4" "i32 5 = 5"
  by (simp_all add: i32_def)

lemma displaced_loss_run:
  assumes "fd_isAudio t" and "length a = length c" and "length b = length c"
    and "parity_of (displaced_block t a b c) q"
  shows "snd (fd_run nanos (zip [mk_packet 0 t 0 a, mk_packet 0 t 2 b, q] [0, 1, 2]) (mk_fec_decoder 60)) =
    [(Some (mk_packet 0 t 0 a), Live), (Some (mk_packet nanos t 1 c), Recovered), (Some (mk_packet 0 t 2 b), Live)]"
proof -
  have nt: "t \<noteq> FecParity" using assms(1) by (auto simp: fd_isAudio_def)
  let ?p0 = "mk_packet 0 t 0 a" and ?p2 = "mk_packet 0 t 2 b" and ?r = "mk_packet nanos t 1 c"
  have q: "ptype q = FecParity" "sequence q = 4" "payload q = parity_payload 0 [a, b, c]"
    using assms(4) by (auto simp: parity_of_def displaced_block_def mk_packet_def)
  define d0 where "d0 = mk_fec_decoder 60"
  define d1 where "d1 = d0\<lparr>fd_nextExpectedSeq := 1, fd_activeBlocks := pend 0 [(0, ?p0)]\<rparr>"
  define d2 where "d2 = d0\<lparr>fd_nextExpectedSeq := 3, fd_activeBlocks := pend 1 [(0, ?p0), (2, ?p2)], fd_holding := True,
    fd_holdBaseSeq := 1, fd_heldPackets := [held_live ?p2]\<rparr>"
  note ev = fd_processPacket_def fd_process_def mk_packet_def mk_fec_decoder_def noteSequenceAndDetectGap_def
      wrap32_def i32_small storeInBlock_def matchingBlockKey_def getOrCreateBlock_def mk_fec_block_def capPending_def pend_def
      fec_consts fb_covers_def
  have s0: "fd_processPacket nanos 0 ?p0 d0 = (d1, [(Some ?p0, Live)])"
    using nt by (simp add: d0_def d1_def ev)
  have s1: "fd_processPacket nanos 1 ?p2 d1 = (d2, [])"
    using nt by (simp add: d0_def d1_def d2_def ev beginHold_def held_live_def PENDING_KEY_def)
  let ?d2 = "d2\<lparr>fd_nextExpectedSeq := 5\<rparr>"
  have c: "collect_block 2 0 3 ?d2 = ((mk_fec_block 0 3 2)\<lparr>fb_packets := [(0, ?p0), (2, ?p2)]\<rparr>, ?d2\<lparr>fd_activeBlocks := []\<rparr>)"
    by (simp add: collect_block_def d2_def d0_def pend_def PENDING_KEY_def mk_fec_decoder_def omap_del_def in_range_def
     getOrCreateBlock_def mk_fec_block_def capPending_def fec_consts)
  have up: "[0..2] = [0, 1, 2 :: int]" by (simp add: upto_rec1)
  have ml: "max_len [a, b, c] = length c" using assms(2,3) by (simp add: max_len_def)
  have x: "xor_into (xor_into (foldl xor_into (replicate (length c) 0) [a, b, c]) a) b = c"
    using foldl_xor_missing [of _ "[a, b]" c "[]"] xor_into_pad [of c "length c"] by simp
  have r: "resolve_block nanos 0 3 (foldl xor_into (replicate (max_len [a, b, c]) 0) [a, b, c])
      ((mk_fec_block 0 3 2)\<lparr>fb_packets := [(0, ?p0), (2, ?p2)]\<rparr>) (?d2\<lparr>fd_activeBlocks := []\<rparr>) =
    (?d2\<lparr>fd_activeBlocks := [], fd_heldPackets := [(1, \<lparr>hp_packet = ?r, hp_provenance = Recovered\<rparr>), held_live ?p2],
      fd_packetsRecoveredByFec := 1, fd_fecBlocksComplete := 1\<rparr>, [])"
    using assms(1) nt x
    by (simp add: resolve_block_def Let_def scan_range_def up scan_slot_def i32_small mk_fec_block_def d2_def d0_def mk_fec_decoder_def
      mk_packet_def displaced_member_def scanForMember_def atOrPastBlockEnd_def wrap32_def recover_payload_def ml beginHold_def
      held_live_def)
  have nt2: "fst (noteSequenceAndDetectGap (sq_of q) d2) = ?d2"
    by (simp add: q(2) d2_def d0_def noteSequenceAndDetectGap_def wrap32_def i32_small)
  have "handleParity nanos 2 q ?d2 = resolve_block nanos 0 3 (foldl xor_into (replicate (max_len [a, b, c]) 0) [a, b, c])
      ((mk_fec_block 0 3 2)\<lparr>fb_packets := [(0, ?p0), (2, ?p2)]\<rparr>) (?d2\<lparr>fd_activeBlocks := []\<rparr>)"
    using handleParity_parse [OF q(3), of nanos 2 ?d2] c by (simp add: fec_consts Let_def del: foldl.simps)
  moreover have "snd (releaseHeld (?d2\<lparr>fd_activeBlocks := [], fd_heldPackets := [(1, \<lparr>hp_packet = ?r, hp_provenance = Recovered\<rparr>), held_live ?p2],
      fd_packetsRecoveredByFec := 1, fd_fecBlocksComplete := 1\<rparr>)) = [(Some ?r, Recovered), (Some ?p2, Live)]"
    by (simp add: releaseHeld_def d2_def d0_def held_live_def hold_distance_def wrap32_def mk_packet_def)
  ultimately have "snd (fd_processPacket nanos 2 q d2) = [(Some ?r, Recovered), (Some ?p2, Live)]"
    using nt2 q(1) by (simp add: fd_processPacket_def fd_process_def r case_prod_beta del: foldl.simps)
  with s0 s1 show ?thesis
    by (simp add: case_prod_beta flip: d0_def)
qed

section \<open>Bounds\<close>

text \<open>
  At most one block is ever active, the pending one; its packets and missing slots are capped,
  and so are the held packets and the record of discarded sequences.
\<close>

definition pending_shape :: "fec_decoder \<Rightarrow> bool" where
  "pending_shape d \<longleftrightarrow> fd_activeBlocks d = [] \<or>
     (\<exists>b. fd_activeBlocks d = [(PENDING_KEY, b)] \<and> fb_startSeq b = PENDING_KEY \<and> fb_blockSize b = 0)"

definition pending_capped :: "fec_decoder \<Rightarrow> bool" where
  "pending_capped d \<longleftrightarrow> (\<forall>e \<in> set (fd_activeBlocks d). length (fb_packets (snd e)) \<le> MAX_PENDING_PACKETS \<and>
     length (fb_missingSequences (snd e)) \<le> MAX_PENDING_PACKETS \<and> length (fd_discardedSequences d) \<le> MAX_PENDING_PACKETS)"

definition fd_bounded :: "fec_decoder \<Rightarrow> bool" where
  "fd_bounded d \<longleftrightarrow> pending_shape d \<and> pending_capped d \<and>
     length (fd_discardedSequences d) \<le> 2 * MAX_PENDING_PACKETS \<and>
     length (fd_heldPackets d) \<le> MAX_HELD_PACKETS \<and> (\<not> fd_holding d \<longrightarrow> fd_heldPackets d = [])"

lemma length_fold_oset_insert: "length (fold oset_insert ys xs) \<le> length ys + length xs"
proof (induction ys arbitrary: xs)
  case (Cons y ys)
  show ?case using Cons [of "oset_insert y xs"] length_oset_insert [of y xs] by simp
qed simp

lemma length_cap_set: "length (cap_set xs) \<le> MAX_PENDING_PACKETS"
  by (induction xs) auto

lemma length_cap_packets: "length (fst (cap_packets ps disc n)) \<le> MAX_PENDING_PACKETS"
  by (induction ps disc n rule: cap_packets.induct) auto

lemma capPending_fields [simp]:
  "fd_heldPackets (capPending d) = fd_heldPackets d" "fd_holding (capPending d) = fd_holding d"
  by (simp_all add: capPending_def case_prod_beta Let_def split: option.splits)

lemma getOrCreateBlock_fields [simp]:
  "fd_heldPackets (getOrCreateBlock now k f d) = fd_heldPackets d"
  "fd_holding (getOrCreateBlock now k f d) = fd_holding d"
  "fd_discardedSequences (getOrCreateBlock now k f d) = fd_discardedSequences d"
  by (simp_all add: getOrCreateBlock_def Let_def)

lemma capPending_bounds:
  assumes "pending_shape d"
  shows "pending_shape (capPending d)" and "pending_capped (capPending d)"
    and "fd_activeBlocks d = [] \<Longrightarrow> capPending d = d"
    and "fd_activeBlocks d \<noteq> [] \<Longrightarrow> length (fd_discardedSequences (capPending d)) \<le> MAX_PENDING_PACKETS"
  using assms length_cap_set length_cap_packets
  by (auto simp: pending_shape_def pending_capped_def capPending_def case_prod_beta Let_def)

text \<open>A write to the pending block followed by the cap, as every insert path does.\<close>

lemma shape_getOrCreate:
  assumes "pending_shape d" and "\<And>b. fb_startSeq (f b) = fb_startSeq b \<and> fb_blockSize (f b) = fb_blockSize b"
  shows "pending_shape (getOrCreateBlock now PENDING_KEY f d)"
    and "fd_activeBlocks (getOrCreateBlock now PENDING_KEY f d) \<noteq> []"
  using assms by (auto simp: pending_shape_def getOrCreateBlock_def mk_fec_block_def Let_def)

lemma insert_bounds:
  assumes "fd_bounded d" and "\<And>b. fb_startSeq (f b) = fb_startSeq b \<and> fb_blockSize (f b) = fb_blockSize b"
  shows "fd_bounded (capPending (getOrCreateBlock now PENDING_KEY f d))"
proof -
  have "pending_shape d" using assms(1) by (simp add: fd_bounded_def)
  note s = shape_getOrCreate [OF this assms(2), of now]
  from capPending_bounds [OF s(1)] s(2) assms(1) show ?thesis
    by (simp add: fd_bounded_def)
qed

lemma shape_no_match: "pending_shape d \<Longrightarrow> matchingBlockKey sq d = None"
  by (auto simp: pending_shape_def matchingBlockKey_def fb_covers_def)

lemma store_bounds: "fd_bounded d \<Longrightarrow> fd_bounded (storeInBlock now sq p d)"
  using insert_bounds [of d "\<lambda>b. b\<lparr>fb_packets := omap_put sq p (fb_packets b)\<rparr>" now]
  by (simp add: storeInBlock_def shape_no_match fd_bounded_def)

lemma missing_bounds: "fd_bounded d \<Longrightarrow> fd_bounded (recordMissing now sq d)"
  using insert_bounds [of d "\<lambda>b. b\<lparr>fb_missingSequences := oset_insert sq (fb_missingSequences b)\<rparr>" now]
  by (simp add: recordMissing_def shape_no_match fd_bounded_def)

lemma split_packets_keeps:
  assumes "pending_shape d"
  shows "pending_shape (snd (split_packets now s e ps b d)) \<and>
    fd_heldPackets (snd (split_packets now s e ps b d)) = fd_heldPackets d \<and>
    fd_holding (snd (split_packets now s e ps b d)) = fd_holding d \<and>
    fd_discardedSequences (snd (split_packets now s e ps b d)) = fd_discardedSequences d"
  using assms
  by (induction now s e ps b d rule: split_packets.induct) (simp_all add: shape_getOrCreate(1))

lemma split_missing_keeps:
  assumes "pending_shape d"
  shows "pending_shape (snd (split_missing now s e ms b d)) \<and>
    fd_heldPackets (snd (split_missing now s e ms b d)) = fd_heldPackets d \<and>
    fd_holding (snd (split_missing now s e ms b d)) = fd_holding d \<and>
    fd_discardedSequences (snd (split_missing now s e ms b d)) = fd_discardedSequences d"
  using assms
  by (induction now s e ms b d rule: split_missing.induct) (simp_all add: shape_getOrCreate(1))

text \<open>All bounds but the one on held packets, which the recovery limb may exceed until the release.\<close>

definition fd_bounded_unheld :: "fec_decoder \<Rightarrow> bool" where
  "fd_bounded_unheld d \<longleftrightarrow> pending_shape d \<and> pending_capped d \<and>
     length (fd_discardedSequences d) \<le> 2 * MAX_PENDING_PACKETS \<and> (\<not> fd_holding d \<longrightarrow> fd_heldPackets d = [])"

lemma fd_bounded_alt: "fd_bounded d \<longleftrightarrow> fd_bounded_unheld d \<and> length (fd_heldPackets d) \<le> MAX_HELD_PACKETS"
  by (auto simp: fd_bounded_def fd_bounded_unheld_def)

lemma capPending_unheld:
  assumes "pending_shape d" and "length (fd_discardedSequences d) \<le> 2 * MAX_PENDING_PACKETS"
    and "\<not> fd_holding d \<longrightarrow> fd_heldPackets d = []"
  shows "fd_bounded_unheld (capPending d)"
proof (cases "fd_activeBlocks d = []")
  case True
  then show ?thesis
    using assms capPending_bounds(3) [OF assms(1)] by (simp add: fd_bounded_unheld_def pending_capped_def)
next
  case False
  then show ?thesis
    using assms(3) capPending_bounds [OF assms(1)] by (simp add: fd_bounded_unheld_def)
qed

lemma collect_unheld:
  assumes "fd_bounded_unheld d"
  shows "fd_bounded_unheld (snd (collect_block now s n d))"
proof (cases "fd_activeBlocks d")
  case Nil
  with assms show ?thesis by (simp add: collect_block_def)
next
  case (Cons e es)
  then obtain b where ab: "fd_activeBlocks d = [(PENDING_KEY, b)]"
    using assms by (auto simp: fd_bounded_unheld_def pending_shape_def)
  let ?d = "d\<lparr>fd_activeBlocks := []\<rparr>"
  have sh: "pending_shape ?d" by (simp add: pending_shape_def)
  have ok: "fd_bounded_unheld ?d" using assms by (simp add: fd_bounded_unheld_def pending_shape_def pending_capped_def)
  show ?thesis
  proof (cases "s = PENDING_KEY")
    case True
    then show ?thesis using ok by (simp add: collect_block_def ab omap_del_def)
  next
    case False
    obtain bl1 d1 where 1: "split_packets now s (s + n) (fb_packets b) (mk_fec_block s n now) ?d = (bl1, d1)" by fastforce
    obtain bl2 d2 where 2: "split_missing now s (s + n) (fb_missingSequences b) bl1 d1 = (bl2, d2)" by fastforce
    have "collect_block now s n d = (bl2, capPending d2)"
      using False 1 2 by (simp add: collect_block_def ab omap_del_def)
    moreover have "fd_bounded_unheld (capPending d2)"
      using split_packets_keeps [OF sh, of now s "s + n" "fb_packets b" "mk_fec_block s n now"]
        split_missing_keeps [of d1 now s "s + n" "fb_missingSequences b" bl1] 1 2 ok
      by (intro capPending_unheld) (auto simp: fd_bounded_unheld_def)
    ultimately show ?thesis by simp
  qed
qed

lemma resolve_unheld:
  assumes "fd_bounded_unheld d"
  shows "fd_bounded_unheld (fst (resolve_block nanos s n xd b d))"
proof -
  define c where "c = d\<lparr>fd_discardedSequences := filter (\<lambda>sq. sq \<ge> i32 (s + n)) (fd_discardedSequences d)\<rparr>"
  have "fd_bounded_unheld c"
    using assms order_trans [OF length_filter_le]
    by (fastforce simp: c_def fd_bounded_unheld_def pending_shape_def pending_capped_def)
  then show ?thesis
    by (auto simp: resolve_block_def Let_def c_def [symmetric] beginHold_def fd_bounded_unheld_def pending_shape_def
      pending_capped_def)
qed

lemma handleParity_unheld:
  assumes "fd_bounded_unheld d" shows "fd_bounded_unheld (fst (handleParity nanos now q d))"
proof -
  have "fd_bounded_unheld (d\<lparr>fd_fecBlocksUnreconciled := x\<rparr>)" for x
    using assms by (simp add: fd_bounded_unheld_def pending_shape_def pending_capped_def)
  then show ?thesis
    using assms resolve_unheld [OF collect_unheld [OF assms]]
    by (auto simp: handleParity_def Let_def case_prod_beta)
qed

lemma release_bounds: "fd_bounded_unheld d \<Longrightarrow> fd_bounded (fst (releaseHeld d))"
  by (auto simp: releaseHeld_def fd_bounded_def fd_bounded_unheld_def pending_shape_def pending_capped_def Let_def)

lemma note_bounds: "fd_bounded d \<Longrightarrow> fd_bounded (fst (noteSequenceAndDetectGap sq d))"
  by (auto simp: noteSequenceAndDetectGap_def Let_def fd_bounded_def pending_shape_def pending_capped_def)

lemma beginHold_bounds: "fd_bounded d \<Longrightarrow> fd_bounded (beginHold g d)"
  by (auto simp: beginHold_def fd_bounded_def pending_shape_def pending_capped_def)

lemma storeInBlock_held [simp]:
  "fd_heldPackets (storeInBlock now sq p d) = fd_heldPackets d" "fd_holding (storeInBlock now sq p d) = fd_holding d"
  by (simp_all add: storeInBlock_def Let_def)

lemma held_insert_bounds:
  assumes "fd_bounded d" and "fd_holding d"
    and "d' = storeInBlock now sq p (d\<lparr>fd_heldPackets := omap_put sq h (fd_heldPackets d)\<rparr>)"
  shows "fd_bounded (fst (if length (fd_heldPackets d') > MAX_HELD_PACKETS then releaseHeld d' else (d', [])))"
proof -
  let ?d = "d\<lparr>fd_heldPackets := omap_put sq h (fd_heldPackets d)\<rparr>"
  have "fd_bounded_unheld d'"
  proof -
    have sh: "pending_shape ?d" using assms(1) by (simp add: fd_bounded_def pending_shape_def)
    note s = shape_getOrCreate [OF sh, of "\<lambda>b. b\<lparr>fb_packets := omap_put sq p (fb_packets b)\<rparr>" now]
    have "d' = capPending (getOrCreateBlock now PENDING_KEY (\<lambda>b. b\<lparr>fb_packets := omap_put sq p (fb_packets b)\<rparr>) ?d)"
      by (simp add: assms(3) storeInBlock_def shape_no_match [OF sh])
    with s assms(1,2) show ?thesis
      by (simp only:) (intro capPending_unheld, auto simp: fd_bounded_def)
  qed
  then show ?thesis using release_bounds by (auto simp: fd_bounded_alt)
qed

lemma process_bounds:
  assumes "fd_bounded d" shows "fd_bounded (fst (fd_process nanos now packet sq d))"
proof (cases packet)
  case None
  with assms show ?thesis by (simp add: fd_process_def missing_bounds beginHold_bounds)
next
  case (Some p)
  show ?thesis
  proof (cases "ptype p = FecParity")
    case True
    have "fd_bounded_unheld (fst (noteSequenceAndDetectGap (sq_of p) d))"
      using note_bounds [OF assms] by (simp add: fd_bounded_alt)
    from release_bounds [OF handleParity_unheld [OF this]] True Some show ?thesis
      by (simp add: fd_process_def case_prod_beta Let_def)
  next
    case False
    obtain d1 gap where n: "noteSequenceAndDetectGap sq d = (d1, gap)" by fastforce
    define d2 where "d2 = (case gap of Some g \<Rightarrow> beginHold g d1 | None \<Rightarrow> d1)"
    have "fd_bounded d1" using note_bounds [OF assms, of sq] n by simp
    then have d2: "fd_bounded d2" by (simp add: d2_def beginHold_bounds split: option.split)
    have "fd_process nanos now packet sq d = (if fd_holding d2 then
        (let d' = storeInBlock now sq p (d2\<lparr>fd_heldPackets := omap_put sq \<lparr>hp_packet = p, hp_provenance = Live\<rparr> (fd_heldPackets d2)\<rparr>)
         in if length (fd_heldPackets d') > MAX_HELD_PACKETS then releaseHeld d' else (d', []))
        else (storeInBlock now sq p d2, [(Some p, Live)]))"
      using Some False n by (simp add: fd_process_def Let_def d2_def)
    then show ?thesis
      using d2 held_insert_bounds [OF d2 _ refl] store_bounds [OF d2] by (simp add: Let_def)
  qed
qed

lemma timeout_bounds:
  assumes "fd_bounded d" shows "fd_bounded (fst (fd_checkTimeoutAt now d))"
proof -
  define ex where "ex = filter (\<lambda>(key, b). now - fb_touchedAtMs b >
    (if key = PENDING_KEY then fd_pendingIdleMs d else fd_blockTimeoutMs d)) (fd_activeBlocks d)"
  define c where "c = d\<lparr>fd_discardedSequences := fold oset_insert (concat (map (\<lambda>(_, b). omap_keys (fb_packets b)) ex)) (fd_discardedSequences d),
    fd_activeBlocks := fold omap_del (map fst ex) (fd_activeBlocks d),
    fd_fecBlocksFailed := fd_fecBlocksFailed d + int (length (filter (\<lambda>(_, b). fb_missingSequences b \<noteq> []) ex)),
    fd_pendingPacketsDiscarded := fd_pendingPacketsDiscarded d + int (sum_list (map (\<lambda>(_, b). length (fb_packets b)) ex))\<rparr>"
  have eq: "fst (fd_checkTimeoutAt now d) = fst (releaseHeld c)"
    unfolding fd_checkTimeoutAt_def Let_def ex_def [symmetric] c_def [symmetric] by (simp split: prod.split)
  have "fd_bounded_unheld c"
  proof (cases "fd_activeBlocks d")
    case Nil
    with assms show ?thesis by (simp add: c_def ex_def fd_bounded_def fd_bounded_unheld_def pending_shape_def pending_capped_def)
  next
    case (Cons e es)
    then obtain b where ab: "fd_activeBlocks d = [(PENDING_KEY, b)]" "length (fb_packets b) \<le> MAX_PENDING_PACKETS"
      "length (fd_discardedSequences d) \<le> MAX_PENDING_PACKETS"
      using assms by (auto simp: fd_bounded_def pending_shape_def pending_capped_def)
    have "length (fold oset_insert (omap_keys (fb_packets b)) (fd_discardedSequences d)) \<le> 2 * MAX_PENDING_PACKETS"
      using length_fold_oset_insert [of "omap_keys (fb_packets b)" "fd_discardedSequences d"] ab(2,3) by simp
    then show ?thesis
      using assms ab by (auto simp: c_def ex_def omap_del_def fd_bounded_def fd_bounded_unheld_def pending_shape_def pending_capped_def)
  qed
  then show ?thesis unfolding eq by (rule release_bounds)
qed

text \<open>The calls a connection makes on the decoder, in any order.\<close>

datatype fd_op = FdProcess u64 int "audio_packet option" int | FdTimeout int | FdReset | FdSetIdle int

fun fd_apply :: "fd_op \<Rightarrow> fec_decoder \<Rightarrow> fec_decoder" where
  "fd_apply (FdProcess nanos now packet sq) d = fst (fd_process nanos now packet sq d)"
| "fd_apply (FdTimeout now) d = fst (fd_checkTimeoutAt now d)"
| "fd_apply FdReset d = fd_reset d"
| "fd_apply (FdSetIdle ms) d = setPendingIdleTimeoutMs ms d"

lemma fd_bounded_apply: "fd_bounded d \<Longrightarrow> fd_bounded (fd_apply op d)"
  by (cases op) (simp_all add: process_bounds timeout_bounds,
    simp_all add: fd_reset_def setPendingIdleTimeoutMs_def fd_bounded_def pending_shape_def pending_capped_def)

lemma fd_bounded_fold: "fd_bounded d \<Longrightarrow> fd_bounded (fold fd_apply ops d)"
  by (induction ops arbitrary: d) (simp_all add: fd_bounded_apply)

section \<open>Properties\<close>

text \<open>
  C3: encode, lose one, decode. Take a block of 2 to 10 consecutive audio packets of one type whose
  sequences stay below the sign boundary; send it through the encoder; drop any one packet; hand the
  rest and the parity to a decoder that is in sync. The application receives the whole block in
  sequence order, with the lost packet rebuilt, of the block's own type and marked as recovered: byte
  for byte, zero-extended to the longest payload of the block (exactly the lost payload when the
  block is uniform). The decoder is idle again for the next block.
\<close>

theorem fec_single_loss_roundtrip:
  assumes "source_block s t len (pre @ lost # post)" and "mk_fec_encoder (length (pre @ lost # post)) = Inr e"
    and "last (snd (fe_run nowE (pre @ lost # post) e)) = Some q"
    and "fec_idle s d" and "length ts = length pre" and "length us = length post"
    and "fd_run nanos (zip pre ts @ zip post us @ [(q, v)]) d = (d', es)"
  shows "es = map (\<lambda>p. (Some p, Live)) pre @
      (Some (mk_packet nanos t (sequence lost) (pad_to len (payload lost))), Recovered) # map (\<lambda>p. (Some p, Live)) post \<and>
    fec_idle (s + int (length (pre @ lost # post)) + 1) d' \<and>
    fd_packetsRecoveredByFec d' = fd_packetsRecoveredByFec d + 1 \<and>
    fd_fecBlocksComplete d' = fd_fecBlocksComplete d + 1"
proof -
  from fe_run_block [OF fe_mid_fresh [OF assms(2)], of "pre @ lost # post" nowE] assms(3)
  have "q = mk_packet nowE FecParity (sequence (last (pre @ lost # post)) + 1)
      (parity_payload (sequence (hd (pre @ lost # post))) (map payload (pre @ lost # post)))"
    by auto
  then have q: "parity_of (pre @ lost # post) q" by (simp add: parity_of_def mk_packet_def)
  from single_loss_run [OF assms(1) q assms(4-6), of nanos v] assms(4,7) source_block_parity(2) [OF assms(1) q]
  show ?thesis by (auto simp: fec_idle_def)
qed

definition demo_block :: "audio_packet list" where
  "demo_block = [mk_packet 0 AudioTx 100 [1, 2], mk_packet 0 AudioTx 101 [3, 4], mk_packet 0 AudioTx 102 [5, 6]]"

lemma demo_source: "source_block 100 AudioTx 2 demo_block"
  by (simp add: source_block_def demo_block_def consecutive_Cons mk_packet_def fd_isAudio_def fec_consts max_len_def)
     (simp add: consecutive_def)

theorem fec_single_loss_roundtrip_witness:
  "\<exists>q d'. fd_run 9 (zip [demo_block ! 0] [0] @ zip [demo_block ! 2] [20] @ [(q, 21)])
      ((mk_fec_decoder 60)\<lparr>fd_nextExpectedSeq := 100\<rparr>) =
    (d', [(Some (demo_block ! 0), Live), (Some (mk_packet 9 AudioTx 101 [3, 4]), Recovered), (Some (demo_block ! 2), Live)])"
proof -
  define e where "e = \<lparr>fe_blockSize = 3, fe_payloads = [], fe_startSequence = 0, fe_maxPayloadLen = 0\<rparr>"
  have db: "demo_block = [demo_block ! 0] @ demo_block ! 1 # [demo_block ! 2]" by (simp add: demo_block_def)
  have src: "source_block 100 AudioTx 2 ([demo_block ! 0] @ demo_block ! 1 # [demo_block ! 2])"
    using demo_source db by simp
  have mk: "mk_fec_encoder (length ([demo_block ! 0] @ demo_block ! 1 # [demo_block ! 2])) = Inr e"
    by (simp add: mk_fec_encoder_def fec_consts e_def)
  from fe_run_block [OF fe_mid_fresh [OF mk], of "[demo_block ! 0] @ demo_block ! 1 # [demo_block ! 2]" 0]
  obtain q where q: "last (snd (fe_run 0 ([demo_block ! 0] @ demo_block ! 1 # [demo_block ! 2]) e)) = Some q"
    by auto
  have idle: "fec_idle 100 ((mk_fec_decoder 60)\<lparr>fd_nextExpectedSeq := 100\<rparr>)"
    by (simp add: fec_idle_def mk_fec_decoder_def)
  obtain d' es where run: "fd_run 9 (zip [demo_block ! 0] [0] @ zip [demo_block ! 2] [20] @ [(q, 21)])
      ((mk_fec_decoder 60)\<lparr>fd_nextExpectedSeq := 100\<rparr>) = (d', es)" by fastforce
  from fec_single_loss_roundtrip [OF src mk q idle _ _ run]
  have "es = [(Some (demo_block ! 0), Live), (Some (mk_packet 9 AudioTx 101 [3, 4]), Recovered), (Some (demo_block ! 2), Live)]"
    by (simp add: demo_block_def mk_packet_def)
  with run show ?thesis by blast
qed

text \<open>
  Without loss the decoder adds no latency: every packet of a block is emitted by the very
  call that hands it over, the parity emits nothing and is counted as a complete block, and the
  decoder is idle again.
\<close>

theorem fec_no_loss_passthrough:
  assumes "source_block s t len ps" and "parity_of ps q" and "fec_idle s d" and "length ts = length ps"
    and "i \<le> length ps"
  shows "snd (fd_run nanos (take i (zip ps ts)) d) = map (\<lambda>p. (Some p, Live)) (take i ps) \<and>
    snd (fd_run nanos (zip ps ts @ [(q, v)]) d) = map (\<lambda>p. (Some p, Live)) ps \<and>
    fec_idle (s + int (length ps) + 1) (fst (fd_run nanos (zip ps ts @ [(q, v)]) d)) \<and>
    fd_fecBlocksComplete (fst (fd_run nanos (zip ps ts @ [(q, v)]) d)) = fd_fecBlocksComplete d + 1"
proof -
  have c: "consecutive s (take i ps)"
    using consecutive_append [of s "take i ps" "drop i ps"] assms(1) by (simp add: source_block_def)
  have "pend_has d []" using assms(3) by (simp add: fec_idle_def pend_has_def)
  with run_live [of d "take i ps" "take i ts" "[]" nanos] c assms(1,3,4,5)
  have "snd (fd_run nanos (take i (zip ps ts)) d) = map (\<lambda>p. (Some p, Live)) (take i ps)"
    by (auto simp: fec_idle_def take_zip source_block_def fec_consts)
  with no_loss_run [OF assms(1-4), of nanos v] assms(3) source_block_parity(2) [OF assms(1,2)] show ?thesis
    by (simp add: fec_idle_def)
qed

theorem fec_no_loss_passthrough_witness:
  "snd (fd_run 9 (take 2 (zip demo_block [0, 1, 2])) ((mk_fec_decoder 60)\<lparr>fd_nextExpectedSeq := 100\<rparr>)) =
   map (\<lambda>p. (Some p, Live)) (take 2 demo_block)"
proof -
  let ?q = "mk_packet 0 FecParity (sequence (last demo_block) + 1) (parity_payload (sequence (hd demo_block)) (map payload demo_block))"
  have "parity_of demo_block ?q" by (simp add: parity_of_def mk_packet_def)
  moreover have "fec_idle 100 ((mk_fec_decoder 60)\<lparr>fd_nextExpectedSeq := 100\<rparr>)"
    by (simp add: fec_idle_def mk_fec_decoder_def)
  moreover have "2 \<le> length demo_block" "length [0, 1, 2 :: int] = length demo_block" by (simp_all add: demo_block_def)
  ultimately show ?thesis using fec_no_loss_passthrough [OF demo_source] by blast
qed

text \<open>
  Whatever packets, gap markers, parities, timeouts, resets and reconfigurations a peer and a
  clock produce, the decoder's memory is bounded: at most one block is active and it is the pending
  one with at most 40 packets and 40 missing slots, at most 20 packets are held (and none outside
  a hold), and at most 80 discarded sequences are remembered.
\<close>

theorem fec_memory_bounded:
  "let d = fold fd_apply ops (mk_fec_decoder timeout) in
     list_all (\<lambda>(k, b). k = PENDING_KEY \<and> length (fb_packets b) \<le> 40 \<and> length (fb_missingSequences b) \<le> 40) (fd_activeBlocks d) \<and>
     length (fd_activeBlocks d) \<le> 1 \<and> length (fd_heldPackets d) \<le> 20 \<and> (fd_heldPackets d = [] \<or> fd_holding d) \<and>
     length (fd_discardedSequences d) \<le> 80"
proof -
  have "fd_bounded (mk_fec_decoder timeout)"
    by (simp add: mk_fec_decoder_def fd_bounded_def pending_shape_def pending_capped_def)
  from fd_bounded_fold [OF this, of ops] show ?thesis
    by (auto simp: Let_def fd_bounded_def pending_shape_def pending_capped_def fec_consts)
qed

text \<open>
  At the sign boundary of the sequence counter the decoder fabricates a repair. A block of two
  packets numbered 0x7FFFFFFF and 0x80000000, both delivered, followed by its own parity: the
  range test of the pending block compares signed sequences without wrapping, so the second packet
  counts as missing and its audio is emitted a second time, marked as recovered.
\<close>

theorem fec_wrap_duplicates_delivered_audio:
  assumes "fd_isAudio t" and "length a = length b" and "parity_of (wrap_pair t a b) q"
  shows "snd (fd_run nanos (zip (wrap_pair t a b @ [q]) [0, 1, 2]) (mk_fec_decoder 60)) =
    map (\<lambda>p. (Some p, Live)) (wrap_pair t a b) @ [(Some (mk_packet nanos t 0x80000000 b), Recovered)]"
  using assms by (rule wrap_duplicate_run)

theorem fec_wrap_duplicates_delivered_audio_witness:
  "\<exists>q. snd (fd_run 9 (zip (wrap_pair AudioRx [1] [2] @ [q]) [0, 1, 2]) (mk_fec_decoder 60)) =
    map (\<lambda>p. (Some p, Live)) (wrap_pair AudioRx [1] [2]) @ [(Some (mk_packet 9 AudioRx 0x80000000 [2]), Recovered)]"
proof -
  let ?ps = "wrap_pair AudioRx [1] [2]"
  let ?q = "mk_packet 0 FecParity (sequence (last ?ps) + 1) (parity_payload (sequence (hd ?ps)) (map payload ?ps))"
  have "parity_of ?ps ?q" by (simp add: parity_of_def mk_packet_def)
  from fec_wrap_duplicates_delivered_audio [OF _ _ this, of 9] show ?thesis by (auto simp: fd_isAudio_def)
qed

end
