(* ===== verification/Stream_Config.thy ===== *)
theory Stream_Config
  imports Audio_Packet "HOL-Library.Monad_Syntax" Complex_Main
begin

text \<open>
  The stream configuration of \<open>include/naudio/AudioStreamConfig.hpp\<close> and the transport names of
  \<open>include/naudio/TransportType.hpp\<close>. The integer fields are mathematical integers that hold
  \<open>std::int32_t\<close> values; every multiplication of the derived quantities is checked against the
  32-bit range and an overflow, which C++ leaves undefined, is \<open>None\<close>. The one \<open>double\<close> field
  is a rational.
\<close>

datatype transport_type = Tcp | Udp | Dual

fun transportTypeName :: "transport_type \<Rightarrow> string" where
  "transportTypeName Tcp = ''TCP''"
| "transportTypeName Udp = ''UDP''"
| "transportTypeName Dual = ''DUAL''"

definition transportTypeFromName :: "string \<Rightarrow> transport_type option" where
  "transportTypeFromName n =
     (if n = ''TCP'' then Some Tcp else if n = ''UDP'' then Some Udp
      else if n = ''DUAL'' then Some Dual else None)"

record audio_stream_config =
  sampleRate :: int
  maxClients :: int
  txIdleTimeoutMs :: int
  bitsPerSample :: int
  channels :: int
  frameDurationMs :: int
  bufferTargetMs :: int
  bufferMinMs :: int
  bufferMaxMs :: int
  transportType :: transport_type
  reorderBufferSize :: int
  reorderMaxHoldMs :: int
  fecEnabled :: bool
  fecBlockSize :: int
  adaptiveJitterEnabled :: bool
  jitterMultiplier :: rat
  controlReliabilityEnabled :: bool
  controlRetransmitMaxAttempts :: int
  explicitBareUdp :: bool
  discoverable :: bool
  discoveryPort :: int
  serverName :: string

definition default_config :: audio_stream_config where
  "default_config = \<lparr>sampleRate = 48000, maxClients = 4, txIdleTimeoutMs = 500, bitsPerSample = 16,
     channels = 2, frameDurationMs = 20, bufferTargetMs = 100, bufferMinMs = 40, bufferMaxMs = 300,
     transportType = Tcp, reorderBufferSize = 0, reorderMaxHoldMs = 0, fecEnabled = False,
     fecBlockSize = 5, adaptiveJitterEnabled = False, jitterMultiplier = 3,
     controlReliabilityEnabled = False, controlRetransmitMaxAttempts = 3, explicitBareUdp = False,
     discoverable = True, discoveryPort = 4533, serverName = []\<rparr>"

definition MAX_INITIAL_BUFFERING_MS :: int where "MAX_INITIAL_BUFFERING_MS = 500"
definition FT8_BUFFER_TARGET_MS :: int where "FT8_BUFFER_TARGET_MS = 40"
definition VOICE_BUFFER_TARGET_MS :: int where "VOICE_BUFFER_TARGET_MS = 120"

section \<open>Derived calculations\<close>

definition mul_i32 :: "int \<Rightarrow> int \<Rightarrow> int option" where
  "mul_i32 a b = (if i32_ok (a * b) then Some (a * b) else None)"

definition samplesPerFrame :: "audio_stream_config \<Rightarrow> int option" where
  "samplesPerFrame c = do { x \<leftarrow> mul_i32 (sampleRate c) (frameDurationMs c); Some (cdiv x 1000) }"

definition sampleFrameBytes :: "audio_stream_config \<Rightarrow> int option" where
  "sampleFrameBytes c = mul_i32 (cdiv (bitsPerSample c) 8) (channels c)"

definition bytesPerFrame :: "audio_stream_config \<Rightarrow> int option" where
  "bytesPerFrame c = do { s \<leftarrow> samplesPerFrame c; f \<leftarrow> sampleFrameBytes c; mul_i32 s f }"

definition config_udpMaxAudioPayload :: "audio_stream_config \<Rightarrow> nat option" where
  "config_udpMaxAudioPayload c =
     do { sf \<leftarrow> sampleFrameBytes c; Some (packet_udpMaxAudioPayload (if sf \<le> 0 then 0 else nat sf)) }"

definition bytesPerSecond :: "audio_stream_config \<Rightarrow> int option" where
  "bytesPerSecond c = do { x \<leftarrow> mul_i32 (sampleRate c) (cdiv (bitsPerSample c) 8); mul_i32 x (channels c) }"

definition msToBytes :: "audio_stream_config \<Rightarrow> int \<Rightarrow> int option" where
  "msToBytes c ms = do { bps \<leftarrow> bytesPerSecond c; x \<leftarrow> mul_i32 bps ms; Some (cdiv x 1000) }"

definition bytesToMs :: "audio_stream_config \<Rightarrow> int \<Rightarrow> int option" where
  "bytesToMs c n = do { bps \<leftarrow> bytesPerSecond c;
     if bps = 0 then Some 0 else do { x \<leftarrow> mul_i32 n 1000; Some (cdiv x bps) } }"

definition isFt8Optimized :: "audio_stream_config \<Rightarrow> bool" where
  "isFt8Optimized c \<longleftrightarrow> bufferTargetMs c \<le> FT8_BUFFER_TARGET_MS"

definition isVoiceOptimized :: "audio_stream_config \<Rightarrow> bool" where
  "isVoiceOptimized c \<longleftrightarrow> bufferTargetMs c \<ge> VOICE_BUFFER_TARGET_MS"

lemmas config_calc_defs = mul_i32_def samplesPerFrame_def sampleFrameBytes_def bytesPerFrame_def
  config_udpMaxAudioPayload_def bytesPerSecond_def msToBytes_def bytesToMs_def

section \<open>Presets\<close>

definition lowBandwidth :: audio_stream_config where
  "lowBandwidth = default_config\<lparr>sampleRate := 12000\<rparr>"

definition ft8Optimized :: audio_stream_config where
  "ft8Optimized = default_config\<lparr>bufferTargetMs := 40, bufferMinMs := 20, bufferMaxMs := 100\<rparr>"

definition voiceOptimized :: audio_stream_config where
  "voiceOptimized = default_config\<lparr>bufferTargetMs := 120, bufferMinMs := 60, bufferMaxMs := 300\<rparr>"

definition udpLan :: audio_stream_config where
  "udpLan = default_config\<lparr>transportType := Udp, frameDurationMs := 10, bufferTargetMs := 40,
     bufferMinMs := 20, bufferMaxMs := 150, reorderBufferSize := 8, reorderMaxHoldMs := 20,
     fecEnabled := False, adaptiveJitterEnabled := False, controlReliabilityEnabled := True\<rparr>"

definition udpWan :: audio_stream_config where
  "udpWan = default_config\<lparr>transportType := Udp, frameDurationMs := 10, bufferTargetMs := 120,
     bufferMinMs := 60, bufferMaxMs := 400, reorderBufferSize := 8, reorderMaxHoldMs := 40,
     fecEnabled := True, fecBlockSize := 5, adaptiveJitterEnabled := True,
     controlReliabilityEnabled := True\<rparr>"

definition udpFt8 :: audio_stream_config where
  "udpFt8 = default_config\<lparr>transportType := Udp, frameDurationMs := 10, bufferTargetMs := 30,
     bufferMinMs := 15, bufferMaxMs := 80, reorderBufferSize := 8, reorderMaxHoldMs := 15,
     fecEnabled := False, adaptiveJitterEnabled := False, controlReliabilityEnabled := True\<rparr>"

definition udpIq :: audio_stream_config where
  "udpIq = default_config\<lparr>transportType := Udp, frameDurationMs := 10, sampleRate := 192000,
     bufferTargetMs := 60, bufferMinMs := 30, bufferMaxMs := 200, reorderBufferSize := 8,
     reorderMaxHoldMs := 30, fecEnabled := False, adaptiveJitterEnabled := False,
     controlReliabilityEnabled := True\<rparr>"

definition udpBare :: audio_stream_config where
  "udpBare = default_config\<lparr>transportType := Udp, explicitBareUdp := True\<rparr>"

definition dualDefault :: audio_stream_config where
  "dualDefault = default_config\<lparr>transportType := Dual, bufferTargetMs := 40, bufferMinMs := 20,
     bufferMaxMs := 100, reorderBufferSize := 8, reorderMaxHoldMs := 20,
     controlReliabilityEnabled := True\<rparr>"

definition presets :: "audio_stream_config list" where
  "presets = [default_config, lowBandwidth, ft8Optimized, voiceOptimized, udpLan, udpWan, udpFt8,
     udpIq, udpBare, dualDefault]"

lemmas preset_defs = default_config_def lowBandwidth_def ft8Optimized_def voiceOptimized_def
  udpLan_def udpWan_def udpFt8_def udpIq_def udpBare_def dualDefault_def

section \<open>Lemmas\<close>

lemma transport_name_roundtrip: "transportTypeFromName (transportTypeName t) = Some t"
  by (cases t) (simp_all add: transportTypeFromName_def)

lemma mul_i32_Some: "mul_i32 a b = Some x \<longleftrightarrow> x = a * b \<and> i32_ok (a * b)"
  by (auto simp: mul_i32_def)

lemma i32_ok_code: "i32_ok x \<longleftrightarrow> - 2147483648 \<le> x \<and> x < 2147483648"
  by (simp add: i32_ok_def)

text \<open>What the rest of the library needs of a configuration.\<close>

definition config_usable :: "audio_stream_config \<Rightarrow> bool" where
  "config_usable c \<longleftrightarrow>
     0 < bufferMinMs c \<and> bufferMinMs c \<le> bufferTargetMs c \<and> bufferTargetMs c \<le> bufferMaxMs c \<and>
     (case bytesPerFrame c of None \<Rightarrow> False | Some b \<Rightarrow> 0 < b) \<and>
     (case msToBytes c (bufferMaxMs c * 2) of None \<Rightarrow> False
      | Some cap \<Rightarrow> 0 < cap \<and> (case bytesToMs c cap of None \<Rightarrow> False | Some ms \<Rightarrow> ms = bufferMaxMs c * 2)) \<and>
     (case config_udpMaxAudioPayload c of None \<Rightarrow> False
      | Some n \<Rightarrow> 0 < n \<and> packetSize n \<le> UDP_MAX_PAYLOAD) \<and>
     (fecEnabled c \<longrightarrow> 2 \<le> fecBlockSize c \<and> fecBlockSize c \<le> 10)"

text \<open>
  Every shipped preset is usable: the buffer thresholds are ordered, no derived quantity
  overflows 32 bits, the ring capacity derived from the maximum buffering converts back to that
  many milliseconds, the UDP chunk fits the MTU advisory, and an enabled FEC has a block size
  the encoder accepts.
\<close>

theorem presets_usable: "list_all config_usable presets"
proof -
  have "config_usable default_config" "config_usable lowBandwidth" "config_usable ft8Optimized"
    "config_usable voiceOptimized" "config_usable udpLan" "config_usable udpWan"
    "config_usable udpFt8" "config_usable udpIq" "config_usable udpBare" "config_usable dualDefault"
    by (simp_all add: config_usable_def preset_defs config_calc_defs i32_ok_code cdiv_def
        packet_udpMaxAudioPayload_def packet_consts packetSize_def)
  then show ?thesis by (simp add: presets_def)
qed

end
