(* ===== verification/Control_Message.thy ===== *)
theory Control_Message
  imports Stream_Config
begin

text \<open>
  The control-plane codec: \<open>include/naudio/ControlMessage.hpp\<close> and \<open>src/ControlMessage.cpp\<close>.
  A message is a type tag with its data bytes; each factory is a function into messages and each
  parser a function from messages, in the order of the source. The lemmas are the round trips of
  every message kind, the tolerance of the parsers for absent tails, and the frames that the
  unclamped length prefixes break.
\<close>

section \<open>Types\<close>

datatype control_type =
    ConnectRequest | ConnectAccept | ConnectReject | AudioConfig
  | StreamStart | StreamStop | StreamPause | StreamResume
  | CtlHeartbeat | HeartbeatAck | LatencyProbe | LatencyResponse | StatsUpdate
  | TxGranted | TxDenied | TxPreempted | TxReleased | ClientsUpdate
  | Discover | DiscoverReply | Nack | ControlAck | CtlError | Disconnect

fun control_type_value :: "control_type \<Rightarrow> u8" where
  "control_type_value ConnectRequest = 0x01"
| "control_type_value ConnectAccept = 0x02"
| "control_type_value ConnectReject = 0x03"
| "control_type_value AudioConfig = 0x04"
| "control_type_value StreamStart = 0x10"
| "control_type_value StreamStop = 0x11"
| "control_type_value StreamPause = 0x12"
| "control_type_value StreamResume = 0x13"
| "control_type_value CtlHeartbeat = 0x20"
| "control_type_value HeartbeatAck = 0x21"
| "control_type_value LatencyProbe = 0x22"
| "control_type_value LatencyResponse = 0x23"
| "control_type_value StatsUpdate = 0x30"
| "control_type_value TxGranted = 0x40"
| "control_type_value TxDenied = 0x41"
| "control_type_value TxPreempted = 0x42"
| "control_type_value TxReleased = 0x43"
| "control_type_value ClientsUpdate = 0x44"
| "control_type_value Discover = 0x60"
| "control_type_value DiscoverReply = 0x61"
| "control_type_value Nack = 0x50"
| "control_type_value ControlAck = 0x51"
| "control_type_value CtlError = 0xFE"
| "control_type_value Disconnect = 0xFF"

definition controlTypeFromValue :: "u8 \<Rightarrow> control_type option" where
  "controlTypeFromValue v = map_of
     [(0x01, ConnectRequest), (0x02, ConnectAccept), (0x03, ConnectReject), (0x04, AudioConfig),
      (0x10, StreamStart), (0x11, StreamStop), (0x12, StreamPause), (0x13, StreamResume),
      (0x20, CtlHeartbeat), (0x21, HeartbeatAck), (0x22, LatencyProbe), (0x23, LatencyResponse),
      (0x30, StatsUpdate), (0x40, TxGranted), (0x41, TxDenied), (0x42, TxPreempted),
      (0x43, TxReleased), (0x44, ClientsUpdate), (0x50, Nack), (0x60, Discover),
      (0x61, DiscoverReply), (0x51, ControlAck), (0xFE, CtlError), (0xFF, Disconnect)] v"

fun controlTypeName :: "control_type \<Rightarrow> string" where
  "controlTypeName ConnectRequest = ''CONNECT_REQUEST''"
| "controlTypeName ConnectAccept = ''CONNECT_ACCEPT''"
| "controlTypeName ConnectReject = ''CONNECT_REJECT''"
| "controlTypeName AudioConfig = ''AUDIO_CONFIG''"
| "controlTypeName StreamStart = ''STREAM_START''"
| "controlTypeName StreamStop = ''STREAM_STOP''"
| "controlTypeName StreamPause = ''STREAM_PAUSE''"
| "controlTypeName StreamResume = ''STREAM_RESUME''"
| "controlTypeName CtlHeartbeat = ''HEARTBEAT''"
| "controlTypeName HeartbeatAck = ''HEARTBEAT_ACK''"
| "controlTypeName LatencyProbe = ''LATENCY_PROBE''"
| "controlTypeName LatencyResponse = ''LATENCY_RESPONSE''"
| "controlTypeName StatsUpdate = ''STATS_UPDATE''"
| "controlTypeName TxGranted = ''TX_GRANTED''"
| "controlTypeName TxDenied = ''TX_DENIED''"
| "controlTypeName TxPreempted = ''TX_PREEMPTED''"
| "controlTypeName TxReleased = ''TX_RELEASED''"
| "controlTypeName ClientsUpdate = ''CLIENTS_UPDATE''"
| "controlTypeName Discover = ''DISCOVER''"
| "controlTypeName DiscoverReply = ''DISCOVER_REPLY''"
| "controlTypeName Nack = ''NACK''"
| "controlTypeName ControlAck = ''CONTROL_ACK''"
| "controlTypeName CtlError = ''ERROR''"
| "controlTypeName Disconnect = ''DISCONNECT''"

datatype reject_reason = Busy | VersionMismatch | FormatNotSupported | AuthFailed | Rejected

fun reject_reason_value :: "reject_reason \<Rightarrow> u8" where
  "reject_reason_value Busy = 0x01"
| "reject_reason_value VersionMismatch = 0x02"
| "reject_reason_value FormatNotSupported = 0x03"
| "reject_reason_value AuthFailed = 0x04"
| "reject_reason_value Rejected = 0xFF"

definition rejectReasonFromValue :: "u8 \<Rightarrow> reject_reason" where
  "rejectReasonFromValue v =
     (if v = 0x01 then Busy else if v = 0x02 then VersionMismatch
      else if v = 0x03 then FormatNotSupported else if v = 0x04 then AuthFailed else Rejected)"

fun rejectReasonName :: "reject_reason \<Rightarrow> string" where
  "rejectReasonName Busy = ''BUSY''"
| "rejectReasonName VersionMismatch = ''VERSION_MISMATCH''"
| "rejectReasonName FormatNotSupported = ''FORMAT_NOT_SUPPORTED''"
| "rejectReasonName AuthFailed = ''AUTH_FAILED''"
| "rejectReasonName Rejected = ''REJECTED''"

record rx_format_request =
  rq_sampleRate :: u32
  rq_layout :: u8

record discovery_info =
  di_token :: u32
  di_port :: u16
  di_transports :: u8
  di_sampleRate :: u32
  di_bitsPerSample :: u8
  di_channels :: u8
  di_clientCount :: u8
  di_maxClients :: u8
  di_name :: string
  di_host :: string

record client_info =
  callsign :: string
  ci_name :: string
  ci_location :: string

record clients_update_info =
  cu_clientCount :: int
  cu_maxClients :: int
  cu_txOwner :: "string option"
  cu_clientIds :: "string list"
  cu_clientInfoMap :: "string \<rightharpoonup> client_info"

record control_message =
  messageType :: control_type
  cm_data :: bytes

definition ofType :: "control_type \<Rightarrow> control_message" where
  "ofType t = \<lparr>messageType = t, cm_data = []\<rparr>"

definition ci_isEmpty :: "client_info \<Rightarrow> bool" where
  "ci_isEmpty ci \<longleftrightarrow> callsign ci = [] \<and> ci_name ci = [] \<and> ci_location ci = []"

definition ci_displayString :: "client_info \<Rightarrow> string" where
  "ci_displayString ci =
     (if callsign ci \<noteq> [] then
        callsign ci @
        (if ci_name ci \<noteq> [] \<or> ci_location ci \<noteq> [] then
           '' ('' @
           (if ci_name ci \<noteq> [] then ci_name ci @ (if ci_location ci \<noteq> [] then '', '' else []) else []) @
           (if ci_location ci \<noteq> [] then ci_location ci else []) @ '')''
         else [])
      else if ci_name ci \<noteq> [] then
        ci_name ci @ (if ci_location ci \<noteq> [] then '' ('' @ ci_location ci @ '')'' else [])
      else if ci_location ci \<noteq> [] then ci_location ci
      else [])"

definition getClientDisplayString :: "clients_update_info \<Rightarrow> string \<Rightarrow> string" where
  "getClientDisplayString u cid = (case cu_clientInfoMap u cid of
       Some ci \<Rightarrow> if \<not> ci_isEmpty ci then ci_displayString ci else cid
     | None \<Rightarrow> cid)"

section \<open>Client info\<close>

definition kClientInfoMaxBytes :: nat where "kClientInfoMaxBytes = 255"

text \<open>
  A length byte is \<open>static_cast<std::uint8_t>(size)\<close>, which wraps at 256.
\<close>

definition len8 :: "nat \<Rightarrow> u8" where
  "len8 n = word_of_nat n"

definition serializeClientInfo :: "client_info option \<Rightarrow> bytes" where
  "serializeClientInfo info = (case info of None \<Rightarrow> [] | Some ci \<Rightarrow>
     if ci_isEmpty ci then []
     else let budget = kClientInfoMaxBytes - 3;
              callsignLen = min (length (callsign ci)) budget;
              budget = budget - callsignLen;
              nameLen = min (length (ci_name ci)) budget;
              budget = budget - nameLen;
              locationLen = min (length (ci_location ci)) budget;
              w = putU8 (len8 callsignLen) [];
              w = putBytes (take callsignLen (str_bytes (callsign ci))) w;
              w = putU8 (len8 nameLen) w;
              w = putBytes (take nameLen (str_bytes (ci_name ci))) w;
              w = putU8 (len8 locationLen) w
       in putBytes (take locationLen (str_bytes (ci_location ci))) w)"

text \<open>The repeated \<open>if (len > 0 && r.remaining() >= len) s = r.readString(len)\<close>.\<close>

definition read_opt_string :: "nat \<Rightarrow> byte_reader \<Rightarrow> string \<times> byte_reader" where
  "read_opt_string n r = (if n > 0 \<and> remaining r \<ge> n then readString n r else ([], r))"

definition deserializeClientInfo :: "byte_reader \<Rightarrow> client_info option \<times> byte_reader" where
  "deserializeClientInfo r =
     (if remaining r < 3 then (None, r)
      else let (callsignLen, r) = getU8 r;
               (cs, r) = read_opt_string (unat callsignLen) r
        in if remaining r < 1 then (Some \<lparr>callsign = cs, ci_name = [], ci_location = []\<rparr>, r)
           else let (nameLen, r) = getU8 r;
                    (nm, r) = read_opt_string (unat nameLen) r
             in if remaining r < 1 then (Some \<lparr>callsign = cs, ci_name = nm, ci_location = []\<rparr>, r)
                else let (locationLen, r) = getU8 r;
                         (loc, r) = read_opt_string (unat locationLen) r
                  in (Some \<lparr>callsign = cs, ci_name = nm, ci_location = loc\<rparr>, r))"

section \<open>Core serialize and deserialize\<close>

definition cm_serialize :: "control_message \<Rightarrow> bytes" where
  "cm_serialize m = control_type_value (messageType m) # cm_data m"

definition cm_deserialize :: "bytes \<Rightarrow> control_message option" where
  "cm_deserialize p = (case p of [] \<Rightarrow> None
     | b # rest \<Rightarrow> (case controlTypeFromValue b of None \<Rightarrow> None
         | Some t \<Rightarrow> Some \<lparr>messageType = t, cm_data = rest\<rparr>))"

section \<open>Connect request\<close>

definition u16_of :: "int \<Rightarrow> u16" where
  "u16_of x = word_of_int x"

definition connectRequestFull ::
  "string \<Rightarrow> u8 \<Rightarrow> audio_stream_config option \<Rightarrow> client_info option \<Rightarrow> control_message" where
  "connectRequestFull clientName protocolVersion requestedConfig clientInfo =
     (let clientInfoBytes = serializeClientInfo clientInfo;
          w = putU8 protocolVersion [];
          w = putU8 (len8 (length clientName)) w;
          w = putBytes (str_bytes clientName) w;
          w = putU8 (if requestedConfig \<noteq> None then 1 else 0) w;
          w = (case requestedConfig of None \<Rightarrow> w
               | Some c \<Rightarrow> putU16 (u16_of (bufferMaxMs c)) (putU16 (u16_of (bufferMinMs c))
                   (putU16 (u16_of (bufferTargetMs c)) w)));
          w = putU8 (len8 (length clientInfoBytes)) w
      in \<lparr>messageType = ConnectRequest, cm_data = putBytes clientInfoBytes w\<rparr>)"

definition connectRequest :: "string \<Rightarrow> u8 \<Rightarrow> control_message" where
  "connectRequest clientName v = connectRequestFull clientName v None None"

definition connectRequestWithConfig ::
  "string \<Rightarrow> u8 \<Rightarrow> audio_stream_config option \<Rightarrow> control_message" where
  "connectRequestWithConfig clientName v c = connectRequestFull clientName v c None"

definition connectRequestV12 ::
  "string \<Rightarrow> u8 \<Rightarrow> audio_stream_config option \<Rightarrow> client_info option \<Rightarrow> rx_format_request \<Rightarrow> control_message" where
  "connectRequestV12 clientName v c ci rq =
     (let base = connectRequestFull clientName v c ci;
          w = putBytes (cm_data base) [];
          w = putU32 (rq_sampleRate rq) w
      in \<lparr>messageType = ConnectRequest, cm_data = putU8 (rq_layout rq) w\<rparr>)"

definition parseConnectRequestFormatRequest :: "control_message \<Rightarrow> rx_format_request option" where
  "parseConnectRequestFormatRequest m =
     (if messageType m \<noteq> ConnectRequest \<or> length (cm_data m) < 3 then None
      else let r = mk_reader (cm_data m);
               (_, r) = getU8 r;
               (nameLen, r) = getU8 r
        in if remaining r < unat nameLen + 1 then None
           else let r = setPosition (rd_pos r + unat nameLen) r;
                    (hasConfig, r) = getU8 r
             in if hasConfig \<noteq> 0 \<and> remaining r < 6 then None
                else let r = (if hasConfig \<noteq> 0 then setPosition (rd_pos r + 6) r else r)
                  in if remaining r < 1 then None
                     else let (clientInfoLen, r) = getU8 r
                       in if remaining r < unat clientInfoLen then None
                          else let r = setPosition (rd_pos r + unat clientInfoLen) r
                            in if remaining r < 5 then None
                               else let (rate, r) = getI32 r; (layout, r) = getU8 r
                                 in Some \<lparr>rq_sampleRate = rate, rq_layout = layout\<rparr>)"

definition parseConnectRequestConfig :: "control_message \<Rightarrow> audio_stream_config option" where
  "parseConnectRequestConfig m =
     (if messageType m \<noteq> ConnectRequest \<or> length (cm_data m) < 3 then None
      else let r = mk_reader (cm_data m);
               (_, r) = getU8 r;
               (nameLen, r) = getU8 r
        in if remaining r < unat nameLen + 1 then None
           else let r = setPosition (rd_pos r + unat nameLen) r
             in if remaining r < 1 then None
                else let (hasConfig, r) = getU8 r
                  in if hasConfig = 0 \<or> remaining r < 6 then None
                     else let (t, r) = getU16 r; (mn, r) = getU16 r; (mx, r) = getU16 r
                       in Some (default_config\<lparr>bufferTargetMs := uint t, bufferMinMs := uint mn,
                                  bufferMaxMs := uint mx\<rparr>))"

definition parseConnectRequestClientInfo :: "control_message \<Rightarrow> client_info option" where
  "parseConnectRequestClientInfo m =
     (if messageType m \<noteq> ConnectRequest \<or> length (cm_data m) < 3 then None
      else let r = mk_reader (cm_data m);
               (_, r) = getU8 r;
               (nameLen, r) = getU8 r
        in if remaining r < unat nameLen + 1 then None
           else let r = setPosition (rd_pos r + unat nameLen) r
             in if remaining r < 1 then None
                else let (hasConfig, r) = getU8 r
                  in if hasConfig \<noteq> 0 \<and> remaining r < 6 then None
                     else let r = (if hasConfig \<noteq> 0 then setPosition (rd_pos r + 6) r else r)
                       in if remaining r < 1 then None
                          else let (clientInfoLen, r) = getU8 r
                            in if unat clientInfoLen = 0 \<or> remaining r < unat clientInfoLen then None
                               else fst (deserializeClientInfo r))"

section \<open>Connect reject, audio configuration, latency, error\<close>

definition connectReject :: "reject_reason \<Rightarrow> string \<Rightarrow> control_message" where
  "connectReject reason msg =
     (let msgBytes = str_bytes msg;
          w = putU8 (reject_reason_value reason) [];
          w = putU8 (len8 (length msgBytes)) w
      in \<lparr>messageType = ConnectReject, cm_data = putBytes msgBytes w\<rparr>)"

definition audioConfig :: "audio_stream_config \<Rightarrow> control_message" where
  "audioConfig c =
     (let w = putI32 (word_of_int (sampleRate c)) [];
          w = putU8 (word_of_int (bitsPerSample c)) w;
          w = putU8 (word_of_int (channels c)) w;
          w = putU16 (u16_of (frameDurationMs c)) w;
          w = putU16 (u16_of (bufferTargetMs c)) w;
          w = putU16 (u16_of (bufferMinMs c)) w
      in \<lparr>messageType = AudioConfig, cm_data = putU16 (u16_of (bufferMaxMs c)) w\<rparr>)"

definition applyAudioConfigTo :: "control_message \<Rightarrow> audio_stream_config \<Rightarrow> audio_stream_config option" where
  "applyAudioConfigTo m target =
     (if messageType m \<noteq> AudioConfig \<or> length (cm_data m) < 8 then None
      else let r = mk_reader (cm_data m);
               (rate, r) = getI32 r; (bits, r) = getU8 r; (ch, r) = getU8 r; (fd, r) = getU16 r;
               target = target\<lparr>sampleRate := sint rate, bitsPerSample := uint bits,
                          channels := uint ch, frameDurationMs := uint fd\<rparr>
        in if length (cm_data m) \<ge> 14
           then let (t, r) = getU16 r; (mn, r) = getU16 r; (mx, r) = getU16 r
             in Some (target\<lparr>bufferTargetMs := uint t, bufferMinMs := uint mn, bufferMaxMs := uint mx\<rparr>)
           else Some target)"

definition parseAudioConfig :: "control_message \<Rightarrow> audio_stream_config option" where
  "parseAudioConfig m = applyAudioConfigTo m default_config"

definition audioConfigV12 :: "audio_stream_config \<Rightarrow> u8 \<Rightarrow> control_message" where
  "audioConfigV12 c grantedLayout =
     \<lparr>messageType = AudioConfig, cm_data = putU8 grantedLayout (putBytes (cm_data (audioConfig c)) [])\<rparr>"

definition parseAudioConfigGrantedLayout :: "control_message \<Rightarrow> u8 option" where
  "parseAudioConfigGrantedLayout m =
     (if messageType m \<noteq> AudioConfig \<or> length (cm_data m) < 15 then None else Some (cm_data m ! 14))"

definition latencyProbe :: "u64 \<Rightarrow> control_message" where
  "latencyProbe ts = \<lparr>messageType = LatencyProbe, cm_data = putI64 ts []\<rparr>"

definition latencyResponse :: "u64 \<Rightarrow> control_message" where
  "latencyResponse ts = \<lparr>messageType = LatencyResponse, cm_data = putI64 ts []\<rparr>"

definition parseLatencyTimestamp :: "control_message \<Rightarrow> u64" where
  "parseLatencyTimestamp m =
     (if length (cm_data m) < 8 then 0 else fst (getI64 (mk_reader (cm_data m))))"

definition cm_error :: "string \<Rightarrow> control_message" where
  "cm_error msg = \<lparr>messageType = CtlError, cm_data = str_bytes msg\<rparr>"

definition parseErrorMessage :: "control_message \<Rightarrow> string option" where
  "parseErrorMessage m =
     (if messageType m = ConnectReject \<and> length (cm_data m) \<ge> 2 then
        let msgLen = unat (cm_data m ! 1)
        in if msgLen > 0 \<and> length (cm_data m) \<ge> 2 + msgLen
           then Some (bytes_str (take msgLen (drop 2 (cm_data m))))
           else Some (rejectReasonName (rejectReasonFromValue (cm_data m ! 0)))
      else if messageType m = CtlError \<and> cm_data m \<noteq> [] then Some (bytes_str (cm_data m))
      else None)"

section \<open>Discovery\<close>

definition discover :: "u32 \<Rightarrow> control_message" where
  "discover token = \<lparr>messageType = Discover, cm_data = putU32 token []\<rparr>"

definition parseDiscoverToken :: "control_message \<Rightarrow> u32 option" where
  "parseDiscoverToken m =
     (if messageType m \<noteq> Discover \<or> length (cm_data m) < 4 then None
      else Some (fst (getI32 (mk_reader (cm_data m)))))"

definition discoverReply ::
  "u32 \<Rightarrow> u16 \<Rightarrow> u8 \<Rightarrow> u32 \<Rightarrow> u8 \<Rightarrow> u8 \<Rightarrow> u8 \<Rightarrow> u8 \<Rightarrow> string \<Rightarrow> control_message" where
  "discoverReply token port transports rate bits ch clientCount maxCl name =
     (let nameBytes = str_bytes name;
          nameBytes = (if length nameBytes > 255 then take 255 nameBytes else nameBytes);
          w = putU32 token [];
          w = putU16 port w;
          w = putU8 transports w;
          w = putU32 rate w;
          w = putU8 bits w;
          w = putU8 ch w;
          w = putU8 clientCount w;
          w = putU8 maxCl w;
          w = putU8 (len8 (length nameBytes)) w
      in \<lparr>messageType = DiscoverReply, cm_data = putBytes nameBytes w\<rparr>)"

definition parseDiscoverReply :: "control_message \<Rightarrow> discovery_info option" where
  "parseDiscoverReply m =
     (if messageType m \<noteq> DiscoverReply \<or> length (cm_data m) < 16 then None
      else let r = mk_reader (cm_data m);
               (token, r) = getI32 r; (port, r) = getU16 r; (transports, r) = getU8 r;
               (rate, r) = getI32 r; (bits, r) = getU8 r; (ch, r) = getU8 r;
               (clientCount, r) = getU8 r; (maxCl, r) = getU8 r; (nameLen, r) = getU8 r
        in if unat nameLen > remaining r then None
           else let (name, r) = (if unat nameLen > 0 then readString (unat nameLen) r else ([], r))
             in if rd_truncated r then None
                else Some \<lparr>di_token = token, di_port = port, di_transports = transports,
                       di_sampleRate = rate, di_bitsPerSample = bits, di_channels = ch,
                       di_clientCount = clientCount, di_maxClients = maxCl, di_name = name,
                       di_host = []\<rparr>)"

section \<open>NACK, control ACK, TX channel\<close>

definition cm_nack :: "u32 \<Rightarrow> control_message" where
  "cm_nack missingSeq = \<lparr>messageType = Nack, cm_data = putI32 missingSeq []\<rparr>"

definition parseNackSequence :: "control_message \<Rightarrow> u32" where
  "parseNackSequence m =
     (if messageType m \<noteq> Nack \<or> length (cm_data m) < 4 then -1
      else fst (getI32 (mk_reader (cm_data m))))"

definition cm_controlAck :: "u32 \<Rightarrow> control_message" where
  "cm_controlAck ackedSeq = \<lparr>messageType = ControlAck, cm_data = putI32 ackedSeq []\<rparr>"

definition parseControlAckSequence :: "control_message \<Rightarrow> u32" where
  "parseControlAckSequence m =
     (if messageType m \<noteq> ControlAck \<or> length (cm_data m) < 4 then -1
      else fst (getI32 (mk_reader (cm_data m))))"

definition txDenied :: "string \<Rightarrow> control_message" where
  "txDenied holder = \<lparr>messageType = TxDenied, cm_data = str_bytes holder\<rparr>"

definition txPreempted :: "string \<Rightarrow> control_message" where
  "txPreempted preemptor = \<lparr>messageType = TxPreempted, cm_data = str_bytes preemptor\<rparr>"

definition parseTxClientId :: "control_message \<Rightarrow> string option" where
  "parseTxClientId m =
     (if (messageType m \<noteq> TxDenied \<and> messageType m \<noteq> TxPreempted) \<or> cm_data m = [] then None
      else Some (bytes_str (cm_data m)))"

section \<open>Clients update\<close>

definition roster_entry :: "(string \<rightharpoonup> client_info) option \<Rightarrow> string \<Rightarrow> bytes" where
  "roster_entry infoMap cid =
     (let infoBytes = (case infoMap of None \<Rightarrow> [] | Some im \<Rightarrow>
            (case im cid of None \<Rightarrow> [] | Some ci \<Rightarrow> serializeClientInfo (Some ci)));
          e = putU8 (len8 (length cid)) [];
          e = putBytes (str_bytes cid) e;
          e = putU8 (len8 (length infoBytes)) e
      in putBytes infoBytes e)"

definition clientsUpdateWithInfo ::
  "int \<Rightarrow> int \<Rightarrow> string \<Rightarrow> string list \<Rightarrow> (string \<rightharpoonup> client_info) option \<Rightarrow> control_message" where
  "clientsUpdateWithInfo clientCount maxCl txOwner clientIds infoMap =
     (let txOwnerBytes = str_bytes txOwner;
          entries = map (roster_entry infoMap) clientIds;
          w = putU8 (word_of_int (min clientCount 255)) [];
          w = putU8 (word_of_int (min maxCl 255)) w;
          w = putU8 (len8 (length txOwnerBytes)) w;
          w = putBytes txOwnerBytes w;
          w = putU8 (len8 (length entries)) w
      in \<lparr>messageType = ClientsUpdate, cm_data = fold putBytes entries w\<rparr>)"

definition clientsUpdate :: "int \<Rightarrow> int \<Rightarrow> string \<Rightarrow> string list \<Rightarrow> control_message" where
  "clientsUpdate clientCount maxCl txOwner clientIds =
     clientsUpdateWithInfo clientCount maxCl txOwner clientIds None"

text \<open>The roster loop; \<open>n\<close> is \<open>numClients - i\<close>.\<close>

fun parse_roster :: "nat \<Rightarrow> byte_reader \<Rightarrow> string list \<Rightarrow> (string \<rightharpoonup> client_info) \<Rightarrow>
    string list \<times> (string \<rightharpoonup> client_info)" where
  "parse_roster 0 r ids m = (ids, m)"
| "parse_roster (Suc n) r ids m =
     (if remaining r < 1 then (ids, m)
      else let (idLen, r) = getU8 r
        in if remaining r < unat idLen then (ids, m)
           else let (cid, r) = readString (unat idLen) r;
                    ids = ids @ [cid]
             in if remaining r < 1 then parse_roster n r ids m
                else let (infoLen, r) = getU8 r
                  in if unat infoLen > 0 \<and> remaining r \<ge> unat infoLen
                     then let startPos = rd_pos r;
                              (ci, r) = deserializeClientInfo r;
                              m = (case ci of None \<Rightarrow> m | Some c \<Rightarrow> m(cid \<mapsto> c));
                              r = setPosition (startPos + unat infoLen) r
                       in parse_roster n r ids m
                     else parse_roster n r ids m)"

definition parseClientsUpdate :: "control_message \<Rightarrow> clients_update_info option" where
  "parseClientsUpdate m =
     (if messageType m \<noteq> ClientsUpdate \<or> length (cm_data m) < 4 then None
      else let r = mk_reader (cm_data m);
               (clientCount, r) = getU8 r;
               (maxCl, r) = getU8 r;
               (txOwnerLen, r) = getU8 r;
               (txOwner, r) = (if unat txOwnerLen > 0 \<and> remaining r \<ge> unat txOwnerLen
                  then (let (s, r) = readString (unat txOwnerLen) r in (Some s, r)) else (None, r));
               (ids, im) = (if remaining r \<ge> 1
                  then (let (numClients, r) = getU8 r in parse_roster (unat numClients) r [] Map.empty)
                  else ([], Map.empty))
        in Some \<lparr>cu_clientCount = uint clientCount, cu_maxClients = uint maxCl, cu_txOwner = txOwner,
             cu_clientIds = ids, cu_clientInfoMap = im\<rparr>)"

section \<open>Tags and lengths\<close>

lemma controlTypeFromValue_value [simp]: "controlTypeFromValue (control_type_value t) = Some t"
  by (cases t) (simp_all add: controlTypeFromValue_def)

lemma controlTypeFromValue_Some: "controlTypeFromValue v = Some t \<longleftrightarrow> v = control_type_value t"
  by (cases t) (auto simp: controlTypeFromValue_def split: if_splits)

lemma unat_len8: "n \<le> 255 \<Longrightarrow> unat (len8 n) = n"
  by (simp add: len8_def unat_of_nat)

lemma cm_deserialize_serialize: "cm_deserialize (cm_serialize m) = Some m"
  by (simp add: cm_deserialize_def cm_serialize_def)

lemma cm_deserialize_Some: "cm_deserialize b = Some m \<longleftrightarrow> b = cm_serialize m"
proof
  assume "cm_deserialize b = Some m"
  then show "b = cm_serialize m"
    by (cases b) (auto simp: cm_deserialize_def cm_serialize_def controlTypeFromValue_Some split: option.splits)
qed (simp add: cm_deserialize_serialize)

section \<open>Client info round trip\<close>

text \<open>The three fields share a budget of 252 bytes, in the order of the fields.\<close>

definition ci_clamp :: "client_info \<Rightarrow> client_info" where
  "ci_clamp ci = (let cs = take 252 (callsign ci); nm = take (252 - length cs) (ci_name ci);
       loc = take (252 - length cs - length nm) (ci_location ci)
     in \<lparr>callsign = cs, ci_name = nm, ci_location = loc\<rparr>)"

definition ci_fits :: "client_info \<Rightarrow> bool" where
  "ci_fits ci \<longleftrightarrow> length (callsign ci) + length (ci_name ci) + length (ci_location ci) \<le> 252"

lemma ci_clamp_fits: "ci_fits ci \<Longrightarrow> ci_clamp ci = ci"
  by (simp add: ci_clamp_def ci_fits_def Let_def)

lemma take_min_length: "take (min (length xs) n) xs = take n xs"
  by (simp add: min_def)

lemma serializeClientInfo_layout:
  assumes "\<not> ci_isEmpty ci"
  shows "serializeClientInfo (Some ci) = (let c = ci_clamp ci in
      len8 (length (callsign c)) # str_bytes (callsign c) @
      len8 (length (ci_name c)) # str_bytes (ci_name c) @
      len8 (length (ci_location c)) # str_bytes (ci_location c))"
  using assms
  by (simp add: serializeClientInfo_def ci_clamp_def kClientInfoMaxBytes_def put_defs Let_def
      take_str_bytes take_min_length min.commute [of _ 252])

lemma length_ci_clamp:
  "length (callsign (ci_clamp ci)) + length (ci_name (ci_clamp ci)) + length (ci_location (ci_clamp ci)) \<le> 252"
  by (simp add: ci_clamp_def Let_def min_def) arith

lemma length_serializeClientInfo: "length (serializeClientInfo info) \<le> 255"
proof (cases info)
  case None
  then show ?thesis by (simp add: serializeClientInfo_def)
next
  case (Some ci)
  then show ?thesis
    using length_ci_clamp [of ci]
    by (cases "ci_isEmpty ci") (simp_all add: serializeClientInfo_layout Let_def, simp add: serializeClientInfo_def)
qed

lemma serializeClientInfo_empty: "ci_isEmpty ci \<Longrightarrow> serializeClientInfo (Some ci) = []"
  by (simp add: serializeClientInfo_def)

lemma serializeClientInfo_nonempty:
  "\<not> ci_isEmpty ci \<Longrightarrow> serializeClientInfo (Some ci) \<noteq> []"
  by (simp add: serializeClientInfo_layout Let_def)

lemma read_opt_string_at [codec_simps]:
  "n = length s \<Longrightarrow> read_opt_string n (reader_at pre (str_bytes s @ ys) t) = (s, reader_at (pre @ str_bytes s) ys t)"
  by (cases s) (simp_all add: read_opt_string_def codec_simps str_bytes_def [of "[]"])

lemma read_opt_string_at_end:
  "n = length s \<Longrightarrow> read_opt_string n (reader_at pre (str_bytes s) t) = (s, reader_at (pre @ str_bytes s) [] t)"
  using read_opt_string_at [of n s pre "[]" t] by simp

lemma deserializeClientInfo_at:
  assumes "\<not> ci_isEmpty ci"
  shows "deserializeClientInfo (reader_at pre (serializeClientInfo (Some ci) @ rest) t) =
    (Some (ci_clamp ci), reader_at (pre @ serializeClientInfo (Some ci)) rest t)"
proof -
  define c where "c = ci_clamp ci"
  have fits: "length (callsign c) \<le> 255" "length (ci_name c) \<le> 255" "length (ci_location c) \<le> 255"
    using length_ci_clamp [of ci] by (simp_all add: c_def)
  have lay: "serializeClientInfo (Some ci) =
      len8 (length (callsign c)) # str_bytes (callsign c) @
      len8 (length (ci_name c)) # str_bytes (ci_name c) @
      len8 (length (ci_location c)) # str_bytes (ci_location c)"
    using serializeClientInfo_layout [OF assms] by (simp add: c_def Let_def)
  have eta: "\<lparr>callsign = callsign c, ci_name = ci_name c, ci_location = ci_location c\<rparr> = c" by simp
  show ?thesis
    unfolding lay c_def [symmetric]
    by (simp add: deserializeClientInfo_def codec_simps unat_len8 fits Let_def eta)
qed

section \<open>Connect request round trip\<close>

definition cfg_bytes :: "audio_stream_config option \<Rightarrow> bytes" where
  "cfg_bytes c = (case c of None \<Rightarrow> [] | Some c \<Rightarrow> be_bytes16 (u16_of (bufferTargetMs c)) @
     be_bytes16 (u16_of (bufferMinMs c)) @ be_bytes16 (u16_of (bufferMaxMs c)))"

lemma length_cfg_bytes: "length (cfg_bytes c) = (if c = None then 0 else 6)"
  by (cases c) (simp_all add: cfg_bytes_def)

lemma connectRequestFull_layout:
  "connectRequestFull name v c ci = \<lparr>messageType = ConnectRequest, cm_data =
     v # len8 (length name) # str_bytes name @ (if c \<noteq> None then 1 else 0) # cfg_bytes c @
     len8 (length (serializeClientInfo ci)) # serializeClientInfo ci\<rparr>"
  by (cases c) (simp_all add: connectRequestFull_def cfg_bytes_def put_defs Let_def)

lemma skip_cfg:
  "setPosition (Suc (Suc (Suc (n + 6)))) (reader_at pre (cfg_bytes (Some c) @ ys) t) =
     reader_at (pre @ cfg_bytes (Some c)) ys t" if "length pre = Suc (Suc (Suc n))"
  using that by (intro setPosition_at) (simp add: length_cfg_bytes)

lemma connectRequestV12_layout:
  "connectRequestV12 name v c ci rq = \<lparr>messageType = ConnectRequest, cm_data =
     v # len8 (length name) # str_bytes name @ (if c \<noteq> None then 1 else 0) # cfg_bytes c @
     len8 (length (serializeClientInfo ci)) # serializeClientInfo ci @
     be_bytes32 (rq_sampleRate rq) @ [rq_layout rq]\<rparr>"
  by (simp add: connectRequestV12_def connectRequestFull_layout put_defs Let_def)

lemma parse_connect_format:
  assumes "length name \<le> 255"
  shows "parseConnectRequestFormatRequest (connectRequestV12 name v c ci rq) = Some rq"
  using assms length_serializeClientInfo [of ci]
  by (cases c)
    (simp_all add: parseConnectRequestFormatRequest_def connectRequestV12_layout codec_simps unat_len8
      Let_def length_cfg_bytes skip_cfg, simp_all add: cfg_bytes_def codec_simps unat_len8)

lemma parse_connect_config:
  assumes "length name \<le> 255"
  shows "parseConnectRequestConfig (connectRequestFull name v c ci) =
    map_option (\<lambda>c. default_config\<lparr>bufferTargetMs := uint (u16_of (bufferTargetMs c)),
      bufferMinMs := uint (u16_of (bufferMinMs c)), bufferMaxMs := uint (u16_of (bufferMaxMs c))\<rparr>) c"
  using assms
  by (cases c)
    (simp_all add: parseConnectRequestConfig_def connectRequestFull_layout codec_simps unat_len8
      Let_def cfg_bytes_def)

lemma parse_connect_info:
  assumes "length name \<le> 255" and "\<not> ci_isEmpty ci"
  shows "parseConnectRequestClientInfo (connectRequestFull name v c (Some ci)) = Some (ci_clamp ci)"
  using assms length_serializeClientInfo [of "Some ci"] serializeClientInfo_nonempty [OF assms(2)]
    deserializeClientInfo_at [OF assms(2), of _ "[]"]
  by (cases c)
    (simp_all add: parseConnectRequestClientInfo_def connectRequestFull_layout codec_simps unat_len8
      Let_def length_cfg_bytes skip_cfg, simp_all add: cfg_bytes_def codec_simps unat_len8)

section \<open>Roster round trip\<close>

text \<open>The client info an entry carries: what the map has for the client, if it is not empty.\<close>

definition roster_info :: "(string \<rightharpoonup> client_info) option \<Rightarrow> string \<Rightarrow> client_info option" where
  "roster_info im cid = (case im of None \<Rightarrow> None | Some f \<Rightarrow>
     (case f cid of None \<Rightarrow> None | Some ci \<Rightarrow> if ci_isEmpty ci then None else Some (ci_clamp ci)))"

definition roster_upd :: "(string \<rightharpoonup> client_info) option \<Rightarrow> string \<Rightarrow> (string \<rightharpoonup> client_info) \<Rightarrow> (string \<rightharpoonup> client_info)" where
  "roster_upd im cid m = (case roster_info im cid of None \<Rightarrow> m | Some ci \<Rightarrow> m(cid \<mapsto> ci))"

definition entry_info :: "(string \<rightharpoonup> client_info) option \<Rightarrow> string \<Rightarrow> bytes" where
  "entry_info im cid = (case im of None \<Rightarrow> [] | Some f \<Rightarrow>
     (case f cid of None \<Rightarrow> [] | Some ci \<Rightarrow> serializeClientInfo (Some ci)))"

lemma roster_entry_layout:
  "roster_entry im cid = len8 (length cid) # str_bytes cid @ len8 (length (entry_info im cid)) # entry_info im cid"
  by (simp add: roster_entry_def entry_info_def put_defs Let_def)

lemma length_entry_info: "length (entry_info im cid) \<le> 255"
  by (simp add: entry_info_def length_serializeClientInfo split: option.splits)

lemma entry_info_cases:
  obtains (none) "entry_info im cid = []" "roster_info im cid = None"
  | (some) ci where "\<not> ci_isEmpty ci" "entry_info im cid = serializeClientInfo (Some ci)"
      "roster_info im cid = Some (ci_clamp ci)"
proof (cases "im = None \<or> the im cid = None \<or> ci_isEmpty (the (the im cid))")
  case True
  then show ?thesis
    by (intro none) (auto simp: entry_info_def roster_info_def serializeClientInfo_empty split: option.splits)
next
  case False
  then obtain f ci where "im = Some f" "f cid = Some ci" "\<not> ci_isEmpty ci" by auto
  then show ?thesis by (intro some [of ci]) (simp_all add: entry_info_def roster_info_def)
qed

lemma parse_roster_step:
  assumes "length cid \<le> 255"
  shows "parse_roster (Suc n) (reader_at pre (roster_entry im cid @ rest) t) ids m =
    parse_roster n (reader_at (pre @ roster_entry im cid) rest t) (ids @ [cid]) (roster_upd im cid m)"
proof (cases rule: entry_info_cases [of im cid])
  case none
  then show ?thesis
    using assms by (simp add: roster_entry_layout codec_simps unat_len8 roster_upd_def Let_def)
next
  case (some ci)
  note len = length_entry_info [of im cid]
  show ?thesis
    using assms len serializeClientInfo_nonempty [OF some(1)]
    by (simp add: roster_entry_layout codec_simps unat_len8 some roster_upd_def Let_def
        deserializeClientInfo_at [OF some(1)]) (simp add: setPosition_def reader_at_def add.assoc)
qed

lemma parse_roster_entries:
  assumes "\<forall>cid \<in> set ids. length cid \<le> 255"
  shows "parse_roster (length ids) (reader_at pre (concat (map (roster_entry im) ids) @ rest) t) acc m =
    (acc @ ids, fold (roster_upd im) ids m)"
  using assms
proof (induction ids arbitrary: pre acc m)
  case (Cons cid ids)
  then show ?case by (simp add: parse_roster_step del: parse_roster.simps)
qed simp

lemma fold_roster_upd:
  "fold (roster_upd im) ids m = (\<lambda>cid. if cid \<in> set ids \<and> roster_info im cid \<noteq> None then roster_info im cid else m cid)"
  by (induction ids arbitrary: m) (auto simp: roster_upd_def fun_eq_iff split: option.splits)

lemma fold_putBytes: "fold putBytes es w = w @ concat es"
  by (induction es arbitrary: w) (simp_all add: putBytes_def)

lemma clientsUpdate_layout:
  "clientsUpdateWithInfo cc mc owner ids im = \<lparr>messageType = ClientsUpdate, cm_data =
     word_of_int (min cc 255) # word_of_int (min mc 255) # len8 (length owner) # str_bytes owner @
     len8 (length ids) # concat (map (roster_entry im) ids)\<rparr>"
  by (simp add: clientsUpdateWithInfo_def put_defs fold_putBytes Let_def)

lemma parse_clients_update:
  assumes "length owner \<le> 255" and "length ids \<le> 255" and "\<forall>cid \<in> set ids. length cid \<le> 255"
  shows "parseClientsUpdate (clientsUpdateWithInfo cc mc owner ids im) = Some
    \<lparr>cu_clientCount = min cc 255 mod 256, cu_maxClients = min mc 255 mod 256,
     cu_txOwner = (if owner = [] then None else Some owner), cu_clientIds = ids,
     cu_clientInfoMap = (\<lambda>cid. if cid \<in> set ids then roster_info im cid else None)\<rparr>"
proof -
  have u8: "uint (word_of_int x :: u8) = x mod 256" for x
    by (simp add: uint_word_of_int)
  have loop: "parse_roster (length ids) (reader_at pre (concat (map (roster_entry im) ids)) t) [] Map.empty =
      (ids, \<lambda>cid. if cid \<in> set ids then roster_info im cid else None)" for pre t
    using parse_roster_entries [OF assms(3), of pre im "[]" t "[]" Map.empty]
    by (auto simp: fold_roster_upd fun_eq_iff)
  show ?thesis
    using assms(1,2)
    by (cases "owner = []")
      (simp_all add: parseClientsUpdate_def clientsUpdate_layout codec_simps unat_len8 Let_def loop u8
        del: parse_roster.simps, simp_all add: str_bytes_def codec_simps unat_len8 loop)
qed

section \<open>The fixed-layout messages\<close>

lemma getI32_at_end [codec_simps]:
  "getI32 (reader_at pre (be_bytes32 u) t) = (u, reader_at (pre @ be_bytes32 u) [] t)"
  using getI32_at [of pre u "[]" t] by simp

lemma getI64_at_end [codec_simps]:
  "getI64 (reader_at pre (be_bytes64 u) t) = (u, reader_at (pre @ be_bytes64 u) [] t)"
  using getI64_at [of pre u "[]" t] by simp

lemma getU16_at_end [codec_simps]:
  "getU16 (reader_at pre (be_bytes16 u) t) = (u, reader_at (pre @ be_bytes16 u) [] t)"
  using getU16_at [of pre u "[]" t] by simp

definition config_wire_ok :: "audio_stream_config \<Rightarrow> bool" where
  "config_wire_ok c \<longleftrightarrow> i32_ok (sampleRate c) \<and> 0 \<le> bitsPerSample c \<and> bitsPerSample c < 256 \<and>
     0 \<le> channels c \<and> channels c < 256 \<and> 0 \<le> frameDurationMs c \<and> frameDurationMs c < 65536 \<and>
     0 \<le> bufferTargetMs c \<and> bufferTargetMs c < 65536 \<and> 0 \<le> bufferMinMs c \<and> bufferMinMs c < 65536 \<and>
     0 \<le> bufferMaxMs c \<and> bufferMaxMs c < 65536"

lemma uint_u16_of: "0 \<le> x \<Longrightarrow> x < 65536 \<Longrightarrow> uint (u16_of x) = x"
  by (simp add: u16_of_def uint_word_of_int)

lemma uint_u8_of: "0 \<le> x \<Longrightarrow> x < 256 \<Longrightarrow> uint (word_of_int x :: u8) = x"
  by (simp add: uint_word_of_int)

lemma sint_u32_of: "i32_ok x \<Longrightarrow> sint (word_of_int x :: u32) = x"
  using i32_ident [of x] by (simp add: i32_def)

lemma audioConfig_layout:
  "audioConfig c = \<lparr>messageType = AudioConfig, cm_data = be_bytes32 (word_of_int (sampleRate c)) @
     word_of_int (bitsPerSample c) # word_of_int (channels c) # be_bytes16 (u16_of (frameDurationMs c)) @
     be_bytes16 (u16_of (bufferTargetMs c)) @ be_bytes16 (u16_of (bufferMinMs c)) @
     be_bytes16 (u16_of (bufferMaxMs c))\<rparr>"
  by (simp add: audioConfig_def put_defs Let_def)

definition with_format_of :: "audio_stream_config \<Rightarrow> audio_stream_config \<Rightarrow> audio_stream_config" where
  "with_format_of c target = target\<lparr>sampleRate := sampleRate c, bitsPerSample := bitsPerSample c,
     channels := channels c, frameDurationMs := frameDurationMs c, bufferTargetMs := bufferTargetMs c,
     bufferMinMs := bufferMinMs c, bufferMaxMs := bufferMaxMs c\<rparr>"

lemma apply_audio_config:
  assumes "config_wire_ok c"
  shows "applyAudioConfigTo (audioConfig c) target = Some (with_format_of c target)"
  using assms
  by (simp add: applyAudioConfigTo_def audioConfig_layout codec_simps Let_def with_format_of_def
      config_wire_ok_def uint_u16_of uint_u8_of sint_u32_of)

lemma apply_audio_config_v12:
  assumes "config_wire_ok c"
  shows "applyAudioConfigTo (audioConfigV12 c g) target = Some (with_format_of c target)"
    and "parseAudioConfigGrantedLayout (audioConfigV12 c g) = Some g"
    and "parseAudioConfigGrantedLayout (audioConfig c) = None"
proof -
  show "applyAudioConfigTo (audioConfigV12 c g) target = Some (with_format_of c target)"
    using assms
    by (simp add: applyAudioConfigTo_def audioConfigV12_def audioConfig_layout codec_simps put_defs
        Let_def with_format_of_def config_wire_ok_def uint_u16_of uint_u8_of sint_u32_of)
  show "parseAudioConfigGrantedLayout (audioConfigV12 c g) = Some g"
    by (simp add: parseAudioConfigGrantedLayout_def audioConfigV12_def audioConfig_layout put_defs nth_append)
  show "parseAudioConfigGrantedLayout (audioConfig c) = None"
    by (simp add: parseAudioConfigGrantedLayout_def audioConfig_layout)
qed

lemma parse_discover_reply:
  "parseDiscoverReply (discoverReply tok port tr rate bits ch cc mc name) = Some
    \<lparr>di_token = tok, di_port = port, di_transports = tr, di_sampleRate = rate, di_bitsPerSample = bits,
     di_channels = ch, di_clientCount = cc, di_maxClients = mc, di_name = take 255 name, di_host = []\<rparr>"
proof -
  define nm where "nm = take 255 name"
  have len: "length nm \<le> 255" by (simp add: nm_def)
  have lay: "discoverReply tok port tr rate bits ch cc mc name = \<lparr>messageType = DiscoverReply, cm_data =
      be_bytes32 tok @ be_bytes16 port @ tr # be_bytes32 rate @ bits # ch # cc # mc # len8 (length nm) # str_bytes nm\<rparr>"
    by (simp add: discoverReply_def put_defs Let_def nm_def take_str_bytes)
  have rs: "readString (length nm) (reader_at pre (str_bytes nm) t) = (nm, reader_at (pre @ str_bytes nm) [] t)" for pre t
    using readString_at [of "length nm" nm pre "[]" t] by simp
  show ?thesis
    unfolding lay nm_def [symmetric]
    using len by (cases "nm = []") (simp_all add: parseDiscoverReply_def codec_simps Let_def unat_len8 rs)
qed

lemma parse_scalars:
  "parseNackSequence (cm_nack s) = s"
  "parseControlAckSequence (cm_controlAck s) = s"
  "parseDiscoverToken (discover tok) = Some tok"
  "parseLatencyTimestamp (latencyProbe ts) = ts"
  "parseLatencyTimestamp (latencyResponse ts) = ts"
  by (simp_all add: parseNackSequence_def cm_nack_def parseControlAckSequence_def cm_controlAck_def
      parseDiscoverToken_def discover_def parseLatencyTimestamp_def latencyProbe_def
      latencyResponse_def put_defs codec_simps)

lemma parse_tx_client:
  "parseTxClientId (txDenied s) = (if s = [] then None else Some s)"
  "parseTxClientId (txPreempted s) = (if s = [] then None else Some s)"
  by (simp_all add: parseTxClientId_def txDenied_def txPreempted_def)

lemma rejectReason_roundtrip: "rejectReasonFromValue (reject_reason_value r) = r"
  by (cases r) (simp_all add: rejectReasonFromValue_def)

lemma parse_reject:
  assumes "length msg \<le> 255"
  shows "parseErrorMessage (connectReject r msg) = Some (if msg = [] then rejectReasonName r else msg)"
  using assms
  by (simp add: parseErrorMessage_def connectReject_def put_defs Let_def unat_len8 rejectReason_roundtrip)

section \<open>Properties\<close>

text \<open>
  The message envelope. A payload decodes to a control message exactly when it is that
  message's serialization: an empty payload and every unknown type byte are rejected.
\<close>

theorem control_envelope_iff: "cm_deserialize b = Some m \<longleftrightarrow> b = cm_serialize m"
  by (rule cm_deserialize_Some)

text \<open>
  A CONNECT_REQUEST built with or without a configuration and with a non-empty identity
  parses back: the buffer settings (as 16-bit values), the identity clamped to its shared
  252-byte budget, and the spec-1.2 format request of the extended form, whatever optional
  parts precede it; the base form carries no format request.
\<close>

theorem connect_request_roundtrip:
  assumes "length name \<le> 255" and "\<not> ci_isEmpty ci"
  shows "parseConnectRequestConfig (connectRequestFull name v c (Some ci)) =
      map_option (\<lambda>c. default_config\<lparr>bufferTargetMs := uint (u16_of (bufferTargetMs c)),
        bufferMinMs := uint (u16_of (bufferMinMs c)), bufferMaxMs := uint (u16_of (bufferMaxMs c))\<rparr>) c
    \<and> parseConnectRequestClientInfo (connectRequestFull name v c (Some ci)) = Some (ci_clamp ci)
    \<and> parseConnectRequestFormatRequest (connectRequestV12 name v c info rq) = Some rq"
  using assms by (simp add: parse_connect_config parse_connect_info parse_connect_format)

theorem connect_request_roundtrip_witness:
  "parseConnectRequestClientInfo (connectRequestFull ''shack'' 1 (Some udpWan)
     (Some \<lparr>callsign = ''K1ABC'', ci_name = ''Ann'', ci_location = []\<rparr>)) =
   Some \<lparr>callsign = ''K1ABC'', ci_name = ''Ann'', ci_location = []\<rparr>"
proof -
  let ?ci = "\<lparr>callsign = ''K1ABC'', ci_name = ''Ann'', ci_location = []\<rparr>"
  have "\<not> ci_isEmpty ?ci" "length ''shack'' \<le> 255" by (simp_all add: ci_isEmpty_def)
  from connect_request_roundtrip [OF this(2,1), THEN conjunct2, THEN conjunct1] show ?thesis
    by (simp add: ci_clamp_fits ci_fits_def)
qed

text \<open>
  A CLIENTS_UPDATE roster parses back to the same client list, owner and identities when
  every string fits its length byte and there are at most 255 clients; counts saturate at 255.
\<close>

theorem clients_update_roundtrip:
  assumes "length owner \<le> 255" and "length ids \<le> 255" and "\<forall>cid \<in> set ids. length cid \<le> 255"
  shows "parseClientsUpdate (clientsUpdateWithInfo cc mc owner ids im) = Some
    \<lparr>cu_clientCount = min cc 255 mod 256, cu_maxClients = min mc 255 mod 256,
     cu_txOwner = (if owner = [] then None else Some owner), cu_clientIds = ids,
     cu_clientInfoMap = (\<lambda>cid. if cid \<in> set ids then roster_info im cid else None)\<rparr>"
  using assms by (rule parse_clients_update)

theorem clients_update_roundtrip_witness:
  "map_option cu_clientIds (parseClientsUpdate (clientsUpdateWithInfo 2 4 ''a'' [''a'', ''bc''] None)) =
   Some [''a'', ''bc'']"
  using clients_update_roundtrip [of "''a''" "[''a'', ''bc'']" 2 4 None] by simp

text \<open>
  AUDIO_CONFIG. Applying a configuration message to any target sets exactly the negotiated
  fields and leaves the others, in the base form and in the spec-1.2 form; the granted layout is
  present exactly in the latter.
\<close>

theorem audio_config_roundtrip:
  assumes "config_wire_ok c"
  shows "applyAudioConfigTo (audioConfig c) target = Some (with_format_of c target)
    \<and> applyAudioConfigTo (audioConfigV12 c g) target = Some (with_format_of c target)
    \<and> parseAudioConfigGrantedLayout (audioConfigV12 c g) = Some g
    \<and> parseAudioConfigGrantedLayout (audioConfig c) = None"
  using assms by (simp add: apply_audio_config apply_audio_config_v12)

theorem audio_config_roundtrip_witness:
  "parseAudioConfig (audioConfig udpIq) = Some (with_format_of udpIq default_config)"
proof -
  have "config_wire_ok udpIq" by (simp add: config_wire_ok_def preset_defs i32_ok_code)
  from audio_config_roundtrip [OF this, THEN conjunct1] show ?thesis by (simp add: parseAudioConfig_def)
qed

text \<open>
  A DISCOVER_REPLY parses back field by field; a name longer than its length byte can say is
  truncated to 255 bytes instead of breaking the frame.
\<close>

theorem discover_reply_roundtrip:
  "parseDiscoverReply (discoverReply tok port tr rate bits ch cc mc name) = Some
    \<lparr>di_token = tok, di_port = port, di_transports = tr, di_sampleRate = rate, di_bitsPerSample = bits,
     di_channels = ch, di_clientCount = cc, di_maxClients = mc, di_name = take 255 name, di_host = []\<rparr>"
  by (rule parse_discover_reply)

text \<open>
  A client name of 256 bytes wraps its length byte to zero, and the request is misread: the
  server takes the name's own bytes for the flags and lengths that follow and finds a spec-1.2
  format request that the client never made.
\<close>

theorem long_client_name_misframes:
  "parseConnectRequestFormatRequest (connectRequestFull (replicate 256 CHR 0x41) v c ci) =
     Some \<lparr>rq_sampleRate = 0x41414141, rq_layout = 0x41\<rparr>"
proof -
  let ?A = "0x41 :: u8"
  have "str_bytes (replicate 256 CHR 0x41) = replicate (1 + 6 + 1 + 65 + 4 + 1 + 178) ?A"
    by (simp add: str_bytes_def)
  also have "\<dots> = ?A # replicate 6 ?A @ ?A # replicate 65 ?A @ replicate 4 ?A @ ?A # replicate 178 ?A"
    by (simp only: replicate_add append_assoc) simp
  also have "replicate 4 ?A = be_bytes32 0x41414141"
  proof -
    have "replicate 4 ?A = [?A, ?A, ?A, ?A]" by (simp add: numeral_eq_Suc)
    then show ?thesis by (simp add: be_bytes32_def)
  qed
  finally have name: "str_bytes (replicate 256 CHR 0x41) =
      ?A # replicate 6 ?A @ ?A # replicate 65 ?A @ be_bytes32 0x41414141 @ ?A # replicate 178 ?A" .
  have skip: "setPosition (length pre + n) (reader_at pre (replicate n ?A @ ys) t) = reader_at (pre @ replicate n ?A) ys t"
    for pre n ys t by (rule setPosition_at) simp
  have pos: "setPosition p (reader_at pre ys t) = reader_at pre ys t" if "p = length pre" for p pre ys t
    using that by (simp add: setPosition_def reader_at_def)
  show ?thesis
    unfolding connectRequestFull_layout name parseConnectRequestFormatRequest_def
    by (simp add: codec_simps len8_def pos Let_def skip [of _ 6, simplified] skip [of _ 65, simplified]
        del: replicate.simps)
qed

end
