(* ===== verification/Protocol_Handler.thy ===== *)
theory Protocol_Handler
  imports Fec_Decoder Control_Message
begin

text \<open>
  The TCP framing layer: \<open>src/net/AudioProtocolHandler.cpp\<close>. The socket is the script of what its
  receive calls report (bytes in arbitrary chunks, timeouts, end of stream, errors); the framing
  state machine is resumable, so its state is the whole of the receive-thread fields. The outcome
  of a send is an argument, as are the clock readings. The lemmas relate the machine to a reference
  that sees the stream frame by frame: however the bytes are cut, the packets delivered are exactly
  the decodable frames, up to the fifth consecutive bad one, which closes the connection; and a
  stretch of garbage without a magic byte costs no frame.
\<close>

section \<open>Socket results\<close>

text \<open>
  One pending outcome of \<open>Socket::recv\<close>. Bytes that do not fit the caller's buffer stay queued; an
  empty read is the end of the stream; an exhausted script is a peer that stays quiet.
\<close>

datatype io_event = Io_bytes bytes | Io_timedOut | Io_closed | Io_error

datatype io_status = Ok | TimedOut | Closed | Error

fun socket_recv :: "nat \<Rightarrow> io_event list \<Rightarrow> io_status \<times> bytes \<times> io_event list" where
  "socket_recv n [] = (TimedOut, [], [])"
| "socket_recv n (Io_timedOut # evs) = (TimedOut, [], evs)"
| "socket_recv n (Io_closed # evs) = (Closed, [], evs)"
| "socket_recv n (Io_error # evs) = (Error, [], evs)"
| "socket_recv n (Io_bytes bs # evs) =
     (if bs = [] then (Closed, [], evs)
      else if length bs \<le> n then (Ok, bs, evs)
      else (Ok, take n bs, Io_bytes (drop n bs) # evs))"

text \<open>\<open>sendAll\<close>: everything, or false after a prefix (a truncated frame on the wire).\<close>

fun socket_sendAll :: "nat option \<Rightarrow> bytes \<Rightarrow> bool \<times> bytes" where
  "socket_sendAll None d = (True, d)"
| "socket_sendAll (Some k) d = (False, take k d)"

record receive_result =
  rr_packet :: "audio_packet option"
  rr_closed :: bool
  rr_provenance :: provenance

definition rr_of :: "audio_packet \<Rightarrow> provenance \<Rightarrow> receive_result" where
  "rr_of p v = \<lparr>rr_packet = Some p, rr_closed = False, rr_provenance = v\<rparr>"

definition rr_noData :: receive_result where
  "rr_noData = \<lparr>rr_packet = None, rr_closed = False, rr_provenance = Live\<rparr>"

definition rr_dead :: receive_result where
  "rr_dead = \<lparr>rr_packet = None, rr_closed = True, rr_provenance = Live\<rparr>"

section \<open>State\<close>

definition HEARTBEAT_INTERVAL_MS :: int where "HEARTBEAT_INTERVAL_MS = 5000"
definition CONNECTION_TIMEOUT_MS :: int where "CONNECTION_TIMEOUT_MS = 10000"
definition MAX_CONSECUTIVE_CRC_ERRORS :: nat where "MAX_CONSECUTIVE_CRC_ERRORS = 5"

datatype recv_phase = PHASE_HEADER | PHASE_PAYLOAD | PHASE_SKIP

datatype fill = Filled | Timeout | Fatal

record protocol_handler =
  ph_sequenceCounter :: u32
  ph_closed :: bool
  ph_lastSendTime :: int
  ph_lastReceiveTime :: int
  ph_packetsSent :: u64
  ph_packetsReceived :: u64
  ph_bytesSent :: u64
  ph_bytesReceived :: u64
  ph_crcErrors :: u32
  ph_consecutiveCrcErrors :: nat
  ph_recvPhase :: recv_phase
  ph_recvBuf :: bytes
  ph_recvFilled :: nat
  ph_recvHeader :: bytes

definition mk_protocol_handler :: "int \<Rightarrow> protocol_handler" where
  "mk_protocol_handler now =
     \<lparr>ph_sequenceCounter = 0, ph_closed = False, ph_lastSendTime = now, ph_lastReceiveTime = now,
      ph_packetsSent = 0, ph_packetsReceived = 0, ph_bytesSent = 0, ph_bytesReceived = 0,
      ph_crcErrors = 0, ph_consecutiveCrcErrors = 0, ph_recvPhase = PHASE_HEADER,
      ph_recvBuf = replicate HEADER_SIZE 0, ph_recvFilled = 0, ph_recvHeader = []\<rparr>"

section \<open>Send\<close>

text \<open>Each send returns whether it succeeded, the bytes it put on the wire and the new state.\<close>

definition sendPacketLocked ::
  "nat option \<Rightarrow> int \<Rightarrow> audio_packet \<Rightarrow> protocol_handler \<Rightarrow> bool \<times> bytes \<times> protocol_handler" where
  "sendPacketLocked out now p h =
     (if ph_closed h then (False, [], h)
      else let d = serialize p; (ok, w) = socket_sendAll out d
        in if \<not> ok then (False, w, h)
           else (True, w, h\<lparr>ph_lastSendTime := now, ph_packetsSent := ph_packetsSent h + 1,
                             ph_bytesSent := ph_bytesSent h + word_of_nat (length d)\<rparr>))"

definition ph_sendPacket ::
  "nat option \<Rightarrow> int \<Rightarrow> audio_packet \<Rightarrow> protocol_handler \<Rightarrow> bool \<times> bytes \<times> protocol_handler" where
  "ph_sendPacket out now p h = sendPacketLocked out now p h"

definition ph_nextSequence :: "protocol_handler \<Rightarrow> u32 \<times> protocol_handler" where
  "ph_nextSequence h = (ph_sequenceCounter h, h\<lparr>ph_sequenceCounter := ph_sequenceCounter h + 1\<rparr>)"

definition ph_sendRxAudio ::
  "nat option \<Rightarrow> int \<Rightarrow> u64 \<Rightarrow> bytes \<Rightarrow> nat \<Rightarrow> nat \<Rightarrow> protocol_handler \<Rightarrow> bool \<times> bytes \<times> protocol_handler" where
  "ph_sendRxAudio out now nanos d off len h =
     (let buf = take len (drop off d); (s, h) = ph_nextSequence h
      in ph_sendPacket out now (createRxAudio nanos s buf) h)"

definition ph_sendTxAudio ::
  "nat option \<Rightarrow> int \<Rightarrow> u64 \<Rightarrow> bytes \<Rightarrow> protocol_handler \<Rightarrow> bool \<times> bytes \<times> protocol_handler" where
  "ph_sendTxAudio out now nanos d h =
     (let (s, h) = ph_nextSequence h in ph_sendPacket out now (createTxAudio nanos s d) h)"

definition ph_sendControl ::
  "nat option \<Rightarrow> int \<Rightarrow> u64 \<Rightarrow> control_message \<Rightarrow> protocol_handler \<Rightarrow> bool \<times> bytes \<times> protocol_handler" where
  "ph_sendControl out now nanos m h =
     (let (s, h) = ph_nextSequence h in ph_sendPacket out now (createControl nanos s (cm_serialize m)) h)"

definition ph_sendHeartbeat ::
  "nat option \<Rightarrow> int \<Rightarrow> u64 \<Rightarrow> protocol_handler \<Rightarrow> bool \<times> bytes \<times> protocol_handler" where
  "ph_sendHeartbeat out now nanos h =
     (let (s, h) = ph_nextSequence h in ph_sendPacket out now (createHeartbeat nanos s) h)"

text \<open>\<open>owns\<close>: whether \<open>try_to_lock\<close> won the send mutex.\<close>

definition ph_trySendControl ::
  "bool \<Rightarrow> nat option \<Rightarrow> int \<Rightarrow> u64 \<Rightarrow> control_message \<Rightarrow> protocol_handler \<Rightarrow> bool \<times> bytes \<times> protocol_handler" where
  "ph_trySendControl owns out now nanos m h =
     (if \<not> owns then (False, [], h)
      else let (s, h) = ph_nextSequence h
        in sendPacketLocked out now (createControl nanos s (cm_serialize m)) h)"

section \<open>The receive state machine\<close>

lemma socket_recv_shrinks: "socket_recv n evs = (Ok, d, evs') \<Longrightarrow> 0 < n \<Longrightarrow> d \<noteq> [] \<and> length d \<le> n"
  by (induction n evs rule: socket_recv.induct) (auto split: if_splits)

text \<open>
  \<open>fillRecvBuf\<close> on the buffer and its fill level; every successful read makes progress. Bytes
  received are written at the fill level.
\<close>

function fill_loop :: "io_event list \<Rightarrow> bytes \<Rightarrow> nat \<Rightarrow> fill \<times> io_event list \<times> bytes \<times> nat" where
  "fill_loop evs buf filled =
     (if filled < length buf then
        case socket_recv (length buf - filled) evs of
          (Ok, d, evs') \<Rightarrow>
            fill_loop evs' (take filled buf @ d @ drop (filled + length d) buf) (filled + length d)
        | (TimedOut, d, evs') \<Rightarrow> (Timeout, evs', buf, filled)
        | (Closed, d, evs') \<Rightarrow> (Fatal, evs', buf, filled)
        | (Error, d, evs') \<Rightarrow> (Fatal, evs', buf, filled)
      else (Filled, evs, buf, filled))"
  by pat_completeness auto
termination
proof (relation "measure (\<lambda>(evs, buf, filled). length buf - filled)", goal_cases)
  case (2 evs buf filled st y d evs')
  then have "d \<noteq> []" "length d \<le> length buf - filled"
    using socket_recv_shrinks [of "length buf - filled" evs d evs'] by auto
  then show ?case using 2(1) by (cases d) (simp_all add: min_def)
qed simp

declare fill_loop.simps [simp del]

definition fillRecvBuf :: "io_event list \<Rightarrow> protocol_handler \<Rightarrow> fill \<times> io_event list \<times> protocol_handler" where
  "fillRecvBuf evs h =
     (let (fr, evs, buf, n) = fill_loop evs (ph_recvBuf h) (ph_recvFilled h)
      in (fr, evs, h\<lparr>ph_recvBuf := buf, ph_recvFilled := n\<rparr>))"

definition resetRecvState :: "protocol_handler \<Rightarrow> protocol_handler" where
  "resetRecvState h = h\<lparr>ph_recvPhase := PHASE_HEADER, ph_recvBuf := replicate HEADER_SIZE 0,
     ph_recvFilled := 0, ph_recvHeader := []\<rparr>"

definition ph_countError :: "protocol_handler \<Rightarrow> protocol_handler" where
  "ph_countError h = h\<lparr>ph_consecutiveCrcErrors := ph_consecutiveCrcErrors h + 1, ph_crcErrors := ph_crcErrors h + 1\<rparr>"

definition ph_tooManyErrors :: "protocol_handler \<Rightarrow> bool" where
  "ph_tooManyErrors h \<longleftrightarrow> ph_consecutiveCrcErrors h \<ge> MAX_CONSECUTIVE_CRC_ERRORS"

definition magicHi :: u8 where "magicHi = ucast (drop_bit 8 MAGIC AND 0xFF)"
definition magicLo :: u8 where "magicLo = ucast (MAGIC AND 0xFF)"

text \<open>Where a misaligned header may continue: a magic inside it, or its first half at the end.\<close>

definition resync_keepFrom :: "bytes \<Rightarrow> nat option" where
  "resync_keepFrom buf =
     (case find (\<lambda>i. buf ! i = magicHi \<and> buf ! (i + 1) = magicLo) [1..<length buf - 1] of
        Some i \<Rightarrow> Some i
      | None \<Rightarrow> if last buf = magicHi then Some (length buf - 1) else None)"

text \<open>
  The three phase blocks of \<open>receivePacket\<close>. The header block returns early (\<open>Some\<close>) or falls
  through into the block of the phase it has just entered.
\<close>

definition header_block ::
  "io_event list \<Rightarrow> protocol_handler \<Rightarrow> receive_result option \<times> io_event list \<times> protocol_handler" where
  "header_block evs h =
     (case fillRecvBuf evs h of
        (Timeout, evs, h) \<Rightarrow> (Some rr_noData, evs, h)
      | (Fatal, evs, h) \<Rightarrow> (Some rr_dead, evs, h\<lparr>ph_closed := True\<rparr>)
      | (Filled, evs, h) \<Rightarrow>
          if read_u16 (ph_recvBuf h) 0 \<noteq> MAGIC then
            let h = ph_countError h
            in if ph_tooManyErrors h then (Some rr_dead, evs, h\<lparr>ph_closed := True\<rparr>)
               else case resync_keepFrom (ph_recvBuf h) of
                      None \<Rightarrow> (Some rr_noData, evs, h\<lparr>ph_recvFilled := 0\<rparr>)
                    | Some keepFrom \<Rightarrow>
                        let buf = ph_recvBuf h; kept = length buf - keepFrom
                        in (Some rr_noData, evs,
                            h\<lparr>ph_recvBuf := drop keepFrom buf @ drop kept buf, ph_recvFilled := kept\<rparr>)
          else
            let payloadLen = unat (read_u16 (ph_recvBuf h) 17)
            in if payloadLen > MAX_PAYLOAD then
                 let h = ph_countError h
                 in if ph_tooManyErrors h then (Some rr_dead, evs, h\<lparr>ph_closed := True\<rparr>)
                    else (None, evs, h\<lparr>ph_recvPhase := PHASE_SKIP,
                            ph_recvBuf := replicate (payloadLen + CRC_SIZE) 0, ph_recvFilled := 0\<rparr>)
               else (None, evs, h\<lparr>ph_recvHeader := ph_recvBuf h, ph_recvPhase := PHASE_PAYLOAD,
                            ph_recvBuf := replicate (payloadLen + CRC_SIZE) 0, ph_recvFilled := 0\<rparr>))"

definition skip_block ::
  "io_event list \<Rightarrow> protocol_handler \<Rightarrow> receive_result \<times> io_event list \<times> protocol_handler" where
  "skip_block evs h =
     (case fillRecvBuf evs h of
        (Timeout, evs, h) \<Rightarrow> (rr_noData, evs, h)
      | (Fatal, evs, h) \<Rightarrow> (rr_dead, evs, h\<lparr>ph_closed := True\<rparr>)
      | (Filled, evs, h) \<Rightarrow> (rr_noData, evs, resetRecvState h))"

definition payload_block ::
  "int \<Rightarrow> io_event list \<Rightarrow> protocol_handler \<Rightarrow> receive_result \<times> io_event list \<times> protocol_handler" where
  "payload_block now evs h =
     (case fillRecvBuf evs h of
        (Timeout, evs, h) \<Rightarrow> (rr_noData, evs, h)
      | (Fatal, evs, h) \<Rightarrow> (rr_dead, evs, h\<lparr>ph_closed := True\<rparr>)
      | (Filled, evs, h) \<Rightarrow>
          let fullPacket = ph_recvHeader h @ ph_recvBuf h; h = resetRecvState h
          in case deserialize fullPacket of
               None \<Rightarrow>
                 let h = ph_countError h
                 in if ph_tooManyErrors h then (rr_dead, evs, h\<lparr>ph_closed := True\<rparr>) else (rr_noData, evs, h)
             | Some p \<Rightarrow>
                 (rr_of p Live, evs,
                  h\<lparr>ph_consecutiveCrcErrors := 0, ph_lastReceiveTime := now,
                    ph_packetsReceived := ph_packetsReceived h + 1,
                    ph_bytesReceived := ph_bytesReceived h + word_of_nat (length fullPacket)\<rparr>))"

definition ph_receivePacket ::
  "int \<Rightarrow> io_event list \<Rightarrow> protocol_handler \<Rightarrow> receive_result \<times> io_event list \<times> protocol_handler" where
  "ph_receivePacket now evs h =
     (if ph_closed h then (rr_dead, evs, h)
      else case (if ph_recvPhase h = PHASE_HEADER then header_block evs h else (None, evs, h)) of
             (Some r, evs, h) \<Rightarrow> (r, evs, h)
           | (None, evs, h) \<Rightarrow>
               if ph_recvPhase h = PHASE_SKIP then skip_block evs h
               else if ph_recvPhase h = PHASE_PAYLOAD then payload_block now evs h
               else (rr_noData, evs, h))"

section \<open>Heartbeat, timeout, close, drain\<close>

definition ph_shouldSendHeartbeat :: "int \<Rightarrow> protocol_handler \<Rightarrow> bool" where
  "ph_shouldSendHeartbeat now h \<longleftrightarrow> now - ph_lastSendTime h > HEARTBEAT_INTERVAL_MS"

definition ph_isConnectionTimedOut :: "int \<Rightarrow> protocol_handler \<Rightarrow> bool" where
  "ph_isConnectionTimedOut now h \<longleftrightarrow> now - ph_lastReceiveTime h > CONNECTION_TIMEOUT_MS"

definition ph_timeSinceLastReceive :: "int \<Rightarrow> protocol_handler \<Rightarrow> int" where
  "ph_timeSinceLastReceive now h = now - ph_lastReceiveTime h"

definition ph_close :: "protocol_handler \<Rightarrow> protocol_handler" where
  "ph_close h = h\<lparr>ph_closed := True\<rparr>"

text \<open>
  The drain loop: one clock reading per turn, after the read; \<open>None\<close> when the readings end before
  the loop does.
\<close>

fun drain_loop :: "int \<Rightarrow> io_event list \<Rightarrow> nat \<Rightarrow> int list \<Rightarrow> (nat \<times> io_event list) option" where
  "drain_loop deadline evs discarded [] = None"
| "drain_loop deadline evs discarded (now # clk) =
     (case socket_recv 2048 evs of
        (Ok, d, evs') \<Rightarrow>
          (if now \<ge> deadline then Some (discarded + length d, evs')
           else drain_loop deadline evs' (discarded + length d) clk)
      | (TimedOut, d, evs') \<Rightarrow>
          (if discarded > 0 then Some (discarded, evs')
           else if now \<ge> deadline then Some (discarded, evs')
           else drain_loop deadline evs' discarded clk)
      | (_, d, evs') \<Rightarrow> Some (discarded, evs'))"

definition discardPendingInput ::
  "bool \<Rightarrow> bool \<Rightarrow> int \<Rightarrow> int \<Rightarrow> int list \<Rightarrow> io_event list \<Rightarrow> protocol_handler \<Rightarrow> (nat \<times> io_event list) option" where
  "discardPendingInput valid timeoutSet start budgetMs clk evs h =
     (if ph_closed h \<or> \<not> valid then Some (0, evs)
      else if \<not> timeoutSet then Some (0, evs)
      else drain_loop (start + budgetMs) evs 0 clk)"

section \<open>Receive scripts without end of stream or error\<close>

fun event_bytes :: "io_event \<Rightarrow> bytes" where
  "event_bytes (Io_bytes bs) = bs"
| "event_bytes _ = []"

definition wire_bytes :: "io_event list \<Rightarrow> bytes" where
  "wire_bytes evs = concat (map event_bytes evs)"

fun benign_event :: "io_event \<Rightarrow> bool" where
  "benign_event (Io_bytes bs) \<longleftrightarrow> bs \<noteq> []"
| "benign_event Io_timedOut \<longleftrightarrow> True"
| "benign_event _ \<longleftrightarrow> False"

definition script_size :: "io_event list \<Rightarrow> nat" where
  "script_size evs = length evs + length (wire_bytes evs)"

lemma wire_bytes_simps [simp]:
  "wire_bytes [] = []" "wire_bytes (e # evs) = event_bytes e @ wire_bytes evs"
  by (simp_all add: wire_bytes_def)

lemma script_size_simps [simp]:
  "script_size [] = 0" "script_size (e # evs) = Suc (length (event_bytes e) + script_size evs)"
  by (simp_all add: script_size_def)

text \<open>\<open>script_step\<close>: some bytes \<open>d\<close> of the script were consumed.\<close>

definition script_step :: "io_event list \<Rightarrow> bytes \<Rightarrow> io_event list \<Rightarrow> bool" where
  "script_step evs d evs' \<longleftrightarrow> list_all benign_event evs' \<and> wire_bytes evs = d @ wire_bytes evs' \<and>
     (evs = [] \<and> evs' = [] \<or> script_size evs' < script_size evs)"

lemma script_step_le: "script_step evs d evs' \<Longrightarrow> script_size evs' \<le> script_size evs"
  by (auto simp: script_step_def)

lemma script_step_trans:
  "script_step evs d evs' \<Longrightarrow> script_step evs' e evs'' \<Longrightarrow> script_step evs (d @ e) evs''"
  by (auto simp: script_step_def)

lemma socket_recv_benign:
  assumes "list_all benign_event evs" "0 < n"
  obtains d evs' where "socket_recv n evs = (Ok, d, evs')" "d \<noteq> []" "length d \<le> n" "script_step evs d evs'"
  | evs' where "socket_recv n evs = (TimedOut, [], evs')" "script_step evs [] evs'"
proof (cases evs)
  case Nil
  then show thesis using that(2) [of "[]"] by (simp add: script_step_def)
next
  case (Cons e rest)
  show thesis
  proof (cases e)
    case (Io_bytes bs)
    show thesis
      using that(1) [of "take n bs" "if length bs \<le> n then rest else Io_bytes (drop n bs) # rest"] assms
      by (auto simp: Cons Io_bytes script_step_def min_def)
  qed (use Cons assms that(2) [of rest] in \<open>auto simp: script_step_def\<close>)
qed

lemma fill_loop_spec:
  assumes "list_all benign_event evs" "filled < length buf"
  obtains fr evs' d where
    "fill_loop evs buf filled = (fr, evs', take filled buf @ d @ drop (filled + length d) buf, filled + length d)"
    "script_step evs d evs'" "filled + length d \<le> length buf"
    "fr = Filled \<and> filled + length d = length buf \<or> fr = Timeout \<and> filled + length d < length buf"
proof -
  have "\<exists>fr evs' d. fill_loop evs buf filled = (fr, evs', take filled buf @ d @ drop (filled + length d) buf, filled + length d) \<and>
    script_step evs d evs' \<and> filled + length d \<le> length buf \<and>
    (fr = Filled \<and> filled + length d = length buf \<or> fr = Timeout \<and> filled + length d < length buf)"
    using assms
  proof (induction evs buf filled rule: fill_loop.induct)
    case (1 evs buf filled)
    from \<open>filled < length buf\<close> have "0 < length buf - filled" by simp
    with 1(2) show ?case
    proof (cases rule: socket_recv_benign)
      case (1 d evs')
      define buf' where "buf' = take filled buf @ d @ drop (filled + length d) buf"
      have len: "length buf' = length buf" "filled + length d \<le> length buf"
        using 1(3) \<open>filled < length buf\<close> by (simp_all add: buf'_def min_def)
      have unf: "fill_loop evs buf filled = fill_loop evs' buf' (filled + length d)"
        using 1(1) \<open>filled < length buf\<close> by (simp add: fill_loop.simps [of evs] buf'_def)
      have ben: "list_all benign_event evs'" using 1(4) by (simp add: script_step_def)
      show ?thesis
      proof (cases "filled + length d < length buf")
        case True
        obtain fr evs'' e where e: "fill_loop evs' buf' (filled + length d) =
            (fr, evs'', take (filled + length d) buf' @ e @ drop (filled + length d + length e) buf', filled + length d + length e)"
          "script_step evs' e evs''" "filled + length d + length e \<le> length buf'"
          "fr = Filled \<and> filled + length d + length e = length buf' \<or> fr = Timeout \<and> filled + length d + length e < length buf'"
          using "1.IH" [OF \<open>filled < length buf\<close> 1(1) [symmetric] refl refl ben, folded buf'_def] True len
          by auto
        have "take (filled + length d) buf' @ e @ drop (filled + length d + length e) buf' =
            take filled buf @ (d @ e) @ drop (filled + length (d @ e)) buf"
          using \<open>filled < length buf\<close> by (simp add: buf'_def min_def ac_simps)
        then show ?thesis using e unf len script_step_trans [OF 1(4) e(2)]
          by (intro exI [of _ fr] exI [of _ evs''] exI [of _ "d @ e"]) (auto simp: add.assoc)
      next
        case False
        then have "fill_loop evs' buf' (filled + length d) = (Filled, evs', buf', filled + length d)"
          by (simp add: fill_loop.simps [of evs'] len)
        then show ?thesis using unf 1(4) len False
          by (intro exI [of _ Filled] exI [of _ evs'] exI [of _ d]) (simp add: buf'_def)
      qed
    next
      case (2 evs')
      then show ?thesis using \<open>filled < length buf\<close>
        by (intro exI [of _ Timeout] exI [of _ evs'] exI [of _ "[]"]) (simp add: fill_loop.simps [of evs])
    qed
  qed
  then show thesis using that by blast
qed

section \<open>Tracking one frame\<close>

text \<open>
  A well-framed item: the magic, and as many bytes as its own length field announces. It need not
  decode: the payload may be corrupt, the type unknown, the length above \<open>MAX_PAYLOAD\<close>.
\<close>

definition well_framed :: "bytes \<Rightarrow> bool" where
  "well_framed b \<longleftrightarrow> read_u16 b 0 = MAGIC \<and> length b = HEADER_SIZE + unat (read_u16 b 17) + CRC_SIZE"

definition oversized :: "bytes \<Rightarrow> bool" where
  "oversized b \<longleftrightarrow> unat (read_u16 b 17) > MAX_PAYLOAD"

text \<open>
  What the handler holds after \<open>c\<close> bytes of the item \<open>b\<close>, when \<open>k\<close> bad items preceded it: an
  oversized item has already been counted when its payload is being skipped.
\<close>

definition held :: "protocol_handler \<Rightarrow> bytes \<Rightarrow> nat \<Rightarrow> nat \<Rightarrow> bool" where
  "held h b off c \<longleftrightarrow> off \<le> c \<and> c < off + length (ph_recvBuf h) \<and> ph_recvFilled h = c - off \<and>
     take (c - off) (ph_recvBuf h) = take (c - off) (drop off b)"

definition tracks :: "protocol_handler \<Rightarrow> bytes \<Rightarrow> nat \<Rightarrow> nat \<Rightarrow> bool" where
  "tracks h b c k \<longleftrightarrow> \<not> ph_closed h \<and> well_framed b \<and> k < MAX_CONSECUTIVE_CRC_ERRORS \<and>
     (case ph_recvPhase h of
        PHASE_HEADER \<Rightarrow> ph_consecutiveCrcErrors h = k \<and> length (ph_recvBuf h) = HEADER_SIZE \<and> held h b 0 c
      | PHASE_PAYLOAD \<Rightarrow> ph_consecutiveCrcErrors h = k \<and> \<not> oversized b \<and> ph_recvHeader h = take HEADER_SIZE b \<and>
          HEADER_SIZE + length (ph_recvBuf h) = length b \<and> held h b HEADER_SIZE c
      | PHASE_SKIP \<Rightarrow> ph_consecutiveCrcErrors h = Suc k \<and> Suc k < MAX_CONSECUTIVE_CRC_ERRORS \<and> oversized b \<and>
          HEADER_SIZE + length (ph_recvBuf h) = length b \<and> held h b HEADER_SIZE c)"

definition idle :: "protocol_handler \<Rightarrow> nat \<Rightarrow> bool" where
  "idle h k \<longleftrightarrow> \<not> ph_closed h \<and> ph_recvPhase h = PHASE_HEADER \<and> length (ph_recvBuf h) = HEADER_SIZE \<and>
     ph_recvFilled h = 0 \<and> ph_consecutiveCrcErrors h = k"

text \<open>How one receive call may end while the item \<open>b\<close> is due, with \<open>R\<close> behind it on the wire.\<close>

definition call_outcome ::
  "bytes \<Rightarrow> nat \<Rightarrow> bytes \<Rightarrow> receive_result \<Rightarrow> io_event list \<Rightarrow> protocol_handler \<Rightarrow> bool" where
  "call_outcome b k R r evs h \<longleftrightarrow>
     (\<exists>c. r = rr_noData \<and> tracks h b c k \<and> wire_bytes evs = drop c b @ R) \<or>
     (case deserialize b of
        Some p \<Rightarrow> r = rr_of p Live \<and> idle h 0 \<and> wire_bytes evs = R
      | None \<Rightarrow> if Suc k < MAX_CONSECUTIVE_CRC_ERRORS then r = rr_noData \<and> idle h (Suc k) \<and> wire_bytes evs = R
                else r = rr_dead \<and> ph_closed h)"

lemma idle_tracks: "idle h k \<Longrightarrow> well_framed b \<Longrightarrow> k < MAX_CONSECUTIVE_CRC_ERRORS \<Longrightarrow> tracks h b 0 k"
  by (simp add: idle_def tracks_def held_def HEADER_SIZE_def)

lemma oversized_undecodable: "oversized b \<Longrightarrow> deserialize b = None"
  by (simp add: oversized_def deserialize_def Let_def split: option.splits)

lemma well_framed_length: "well_framed b \<Longrightarrow> HEADER_SIZE + CRC_SIZE \<le> length b"
  by (simp add: well_framed_def)

lemma read_u16_header:
  "i + 2 \<le> HEADER_SIZE \<Longrightarrow> read_u16 (take HEADER_SIZE b) i = read_u16 b i"
  by (simp add: read_u16_def HEADER_SIZE_def)

lemma fill_item:
  assumes "list_all benign_event evs" "wire_bytes evs = drop c b @ R" "held h b off c"
    "off + length (ph_recvBuf h) \<le> length b"
  obtains fr evs' h' c' d where "fillRecvBuf evs h = (fr, evs', h')" "script_step evs d evs'"
    "h' = h\<lparr>ph_recvBuf := ph_recvBuf h', ph_recvFilled := c' - off\<rparr>" "length (ph_recvBuf h') = length (ph_recvBuf h)"
    "wire_bytes evs' = drop c' b @ R"
    "fr = Timeout \<and> held h' b off c' \<or>
     fr = Filled \<and> c' = off + length (ph_recvBuf h) \<and> ph_recvBuf h' = take (length (ph_recvBuf h)) (drop off b)"
proof -
  let ?buf = "ph_recvBuf h" and ?n = "ph_recvFilled h"
  have held: "off \<le> c" "?n = c - off" "?n < length ?buf" "take ?n ?buf = take ?n (drop off b)"
    using assms(3) by (auto simp: held_def)
  obtain fr evs' d where f: "fill_loop evs ?buf ?n = (fr, evs', take ?n ?buf @ d @ drop (?n + length d) ?buf, ?n + length d)"
    and st: "script_step evs d evs'" and le: "?n + length d \<le> length ?buf"
    and fr: "fr = Filled \<and> ?n + length d = length ?buf \<or> fr = Timeout \<and> ?n + length d < length ?buf"
    using fill_loop_spec [OF assms(1) held(3)] by metis
  define c' where "c' = c + length d"
  define buf where "buf = take ?n ?buf @ d @ drop (?n + length d) ?buf"
  define h' where "h' = h\<lparr>ph_recvBuf := buf, ph_recvFilled := c' - off\<rparr>"
  have n': "?n + length d = c' - off" using held by (simp add: c'_def)
  have fits: "length d \<le> length (drop c b)" using le held assms(4) by simp
  have split: "drop c b @ R = d @ wire_bytes evs'" using st assms(2) by (simp add: script_step_def)
  have d: "d = take (length d) (drop c b)"
    using arg_cong [OF split, of "take (length d)"] fits by simp
  have rest: "wire_bytes evs' = drop c' b @ R"
    using arg_cong [OF split, of "drop (length d)"] fits by (simp add: c'_def add.commute)
  have len: "length buf = length ?buf" using le held(3) by (simp add: buf_def)
  have pre: "take (c' - off) buf = take (c' - off) (drop off b)"
  proof -
    have "take (c' - off) buf = take ?n (drop off b) @ d"
      using held(3) assms(4) by (simp add: n' [symmetric] buf_def held(4))
    also have "\<dots> = take (?n + length d) (drop off b)"
    proof -
      have "drop ?n (drop off b) = drop c b" using held(1,2) by simp
      then show ?thesis unfolding take_add using d by simp
    qed
    finally show ?thesis by (simp only: n')
  qed
  have hb: "ph_recvBuf h' = buf" by (simp add: h'_def)
  show thesis
  proof (rule that [of fr evs' h' d c'])
    show "fillRecvBuf evs h = (fr, evs', h')"
      using f [folded buf_def] by (simp add: fillRecvBuf_def n' h'_def)
    show "h' = h\<lparr>ph_recvBuf := ph_recvBuf h', ph_recvFilled := c' - off\<rparr>" by (simp add: hb) (simp add: h'_def)
    show "fr = Timeout \<and> held h' b off c' \<or>
      fr = Filled \<and> c' = off + length ?buf \<and> ph_recvBuf h' = take (length ?buf) (drop off b)"
    proof (cases "?n + length d = length ?buf")
      case True
      then have c: "c' - off = length ?buf" "c' = off + length ?buf" using n' held(1) by (simp_all add: c'_def)
      then show ?thesis using fr True pre len hb by simp
    next
      case False
      then have "c' - off < length ?buf" "off \<le> c'" using n' held(1) le by (simp_all add: c'_def)
      then show ?thesis using fr False pre len hb by (auto simp: held_def h'_def)
    qed
  qed (simp_all add: st rest len hb)
qed

lemma held_lt: "held h b off c \<Longrightarrow> c < off + length (ph_recvBuf h)"
  by (simp add: held_def)

lemma skip_block_outcome:
  assumes "tracks h b c k" "ph_recvPhase h = PHASE_SKIP" "list_all benign_event evs"
    "wire_bytes evs = drop c b @ R" "skip_block evs h = (r, evs', h')"
  shows "call_outcome b k R r evs' h' \<and> (\<exists>d. script_step evs d evs')"
proof -
  have tr: "held h b HEADER_SIZE c" "HEADER_SIZE + length (ph_recvBuf h) = length b" "oversized b"
    "ph_consecutiveCrcErrors h = Suc k" "Suc k < MAX_CONSECUTIVE_CRC_ERRORS" "\<not> ph_closed h" "well_framed b"
    using assms(1,2) by (simp_all add: tracks_def)
  obtain fr evs1 h1 c' d where f: "fillRecvBuf evs h = (fr, evs1, h1)" "script_step evs d evs1"
    and h1: "h1 = h\<lparr>ph_recvBuf := ph_recvBuf h1, ph_recvFilled := c' - HEADER_SIZE\<rparr>"
      "length (ph_recvBuf h1) = length (ph_recvBuf h)"
    and w: "wire_bytes evs1 = drop c' b @ R"
    and fr: "fr = Timeout \<and> held h1 b HEADER_SIZE c' \<or> fr = Filled \<and> c' = HEADER_SIZE + length (ph_recvBuf h) \<and>
       ph_recvBuf h1 = take (length (ph_recvBuf h)) (drop HEADER_SIZE b)"
    using fill_item [OF assms(3,4) tr(1)] tr(2) by (metis order_refl)
  have same: "ph_closed h1 = ph_closed h" "ph_recvPhase h1 = ph_recvPhase h"
    "ph_consecutiveCrcErrors h1 = ph_consecutiveCrcErrors h"
    by (subst h1(1), simp)+
  from fr show ?thesis
  proof
    assume "fr = Timeout \<and> held h1 b HEADER_SIZE c'"
    then have "r = rr_noData" "evs' = evs1" "h' = h1" "held h1 b HEADER_SIZE c'"
      using assms(5) f(1) by (simp_all add: skip_block_def)
    then show ?thesis using f(2) w tr assms(1,2) h1(2) same
      by (auto simp: call_outcome_def tracks_def intro!: exI [of _ c'])
  next
    assume fl: "fr = Filled \<and> c' = HEADER_SIZE + length (ph_recvBuf h) \<and>
       ph_recvBuf h1 = take (length (ph_recvBuf h)) (drop HEADER_SIZE b)"
    then have "r = rr_noData" "evs' = evs1" "h' = resetRecvState h1"
      using assms(5) f(1) by (simp_all add: skip_block_def)
    then show ?thesis using f(2) w tr fl same
      by (auto simp: call_outcome_def oversized_undecodable idle_def resetRecvState_def)
  qed
qed

lemma payload_block_outcome:
  assumes "tracks h b c k" "ph_recvPhase h = PHASE_PAYLOAD" "list_all benign_event evs"
    "wire_bytes evs = drop c b @ R" "payload_block now evs h = (r, evs', h')"
  shows "call_outcome b k R r evs' h' \<and> (\<exists>d. script_step evs d evs')"
proof -
  have tr: "held h b HEADER_SIZE c" "HEADER_SIZE + length (ph_recvBuf h) = length b" "\<not> oversized b"
    "ph_consecutiveCrcErrors h = k" "k < MAX_CONSECUTIVE_CRC_ERRORS" "\<not> ph_closed h" "well_framed b"
    "ph_recvHeader h = take HEADER_SIZE b"
    using assms(1,2) by (simp_all add: tracks_def)
  obtain fr evs1 h1 c' d where f: "fillRecvBuf evs h = (fr, evs1, h1)" "script_step evs d evs1"
    and h1: "h1 = h\<lparr>ph_recvBuf := ph_recvBuf h1, ph_recvFilled := c' - HEADER_SIZE\<rparr>"
      "length (ph_recvBuf h1) = length (ph_recvBuf h)"
    and w: "wire_bytes evs1 = drop c' b @ R"
    and fr: "fr = Timeout \<and> held h1 b HEADER_SIZE c' \<or> fr = Filled \<and> c' = HEADER_SIZE + length (ph_recvBuf h) \<and>
       ph_recvBuf h1 = take (length (ph_recvBuf h)) (drop HEADER_SIZE b)"
    using fill_item [OF assms(3,4) tr(1)] tr(2) by (metis order_refl)
  have same: "ph_closed h1 = ph_closed h" "ph_recvPhase h1 = ph_recvPhase h" "ph_recvHeader h1 = ph_recvHeader h"
    "ph_consecutiveCrcErrors h1 = ph_consecutiveCrcErrors h"
    by (subst h1(1), simp)+
  from fr show ?thesis
  proof
    assume "fr = Timeout \<and> held h1 b HEADER_SIZE c'"
    then have "r = rr_noData" "evs' = evs1" "h' = h1" "held h1 b HEADER_SIZE c'"
      using assms(5) f(1) by (simp_all add: payload_block_def)
    then show ?thesis using f(2) w tr assms(1,2) h1(2) same
      by (auto simp: call_outcome_def tracks_def intro!: exI [of _ c'])
  next
    assume fl: "fr = Filled \<and> c' = HEADER_SIZE + length (ph_recvBuf h) \<and>
       ph_recvBuf h1 = take (length (ph_recvBuf h)) (drop HEADER_SIZE b)"
    then have "length (ph_recvBuf h) = length b - HEADER_SIZE" using tr(2) by simp
    with fl tr(8) same have full: "ph_recvHeader h1 @ ph_recvBuf h1 = b" by simp
    have w1: "wire_bytes evs1 = R" using w fl tr(2) by simp
    have fill: "fillRecvBuf evs h = (Filled, evs1, h1)" using f(1) fl by simp
    show ?thesis
    proof (cases "deserialize b")
      case None
      let ?h = "ph_countError (resetRecvState h1)"
      have idle: "Suc k < MAX_CONSECUTIVE_CRC_ERRORS \<Longrightarrow> idle ?h (Suc k)"
        using tr(4,6) same by (simp add: idle_def resetRecvState_def ph_countError_def)
      have many: "ph_tooManyErrors ?h \<longleftrightarrow> \<not> Suc k < MAX_CONSECUTIVE_CRC_ERRORS"
        using tr(4) same by (auto simp: ph_tooManyErrors_def resetRecvState_def ph_countError_def)
      have "(r, evs', h') = (if ph_tooManyErrors ?h then (rr_dead, evs1, ?h\<lparr>ph_closed := True\<rparr>) else (rr_noData, evs1, ?h))"
        using assms(5) by (simp add: payload_block_def fill full None Let_def)
      then show ?thesis using idle f(2) w1 None by (simp add: call_outcome_def many split: if_splits) blast+
    next
      case (Some q)
      have "r = rr_of q Live \<and> evs' = evs1 \<and> idle h' 0"
        using assms(5) tr(6) same(1) Some
        by (auto simp: payload_block_def fill full idle_def resetRecvState_def Let_def)
      then show ?thesis using f(2) w1 Some by (auto simp: call_outcome_def)
    qed
  qed
qed

lemma header_block_outcome:
  assumes "tracks h b c k" "ph_recvPhase h = PHASE_HEADER" "list_all benign_event evs"
    "wire_bytes evs = drop c b @ R" "header_block evs h = (ro, evs', h')"
  shows "(\<exists>d. script_step evs d evs') \<and>
    (case ro of Some r \<Rightarrow> call_outcome b k R r evs' h'
     | None \<Rightarrow> tracks h' b HEADER_SIZE k \<and> wire_bytes evs' = drop HEADER_SIZE b @ R \<and> ph_recvPhase h' \<noteq> PHASE_HEADER)"
proof -
  have tr: "held h b 0 c" "length (ph_recvBuf h) = HEADER_SIZE"
    "ph_consecutiveCrcErrors h = k" "k < MAX_CONSECUTIVE_CRC_ERRORS" "\<not> ph_closed h" "well_framed b"
    using assms(1,2) by (simp_all add: tracks_def)
  have lenb: "HEADER_SIZE \<le> length b" using well_framed_length [OF tr(6)] by simp
  obtain fr evs1 h1 c' d where f: "fillRecvBuf evs h = (fr, evs1, h1)" "script_step evs d evs1"
    and h1: "h1 = h\<lparr>ph_recvBuf := ph_recvBuf h1, ph_recvFilled := c' - 0\<rparr>"
      "length (ph_recvBuf h1) = length (ph_recvBuf h)"
    and w: "wire_bytes evs1 = drop c' b @ R"
    and fr: "fr = Timeout \<and> held h1 b 0 c' \<or> fr = Filled \<and> c' = 0 + length (ph_recvBuf h) \<and>
       ph_recvBuf h1 = take (length (ph_recvBuf h)) (drop 0 b)"
    using fill_item [OF assms(3,4) tr(1)] tr(2) lenb by (metis add_0)
  have same: "ph_closed h1 = ph_closed h" "ph_recvPhase h1 = ph_recvPhase h"
    "ph_consecutiveCrcErrors h1 = ph_consecutiveCrcErrors h"
    by (subst h1(1), simp)+
  from fr show ?thesis
  proof
    assume "fr = Timeout \<and> held h1 b 0 c'"
    then have "ro = Some rr_noData" "evs' = evs1" "h' = h1" "held h1 b 0 c'"
      using assms(5) f(1) by (simp_all add: header_block_def)
    then show ?thesis using f(2) w tr assms(1,2) h1(2) same
      by (auto simp: call_outcome_def tracks_def intro!: exI [of _ c'])
  next
    assume "fr = Filled \<and> c' = 0 + length (ph_recvBuf h) \<and> ph_recvBuf h1 = take (length (ph_recvBuf h)) (drop 0 b)"
    then have fl: "fr = Filled" "c' = HEADER_SIZE" "ph_recvBuf h1 = take HEADER_SIZE b" using tr(2) by simp_all
    have magic: "read_u16 (ph_recvBuf h1) 0 = MAGIC" and plen: "read_u16 (ph_recvBuf h1) 17 = read_u16 b 17"
      using tr(6) read_u16_header [of 0 b] read_u16_header [of 17 b]
      by (simp_all add: fl(3) well_framed_def) (simp_all add: HEADER_SIZE_def)
    have len: "HEADER_SIZE + (unat (read_u16 b 17) + CRC_SIZE) = length b" using tr(6) by (simp add: well_framed_def)
    have fill: "fillRecvBuf evs h = (Filled, evs1, h1)" using f(1) fl(1) by simp
    have w1: "wire_bytes evs1 = drop HEADER_SIZE b @ R" using w fl(2) by simp
    show ?thesis
    proof (cases "oversized b")
      case True
      let ?h = "ph_countError h1"
      let ?s = "?h\<lparr>ph_recvPhase := PHASE_SKIP, ph_recvBuf := replicate (unat (read_u16 b 17) + CRC_SIZE) 0, ph_recvFilled := 0\<rparr>"
      have many: "ph_tooManyErrors ?h \<longleftrightarrow> \<not> Suc k < MAX_CONSECUTIVE_CRC_ERRORS"
        using tr(3) same by (auto simp: ph_tooManyErrors_def ph_countError_def)
      have skip: "Suc k < MAX_CONSECUTIVE_CRC_ERRORS \<Longrightarrow> tracks ?s b HEADER_SIZE k"
        using tr(3-6) same True len by (simp add: tracks_def held_def ph_countError_def CRC_SIZE_def)
      have "(ro, evs', h') = (if ph_tooManyErrors ?h then (Some rr_dead, evs1, ?h\<lparr>ph_closed := True\<rparr>) else (None, evs1, ?s))"
        using assms(5) True by (simp add: header_block_def fill magic plen oversized_def Let_def)
      then show ?thesis using skip f(2) w1 True
        by (simp add: many call_outcome_def oversized_undecodable split: if_splits) blast+
    next
      case False
      let ?s = "h1\<lparr>ph_recvHeader := ph_recvBuf h1, ph_recvPhase := PHASE_PAYLOAD,
        ph_recvBuf := replicate (unat (read_u16 b 17) + CRC_SIZE) 0, ph_recvFilled := 0\<rparr>"
      have tracks: "tracks ?s b HEADER_SIZE k"
        using tr(3-6) same False len fl(3) by (simp add: tracks_def held_def CRC_SIZE_def)
      have "(ro, evs', h') = (None, evs1, ?s)"
        using assms(5) False by (simp add: header_block_def fill magic plen oversized_def Let_def)
      then show ?thesis using tracks f(2) w1 by auto
    qed
  qed
qed

lemma receivePacket_outcome:
  assumes "tracks h b c k" "list_all benign_event evs" "wire_bytes evs = drop c b @ R"
    "ph_receivePacket now evs h = (r, evs', h')"
  shows "call_outcome b k R r evs' h' \<and> (\<exists>d. script_step evs d evs')"
proof (cases "ph_recvPhase h")
  case PHASE_HEADER
  obtain ro evs1 h1 where hb: "header_block evs h = (ro, evs1, h1)" by (cases "header_block evs h")
  from header_block_outcome [OF assms(1) PHASE_HEADER assms(2,3) hb]
  obtain d where st: "script_step evs d evs1" and
    out: "case ro of Some r \<Rightarrow> call_outcome b k R r evs1 h1
     | None \<Rightarrow> tracks h1 b HEADER_SIZE k \<and> wire_bytes evs1 = drop HEADER_SIZE b @ R \<and> ph_recvPhase h1 \<noteq> PHASE_HEADER"
    by blast
  have open': "\<not> ph_closed h" using assms(1) by (simp add: tracks_def)
  show ?thesis
  proof (cases ro)
    case (Some r1)
    then show ?thesis using assms(4) hb open' PHASE_HEADER out st by (auto simp: ph_receivePacket_def)
  next
    case None
    have ben: "list_all benign_event evs1" using st by (simp add: script_step_def)
    have t1: "tracks h1 b HEADER_SIZE k" "wire_bytes evs1 = drop HEADER_SIZE b @ R" "ph_recvPhase h1 \<noteq> PHASE_HEADER"
      using out None by simp_all
    have "call_outcome b k R r evs' h' \<and> (\<exists>d. script_step evs1 d evs')"
      using assms(4) hb open' PHASE_HEADER None t1 ben skip_block_outcome [OF t1(1) _ ben t1(2)]
        payload_block_outcome [OF t1(1) _ ben t1(2)]
      by (cases "ph_recvPhase h1") (simp_all add: ph_receivePacket_def)
    then show ?thesis using script_step_trans [OF st] by blast
  qed
next
  case PHASE_PAYLOAD
  then show ?thesis using assms payload_block_outcome [OF assms(1) PHASE_PAYLOAD assms(2,3)]
    by (simp add: ph_receivePacket_def tracks_def)
next
  case PHASE_SKIP
  then show ?thesis using assms skip_block_outcome [OF assms(1) PHASE_SKIP assms(2,3)]
    by (simp add: ph_receivePacket_def tracks_def)
qed

section \<open>The reference: frame by frame\<close>

text \<open>
  The receive loop of a client: one receive call per clock reading, the packets it delivers in
  order. And what the loop should deliver when the stream is a list of well-framed items: the
  decodable ones, until the fifth consecutive bad item closes the connection.
\<close>

fun ph_pump :: "int list \<Rightarrow> io_event list \<Rightarrow> protocol_handler \<Rightarrow> audio_packet list \<times> io_event list \<times> protocol_handler" where
  "ph_pump [] evs h = ([], evs, h)"
| "ph_pump (now # nows) evs h =
     (let (r, evs, h) = ph_receivePacket now evs h; (ps, evs, h) = ph_pump nows evs h
      in ((case rr_packet r of None \<Rightarrow> ps | Some p \<Rightarrow> p # ps), evs, h))"

fun frames_ref :: "nat \<Rightarrow> bytes list \<Rightarrow> audio_packet list \<times> bool" where
  "frames_ref k [] = ([], True)"
| "frames_ref k (b # bs) =
     (case deserialize b of
        Some p \<Rightarrow> (let (ps, ok) = frames_ref 0 bs in (p # ps, ok))
      | None \<Rightarrow> if Suc k < MAX_CONSECUTIVE_CRC_ERRORS then frames_ref (Suc k) bs else ([], False))"

definition due :: "protocol_handler \<Rightarrow> io_event list \<Rightarrow> bytes list \<Rightarrow> nat \<Rightarrow> bool" where
  "due h evs bs k \<longleftrightarrow> list_all well_framed bs \<and> list_all benign_event evs \<and> k < MAX_CONSECUTIVE_CRC_ERRORS \<and>
     (case bs of [] \<Rightarrow> idle h k \<and> wire_bytes evs = []
      | b # rest \<Rightarrow> \<exists>c. tracks h b c k \<and> wire_bytes evs = drop c b @ concat rest)"

lemma tracks_lt: "tracks h b c k \<Longrightarrow> c < length b"
  using well_framed_length [of b] by (auto simp: tracks_def held_def split: recv_phase.splits)

lemma tracks_framed: "tracks h b c k \<Longrightarrow> well_framed b"
  by (simp add: tracks_def)

lemma idle_due:
  "idle h k \<Longrightarrow> list_all well_framed bs \<Longrightarrow> list_all benign_event evs \<Longrightarrow> k < MAX_CONSECUTIVE_CRC_ERRORS \<Longrightarrow>
   wire_bytes evs = concat bs \<Longrightarrow> due h evs bs k"
  by (cases bs) (auto simp: due_def intro!: exI [of _ 0] idle_tracks)

lemma idle_quiet:
  assumes "idle h k" "list_all benign_event evs" "wire_bytes evs = []" "ph_receivePacket now evs h = (r, evs', h')"
  shows "r = rr_noData \<and> h' = h \<and> script_step evs [] evs'"
proof -
  have i: "ph_recvPhase h = PHASE_HEADER" "\<not> ph_closed h" "length (ph_recvBuf h) = HEADER_SIZE" "ph_recvFilled h = 0"
    using assms(1) by (simp_all add: idle_def)
  obtain fr evs1 d where f: "fill_loop evs (ph_recvBuf h) 0 = (fr, evs1, take 0 (ph_recvBuf h) @ d @ drop (0 + length d) (ph_recvBuf h), 0 + length d)"
    and st: "script_step evs d evs1"
    and fr: "fr = Filled \<and> 0 + length d = length (ph_recvBuf h) \<or> fr = Timeout \<and> 0 + length d < length (ph_recvBuf h)"
    using fill_loop_spec [OF assms(2), of 0 "ph_recvBuf h"] i(3) by (metis HEADER_SIZE_def zero_less_numeral)
  have "d = []" using st assms(3) by (simp add: script_step_def)
  moreover from this have "fr = Timeout" using fr i(3) by (simp add: HEADER_SIZE_def)
  moreover have same: "h\<lparr>ph_recvFilled := 0\<rparr> = h" using i(4) by (cases h) simp
  ultimately show ?thesis
    using assms(4) i f st by (simp add: ph_receivePacket_def header_block_def fillRecvBuf_def same)
qed

lemma pump_closed: "ph_closed h \<Longrightarrow> ph_pump nows evs h = ([], evs, h)"
  by (induction nows) (simp_all add: ph_receivePacket_def rr_dead_def)

lemma script_step_less: "script_step evs d evs' \<Longrightarrow> wire_bytes evs \<noteq> [] \<Longrightarrow> script_size evs' < script_size evs"
  by (auto simp: script_step_def)

lemma script_step_benign: "script_step evs d evs' \<Longrightarrow> list_all benign_event evs'"
  by (simp add: script_step_def)

lemma rr_packet_simps [simp]: "rr_packet rr_noData = None" "rr_packet rr_dead = None" "rr_packet (rr_of p v) = Some p"
  by (simp_all add: rr_noData_def rr_dead_def rr_of_def)

text \<open>One receive call against the reference.\<close>

lemma due_step:
  assumes "due h evs bs k" "ph_receivePacket now evs h = (r, evs', h')"
  obtains bs' k' where "due h' evs' bs' k'" "script_size evs' \<le> script_size evs - 1"
      "frames_ref k bs = (let (ps, ok) = frames_ref k' bs' in (case rr_packet r of None \<Rightarrow> ps | Some p \<Rightarrow> p # ps, ok))"
  | "ph_closed h'" "rr_packet r = None" "frames_ref k bs = ([], False)"
proof (cases bs)
  case Nil
  then have "idle h k" "wire_bytes evs = []" "list_all benign_event evs" "k < MAX_CONSECUTIVE_CRC_ERRORS"
    using assms(1) by (simp_all add: due_def)
  with idle_quiet [OF _ _ _ assms(2)] have q: "r = rr_noData" "h' = h" "script_step evs [] evs'" by blast+
  show thesis
    by (rule that(1) [of "[]" k]) (use q Nil assms(1) in \<open>auto simp: due_def script_step_def\<close>)
next
  case (Cons b rest)
  then obtain c where d: "list_all well_framed rest" "list_all benign_event evs" "k < MAX_CONSECUTIVE_CRC_ERRORS"
    "tracks h b c k" "wire_bytes evs = drop c b @ concat rest"
    using assms(1) by (auto simp: due_def)
  from receivePacket_outcome [OF d(4,2,5) assms(2)]
  obtain e where out: "call_outcome b k (concat rest) r evs' h'" and st: "script_step evs e evs'" by blast
  have "wire_bytes evs \<noteq> []" using d(5) tracks_lt [OF d(4)] by simp
  from script_step_less [OF st this] have sz: "script_size evs' \<le> script_size evs - 1" by simp
  note ben = script_step_benign [OF st]
  show thesis
  proof (cases "\<exists>c. r = rr_noData \<and> tracks h' b c k \<and> wire_bytes evs' = drop c b @ concat rest")
    case True
    then show thesis using that(1) [of bs k] d ben sz tracks_framed [OF d(4)] by (auto simp: due_def Cons)
  next
    case False
    with out have fin: "case deserialize b of
        Some p \<Rightarrow> r = rr_of p Live \<and> idle h' 0 \<and> wire_bytes evs' = concat rest
      | None \<Rightarrow> if Suc k < MAX_CONSECUTIVE_CRC_ERRORS then r = rr_noData \<and> idle h' (Suc k) \<and> wire_bytes evs' = concat rest
                else r = rr_dead \<and> ph_closed h'" unfolding call_outcome_def by blast
    show thesis
    proof (cases "deserialize b")
      case None
      show thesis
      proof (cases "Suc k < MAX_CONSECUTIVE_CRC_ERRORS")
        case True
        then have "due h' evs' rest (Suc k)" using fin None d(1) ben by (simp add: idle_due)
        then show thesis using that(1) sz fin None True Cons by (auto split: prod.splits)
      qed (use that(2) fin None Cons in auto)
    next
      case (Some p)
      then have "due h' evs' rest 0" using fin d(1,3) ben by (simp add: idle_due)
      then show thesis using that(1) sz fin Some Cons by simp
    qed
  qed
qed

lemma pump_frames:
  assumes "due h evs bs k" "script_size evs \<le> length nows" "ph_pump nows evs h = (ps, evs', h')"
  shows "(ps, \<not> ph_closed h') = frames_ref k bs"
  using assms
proof (induction nows arbitrary: h evs bs k ps)
  case Nil
  then have "evs = []" by (cases evs) simp_all
  with Nil show ?case
    by (cases bs) (auto simp: due_def idle_def dest: tracks_lt)
next
  case (Cons now nows)
  obtain r evs1 h1 where r: "ph_receivePacket now evs h = (r, evs1, h1)" by (cases "ph_receivePacket now evs h")
  obtain ps1 evs2 h2 where p: "ph_pump nows evs1 h1 = (ps1, evs2, h2)" by (cases "ph_pump nows evs1 h1")
  have ps: "ps = (case rr_packet r of None \<Rightarrow> ps1 | Some p \<Rightarrow> p # ps1)" "h' = h2" "evs' = evs2"
    using Cons.prems(3) r p by simp_all
  from Cons.prems(1) r show ?case
  proof (cases rule: due_step)
    case (1 bs' k')
    have "script_size evs1 \<le> length nows" using 1(2) Cons.prems(2) by simp
    from Cons.IH [OF 1(1) this] p ps(2,3) have "(ps1, \<not> ph_closed h2) = frames_ref k' bs'" by simp
    then show ?thesis using 1(3) ps by (metis case_prod_conv)
  next
    case 2
    then have "ps1 = []" "ph_closed h2" using pump_closed [of h1 nows evs1] p by auto
    then show ?thesis using 2 ps by simp
  qed
qed

lemma idle_fresh: "idle (mk_protocol_handler t) 0"
  by (simp add: idle_def mk_protocol_handler_def)

section \<open>Resynchronisation after garbage\<close>

text \<open>The handler in the middle of garbage \<open>g\<close> that the well-framed items \<open>bs\<close> follow.\<close>

definition resyncing :: "protocol_handler \<Rightarrow> io_event list \<Rightarrow> bytes \<Rightarrow> bytes list \<Rightarrow> nat \<Rightarrow> bool" where
  "resyncing h evs g bs k \<longleftrightarrow> list_all benign_event evs \<and> list_all well_framed bs \<and> bs \<noteq> [] \<and>
     g \<noteq> [] \<and> magicHi \<notin> set g \<and> k + (length g + 18) div 19 < MAX_CONSECUTIVE_CRC_ERRORS \<and>
     \<not> ph_closed h \<and> ph_recvPhase h = PHASE_HEADER \<and> length (ph_recvBuf h) = HEADER_SIZE \<and>
     ph_consecutiveCrcErrors h = k \<and>
     (\<exists>c. held h (g @ concat bs) 0 c \<and> wire_bytes evs = drop c (g @ concat bs))"

lemma be_bytes16_MAGIC: "be_bytes16 MAGIC = [magicHi, magicLo]"
  by (simp add: be_bytes16_def MAGIC_def magicHi_def magicLo_def byte_of_def)

lemma well_framed_head: "well_framed b \<Longrightarrow> \<exists>r. b = magicHi # magicLo # r"
proof -
  assume wf: "well_framed b"
  then have len: "23 \<le> length b" by (simp add: well_framed_def HEADER_SIZE_def CRC_SIZE_def)
  then have "take 2 b = [magicHi, magicLo]"
    using be_bytes16_read [of 0 b] wf by (simp add: well_framed_def be_bytes16_MAGIC)
  then show ?thesis using append_take_drop_id [of 2 b] by (metis append_Cons append_Nil)
qed

lemma read_magic_head: "2 \<le> length buf \<Longrightarrow> read_u16 buf 0 = MAGIC \<Longrightarrow> hd buf = magicHi"
  using be_bytes16_read [of 0 buf] by (cases buf) (auto simp: be_bytes16_MAGIC)

lemma find_first:
  assumes "find P [a..<n] = r" "a \<le> i" "i < n" "P i" "\<And>j. a \<le> j \<Longrightarrow> j < i \<Longrightarrow> \<not> P j"
  shows "r = Some i"
proof -
  have "[a..<n] = [a..<i] @ i # [Suc i..<n]"
    using assms(2,3) by (metis le_add_diff_inverse upt_add_eq_append upt_conv_Cons less_imp_le)
  moreover have "find P [a..<i] = None" using assms(5) by (auto simp: find_None_iff)
  moreover have "find P (xs @ ys) = (case find P xs of None \<Rightarrow> find P ys | Some x \<Rightarrow> Some x)" for xs ys
    by (induction xs) simp_all
  ultimately show ?thesis using assms(1,4) by simp
qed

lemma resync_in_garbage: "magicHi \<notin> set buf \<Longrightarrow> buf \<noteq> [] \<Longrightarrow> resync_keepFrom buf = None"
proof -
  assume no: "magicHi \<notin> set buf" "buf \<noteq> []"
  then have "\<not> (buf ! i = magicHi \<and> buf ! (i + 1) = magicLo)" if "i < length buf" for i
    using that nth_mem by metis
  then have "find (\<lambda>i. buf ! i = magicHi \<and> buf ! (i + 1) = magicLo) [1..<length buf - 1] = None"
    by (auto simp: find_None_iff)
  moreover have "last buf \<noteq> magicHi" using no last_in_set by metis
  ultimately show ?thesis by (simp add: resync_keepFrom_def)
qed

lemma resync_at_frame:
  assumes "magicHi \<notin> set g" "g \<noteq> []" "f = magicHi # r" "r \<noteq> [] \<Longrightarrow> hd r = magicLo"
  shows "resync_keepFrom (g @ f) = Some (length g)"
proof -
  let ?P = "\<lambda>i. (g @ f) ! i = magicHi \<and> (g @ f) ! (i + 1) = magicLo"
  have before: "\<not> ?P j" if "j < length g" for j
    using that assms(1) nth_mem by (fastforce simp: nth_append)
  show ?thesis
  proof (cases r)
    case Nil
    have "find ?P [1..<length (g @ f) - 1] = None"
      using before by (auto simp: find_None_iff assms(3) Nil)
    then show ?thesis by (simp add: resync_keepFrom_def assms(3) Nil)
  next
    case (Cons x r')
    have "find ?P [1..<length (g @ f) - 1] = Some (length g)"
    proof (rule find_first [OF refl])
      show "1 \<le> length g" using assms(2) by (cases g) simp_all
      show "?P (length g)" using assms(3,4) Cons by (simp add: nth_append)
      show "length g < length (g @ f) - 1" by (simp add: assms(3) Cons)
    qed (use before in blast)
    then show ?thesis by (simp add: resync_keepFrom_def)
  qed
qed

lemma resyncing_step:
  assumes "resyncing h evs g bs k" "ph_receivePacket now evs h = (r, evs', h')"
  shows "rr_packet r = None \<and> (\<exists>d. script_step evs d evs') \<and>
    (resyncing h' evs' g bs k \<or> resyncing h' evs' (drop 19 g) bs (Suc k) \<and> 19 < length g \<or>
     due h' evs' bs (Suc k) \<and> length g \<le> 19)"
proof -
  let ?W = "g @ concat bs"
  obtain c where rs: "list_all benign_event evs" "list_all well_framed bs" "bs \<noteq> []" "g \<noteq> []" "magicHi \<notin> set g"
    "k + (length g + 18) div 19 < MAX_CONSECUTIVE_CRC_ERRORS" "\<not> ph_closed h" "ph_recvPhase h = PHASE_HEADER"
    "length (ph_recvBuf h) = HEADER_SIZE" "ph_consecutiveCrcErrors h = k" "held h ?W 0 c"
    "wire_bytes evs = drop c ?W @ []"
    using assms(1) by (auto simp: resyncing_def)
  obtain b bs' where bs: "bs = b # bs'" using rs(3) by (cases bs) simp_all
  have wb: "well_framed b" using rs(2) bs by simp
  obtain br where br: "b = magicHi # magicLo # br" using well_framed_head [OF wb] by blast
  have lenW: "0 + length (ph_recvBuf h) \<le> length ?W" using well_framed_length [OF wb] rs(9) bs by simp
  obtain fr evs1 h1 c' d where f: "fillRecvBuf evs h = (fr, evs1, h1)" "script_step evs d evs1"
    and h1: "h1 = h\<lparr>ph_recvBuf := ph_recvBuf h1, ph_recvFilled := c' - 0\<rparr>"
      "length (ph_recvBuf h1) = length (ph_recvBuf h)"
    and w: "wire_bytes evs1 = drop c' ?W @ []"
    and fr: "fr = Timeout \<and> held h1 ?W 0 c' \<or> fr = Filled \<and> c' = 0 + length (ph_recvBuf h) \<and>
       ph_recvBuf h1 = take (length (ph_recvBuf h)) (drop 0 ?W)"
    using fill_item [OF rs(1,12,11) lenW] by metis
  have same: "ph_closed h1 = ph_closed h" "ph_recvPhase h1 = ph_recvPhase h"
    "ph_consecutiveCrcErrors h1 = ph_consecutiveCrcErrors h"
    by (subst h1(1), simp)+
  note ben = script_step_benign [OF f(2)]
  from fr show ?thesis
  proof
    assume t: "fr = Timeout \<and> held h1 ?W 0 c'"
    then have eq: "r = rr_noData" "evs' = evs1" "h' = h1"
      using assms(2) f(1) rs(7,8) by (simp_all add: ph_receivePacket_def header_block_def)
    have "resyncing h' evs' g bs k"
      using t eq(2,3) rs same h1(2) w ben by (auto simp: resyncing_def)
    then show ?thesis using eq f(2) by auto
  next
    assume "fr = Filled \<and> c' = 0 + length (ph_recvBuf h) \<and> ph_recvBuf h1 = take (length (ph_recvBuf h)) (drop 0 ?W)"
    then have fill: "fillRecvBuf evs h = (Filled, evs1, h1)" and c': "c' = 19" and buf: "ph_recvBuf h1 = take 19 ?W"
      using f(1) rs(9) by (simp_all add: HEADER_SIZE_def)
    have "hd (take 19 ?W) = hd g" using rs(4) by (cases g) simp_all
    then have nomagic: "read_u16 (ph_recvBuf h1) 0 \<noteq> MAGIC"
      using read_magic_head [of "take 19 ?W"] lenW rs(4,5,9) buf by (auto simp: HEADER_SIZE_def dest: hd_in_set)
    let ?h = "ph_countError h1"
    have few: "\<not> ph_tooManyErrors ?h" "Suc k < MAX_CONSECUTIVE_CRC_ERRORS"
    proof -
      have "1 \<le> (length g + 18) div 19" using rs(4) by (cases g) simp_all
      with rs(6) show "Suc k < MAX_CONSECUTIVE_CRC_ERRORS" by simp
      then show "\<not> ph_tooManyErrors ?h" using same rs(10) by (simp add: ph_tooManyErrors_def ph_countError_def)
    qed
    have eq: "(r, evs', h') = (case resync_keepFrom (ph_recvBuf h1) of
         None \<Rightarrow> (rr_noData, evs1, ?h\<lparr>ph_recvFilled := 0\<rparr>)
       | Some n \<Rightarrow> (rr_noData, evs1, ?h\<lparr>ph_recvBuf := drop n (ph_recvBuf h1) @ drop (length (ph_recvBuf h1) - n) (ph_recvBuf h1),
                     ph_recvFilled := length (ph_recvBuf h1) - n\<rparr>))"
      using assms(2) rs(7,8) nomagic few
      by (simp add: ph_receivePacket_def header_block_def fill Let_def ph_countError_def split: option.splits)
    show ?thesis
    proof (cases "length g < 19")
      case True
      have tb: "take 19 ?W = g @ take (19 - length g) b"
        using True well_framed_length [OF wb] by (simp add: bs HEADER_SIZE_def CRC_SIZE_def)
      have "resync_keepFrom (ph_recvBuf h1) = Some (length g)"
        unfolding buf tb using True
        by (intro resync_at_frame [OF rs(5,4), of _ "take (19 - length g - 1) (magicLo # br)"])
          (auto simp: br take_Cons' split: if_splits)
      moreover have l19: "length (ph_recvBuf h1) = 19" using h1(2) rs(9) by (simp add: HEADER_SIZE_def)
      moreover have dg: "drop (length g) (ph_recvBuf h1) = take (19 - length g) b" unfolding buf tb by simp
      ultimately have h': "r = rr_noData" "evs' = evs1"
        "h' = ?h\<lparr>ph_recvBuf := take (19 - length g) b @ drop (19 - length g) (ph_recvBuf h1), ph_recvFilled := 19 - length g\<rparr>"
        using eq by simp_all
      have "tracks h' b (19 - length g) (Suc k)"
        using wb True rs(4,7-10) few(2) same h1(2) well_framed_length [OF wb] unfolding h'(3)
        by (simp add: tracks_def ph_countError_def held_def HEADER_SIZE_def CRC_SIZE_def)
      moreover have "wire_bytes evs' = drop (19 - length g) b @ concat bs'"
        using w c' True well_framed_length [OF wb] h'(2) by (simp add: bs HEADER_SIZE_def CRC_SIZE_def)
      ultimately have "due h' evs' bs (Suc k)" using rs(2) ben few(2) h'(2) by (auto simp: due_def bs)
      then show ?thesis using True h'(1,2) f(2) by auto
    next
      case False
      then have buf': "ph_recvBuf h1 = take 19 g" by (simp add: buf)
      have "resync_keepFrom (ph_recvBuf h1) = None"
        unfolding buf' using rs(4,5) by (intro resync_in_garbage) (auto dest: in_set_takeD)
      with eq have h': "r = rr_noData" "evs' = evs1" "h' = ?h\<lparr>ph_recvFilled := 0\<rparr>" by simp_all
      have idle: "idle h' (Suc k)" using rs(7-10) same h1(2) by (simp add: h'(3) idle_def ph_countError_def)
      have w': "wire_bytes evs' = drop 19 g @ concat bs" using w c' False h'(2) by simp
      show ?thesis
      proof (cases "length g = 19")
        case True
        then have "due h' evs' bs (Suc k)" using idle rs(2) ben few(2) h'(2) w' by (intro idle_due) simp_all
        then show ?thesis using True h'(1,2) f(2) by auto
      next
        case gt: False
        have "(length (drop 19 g) + 18) div 19 = (length g + 18) div 19 - 1" using False by simp
        then have "resyncing h' evs' (drop 19 g) bs (Suc k)"
          using idle rs(2,3,5,6) ben h'(2) w' False gt
          by (auto simp: resyncing_def idle_def held_def HEADER_SIZE_def dest: in_set_dropD intro!: exI [of _ 0])
        then show ?thesis using False gt h'(1,2) f(2) by auto
      qed
    qed
  qed
qed

lemma resyncing_wire: "resyncing h evs g bs k \<Longrightarrow> wire_bytes evs \<noteq> []"
proof -
  assume rs: "resyncing h evs g bs k"
  then obtain c where c: "c < HEADER_SIZE" "wire_bytes evs = drop c (g @ concat bs)"
    by (auto simp: resyncing_def held_def)
  obtain b bs' where "bs = b # bs'" "well_framed b" using rs by (cases bs) (auto simp: resyncing_def)
  then have "HEADER_SIZE < length (g @ concat bs)" using well_framed_length [of b] by (simp add: CRC_SIZE_def)
  with c(1) have "c < length (g @ concat bs)" by simp
  with c(2) show ?thesis by (simp only: drop_eq_Nil not_le not_False_eq_True)
qed

lemma pump_resync:
  assumes "resyncing h evs g bs k" "script_size evs \<le> length nows" "ph_pump nows evs h = (ps, evs', h')"
  shows "(ps, \<not> ph_closed h') = frames_ref (k + (length g + 18) div 19) bs"
  using assms
proof (induction nows arbitrary: h evs g k ps)
  case Nil
  then have "evs = []" by (cases evs) simp_all
  with resyncing_wire [OF Nil(1)] show ?case by simp
next
  case (Cons now nows)
  obtain r evs1 h1 where r: "ph_receivePacket now evs h = (r, evs1, h1)" by (cases "ph_receivePacket now evs h")
  from resyncing_step [OF Cons.prems(1) r] obtain d where none: "rr_packet r = None" and st: "script_step evs d evs1"
    and nxt: "resyncing h1 evs1 g bs k \<or> resyncing h1 evs1 (drop 19 g) bs (Suc k) \<and> 19 < length g \<or>
      due h1 evs1 bs (Suc k) \<and> length g \<le> 19" by blast
  have sz: "script_size evs1 \<le> length nows"
    using script_step_less [OF st resyncing_wire [OF Cons.prems(1)]] Cons.prems(2) by simp
  have p: "ph_pump nows evs1 h1 = (ps, evs', h')"
    using Cons.prems(3) r none by (simp split: prod.splits)
  from nxt consider "resyncing h1 evs1 g bs k" | "resyncing h1 evs1 (drop 19 g) bs (Suc k)" "19 < length g"
    | "due h1 evs1 bs (Suc k)" "length g \<le> 19" by blast
  then show ?case
  proof cases
    case 1
    then show ?thesis by (rule Cons.IH [OF _ sz p])
  next
    case 2
    have "Suc k + (length (drop 19 g) + 18) div 19 = k + (length g + 18) div 19" using 2(2) by simp
    then show ?thesis using Cons.IH [OF 2(1) sz p] by metis
  next
    case 3
    have "g \<noteq> []" using Cons.prems(1) by (simp add: resyncing_def)
    then have "1 \<le> length g" by (cases g) simp_all
    then have "(length g + 18) div 19 = 1" using 3(2) by (simp add: div_nat_eqI)
    then show ?thesis using pump_frames [OF 3(1) sz p] by simp
  qed
qed

section \<open>Senders\<close>

datatype ph_send_op = SendRxAudio u64 bytes | SendTxAudio u64 bytes | SendControl u64 control_message | SendHeartbeat u64

fun ph_send_step :: "int \<Rightarrow> ph_send_op \<Rightarrow> protocol_handler \<Rightarrow> bool \<times> bytes \<times> protocol_handler" where
  "ph_send_step now (SendRxAudio t d) h = ph_sendRxAudio None now t d 0 (length d) h"
| "ph_send_step now (SendTxAudio t d) h = ph_sendTxAudio None now t d h"
| "ph_send_step now (SendControl t m) h = ph_sendControl None now t m h"
| "ph_send_step now (SendHeartbeat t) h = ph_sendHeartbeat None now t h"

fun ph_send_run :: "(int \<times> ph_send_op) list \<Rightarrow> protocol_handler \<Rightarrow> bytes \<times> protocol_handler" where
  "ph_send_run [] h = ([], h)"
| "ph_send_run ((now, x) # ops) h =
     (let (ok, w, h) = ph_send_step now x h; (w', h) = ph_send_run ops h in (w @ w', h))"

fun sent_packet :: "u32 \<Rightarrow> ph_send_op \<Rightarrow> audio_packet" where
  "sent_packet s (SendRxAudio t d) = createRxAudio t s (take MAX_PAYLOAD d)"
| "sent_packet s (SendTxAudio t d) = createTxAudio t s (take MAX_PAYLOAD d)"
| "sent_packet s (SendControl t m) = createControl t s (take MAX_PAYLOAD (cm_serialize m))"
| "sent_packet s (SendHeartbeat t) = createHeartbeat t s"

fun sent_packets :: "u32 \<Rightarrow> ph_send_op list \<Rightarrow> audio_packet list" where
  "sent_packets s [] = []"
| "sent_packets s (x # xs) = sent_packet s x # sent_packets (s + 1) xs"

lemmas ph_send_defs = ph_sendRxAudio_def ph_sendTxAudio_def ph_sendControl_def ph_sendHeartbeat_def ph_sendPacket_def
  sendPacketLocked_def ph_nextSequence_def

lemma serialize_mk_clamp: "serialize (mk_packet t ty s d) = serialize (mk_packet t ty s (take MAX_PAYLOAD d))"
  using serialize_clamp [of "mk_packet t ty s d"] by (simp add: mk_packet_def)

lemma send_step_spec:
  assumes "\<not> ph_closed h" "ph_send_step now x h = (ok, w, h')"
  shows "ok \<and> w = serialize (sent_packet (ph_sequenceCounter h) x) \<and> \<not> ph_closed h' \<and>
    ph_sequenceCounter h' = ph_sequenceCounter h + 1"
  using assms serialize_mk_clamp
  by (cases x) (auto simp: ph_send_defs Let_def createRxAudio_def createTxAudio_def createControl_def createHeartbeat_def)

lemma send_run_wire:
  "\<not> ph_closed h \<Longrightarrow> fst (ph_send_run ops h) = concat (map serialize (sent_packets (ph_sequenceCounter h) (map snd ops)))"
proof (induction ops arbitrary: h)
  case (Cons e ops)
  obtain now x where e: "e = (now, x)" by (cases e)
  obtain ok w h' where st: "ph_send_step now x h = (ok, w, h')" by (cases "ph_send_step now x h")
  from Cons.IH [of h'] send_step_spec [OF Cons.prems st] st show ?case
    by (cases "ph_send_run ops h'") (simp add: e)
qed simp

lemma well_framed_serialize: "length (payload p) \<le> MAX_PAYLOAD \<Longrightarrow> well_framed (serialize p)"
  using frame_reads(1,7) [of p "be_bytes32 (crc32 (frame p))"]
  by (simp add: well_framed_def serialize_frame length_frame unat_payload_len CRC_SIZE_def)

lemma sent_packets_fit: "list_all (\<lambda>p. length (payload p) \<le> MAX_PAYLOAD) (sent_packets s xs)"
proof (induction xs arbitrary: s)
  case (Cons x xs)
  have "length (payload (sent_packet s x)) \<le> MAX_PAYLOAD"
    by (cases x) (simp_all add: createRxAudio_def createTxAudio_def createControl_def createHeartbeat_def mk_packet_def)
  with Cons show ?case by simp
qed simp

lemma frames_ref_serialize:
  "list_all (\<lambda>p. length (payload p) \<le> MAX_PAYLOAD) ps \<Longrightarrow> frames_ref k (map serialize ps) = (ps, True)"
proof (induction ps arbitrary: k)
  case (Cons p ps)
  then show ?case by (simp add: deserialize_serialize)
qed simp

section \<open>Properties\<close>

text \<open>
  C2: the TCP receive machine refines the frame-by-frame reference. Whatever way the bytes of a
  sequence of well-framed items are cut into reads, and wherever timeouts fall between them, enough
  receive calls (one per byte and per read outcome suffices) deliver exactly the decodable items, in
  order; corrupt, unknown and oversized items cost only themselves, and the connection is closed
  exactly when five of them come in a row.
\<close>

theorem tcp_framing_refines:
  assumes "list_all well_framed bs" and "list_all benign_event evs" and "wire_bytes evs = concat bs"
    and "script_size evs \<le> length nows" and "ph_pump nows evs (mk_protocol_handler t) = (ps, evs', h)"
  shows "(ps, \<not> ph_closed h) = frames_ref 0 bs"
  using idle_due [OF idle_fresh assms(1,2) _ assms(3)] pump_frames [OF _ assms(4,5)]
  by (simp add: MAX_CONSECUTIVE_CRC_ERRORS_def)

definition demo_frame :: bytes where "demo_frame = serialize (createHeartbeat 7 1)"

lemma demo_frame_facts: "well_framed demo_frame" "length demo_frame = 23" "deserialize demo_frame = Some (createHeartbeat 7 1)"
proof -
  have fit: "length (payload (createHeartbeat 7 1)) \<le> MAX_PAYLOAD" "take MAX_PAYLOAD (payload (createHeartbeat 7 1)) = payload (createHeartbeat 7 1)"
    by (simp_all add: createHeartbeat_def mk_packet_def)
  then show "well_framed demo_frame" by (simp add: demo_frame_def well_framed_serialize)
  show "length demo_frame = 23"
    by (simp add: demo_frame_def length_serialize packetSize_def createHeartbeat_def mk_packet_def packet_consts)
  show "deserialize demo_frame = Some (createHeartbeat 7 1)"
    using fit(2) by (simp add: demo_frame_def deserialize_serialize)
qed

theorem tcp_framing_refines_witness:
  "fst (ph_pump (replicate 60 0) [Io_bytes (take 5 demo_frame), Io_timedOut, Io_bytes (drop 5 demo_frame @ demo_frame)]
     (mk_protocol_handler 0)) = [createHeartbeat 7 1, createHeartbeat 7 1]"
proof -
  let ?evs = "[Io_bytes (take 5 demo_frame), Io_timedOut, Io_bytes (drop 5 demo_frame @ demo_frame)]"
  obtain ps evs' h where p: "ph_pump (replicate 60 0) ?evs (mk_protocol_handler 0) = (ps, evs', h)"
    by (cases "ph_pump (replicate 60 0) ?evs (mk_protocol_handler 0)")
  have "list_all benign_event ?evs" "wire_bytes ?evs = concat [demo_frame, demo_frame]" "script_size ?evs \<le> length (replicate 60 (0 :: int))"
    using demo_frame_facts(2) by (auto simp flip: append_assoc)
  from tcp_framing_refines [OF _ this p] have "(ps, \<not> ph_closed h) = frames_ref 0 [demo_frame, demo_frame]"
    by (simp add: demo_frame_facts)
  then show ?thesis using p by (simp add: demo_frame_facts)
qed

text \<open>
  C11: garbage on the stream costs no frame. When fewer than 77 bytes without the first magic byte
  precede a sequence of well-framed items, however the bytes are cut, the machine finds the first
  item and delivers what the reference delivers; the garbage only counts as one error per nineteen
  bytes towards the limit of five, including the case where the magic is split by the header window.
\<close>

theorem tcp_resync_loses_nothing:
  assumes "magicHi \<notin> set g" and "length g \<le> 76" and "bs \<noteq> []" and "list_all well_framed bs"
    and "list_all benign_event evs" and "wire_bytes evs = g @ concat bs" and "script_size evs \<le> length nows"
    and "ph_pump nows evs (mk_protocol_handler t) = (ps, evs', h)"
  shows "(ps, \<not> ph_closed h) = frames_ref ((length g + 18) div 19) bs"
proof (cases "g = []")
  case True
  then show ?thesis
    using idle_due [OF idle_fresh assms(4,5)] assms(6) pump_frames [OF _ assms(7,8)]
    by (simp add: MAX_CONSECUTIVE_CRC_ERRORS_def)
next
  case False
  have "(length g + 18) div 19 < MAX_CONSECUTIVE_CRC_ERRORS" using assms(2) by (simp add: MAX_CONSECUTIVE_CRC_ERRORS_def)
  then have "resyncing (mk_protocol_handler t) evs g bs 0"
    using assms(1,3-6) False
    by (auto simp: resyncing_def mk_protocol_handler_def held_def HEADER_SIZE_def intro!: exI [of _ 0])
  from pump_resync [OF this assms(7,8)] show ?thesis by simp
qed

theorem tcp_resync_loses_nothing_witness:
  "fst (ph_pump (replicate 60 0) [Io_bytes (replicate 20 0 @ take 3 demo_frame), Io_timedOut, Io_bytes (drop 3 demo_frame)]
     (mk_protocol_handler 0)) = [createHeartbeat 7 1]"
proof -
  let ?evs = "[Io_bytes (replicate 20 0 @ take 3 demo_frame), Io_timedOut, Io_bytes (drop 3 demo_frame)]"
  obtain ps evs' h where p: "ph_pump (replicate 60 0) ?evs (mk_protocol_handler 0) = (ps, evs', h)"
    by (cases "ph_pump (replicate 60 0) ?evs (mk_protocol_handler 0)")
  have "list_all benign_event ?evs" "wire_bytes ?evs = replicate 20 0 @ concat [demo_frame]"
    "script_size ?evs \<le> length (replicate 60 (0 :: int))" "magicHi \<notin> set (replicate 20 0)"
    using demo_frame_facts(2) by (auto simp: magicHi_def MAGIC_def)
  from tcp_resync_loses_nothing [OF this(4) _ _ _ this(1-3) p]
  have "(ps, \<not> ph_closed h) = frames_ref 2 [demo_frame]" by (simp add: demo_frame_facts)
  then show ?thesis using p by (simp add: demo_frame_facts)
qed

text \<open>
  C9: end to end over TCP. A fresh sender performs any sequence of sends; its bytes reach a fresh
  receiver in any chunks with any timeouts in between. The receiver delivers one packet per send, in
  order, of the right type, time stamp and payload (clamped to the wire limit), numbered 0, 1, 2 and
  so on modulo 2^32, and stays open.
\<close>

theorem tcp_end_to_end:
  assumes "wire_bytes evs = fst (ph_send_run ops (mk_protocol_handler t0))" and "list_all benign_event evs"
    and "script_size evs \<le> length nows" and "ph_pump nows evs (mk_protocol_handler t) = (ps, evs', h)"
  shows "ps = sent_packets 0 (map snd ops) \<and> \<not> ph_closed h"
proof -
  let ?qs = "sent_packets 0 (map snd ops)"
  have "\<not> ph_closed (mk_protocol_handler t0)" "ph_sequenceCounter (mk_protocol_handler t0) = 0"
    by (simp_all add: mk_protocol_handler_def)
  from send_run_wire [OF this(1)] this(2) assms(1) have "wire_bytes evs = concat (map serialize ?qs)" by simp
  moreover have "list_all well_framed (map serialize ?qs)"
    using sent_packets_fit [of 0 "map snd ops"] by (auto simp: list_all_iff well_framed_serialize)
  ultimately have "due (mk_protocol_handler t) evs (map serialize ?qs) 0"
    using assms(2) by (intro idle_due [OF idle_fresh]) (simp_all add: MAX_CONSECUTIVE_CRC_ERRORS_def)
  from pump_frames [OF this assms(3,4)] show ?thesis
    by (simp add: frames_ref_serialize [OF sent_packets_fit])
qed

theorem tcp_end_to_end_witness:
  "fst (ph_pump (replicate 24 0) [Io_bytes (fst (ph_send_run [(0, SendHeartbeat 9)] (mk_protocol_handler 0)))]
     (mk_protocol_handler 0)) = [createHeartbeat 9 0]"
proof -
  let ?w = "fst (ph_send_run [(0, SendHeartbeat 9)] (mk_protocol_handler 0))"
  obtain ps evs' h where p: "ph_pump (replicate 24 0) [Io_bytes ?w] (mk_protocol_handler 0) = (ps, evs', h)"
    by (cases "ph_pump (replicate 24 0) [Io_bytes ?w] (mk_protocol_handler 0)")
  have w: "?w = serialize (createHeartbeat 9 0)"
    using send_run_wire [of "mk_protocol_handler 0" "[(0, SendHeartbeat 9)]"] by (simp add: mk_protocol_handler_def)
  have "length ?w = 23"
    unfolding w by (simp add: length_serialize packetSize_def createHeartbeat_def mk_packet_def packet_consts)
  then have "script_size [Io_bytes ?w] \<le> length (replicate 24 (0 :: int))" "list_all benign_event [Io_bytes ?w]" by auto
  moreover have "wire_bytes [Io_bytes ?w] = fst (ph_send_run [(0, SendHeartbeat 9)] (mk_protocol_handler 0))"
    by (simp del: ph_send_run.simps)
  ultimately have "ps = [createHeartbeat 9 0]" using tcp_end_to_end [OF _ _ _ p] by fastforce
  then show ?thesis using p by (simp del: ph_send_run.simps)
qed

end
