(* ===== verification/Format_Conversion.thy ===== *)
theory Format_Conversion
  imports Prelude
begin

text \<open>
  Sample-rate and channel conversion: \<open>src/FormatConversion.cpp\<close>. Samples are \<open>int16_t\<close> values kept
  as integers (\<open>i16_ok\<close> is the range); the accumulator is an \<open>int64_t\<close> that is shown not to
  overflow. The decimator keeps its history in a ring indexed by the write position; the lemmas show
  that over any chunking of the input it computes the convolution the header documents, that a
  constant signal passes unchanged, and that every output is an \<open>int16_t\<close>.
\<close>

section \<open>Tap tables\<close>

definition kTapsM2 :: "int list" where
  "kTapsM2 =
    [0, 0, -1, 1, 4, -1, -9, -2, 18, 12, -27, -31, 33, 64, -28, -109, 0, 161, 61, -210, -165, 236,
     319, -211, -521, 101, 759, 140, -1013, -580, 1256, 1364, -1458, -3012, 1592, 10270, 14742,
     10270, 1592, -3012, -1458, 1364, 1256, -580, -1013, 140, 759, 101, -521, -211, 319, 236, -165,
     -210, 61, 161, 0, -109, -28, 64, 33, -31, -27, 12, 18, -2, -9, -1, 4, 1, -1, 0, 0]"

definition kTapsM3 :: "int list" where
  "kTapsM3 =
    [0, 0, 0, 0, 0, 1, 2, 1, -3, -6, -5, 3, 12, 13, 0, -18, -26, -10, 22, 44, 30, -18, -65, -63, 0,
     83, 110, 41, -87, -167, -110, 65, 224, 213, 0, -265, -347, -126, 267, 506, 332, -195, -675,
     -647, 0, 837, 1134, 430, -972, -2015, -1499, 1061, 4932, 8427, 9826, 8427, 4932, 1061, -1499,
     -2015, -972, 430, 1134, 837, 0, -647, -675, -195, 332, 506, 267, -126, -347, -265, 0, 213, 224,
     65, -110, -167, -87, 41, 110, 83, 0, -63, -65, -18, 30, 44, 22, -10, -26, -18, 0, 13, 12, 3, -5,
     -6, -3, 1, 2, 1, 0, 0, 0, 0, 0]"

definition kTapsM4 :: "int list" where
  "kTapsM4 =
    [0, 0, 0, 0, 0, 0, 0, 1, 2, 1, 0, -3, -5, -4, -1, 4, 9, 10, 6, -3, -14, -19, -16, -2, 17, 31, 32,
     15, -14, -42, -54, -40, 0, 48, 81, 77, 30, -41, -105, -125, -83, 12, 118, 181, 160, 50, -106,
     -233, -260, -155, 50, 266, 379, 313, 70, -255, -506, -538, -290, 164, 628, 860, 682, 85, -729,
     -1394, -1506, -783, 796, 2944, 5135, 6769, 7368, 6769, 5135, 2944, 796, -783, -1506, -1394,
     -729, 85, 682, 860, 628, 164, -290, -538, -506, -255, 70, 313, 379, 266, 50, -155, -260, -233,
     -106, 50, 160, 181, 118, 12, -83, -125, -105, -41, 30, 77, 81, 48, 0, -40, -54, -42, -14, 15,
     32, 31, 17, -2, -16, -19, -14, -3, 6, 10, 9, 4, -1, -4, -5, -3, 0, 1, 2, 1, 0, 0, 0, 0, 0, 0, 0]"

definition kTapsM6 :: "int list" where
  "kTapsM6 =
    [0, 0, 0, 0, 0, 0, 0, 0, 0, 0, 1, 1, 1, 1, 1, 0, -1, -2, -3, -3, -2, -1, 2, 4, 6, 7, 6, 4, 0, -5,
     -9, -12, -13, -10, -5, 3, 11, 18, 22, 21, 15, 4, -9, -23, -33, -36, -32, -19, 0, 22, 41, 54, 55,
     44, 20, -11, -44, -70, -83, -79, -55, -16, 32, 79, 112, 123, 106, 63, 0, -70, -132, -171, -174,
     -136, -63, 34, 133, 213, 253, 238, 166, 47, -98, -237, -338, -372, -324, -193, 0, 220, 419, 548,
     567, 455, 215, -118, -486, -810, -1007, -1004, -749, -229, 531, 1462, 2466, 3423, 4213, 4734,
     4910, 4734, 4213, 3423, 2466, 1462, 531, -229, -749, -1004, -1007, -810, -486, -118, 215, 455,
     567, 548, 419, 220, 0, -193, -324, -372, -338, -237, -98, 47, 166, 238, 253, 213, 133, 34, -63,
     -136, -174, -171, -132, -70, 0, 63, 106, 123, 112, 79, 32, -16, -55, -79, -83, -70, -44, -11,
     20, 44, 55, 54, 41, 22, 0, -19, -32, -36, -33, -23, -9, 4, 15, 21, 22, 18, 11, 3, -5, -10, -13,
     -12, -9, -5, 0, 4, 6, 7, 6, 4, 2, -1, -2, -3, -3, -2, -1, 0, 1, 1, 1, 1, 1, 0, 0, 0, 0, 0, 0, 0,
     0, 0, 0]"

definition findTable :: "int \<Rightarrow> int list option" where
  "findTable factor = map_of [(2, kTapsM2), (3, kTapsM3), (4, kTapsM4), (6, kTapsM6)] factor"

definition saturate :: "int \<Rightarrow> int" where
  "saturate acc = (let y = drop_bit 15 (acc + 16384)
     in if y > 32767 then 32767 else if y < - 32768 then - 32768 else y)"

section \<open>The decimator\<close>

definition MAX_FACTOR :: nat where "MAX_FACTOR = 6"

record decimator =
  dc_factor :: int
  dc_channels :: int
  dc_taps :: "int list"
  dc_phase :: nat
  dc_writePos :: nat
  dc_history :: "int list"

definition supportsFactor :: "int \<Rightarrow> bool" where
  "supportsFactor factor \<longleftrightarrow> factor = 1 \<or> findTable factor \<noteq> None"

definition mk_decimator :: "int \<Rightarrow> int \<Rightarrow> cpp_exn + decimator" where
  "mk_decimator factor channels =
     (if \<not> supportsFactor factor then Inl (Invalid_argument ''Decimator: unsupported factor'')
      else if channels \<noteq> 1 \<and> channels \<noteq> 2 then Inl (Invalid_argument ''Decimator: channels must be 1 or 2'')
      else Inr \<lparr>dc_factor = factor, dc_channels = channels,
                dc_taps = (case findTable factor of Some t \<Rightarrow> if factor \<noteq> 1 then t else [] | None \<Rightarrow> []),
                dc_phase = 0, dc_writePos = 0, dc_history = replicate (2 * (36 * MAX_FACTOR + 1)) 0\<rparr>)"

definition outputFramesFor :: "nat \<Rightarrow> decimator \<Rightarrow> nat" where
  "outputFramesFor frames d = (dc_phase d + frames) div nat (dc_factor d)"

text \<open>Push input frame \<open>f\<close> into the ring; the multiply-accumulate of one output sample.\<close>

definition push_frame :: "int list \<Rightarrow> nat \<Rightarrow> decimator \<Rightarrow> decimator" where
  "push_frame inp f d =
     (let ch = nat (dc_channels d); n = length (dc_taps d)
      in d\<lparr>dc_history := fold (\<lambda>c h. h[dc_writePos d * ch + c := inp ! (f * ch + c)]) [0..<ch] (dc_history d),
           dc_writePos := (dc_writePos d + 1) mod n\<rparr>)"

definition fir :: "decimator \<Rightarrow> nat \<Rightarrow> int" where
  "fir d c =
     (let ch = nat (dc_channels d); n = length (dc_taps d)
      in fst (fold (\<lambda>k (acc, pos). (acc + dc_taps d ! k * dc_history d ! (pos * ch + c), (pos + n - 1) mod n))
                [0..<n] (0, (dc_writePos d + n - 1) mod n)))"

text \<open>One turn of the loop over the input frames; \<open>out\<close> is what has been written so far.\<close>

definition process_frame :: "int list \<Rightarrow> nat \<Rightarrow> decimator \<times> int list \<Rightarrow> decimator \<times> int list" where
  "process_frame inp f s =
     (let (d, out) = s; d = push_frame inp f d; d = d\<lparr>dc_phase := dc_phase d + 1\<rparr>
      in if dc_phase d < nat (dc_factor d) then (d, out)
         else let d = d\<lparr>dc_phase := 0\<rparr>
           in (d, out @ map (\<lambda>c. saturate (fir d c)) [0..<nat (dc_channels d)]))"

definition dc_process :: "int list \<Rightarrow> nat \<Rightarrow> decimator \<Rightarrow> decimator \<times> int list" where
  "dc_process inp frames d =
     (if frames = 0 then (d, [])
      else if dc_factor d = 1 then (d, take (frames * nat (dc_channels d)) inp)
      else fold (process_frame inp) [0..<frames] (d, []))"

definition dc_reset :: "decimator \<Rightarrow> decimator" where
  "dc_reset d = d\<lparr>dc_phase := 0, dc_writePos := 0, dc_history := replicate (length (dc_history d)) 0\<rparr>"

section \<open>Channel layouts\<close>

definition downmixToMono :: "int list \<Rightarrow> nat \<Rightarrow> int list" where
  "downmixToMono stereo frames =
     map (\<lambda>i. let l = stereo ! (2 * i); r = stereo ! (2 * i + 1) in drop_bit 1 (l + r)) [0..<frames]"

definition selectChannel :: "int list \<Rightarrow> nat \<Rightarrow> nat \<Rightarrow> nat \<Rightarrow> int list" where
  "selectChannel interleaved frames channels channel =
     map (\<lambda>i. interleaved ! (i * channels + channel)) [0..<frames]"

section \<open>The documented filter\<close>

text \<open>
  Output frame \<open>j\<close> of channel \<open>c\<close> is the saturated sum of \<open>h[k] * x[i-k]\<close> with \<open>i = j*M + (M-1)\<close>
  and \<open>x[<0] = 0\<close>.
\<close>

definition tap_input :: "int list \<Rightarrow> nat \<Rightarrow> nat \<Rightarrow> nat \<Rightarrow> nat \<Rightarrow> int" where
  "tap_input xs ch c i k = (if k \<le> i then xs ! ((i - k) * ch + c) else 0)"

definition filter_ref :: "int list \<Rightarrow> int list \<Rightarrow> nat \<Rightarrow> nat \<Rightarrow> nat \<Rightarrow> int" where
  "filter_ref h xs ch c i = saturate (\<Sum>k<length h. h ! k * tap_input xs ch c i k)"

definition decimate_ref :: "nat \<Rightarrow> nat \<Rightarrow> int list \<Rightarrow> int list \<Rightarrow> int list" where
  "decimate_ref M ch h xs =
     concat (map (\<lambda>j. map (\<lambda>c. filter_ref h xs ch c (j * M + (M - 1))) [0..<ch]) [0..<length xs div ch div M])"

text \<open>The ring holds the last \<open>n\<close> frames: \<open>k\<close> steps back from the write position is \<open>x[F-1-k]\<close>.\<close>

definition dec_inv :: "decimator \<Rightarrow> int list \<Rightarrow> nat \<Rightarrow> bool" where
  "dec_inv d xs F \<longleftrightarrow> (let ch = nat (dc_channels d); n = length (dc_taps d); M = nat (dc_factor d) in
     0 < ch \<and> 0 < n \<and> 1 < M \<and> n * ch \<le> length (dc_history d) \<and> length xs = F * ch \<and>
     dc_phase d = F mod M \<and> dc_writePos d = F mod n \<and>
     (\<forall>k<n. \<forall>c<ch. dc_history d ! ((F + n - 1 - k) mod n * ch + c) = (if k < F then xs ! ((F - 1 - k) * ch + c) else 0)))"

lemma fold_update_range:
  assumes "i < length h"
  shows "fold (\<lambda>c h. h[base + c := f c]) [0..<m] h ! i =
     (if base \<le> i \<and> i < base + m then f (i - base) else h ! i) \<and>
   length (fold (\<lambda>c h. h[base + c := f c]) [0..<m] h) = length h"
proof (induction m)
  case (Suc m)
  then show ?case using assms by (cases "i = base + m") auto
qed auto

lemma index_eq_iff: "c < (ch :: nat) \<Longrightarrow> c' < ch \<Longrightarrow> p * ch + c = q * ch + c' \<longleftrightarrow> p = q \<and> c = c'"
proof
  assume a: "c < ch" "c' < ch" "p * ch + c = q * ch + c'"
  have "(p * ch + c) div ch = p" "(q * ch + c') div ch = q" using a(1,2) by simp_all
  with a show "p = q \<and> c = c'" by simp
qed simp

lemma index_lt: "p < n \<Longrightarrow> c < (ch :: nat) \<Longrightarrow> p * ch + c < n * ch"
proof -
  assume "p < n" "c < ch"
  then have "p * ch + c < Suc p * ch" by simp
  also have "\<dots> \<le> n * ch" using \<open>p < n\<close> by (intro mult_le_mono1) simp
  finally show ?thesis .
qed

lemma ring_back_neq:
  assumes "0 < k" "k < (n :: nat)"
  shows "(F + n - k) mod n \<noteq> F mod n"
proof
  assume "(F + n - k) mod n = F mod n"
  then have "n dvd n - k" using assms mod_eq_dvd_iff_nat [of F "F + n - k" n] by simp
  then show False using assms by (auto dest: dvd_imp_le)
qed

lemma push_frame_history:
  assumes inv: "dec_inv d xs F" and ch: "ch = nat (dc_channels d)" and n: "n = length (dc_taps d)"
    and fr: "length fr = ch" "\<And>c. c < ch \<Longrightarrow> inp ! (f * ch + c) = fr ! c" and k: "k < n" "c < ch"
  shows "dc_history (push_frame inp f d) ! ((Suc F + n - 1 - k) mod n * ch + c) =
    (if k < Suc F then (xs @ fr) ! ((Suc F - 1 - k) * ch + c) else 0)"
proof -
  let ?w = "F mod n" and ?p = "(Suc F + n - 1 - k) mod n"
  have i: "0 < n" "n * ch \<le> length (dc_history d)" "length xs = F * ch" "dc_writePos d = ?w"
    and old: "\<And>k c. k < n \<Longrightarrow> c < ch \<Longrightarrow> dc_history d ! ((F + n - 1 - k) mod n * ch + c) =
      (if k < F then xs ! ((F - 1 - k) * ch + c) else 0)"
    using inv by (simp_all add: dec_inv_def Let_def ch n)
  have pos: "?p * ch + c < length (dc_history d)"
    using index_lt [of ?p n c ch] i(1,2) k(2) by simp
  have h: "dc_history (push_frame inp f d) ! (?p * ch + c) =
      (if ?w * ch \<le> ?p * ch + c \<and> ?p * ch + c < ?w * ch + ch then inp ! (f * ch + (?p * ch + c - ?w * ch)) else dc_history d ! (?p * ch + c))"
    using fold_update_range [OF pos, of "?w * ch" "\<lambda>c. inp ! (f * ch + c)" ch] i(4)
    by (simp add: push_frame_def Let_def ch [symmetric] n [symmetric])
  have hit: "?w * ch \<le> ?p * ch + c \<and> ?p * ch + c < ?w * ch + ch \<longleftrightarrow> ?p = ?w"
  proof
    assume a: "?w * ch \<le> ?p * ch + c \<and> ?p * ch + c < ?w * ch + ch"
    then have "?p * ch + c = ?w * ch + (?p * ch + c - ?w * ch)" "?p * ch + c - ?w * ch < ch" by auto
    then show "?p = ?w" using index_eq_iff [OF k(2)] by blast
  qed (use k(2) in simp)
  show ?thesis
  proof (cases k)
    case 0
    then have "?p = ?w" by simp
    then show ?thesis unfolding h using hit fr k(2) i(3) 0 by (simp add: nth_append)
  next
    case (Suc k')
    have pp: "Suc F + n - 1 - k = F + n - 1 - k'" using Suc by simp
    have "?p \<noteq> ?w" using ring_back_neq [of k n F] Suc k(1) by simp
    then have "dc_history (push_frame inp f d) ! (?p * ch + c) = dc_history d ! ((F + n - 1 - k') mod n * ch + c)"
      unfolding h hit by (simp only: pp if_False)
    also have "\<dots> = (if k' < F then xs ! ((F - 1 - k') * ch + c) else 0)" using old [of k' c] Suc k by simp
    also have "\<dots> = (if k < Suc F then (xs @ fr) ! ((Suc F - 1 - k) * ch + c) else 0)"
      using index_lt [of "F - Suc k'" F c ch] k(2) i(3) Suc by (auto simp: nth_append)
    finally show ?thesis .
  qed
qed

lemma fir_convolution:
  assumes inv: "dec_inv d xs F" and F: "0 < F" and c: "c < nat (dc_channels d)"
  shows "saturate (fir d c) = filter_ref (dc_taps d) xs (nat (dc_channels d)) c (F - 1)"
proof -
  let ?ch = "nat (dc_channels d)" and ?n = "length (dc_taps d)" and ?h = "dc_taps d" and ?g = "dc_history d"
  have n: "0 < ?n" and w: "dc_writePos d = F mod ?n"
    and ring: "\<And>k. k < ?n \<Longrightarrow> ?g ! ((F + ?n - 1 - k) mod ?n * ?ch + c) = tap_input xs ?ch c (F - 1) k"
    using inv c F by (auto simp: dec_inv_def Let_def tap_input_def)
  let ?step = "\<lambda>k (acc, pos). (acc + ?h ! k * ?g ! (pos * ?ch + c), (pos + ?n - 1) mod ?n)"
  have "fst (fold ?step [0..<m] (0, (F mod ?n + ?n - 1) mod ?n)) = (\<Sum>k<m. ?h ! k * tap_input xs ?ch c (F - 1) k) \<and>
      (m < ?n \<longrightarrow> snd (fold ?step [0..<m] (0, (F mod ?n + ?n - 1) mod ?n)) = (F + ?n - 1 - m) mod ?n)" if "m \<le> ?n" for m
    using that
  proof (induction m)
    case 0
    have "(F mod ?n + ?n - 1) mod ?n = (F mod ?n + (?n - 1)) mod ?n" by (metis Nat.add_diff_assoc Suc_leI One_nat_def n)
    also have "\<dots> = (F + (?n - 1)) mod ?n" by (rule mod_add_left_eq)
    also have "F + (?n - 1) = F + ?n - 1" using n by (metis Nat.add_diff_assoc Suc_leI One_nat_def)
    finally show ?case by simp
  next
    case (Suc m)
    define s where "s = fold ?step [0..<m] (0, (F mod ?n + ?n - 1) mod ?n)"
    obtain acc pos where s: "s = (acc, pos)" by (cases s)
    from Suc(1) Suc(2) have ih: "acc = (\<Sum>k<m. ?h ! k * tap_input xs ?ch c (F - 1) k)" "pos = (F + ?n - 1 - m) mod ?n"
      using s [unfolded s_def] by (auto dest: Suc_leD)
    have eq: "fold ?step [0..<Suc m] (0, (F mod ?n + ?n - 1) mod ?n) = (acc + ?h ! m * ?g ! (pos * ?ch + c), (pos + ?n - 1) mod ?n)"
      using s by (simp add: s_def)
    have nxt: "(pos + ?n - 1) mod ?n = (F + ?n - 1 - Suc m) mod ?n" if "Suc m < ?n"
    proof -
      have "(pos + ?n - 1) mod ?n = ((F + ?n - 1 - m) mod ?n + (?n - 1)) mod ?n" by (metis Nat.add_diff_assoc Suc_leI One_nat_def n ih(2))
      also have "\<dots> = ((F + ?n - 1 - m) + (?n - 1)) mod ?n" by (simp add: mod_add_left_eq)
      also have "(F + ?n - 1 - m) + (?n - 1) = (F + ?n - 1 - Suc m) + ?n" using that F by simp
      finally show ?thesis by simp
    qed
    show ?case unfolding eq using ih(1) nxt ring [of m] Suc.prems by (simp add: ih(2))
  qed
  from this [of ?n] have "fir d c = (\<Sum>k<?n. ?h ! k * tap_input xs ?ch c (F - 1) k)"
    by (simp add: fir_def Let_def w)
  then show ?thesis by (simp add: filter_ref_def)
qed

lemma filter_ref_append:
  "i * ch + ch \<le> length xs \<Longrightarrow> c < ch \<Longrightarrow> filter_ref h (xs @ ys) ch c i = filter_ref h xs ch c i"
proof -
  assume a: "i * ch + ch \<le> length xs" "c < ch"
  have "(i - k) * ch + c < length xs" for k
  proof -
    have "(i - k) * ch \<le> i * ch" by simp
    then show ?thesis using a by linarith
  qed
  then have "tap_input (xs @ ys) ch c i k = tap_input xs ch c i k" for k
    by (simp only: tap_input_def nth_append if_True)
  then show ?thesis by (simp add: filter_ref_def)
qed

lemma push_frame_keeps [simp]:
  "dc_factor (push_frame inp f d) = dc_factor d" "dc_channels (push_frame inp f d) = dc_channels d"
  "dc_taps (push_frame inp f d) = dc_taps d" "dc_phase (push_frame inp f d) = dc_phase d"
  "dc_writePos (push_frame inp f d) = (dc_writePos d + 1) mod length (dc_taps d)"
  "length (dc_history (push_frame inp f d)) = length (dc_history d)"
proof -
  have len: "length (fold (\<lambda>c h. h[b + c := g c]) cs h) = length h" for b g cs and h :: "int list"
    by (induction cs arbitrary: h) simp_all
  show "length (dc_history (push_frame inp f d)) = length (dc_history d)"
    by (simp add: push_frame_def Let_def len)
qed (simp_all add: push_frame_def Let_def)

lemma process_frame_spec:
  assumes inv: "dec_inv d xs F" and ch: "ch = nat (dc_channels d)" and M: "M = nat (dc_factor d)"
    and fr: "length fr = ch" "\<And>c. c < ch \<Longrightarrow> inp ! (f * ch + c) = fr ! c"
    and st: "process_frame inp f (d, out) = (d', out')"
  shows "dec_inv d' (xs @ fr) (Suc F) \<and> dc_channels d' = dc_channels d \<and> dc_factor d' = dc_factor d \<and> dc_taps d' = dc_taps d \<and>
    out' = out @ (if Suc F mod M = 0 then map (\<lambda>c. filter_ref (dc_taps d) (xs @ fr) ch c F) [0..<ch] else [])"
proof -
  let ?d = "(push_frame inp f d)\<lparr>dc_phase := Suc F mod M\<rparr>"
  have M1: "1 < M" and ph: "dc_phase d = F mod M" and w: "dc_writePos d = F mod length (dc_taps d)" and len: "length xs = F * ch"
    using inv by (simp_all add: dec_inv_def Let_def ch M)
  have inv': "dec_inv ?d (xs @ fr) (Suc F)"
    using inv push_frame_history [OF inv ch refl fr] fr(1)
    by (simp add: dec_inv_def Let_def ch [symmetric] M [symmetric] w mod_Suc_eq)
  have out: "map (\<lambda>c. saturate (fir ?d c)) [0..<ch] = map (\<lambda>c. filter_ref (dc_taps d) (xs @ fr) ch c F) [0..<ch]"
    using fir_convolution [OF inv'] by (simp add: ch)
  have "Suc F mod M = (if Suc (F mod M) = M then 0 else Suc (F mod M))" by (simp add: mod_Suc)
  moreover have "Suc (F mod M) \<noteq> M \<Longrightarrow> Suc (F mod M) < M" using mod_less_divisor [of M F] M1 by linarith
  ultimately have "(d', out') = (?d, out @ (if Suc F mod M = 0 then map (\<lambda>c. saturate (fir ?d c)) [0..<ch] else []))"
    using st M1 by (auto simp: process_frame_def Let_def ph M [symmetric] ch [symmetric] split: if_splits)
  then have eq: "d' = ?d" "out' = out @ (if Suc F mod M = 0 then map (\<lambda>c. filter_ref (dc_taps d) (xs @ fr) ch c F) [0..<ch] else [])"
    unfolding out by simp_all
  show ?thesis unfolding eq using inv' by simp
qed

lemma decimate_ref_snoc:
  assumes "length xs = F * ch" "length fr = ch" "0 < ch" "1 < M"
  shows "decimate_ref M ch h (xs @ fr) =
    decimate_ref M ch h xs @ (if Suc F mod M = 0 then map (\<lambda>c. filter_ref h (xs @ fr) ch c F) [0..<ch] else [])"
proof -
  let ?o = "\<lambda>ys j. map (\<lambda>c. filter_ref h ys ch c (j * M + (M - 1))) [0..<ch]"
  have nf: "length (xs @ fr) div ch = Suc F" "length xs div ch = F" using assms by simp_all
  have same: "?o (xs @ fr) j = ?o xs j" if "j < F div M" for j
  proof -
    have "Suc j * M \<le> F" using that by (metis Suc_leI div_times_less_eq_dividend mult_le_mono1 le_trans)
    then have "Suc (j * M + (M - 1)) * ch \<le> F * ch" using assms(4) by (intro mult_le_mono1) simp
    then have "(j * M + (M - 1)) * ch + ch \<le> length xs" by (simp add: assms(1))
    then show ?thesis by (simp add: filter_ref_append)
  qed
  have "concat (map (?o (xs @ fr)) [0..<F div M]) = concat (map (?o xs) [0..<F div M])"
    using same by (intro arg_cong [of _ _ concat] map_cong) simp_all
  moreover have "[0..<Suc F div M] = [0..<F div M] @ (if Suc F mod M = 0 then [F div M] else [])"
    by (simp add: div_Suc)
  moreover have "F div M * M + (M - 1) = F" if "Suc F mod M = 0"
  proof -
    have "F mod M = M - 1" using that assms(4) by (simp add: mod_Suc split: if_splits)
    then show ?thesis using div_mult_mod_eq [of F M] by simp
  qed
  ultimately show ?thesis unfolding decimate_ref_def nf by simp
qed

lemma process_spec:
  assumes inv: "dec_inv d xs F" and ch: "ch = nat (dc_channels d)" and M: "M = nat (dc_factor d)"
    and len: "length inp = frames * ch" and st: "dc_process inp frames d = (d', out)"
  shows "dec_inv d' (xs @ inp) (F + frames) \<and> dc_channels d' = dc_channels d \<and> dc_factor d' = dc_factor d \<and>
    dc_taps d' = dc_taps d \<and> decimate_ref M ch (dc_taps d) (xs @ inp) = decimate_ref M ch (dc_taps d) xs @ out"
proof -
  have pos: "0 < ch" "1 < M" "length xs = F * ch" "dc_factor d \<noteq> 1" using inv by (auto simp: dec_inv_def Let_def ch M)
  have "\<exists>d2 out2. fold (process_frame inp) [0..<m] (d, []) = (d2, out2) \<and> dec_inv d2 (xs @ take (m * ch) inp) (F + m) \<and>
      dc_channels d2 = dc_channels d \<and> dc_factor d2 = dc_factor d \<and> dc_taps d2 = dc_taps d \<and>
      decimate_ref M ch (dc_taps d) (xs @ take (m * ch) inp) = decimate_ref M ch (dc_taps d) xs @ out2" if "m \<le> frames" for m
    using that
  proof (induction m)
    case 0
    then show ?case using inv by simp
  next
    case (Suc m)
    then obtain d2 out2 where ih: "fold (process_frame inp) [0..<m] (d, []) = (d2, out2)"
      "dec_inv d2 (xs @ take (m * ch) inp) (F + m)"
      "dc_channels d2 = dc_channels d" "dc_factor d2 = dc_factor d" "dc_taps d2 = dc_taps d"
      "decimate_ref M ch (dc_taps d) (xs @ take (m * ch) inp) = decimate_ref M ch (dc_taps d) xs @ out2" by auto
    let ?fr = "take ch (drop (m * ch) inp)" and ?xs = "xs @ take (m * ch) inp"
    have "Suc m * ch \<le> length inp" using Suc.prems len by (simp only: mult_le_mono1)
    then have fr: "length ?fr = ch" "\<And>c. c < ch \<Longrightarrow> inp ! (m * ch + c) = ?fr ! c" "length ?xs = (F + m) * ch"
      using pos(3) by (simp_all add: add_mult_distrib)
    obtain d3 out3 where pf: "process_frame inp m (d2, out2) = (d3, out3)" by (cases "process_frame inp m (d2, out2)")
    have app: "?xs @ ?fr = xs @ take (Suc m * ch) inp" 
      using take_add [of "m * ch" ch inp] by (simp add: add.commute)
    from process_frame_spec [OF ih(2) _ _ fr(1,2) pf, of M] ih(3-5) ch M
    have sp: "dec_inv d3 (?xs @ ?fr) (Suc (F + m))" "dc_channels d3 = dc_channels d" "dc_factor d3 = dc_factor d" "dc_taps d3 = dc_taps d"
      "out3 = out2 @ (if Suc (F + m) mod M = 0 then map (\<lambda>c. filter_ref (dc_taps d) (?xs @ ?fr) ch c (F + m)) [0..<ch] else [])"
      by simp_all
    have "decimate_ref M ch (dc_taps d) (?xs @ ?fr) = decimate_ref M ch (dc_taps d) xs @ out3"
      unfolding decimate_ref_snoc [OF fr(3,1) pos(1,2)] ih(6) sp(5) by simp
    from this [unfolded app] sp(1) [unfolded app] ih(1) pf sp(2-4) show ?case by auto
  qed
  from this [of frames] obtain d2 out2 where fin: "fold (process_frame inp) [0..<frames] (d, []) = (d2, out2)"
    "dec_inv d2 (xs @ take (frames * ch) inp) (F + frames)" "dc_channels d2 = dc_channels d" "dc_factor d2 = dc_factor d"
    "dc_taps d2 = dc_taps d"
    "decimate_ref M ch (dc_taps d) (xs @ take (frames * ch) inp) = decimate_ref M ch (dc_taps d) xs @ out2" by blast
  have "dc_process inp frames d = fold (process_frame inp) [0..<frames] (d, [])"
    using pos(4) by (simp add: dc_process_def)
  with fin(1) st have "d' = d2" "out = out2" by simp_all
  moreover have "take (frames * ch) inp = inp" using len by simp
  ultimately show ?thesis using fin(2-6) by simp
qed

lemma outputFramesFor_process:
  assumes inv: "dec_inv d xs F" and len: "length inp = frames * nat (dc_channels d)" and st: "dc_process inp frames d = (d', out)"
  shows "length out = outputFramesFor frames d * nat (dc_channels d)"
proof -
  let ?ch = "nat (dc_channels d)" and ?M = "nat (dc_factor d)"
  have l: "length (decimate_ref ?M ?ch (dc_taps d) ys) = length ys div ?ch div ?M * ?ch" for ys
    by (simp add: decimate_ref_def length_concat comp_def sum_list_triv)
  have pos: "0 < ?ch" "1 < ?M" "length xs = F * ?ch" "dc_phase d = F mod ?M" using inv by (auto simp: dec_inv_def Let_def)
  have "decimate_ref ?M ?ch (dc_taps d) (xs @ inp) = decimate_ref ?M ?ch (dc_taps d) xs @ out"
    using process_spec [OF inv refl refl len st] by simp
  from arg_cong [OF this, of length] have "(F + frames) div ?M * ?ch = F div ?M * ?ch + length out"
    using pos len by (simp only: l length_append) (simp add: div_mult_self1 flip: add_mult_distrib)
  moreover have "(F + frames) div ?M = F div ?M + (F mod ?M + frames) div ?M"
  proof -
    have "F + frames = F mod ?M + frames + F div ?M * ?M" using div_mult_mod_eq [of F ?M] by linarith
    then show ?thesis using pos(2) div_mult_self1 [of ?M "F mod ?M + frames" "F div ?M"] by simp
  qed
  ultimately show ?thesis by (simp add: outputFramesFor_def pos(4) add_mult_distrib)
qed

text \<open>A caller that feeds its input in chunks of whole frames: the output, and the decimator afterwards.\<close>

fun dc_run :: "int list list \<Rightarrow> decimator \<Rightarrow> int list" where
  "dc_run [] d = []"
| "dc_run (inp # rest) d =
     (let (d, out) = dc_process inp (length inp div nat (dc_channels d)) d in out @ dc_run rest d)"

fun dc_after :: "int list list \<Rightarrow> decimator \<Rightarrow> decimator" where
  "dc_after [] d = d"
| "dc_after (inp # rest) d = dc_after rest (fst (dc_process inp (length inp div nat (dc_channels d)) d))"

lemma dc_after_inv:
  assumes "dec_inv d xs F" "\<forall>inp \<in> set chunks. nat (dc_channels d) dvd length inp"
  shows "\<exists>G. dec_inv (dc_after chunks d) (xs @ concat chunks) G \<and> dc_channels (dc_after chunks d) = dc_channels d"
  using assms
proof (induction chunks arbitrary: d xs F)
  case (Cons inp rest)
  obtain d' out where st: "dc_process inp (length inp div nat (dc_channels d)) d = (d', out)" by fastforce
  have "length inp = length inp div nat (dc_channels d) * nat (dc_channels d)" using Cons.prems(2) by simp
  from process_spec [OF Cons.prems(1) refl refl this st]
  have sp: "dec_inv d' (xs @ inp) (F + length inp div nat (dc_channels d))" "dc_channels d' = dc_channels d" by simp_all
  from Cons.IH [OF sp(1)] Cons.prems(2) sp(2) st show ?case by simp
qed auto

lemma dc_after_identity: "dc_factor d = 1 \<Longrightarrow> dc_after chunks d = d"
  by (induction chunks) (simp_all add: dc_process_def)

lemma dc_run_spec:
  assumes "dec_inv d xs F" "\<forall>inp \<in> set chunks. nat (dc_channels d) dvd length inp"
  shows "decimate_ref (nat (dc_factor d)) (nat (dc_channels d)) (dc_taps d) (xs @ concat chunks) =
    decimate_ref (nat (dc_factor d)) (nat (dc_channels d)) (dc_taps d) xs @ dc_run chunks d"
  using assms
proof (induction chunks arbitrary: d xs F)
  case (Cons inp rest)
  obtain d' out where st: "dc_process inp (length inp div nat (dc_channels d)) d = (d', out)" by fastforce
  have "length inp = length inp div nat (dc_channels d) * nat (dc_channels d)" using Cons.prems(2) by simp
  from process_spec [OF Cons.prems(1) refl refl this st]
  have sp: "dec_inv d' (xs @ inp) (F + length inp div nat (dc_channels d))" "dc_channels d' = dc_channels d"
    "dc_factor d' = dc_factor d" "dc_taps d' = dc_taps d"
    "decimate_ref (nat (dc_factor d)) (nat (dc_channels d)) (dc_taps d) (xs @ inp) =
      decimate_ref (nat (dc_factor d)) (nat (dc_channels d)) (dc_taps d) xs @ out" by simp_all
  from Cons.IH [OF sp(1)] Cons.prems(2) sp(2-5) st show ?case by simp
qed simp

lemma findTable_cases:
  assumes "findTable f = Some t"
  obtains "f = 2" "t = kTapsM2" | "f = 3" "t = kTapsM3" | "f = 4" "t = kTapsM4" | "f = 6" "t = kTapsM6"
  using assms by (auto simp: findTable_def split: if_splits)

lemma length_taps: "length kTapsM2 = 73" "length kTapsM3 = 109" "length kTapsM4 = 145" "length kTapsM6 = 217"
  by (simp_all add: kTapsM2_def kTapsM3_def kTapsM4_def kTapsM6_def)

lemma sum_taps: "sum_list kTapsM2 = 32768" "sum_list kTapsM3 = 32768" "sum_list kTapsM4 = 32768" "sum_list kTapsM6 = 32768"
  by (simp_all add: kTapsM2_def kTapsM3_def kTapsM4_def kTapsM6_def)

lemma sum_abs_taps:
  "sum_list (map abs kTapsM2) < 65536" "sum_list (map abs kTapsM3) < 65536"
  "sum_list (map abs kTapsM4) < 65536" "sum_list (map abs kTapsM6) < 65536"
  by (simp_all add: kTapsM2_def kTapsM3_def kTapsM4_def kTapsM6_def)

lemma mk_decimator_Inr:
  assumes "mk_decimator factor channels = Inr d"
  shows "dc_factor d = factor \<and> dc_channels d = channels \<and> (channels = 1 \<or> channels = 2) \<and>
    (factor = 1 \<or> findTable factor = Some (dc_taps d) \<and> dec_inv d [] 0)"
proof (cases "factor = 1")
  case False
  with assms obtain t where t: "findTable factor = Some t" by (auto simp: mk_decimator_def supportsFactor_def split: if_splits)
  have d: "d = \<lparr>dc_factor = factor, dc_channels = channels, dc_taps = t, dc_phase = 0, dc_writePos = 0, dc_history = replicate 434 0\<rparr>"
    and ch: "channels = 1 \<or> channels = 2"
    using assms False t by (auto simp: mk_decimator_def supportsFactor_def MAX_FACTOR_def split: if_splits)
  have tl: "1 < factor" "0 < length t" "length t \<le> 217" using t by (cases rule: findTable_cases; simp add: length_taps)+
  have bound: "(n - 1 - k) mod n * nat channels + c < 434" if "n = length t" "k < n" "c < nat channels" for n k c
    using index_lt [of "(n - 1 - k) mod n" n c "nat channels"] that tl ch by auto
  show ?thesis using False t ch tl bound by (auto simp: d dec_inv_def Let_def)
qed (use assms in \<open>auto simp: mk_decimator_def split: if_splits\<close>)

section \<open>Ranges\<close>

definition i16_ok :: "int \<Rightarrow> bool" where
  "i16_ok x \<longleftrightarrow> - 32768 \<le> x \<and> x \<le> 32767"

lemma saturate_range: "i16_ok (saturate acc)"
  by (auto simp: saturate_def i16_ok_def Let_def)

lemma saturate_scale: "i16_ok c \<Longrightarrow> saturate (c * 32768) = c"
proof -
  assume "i16_ok c"
  moreover have "(c * 32768 + 16384) div 32768 = c" by simp
  ultimately show ?thesis by (simp add: saturate_def i16_ok_def drop_bit_eq_div Let_def)
qed

text \<open>
  The \<open>int64_t\<close> accumulator never overflows: with \<open>int16_t\<close> inputs every partial sum stays below
  \<open>2^31\<close> in magnitude.
\<close>

lemma accumulator_bound:
  assumes t: "findTable factor = Some h" and xs: "\<forall>i < length xs. i16_ok (xs ! i)" and i: "i * ch + ch \<le> length xs"
    and c: "c < ch" and m: "m \<le> length h"
  shows "\<bar>\<Sum>k<m. h ! k * tap_input xs ch c i k\<bar> < 2 ^ 31"
proof -
  have small: "\<bar>tap_input xs ch c i k\<bar> \<le> 32768" for k
  proof (cases "k \<le> i")
    case True
    have "(i - k) * ch \<le> i * ch" by simp
    then have "(i - k) * ch + c < length xs" using i c by linarith
    with xs have "i16_ok (xs ! ((i - k) * ch + c))" by blast
    then show ?thesis using True by (auto simp: tap_input_def i16_ok_def)
  qed (simp add: tap_input_def)
  have "\<bar>\<Sum>k<m. h ! k * tap_input xs ch c i k\<bar> \<le> (\<Sum>k<m. \<bar>h ! k * tap_input xs ch c i k\<bar>)" by (rule sum_abs)
  also have "\<dots> \<le> (\<Sum>k<m. \<bar>h ! k\<bar> * 32768)"
    by (rule sum_mono) (simp add: abs_mult small mult_left_mono)
  also have "\<dots> \<le> (\<Sum>k<length h. \<bar>h ! k\<bar> * 32768)" using m by (intro sum_mono2) auto
  also have "\<dots> = sum_list (map abs h) * 32768"
    by (simp add: sum_list_sum_nth sum_distrib_right lessThan_atLeast0)
  also have "\<dots> < 65536 * 32768"
    using t by (cases rule: findTable_cases) (simp_all add: sum_abs_taps)
  finally show ?thesis by simp
qed

lemma sum_taps_table: "findTable factor = Some h \<Longrightarrow> sum_list h = 32768"
  by (erule findTable_cases) (simp_all add: sum_taps)

lemma filter_ref_constant:
  assumes t: "findTable factor = Some h" and c: "i16_ok c" "cc < ch" and i: "length h \<le> Suc i" "i < F"
  shows "filter_ref h (replicate (F * ch) c) ch cc i = c"
proof -
  have "tap_input (replicate (F * ch) c) ch cc i k = c" if "k < length h" for k
  proof -
    have "(i - k) * ch + cc < F * ch" using index_lt [of "i - k" F cc ch] i(2) c(2) by simp
    then show ?thesis using that i(1) by (simp add: tap_input_def)
  qed
  then have "(\<Sum>k<length h. h ! k * tap_input (replicate (F * ch) c) ch cc i k) = (\<Sum>k<length h. h ! k) * c"
    by (simp add: sum_distrib_right)
  also have "\<dots> = c * 32768"
    using sum_taps_table [OF t] by (simp add: sum_list_sum_nth lessThan_atLeast0)
  finally show ?thesis using saturate_scale [OF c(1)] by (simp add: filter_ref_def)
qed

lemma dc_run_identity:
  "dc_factor d = 1 \<Longrightarrow> \<forall>inp \<in> set chunks. nat (dc_channels d) dvd length inp \<Longrightarrow> dc_run chunks d = concat chunks"
  by (induction chunks) (auto simp: dc_process_def elim!: dvdE split: if_splits)

lemma nth_concat_map_const:
  assumes "\<And>x. x \<in> set xs \<Longrightarrow> length (f x) = n" "i < length xs" "j < n"
  shows "concat (map f xs) ! (i * n + j) = f (xs ! i) ! j"
  using assms
proof (induction xs arbitrary: i)
  case (Cons x xs)
  then show ?case by (cases i) (auto simp: nth_append)
qed simp

section \<open>Properties\<close>

text \<open>
  C13: the streaming decimator computes the documented filter. Whatever the division of the input
  into chunks of whole frames, the concatenated output of a fresh decimator is, frame by frame and
  channel by channel, the saturated 36*M+1-tap convolution at every M-th input frame with zero
  prehistory; a factor of one is the identity. In particular chunking never changes a sample. After any such input, the next call
  writes exactly the number of frames that \<open>outputFramesFor\<close> gives for it beforehand.
\<close>

theorem decimator_computes_filter:
  assumes "mk_decimator factor channels = Inr d" and "\<forall>inp \<in> set chunks. nat channels dvd length inp" and "length inp = frames * nat channels"
  shows "dc_run chunks d = (if factor = 1 then concat chunks
    else decimate_ref (nat factor) (nat channels) (dc_taps d) (concat chunks)) \<and>
    length (snd (dc_process inp frames (dc_after chunks d))) = outputFramesFor frames (dc_after chunks d) * nat channels"
proof (cases "factor = 1")
  case True
  have "dc_phase d = 0" using assms(1) by (auto simp: mk_decimator_def split: if_splits)
  then show ?thesis using True mk_decimator_Inr [OF assms(1)] assms(2,3)
    by (auto simp: dc_run_identity dc_after_identity dc_process_def outputFramesFor_def)
next
  case False
  note mk = mk_decimator_Inr [OF assms(1)]
  have "decimate_ref (nat factor) (nat channels) (dc_taps d) [] = []" by (simp add: decimate_ref_def)
  with dc_run_spec [of d "[]" 0 chunks] mk False assms(2)
  have run: "dc_run chunks d = decimate_ref (nat factor) (nat channels) (dc_taps d) (concat chunks)" by simp
  obtain G where G: "dec_inv (dc_after chunks d) (concat chunks) G" "dc_channels (dc_after chunks d) = channels"
    using dc_after_inv [of d "[]" 0 chunks] mk False assms(2) by auto
  obtain d' out where "dc_process inp frames (dc_after chunks d) = (d', out)" by fastforce
  with outputFramesFor_process [OF G(1) _ this] G(2) assms(3) run False show ?thesis by simp
qed

definition demo_decimator :: decimator where
  "demo_decimator = \<lparr>dc_factor = 2, dc_channels = 1, dc_taps = kTapsM2, dc_phase = 0, dc_writePos = 0,
     dc_history = replicate 434 0\<rparr>"

lemma demo_decimator_mk: "mk_decimator 2 1 = Inr demo_decimator"
  by (simp add: mk_decimator_def supportsFactor_def findTable_def demo_decimator_def MAX_FACTOR_def)

theorem decimator_computes_filter_witness:
  "dc_run [[100, 200, 300], [400]] demo_decimator = decimate_ref 2 1 kTapsM2 [100, 200, 300, 400] \<and>
   length (snd (dc_process [7, 8, 9] 3 (dc_after [[100, 200, 300], [400]] demo_decimator))) =
     outputFramesFor 3 (dc_after [[100, 200, 300], [400]] demo_decimator)"
  using decimator_computes_filter [OF demo_decimator_mk, of "[[100, 200, 300], [400]]" "[7, 8, 9]" 3]
  by (simp add: demo_decimator_def)

text \<open>
  A constant signal passes unchanged. Once the filter is warm (as many input frames as taps), every
  output sample of a constant \<open>int16_t\<close> input is that constant, bit for bit, for every supported
  factor, channel count and chunking; the tap tables sum to exactly \<open>2^15\<close>.
\<close>

theorem decimator_passes_constants:
  assumes "mk_decimator factor channels = Inr d" and "factor \<noteq> 1" and "i16_ok c"
    and "\<forall>inp \<in> set chunks. nat channels dvd length inp" and "concat chunks = replicate (F * nat channels) c"
    and "cc < nat channels" and "j < F div nat factor" and "length (dc_taps d) \<le> Suc j * nat factor"
  shows "dc_run chunks d ! (j * nat channels + cc) = c"
proof -
  let ?M = "nat factor" and ?ch = "nat channels" and ?h = "dc_taps d"
  note mk = mk_decimator_Inr [OF assms(1)]
  have t: "findTable factor = Some ?h" and inv: "dec_inv d [] 0" using mk assms(2) by auto
  have M: "1 < ?M" using inv mk by (simp add: dec_inv_def Let_def)
  have run: "dc_run chunks d = decimate_ref ?M ?ch ?h (replicate (F * ?ch) c)"
    using dc_run_spec [OF inv, of chunks] mk assms(4,5) by (simp add: decimate_ref_def)
  have frames: "length (replicate (F * ?ch) c) div ?ch = F" using assms(6) by simp
  have iM: "j * ?M + (?M - 1) < F" "length ?h \<le> Suc (j * ?M + (?M - 1))"
  proof -
    have "Suc j * ?M \<le> F" using assms(7) by (metis Suc_leI div_times_less_eq_dividend mult_le_mono1 le_trans)
    then show "j * ?M + (?M - 1) < F" "length ?h \<le> Suc (j * ?M + (?M - 1))" using M assms(8) by simp_all
  qed
  have "dc_run chunks d ! (j * ?ch + cc) = map (\<lambda>c'. filter_ref ?h (replicate (F * ?ch) c) ?ch c' (j * ?M + (?M - 1))) [0..<?ch] ! cc"
    unfolding run decimate_ref_def frames
    by (subst nth_concat_map_const [where n = ?ch]) (use assms(6,7) in simp_all)
  also have "\<dots> = c" using assms(6) filter_ref_constant [OF t assms(3,6) iM(2,1)] by simp
  finally show ?thesis .
qed

theorem decimator_passes_constants_witness:
  "dc_run [replicate 50 7, replicate 50 7] demo_decimator ! 40 = 7"
proof -
  have "concat [replicate 50 (7 :: int), replicate 50 7] = replicate (100 * nat 1) 7"
    using replicate_add [of 50 50 "7 :: int"] by simp
  from decimator_passes_constants [OF demo_decimator_mk _ _ _ this, of 0 40]
  show ?thesis by (simp add: i16_ok_def demo_decimator_def length_taps)
qed

end
