(* ===== verification/Bounded_Fifo.thy ===== *)
theory Bounded_Fifo
  imports Main "HOL-Library.Sublist"
begin

text \<open>
  The contract of a bounded queue that drops its oldest elements when a write does not fit: the
  locale \<open>bounded_fifo\<close>. Whatever is written and read, the elements read so far followed by the
  elements still queued are a subsequence of those written, and all of them when no write overflows.
  The audio ring buffer implements it for bytes and the ordered queue of a UDP connection for packets.
\<close>

datatype 'a fifo_op = FWrite "'a list" | FRead nat

fun fifo_run :: "('a list \<Rightarrow> 'q \<Rightarrow> 'q) \<Rightarrow> (nat \<Rightarrow> 'q \<Rightarrow> 'q \<times> 'a list) \<Rightarrow> 'a fifo_op list \<Rightarrow> 'q \<Rightarrow>
    'q \<times> 'a list" where
  "fifo_run wr rd [] q = (q, [])"
| "fifo_run wr rd (FWrite xs # ops) q = fifo_run wr rd ops (wr xs q)"
| "fifo_run wr rd (FRead n # ops) q =
     (let (q', out) = rd n q; (q'', out') = fifo_run wr rd ops q' in (q'', out @ out'))"

fun fifo_written :: "'a fifo_op list \<Rightarrow> 'a list" where
  "fifo_written [] = []"
| "fifo_written (FWrite xs # ops) = xs @ fifo_written ops"
| "fifo_written (FRead n # ops) = fifo_written ops"

definition fifo_fitting :: "('a list \<Rightarrow> bool) \<Rightarrow> 'a fifo_op list \<Rightarrow> bool" where
  "fifo_fitting fits ops \<longleftrightarrow> list_all (\<lambda>op. case op of FWrite xs \<Rightarrow> fits xs | FRead n \<Rightarrow> True) ops"

locale bounded_fifo =
  fixes wr :: "'a list \<Rightarrow> 'q \<Rightarrow> 'q"
    and rd :: "nat \<Rightarrow> 'q \<Rightarrow> 'q \<times> 'a list"
    and content :: "'q \<Rightarrow> 'a list"
    and limit :: "'q \<Rightarrow> nat"
    and invar :: "'q \<Rightarrow> bool"
    and fits :: "'a list \<Rightarrow> bool"
  assumes wr_invar: "invar q \<Longrightarrow> fits xs \<Longrightarrow> invar (wr xs q)"
    and wr_content: "invar q \<Longrightarrow> fits xs \<Longrightarrow>
      content (wr xs q) = drop (length (content q) + length xs - limit q) (content q @ xs)"
    and wr_limit: "invar q \<Longrightarrow> fits xs \<Longrightarrow> limit (wr xs q) = limit q"
    and rd_invar: "invar q \<Longrightarrow> invar (fst (rd n q))"
    and rd_content: "invar q \<Longrightarrow> content (fst (rd n q)) = drop n (content q)"
    and rd_out: "invar q \<Longrightarrow> snd (rd n q) = take n (content q)"
    and rd_limit: "invar q \<Longrightarrow> limit (fst (rd n q)) = limit q"
    and content_limit: "invar q \<Longrightarrow> length (content q) \<le> limit q"
begin

lemma run_invar: "invar q \<Longrightarrow> fifo_fitting fits ops \<Longrightarrow> invar (fst (fifo_run wr rd ops q))"
proof (induction ops arbitrary: q)
  case (Cons op ops)
  then show ?case by (cases op) (auto simp: case_prod_beta fifo_fitting_def rd_invar wr_invar)
qed simp

lemma run_subseq:
  "invar q \<Longrightarrow> fifo_fitting fits ops \<Longrightarrow>
   subseq (snd (fifo_run wr rd ops q) @ content (fst (fifo_run wr rd ops q))) (content q @ fifo_written ops)"
proof (induction ops arbitrary: q)
  case (Cons op ops)
  have fo: "fifo_fitting fits ops" using Cons.prems(2) by (simp add: fifo_fitting_def)
  show ?case
  proof (cases op)
    case (FWrite xs)
    have f: "fits xs" using Cons.prems(2) by (simp add: fifo_fitting_def FWrite)
    have "subseq (content (wr xs q)) (content q @ xs)"
      using Cons.prems(1) f by (simp only: wr_content suffix_imp_subseq suffix_drop)
    then have "subseq (content (wr xs q) @ fifo_written ops) ((content q @ xs) @ fifo_written ops)"
      by (rule list_emb_append_mono) simp
    with Cons.IH [OF wr_invar [OF Cons.prems(1) f] fo] show ?thesis
      by (auto simp: FWrite intro: subseq_order.order_trans)
  next
    case (FRead n)
    let ?q = "fst (rd n q)"
    have "subseq (take n (content q) @ snd (fifo_run wr rd ops ?q) @ content (fst (fifo_run wr rd ops ?q)))
        (take n (content q) @ content ?q @ fifo_written ops)"
      by (rule list_emb_append_mono [OF subseq_order.order_refl Cons.IH [OF rd_invar [OF Cons.prems(1)] fo]])
    moreover have "take n (content q) @ content ?q = content q" by (simp add: rd_content [OF Cons.prems(1)])
    ultimately show ?thesis
      by (simp add: FRead case_prod_beta rd_out [OF Cons.prems(1)] flip: append_assoc)
  qed
qed simp

text \<open>No write overflows when all that is ever written fits beside what is queued.\<close>

lemma run_lossless:
  "invar q \<Longrightarrow> fifo_fitting fits ops \<Longrightarrow> length (content q) + length (fifo_written ops) \<le> limit q \<Longrightarrow>
   snd (fifo_run wr rd ops q) @ content (fst (fifo_run wr rd ops q)) = content q @ fifo_written ops"
proof (induction ops arbitrary: q)
  case (Cons op ops)
  have fo: "fifo_fitting fits ops" using Cons.prems(2) by (simp add: fifo_fitting_def)
  show ?case
  proof (cases op)
    case (FWrite xs)
    have f: "fits xs" using Cons.prems(2) by (simp add: fifo_fitting_def FWrite)
    have "content (wr xs q) = content q @ xs"
      using Cons.prems(3) by (simp add: wr_content [OF Cons.prems(1) f] FWrite)
    with Cons.IH [OF wr_invar [OF Cons.prems(1) f] fo] Cons.prems f show ?thesis
      by (simp add: wr_limit FWrite)
  next
    case (FRead n)
    let ?q = "fst (rd n q)"
    have "snd (fifo_run wr rd ops ?q) @ content (fst (fifo_run wr rd ops ?q)) = content ?q @ fifo_written ops"
      using Cons.prems(3) by (intro Cons.IH [OF rd_invar [OF Cons.prems(1)] fo])
        (simp add: FRead rd_content [OF Cons.prems(1)] rd_limit [OF Cons.prems(1)])
    moreover have "take n (content q) @ content ?q = content q" by (simp add: rd_content [OF Cons.prems(1)])
    ultimately show ?thesis
      by (simp add: FRead case_prod_beta rd_out [OF Cons.prems(1)])
  qed
qed simp

end

end
