(* ===== verification/Ring_Buffer.thy ===== *)
theory Ring_Buffer
  imports Stream_Config Bounded_Fifo
begin

text \<open>
  The circular audio buffer: \<open>src/AudioRingBuffer.cpp\<close>. The bytes live in an array that the two
  copy loops address chunk by chunk; the loops are partial functions, so that not ending is the
  value \<open>None\<close>, and the lemmas show that they end on every reachable state. \<open>available_\<close> is a
  \<open>std::size_t\<close> whose wrap-around is written out, because a write longer than the capacity takes it
  below zero for a moment. A blocking read is driven by a script of what the other threads do while
  it waits. The contract is the locale \<open>bounded_fifo\<close>, interpreted on the model.
\<close>

section \<open>State\<close>

record audio_ring =
  rg_capacity :: nat
  rg_buffer :: bytes
  rg_config :: audio_stream_config
  rg_writePos :: nat
  rg_readPos :: nat
  rg_available :: nat
  rg_totalBytesWritten :: int
  rg_totalBytesRead :: int
  rg_underrunCount :: int
  rg_overrunCount :: int
  rg_lastOverrunLogTime :: int
  rg_lastUnderrunLogTime :: int
  rg_overrunsSinceLastLog :: int
  rg_underrunsSinceLastLog :: int
  rg_firstOverrun :: bool
  rg_firstUnderrun :: bool

definition mk_ring :: "audio_stream_config \<Rightarrow> int \<Rightarrow> audio_ring" where
  "mk_ring c capacityBytes =
     (let cap = (if capacityBytes > 0 then nat capacityBytes else 0)
      in \<lparr>rg_capacity = cap, rg_buffer = replicate cap 0, rg_config = c, rg_writePos = 0, rg_readPos = 0,
          rg_available = 0, rg_totalBytesWritten = 0, rg_totalBytesRead = 0, rg_underrunCount = 0,
          rg_overrunCount = 0, rg_lastOverrunLogTime = 0, rg_lastUnderrunLogTime = 0,
          rg_overrunsSinceLastLog = 0, rg_underrunsSinceLastLog = 0, rg_firstOverrun = True,
          rg_firstUnderrun = True\<rparr>)"

text \<open>The constructor that sizes the buffer from the configuration; \<open>None\<close> is signed overflow.\<close>

definition mk_ring_config :: "audio_stream_config \<Rightarrow> audio_ring option" where
  "mk_ring_config c = do { ms \<leftarrow> mul_i32 (bufferMaxMs c) 2; n \<leftarrow> msToBytes c ms; Some (mk_ring c n) }"

definition rg_updateConfig :: "audio_stream_config \<Rightarrow> audio_ring \<Rightarrow> audio_ring" where
  "rg_updateConfig c r = r\<lparr>rg_config := c\<rparr>"

text \<open>\<open>std::size_t\<close> addition and subtraction, and \<open>std::memcpy\<close> into the array.\<close>

definition usz_add :: "nat \<Rightarrow> nat \<Rightarrow> nat" where
  "usz_add a b = (a + b) mod 2 ^ 64"

definition usz_sub :: "nat \<Rightarrow> nat \<Rightarrow> nat" where
  "usz_sub a b = (a + 2 ^ 64 - b) mod 2 ^ 64"

definition copy_at :: "nat \<Rightarrow> bytes \<Rightarrow> bytes \<Rightarrow> bytes" where
  "copy_at i xs buf = take i buf @ xs @ drop (i + length xs) buf"

section \<open>Operations\<close>

definition noteOverrun :: "int \<Rightarrow> audio_ring \<Rightarrow> audio_ring" where
  "noteOverrun now r =
     (let r = r\<lparr>rg_overrunsSinceLastLog := rg_overrunsSinceLastLog r + 1\<rparr>
      in if rg_firstOverrun r
         then r\<lparr>rg_firstOverrun := False, rg_lastOverrunLogTime := now, rg_overrunsSinceLastLog := 0\<rparr>
         else if now - rg_lastOverrunLogTime r \<ge> 60000
         then r\<lparr>rg_lastOverrunLogTime := now, rg_overrunsSinceLastLog := 0\<rparr>
         else r)"

definition noteUnderrun :: "int \<Rightarrow> audio_ring \<Rightarrow> audio_ring" where
  "noteUnderrun now r =
     (let r = r\<lparr>rg_underrunsSinceLastLog := rg_underrunsSinceLastLog r + 1\<rparr>
      in if rg_firstUnderrun r
         then r\<lparr>rg_firstUnderrun := False, rg_lastUnderrunLogTime := now, rg_underrunsSinceLastLog := 0\<rparr>
         else if now - rg_lastUnderrunLogTime r \<ge> 60000
         then r\<lparr>rg_lastUnderrunLogTime := now, rg_underrunsSinceLastLog := 0\<rparr>
         else r)"

partial_function (option) rg_write_loop :: "bytes \<Rightarrow> nat \<Rightarrow> audio_ring \<Rightarrow> audio_ring option" where
  "rg_write_loop data bytesWritten r =
     (if bytesWritten < length data then
        let spaceToEnd = rg_capacity r - rg_writePos r;
            toWrite = min (length data - bytesWritten) spaceToEnd
        in rg_write_loop data (bytesWritten + toWrite)
             (r\<lparr>rg_buffer := copy_at (rg_writePos r) (take toWrite (drop bytesWritten data)) (rg_buffer r),
                rg_writePos := (rg_writePos r + toWrite) mod rg_capacity r,
                rg_available := usz_add (rg_available r) toWrite\<rparr>)
      else Some r)"

definition rg_write :: "int \<Rightarrow> bytes \<Rightarrow> nat \<Rightarrow> nat \<Rightarrow> audio_ring \<Rightarrow> (audio_ring \<times> nat) option" where
  "rg_write now data offset len r =
     (if rg_capacity r = 0 then Some (r, 0)
      else let src = take len (drop offset data);
               r = (if rg_available r + len > rg_capacity r then
                      let toDrop = (rg_available r + len) - rg_capacity r
                      in noteOverrun now (r\<lparr>rg_readPos := (rg_readPos r + toDrop) mod rg_capacity r,
                           rg_available := usz_sub (rg_available r) toDrop,
                           rg_overrunCount := rg_overrunCount r + 1\<rparr>)
                    else r)
        in map_option (\<lambda>r. (r\<lparr>rg_totalBytesWritten := rg_totalBytesWritten r + int len\<rparr>, len)) (rg_write_loop src 0 r))"

definition rg_writeBuf :: "int \<Rightarrow> bytes \<Rightarrow> audio_ring \<Rightarrow> (audio_ring \<times> nat) option" where
  "rg_writeBuf now data r = rg_write now data 0 (length data) r"

partial_function (option) rg_read_loop :: "nat \<Rightarrow> nat \<Rightarrow> bytes \<Rightarrow> audio_ring \<Rightarrow> (audio_ring \<times> bytes) option" where
  "rg_read_loop toRead bytesRead out r =
     (if bytesRead < toRead then
        let dataToEnd = rg_capacity r - rg_readPos r;
            chunk = min (toRead - bytesRead) dataToEnd
        in rg_read_loop toRead (bytesRead + chunk) (out @ take chunk (drop (rg_readPos r) (rg_buffer r)))
             (r\<lparr>rg_readPos := (rg_readPos r + chunk) mod rg_capacity r,
                rg_available := usz_sub (rg_available r) chunk\<rparr>)
      else Some (r, out))"

text \<open>
  The wait loop. The script lists, for each turn, the steady-clock reading and what the other
  threads do to the buffer while this one waits; \<open>None\<close> is a reader that is still waiting.
\<close>

fun rg_wait :: "int \<Rightarrow> int \<Rightarrow> int \<Rightarrow> (int \<times> (audio_ring \<Rightarrow> audio_ring)) list \<Rightarrow> audio_ring \<Rightarrow> (audio_ring \<times> bool) option" where
  "rg_wait wall deadline timeoutMs script r =
     (if rg_available r \<noteq> 0 then Some (r, True)
      else if timeoutMs = 0 then Some (r, False)
      else case script of
             [] \<Rightarrow> None
           | (clock, others) # script' \<Rightarrow>
               if clock \<ge> deadline
               then Some (noteUnderrun wall (r\<lparr>rg_underrunCount := rg_underrunCount r + 1\<rparr>), False)
               else rg_wait wall deadline timeoutMs script' (others r))"

declare rg_wait.simps [simp del]

definition rg_read :: "int \<Rightarrow> int \<Rightarrow> nat \<Rightarrow> int \<Rightarrow> (int \<times> (audio_ring \<Rightarrow> audio_ring)) list \<Rightarrow> audio_ring \<Rightarrow>
    (audio_ring \<times> bytes) option" where
  "rg_read wall clock0 len timeoutMs script r =
     (if rg_capacity r = 0 then Some (r, [])
      else let deadline = clock0 + (if timeoutMs > 0 then timeoutMs else 0)
        in do {
          (r, ready) \<leftarrow> rg_wait wall deadline timeoutMs script r;
          if \<not> ready then Some (r, [])
          else do {
            (r, out) \<leftarrow> rg_read_loop (min len (rg_available r)) 0 [] r;
            Some (r\<lparr>rg_totalBytesRead := rg_totalBytesRead r + int (length out)\<rparr>, out)
          }
        })"

definition rg_readBuf :: "int \<Rightarrow> int \<Rightarrow> nat \<Rightarrow> (int \<times> (audio_ring \<Rightarrow> audio_ring)) list \<Rightarrow> audio_ring \<Rightarrow>
    (audio_ring \<times> bytes) option" where
  "rg_readBuf wall clock0 len script r = rg_read wall clock0 len (frameDurationMs (rg_config r) * 2) script r"

definition rg_bufferLevelMs :: "audio_ring \<Rightarrow> int option" where
  "rg_bufferLevelMs r = bytesToMs (rg_config r) (i32 (int (rg_available r)))"

definition rg_bufferFillPercent :: "audio_ring \<Rightarrow> int" where
  "rg_bufferFillPercent r = (if rg_capacity r = 0 then 0 else i32 (int (rg_available r * 100 div rg_capacity r)))"

definition rg_hasReachedTargetLevel :: "audio_ring \<Rightarrow> bool option" where
  "rg_hasReachedTargetLevel r = map_option (\<lambda>ms. ms \<ge> bufferTargetMs (rg_config r)) (rg_bufferLevelMs r)"

definition rg_isBelowMinimum :: "audio_ring \<Rightarrow> bool option" where
  "rg_isBelowMinimum r = map_option (\<lambda>ms. ms < bufferMinMs (rg_config r)) (rg_bufferLevelMs r)"

definition rg_isAboveMaximum :: "audio_ring \<Rightarrow> bool option" where
  "rg_isAboveMaximum r = map_option (\<lambda>ms. ms > bufferMaxMs (rg_config r)) (rg_bufferLevelMs r)"

definition rg_clear :: "audio_ring \<Rightarrow> audio_ring" where
  "rg_clear r = r\<lparr>rg_writePos := 0, rg_readPos := 0, rg_available := 0\<rparr>"

definition rg_resetStatistics :: "audio_ring \<Rightarrow> audio_ring" where
  "rg_resetStatistics r = r\<lparr>rg_totalBytesWritten := 0, rg_totalBytesRead := 0, rg_underrunCount := 0, rg_overrunCount := 0\<rparr>"

section \<open>The model implements the contract\<close>

text \<open>The queued bytes, oldest first.\<close>

definition rg_contents :: "audio_ring \<Rightarrow> bytes" where
  "rg_contents r = map (\<lambda>k. rg_buffer r ! ((rg_readPos r + k) mod rg_capacity r)) [0..<rg_available r]"

definition rg_ok :: "audio_ring \<Rightarrow> bool" where
  "rg_ok r \<longleftrightarrow> length (rg_buffer r) = rg_capacity r \<and> rg_available r \<le> rg_capacity r \<and> rg_capacity r < 2 ^ 31 \<and>
     (rg_capacity r = 0 \<or> rg_readPos r < rg_capacity r \<and> rg_writePos r = (rg_readPos r + rg_available r) mod rg_capacity r)"

text \<open>The reference for the copy loop: one byte at a time.\<close>

definition put1 :: "nat \<Rightarrow> u8 \<Rightarrow> bytes \<times> nat \<Rightarrow> bytes \<times> nat" where
  "put1 cap x s = ((fst s)[snd s := x], (snd s + 1) mod cap)"

lemma length_copy_at: "i + length xs \<le> length buf \<Longrightarrow> length (copy_at i xs buf) = length buf"
  by (simp add: copy_at_def)

lemma copy_at_Cons:
  "i < length buf \<Longrightarrow> copy_at i (x # xs) buf = copy_at (i + 1) xs (buf[i := x])"
  by (simp add: copy_at_def take_Suc_conv_app_nth drop_update_cancel)

lemma copy_at_Nil: "copy_at i [] buf = buf"
  by (simp add: copy_at_def)

lemma put1_chunk:
  "w + length xs \<le> cap \<Longrightarrow> length buf = cap \<Longrightarrow> w < cap \<Longrightarrow>
   fold (put1 cap) xs (buf, w) = (copy_at w xs buf, (w + length xs) mod cap)"
proof (induction xs arbitrary: w buf)
  case Nil
  then show ?case by (simp add: copy_at_def)
next
  case (Cons x xs)
  have buf: "copy_at w (x # xs) buf = copy_at (w + 1) xs (buf[w := x])"
    using Cons.prems by (intro copy_at_Cons) simp
  show ?case
  proof (cases "xs = []")
    case True
    then show ?thesis using buf by (simp add: put1_def copy_at_Nil)
  next
    case False
    then have "w + 1 < cap" using Cons.prems by (cases xs) auto
    with Cons.IH [of "w + 1" "buf[w := x]"] Cons.prems buf show ?thesis by (simp add: put1_def)
  qed
qed

lemma usz_add_assoc: "usz_add (usz_add a b) c = usz_add a (b + c)"
  by (simp add: usz_add_def mod_simps add.assoc)

text \<open>The chunked loop ends and writes what the byte loop writes.\<close>

lemma write_loop_eq:
  assumes "length (rg_buffer r) = rg_capacity r" and "rg_writePos r < rg_capacity r" and "n \<le> length data"
  shows "\<exists>av. rg_write_loop data n r = Some (r\<lparr>
      rg_buffer := fst (fold (put1 (rg_capacity r)) (drop n data) (rg_buffer r, rg_writePos r)),
      rg_writePos := snd (fold (put1 (rg_capacity r)) (drop n data) (rg_buffer r, rg_writePos r)),
      rg_available := av\<rparr>) \<and> (av = usz_add (rg_available r) (length data - n) \<or> n = length data \<and> av = rg_available r)"
  using assms
proof (induction "length data - n" arbitrary: n r rule: less_induct)
  case less
  show ?case
  proof (cases "n < length data")
    case False
    then have n: "n = length data" using less.prems(3) by simp
    then have "rg_write_loop data n r = Some r" by (simp add: rg_write_loop.simps)
    then show ?thesis by (intro exI [of _ "rg_available r"]) (cases r, simp add: n)
  next
    case True
    define m where "m = min (length data - n) (rg_capacity r - rg_writePos r)"
    define xs where "xs = take m (drop n data)"
    have m: "0 < m" "n + m \<le> length data" "rg_writePos r + m \<le> rg_capacity r" using True less.prems(2) by (auto simp: m_def)
    have lxs: "length xs = m" using m(2) by (simp add: xs_def)
    define r' where "r' = r\<lparr>rg_buffer := copy_at (rg_writePos r) xs (rg_buffer r),
      rg_writePos := (rg_writePos r + m) mod rg_capacity r, rg_available := usz_add (rg_available r) m\<rparr>"
    have step: "rg_write_loop data n r = rg_write_loop data (n + m) r'"
      using True by (subst rg_write_loop.simps) (simp add: Let_def m_def xs_def r'_def)
    have chunk: "fold (put1 (rg_capacity r)) xs (rg_buffer r, rg_writePos r) = (rg_buffer r', rg_writePos r')"
      using put1_chunk [of "rg_writePos r" xs "rg_capacity r" "rg_buffer r"] lxs m(3) less.prems(1,2)
      by (simp add: r'_def)
    have "drop n data = xs @ drop (n + m) data" by (simp add: xs_def add.commute flip: drop_drop)
    then have fold_eq: "fold (put1 (rg_capacity r)) (drop n data) (rg_buffer r, rg_writePos r) =
      fold (put1 (rg_capacity r)) (drop (n + m) data) (rg_buffer r', rg_writePos r')"
      using chunk by simp
    have "length (rg_buffer r') = rg_capacity r'" "rg_writePos r' < rg_capacity r'"
      using less.prems(1,2) m(3) lxs by (auto simp: r'_def length_copy_at)
    moreover have "length data - (n + m) < length data - n" using True m(1) by simp
    ultimately obtain av where av: "rg_write_loop data (n + m) r' = Some (r'\<lparr>
        rg_buffer := fst (fold (put1 (rg_capacity r')) (drop (n + m) data) (rg_buffer r', rg_writePos r')),
        rg_writePos := snd (fold (put1 (rg_capacity r')) (drop (n + m) data) (rg_buffer r', rg_writePos r')),
        rg_available := av\<rparr>)"
      "av = usz_add (rg_available r') (length data - (n + m)) \<or> n + m = length data \<and> av = rg_available r'"
      using less.hyps [of "n + m" r'] m(2) by blast
    have "rg_capacity r' = rg_capacity r" "rg_available r' = usz_add (rg_available r) m" by (simp_all add: r'_def)
    moreover have "m + (length data - (n + m)) = length data - n" using m(2) by simp
    ultimately have "av = usz_add (rg_available r) (length data - n)"
      using av(2) m(2) by (elim disjE conjE) (simp add: usz_add_assoc, metis add_diff_cancel_left')
    then show ?thesis
      using av(1) by (intro exI [of _ av]) (simp add: step fold_eq \<open>rg_capacity r' = rg_capacity r\<close> r'_def)
  qed
qed

text \<open>
  What the array holds after \<open>n\<close> bytes: read from the write position on, it is the window of
  length \<open>cap\<close> at \<open>n\<close> of the old array followed by the data.
\<close>

definition ring_stream :: "nat \<Rightarrow> bytes \<Rightarrow> nat \<Rightarrow> bytes \<Rightarrow> nat \<Rightarrow> u8" where
  "ring_stream cap buf w data j = (if j < cap then buf ! ((w + j) mod cap) else data ! (j - cap))"

lemma mod_eq_window:
  assumes "0 < cap" and "(w + j) mod cap = (w + n) mod cap" and "n \<le> j" and "j < n + cap"
  shows "j = (n :: nat)"
proof -
  have "cap dvd (w + j) - (w + n)" using assms(2,3) by (metis add_le_cancel_left mod_eq_dvd_iff_nat)
  then have "cap dvd j - n" by simp
  then show ?thesis using assms(1,3,4) by (cases "j = n") (auto dest!: dvd_imp_le)
qed

lemma put1_stream:
  assumes "0 < cap" and "length buf = cap" and "n \<le> length data" and "w < cap"
  shows "length (fst (fold (put1 cap) (take n data) (buf, w))) = cap \<and>
    snd (fold (put1 cap) (take n data) (buf, w)) = (w + n) mod cap \<and>
    (\<forall>j. n \<le> j \<and> j < n + cap \<longrightarrow>
      fst (fold (put1 cap) (take n data) (buf, w)) ! ((w + j) mod cap) = ring_stream cap buf w data j)"
  using assms(3)
proof (induction n)
  case 0
  then show ?case using assms(2,4) by (simp add: ring_stream_def)
next
  case (Suc n)
  obtain b' w' where s: "fold (put1 cap) (take n data) (buf, w) = (b', w')" by fastforce
  have IH: "length b' = cap" "w' = (w + n) mod cap"
    "\<And>j. n \<le> j \<Longrightarrow> j < n + cap \<Longrightarrow> b' ! ((w + j) mod cap) = ring_stream cap buf w data j"
    using Suc s by auto
  have fold_Suc: "fold (put1 cap) (take (Suc n) data) (buf, w) = (b'[w' := data ! n], (w' + 1) mod cap)"
    using Suc.prems s by (simp add: take_Suc_conv_app_nth put1_def)
  have "b'[w' := data ! n] ! ((w + j) mod cap) = ring_stream cap buf w data j" if "Suc n \<le> j" "j < Suc n + cap" for j
  proof (cases "j < n + cap")
    case True
    then have "(w + j) mod cap \<noteq> w'" using mod_eq_window [of cap w j n] assms(1) IH(2) that by auto
    then show ?thesis using IH(3) [of j] True that by simp
  next
    case False
    then have "j = n + cap" using that by simp
    then show ?thesis using IH(1,2) assms(1) by (simp add: ring_stream_def mod_simps flip: add.assoc)
  qed
  then show ?case by (simp add: fold_Suc IH(1,2) mod_simps)
qed

lemma usz_overrun:
  assumes "a \<le> c" and "c < 2 ^ 31" and "n < 2 ^ 62" and "c < a + n"
  shows "usz_add (usz_sub a (a + n - c)) n = c"
proof -
  have "usz_add (usz_sub a (a + n - c)) n = (a + 2 ^ 64 - (a + n - c) + n) mod 2 ^ 64"
    by (simp add: usz_add_def usz_sub_def mod_simps)
  also have "a + 2 ^ 64 - (a + n - c) + n = c + 2 ^ 64" using assms by simp
  finally show ?thesis using assms(2) by simp
qed

lemma usz_fits: "a + n < 2 ^ 64 \<Longrightarrow> usz_add a n = a + n"
  by (simp add: usz_add_def)

lemma noteOverrun_fields [simp]:
  "rg_capacity (noteOverrun t r) = rg_capacity r" "rg_buffer (noteOverrun t r) = rg_buffer r"
  "rg_writePos (noteOverrun t r) = rg_writePos r" "rg_readPos (noteOverrun t r) = rg_readPos r"
  "rg_available (noteOverrun t r) = rg_available r" "rg_overrunCount (noteOverrun t r) = rg_overrunCount r"
  "rg_totalBytesWritten (noteOverrun t r) = rg_totalBytesWritten r"
  by (simp_all add: noteOverrun_def Let_def)

text \<open>The state before the copy loop: positions and level after the overrun branch.\<close>

definition rg_make_room :: "int \<Rightarrow> nat \<Rightarrow> audio_ring \<Rightarrow> audio_ring" where
  "rg_make_room now len r = (if rg_available r + len > rg_capacity r then
      let toDrop = (rg_available r + len) - rg_capacity r
      in noteOverrun now (r\<lparr>rg_readPos := (rg_readPos r + toDrop) mod rg_capacity r,
           rg_available := usz_sub (rg_available r) toDrop, rg_overrunCount := rg_overrunCount r + 1\<rparr>)
    else r)"

lemma make_room_fields [simp]:
  "rg_capacity (rg_make_room now n r) = rg_capacity r" "rg_buffer (rg_make_room now n r) = rg_buffer r"
  "rg_writePos (rg_make_room now n r) = rg_writePos r"
  "rg_overrunCount (rg_make_room now n r) = rg_overrunCount r + (if rg_available r + n > rg_capacity r then 1 else 0)"
  "rg_totalBytesWritten (rg_make_room now n r) = rg_totalBytesWritten r"
  "rg_readPos (rg_make_room now n r) = (if rg_available r + n > rg_capacity r
     then (rg_readPos r + (rg_available r + n - rg_capacity r)) mod rg_capacity r else rg_readPos r)"
  by (simp_all add: rg_make_room_def Let_def)

lemma make_room_available:
  assumes "rg_ok r" and "n < 2 ^ 62"
  shows "usz_add (rg_available (rg_make_room now n r)) n = min (rg_capacity r) (rg_available r + n)"
proof (cases "rg_available r + n > rg_capacity r")
  case True
  with assms show ?thesis
    using usz_overrun [of "rg_available r" "rg_capacity r" n] by (simp add: rg_ok_def rg_make_room_def Let_def)
next
  case False
  with assms show ?thesis by (simp add: rg_ok_def rg_make_room_def usz_fits)
qed

lemma rg_write_Some:
  assumes "rg_ok r" and "0 < rg_capacity r" and "length data < 2 ^ 62"
  obtains r' where "rg_write now data 0 (length data) r = Some (r', length data)"
    and "rg_capacity r' = rg_capacity r"
    and "rg_buffer r' = fst (fold (put1 (rg_capacity r)) data (rg_buffer r, rg_writePos r))"
    and "rg_writePos r' = snd (fold (put1 (rg_capacity r)) data (rg_buffer r, rg_writePos r))"
    and "rg_readPos r' = rg_readPos (rg_make_room now (length data) r)"
    and "rg_available r' = min (rg_capacity r) (rg_available r + length data)"
    and "rg_overrunCount r' = rg_overrunCount r + (if rg_available r + length data > rg_capacity r then 1 else 0)"
    and "rg_totalBytesWritten r' = rg_totalBytesWritten r + int (length data)"
proof -
  let ?m = "rg_make_room now (length data) r"
  have "rg_writePos r < rg_capacity r" "length (rg_buffer r) = rg_capacity r"
    using assms(1,2) by (auto simp: rg_ok_def)
  then have "length (rg_buffer ?m) = rg_capacity ?m" "rg_writePos ?m < rg_capacity ?m" by simp_all
  from write_loop_eq [OF this, of 0 data] obtain av where av: "rg_write_loop data 0 ?m = Some (?m\<lparr>
      rg_buffer := fst (fold (put1 (rg_capacity ?m)) data (rg_buffer ?m, rg_writePos ?m)),
      rg_writePos := snd (fold (put1 (rg_capacity ?m)) data (rg_buffer ?m, rg_writePos ?m)), rg_available := av\<rparr>)"
    "av = usz_add (rg_available ?m) (length data) \<or> 0 = length data \<and> av = rg_available ?m" by auto
  have "av = min (rg_capacity r) (rg_available r + length data)"
  proof (cases "length data = 0")
    case True
    then show ?thesis using av(2) make_room_available [OF assms(1), of 0 now] assms(1)
      by (auto simp: rg_make_room_def rg_ok_def usz_fits)
  next
    case False
    then show ?thesis using av(2) make_room_available [OF assms(1,3)] by simp
  qed
  note level = this
  define r1 where "r1 = ?m\<lparr>rg_buffer := fst (fold (put1 (rg_capacity ?m)) data (rg_buffer ?m, rg_writePos ?m)),
      rg_writePos := snd (fold (put1 (rg_capacity ?m)) data (rg_buffer ?m, rg_writePos ?m)), rg_available := av\<rparr>"
  have "rg_write now data 0 (length data) r =
      Some (r1\<lparr>rg_totalBytesWritten := rg_totalBytesWritten r1 + int (length data)\<rparr>, length data)"
    using av(1) assms(2) by (simp add: rg_write_def r1_def rg_make_room_def Let_def)
  then show thesis by (rule that) (simp_all add: r1_def level)
qed

lemma length_rg_contents [simp]: "length (rg_contents r) = rg_available r"
  by (simp add: rg_contents_def)

lemma rg_contents_nth: "k < rg_available r \<Longrightarrow> rg_contents r ! k = rg_buffer r ! ((rg_readPos r + k) mod rg_capacity r)"
  by (simp add: rg_contents_def)

lemma write_refines:
  assumes "rg_ok r" and "0 < rg_capacity r" and "length data < 2 ^ 62"
    and "rg_write now data 0 (length data) r = Some (r', k)"
  shows "rg_ok r'" and "rg_contents r' = drop (rg_available r + length data - rg_capacity r) (rg_contents r @ data)"
    and "rg_capacity r' = rg_capacity r" and "k = length data"
    and "rg_overrunCount r' = rg_overrunCount r + (if rg_available r + length data > rg_capacity r then 1 else 0)"
proof -
  let ?c = "rg_capacity r" and ?a = "rg_available r" and ?n = "length data" and ?w = "rg_writePos r"
  let ?D = "?a + ?n - ?c"
  have k: "k = ?n" and cap: "rg_capacity r' = ?c"
    and buf: "rg_buffer r' = fst (fold (put1 ?c) data (rg_buffer r, ?w))"
    and wp: "rg_writePos r' = snd (fold (put1 ?c) data (rg_buffer r, ?w))"
    and rp: "rg_readPos r' = rg_readPos (rg_make_room now ?n r)"
    and av: "rg_available r' = min ?c (?a + ?n)"
    and oc: "rg_overrunCount r' = rg_overrunCount r + (if ?a + ?n > ?c then 1 else 0)"
    using rg_write_Some [OF assms(1-3), of now] assms(4) by (metis Pair_inject option.inject)+
  have r: "length (rg_buffer r) = ?c" "?a \<le> ?c" "?c < 2 ^ 31" "rg_readPos r < ?c" "?w = (rg_readPos r + ?a) mod ?c"
    using assms(1,2) by (auto simp: rg_ok_def)
  then have "?w < ?c" using assms(2) by simp
  note st = put1_stream [OF assms(2) r(1) order_refl this, of data, simplified]
  have rpos: "(rg_readPos r' + i) mod ?c = (rg_readPos r + ?D + i) mod ?c" for i
    by (simp add: rp mod_simps)
  have wpos: "(?w + (?c - ?a + ?D + i)) mod ?c = (rg_readPos r + ?D + i) mod ?c" for i
  proof -
    have "(?w + (?c - ?a + ?D + i)) mod ?c = (rg_readPos r + ?a + (?c - ?a + ?D + i)) mod ?c"
      by (simp only: r(5) mod_simps)
    also have "rg_readPos r + ?a + (?c - ?a + ?D + i) = rg_readPos r + ?D + i + ?c" using r(2) by simp
    finally show ?thesis by simp
  qed
  show "rg_contents r' = drop ?D (rg_contents r @ data)"
  proof (rule nth_equalityI)
    show len: "length (rg_contents r') = length (drop ?D (rg_contents r @ data))" using av by auto
    fix i assume "i < length (rg_contents r')"
    then have i: "i < ?a + ?n - ?D" and i': "i < rg_available r'" using av by auto
    have "rg_contents r' ! i = rg_buffer r' ! ((?w + (?c - ?a + ?D + i)) mod ?c)"
      using i' by (simp add: rg_contents_nth cap rpos wpos)
    also have "\<dots> = ring_stream ?c (rg_buffer r) ?w data (?c - ?a + ?D + i)"
    proof -
      have "?n \<le> ?c - ?a + ?D + i" "?c - ?a + ?D + i < ?n + ?c" using i r(2) by linarith+
      then show ?thesis using st unfolding buf by blast
    qed
    also have "\<dots> = (rg_contents r @ data) ! (?D + i)"
    proof (cases "?D + i < ?a")
      case True
      then have "?c - ?a + ?D + i < ?c" using r(2) by simp
      then show ?thesis using True wpos [of i] by (simp add: ring_stream_def nth_append rg_contents_nth add.assoc)
    next
      case False
      then have "\<not> ?c - ?a + ?D + i < ?c" "?c - ?a + ?D + i - ?c = ?D + i - ?a" using r(2) by simp_all
      then show ?thesis using False by (simp add: ring_stream_def nth_append)
    qed
    finally show "rg_contents r' ! i = drop ?D (rg_contents r @ data) ! i" by (simp add: nth_drop del: drop_append)
  qed
  have "(?w + ?n) mod ?c = (rg_readPos r' + rg_available r') mod ?c"
  proof -
    have "(rg_readPos r' + rg_available r') mod ?c = (rg_readPos r + ?D + min ?c (?a + ?n)) mod ?c"
      by (simp add: rpos av)
    also have "rg_readPos r + ?D + min ?c (?a + ?n) = rg_readPos r + ?a + ?n" by simp
    finally show ?thesis by (simp add: r(5) mod_simps)
  qed
  moreover have "rg_readPos r' < ?c" using r(4) assms(2) by (simp add: rp)
  ultimately show "rg_ok r'"
    using st r(3) av by (simp add: rg_ok_def cap buf wp)
  show "rg_capacity r' = ?c" "k = ?n" "rg_overrunCount r' = rg_overrunCount r + (if ?a + ?n > ?c then 1 else 0)"
    by (fact cap k oc)+
qed

lemma take_chunk_eq:
  assumes "p + m \<le> length buf" and "length buf = cap" and "p < cap"
  shows "take m (drop p buf) = map (\<lambda>k. buf ! ((p + k) mod cap)) [0..<m]"
  using assms by (intro nth_equalityI) auto

lemma map_mod_shift:
  "map (\<lambda>k. buf ! (((p + m) mod cap + k) mod cap)) [0..<n] = map (\<lambda>k. buf ! ((p + k) mod cap)) [m..<m + n]"
proof -
  have "[m..<m + n] = map (\<lambda>k. m + k) [0..<n]" by (simp add: add.commute [of m] map_add_upt)
  then show ?thesis by (simp add: mod_simps add.assoc)
qed

text \<open>The read loop ends and returns the oldest bytes.\<close>

lemma read_loop_eq:
  assumes "length (rg_buffer r) = rg_capacity r" and "rg_readPos r < rg_capacity r" and "n \<le> toRead"
    and "toRead - n \<le> rg_available r" and "rg_available r < 2 ^ 64"
  shows "rg_read_loop toRead n out r = Some (r\<lparr>rg_readPos := (rg_readPos r + (toRead - n)) mod rg_capacity r,
      rg_available := rg_available r - (toRead - n)\<rparr>,
    out @ map (\<lambda>k. rg_buffer r ! ((rg_readPos r + k) mod rg_capacity r)) [0..<toRead - n])"
  using assms
proof (induction "toRead - n" arbitrary: n r out rule: less_induct)
  case less
  show ?case
  proof (cases "n < toRead")
    case False
    then show ?thesis using less.prems by (cases r) (simp add: rg_read_loop.simps)
  next
    case True
    define m where "m = min (toRead - n) (rg_capacity r - rg_readPos r)"
    have m: "0 < m" "n + m \<le> toRead" "rg_readPos r + m \<le> rg_capacity r" using True less.prems(2) by (auto simp: m_def)
    define r' where "r' = r\<lparr>rg_readPos := (rg_readPos r + m) mod rg_capacity r, rg_available := rg_available r - m\<rparr>"
    have sub: "usz_sub (rg_available r) m = rg_available r - m"
    proof -
      have "rg_available r + 2 ^ 64 - m = rg_available r - m + 2 ^ 64" using less.prems(4) m(2) by simp
      then have "usz_sub (rg_available r) m = (rg_available r - m + 2 ^ 64) mod 2 ^ 64" by (simp only: usz_sub_def)
      then show ?thesis using less.prems(5) by simp
    qed
    have step: "rg_read_loop toRead n out r =
        rg_read_loop toRead (n + m) (out @ take m (drop (rg_readPos r) (rg_buffer r))) r'"
      using True by (subst rg_read_loop.simps) (simp add: Let_def r'_def sub flip: m_def)
    have "length (rg_buffer r') = rg_capacity r'" "rg_readPos r' < rg_capacity r'" "toRead - (n + m) \<le> rg_available r'"
      "rg_available r' < 2 ^ 64" "toRead - (n + m) < toRead - n"
      using less.prems m by (auto simp: r'_def)
    note IH = less.hyps [OF this(5,1,2) m(2) this(3,4), of "out @ take m (drop (rg_readPos r) (rg_buffer r))"]
    have chunk: "take m (drop (rg_readPos r) (rg_buffer r)) = map (\<lambda>k. rg_buffer r ! ((rg_readPos r + k) mod rg_capacity r)) [0..<m]"
      using less.prems(1,2) m(3) by (intro take_chunk_eq) auto
    have "[0..<m] @ [m..<m + (toRead - (n + m))] = [0..<m + (toRead - (n + m))]"
      by (simp only: upt_add_eq_append [OF le0])
    also have "m + (toRead - (n + m)) = toRead - n" using m(2) by simp
    finally have "[0..<m] @ [m..<m + (toRead - (n + m))] = [0..<toRead - n]" using m(2) by simp
    then have out: "map (\<lambda>k. rg_buffer r ! ((rg_readPos r + k) mod rg_capacity r)) [0..<m] @
        map (\<lambda>k. rg_buffer r' ! ((rg_readPos r' + k) mod rg_capacity r')) [0..<toRead - (n + m)] =
        map (\<lambda>k. rg_buffer r ! ((rg_readPos r + k) mod rg_capacity r)) [0..<toRead - n]"
      by (simp add: r'_def map_mod_shift flip: map_append)
    define q where "q = toRead - (n + m)"
    have q: "toRead - n = m + q" using m(2) by (simp add: q_def)
    have pos: "(rg_readPos r' + q) mod rg_capacity r' = (rg_readPos r + (m + q)) mod rg_capacity r"
      by (simp add: r'_def mod_simps add.assoc)
    have level: "rg_available r' - q = rg_available r - (m + q)" by (simp add: r'_def)
    show ?thesis
      unfolding step IH unfolding chunk append_assoc out unfolding q q_def [symmetric] pos level by (simp add: r'_def)
  qed
qed

lemma read_ready:
  assumes "rg_ok r" and "0 < rg_capacity r" and "rg_available r \<noteq> 0"
  shows "\<exists>r'. rg_read wall clock0 len timeoutMs script r = Some (r', take len (rg_contents r)) \<and> rg_ok r' \<and>
    rg_contents r' = drop len (rg_contents r) \<and> rg_capacity r' = rg_capacity r"
proof -
  let ?n = "min len (rg_available r)"
  have ok: "length (rg_buffer r) = rg_capacity r" "rg_readPos r < rg_capacity r" "rg_available r < 2 ^ 64"
    "rg_available r \<le> rg_capacity r"
    using assms(1,2) by (auto simp: rg_ok_def)
  let ?r = "r\<lparr>rg_readPos := (rg_readPos r + ?n) mod rg_capacity r, rg_available := rg_available r - ?n\<rparr>"
  have out: "map (\<lambda>k. rg_buffer r ! ((rg_readPos r + k) mod rg_capacity r)) [0..<?n] = take len (rg_contents r)"
    by (cases "len \<le> rg_available r") (simp_all add: rg_contents_def take_map take_upt)
  have run: "rg_read wall clock0 len timeoutMs script r =
    Some (?r\<lparr>rg_totalBytesRead := rg_totalBytesRead r + int ?n\<rparr>, take len (rg_contents r))"
    using read_loop_eq [OF ok(1,2), of 0 ?n "[]"] ok(3) assms(2,3) out by (simp add: rg_read_def rg_wait.simps min.commute)
  have "rg_contents ?r = drop len (rg_contents r)"
  proof (rule nth_equalityI)
    fix i assume "i < length (rg_contents ?r)"
    then show "rg_contents ?r ! i = drop len (rg_contents r) ! i"
      by (auto simp: rg_contents_nth mod_simps add.assoc min_def split: if_splits)
  qed auto
  moreover have "rg_ok ?r"
  proof -
    have "((rg_readPos r + ?n) mod rg_capacity r + (rg_available r - ?n)) mod rg_capacity r =
        (rg_readPos r + ?n + (rg_available r - ?n)) mod rg_capacity r" by (rule mod_add_left_eq)
    also have "rg_readPos r + ?n + (rg_available r - ?n) = rg_readPos r + rg_available r" by simp
    finally have "((rg_readPos r + ?n) mod rg_capacity r + rg_available r - ?n) mod rg_capacity r =
        (rg_readPos r + rg_available r) mod rg_capacity r" by simp
    then show ?thesis using assms(1,2) ok by (simp add: rg_ok_def)
  qed
  ultimately show ?thesis
    using run by (intro exI [of _ "?r\<lparr>rg_totalBytesRead := rg_totalBytesRead r + int ?n\<rparr>"])
      (simp add: rg_ok_def rg_contents_def)
qed

text \<open>The two calls of the real-time path: a write, and a read that does not wait.\<close>

definition rg_put :: "int \<Rightarrow> bytes \<Rightarrow> audio_ring \<Rightarrow> audio_ring" where
  "rg_put now xs r = (case rg_writeBuf now xs r of Some (r', _) \<Rightarrow> r' | None \<Rightarrow> r)"

definition rg_get :: "nat \<Rightarrow> audio_ring \<Rightarrow> audio_ring \<times> bytes" where
  "rg_get n r = (case rg_read 0 0 n 0 [] r of Some x \<Rightarrow> x | None \<Rightarrow> (r, []))"

definition rg_short :: "bytes \<Rightarrow> bool" where
  "rg_short xs \<longleftrightarrow> length xs < 2 ^ 62"

lemma rg_put_facts:
  assumes "rg_ok r" and "rg_short xs"
  shows "rg_ok (rg_put now xs r)" and "rg_capacity (rg_put now xs r) = rg_capacity r"
    and "rg_contents (rg_put now xs r) = drop (length (rg_contents r) + length xs - rg_capacity r) (rg_contents r @ xs)"
proof -
  have "rg_ok (rg_put now xs r) \<and> rg_capacity (rg_put now xs r) = rg_capacity r \<and>
    rg_contents (rg_put now xs r) = drop (length (rg_contents r) + length xs - rg_capacity r) (rg_contents r @ xs)"
  proof (cases "rg_capacity r = 0")
    case True
    with assms show ?thesis by (simp add: rg_put_def rg_writeBuf_def rg_write_def rg_ok_def rg_contents_def)
  next
    case False
    then have c: "0 < rg_capacity r" by simp
    have l: "length xs < 2 ^ 62" using assms(2) by (simp add: rg_short_def)
    obtain r' where w: "rg_write now xs 0 (length xs) r = Some (r', length xs)" by (rule rg_write_Some [OF assms(1) c l])
    from write_refines [OF assms(1) c l w] w show ?thesis by (simp add: rg_put_def rg_writeBuf_def)
  qed
  then show "rg_ok (rg_put now xs r)" "rg_capacity (rg_put now xs r) = rg_capacity r"
    "rg_contents (rg_put now xs r) = drop (length (rg_contents r) + length xs - rg_capacity r) (rg_contents r @ xs)"
    by simp_all
qed

lemma rg_get_facts:
  assumes "rg_ok r"
  shows "rg_ok (fst (rg_get n r))" and "rg_capacity (fst (rg_get n r)) = rg_capacity r"
    and "rg_contents (fst (rg_get n r)) = drop n (rg_contents r)" and "snd (rg_get n r) = take n (rg_contents r)"
proof -
  have "rg_ok (fst (rg_get n r)) \<and> rg_capacity (fst (rg_get n r)) = rg_capacity r \<and>
    rg_contents (fst (rg_get n r)) = drop n (rg_contents r) \<and> snd (rg_get n r) = take n (rg_contents r)"
  proof (cases "rg_capacity r = 0 \<or> rg_available r = 0")
    case True
    with assms have "rg_available r = 0" by (auto simp: rg_ok_def)
    with assms show ?thesis by (simp add: rg_get_def rg_read_def rg_contents_def rg_wait.simps)
  next
    case False
    with read_ready [OF assms, of 0 0 n 0 "[]"] show ?thesis by (auto simp: rg_get_def)
  qed
  then show "rg_ok (fst (rg_get n r))" "rg_capacity (fst (rg_get n r)) = rg_capacity r"
    "rg_contents (fst (rg_get n r)) = drop n (rg_contents r)" "snd (rg_get n r) = take n (rg_contents r)" by simp_all
qed

interpretation ring: bounded_fifo "rg_put now" rg_get rg_contents rg_capacity rg_ok rg_short for now
proof
  fix q :: audio_ring and n
  assume "rg_ok q"
  then show "length (rg_contents q) \<le> rg_capacity q" by (simp add: rg_ok_def)
qed (simp_all add: rg_put_facts rg_get_facts)

lemma mk_ring_fields [simp]:
  "rg_contents (mk_ring c cap) = []" "rg_capacity (mk_ring c cap) = nat cap"
  by (simp_all add: mk_ring_def rg_contents_def Let_def)

lemma rg_ok_mk: "i32_ok cap \<Longrightarrow> rg_ok (mk_ring c cap)"
  by (auto simp: mk_ring_def rg_ok_def i32_ok_def Let_def)

section \<open>Properties\<close>

text \<open>
  C14: every write of a whole vector returns, whatever its length: the copy loop ends, the result
  is the vector's length (zero only on a buffer without capacity), the level is capped at the
  capacity even when the vector is longer than the buffer and the level wraps below zero on the
  way, and the buffer then holds the newest bytes, in order.
\<close>

theorem ring_write_keeps_newest:
  assumes "rg_ok r" and "length xs < 2 ^ 62"
  shows "\<exists>r'. rg_writeBuf now xs r = Some (r', if rg_capacity r = 0 then 0 else length xs) \<and> rg_ok r' \<and>
    rg_contents r' = drop (length (rg_contents r) + length xs - rg_capacity r) (rg_contents r @ xs)"
proof (cases "rg_capacity r = 0")
  case True
  with assms show ?thesis by (simp add: rg_writeBuf_def rg_write_def rg_ok_def rg_contents_def)
next
  case False
  then have c: "0 < rg_capacity r" by simp
  obtain r' where w: "rg_write now xs 0 (length xs) r = Some (r', length xs)"
    by (rule rg_write_Some [OF assms(1) c assms(2)])
  from write_refines(1,2) [OF assms(1) c assms(2) w] w c show ?thesis by (simp add: rg_writeBuf_def)
qed

theorem ring_write_keeps_newest_witness:
  "\<exists>r' n. rg_writeBuf 0 [1, 2, 3, 4, 5, 6, 7] (mk_ring default_config 4) = Some (r', n) \<and> rg_contents r' = [4, 5, 6, 7]"
proof -
  have "rg_ok (mk_ring default_config 4)" by (rule rg_ok_mk) (simp add: i32_ok_def)
  from ring_write_keeps_newest [OF this, of "[1, 2, 3, 4, 5, 6, 7]" 0] show ?thesis
    by auto
qed

text \<open>
  First in, first out. Over any sequence of writes and non-blocking reads, the bytes read
  followed by the bytes still queued are a subsequence of the bytes written: nothing is invented,
  duplicated or reordered, and what is missing was dropped by an overrun.
\<close>

theorem ring_fifo_subsequence:
  assumes "i32_ok cap" and "fifo_fitting rg_short ops" and "fifo_run (rg_put now) rg_get ops (mk_ring c cap) = (r', out)"
  shows "subseq (out @ rg_contents r') (fifo_written ops)"
proof -
  from ring.run_subseq [OF rg_ok_mk [OF assms(1), of c] assms(2), of now] assms(3) show ?thesis by simp
qed

theorem ring_fifo_subsequence_witness:
  "\<exists>r' out. fifo_run (rg_put 0) rg_get [FWrite [1, 2, 3], FRead 2, FWrite [4, 5, 6]] (mk_ring default_config 4) = (r', out) \<and>
     subseq (out @ rg_contents r') [1, 2, 3, 4, 5, 6]"
proof -
  obtain r' out where r: "fifo_run (rg_put 0) rg_get [FWrite [1, 2, 3], FRead 2, FWrite [4, 5, 6]] (mk_ring default_config 4) = (r', out)"
    by fastforce
  from ring_fifo_subsequence [OF _ _ r] have "subseq (out @ rg_contents r') [1, 2, 3, 4, 5, 6]"
    by (simp add: i32_ok_def fifo_fitting_def rg_short_def)
  with r show ?thesis by blast
qed

text \<open>
  As long as everything written fits the capacity, nothing is dropped: the bytes read and the
  bytes still queued are exactly the bytes written.
\<close>

theorem ring_lossless_within_capacity:
  assumes "i32_ok cap" and "fifo_fitting rg_short ops" and "int (length (fifo_written ops)) \<le> cap"
    and "fifo_run (rg_put now) rg_get ops (mk_ring c cap) = (r', out)"
  shows "out @ rg_contents r' = fifo_written ops"
proof -
  have "length (fifo_written ops) \<le> rg_capacity (mk_ring c cap)" using assms(3) by simp
  then show ?thesis
    using ring.run_lossless [OF rg_ok_mk [OF assms(1), of c] assms(2), of now] assms(4) by simp
qed

theorem ring_lossless_within_capacity_witness:
  "\<exists>r' out. fifo_run (rg_put 0) rg_get [FWrite [1, 2, 3], FRead 2, FWrite [4]] (mk_ring default_config 4) = (r', out) \<and>
     out @ rg_contents r' = [1, 2, 3, 4]"
proof -
  obtain r' out where r: "fifo_run (rg_put 0) rg_get [FWrite [1, 2, 3], FRead 2, FWrite [4]] (mk_ring default_config 4) = (r', out)"
    by fastforce
  from ring_lossless_within_capacity [OF _ _ _ r] have "out @ rg_contents r' = [1, 2, 3, 4]"
    by (simp add: i32_ok_def fifo_fitting_def rg_short_def)
  with r show ?thesis by blast
qed

lemma rg_wait_ends:
  assumes "rg_available r = 0 \<longrightarrow> timeoutMs \<noteq> 0" and "\<exists>e \<in> set script. fst e \<ge> deadline"
    and "\<forall>e \<in> set script. \<forall>r. rg_ok r \<longrightarrow> rg_ok (snd e r) \<and> rg_capacity (snd e r) = rg_capacity r"
    and "rg_ok r" and "timeoutMs \<noteq> 0"
  shows "case rg_wait wall deadline timeoutMs script r of None \<Rightarrow> False
    | Some (r', ready) \<Rightarrow> rg_ok r' \<and> rg_capacity r' = rg_capacity r \<and> (ready \<longrightarrow> rg_available r' \<noteq> 0)"
  using assms
proof (induction script arbitrary: r)
  case (Cons e script)
  obtain clock others where e: "e = (clock, others)" by (cases e)
  consider "rg_available r \<noteq> 0" | "rg_available r = 0" "clock \<ge> deadline" | "rg_available r = 0" "clock < deadline"
    by linarith
  then show ?case
  proof cases
    case 1
    then show ?thesis using Cons.prems(4) by (simp add: rg_wait.simps)
  next
    case 2
    have "rg_ok (noteUnderrun wall (r\<lparr>rg_underrunCount := rg_underrunCount r + 1\<rparr>))"
      using Cons.prems(4) by (simp add: rg_ok_def noteUnderrun_def Let_def)
    then show ?thesis using 2 Cons.prems(5) by (simp add: rg_wait.simps e noteUnderrun_def Let_def)
  next
    case 3
    have "rg_ok (others r)" "rg_capacity (others r) = rg_capacity r" using Cons.prems(3,4) by (auto simp: e)
    moreover have "rg_wait wall deadline timeoutMs (e # script) r = rg_wait wall deadline timeoutMs script (others r)"
      using 3 Cons.prems(5) by (subst rg_wait.simps) (simp add: e)
    ultimately show ?thesis
      using Cons.IH [of "others r"] Cons.prems(2,3,5) 3 by (simp add: e split: option.splits prod.splits)
  qed
qed simp

text \<open>
  C37: a blocking read always returns once the clock has reached its deadline, whatever the other
  threads do to the buffer while it waits; it returns nothing only as a timeout, and then counts
  an underrun.
\<close>

theorem ring_read_returns:
  assumes "rg_ok r" and "timeoutMs \<noteq> 0" and "\<exists>e \<in> set script. fst e \<ge> clock0 + max timeoutMs 0"
    and "\<forall>e \<in> set script. \<forall>r. rg_ok r \<longrightarrow> rg_ok (snd e r) \<and> rg_capacity (snd e r) = rg_capacity r"
  shows "\<exists>r' out. rg_read wall clock0 len timeoutMs script r = Some (r', out) \<and> rg_ok r' \<and> length out \<le> len"
proof (cases "rg_capacity r = 0")
  case True
  with assms(1) show ?thesis by (simp add: rg_read_def)
next
  case False
  have dl: "(if timeoutMs > 0 then timeoutMs else 0) = max timeoutMs 0" by simp
  obtain r1 ready where w:
    "rg_wait wall (clock0 + max timeoutMs 0) timeoutMs script r = Some (r1, ready)" "rg_ok r1" "rg_capacity r1 = rg_capacity r"
    "ready \<longrightarrow> rg_available r1 \<noteq> 0"
    using rg_wait_ends [OF _ assms(3,4,1,2), of wall] assms(2) by (auto split: option.splits)
  show ?thesis
  proof (cases ready)
    case True
    with w False have c: "0 < rg_capacity r1" "rg_available r1 \<noteq> 0" by auto
    from read_ready [OF w(2) c, of wall clock0 len timeoutMs "[]"] obtain r' where
      r': "rg_read wall clock0 len timeoutMs [] r1 = Some (r', take len (rg_contents r1))" "rg_ok r'" by blast
    have "rg_read wall clock0 len timeoutMs script r = rg_read wall clock0 len timeoutMs [] r1"
      using w(1) True False c unfolding rg_read_def dl by (simp add: rg_wait.simps [of _ _ _ "[]"])
    with r' show ?thesis by simp
  qed (use w False in \<open>simp add: rg_read_def dl\<close>)
qed

theorem ring_read_returns_witness:
  "\<exists>r' out. rg_read 0 100 4 20 [(105, rg_put 0 [7, 8]), (130, id)] (mk_ring default_config 4) = Some (r', out)"
proof -
  have "rg_ok (mk_ring default_config 4)" by (rule rg_ok_mk) (simp add: i32_ok_def)
  moreover have "\<forall>e \<in> set [(105 :: int, rg_put 0 [7, 8]), (130, id)]. \<forall>r. rg_ok r \<longrightarrow>
      rg_ok (snd e r) \<and> rg_capacity (snd e r) = rg_capacity r"
    by (simp add: rg_put_facts rg_short_def)
  ultimately show ?thesis
    using ring_read_returns [of "mk_ring default_config 4" 20 "[(105, rg_put 0 [7, 8]), (130, id)]" 100 0 4] by auto
qed

end
