(* ===== verification/Audio_Mixer.thy ===== *)
theory Audio_Mixer
  imports Ring_Buffer Fec_Decoder
begin

text \<open>
  The TX channel arbiter: \<open>src/net/AudioMixer.cpp\<close>. The registered clients are a map from id to
  priority, ownership is the optional (client, priority) pair, the callbacks that the source
  collects under the lock and runs after it are the list of notifications an operation returns, in
  call order. Every operation is one critical section; \<open>now\<close> is the reading of the injected clock
  and \<open>wall\<close> that of the ring buffer's own statistics clock.
\<close>

section \<open>State\<close>

datatype tx_priority = PrioLow | PrioNormal | PrioHigh | PrioExclusive

fun tx_priority_value :: "tx_priority \<Rightarrow> int" where
  "tx_priority_value PrioLow = 0"
| "tx_priority_value PrioNormal = 1"
| "tx_priority_value PrioHigh = 2"
| "tx_priority_value PrioExclusive = 3"

definition canPreempt :: "tx_priority \<Rightarrow> tx_priority \<Rightarrow> bool" where
  "canPreempt a b \<longleftrightarrow> tx_priority_value a > tx_priority_value b"

datatype tx_result = TxAccepted | TxRejected | TxPreemptedResult | TxDeclinedRecovered

datatype mixer_note =
    OnTxGranted string
  | OnPreempted string string
  | OnTxReleased string
  | OnOwnerChanged string
  | OnConflict string string

record audio_mixer =
  mx_config :: audio_stream_config
  mx_clients :: "string \<rightharpoonup> tx_priority"
  mx_running :: bool
  mx_ownership :: "(string \<times> tx_priority) option"
  mx_lastTxActivityTime :: int
  mx_txBuffer :: audio_ring

definition mk_audio_mixer :: "audio_stream_config \<Rightarrow> audio_mixer option" where
  "mk_audio_mixer c = map_option (\<lambda>buf. \<lparr>mx_config = c, mx_clients = Map.empty, mx_running = False,
     mx_ownership = None, mx_lastTxActivityTime = 0, mx_txBuffer = buf\<rparr>) (mk_ring_config c)"

section \<open>Ownership changes\<close>

definition granted_note :: "audio_mixer \<Rightarrow> string \<Rightarrow> mixer_note list" where
  "granted_note m cid = (case mx_clients m cid of Some _ \<Rightarrow> [OnTxGranted cid] | None \<Rightarrow> [])"

definition claimTxChannelLocked :: "int \<Rightarrow> string \<Rightarrow> tx_priority \<Rightarrow> audio_mixer \<Rightarrow> audio_mixer \<times> mixer_note list" where
  "claimTxChannelLocked now cid prio m =
     (m\<lparr>mx_ownership := Some (cid, prio), mx_lastTxActivityTime := now, mx_txBuffer := rg_clear (mx_txBuffer m)\<rparr>,
      granted_note m cid @ [OnOwnerChanged cid])"

definition preemptCurrentOwnerLocked :: "int \<Rightarrow> string \<Rightarrow> tx_priority \<Rightarrow> audio_mixer \<Rightarrow> audio_mixer \<times> mixer_note list" where
  "preemptCurrentOwnerLocked now newId newPrio m =
     (let previousOwner = (case mx_ownership m of Some (o', _) \<Rightarrow> o' | None \<Rightarrow> []);
          prev = (if previousOwner \<noteq> [] \<and> mx_clients m previousOwner \<noteq> None then [OnPreempted previousOwner newId] else [])
      in (m\<lparr>mx_txBuffer := rg_clear (mx_txBuffer m), mx_ownership := Some (newId, newPrio), mx_lastTxActivityTime := now\<rparr>,
          prev @ granted_note m newId @ [OnOwnerChanged newId]))"

definition releaseTxChannelLocked :: "string \<Rightarrow> audio_mixer \<Rightarrow> audio_mixer \<times> mixer_note list" where
  "releaseTxChannelLocked cid m =
     (case mx_ownership m of
        Some (o', _) \<Rightarrow>
          if o' \<noteq> cid then (m, [])
          else (m\<lparr>mx_ownership := None, mx_txBuffer := rg_clear (mx_txBuffer m)\<rparr>,
                (case mx_clients m cid of Some _ \<Rightarrow> [OnTxReleased cid] | None \<Rightarrow> []) @ [OnOwnerChanged []])
      | None \<Rightarrow> (m, []))"

section \<open>Operations\<close>

definition registerClient :: "string \<Rightarrow> tx_priority \<Rightarrow> audio_mixer \<Rightarrow> audio_mixer" where
  "registerClient cid prio m = m\<lparr>mx_clients := (mx_clients m)(cid \<mapsto> prio)\<rparr>"

definition owns :: "audio_mixer \<Rightarrow> string \<Rightarrow> bool" where
  "owns m cid \<longleftrightarrow> (case mx_ownership m of Some (o', _) \<Rightarrow> o' = cid | None \<Rightarrow> False)"

definition unregisterClient :: "string \<Rightarrow> audio_mixer \<Rightarrow> audio_mixer \<times> mixer_note list" where
  "unregisterClient cid m =
     (if mx_clients m cid = None then (m, [])
      else let m = m\<lparr>mx_clients := (mx_clients m)(cid := None)\<rparr>
        in if owns m cid then releaseTxChannelLocked cid m else (m, []))"

definition mixer_releaseTx :: "string \<Rightarrow> audio_mixer \<Rightarrow> audio_mixer \<times> mixer_note list" where
  "mixer_releaseTx cid m = (if owns m cid then releaseTxChannelLocked cid m else (m, []))"

definition submitTxAudio :: "int \<Rightarrow> int \<Rightarrow> string \<Rightarrow> bytes \<Rightarrow> provenance \<Rightarrow> audio_mixer \<Rightarrow>
    audio_mixer \<times> mixer_note list \<times> tx_result" where
  "submitTxAudio now wall cid data prov m =
     (case mx_clients m cid of
        None \<Rightarrow> (m, [], if prov = Recovered then TxDeclinedRecovered else TxRejected)
      | Some ourPriority \<Rightarrow>
          let recovered = (prov = Recovered);
              (m, notes, result, writeAudio) =
                (case mx_ownership m of
                   None \<Rightarrow>
                     if recovered then (m, [], TxDeclinedRecovered, False)
                     else (let (m, n) = claimTxChannelLocked now cid ourPriority m in (m, n, TxAccepted, True))
                 | Some (holder, holderPrio) \<Rightarrow>
                     if holder = cid then
                       ((if recovered then m else m\<lparr>mx_lastTxActivityTime := now\<rparr>), [], TxAccepted, True)
                     else if canPreempt ourPriority holderPrio then
                       if recovered then (m, [], TxDeclinedRecovered, False)
                       else (let (m, n) = preemptCurrentOwnerLocked now cid ourPriority m in (m, n, TxAccepted, True))
                     else if recovered then (m, [], TxDeclinedRecovered, False)
                     else (m, [OnConflict holder cid], TxRejected, False));
              m = (if writeAudio then m\<lparr>mx_txBuffer := rg_put wall data (mx_txBuffer m)\<rparr> else m)
          in (m, notes, result))"

definition currentTxOwner :: "audio_mixer \<Rightarrow> string" where
  "currentTxOwner m = (case mx_ownership m of Some (o', _) \<Rightarrow> o' | None \<Rightarrow> [])"

definition isTxOwner :: "string \<Rightarrow> audio_mixer \<Rightarrow> bool" where
  "isTxOwner cid m \<longleftrightarrow> cid \<noteq> [] \<and> owns m cid"

definition mixer_start :: "audio_mixer \<Rightarrow> audio_mixer" where
  "mixer_start m = (if mx_running m then m else m\<lparr>mx_running := True\<rparr>)"

definition mixer_stop :: "audio_mixer \<Rightarrow> audio_mixer" where
  "mixer_stop m = (if \<not> mx_running m then m
     else m\<lparr>mx_running := False, mx_ownership := None, mx_txBuffer := rg_clear (mx_txBuffer m)\<rparr>)"

definition mixer_checkIdleTimeout :: "int \<Rightarrow> audio_mixer \<Rightarrow> audio_mixer \<times> mixer_note list" where
  "mixer_checkIdleTimeout now m =
     (case mx_ownership m of
        None \<Rightarrow> (m, [])
      | Some (holder, _) \<Rightarrow>
          if now - mx_lastTxActivityTime m \<ge> txIdleTimeoutMs (mx_config m)
          then releaseTxChannelLocked holder m else (m, []))"

text \<open>The poll period of the idle thread.\<close>

definition idle_tickMs :: "audio_mixer \<Rightarrow> int" where
  "idle_tickMs m = min 500 (max 10 (txIdleTimeoutMs (mx_config m)))"

text \<open>
  One turn of the playback loop: the idle check, a read that may wait (see the ring buffer), and
  what goes to the device: whole frames of the bytes read, or one frame of silence.
\<close>

definition playback_turn :: "int \<Rightarrow> int \<Rightarrow> int \<Rightarrow> (int \<times> (audio_ring \<Rightarrow> audio_ring)) list \<Rightarrow> nat \<Rightarrow> nat \<Rightarrow> audio_mixer \<Rightarrow>
    (audio_mixer \<times> mixer_note list \<times> bytes option) option" where
  "playback_turn now wall clock0 script bufferBytes frameSize m =
     (let (m, notes) = mixer_checkIdleTimeout now m
      in do {
        (buf, out) \<leftarrow> rg_read wall clock0 bufferBytes (frameDurationMs (mx_config m) * 2) script (mx_txBuffer m);
        let m = m\<lparr>mx_txBuffer := buf\<rparr>;
        Some (m, notes,
          if out \<noteq> [] then Some (take (length out div frameSize * frameSize) out)
          else if rg_available buf = 0 then Some (replicate (bufferBytes div frameSize * frameSize) 0)
          else None)
      })"

text \<open>The calls that reach the arbiter, in any order.\<close>

datatype mixer_op =
    MxRegister string tx_priority
  | MxUnregister string
  | MxSubmit int int string bytes provenance
  | MxRelease string
  | MxIdle int
  | MxStart
  | MxStop
  | MxPlay nat

fun mixer_apply :: "mixer_op \<Rightarrow> audio_mixer \<Rightarrow> audio_mixer \<times> mixer_note list" where
  "mixer_apply (MxRegister cid p) m = (registerClient cid p m, [])"
| "mixer_apply (MxUnregister cid) m = unregisterClient cid m"
| "mixer_apply (MxSubmit now wall cid data prov) m = (let (m, n, r) = submitTxAudio now wall cid data prov m in (m, n))"
| "mixer_apply (MxRelease cid) m = mixer_releaseTx cid m"
| "mixer_apply (MxIdle now) m = mixer_checkIdleTimeout now m"
| "mixer_apply MxStart m = (mixer_start m, [])"
| "mixer_apply MxStop m = (mixer_stop m, [])"
| "mixer_apply (MxPlay k) m = (m\<lparr>mx_txBuffer := fst (rg_get k (mx_txBuffer m))\<rparr>, [])"

fun mixer_run :: "mixer_op list \<Rightarrow> audio_mixer \<Rightarrow> audio_mixer \<times> mixer_note list" where
  "mixer_run [] m = (m, [])"
| "mixer_run (op # ops) m = (let (m', n) = mixer_apply op m; (m'', n') = mixer_run ops m' in (m'', n @ n'))"

section \<open>Lemmas\<close>

lemmas mixer_defs = claimTxChannelLocked_def preemptCurrentOwnerLocked_def releaseTxChannelLocked_def
  registerClient_def unregisterClient_def mixer_releaseTx_def submitTxAudio_def mixer_start_def mixer_stop_def
  mixer_checkIdleTimeout_def owns_def granted_note_def Let_def

lemma rg_clear_facts [simp]:
  "rg_capacity (rg_clear r) = rg_capacity r" "rg_available (rg_clear r) = 0" "rg_contents (rg_clear r) = []"
  by (simp_all add: rg_clear_def rg_contents_def)

lemma rg_ok_clear [simp]: "rg_ok r \<Longrightarrow> rg_ok (rg_clear r)"
  by (auto simp: rg_ok_def rg_clear_def)

lemma rg_put_clear: "rg_ok r \<Longrightarrow> rg_short data \<Longrightarrow>
    rg_contents (rg_put wall data (rg_clear r)) = drop (length data - rg_capacity r) data"
  by (simp add: rg_put_facts)

text \<open>A repair, and a live frame that is refused, leave the arbitration state alone.\<close>

lemma submit_recovered:
  assumes "submitTxAudio now wall cid data Recovered m = (m', notes, res)"
  shows "notes = [] \<and> mx_ownership m' = mx_ownership m \<and> mx_lastTxActivityTime m' = mx_lastTxActivityTime m \<and>
    mx_clients m' = mx_clients m \<and> mx_config m' = mx_config m \<and>
    (if mx_clients m cid \<noteq> None \<and> owns m cid
     then res = TxAccepted \<and> mx_txBuffer m' = rg_put wall data (mx_txBuffer m)
     else res = TxDeclinedRecovered \<and> m' = m)"
  using assms by (auto simp: mixer_defs split: option.splits if_splits prod.splits)

section \<open>Invariant\<close>

definition mixer_ok :: "audio_mixer \<Rightarrow> bool" where
  "mixer_ok m \<longleftrightarrow> rg_ok (mx_txBuffer m) \<and> (mx_ownership m = None \<longrightarrow> rg_contents (mx_txBuffer m) = [])"

fun op_short :: "mixer_op \<Rightarrow> bool" where
  "op_short (MxSubmit now wall cid data prov) = rg_short data"
| "op_short _ = True"

lemma mixer_ok_submit:
  assumes "mixer_ok m" and "rg_short data" and "submitTxAudio now wall cid data prov m = (m', notes, res)"
  shows "mixer_ok m'"
proof (cases prov)
  case Live
  with assms show ?thesis
    by (auto simp: mixer_defs mixer_ok_def rg_put_facts split: option.splits if_splits prod.splits)
next
  case Recovered
  with assms(3) submit_recovered [of now wall cid data m] have "mx_ownership m' = mx_ownership m"
    and "m' = m \<or> owns m cid \<and> mx_txBuffer m' = rg_put wall data (mx_txBuffer m)"
    by (auto split: if_splits)
  with assms(1,2) show ?thesis
    by (auto simp: mixer_ok_def rg_put_facts owns_def split: option.splits)
qed

lemma mixer_ok_apply: "mixer_ok m \<Longrightarrow> op_short op \<Longrightarrow> mixer_ok (fst (mixer_apply op m))"
proof (cases op)
  case (MxSubmit now wall cid data prov)
  assume "mixer_ok m" "op_short op"
  with MxSubmit mixer_ok_submit [of m data now wall cid prov] show ?thesis
    by (auto split: prod.splits)
next
  case (MxPlay k)
  assume "mixer_ok m"
  with MxPlay show ?thesis by (simp add: mixer_ok_def rg_get_facts)
qed (auto simp: mixer_defs mixer_ok_def split: option.splits if_splits prod.splits)

lemma mixer_run_fst: "fst (mixer_run (op # ops) m) = fst (mixer_run ops (fst (mixer_apply op m)))"
  by (simp add: case_prod_beta)

lemma mixer_ok_run: "mixer_ok m \<Longrightarrow> list_all op_short ops \<Longrightarrow> mixer_ok (fst (mixer_run ops m))"
  by (induction ops arbitrary: m) (simp_all add: mixer_run_fst mixer_ok_apply del: mixer_run.simps(2))

lemma mk_mixer_ok:
  assumes "mk_audio_mixer c = Some m" shows "mixer_ok m" and "mx_ownership m = None" and "mx_clients m = Map.empty"
proof -
  obtain ms n where n: "msToBytes c ms = Some n" and m: "mx_txBuffer m = mk_ring c n" "mx_ownership m = None" "mx_clients m = Map.empty"
    using assms by (auto simp: mk_audio_mixer_def mk_ring_config_def bind_eq_Some_conv)
  from n obtain x where x: "i32_ok x" "n = cdiv x 1000"
    by (auto simp: msToBytes_def mul_i32_def bind_eq_Some_conv split: if_splits)
  have "i32_ok n"
  proof -
    have "\<bar>n\<bar> \<le> \<bar>x\<bar> div 1000" unfolding x(2) cdiv_def by (simp add: abs_mult abs_sgn_eq)
    with x(1) show ?thesis by (auto simp: i32_ok_def)
  qed
  with m show "mixer_ok m" by (simp add: mixer_ok_def rg_ok_mk)
  show "mx_ownership m = None" "mx_clients m = Map.empty" by (fact m)+
qed

section \<open>Announced ownership\<close>

text \<open>What a listener believes after a list of notifications.\<close>

fun heard_owner :: "string \<Rightarrow> mixer_note list \<Rightarrow> string" where
  "heard_owner cur [] = cur"
| "heard_owner cur (OnOwnerChanged x # ns) = heard_owner x ns"
| "heard_owner cur (_ # ns) = heard_owner cur ns"

lemma heard_owner_append: "heard_owner cur (xs @ ys) = heard_owner (heard_owner cur xs) ys"
  by (induction cur xs rule: heard_owner.induct) auto

lemma announce_step:
  assumes "op \<noteq> MxStop"
  shows "heard_owner (currentTxOwner m) (snd (mixer_apply op m)) = currentTxOwner (fst (mixer_apply op m))"
  using assms
  by (cases op) (auto simp: mixer_defs currentTxOwner_def heard_owner_append split: option.splits if_splits prod.splits)

lemma announce_run:
  "MxStop \<notin> set ops \<Longrightarrow> heard_owner (currentTxOwner m) (snd (mixer_run ops m)) = currentTxOwner (fst (mixer_run ops m))"
proof (induction ops arbitrary: m)
  case (Cons op ops)
  then have "op \<noteq> MxStop" by auto
  from announce_step [OF this, of m] Cons show ?case by (simp add: case_prod_beta heard_owner_append)
qed simp

section \<open>Who can hold the channel\<close>

text \<open>Without a live frame nobody gains the channel and the lease is not renewed.\<close>

fun op_live :: "mixer_op \<Rightarrow> bool" where
  "op_live (MxSubmit now wall cid data prov) = (prov = Live)"
| "op_live _ = False"

lemma no_live_step:
  assumes "\<not> op_live op"
  shows "mx_config (fst (mixer_apply op m)) = mx_config m \<and>
    (mx_ownership (fst (mixer_apply op m)) = None \<or>
     mx_ownership (fst (mixer_apply op m)) = mx_ownership m \<and>
     mx_lastTxActivityTime (fst (mixer_apply op m)) = mx_lastTxActivityTime m)"
proof (cases op)
  case (MxSubmit now wall cid data prov)
  then have "prov = Recovered" using assms by (cases prov) auto
  with MxSubmit submit_recovered [of now wall cid data m] show ?thesis
    by (cases "submitTxAudio now wall cid data Recovered m") auto
qed (auto simp: mixer_defs split: option.splits if_splits prod.splits)

lemma no_live_run:
  assumes "list_all (\<lambda>op. \<not> op_live op) ops"
  shows "mx_config (fst (mixer_run ops m)) = mx_config m \<and>
    (mx_ownership (fst (mixer_run ops m)) = None \<or>
     mx_ownership (fst (mixer_run ops m)) = mx_ownership m \<and>
     mx_lastTxActivityTime (fst (mixer_run ops m)) = mx_lastTxActivityTime m)"
  using assms
proof (induction ops arbitrary: m)
  case (Cons op ops)
  have st: "\<not> op_live op" "list_all (\<lambda>op. \<not> op_live op) ops" using Cons.prems by auto
  show ?case
    using no_live_step [OF st(1), of m] Cons.IH [OF st(2), of "fst (mixer_apply op m)"]
    unfolding mixer_run_fst by auto
qed simp

lemma mixer_run_append: "mixer_run (xs @ ys) m =
    (let (m', n) = mixer_run xs m; (m'', n') = mixer_run ys m' in (m'', n @ n'))"
  by (induction xs arbitrary: m) (auto simp: case_prod_beta Let_def)

section \<open>Properties\<close>

text \<open>
  C7: a frame rebuilt by FEC never arbitrates. Whoever holds the channel and whoever the frame is
  attributed to, submitting a recovered frame changes neither the owner nor the idle lease,
  notifies nobody, and never answers with a rejection; its audio is written exactly when the
  client is registered and already owns the channel, and otherwise nothing changes at all.
\<close>

theorem mixer_recovered_never_arbitrates:
  assumes "submitTxAudio now wall cid data Recovered m = (m', notes, res)"
  shows "notes = [] \<and> mx_ownership m' = mx_ownership m \<and> mx_lastTxActivityTime m' = mx_lastTxActivityTime m \<and>
    (if mx_clients m cid \<noteq> None \<and> owns m cid
     then res = TxAccepted \<and> mx_txBuffer m' = rg_put wall data (mx_txBuffer m)
     else res = TxDeclinedRecovered \<and> m' = m)"
  using submit_recovered [OF assms] by blast

definition demo_mixer :: audio_mixer where
  "demo_mixer = \<lparr>mx_config = default_config, mx_clients = [''a'' \<mapsto> PrioNormal, ''b'' \<mapsto> PrioNormal], mx_running = True,
     mx_ownership = Some (''a'', PrioNormal), mx_lastTxActivityTime = 1000, mx_txBuffer = mk_ring default_config 8\<rparr>"

theorem mixer_recovered_never_arbitrates_witness:
  "\<exists>m'. submitTxAudio 1200 0 ''b'' [1, 2] Recovered demo_mixer = (m', [], TxDeclinedRecovered) \<and> m' = demo_mixer"
proof -
  obtain m' ns res where r: "submitTxAudio 1200 0 ''b'' [1, 2] Recovered demo_mixer = (m', ns, res)" by (metis prod_cases3)
  from mixer_recovered_never_arbitrates [OF r] r show ?thesis by (simp add: demo_mixer_def owns_def)
qed

text \<open>
  The arbitration of a live frame from a registered client, row by row: it claims a free
  channel and then the buffer holds this frame alone; it renews the lease of its own channel and
  is queued behind its earlier audio; it displaces an owner of strictly lower priority and the
  displaced audio is gone; otherwise it is rejected, with one conflict notification and no effect
  on the state. The result PREEMPTED is never returned.
\<close>

theorem mixer_live_arbitration:
  assumes "mx_clients m cid = Some p" and "rg_ok (mx_txBuffer m)" and "rg_short data"
    and "submitTxAudio now wall cid data Live m = (m', notes, res)"
  shows "case mx_ownership m of
      None \<Rightarrow> res = TxAccepted \<and> mx_ownership m' = Some (cid, p) \<and> mx_lastTxActivityTime m' = now \<and>
        rg_contents (mx_txBuffer m') = drop (length data - rg_capacity (mx_txBuffer m)) data \<and>
        notes = [OnTxGranted cid, OnOwnerChanged cid]
    | Some (holder, hp) \<Rightarrow>
        if holder = cid then res = TxAccepted \<and> mx_ownership m' = mx_ownership m \<and> mx_lastTxActivityTime m' = now \<and>
          mx_txBuffer m' = rg_put wall data (mx_txBuffer m) \<and> notes = []
        else if canPreempt p hp then res = TxAccepted \<and> mx_ownership m' = Some (cid, p) \<and> mx_lastTxActivityTime m' = now \<and>
          rg_contents (mx_txBuffer m') = drop (length data - rg_capacity (mx_txBuffer m)) data \<and>
          last notes = OnOwnerChanged cid
        else res = TxRejected \<and> m' = m \<and> notes = [OnConflict holder cid]"
  using assms by (auto simp: mixer_defs rg_put_clear split: option.splits if_splits prod.splits)

theorem mixer_live_arbitration_witness:
  "\<exists>m'. submitTxAudio 1200 0 ''b'' [1, 2] Live demo_mixer = (m', [OnConflict ''a'' ''b''], TxRejected)"
proof -
  obtain m' ns res where r: "submitTxAudio 1200 0 ''b'' [1, 2] Live demo_mixer = (m', ns, res)" by (metis prod_cases3)
  have "rg_ok (mx_txBuffer demo_mixer)" by (simp add: demo_mixer_def rg_ok_mk i32_ok_def)
  with mixer_live_arbitration [OF _ _ _ r] r show ?thesis
    by (simp add: demo_mixer_def rg_short_def canPreempt_def)
qed

text \<open>
  C38: repairs cannot hold the channel open. Whatever happens after the owner's last live frame, as
  long as no live frame arrives, the first idle check at or after the configured timeout leaves
  the channel free.
\<close>

theorem mixer_idle_release_despite_repairs:
  assumes "list_all (\<lambda>op. \<not> op_live op) ops" and "now \<ge> mx_lastTxActivityTime m + txIdleTimeoutMs (mx_config m)"
  shows "mx_ownership (fst (mixer_run (ops @ [MxIdle now]) m)) = None"
proof -
  obtain m1 n1 where r: "mixer_run ops m = (m1, n1)" by fastforce
  from no_live_run [OF assms(1), of m] r assms(2)
  have "mx_ownership m1 = None \<or> now - mx_lastTxActivityTime m1 \<ge> txIdleTimeoutMs (mx_config m1)" by auto
  then show ?thesis
    by (auto simp: mixer_run_append r mixer_checkIdleTimeout_def releaseTxChannelLocked_def split: option.splits)
qed

theorem mixer_idle_release_despite_repairs_witness:
  "mx_ownership (fst (mixer_run ([MxSubmit 1300 0 ''a'' [1, 2] Recovered, MxSubmit 1450 0 ''a'' [3, 4] Recovered] @ [MxIdle 1500])
     demo_mixer)) = None"
  by (rule mixer_idle_release_despite_repairs) (simp_all add: demo_mixer_def default_config_def)

text \<open>
  An unowned channel is silent. Over any sequence of registrations, submissions, releases, idle
  checks, starts, stops and playback reads, the ring buffer keeps its invariant and holds no audio
  while nobody owns the channel.
\<close>

theorem mixer_unowned_is_silent:
  assumes "mk_audio_mixer c = Some m" and "list_all op_short ops" and "mx_ownership (fst (mixer_run ops m)) = None"
  shows "rg_contents (mx_txBuffer (fst (mixer_run ops m))) = []"
  using mixer_ok_run [OF mk_mixer_ok(1) [OF assms(1)] assms(2)] assms(3) by (simp add: mixer_ok_def)

theorem mixer_unowned_is_silent_witness:
  "\<exists>m. mk_audio_mixer default_config = Some m \<and>
     rg_contents (mx_txBuffer (fst (mixer_run [MxRegister ''a'' PrioNormal, MxSubmit 0 0 ''a'' [1, 2, 3] Live, MxIdle 900] m))) = []"
proof -
  obtain m where m: "mk_audio_mixer default_config = Some m" "mx_config m = default_config"
    by (simp add: mk_audio_mixer_def mk_ring_config_def config_calc_defs i32_ok_code default_config_def cdiv_def)
  let ?ops = "[MxRegister ''a'' PrioNormal, MxSubmit 0 0 ''a'' [1, 2, 3] Live, MxIdle 900]"
  have "mx_ownership (fst (mixer_run ?ops m)) = None"
    using mk_mixer_ok(2,3) [OF m(1)] m(2) by (simp add: mixer_defs default_config_def)
  with mixer_unowned_is_silent [OF m(1), of ?ops] m(1) show ?thesis by (simp add: rg_short_def del: mixer_run.simps)
qed

text \<open>
  A listener that starts from no owner and follows the owner-changed callbacks knows the true
  owner after every run that does not stop the mixer.
\<close>

theorem mixer_owner_changes_announced:
  assumes "mk_audio_mixer c = Some m" and "MxStop \<notin> set ops"
  shows "heard_owner [] (snd (mixer_run ops m)) = currentTxOwner (fst (mixer_run ops m))"
proof -
  have "currentTxOwner m = []" using mk_mixer_ok(2) [OF assms(1)] by (simp add: currentTxOwner_def)
  with announce_run [OF assms(2), of m] show ?thesis by simp
qed

theorem mixer_owner_changes_announced_witness:
  "\<exists>m. mk_audio_mixer default_config = Some m \<and>
     heard_owner [] (snd (mixer_run [MxRegister ''a'' PrioNormal, MxSubmit 0 0 ''a'' [1, 2, 3] Live] m)) = ''a''"
proof -
  obtain m where m: "mk_audio_mixer default_config = Some m" "mx_config m = default_config"
    by (simp add: mk_audio_mixer_def mk_ring_config_def config_calc_defs i32_ok_code default_config_def cdiv_def)
  let ?ops = "[MxRegister ''a'' PrioNormal, MxSubmit 0 0 ''a'' [1, 2, 3] Live]"
  have "currentTxOwner (fst (mixer_run ?ops m)) = ''a''"
    using mk_mixer_ok(2,3) [OF m(1)] by (simp add: mixer_defs currentTxOwner_def)
  with mixer_owner_changes_announced [OF m(1), of ?ops] m(1) show ?thesis by (simp del: mixer_run.simps)
qed

end
