(* ===== verification/Client_Session.thy ===== *)
theory Client_Session
  imports Protocol_Handler Format_Conversion Audio_Mixer
begin

text \<open>
  One client of the stream server: \<open>AudioStreamServer::ClientSession\<close> in
  \<open>src/src/net/AudioStreamServer.cpp\<close>. The state is the session's fields; the connection is the
  interface the session calls, so what it hands over is returned and the outcome of a send is an
  argument; the listener callbacks of the server are returned notifications. Modelled are the
  bounded outgoing queue and its writer, the per-subscription format conversion, the handshake with
  the independent grant of rate and layout, and the dispatch of received packets.
\<close>

section \<open>State\<close>

datatype outgoing = Out_control control_message | Out_audio bytes

text \<open>\<open>Count_eviction\<close> is the increment of \<open>outboundBacklogEvictions_\<close>.\<close>

datatype server_note =
    OnServerStarted int
  | OnServerStopped
  | OnClientConnected string string
  | OnClientDisconnected string
  | OnStreamStarted string
  | OnStreamStopped string
  | OnError string string
  | Count_eviction

record client_session =
  cs_clientId :: string
  cs_sessionConfig :: audio_stream_config
  cs_formatRequested :: bool
  cs_grantedLayout :: u8
  cs_decimator :: "decimator option"
  cs_closed :: bool
  cs_streaming :: bool
  cs_measuredLatencyMs :: int
  cs_txPriority :: tx_priority
  cs_clientInfo :: "client_info option"
  cs_txBytesSubmitted :: int
  cs_txBytesAccepted :: int
  cs_txDeniedCount :: int
  cs_outQueue :: "outgoing list"
  cs_outClosed :: bool
  cs_controlDropReported :: bool
  cs_outQueueBytes :: nat
  cs_outQueueMaxBytes :: nat

definition kOutQueueMaxDepth :: nat where "kOutQueueMaxDepth = 4096"

text \<open>The backlog cap, in 64-bit arithmetic; \<open>None\<close> when \<open>bytesPerSecond\<close> overflows.\<close>

definition backlog_cap :: "audio_stream_config \<Rightarrow> nat option" where
  "backlog_cap c = map_option (\<lambda>b. nat (cdiv (b * CONNECTION_TIMEOUT_MS) 1000 mod 2 ^ 64)) (bytesPerSecond c)"

definition mk_client_session :: "audio_stream_config \<Rightarrow> string \<Rightarrow> client_session option" where
  "mk_client_session config cid = map_option (\<lambda>cap.
     \<lparr>cs_clientId = cid, cs_sessionConfig = config, cs_formatRequested = False, cs_grantedLayout = 0, cs_decimator = None,
      cs_closed = False, cs_streaming = False, cs_measuredLatencyMs = 0, cs_txPriority = PrioNormal, cs_clientInfo = None,
      cs_txBytesSubmitted = 0, cs_txBytesAccepted = 0, cs_txDeniedCount = 0, cs_outQueue = [], cs_outClosed = False,
      cs_controlDropReported = False, cs_outQueueBytes = 0, cs_outQueueMaxBytes = cap\<rparr>) (backlog_cap config)"

section \<open>The outgoing queue\<close>

definition control_drop_text :: string where
  "control_drop_text = ''Outbound control queue at its depth cap ('' @ to_string kOutQueueMaxDepth @
     '' messages): dropping control traffic for a client that is not draining''"

definition enqueueControl :: "control_message \<Rightarrow> client_session \<Rightarrow> client_session \<times> server_note list" where
  "enqueueControl m s =
     (if cs_outClosed s then (s, [])
      else if length (cs_outQueue s) \<ge> kOutQueueMaxDepth then
        if \<not> cs_controlDropReported s
        then (s\<lparr>cs_controlDropReported := True\<rparr>, [OnError (cs_clientId s) control_drop_text])
        else (s, [])
      else (s\<lparr>cs_outQueue := cs_outQueue s @ [Out_control m]\<rparr>, []))"

definition backlog_text :: "client_session \<Rightarrow> string" where
  "backlog_text s = ''Outbound backlog limit reached ('' @ to_string (cs_outQueueBytes s) @ '' of '' @
     to_string (cs_outQueueMaxBytes s) @ '' bytes): client is not draining''"

definition enqueueRxAudio :: "bytes \<Rightarrow> client_session \<Rightarrow> bool \<times> client_session \<times> server_note list" where
  "enqueueRxAudio d s =
     (if cs_outClosed s then (True, s, [])
      else if cs_outQueueBytes s \<ge> cs_outQueueMaxBytes s
      then (False, s, [Count_eviction, OnError (cs_clientId s) (backlog_text s)])
      else (True, s\<lparr>cs_outQueueBytes := cs_outQueueBytes s + length d, cs_outQueue := cs_outQueue s @ [Out_audio d]\<rparr>, []))"

section \<open>Conversion to the granted format\<close>

text \<open>\<open>memcpy\<close> between little-endian PCM bytes and \<open>int16_t\<close>.\<close>

fun samples_of :: "bytes \<Rightarrow> int list" where
  "samples_of (lo # hi # bs) = sint (push_bit 8 (ucast hi) OR ucast lo :: u16) # samples_of bs"
| "samples_of _ = []"

definition sample_bytes :: "int \<Rightarrow> bytes" where
  "sample_bytes x = [byte_of 0 (word_of_int x :: u16), byte_of 1 (word_of_int x :: u16)]"

definition bytes_of :: "int list \<Rightarrow> bytes" where
  "bytes_of xs = concat (map sample_bytes xs)"

definition layout_stage :: "u8 \<Rightarrow> nat \<Rightarrow> int list \<Rightarrow> nat \<Rightarrow> int list" where
  "layout_stage layout nativeCh inp frames =
     (if layout = 0 then inp
      else if layout = 1 then downmixToMono inp frames
      else selectChannel inp frames nativeCh (if layout = 3 then 1 else 0))"

definition enqueueConvertedRxAudio ::
  "audio_stream_config \<Rightarrow> bytes \<Rightarrow> client_session \<Rightarrow> bool \<times> client_session \<times> server_note list" where
  "enqueueConvertedRxAudio native d s =
     (let nativeCh = nat (channels native); nativeFrameBytes = nativeCh * 2; frames = length d div nativeFrameBytes
      in if frames = 0 then (True, s, [])
         else let convIn = samples_of (take (frames * nativeFrameBytes) d);
                  stage = layout_stage (cs_grantedLayout s) nativeCh convIn frames;
                  (s, stageFrames, stage) =
                    (case cs_decimator s of
                       None \<Rightarrow> (s, frames, stage)
                     | Some dec \<Rightarrow>
                         let n = outputFramesFor frames dec; (dec, out) = dc_process stage frames dec
                         in (s\<lparr>cs_decimator := Some dec\<rparr>, n, out))
              in if stageFrames = 0 then (True, s, []) else enqueueRxAudio (bytes_of stage) s)"

definition receiveRxAudio ::
  "audio_stream_config \<Rightarrow> bytes \<Rightarrow> nat \<Rightarrow> nat \<Rightarrow> client_session \<Rightarrow> bool \<times> client_session \<times> server_note list" where
  "receiveRxAudio native d off len s =
     (if cs_closed s then (False, s, [])
      else if cs_grantedLayout s = 0 \<and> cs_decimator s = None then enqueueRxAudio (take len (drop off d)) s
      else enqueueConvertedRxAudio native (take len (drop off d)) s)"

section \<open>Callbacks of the arbiter, roster messages\<close>

definition cs_onPreempted :: "string \<Rightarrow> client_session \<Rightarrow> client_session \<times> server_note list" where
  "cs_onPreempted by s = enqueueControl (txPreempted by) s"

definition cs_onTxGranted :: "client_session \<Rightarrow> client_session \<times> server_note list" where
  "cs_onTxGranted s = (let (s, n) = enqueueControl (ofType TxGranted) s in (s\<lparr>cs_txDeniedCount := 0\<rparr>, n))"

definition cs_onTxReleased :: "client_session \<Rightarrow> client_session \<times> server_note list" where
  "cs_onTxReleased s = enqueueControl (ofType TxReleased) s"

definition sendControlMessage :: "control_message \<Rightarrow> client_session \<Rightarrow> client_session \<times> server_note list" where
  "sendControlMessage m s = (if cs_closed s \<or> \<not> cs_streaming s then (s, []) else enqueueControl m s)"

section \<open>The handshake\<close>

text \<open>The rate dimension of the grant: the decimation factor, 1 when nothing is asked or nothing can be served.\<close>

definition grant_factor :: "audio_stream_config \<Rightarrow> u32 \<Rightarrow> int" where
  "grant_factor native rq =
     (let rate = uint rq;
          divisor = rate > 0 \<and> rate \<le> sampleRate native \<and> sampleRate native mod rate = 0 \<and>
            (rate * frameDurationMs native) mod 1000 = 0
      in if rq \<noteq> 0 \<and> divisor \<and> supportsFactor (sampleRate native div rate) then sampleRate native div rate else 1)"

definition grant_layout :: "audio_stream_config \<Rightarrow> u8 \<Rightarrow> u8" where
  "grant_layout native layout = (if layout \<noteq> 0 \<and> layout \<le> 3 \<and> channels native = 2 then layout else 0)"

definition grant_format ::
  "audio_stream_config \<Rightarrow> rx_format_request \<Rightarrow> client_session \<Rightarrow> cpp_exn + client_session" where
  "grant_format native freq s =
     (let int16 = (bitsPerSample native = 16);
          factor = (if int16 then grant_factor native (rq_sampleRate freq) else 1);
          layout = (if int16 then grant_layout native (rq_layout freq) else 0);
          convChannels = (if layout \<noteq> 0 then 1 else channels native);
          s = s\<lparr>cs_formatRequested := True, cs_grantedLayout := layout,
                cs_sessionConfig := (cs_sessionConfig s)\<lparr>sampleRate := cdiv (sampleRate native) factor, channels := convChannels\<rparr>\<rparr>
      in if factor > 1 then (case mk_decimator factor convChannels of Inl e \<Rightarrow> Inl e | Inr d \<Rightarrow> Inr (s\<lparr>cs_decimator := Some d\<rparr>))
         else Inr s)"

text \<open>The buffer settings and the identity of the request.\<close>

definition apply_request :: "audio_stream_config \<Rightarrow> control_message \<Rightarrow> client_session \<Rightarrow> client_session" where
  "apply_request native msg s =
     (let s = (case parseConnectRequestConfig msg of
                 None \<Rightarrow> s
               | Some rq \<Rightarrow> s\<lparr>cs_sessionConfig := default_config\<lparr>sampleRate := sampleRate native,
                   bitsPerSample := bitsPerSample native, channels := channels native,
                   frameDurationMs := frameDurationMs native, bufferTargetMs := bufferTargetMs rq,
                   bufferMinMs := bufferMinMs rq, bufferMaxMs := bufferMaxMs rq\<rparr>\<rparr>)
      in case parseConnectRequestClientInfo msg of
           None \<Rightarrow> s | Some info \<Rightarrow> if \<not> ci_isEmpty info then s\<lparr>cs_clientInfo := Some info\<rparr> else s)"

text \<open>
  \<open>performHandshake\<close> on what \<open>receiveOnePacket\<close> returned; whether it succeeded. An exception is not caught
  on the session's thread.
\<close>

definition performHandshake ::
  "audio_stream_config \<Rightarrow> audio_packet option \<Rightarrow> client_session \<Rightarrow> cpp_exn + bool \<times> client_session" where
  "performHandshake native packet s =
     (case packet of
        None \<Rightarrow> Inr (False, s)
      | Some p \<Rightarrow>
          if ptype p \<noteq> Control then Inr (False, s)
          else case cm_deserialize (payload p) of
                 None \<Rightarrow> Inr (False, s)
               | Some msg \<Rightarrow>
                   if messageType msg \<noteq> ConnectRequest then Inr (False, s)
                   else let s = apply_request native msg s
                        in case parseConnectRequestFormatRequest msg of
                             None \<Rightarrow> Inr (True, s)
                           | Some freq \<Rightarrow> (case grant_format native freq s of Inl e \<Rightarrow> Inl e | Inr s \<Rightarrow> Inr (True, s)))"

text \<open>What \<open>runLoop\<close> does next: the re-derived cap and the two control messages of the reply.\<close>

definition handshake_config :: "client_session \<Rightarrow> control_message" where
  "handshake_config s =
     (if cs_formatRequested s then audioConfigV12 (cs_sessionConfig s) (cs_grantedLayout s) else audioConfig (cs_sessionConfig s))"

definition rederive_cap :: "client_session \<Rightarrow> client_session option" where
  "rederive_cap s = map_option (\<lambda>cap. s\<lparr>cs_outQueueMaxBytes := cap\<rparr>) (backlog_cap (cs_sessionConfig s))"

section \<open>The writer\<close>

text \<open>The locked section of \<open>writerLoop\<close>: the next item, \<open>None\<close> while the queue is empty.\<close>

definition writer_take :: "client_session \<Rightarrow> outgoing option \<times> client_session" where
  "writer_take s =
     (case cs_outQueue s of
        [] \<Rightarrow> (None, s)
      | item # rest \<Rightarrow>
          (Some item, s\<lparr>cs_outQueue := rest,
             cs_outQueueBytes := (case item of Out_audio d \<Rightarrow> cs_outQueueBytes s - length d | Out_control _ \<Rightarrow> cs_outQueueBytes s)\<rparr>))"

definition writer_failed :: "outgoing \<Rightarrow> client_session \<Rightarrow> server_note list" where
  "writer_failed item s =
     [OnError (cs_clientId s)
        (case item of
           Out_control _ \<Rightarrow> ''Send error: control message''
         | Out_audio d \<Rightarrow> ''Send error: RX audio frame ('' @ to_string (length d) @ '' bytes)'')]"

section \<open>Dispatch\<close>

definition handleTxAudio ::
  "int \<Rightarrow> int \<Rightarrow> bytes \<Rightarrow> provenance \<Rightarrow> client_session \<Rightarrow> audio_mixer option \<Rightarrow>
    client_session \<times> audio_mixer option \<times> mixer_note list \<times> server_note list" where
  "handleTxAudio now wall d prov s mixer =
     (let s = s\<lparr>cs_txBytesSubmitted := cs_txBytesSubmitted s + int (length d)\<rparr>
      in case mixer of
           None \<Rightarrow> (s, None, [], [])
         | Some mx \<Rightarrow>
             let (mx, mnotes, result) = submitTxAudio now wall (cs_clientId s) d prov mx
             in if result = TxAccepted then (s\<lparr>cs_txBytesAccepted := cs_txBytesAccepted s + int (length d)\<rparr>, Some mx, mnotes, [])
                else if result = TxRejected then
                  let denied = cs_txDeniedCount s + 1; s = s\<lparr>cs_txDeniedCount := denied\<rparr>
                  in if denied = 1
                     then let (s, n) = enqueueControl (txDenied (currentTxOwner mx)) s in (s, Some mx, mnotes, n)
                     else (s, Some mx, mnotes, [])
                else (s, Some mx, mnotes, []))"

text \<open>
  \<open>handleControlMessage\<close>: whether the session is to be closed. The difference with a time stamp of the peer
  is a signed 64-bit subtraction; \<open>None\<close> when it overflows.
\<close>

definition in_i64 :: "int \<Rightarrow> bool" where
  "in_i64 x \<longleftrightarrow> - (2 ^ 63) \<le> x \<and> x < 2 ^ 63"

definition cs_handleControlMessage ::
  "int \<Rightarrow> audio_packet \<Rightarrow> client_session \<Rightarrow> (bool \<times> client_session \<times> server_note list) option" where
  "cs_handleControlMessage nowNanos p s =
     (case cm_deserialize (payload p) of
        None \<Rightarrow> Some (False, s, [])
      | Some msg \<Rightarrow>
          if messageType msg = LatencyProbe then
            let (s, n) = enqueueControl (latencyResponse (parseLatencyTimestamp msg)) s in Some (False, s, n)
          else if messageType msg = LatencyResponse then
            let sent = sint (parseLatencyTimestamp msg)
            in if in_i64 (nowNanos - sent)
               then Some (False, s\<lparr>cs_measuredLatencyMs := cdiv (cdiv (nowNanos - sent) 1000000) 2\<rparr>, [])
               else None
          else if messageType msg = Disconnect then Some (True, s, [])
          else Some (False, s, []))"

section \<open>The queue's accounting\<close>

definition audio_of :: "outgoing \<Rightarrow> bytes" where
  "audio_of i = (case i of Out_audio d \<Rightarrow> d | Out_control _ \<Rightarrow> [])"

definition queue_audio :: "outgoing list \<Rightarrow> bytes" where
  "queue_audio q = concat (map audio_of q)"

definition queue_controls :: "outgoing list \<Rightarrow> nat" where
  "queue_controls q = length (filter (\<lambda>i. case i of Out_control _ \<Rightarrow> True | Out_audio _ \<Rightarrow> False) q)"

lemma queue_simps [simp]:
  "queue_audio [] = []" "queue_audio (i # q) = audio_of i @ queue_audio q" "queue_audio (p @ q) = queue_audio p @ queue_audio q"
  "audio_of (Out_audio d) = d" "audio_of (Out_control m) = []"
  "queue_controls [] = 0" "queue_controls (Out_audio d # q) = queue_controls q" "queue_controls (Out_control m # q) = Suc (queue_controls q)"
  "queue_controls (p @ q) = queue_controls p + queue_controls q"
  by (simp_all add: queue_audio_def audio_of_def queue_controls_def)

lemma queue_controls_le: "queue_controls q \<le> length q"
  by (simp add: queue_controls_def)

definition queue_ok :: "nat \<Rightarrow> client_session \<Rightarrow> bool" where
  "queue_ok m s \<longleftrightarrow> cs_outQueueBytes s = length (queue_audio (cs_outQueue s)) \<and> cs_outQueueBytes s \<le> cs_outQueueMaxBytes s + m \<and>
     queue_controls (cs_outQueue s) \<le> kOutQueueMaxDepth"

text \<open>The calls that touch the queue, from any thread in any order.\<close>

datatype queue_op = Q_control control_message | Q_audio bytes | Q_take | Q_close

fun queue_apply :: "queue_op \<Rightarrow> client_session \<Rightarrow> client_session" where
  "queue_apply (Q_control m) s = fst (enqueueControl m s)"
| "queue_apply (Q_audio d) s = fst (snd (enqueueRxAudio d s))"
| "queue_apply Q_take s = snd (writer_take s)"
| "queue_apply Q_close s = s\<lparr>cs_outClosed := True\<rparr>"

definition op_size :: "queue_op \<Rightarrow> nat" where
  "op_size op = (case op of Q_audio d \<Rightarrow> length d | _ \<Rightarrow> 0)"

lemma queue_apply_ok: "queue_ok m s \<Longrightarrow> op_size op \<le> m \<Longrightarrow> queue_ok m (queue_apply op s) \<and> cs_outQueueMaxBytes (queue_apply op s) = cs_outQueueMaxBytes s"
proof (cases op)
  case (Q_control c)
  assume ok: "queue_ok m s"
  show ?thesis
  proof (cases "length (cs_outQueue s) \<ge> kOutQueueMaxDepth")
    case False
    then have "queue_controls (cs_outQueue s) < kOutQueueMaxDepth" using queue_controls_le [of "cs_outQueue s"] by linarith
    then show ?thesis using ok by (simp add: Q_control enqueueControl_def queue_ok_def)
  qed (use ok in \<open>simp add: Q_control enqueueControl_def queue_ok_def\<close>)
next
  case Q_take
  assume "queue_ok m s"
  then show ?thesis by (auto simp: Q_take writer_take_def queue_ok_def split: list.splits outgoing.splits)
qed (auto simp: enqueueRxAudio_def queue_ok_def op_size_def)

lemma queue_run_ok: "queue_ok m s \<Longrightarrow> list_all (\<lambda>op. op_size op \<le> m) ops \<Longrightarrow>
    queue_ok m (fold queue_apply ops s) \<and> cs_outQueueMaxBytes (fold queue_apply ops s) = cs_outQueueMaxBytes s"
proof (induction ops arbitrary: s)
  case (Cons op ops)
  then show ?case using queue_apply_ok [of m s op] by auto
qed simp

section \<open>The conversion\<close>

lemma length_sample_bytes [simp]: "length (sample_bytes x) = 2"
  by (simp add: sample_bytes_def)

lemma length_bytes_of [simp]: "length (bytes_of xs) = 2 * length xs"
  by (induction xs) (simp_all add: bytes_of_def)

lemma bytes_of_append [simp]: "bytes_of (xs @ ys) = bytes_of xs @ bytes_of ys" "bytes_of [] = []"
  by (simp_all add: bytes_of_def)

lemma samples_of_append: "even (length xs) \<Longrightarrow> samples_of (xs @ ys) = samples_of xs @ samples_of ys"
  by (induction xs rule: samples_of.induct) simp_all

lemma length_samples_of: "length (samples_of xs) = length xs div 2"
  by (induction xs rule: samples_of.induct) simp_all

lemma sample_roundtrip: "i16_ok x \<Longrightarrow> samples_of (sample_bytes x) = [x]"
proof -
  assume "i16_ok x"
  then have "signed_take_bit 15 x = x" by (intro signed_take_bit_int_eq_self) (simp_all add: i16_ok_def)
  then have "sint (word_of_int x :: u16) = x" by (simp add: sint_sbintrunc')
  then show ?thesis using u16_join [of "word_of_int x"] by (simp add: sample_bytes_def)
qed

lemma samples_bytes_roundtrip: "list_all i16_ok xs \<Longrightarrow> samples_of (bytes_of xs) = xs"
proof (induction xs)
  case (Cons x xs)
  then show ?case using samples_of_append [of "sample_bytes x" "bytes_of xs"] sample_roundtrip [of x] by (simp add: bytes_of_def)
qed simp

text \<open>The reference: the layout of the whole stream, then the documented filter over it.\<close>

definition layout_ref :: "u8 \<Rightarrow> nat \<Rightarrow> int list \<Rightarrow> int list" where
  "layout_ref layout ch xs = layout_stage layout ch xs (length xs div ch)"

lemma layout_ref_append:
  assumes "0 < ch" "length xs = f * ch" "length ys = g * ch" "layout = 0 \<or> ch = 2"
  shows "layout_ref layout ch (xs @ ys) = layout_ref layout ch xs @ layout_ref layout ch ys"
proof (cases "layout = 0")
  case False
  then have ch: "ch = 2" using assms(4) by simp
  have n: "length (xs @ ys) div 2 = f + g" "length xs div 2 = f" "length ys div 2 = g" using assms(2,3) ch by simp_all
  have split: "map h [0..<f + g] = map h [0..<f] @ map (\<lambda>i. h (f + i)) [0..<g]" for h :: "nat \<Rightarrow> int"
    by (induction g) simp_all
  have ix: "(xs @ ys) ! (f * 2 + j) = ys ! j" "j < f * 2 \<Longrightarrow> (xs @ ys) ! j = xs ! j" for j
    using assms(2) ch by (simp_all add: nth_append)
  have l: "selectChannel (xs @ ys) (f + g) 2 c = selectChannel xs f 2 c @ selectChannel ys g 2 c" if "c < 2" for c
    using that unfolding selectChannel_def split
    by (auto simp: ix(2) add_mult_distrib add.assoc ix(1) intro!: map_cong)
  have m: "downmixToMono (xs @ ys) (f + g) = downmixToMono xs f @ downmixToMono ys g"
    unfolding downmixToMono_def Let_def split
    using ix(1) [of "2 * i" for i] ix(1) [of "2 * i + 1" for i] ix(2)
    by (auto simp: add_mult_distrib2 mult.commute intro!: map_cong)
  show ?thesis using False l m unfolding layout_ref_def layout_stage_def ch n by simp
qed (simp add: layout_ref_def layout_stage_def)

lemma length_layout_ref:
  assumes "0 < ch" "length xs = f * ch" "layout = 0 \<or> ch = 2"
  shows "length (layout_ref layout ch xs) = f * (if layout = 0 then ch else 1)"
  using assms by (auto simp: layout_ref_def layout_stage_def downmixToMono_def selectChannel_def)

text \<open>
  What a subscription is sent: the state after the native stream \<open>xs\<close> (\<open>f\<close> frames) has been fanned out to it,
  the decimator holding the tail of the converted stream.
\<close>

definition conv_channels :: "client_session \<Rightarrow> audio_stream_config \<Rightarrow> nat" where
  "conv_channels s native = (if cs_grantedLayout s = 0 then nat (channels native) else 1)"

definition rx_reference :: "audio_stream_config \<Rightarrow> client_session \<Rightarrow> int list \<Rightarrow> int list" where
  "rx_reference native s xs =
     (let ys = layout_ref (cs_grantedLayout s) (nat (channels native)) xs
      in case cs_decimator s of None \<Rightarrow> ys | Some d \<Rightarrow> decimate_ref (nat (dc_factor d)) (conv_channels s native) (dc_taps d) ys)"

definition conv_ready :: "audio_stream_config \<Rightarrow> client_session \<Rightarrow> int list \<Rightarrow> nat \<Rightarrow> bool" where
  "conv_ready native s xs f \<longleftrightarrow> 0 < channels native \<and> length xs = f * nat (channels native) \<and>
     (cs_grantedLayout s = 0 \<or> channels native = 2) \<and> \<not> cs_closed s \<and> \<not> cs_outClosed s \<and>
     (case cs_decimator s of None \<Rightarrow> cs_grantedLayout s \<noteq> 0
      | Some d \<Rightarrow> nat (dc_channels d) = conv_channels s native \<and>
          dec_inv d (layout_ref (cs_grantedLayout s) (nat (channels native)) xs) f)"

text \<open>The parts of the session that the conversion reads.\<close>

definition conv_kept :: "client_session \<Rightarrow> client_session \<Rightarrow> bool" where
  "conv_kept s s' \<longleftrightarrow> cs_grantedLayout s' = cs_grantedLayout s \<and> cs_closed s' = cs_closed s \<and> cs_outClosed s' = cs_outClosed s \<and>
     (case cs_decimator s of None \<Rightarrow> cs_decimator s' = None
      | Some d \<Rightarrow> (case cs_decimator s' of None \<Rightarrow> False
          | Some d' \<Rightarrow> dc_factor d' = dc_factor d \<and> dc_taps d' = dc_taps d \<and> dc_channels d' = dc_channels d))"

lemma conv_kept_reference: "conv_kept s s' \<Longrightarrow> rx_reference native s' xs = rx_reference native s xs"
  by (auto simp: conv_kept_def rx_reference_def conv_channels_def Let_def split: option.splits)

lemma enqueueRxAudio_accepted:
  assumes "enqueueRxAudio d s = (True, s', n)" "\<not> cs_outClosed s"
  shows "s' = s\<lparr>cs_outQueueBytes := cs_outQueueBytes s + length d, cs_outQueue := cs_outQueue s @ [Out_audio d]\<rparr>"
  using assms by (auto simp: enqueueRxAudio_def split: if_splits)

text \<open>One fan-out call of whole frames appends the reference of the longer stream.\<close>

lemma converted_call:
  assumes rdy: "conv_ready native s xs f" and len: "length d = g * (nat (channels native) * 2)"
    and call: "receiveRxAudio native d 0 (length d) s = (True, s', n)"
  shows "conv_ready native s' (xs @ samples_of d) (f + g) \<and> conv_kept s s' \<and>
    (\<exists>out. rx_reference native s (xs @ samples_of d) = rx_reference native s xs @ out \<and>
       queue_audio (cs_outQueue s') = queue_audio (cs_outQueue s) @ bytes_of out)"
proof -
  let ?ch = "nat (channels native)" and ?lay = "cs_grantedLayout s"
  have r: "0 < ?ch" "length xs = f * ?ch" "?lay = 0 \<or> ?ch = 2" "\<not> cs_closed s" "\<not> cs_outClosed s"
    using rdy by (auto simp: conv_ready_def)
  let ?in = "samples_of d"
  have lin: "length ?in = g * ?ch" by (simp add: length_samples_of len)
  have fr: "length d div (?ch * 2) = g" using len r(1) by simp
  let ?st = "layout_stage ?lay ?ch ?in g"
  have st: "layout_ref ?lay ?ch ?in = ?st" using lin r(1) by (simp add: layout_ref_def)
  have app: "layout_ref ?lay ?ch (xs @ ?in) = layout_ref ?lay ?ch xs @ ?st"
    using layout_ref_append [OF r(1,2) lin r(3)] st by simp
  have conv: "enqueueConvertedRxAudio native d s = (True, s', n)"
    using call r(4) rdy by (auto simp: receiveRxAudio_def conv_ready_def split: if_splits)
  show ?thesis
  proof (cases "g = 0")
    case True
    then have "d = []" using len by simp
    then show ?thesis using conv rdy True by (auto simp: enqueueConvertedRxAudio_def Let_def conv_kept_def split: option.splits)
  next
    case g: False
    have tk: "take (length d div (?ch * 2) * (?ch * 2)) d = d" using len r(1) by simp
    show ?thesis
    proof (cases "cs_decimator s")
      case None
      with conv g have "enqueueRxAudio (bytes_of ?st) s = (True, s', n)"
        by (simp add: enqueueConvertedRxAudio_def Let_def fr tk [unfolded fr])
      from enqueueRxAudio_accepted [OF this r(5)] have "s' = s\<lparr>cs_outQueueBytes := cs_outQueueBytes s + length (bytes_of ?st), cs_outQueue := cs_outQueue s @ [Out_audio (bytes_of ?st)]\<rparr>" .
      moreover have "channels native = 2" using rdy None by (auto simp: conv_ready_def)
      ultimately show ?thesis using rdy None app lin by (simp add: conv_ready_def conv_kept_def rx_reference_def Let_def)
    next
      case (Some dec)
      obtain dec' out where pr: "dc_process ?st g dec = (dec', out)" by fastforce
      have inv: "dec_inv dec (layout_ref ?lay ?ch xs) f" and dch: "nat (dc_channels dec) = conv_channels s native"
        using rdy Some by (simp_all add: conv_ready_def)
      have lst: "length ?st = g * nat (dc_channels dec)"
        using length_layout_ref [OF r(1) lin r(3)] st by (simp add: dch conv_channels_def)
      note sp = process_spec [OF inv refl refl lst pr]
      note of = outputFramesFor_process [OF inv lst pr]
      have "queue_audio (cs_outQueue s') = queue_audio (cs_outQueue s) @ bytes_of out \<and>
        cs_grantedLayout s' = ?lay \<and> \<not> cs_closed s' \<and> \<not> cs_outClosed s' \<and> cs_decimator s' = Some dec'"
      proof (cases "outputFramesFor g dec = 0")
        case True
        then have "out = []" using of by simp
        with True conv g show ?thesis using r(4,5)
          by (auto simp: enqueueConvertedRxAudio_def Let_def fr tk [unfolded fr] Some pr)
      next
        case False
        with conv g have "enqueueRxAudio (bytes_of out) (s\<lparr>cs_decimator := Some dec'\<rparr>) = (True, s', n)"
          by (simp add: enqueueConvertedRxAudio_def Let_def fr tk [unfolded fr] Some pr)
        from enqueueRxAudio_accepted [OF this] show ?thesis using r(4,5) by simp
      qed
      then show ?thesis using rdy Some app lin sp dch
        by (simp add: conv_ready_def conv_kept_def rx_reference_def conv_channels_def Let_def add_mult_distrib)
    qed
  qed
qed

text \<open>
  The life of one subscription: fan-out calls, control messages and the writer, in any order, with what the
  writer has put on the wire so far. It ends when a fan-out call reports failure, which evicts the session.
\<close>

datatype session_op = S_rx bytes | S_control control_message | S_take

definition session_step :: "audio_stream_config \<Rightarrow> session_op \<Rightarrow> client_session \<times> bytes \<Rightarrow> (client_session \<times> bytes) option" where
  "session_step native op st = (let (s, wire) = st in case op of
     S_rx d \<Rightarrow> (case receiveRxAudio native d 0 (length d) s of (ok, s', _) \<Rightarrow> if ok then Some (s', wire) else None)
   | S_control m \<Rightarrow> Some (fst (enqueueControl m s), wire)
   | S_take \<Rightarrow> (case writer_take s of (item, s') \<Rightarrow> Some (s', wire @ (case item of None \<Rightarrow> [] | Some i \<Rightarrow> audio_of i))))"

fun session_run :: "audio_stream_config \<Rightarrow> session_op list \<Rightarrow> client_session \<times> bytes \<Rightarrow> (client_session \<times> bytes) option" where
  "session_run native [] st = Some st"
| "session_run native (op # ops) st = (case session_step native op st of None \<Rightarrow> None | Some st' \<Rightarrow> session_run native ops st')"

definition op_rx :: "session_op \<Rightarrow> bytes" where
  "op_rx op = (case op of S_rx d \<Rightarrow> d | _ \<Rightarrow> [])"

definition rx_input :: "session_op list \<Rightarrow> bytes" where
  "rx_input ops = concat (map op_rx ops)"

text \<open>What the subscription is owed for a native stream: the bytes themselves without a conversion.\<close>

definition owed :: "audio_stream_config \<Rightarrow> client_session \<Rightarrow> bytes \<Rightarrow> bytes" where
  "owed native s d =
     (if cs_grantedLayout s = 0 \<and> cs_decimator s = None then d else bytes_of (rx_reference native s (samples_of d)))"

definition delivered :: "client_session \<times> bytes \<Rightarrow> bytes" where
  "delivered st = snd st @ queue_audio (cs_outQueue (fst st))"

lemma conv_frame: "cs_grantedLayout s' = cs_grantedLayout s \<Longrightarrow> cs_decimator s' = cs_decimator s \<Longrightarrow>
    cs_closed s' = cs_closed s \<Longrightarrow> cs_outClosed s' = cs_outClosed s \<Longrightarrow>
    conv_kept s s' \<and> (conv_ready native s xs f \<longrightarrow> conv_ready native s' xs f)"
  by (auto simp: conv_kept_def conv_ready_def conv_channels_def split: option.splits)

lemma enqueueControl_frame:
  "cs_grantedLayout (fst (enqueueControl m s)) = cs_grantedLayout s" "cs_decimator (fst (enqueueControl m s)) = cs_decimator s"
  "cs_closed (fst (enqueueControl m s)) = cs_closed s" "cs_outClosed (fst (enqueueControl m s)) = cs_outClosed s"
  "queue_audio (cs_outQueue (fst (enqueueControl m s))) = queue_audio (cs_outQueue s)"
  by (simp_all add: enqueueControl_def)

lemma writer_take_frame:
  "cs_grantedLayout (snd (writer_take s)) = cs_grantedLayout s" "cs_decimator (snd (writer_take s)) = cs_decimator s"
  "cs_closed (snd (writer_take s)) = cs_closed s" "cs_outClosed (snd (writer_take s)) = cs_outClosed s"
  "(case fst (writer_take s) of None \<Rightarrow> [] | Some i \<Rightarrow> audio_of i) @ queue_audio (cs_outQueue (snd (writer_take s))) = queue_audio (cs_outQueue s)"
  by (simp_all add: writer_take_def split: list.splits)

lemma session_step_reference:
  assumes rdy: "conv_ready native s xs f" and whole: "nat (channels native) * 2 dvd length (op_rx op)"
    and st: "session_step native op (s, wire) = Some (s', wire')"
  shows "\<exists>g out. conv_ready native s' (xs @ samples_of (op_rx op)) g \<and> conv_kept s s' \<and>
    rx_reference native s (xs @ samples_of (op_rx op)) = rx_reference native s xs @ out \<and>
    delivered (s', wire') = delivered (s, wire) @ bytes_of out"
proof (cases op)
  case (S_rx d)
  obtain g where g: "length d = g * (nat (channels native) * 2)" using whole by (auto simp: S_rx op_rx_def dvd_def mult.commute)
  from st obtain n where "receiveRxAudio native d 0 (length d) s = (True, s', n)" "wire' = wire"
    by (auto simp: session_step_def S_rx split: prod.splits if_splits)
  with converted_call [OF rdy g] show ?thesis by (fastforce simp: S_rx op_rx_def delivered_def)
next
  case (S_control m)
  then have "s' = fst (enqueueControl m s)" "wire' = wire" using st by (simp_all add: session_step_def)
  with conv_frame [OF enqueueControl_frame(1-4) [of m s], of native xs f] rdy show ?thesis
    by (intro exI [of _ f] exI [of _ "[]"]) (simp add: S_control op_rx_def delivered_def enqueueControl_frame)
next
  case S_take
  then have "s' = snd (writer_take s)" "wire' = wire @ (case fst (writer_take s) of None \<Rightarrow> [] | Some i \<Rightarrow> audio_of i)"
    using st by (auto simp: session_step_def split: prod.splits)
  with conv_frame [OF writer_take_frame(1-4) [of s], of native xs f] rdy writer_take_frame(5) [of s] show ?thesis
    by (intro exI [of _ f] exI [of _ "[]"]) (simp add: S_take op_rx_def delivered_def)
qed

lemma session_run_reference:
  assumes "conv_ready native s xs f" "list_all (\<lambda>op. nat (channels native) * 2 dvd length (op_rx op)) ops"
    "session_run native ops (s, wire) = Some (s', wire')"
  shows "\<exists>out. rx_reference native s (xs @ samples_of (rx_input ops)) = rx_reference native s xs @ out \<and>
    delivered (s', wire') = delivered (s, wire) @ bytes_of out"
  using assms
proof (induction ops arbitrary: s xs f wire)
  case (Cons op ops)
  from Cons.prems(3) obtain t w where st: "session_step native op (s, wire) = Some (t, w)"
    and rest: "session_run native ops (t, w) = Some (s', wire')" by (auto split: option.splits)
  have w: "nat (channels native) * 2 dvd length (op_rx op)" using Cons.prems(2) by simp
  from session_step_reference [OF Cons.prems(1) this st] obtain g out where
    c: "conv_ready native t (xs @ samples_of (op_rx op)) g" "conv_kept s t"
    "rx_reference native s (xs @ samples_of (op_rx op)) = rx_reference native s xs @ out"
    "delivered (t, w) = delivered (s, wire) @ bytes_of out" by blast
  from Cons.IH [OF c(1) _ rest] Cons.prems(2) obtain out' where
    r: "rx_reference native t ((xs @ samples_of (op_rx op)) @ samples_of (rx_input ops)) =
      rx_reference native t (xs @ samples_of (op_rx op)) @ out'"
    "delivered (s', wire') = delivered (t, w) @ bytes_of out'" by auto
  have "even (length (op_rx op))" using w by (meson dvd_trans dvd_triv_right)
  from samples_of_append [OF this] have "samples_of (rx_input (op # ops)) = samples_of (op_rx op) @ samples_of (rx_input ops)"
    by (simp add: rx_input_def)
  with r c(2-4) show ?case by (intro exI [of _ "out @ out'"]) (simp add: conv_kept_reference)
qed (simp add: rx_input_def)

lemma session_run_native:
  assumes "cs_grantedLayout s = 0" "cs_decimator s = None" "\<not> cs_outClosed s" "session_run native ops (s, wire) = Some (s', wire')"
  shows "delivered (s', wire') = delivered (s, wire) @ rx_input ops"
  using assms
proof (induction ops arbitrary: s wire)
  case (Cons op ops)
  from Cons.prems(4) obtain t w where st: "session_step native op (s, wire) = Some (t, w)"
    and rest: "session_run native ops (t, w) = Some (s', wire')" by (auto split: option.splits)
  have "delivered (t, w) = delivered (s, wire) @ op_rx op \<and> cs_grantedLayout t = 0 \<and> cs_decimator t = None \<and> \<not> cs_outClosed t"
  proof (cases op)
    case (S_rx d)
    with st Cons.prems(1-3) show ?thesis
      by (auto simp: session_step_def receiveRxAudio_def enqueueRxAudio_def delivered_def op_rx_def split: prod.splits if_splits)
  next
    case (S_control m)
    with st Cons.prems(1-3) show ?thesis by (auto simp: session_step_def enqueueControl_frame delivered_def op_rx_def)
  next
    case S_take
    with st Cons.prems(1-3) writer_take_frame [of s] show ?thesis
      by (auto simp: session_step_def delivered_def op_rx_def split: prod.splits)
  qed
  with Cons.IH [of t w] rest show ?case by (simp add: rx_input_def)
qed (simp add: rx_input_def)

section \<open>The handshake's grant\<close>

lemma mk_client_session_fresh:
  "mk_client_session config cid = Some s \<Longrightarrow> cs_decimator s = None \<and> cs_grantedLayout s = 0 \<and> \<not> cs_closed s \<and> \<not> cs_outClosed s \<and>
    cs_outQueue s = [] \<and> cs_outQueueBytes s = 0 \<and> \<not> cs_formatRequested s \<and> cs_sessionConfig s = config"
  by (auto simp: mk_client_session_def)

text \<open>What the handshake may change before the grant.\<close>

definition same_stream :: "client_session \<Rightarrow> client_session \<Rightarrow> bool" where
  "same_stream s s' \<longleftrightarrow> cs_outQueue s' = cs_outQueue s \<and> cs_outQueueBytes s' = cs_outQueueBytes s \<and> cs_closed s' = cs_closed s \<and> cs_outClosed s' = cs_outClosed s"

lemma grant_format_spec:
  assumes "grant_format native rq s = Inr s'"
  shows "same_stream s s' \<and> (cs_grantedLayout s' = 0 \<or> channels native = 2) \<and>
    (case cs_decimator s' of None \<Rightarrow> True
     | Some d \<Rightarrow> cs_decimator s = Some d \<or> dec_inv d [] 0 \<and> dc_channels d = (if cs_grantedLayout s' = 0 then channels native else 1))"
proof -
  obtain factor layout where f: "factor = (if bitsPerSample native = 16 then grant_factor native (rq_sampleRate rq) else 1)"
    and l: "layout = (if bitsPerSample native = 16 then grant_layout native (rq_layout rq) else 0)" by simp
  let ?ch = "if layout \<noteq> 0 then 1 else channels native"
  have lay: "layout = 0 \<or> channels native = 2" by (simp add: l grant_layout_def)
  show ?thesis
  proof (cases "factor > 1")
    case True
    with assms obtain d where d: "mk_decimator factor ?ch = Inr d"
      and s': "cs_decimator s' = Some d" "cs_grantedLayout s' = layout" "same_stream s s'"
      by (auto simp: grant_format_def Let_def same_stream_def simp flip: f l split: sum.splits)
    from mk_decimator_Inr [OF d] True s' lay show ?thesis by auto
  next
    case False
    with assms lay show ?thesis
      by (auto simp: grant_format_def Let_def same_stream_def simp flip: f l split: option.splits)
  qed
qed

lemma apply_request_frame:
  "same_stream s (apply_request native msg s)" "cs_decimator (apply_request native msg s) = cs_decimator s"
  "cs_grantedLayout (apply_request native msg s) = cs_grantedLayout s"
  by (auto simp: apply_request_def Let_def same_stream_def split: option.split)

lemma performHandshake_cases:
  assumes "performHandshake native packet s0 = Inr (ok, s)"
  shows "\<exists>t. same_stream s0 t \<and> cs_decimator t = cs_decimator s0 \<and> cs_grantedLayout t = cs_grantedLayout s0 \<and>
    (s = t \<or> (\<exists>rq. grant_format native rq t = Inr s))"
proof -
  from assms have "s = s0 \<or> (\<exists>msg. s = apply_request native msg s0 \<or> (\<exists>rq. grant_format native rq (apply_request native msg s0) = Inr s))"
    by (auto simp: performHandshake_def Let_def split: option.splits if_splits sum.splits)
  then show ?thesis
  proof (elim disjE exE)
    assume "s = s0"
    then show ?thesis by (intro exI [of _ s0]) (simp add: same_stream_def)
  next
    fix msg assume "s = apply_request native msg s0"
    then show ?thesis using apply_request_frame by blast
  next
    fix msg rq assume "grant_format native rq (apply_request native msg s0) = Inr s"
    then show ?thesis using apply_request_frame by blast
  qed
qed

lemma handshake_ready:
  assumes fresh: "mk_client_session config cid = Some s0" and hs: "performHandshake native packet s0 = Inr (ok, s)"
    and conv: "\<not> (cs_grantedLayout s = 0 \<and> cs_decimator s = None)"
  shows "conv_ready native s [] 0"
proof -
  note fr = mk_client_session_fresh [OF fresh]
  from performHandshake_cases [OF hs] conv fr obtain t rq where g: "grant_format native rq t = Inr s"
    and t: "cs_decimator t = None" "\<not> cs_closed t" "\<not> cs_outClosed t"
    by (auto simp: same_stream_def)
  note sp = grant_format_spec [OF g]
  have "0 < channels native"
  proof (cases "cs_decimator s")
    case (Some d)
    with sp t show ?thesis by (auto simp: dec_inv_def Let_def split: if_splits)
  qed (use sp conv in auto)
  with sp t conv show ?thesis
    by (auto simp: conv_ready_def same_stream_def conv_channels_def layout_ref_def layout_stage_def downmixToMono_def selectChannel_def
        split: option.splits)
qed

lemma handshake_keeps_queue:
  assumes "performHandshake native packet s0 = Inr (ok, s)"
  shows "same_stream s0 s"
proof -
  from performHandshake_cases [OF assms] obtain t where "same_stream s0 t" "s = t \<or> (\<exists>rq. grant_format native rq t = Inr s)" by blast
  then show ?thesis using grant_format_spec [of native _ t s] by (auto simp: same_stream_def)
qed

text \<open>The grant in the terms of the specification: each dimension on its own merits.\<close>

definition rate_servable :: "audio_stream_config \<Rightarrow> int \<Rightarrow> bool" where
  "rate_servable native rate \<longleftrightarrow> 0 < rate \<and> (rate * frameDurationMs native) mod 1000 = 0 \<and>
     sampleRate native \<in> {rate, 2 * rate, 3 * rate, 4 * rate, 6 * rate}"

definition layout_servable :: "audio_stream_config \<Rightarrow> u8 \<Rightarrow> bool" where
  "layout_servable native layout \<longleftrightarrow> channels native = 2 \<and> layout \<in> {1, 2, 3}"

lemma supportsFactor_iff: "supportsFactor f \<longleftrightarrow> f \<in> {1, 2, 3, 4, 6}"
  by (auto simp: supportsFactor_def findTable_def)

lemma grant_factor_servable:
  assumes "0 < sampleRate native"
  shows "grant_factor native rq = (if rate_servable native (uint rq) then sampleRate native div uint rq else 1)"
proof -
  let ?r = "uint rq" and ?n = "sampleRate native"
  have pos: "rq \<noteq> 0 \<longleftrightarrow> 0 < ?r" using uint_0_iff [of rq] uint_ge_0 [of rq] by linarith
  have "?r \<le> ?n \<and> ?n mod ?r = 0 \<and> supportsFactor (?n div ?r) \<longleftrightarrow> ?n \<in> {?r, 2 * ?r, 3 * ?r, 4 * ?r, 6 * ?r}" if r: "0 < ?r"
  proof -
    have k: "?n mod ?r = 0 \<and> ?n div ?r = k \<longleftrightarrow> ?n = k * ?r" for k using r div_mult_mod_eq [of ?n ?r] by auto
    have le: "?n mod ?r = 0 \<Longrightarrow> ?r \<le> ?n" using assms by (simp add: zdvd_imp_le mod_0_imp_dvd)
    have "?n mod ?r = 0 \<and> supportsFactor (?n div ?r) \<longleftrightarrow> (\<exists>f \<in> {1, 2, 3, 4, 6}. ?n mod ?r = 0 \<and> ?n div ?r = f)"
      unfolding supportsFactor_iff by auto
    also have "\<dots> \<longleftrightarrow> ?n \<in> {?r, 2 * ?r, 3 * ?r, 4 * ?r, 6 * ?r}" unfolding k by auto
    finally show ?thesis using le by argo
  qed
  then have "rq \<noteq> 0 \<and> (0 < ?r \<and> ?r \<le> ?n \<and> ?n mod ?r = 0 \<and> (?r * frameDurationMs native) mod 1000 = 0) \<and> supportsFactor (?n div ?r)
    \<longleftrightarrow> rate_servable native ?r"
    unfolding pos rate_servable_def by argo
  then show ?thesis unfolding grant_factor_def Let_def by simp
qed

lemma grant_layout_servable: "grant_layout native layout = (if layout_servable native layout then layout else 0)"
proof -
  have "layout \<noteq> 0 \<and> layout \<le> 3 \<longleftrightarrow> layout \<in> {1, 2, 3}"
  proof
    assume "layout \<noteq> 0 \<and> layout \<le> 3"
    then have "unat layout \<noteq> 0" "unat layout \<le> 3" by (simp_all add: word_le_nat_alt unat_eq_zero)
    then have "unat layout = 1 \<or> unat layout = 2 \<or> unat layout = 3" by linarith
    then show "layout \<in> {1, 2, 3}" by (auto simp: word_unat_eq_iff unat_numeral)
  qed auto
  then show ?thesis by (auto simp: grant_layout_def layout_servable_def)
qed

lemma parseConnectRequestConfig_range:
  assumes "parseConnectRequestConfig m = Some c"
  shows "0 \<le> bufferTargetMs c \<and> bufferTargetMs c < 65536 \<and> 0 \<le> bufferMinMs c \<and> bufferMinMs c < 65536 \<and> 0 \<le> bufferMaxMs c \<and> bufferMaxMs c < 65536"
proof -
  from assms obtain t mn mx :: u16 where "c = default_config\<lparr>bufferTargetMs := uint t, bufferMinMs := uint mn, bufferMaxMs := uint mx\<rparr>"
    by (auto simp: parseConnectRequestConfig_def Let_def split: prod.splits if_splits)
  then show ?thesis using uint_lt2p [of t] uint_lt2p [of mn] uint_lt2p [of mx] by simp
qed

lemma apply_request_config:
  assumes "config_wire_ok native" "cs_sessionConfig s = native"
  shows "config_wire_ok (cs_sessionConfig (apply_request native msg s)) \<and>
    sampleRate (cs_sessionConfig (apply_request native msg s)) = sampleRate native \<and>
    channels (cs_sessionConfig (apply_request native msg s)) = channels native"
  using assms parseConnectRequestConfig_range [of msg]
  by (auto simp: apply_request_def Let_def config_wire_ok_def split: option.split)

lemma granted_wire_ok:
  assumes "config_wire_ok c" "0 < sampleRate c" "0 < f" "k = 1 \<or> k = channels c"
  shows "config_wire_ok (c\<lparr>sampleRate := cdiv (sampleRate c) f, channels := k\<rparr>)"
proof -
  have "0 \<le> sampleRate c div f" "sampleRate c div f \<le> sampleRate c" using assms(2,3) using zdiv_mono2 [of "sampleRate c" 1 f] by (simp_all add: pos_imp_zdiv_nonneg_iff)
  then show ?thesis using assms by (auto simp: config_wire_ok_def i32_ok_code cdiv_nonneg)
qed

lemma handshake_runs:
  assumes "ptype p = Control" "payload p = cm_serialize m" "messageType m = ConnectRequest" "parseConnectRequestFormatRequest m = Some rq"
  shows "performHandshake native (Some p) s0 = (case grant_format native rq (apply_request native m s0) of Inl e \<Rightarrow> Inl e | Inr s \<Rightarrow> Inr (True, s))"
  using assms by (simp add: performHandshake_def cm_deserialize_serialize Let_def)

lemma grant_format_grants:
  assumes native: "bitsPerSample native = 16" "channels native = 1 \<or> channels native = 2" "0 < sampleRate native"
    and t: "config_wire_ok (cs_sessionConfig t)" "sampleRate (cs_sessionConfig t) = sampleRate native"
      "channels (cs_sessionConfig t) = channels native" "cs_decimator t = None"
  shows "\<exists>s. grant_format native rq t = Inr s \<and> cs_formatRequested s \<and> config_wire_ok (cs_sessionConfig s) \<and>
    sampleRate (cs_sessionConfig s) = (if rate_servable native (uint (rq_sampleRate rq)) then uint (rq_sampleRate rq) else sampleRate native) \<and>
    cs_grantedLayout s = (if layout_servable native (rq_layout rq) then rq_layout rq else 0) \<and>
    channels (cs_sessionConfig s) = (if layout_servable native (rq_layout rq) then 1 else channels native) \<and>
    map_option (\<lambda>d. (dc_factor d * sampleRate (cs_sessionConfig s), dc_channels d)) (cs_decimator s) =
      (if sampleRate (cs_sessionConfig s) = sampleRate native then None else Some (sampleRate native, channels (cs_sessionConfig s)))"
proof -
  let ?f = "grant_factor native (rq_sampleRate rq)" and ?l = "grant_layout native (rq_layout rq)" and ?n = "sampleRate native" and ?r = "uint (rq_sampleRate rq)"
  let ?ch = "if ?l \<noteq> 0 then 1 else channels native"
  have l: "?l \<noteq> 0 \<longleftrightarrow> layout_servable native (rq_layout rq)" by (auto simp: grant_layout_servable layout_servable_def)
  have f: "?f = (if rate_servable native ?r then ?n div ?r else 1)" by (rule grant_factor_servable [OF native(3)])
  have sv: "?f * ?r = ?n \<and> ?n div ?f = ?r" if "rate_servable native ?r"
  proof -
    have "?r dvd ?n" "0 < ?r" using that by (auto simp: rate_servable_def)
    then show ?thesis using native(3) that by (auto simp: f elim!: dvdE)
  qed
  have fpos: "0 < ?f" "supportsFactor ?f" 
    by (auto simp: grant_factor_def Let_def supportsFactor_iff)
  have rate: "cdiv ?n ?f = (if rate_servable native ?r then ?r else ?n)" using sv fpos f native(3) by (auto simp: cdiv_nonneg)
  have one: "?f > 1 \<longleftrightarrow> cdiv ?n ?f \<noteq> ?n"
  proof (cases "rate_servable native ?r")
    case True
    then have "?f * ?r = ?n" "0 < ?r" "cdiv ?n ?f = ?r" using sv rate by (auto simp: rate_servable_def)
    then show ?thesis using fpos(1) by (cases "?f = 1") auto
  qed (use native(3) in \<open>simp add: f cdiv_nonneg\<close>)
  have wire: "config_wire_ok ((cs_sessionConfig t)\<lparr>sampleRate := cdiv ?n ?f, channels := ?ch\<rparr>)"
    using granted_wire_ok [OF t(1) _ fpos(1), of ?ch] native(3) t(2,3) by simp
  have dch: "?ch = 1 \<or> ?ch = 2" using native(2) by auto
  show ?thesis
  proof (cases "?f > 1")
    case True
    obtain d where d: "mk_decimator ?f ?ch = Inr d" using fpos(2) dch by (auto simp: mk_decimator_def)
    from mk_decimator_Inr [OF d] have dd: "dc_factor d = ?f" "dc_channels d = ?ch" by simp_all
    have servable: "rate_servable native ?r" using True f by (auto split: if_splits)
    from True d dd wire rate one l sv [OF servable] servable native(1) show ?thesis
      by (simp add: grant_format_def Let_def) (simp add: grant_layout_servable)
  next
    case False
    then have "cdiv ?n ?f = ?n" using one by blast
    with False wire rate one l native(1) t(4) show ?thesis
      by (simp add: grant_format_def Let_def) (simp add: grant_layout_servable)
  qed
qed

lemma grant_format_throws:
  assumes "bitsPerSample native = 16" "2 < channels native" "0 < sampleRate native"
    "rate_servable native (uint (rq_sampleRate rq))" "uint (rq_sampleRate rq) \<noteq> sampleRate native"
  shows "grant_format native rq t = Inl (Invalid_argument ''Decimator: channels must be 1 or 2'')"
proof -
  let ?r = "uint (rq_sampleRate rq)"
  have f: "grant_factor native (rq_sampleRate rq) = sampleRate native div ?r" using grant_factor_servable [OF assms(3)] assms(4) by simp
  moreover have "sampleRate native div ?r \<in> {2, 3, 4, 6}" using assms(4,5) by (auto simp: rate_servable_def)
  ultimately show ?thesis using assms(1,2)
    by (auto simp: grant_format_def grant_layout_def mk_decimator_def supportsFactor_iff Let_def)
qed

section \<open>Properties\<close>

lemma demo_session: "\<exists>s. mk_client_session default_config ''c'' = Some s \<and> cs_outQueueMaxBytes s = 1920000"
  by (simp add: mk_client_session_def backlog_cap_def default_config_def config_calc_defs i32_ok_code cdiv_def CONNECTION_TIMEOUT_MS_def)

text \<open>
  The outgoing queue is bounded. Whatever the threads do to it, the byte count kept beside the queue is
  exactly the audio in it, at most the cap plus one item, and there are never more than 4096 control
  messages in it.
\<close>

theorem session_queue_bounded:
  assumes "mk_client_session config cid = Some s" "list_all (\<lambda>op. op_size op \<le> m) ops"
  shows "let s' = fold queue_apply ops s in
    cs_outQueueBytes s' = length (queue_audio (cs_outQueue s')) \<and> cs_outQueueBytes s' \<le> cs_outQueueMaxBytes s + m \<and>
    queue_controls (cs_outQueue s') \<le> kOutQueueMaxDepth"
proof -
  have "queue_ok m s" using mk_client_session_fresh [OF assms(1)] by (simp add: queue_ok_def)
  from queue_run_ok [OF this assms(2)] show ?thesis by (simp add: queue_ok_def Let_def)
qed

theorem session_queue_bounded_witness:
  "let s = the (mk_client_session default_config ''c''); s' = fold queue_apply [Q_audio [1, 2], Q_control (txPreempted ''x''), Q_take, Q_audio [3]] s
   in cs_outQueueBytes s' = 1 \<and> queue_controls (cs_outQueue s') = 1 \<and> cs_outQueueBytes s' \<le> cs_outQueueMaxBytes s + 2"
proof -
  obtain s where s: "mk_client_session default_config ''c'' = Some s" "cs_outQueueMaxBytes s = 1920000" using demo_session by blast
  let ?ops = "[Q_audio [1, 2], Q_control (txPreempted ''x''), Q_take, Q_audio [3]]"
  have "list_all (\<lambda>op. op_size op \<le> 2) ?ops" by (simp add: op_size_def)
  note b = session_queue_bounded [OF s(1) this]
  from mk_client_session_fresh [OF s(1)] have "fold queue_apply ?ops s = s\<lparr>cs_outQueueBytes := 1, cs_outQueue := [Out_control (txPreempted ''x''), Out_audio [3]]\<rparr>"
    using s(2) by (simp add: enqueueRxAudio_def enqueueControl_def writer_take_def kOutQueueMaxDepth_def)
  then show ?thesis using b s by simp
qed

text \<open>
  C21: a subscription is sent its own stream. After any handshake, and whatever the chunking of the fan-out and
  the interleaving of control messages and the writer, the audio put on the wire together with what still
  waits is the reference conversion of the native stream: the granted channel layout of the whole stream and
  then the documented decimation filter over it; without a grant it is the native stream itself.
\<close>

theorem subscription_stream:
  assumes "mk_client_session config cid = Some s0" "performHandshake native packet s0 = Inr (ok, s)"
    "list_all (\<lambda>op. nat (channels native) * 2 dvd length (op_rx op)) ops" "session_run native ops (s, []) = Some (s', wire)"
  shows "wire @ queue_audio (cs_outQueue s') = owed native s (rx_input ops)"
proof -
  have q: "cs_outQueue s = []" "\<not> cs_outClosed s"
    using handshake_keeps_queue [OF assms(2)] mk_client_session_fresh [OF assms(1)] by (simp_all add: same_stream_def)
  show ?thesis
  proof (cases "cs_grantedLayout s = 0 \<and> cs_decimator s = None")
    case True
    then show ?thesis using session_run_native [OF _ _ q(2) assms(4)] q by (simp add: delivered_def owed_def)
  next
    case False
    note rdy = handshake_ready [OF assms(1,2) False]
    have "rx_reference native s [] = []"
      by (simp add: rx_reference_def layout_ref_def layout_stage_def downmixToMono_def selectChannel_def decimate_ref_def split: option.split)
    with session_run_reference [OF rdy assms(3,4)] q False show ?thesis by (auto simp: delivered_def owed_def)
  qed
qed

text \<open>A stereo server, a mono downmix at the native rate: two fan-out calls around one turn of the writer.\<close>

definition demo_request :: "u32 \<Rightarrow> u8 \<Rightarrow> control_message" where
  "demo_request rate layout = connectRequestV12 ''wsjtx'' 1 None None \<lparr>rq_sampleRate = rate, rq_layout = layout\<rparr>"

lemma demo_request_parse:
  "messageType (demo_request rate layout) = ConnectRequest"
  "parseConnectRequestFormatRequest (demo_request rate layout) = Some \<lparr>rq_sampleRate = rate, rq_layout = layout\<rparr>"
  by (simp add: demo_request_def connectRequestV12_def Let_def) (simp add: demo_request_def parse_connect_format)

definition demo_packet :: "u32 \<Rightarrow> u8 \<Rightarrow> audio_packet" where
  "demo_packet rate layout = mk_packet 0 Control 0 (cm_serialize (demo_request rate layout))"

lemma demo_handshake: "performHandshake native (Some (demo_packet rate layout)) s0 =
    (case grant_format native \<lparr>rq_sampleRate = rate, rq_layout = layout\<rparr> (apply_request native (demo_request rate layout) s0) of
       Inl e \<Rightarrow> Inl e | Inr s \<Rightarrow> Inr (True, s))"
  by (rule handshake_runs) (simp_all add: demo_packet_def mk_packet_def demo_request_parse)

lemma demo_no_config: "cs_outQueueMaxBytes (apply_request native m s) = cs_outQueueMaxBytes s"
  by (auto simp: apply_request_def Let_def split: option.split)

theorem subscription_stream_witness:
  "\<exists>s s'. performHandshake default_config (Some (demo_packet 0 1)) (the (mk_client_session default_config ''c'')) = Inr (True, s) \<and>
     session_run default_config [S_rx [1, 0, 3, 0], S_take, S_rx [5, 0, 7, 0]] (s, []) = Some (s', [2, 0]) \<and>
     [2, 0] @ queue_audio (cs_outQueue s') = owed default_config s [1, 0, 3, 0, 5, 0, 7, 0]"
proof -
  let ?n = default_config and ?ops = "[S_rx [1, 0, 3, 0], S_take, S_rx [5, 0, 7, 0]]"
  obtain s0 where s0: "mk_client_session ?n ''c'' = Some s0" "cs_outQueueMaxBytes s0 = 1920000" using demo_session by blast
  let ?t = "apply_request ?n (demo_request 0 1) s0"
  note fr = mk_client_session_fresh [OF s0(1)]
  have t: "cs_outQueue ?t = []" "cs_outQueueBytes ?t = 0" "\<not> cs_closed ?t" "\<not> cs_outClosed ?t" "cs_decimator ?t = None" "cs_outQueueMaxBytes ?t = 1920000"
    using fr apply_request_frame [where s = s0 and native = ?n and msg = "demo_request 0 1"] s0(2) by (simp_all add: same_stream_def demo_no_config)
  define s where "s = ?t\<lparr>cs_formatRequested := True, cs_grantedLayout := 1,
    cs_sessionConfig := (cs_sessionConfig ?t)\<lparr>sampleRate := 48000, channels := 1\<rparr>\<rparr>"
  have hs: "performHandshake ?n (Some (demo_packet 0 1)) s0 = Inr (True, s)"
    by (simp add: demo_handshake grant_format_def grant_factor_def grant_layout_def Let_def default_config_def cdiv_def s_def)
  have s: "cs_outQueue s = []" "cs_outQueueBytes s = 0" "\<not> cs_closed s" "\<not> cs_outClosed s" "cs_decimator s = None"
    "cs_outQueueMaxBytes s = 1920000" "cs_grantedLayout s = 1" using t by (simp_all add: s_def)
  have lm: "layout_stage 1 2 (samples_of [1, 0, 3, 0]) (Suc 0) = [2]" "layout_stage 1 2 (samples_of [5, 0, 7, 0]) (Suc 0) = [6]"
    "bytes_of [2] = [2, 0]" by code_simp+
  have run: "session_run ?n ?ops (s, []) = Some (s\<lparr>cs_outQueueBytes := 2, cs_outQueue := [Out_audio (bytes_of [6])]\<rparr>, [2, 0])"
    using s lm by (simp add: session_step_def receiveRxAudio_def enqueueConvertedRxAudio_def enqueueRxAudio_def writer_take_def Let_def default_config_def)
  have "list_all (\<lambda>op. nat (channels ?n) * 2 dvd length (op_rx op)) ?ops" by (simp add: op_rx_def default_config_def numeral_eq_Suc)
  from subscription_stream [OF s0(1) hs this run] show ?thesis using hs run s0(1) by (auto simp: rx_input_def op_rx_def)
qed

text \<open>
  The format grant. On a mono or stereo 16-bit server every CONNECT_REQUEST with a format request succeeds, and rate and
  layout are granted independently: the rate when the server's is 1, 2, 3, 4 or 6 times it and a frame stays a whole number of
  samples, the layout when the server is stereo and the layout is known. The reply parses to exactly the
  session's format and layout, and the decimator is the one that produces it.
\<close>

theorem handshake_grants:
  assumes "config_wire_ok native" "bitsPerSample native = 16" "channels native = 1 \<or> channels native = 2" "0 < sampleRate native"
    and "mk_client_session native cid = Some s0"
    and "ptype p = Control" "payload p = cm_serialize (connectRequestV12 name v c info rq)" "length name \<le> 255"
  shows "\<exists>s. performHandshake native (Some p) s0 = Inr (True, s) \<and>
    sampleRate (cs_sessionConfig s) = (if rate_servable native (uint (rq_sampleRate rq)) then uint (rq_sampleRate rq) else sampleRate native) \<and>
    cs_grantedLayout s = (if layout_servable native (rq_layout rq) then rq_layout rq else 0) \<and>
    channels (cs_sessionConfig s) = (if layout_servable native (rq_layout rq) then 1 else channels native) \<and>
    map_option (\<lambda>d. (dc_factor d * sampleRate (cs_sessionConfig s), dc_channels d)) (cs_decimator s) =
      (if sampleRate (cs_sessionConfig s) = sampleRate native then None else Some (sampleRate native, channels (cs_sessionConfig s))) \<and>
    applyAudioConfigTo (handshake_config s) target = Some (with_format_of (cs_sessionConfig s) target) \<and>
    parseAudioConfigGrantedLayout (handshake_config s) = Some (cs_grantedLayout s)"
proof -
  let ?m = "connectRequestV12 name v c info rq" and ?t = "apply_request native (connectRequestV12 name v c info rq) s0"
  note fr = mk_client_session_fresh [OF assms(5)]
  have "cs_decimator ?t = None" using fr by (simp add: apply_request_frame)
  with grant_format_grants [OF assms(2-4), of ?t rq] apply_request_config [OF assms(1), of s0 ?m] fr
  obtain s where s: "grant_format native rq ?t = Inr s" "cs_formatRequested s" "config_wire_ok (cs_sessionConfig s)"
    "sampleRate (cs_sessionConfig s) = (if rate_servable native (uint (rq_sampleRate rq)) then uint (rq_sampleRate rq) else sampleRate native)"
    "cs_grantedLayout s = (if layout_servable native (rq_layout rq) then rq_layout rq else 0)"
    "channels (cs_sessionConfig s) = (if layout_servable native (rq_layout rq) then 1 else channels native)"
    "map_option (\<lambda>d. (dc_factor d * sampleRate (cs_sessionConfig s), dc_channels d)) (cs_decimator s) =
      (if sampleRate (cs_sessionConfig s) = sampleRate native then None else Some (sampleRate native, channels (cs_sessionConfig s)))"
    by (elim exE conjE) blast
  have "messageType ?m = ConnectRequest" by (simp add: connectRequestV12_def Let_def)
  from handshake_runs [OF assms(6,7) this parse_connect_format [OF assms(8)], of native s0] s(1)
  have "performHandshake native (Some p) s0 = Inr (True, s)" by simp
  with s show ?thesis by (intro exI [of _ s]) (simp add: handshake_config_def apply_audio_config_v12)
qed

theorem handshake_grants_witness:
  "\<exists>s. performHandshake default_config (Some (demo_packet 12000 3)) (the (mk_client_session default_config ''c'')) = Inr (True, s) \<and>
     sampleRate (cs_sessionConfig s) = 12000 \<and> channels (cs_sessionConfig s) = 1 \<and> cs_grantedLayout s = 3"
proof -
  obtain s0 where s0: "mk_client_session default_config ''c'' = Some s0" using demo_session by blast
  have n: "config_wire_ok default_config" "bitsPerSample default_config = 16" "channels default_config = 1 \<or> channels default_config = 2"
    "0 < sampleRate default_config" by (simp_all add: config_wire_ok_def default_config_def i32_ok_code)
  have p: "ptype (demo_packet 12000 3) = Control"
    "payload (demo_packet 12000 3) = cm_serialize (connectRequestV12 ''wsjtx'' 1 None None \<lparr>rq_sampleRate = 12000, rq_layout = 3\<rparr>)"
    "length ''wsjtx'' \<le> 255"
    by (simp_all add: demo_packet_def mk_packet_def demo_request_def)
  have sv: "rate_servable default_config 12000" "layout_servable default_config 3"
    by (simp_all add: rate_servable_def layout_servable_def default_config_def)
  from handshake_grants [OF n s0 p] sv s0 show ?thesis by auto
qed

text \<open>
  A server with more than two channels cannot refuse a reduced rate. The layout is declined, the rate is granted, and the
  decimator of the grant throws for the channel count; nothing on the session's thread catches it. The
  three-channel request thus ends in an exception where the specification asks for a native answer.
\<close>

theorem multichannel_rate_request_throws:
  assumes "bitsPerSample native = 16" "2 < channels native" "0 < sampleRate native"
    "rate_servable native (uint (rq_sampleRate rq))" "uint (rq_sampleRate rq) \<noteq> sampleRate native"
    "ptype p = Control" "payload p = cm_serialize (connectRequestV12 name v c info rq)" "length name \<le> 255"
  shows "performHandshake native (Some p) s0 = Inl (Invalid_argument ''Decimator: channels must be 1 or 2'')"
proof -
  have "messageType (connectRequestV12 name v c info rq) = ConnectRequest" by (simp add: connectRequestV12_def Let_def)
  from handshake_runs [OF assms(6,7) this parse_connect_format [OF assms(8)], of native s0] grant_format_throws [OF assms(1-5)]
  show ?thesis by simp
qed

theorem multichannel_rate_request_throws_witness:
  "performHandshake (default_config\<lparr>channels := 4\<rparr>) (Some (demo_packet 12000 0)) (the (mk_client_session default_config ''c'')) =
     Inl (Invalid_argument ''Decimator: channels must be 1 or 2'')"
  by (rule multichannel_rate_request_throws [where rq = "\<lparr>rq_sampleRate = 12000, rq_layout = 0\<rparr>" and name = "''wsjtx''" and v = 1
        and c = None and info = None])
    (simp_all add: default_config_def rate_servable_def demo_packet_def mk_packet_def demo_request_def)

end
