(* ===== verification/Audio_Broadcaster.thy ===== *)
theory Audio_Broadcaster
  imports Client_Session "HOL-Library.List_Lexorder" "HOL-Library.Char_ord"
begin

text \<open>
  The RX fan-out of \<open>src/src/net/AudioBroadcaster.cpp\<close>. A target is known by its id; what its
  \<open>receiveRxAudio\<close> does to the world the targets live in is a parameter, and so is the failure
  listener. The interface the fan-out relies on, that a call changes the called target only, is the locale
  \<open>broadcast_targets\<close>; it is interpreted on the client sessions of the server. The delivery loop is a
  partial function, since it would not end for a frame limit of zero.
\<close>

section \<open>The broadcaster\<close>

record broadcaster =
  bc_config :: audio_stream_config
  bc_targets :: "string list"
  bc_running :: bool
  bc_transform :: "(bytes \<Rightarrow> bytes) option"

definition mk_broadcaster :: "audio_stream_config \<Rightarrow> broadcaster" where
  "mk_broadcaster config = \<lparr>bc_config = config, bc_targets = [], bc_running = False, bc_transform = None\<rparr>"

text \<open>\<open>std::map\<close> keyed by \<open>targetId()\<close>: the ids in order.\<close>

definition addTarget :: "string \<Rightarrow> broadcaster \<Rightarrow> broadcaster" where
  "addTarget i b = b\<lparr>bc_targets := oset_insert i (bc_targets b)\<rparr>"

definition removeTarget :: "string \<Rightarrow> broadcaster \<Rightarrow> bool \<times> broadcaster" where
  "removeTarget i b = (i \<in> set (bc_targets b), b\<lparr>bc_targets := removeAll i (bc_targets b)\<rparr>)"

definition targetCount :: "broadcaster \<Rightarrow> nat" where "targetCount b = length (bc_targets b)"
definition hasTargets :: "broadcaster \<Rightarrow> bool" where "hasTargets b \<longleftrightarrow> bc_targets b \<noteq> []"

definition setAudioTransform :: "(bytes \<Rightarrow> bytes) option \<Rightarrow> broadcaster \<Rightarrow> broadcaster" where
  "setAudioTransform t b = b\<lparr>bc_transform := t\<rparr>"

definition bc_start :: "broadcaster \<Rightarrow> broadcaster" where "bc_start b = b\<lparr>bc_running := True\<rparr>"
definition bc_stop :: "broadcaster \<Rightarrow> broadcaster" where "bc_stop b = b\<lparr>bc_running := False\<rparr>"

definition maxFrameBytes :: "audio_stream_config \<Rightarrow> nat" where
  "maxFrameBytes c =
     (let sampleFrame = cdiv (bitsPerSample c) 8 * channels c
      in if sampleFrame \<le> 0 \<or> nat sampleFrame > MAX_PAYLOAD then MAX_PAYLOAD
         else let sf = nat sampleFrame in MAX_PAYLOAD div sf * sf)"

text \<open>The do-while loop over one target; \<open>None\<close> when it does not end.\<close>

partial_function (option) deliver ::
  "(bytes \<Rightarrow> nat \<Rightarrow> nat \<Rightarrow> 'w \<Rightarrow> bool \<times> 'w) \<Rightarrow> nat \<Rightarrow> bytes \<Rightarrow> nat \<Rightarrow> nat \<Rightarrow> nat \<Rightarrow> 'w \<Rightarrow> (bool \<times> 'w) option" where
  "deliver recv chunk d offset len sent w =
     (let n = min (len - sent) chunk; (ok, w) = recv d (offset + sent) n w; sent = sent + n
      in if ok \<and> sent < len then deliver recv chunk d offset len sent w else Some (ok, w))"

text \<open>The loop over the snapshot collects the targets that asked for removal.\<close>

fun deliver_all ::
  "(string \<Rightarrow> bytes \<Rightarrow> nat \<Rightarrow> nat \<Rightarrow> 'w \<Rightarrow> bool \<times> 'w) \<Rightarrow> nat \<Rightarrow> bytes \<Rightarrow> nat \<Rightarrow> nat \<Rightarrow> string list \<Rightarrow> 'w \<Rightarrow> (string list \<times> 'w) option" where
  "deliver_all recv chunk d offset len [] w = Some ([], w)"
| "deliver_all recv chunk d offset len (i # ids) w =
     (case deliver (recv i) chunk d offset len 0 w of
        None \<Rightarrow> None
      | Some (ok, w) \<Rightarrow>
          (case deliver_all recv chunk d offset len ids w of
             None \<Rightarrow> None
           | Some (failed, w) \<Rightarrow> Some ((if ok then failed else i # failed), w)))"

definition drop_failed :: "(string \<Rightarrow> string \<Rightarrow> 'w \<Rightarrow> 'w) \<Rightarrow> string \<Rightarrow> broadcaster \<times> 'w \<Rightarrow> broadcaster \<times> 'w" where
  "drop_failed listener i st = (let (b, w) = st in (snd (removeTarget i b), listener i ''Target indicated removal'' w))"

definition broadcastToTargets ::
  "(string \<Rightarrow> bytes \<Rightarrow> nat \<Rightarrow> nat \<Rightarrow> 'w \<Rightarrow> bool \<times> 'w) \<Rightarrow> (string \<Rightarrow> string \<Rightarrow> 'w \<Rightarrow> 'w) \<Rightarrow> bytes \<Rightarrow> nat \<Rightarrow> nat \<Rightarrow>
    broadcaster \<Rightarrow> 'w \<Rightarrow> (broadcaster \<times> 'w) option" where
  "broadcastToTargets recv listener d offset len b w =
     (case deliver_all recv (maxFrameBytes (bc_config b)) d offset len (bc_targets b) w of
        None \<Rightarrow> None
      | Some (failed, w) \<Rightarrow> Some (fold (drop_failed listener) failed (b, w)))"

definition injectAudio ::
  "(string \<Rightarrow> bytes \<Rightarrow> nat \<Rightarrow> nat \<Rightarrow> 'w \<Rightarrow> bool \<times> 'w) \<Rightarrow> (string \<Rightarrow> string \<Rightarrow> 'w \<Rightarrow> 'w) \<Rightarrow> bytes \<Rightarrow>
    broadcaster \<Rightarrow> 'w \<Rightarrow> (broadcaster \<times> 'w) option" where
  "injectAudio recv listener d b w =
     (if d = [] \<or> bc_targets b = [] then Some (b, w)
      else case bc_transform b of
             Some xform \<Rightarrow> broadcastToTargets recv listener (xform d) 0 (length (xform d)) b w
           | None \<Rightarrow> broadcastToTargets recv listener d 0 (length d) b w)"

text \<open>The pointer overload; \<open>None\<close> for the data is the null pointer.\<close>

definition injectAudio_range ::
  "(string \<Rightarrow> bytes \<Rightarrow> nat \<Rightarrow> nat \<Rightarrow> 'w \<Rightarrow> bool \<times> 'w) \<Rightarrow> (string \<Rightarrow> string \<Rightarrow> 'w \<Rightarrow> 'w) \<Rightarrow> bytes option \<Rightarrow> nat \<Rightarrow> nat \<Rightarrow>
    broadcaster \<Rightarrow> 'w \<Rightarrow> (broadcaster \<times> 'w) option" where
  "injectAudio_range recv listener d offset len b w =
     (case d of None \<Rightarrow> Some (b, w)
      | Some d \<Rightarrow> if len = 0 \<or> bc_targets b = [] then Some (b, w)
          else broadcastToTargets recv listener d offset len b w)"

text \<open>
  One turn of the capture loop on what the device's \<open>read\<close> gave: the bytes of the frames read, or the
  exception of a lost device, which ends the loop with a report and leaves the lifecycle flag set.
\<close>

datatype capture_read = Captured bytes | Device_lost string

definition capture_turn ::
  "(string \<Rightarrow> bytes \<Rightarrow> nat \<Rightarrow> nat \<Rightarrow> 'w \<Rightarrow> bool \<times> 'w) \<Rightarrow> (string \<Rightarrow> string \<Rightarrow> 'w \<Rightarrow> 'w) \<Rightarrow> (string \<Rightarrow> 'w \<Rightarrow> 'w) \<Rightarrow> capture_read \<Rightarrow>
    broadcaster \<Rightarrow> 'w \<Rightarrow> (bool \<times> broadcaster \<times> 'w) option" where
  "capture_turn recv listener on_lost r b w =
     (case r of
        Device_lost reason \<Rightarrow> Some (False, b, on_lost reason w)
      | Captured d \<Rightarrow>
          if d = [] then Some (True, b, w)
          else let d = (case bc_transform b of Some xform \<Rightarrow> xform d | None \<Rightarrow> d)
            in map_option (Pair True) (broadcastToTargets recv listener d 0 (length d) b w))"

section \<open>The frame limit and the delivery loop\<close>

lemma maxFrameBytes_bounds: "0 < maxFrameBytes c \<and> maxFrameBytes c \<le> MAX_PAYLOAD"
proof -
  have "0 < (MAX_PAYLOAD :: nat)" by (simp add: MAX_PAYLOAD_def)
  moreover have "0 < MAX_PAYLOAD div sf * sf" "MAX_PAYLOAD div sf * sf \<le> MAX_PAYLOAD" if "0 < sf" "sf \<le> MAX_PAYLOAD" for sf :: nat
    using that by (simp_all add: div_greater_zero_iff)
  ultimately show ?thesis by (auto simp: maxFrameBytes_def Let_def)
qed

lemma maxFrameBytes_whole:
  "0 < cdiv (bitsPerSample c) 8 * channels c \<Longrightarrow> nat (cdiv (bitsPerSample c) 8 * channels c) \<le> MAX_PAYLOAD \<Longrightarrow>
    nat (cdiv (bitsPerSample c) 8 * channels c) dvd maxFrameBytes c"
  by (simp add: maxFrameBytes_def Let_def)

text \<open>The frames of a buffer, and a target that is given them one after the other until it refuses.\<close>

function frames_of :: "nat \<Rightarrow> nat \<Rightarrow> nat \<Rightarrow> (nat \<times> nat) list" where
  "frames_of chunk len sent =
     (if chunk = 0 \<or> len \<le> sent + chunk then [(sent, len - sent)] else (sent, chunk) # frames_of chunk len (sent + chunk))"
  by pat_completeness auto
termination by (relation "measure (\<lambda>(chunk, len, sent). len - sent)") auto

fun offer :: "(bytes \<Rightarrow> nat \<Rightarrow> nat \<Rightarrow> 'w \<Rightarrow> bool \<times> 'w) \<Rightarrow> bytes \<Rightarrow> nat \<Rightarrow> (nat \<times> nat) list \<Rightarrow> 'w \<Rightarrow> bool \<times> 'w" where
  "offer recv d offset [] w = (True, w)"
| "offer recv d offset ((p, n) # fs) w =
     (case recv d (offset + p) n w of (ok, w) \<Rightarrow> if ok then offer recv d offset fs w else (False, w))"

declare frames_of.simps [simp del]

lemma deliver_offer:
  shows "0 < chunk \<Longrightarrow> sent \<le> len \<Longrightarrow> deliver recv chunk d offset len sent w = Some (offer recv d offset (frames_of chunk len sent) w)"
proof (induction chunk len sent arbitrary: w rule: frames_of.induct)
  case (1 chunk len sent)
  obtain ok w' where r: "recv d (offset + sent) (min (len - sent) chunk) w = (ok, w')" by fastforce
  have dl: "deliver recv chunk d offset len sent w =
    (if ok \<and> sent + min (len - sent) chunk < len then deliver recv chunk d offset len (sent + min (len - sent) chunk) w' else Some (ok, w'))"
    by (subst deliver.simps) (simp add: r Let_def)
  show ?case
  proof (cases "len \<le> sent + chunk")
    case True
    then show ?thesis using r dl 1 by (auto simp: frames_of.simps [of chunk len sent] min_def split: if_splits)
  next
    case False
    then have "min (len - sent) chunk = chunk" by simp
    with False show ?thesis using r dl 1 by (auto simp: frames_of.simps [of chunk len sent])
  qed
qed

lemma frames_of_bounds:
  "0 < chunk \<Longrightarrow> sent \<le> len \<Longrightarrow> list_all (\<lambda>(p, n). n \<le> chunk \<and> p + n \<le> len \<and> (k dvd chunk \<longrightarrow> k dvd len - sent \<longrightarrow> k dvd n)) (frames_of chunk len sent)"
proof (induction chunk len sent rule: frames_of.induct)
  case (1 chunk len sent)
  show ?case
  proof (cases "len \<le> sent + chunk")
    case False
    have "k dvd len - (sent + chunk)" if "k dvd chunk" "k dvd len - sent" using that dvd_diff_nat [of k "len - sent" chunk] by simp
    with 1 False show ?thesis by (auto simp: frames_of.simps [of chunk len sent] list_all_set case_prod_beta)
  qed (use 1 in \<open>simp add: frames_of.simps [of chunk len sent]\<close>)
qed

definition pieces :: "bytes \<Rightarrow> nat \<Rightarrow> (nat \<times> nat) list \<Rightarrow> bytes list" where
  "pieces d offset fs = map (\<lambda>(p, n). take n (drop (offset + p) d)) fs"

lemma pieces_concat:
  "0 < chunk \<Longrightarrow> sent \<le> len \<Longrightarrow> concat (pieces d offset (frames_of chunk len sent)) = take (len - sent) (drop (offset + sent) d)"
proof (induction chunk len sent rule: frames_of.induct)
  case (1 chunk len sent)
  show ?case
  proof (cases "len \<le> sent + chunk")
    case False
    have "take (len - sent) (drop (offset + sent) d) =
        take chunk (drop (offset + sent) d) @ take (len - (sent + chunk)) (drop (offset + (sent + chunk)) d)"
      using False take_add [of chunk "len - (sent + chunk)" "drop (offset + sent) d"] by (simp add: add.commute add.left_commute)
    with 1 False show ?thesis by (simp add: frames_of.simps [of chunk len sent] pieces_def)
  qed (use 1 in \<open>simp add: frames_of.simps [of chunk len sent] pieces_def\<close>)
qed

section \<open>The interface to the targets\<close>

locale broadcast_targets =
  fixes recv :: "string \<Rightarrow> bytes \<Rightarrow> nat \<Rightarrow> nat \<Rightarrow> 'w \<Rightarrow> bool \<times> 'w" and view :: "string \<Rightarrow> 'w \<Rightarrow> 'v"
  assumes recv_other: "j \<noteq> i \<Longrightarrow> view j (snd (recv i d p n w)) = view j w"
    and recv_own: "view i w = view i w' \<Longrightarrow> fst (recv i d p n w) = fst (recv i d p n w') \<and> view i (snd (recv i d p n w)) = view i (snd (recv i d p n w'))"
begin

lemma offer_other: "j \<noteq> i \<Longrightarrow> view j (snd (offer (recv i) d offset fs w)) = view j w"
proof (induction fs arbitrary: w)
  case (Cons f fs)
  obtain p n where f: "f = (p, n)" by fastforce
  then show ?case using Cons recv_other [of j i d "offset + p" n w] by (auto simp: split: prod.split)
qed simp

lemma offer_own: "view i w = view i w' \<Longrightarrow>
    fst (offer (recv i) d offset fs w) = fst (offer (recv i) d offset fs w') \<and>
    view i (snd (offer (recv i) d offset fs w)) = view i (snd (offer (recv i) d offset fs w'))"
proof (induction fs arbitrary: w w')
  case (Cons f fs)
  obtain p n where f: "f = (p, n)" by fastforce
  obtain ok v ok' v' where r: "recv i d (offset + p) n w = (ok, v)" "recv i d (offset + p) n w' = (ok', v')" by fastforce
  from recv_own [OF Cons.prems, of d "offset + p" n] r have "ok = ok'" "view i v = view i v'" by simp_all
  then show ?case using Cons.IH [of v v'] by (simp add: f r)
qed simp

text \<open>Every target of the snapshot ends as if it alone had been offered the frames.\<close>

lemma deliver_all_isolated:
  assumes "0 < chunk" "distinct ids"
  shows "\<exists>failed w'. deliver_all recv chunk d offset len ids w = Some (failed, w') \<and>
    failed = filter (\<lambda>i. \<not> fst (offer (recv i) d offset (frames_of chunk len 0) w)) ids \<and>
    (\<forall>i. view i w' = (if i \<in> set ids then view i (snd (offer (recv i) d offset (frames_of chunk len 0) w)) else view i w))"
  using assms(2)
proof (induction ids arbitrary: w)
  case (Cons i ids)
  let ?fs = "frames_of chunk len 0"
  obtain ok v where o: "offer (recv i) d offset ?fs w = (ok, v)" by fastforce
  have d: "deliver (recv i) chunk d offset len 0 w = Some (ok, v)" using deliver_offer [OF assms(1), of 0 len "recv i"] o by simp
  have other: "view j v = view j w" if "j \<noteq> i" for j using offer_other [OF that, of d offset ?fs w] o by simp
  have dis: "i \<notin> set ids" "distinct ids" using Cons.prems by simp_all
  from Cons.IH [OF dis(2), of v] obtain failed w' where ih: "deliver_all recv chunk d offset len ids v = Some (failed, w')"
    "failed = filter (\<lambda>i. \<not> fst (offer (recv i) d offset ?fs v)) ids"
    "\<And>i. view i w' = (if i \<in> set ids then view i (snd (offer (recv i) d offset ?fs v)) else view i v)" by blast
  have same: "fst (offer (recv j) d offset ?fs v) = fst (offer (recv j) d offset ?fs w)"
    "view j (snd (offer (recv j) d offset ?fs v)) = view j (snd (offer (recv j) d offset ?fs w))" if "j \<in> set ids" for j
    using offer_own [of j v w d offset ?fs] other [of j] that dis(1) by auto
  have "failed = filter (\<lambda>i. \<not> fst (offer (recv i) d offset ?fs w)) ids" unfolding ih(2) using same(1) by (intro filter_cong) simp_all
  then show ?case using d ih(1,3) o other same(2) dis(1) by (auto simp del: split_paired_Ex)
qed simp

end

section \<open>The sessions as targets\<close>

type_synonym session_world = "(string \<Rightarrow> client_session) \<times> server_note list"

definition session_recv :: "audio_stream_config \<Rightarrow> string \<Rightarrow> bytes \<Rightarrow> nat \<Rightarrow> nat \<Rightarrow> session_world \<Rightarrow> bool \<times> session_world" where
  "session_recv native i d p n w =
     (let (ok, s, notes) = receiveRxAudio native d p n (fst w i) in (ok, ((fst w)(i := s), snd w @ notes)))"

interpretation session_targets: broadcast_targets "session_recv native" "\<lambda>i w. fst w i" for native
  by unfold_locales (auto simp: session_recv_def split: prod.splits)

text \<open>One session that is fed frames until it refuses.\<close>

fun feed :: "audio_stream_config \<Rightarrow> bytes list \<Rightarrow> client_session \<Rightarrow> bool \<times> client_session" where
  "feed native [] s = (True, s)"
| "feed native (d # ds) s =
     (case receiveRxAudio native d 0 (length d) s of (ok, s, _) \<Rightarrow> if ok then feed native ds s else (False, s))"

lemma receiveRxAudio_range: "receiveRxAudio native d p n s = receiveRxAudio native (take n (drop p d)) 0 (length (take n (drop p d))) s"
  by (simp only: receiveRxAudio_def drop_0 take_all order_refl)

lemma offer_session:
  "fst (offer (session_recv native i) d offset fs w) = fst (feed native (pieces d offset fs) (fst w i)) \<and>
    fst (snd (offer (session_recv native i) d offset fs w)) i = snd (feed native (pieces d offset fs) (fst w i))"
proof (induction fs arbitrary: w)
  case (Cons f fs)
  obtain p n where f: "f = (p, n)" by fastforce
  obtain ok s ns where r: "receiveRxAudio native d (offset + p) n (fst w i) = (ok, s, ns)" by (metis prod_cases3)
  then have r': "receiveRxAudio native (take n (drop (offset + p) d)) 0 (length (take n (drop (offset + p) d))) (fst w i) = (ok, s, ns)"
    using receiveRxAudio_range [of native d "offset + p" n "fst w i"] by simp
  show ?case using Cons.IH [of "((fst w)(i := s), snd w @ ns)"] r r' by (auto simp: f session_recv_def pieces_def Let_def)
qed (simp add: pieces_def)

lemma feed_session_run:
  "feed native ds s = (True, s') \<Longrightarrow> session_run native (map S_rx ds) (s, wire) = Some (s', wire)"
  by (induction ds arbitrary: s) (auto simp: session_step_def split: prod.splits if_splits)

lemma drop_failed_targets:
  "fst (fold (drop_failed listener) failed (b, w)) = b\<lparr>bc_targets := filter (\<lambda>i. i \<notin> set failed) (bc_targets b)\<rparr>"
proof (induction failed arbitrary: b w)
  case (Cons i failed)
  have "filter (\<lambda>j. j \<notin> set failed) (removeAll i (bc_targets b)) = filter (\<lambda>j. j \<notin> set (i # failed)) (bc_targets b)"
    by (induction "bc_targets b" arbitrary: b) (auto simp: removeAll_filter_not_eq intro: filter_cong)
  with Cons show ?case by (simp add: drop_failed_def removeTarget_def)
qed simp

lemma addTarget_sorted: "sorted_wrt (<) (bc_targets b) \<Longrightarrow> sorted_wrt (<) (bc_targets (addTarget i b))"
  by (simp add: addTarget_def oset_insert_sorted)

text \<open>The frames a buffer is fanned out in.\<close>

definition wire_frames :: "audio_stream_config \<Rightarrow> bytes \<Rightarrow> bytes list" where
  "wire_frames c d = pieces d 0 (frames_of (maxFrameBytes c) (length d) 0)"

lemma wire_frames_concat: "concat (wire_frames c d) = d"
  using pieces_concat [of "maxFrameBytes c" 0 "length d" d 0] maxFrameBytes_bounds [of c] by (simp add: wire_frames_def)

lemma wire_frames_size: "list_all (\<lambda>f. length f \<le> MAX_PAYLOAD) (wire_frames c d)"
  using frames_of_bounds [of "maxFrameBytes c" 0 "length d" 1] maxFrameBytes_bounds [of c]
  by (auto simp: wire_frames_def pieces_def list_all_set intro: min.coboundedI2)

lemma wire_frames_whole:
  assumes "bitsPerSample c = 16" "0 < channels c" "channels c \<le> 8192" "nat (channels c) * 2 dvd length d"
  shows "list_all (\<lambda>f. nat (channels c) * 2 dvd length f) (wire_frames c d)"
proof -
  let ?k = "nat (channels c) * 2"
  have k: "nat (cdiv (bitsPerSample c) 8 * channels c) = ?k" using assms(1,2) by (simp add: cdiv_def nat_mult_distrib)
  have "?k dvd maxFrameBytes c"
    using maxFrameBytes_whole [of c] assms(1-3) unfolding k by (simp add: MAX_PAYLOAD_def cdiv_def)
  with frames_of_bounds [of "maxFrameBytes c" 0 "length d" ?k] maxFrameBytes_bounds [of c] assms(4) show ?thesis
    by (fastforce simp: wire_frames_def pieces_def list_all_set)
qed

section \<open>Properties\<close>

text \<open>
  C23: the fan-out is fair and isolating. For any buffer, any targets and any state of the sessions the
  fan-out ends; every registered session has been handed the same frames, which concatenate to the buffer and fit a
  packet each, until it refused one, exactly as if it were the only target; the other sessions are untouched; and
  exactly the sessions that refused lose their registration and are reported.
\<close>

theorem fan_out_isolated:
  assumes "sorted_wrt (<) (bc_targets b)"
  shows "concat (wire_frames (bc_config b) d) = d \<and> list_all (\<lambda>f. length f \<le> MAX_PAYLOAD) (wire_frames (bc_config b) d) \<and>
    (\<exists>ss' ns'. (\<forall>i. ss' i = (if i \<in> set (bc_targets b) then snd (feed native (wire_frames (bc_config b) d) (ss i)) else ss i)) \<and>
      broadcastToTargets (session_recv native) listener d 0 (length d) b (ss, ns) =
        Some (b\<lparr>bc_targets := filter (\<lambda>i. fst (feed native (wire_frames (bc_config b) d) (ss i))) (bc_targets b)\<rparr>,
          fold (\<lambda>i w. listener i ''Target indicated removal'' w)
            (filter (\<lambda>i. \<not> fst (feed native (wire_frames (bc_config b) d) (ss i))) (bc_targets b)) (ss', ns')))"
proof -
  let ?chunk = "maxFrameBytes (bc_config b)" and ?F = "wire_frames (bc_config b) d"
  have ch: "0 < ?chunk" using maxFrameBytes_bounds by simp
  have dis: "distinct (bc_targets b)" by (rule strict_sorted_distinct [OF assms])
  from session_targets.deliver_all_isolated [OF ch dis, of native d 0 "length d" "(ss, ns)"] obtain failed ss' ns' where
    f: "deliver_all (session_recv native) ?chunk d 0 (length d) (bc_targets b) (ss, ns) = Some (failed, (ss', ns'))"
    "failed = filter (\<lambda>i. \<not> fst (feed native ?F (ss i))) (bc_targets b)"
    "\<forall>i. ss' i = (if i \<in> set (bc_targets b) then snd (feed native ?F (ss i)) else ss i)"
    by (auto simp: offer_session wire_frames_def)
  have snd: "snd (fold (drop_failed listener) failed (b, w)) = fold (\<lambda>i w. listener i ''Target indicated removal'' w) failed w" for w b
    by (induction failed arbitrary: b w) (simp_all add: drop_failed_def)
  have "filter (\<lambda>i. i \<notin> set failed) (bc_targets b) = filter (\<lambda>i. fst (feed native ?F (ss i))) (bc_targets b)"
    by (intro filter_cong) (simp_all add: f(2))
  then have "fold (drop_failed listener) failed (b, (ss', ns')) =
    (b\<lparr>bc_targets := filter (\<lambda>i. fst (feed native ?F (ss i))) (bc_targets b)\<rparr>,
      fold (\<lambda>i w. listener i ''Target indicated removal'' w) failed (ss', ns'))"
    using drop_failed_targets [of listener failed b "(ss', ns')"] snd [of b "(ss', ns')"] by (simp add: prod_eq_iff)
  with f(1) have "broadcastToTargets (session_recv native) listener d 0 (length d) b (ss, ns) =
    Some (b\<lparr>bc_targets := filter (\<lambda>i. fst (feed native ?F (ss i))) (bc_targets b)\<rparr>,
      fold (\<lambda>i w. listener i ''Target indicated removal'' w) failed (ss', ns'))" by (simp add: broadcastToTargets_def)
  with f(3) show ?thesis unfolding f(2) by (intro conjI exI wire_frames_concat wire_frames_size)
qed

definition demo_sessions :: "string \<Rightarrow> client_session" where
  "demo_sessions i = (the (mk_client_session default_config i))\<lparr>cs_closed := (i = ''b'')\<rparr>"

theorem fan_out_isolated_witness:
  "\<exists>w. broadcastToTargets (session_recv default_config) (\<lambda>i r (ss, ns). (ss, ns @ [OnError i r])) [1, 2, 3, 4] 0 4
     ((mk_broadcaster default_config)\<lparr>bc_targets := [''a'', ''b'']\<rparr>) (demo_sessions, []) =
     Some ((mk_broadcaster default_config)\<lparr>bc_targets := [''a'']\<rparr>, w) \<and>
     cs_outQueue (fst w ''a'') = [Out_audio [1, 2, 3, 4]] \<and> cs_outQueue (fst w ''b'') = []"
proof -
  let ?b = "(mk_broadcaster default_config)\<lparr>bc_targets := [''a'', ''b'']\<rparr>" and ?l = "\<lambda>i r (ss, ns). (ss, ns @ [OnError i r])"
  have "sorted_wrt (<) (bc_targets ?b)" by (simp add: less_list_code less_char_def)
  note t = fan_out_isolated [OF this, where native = default_config and ss = demo_sessions and ns = "[]" and d = "[1, 2, 3, 4]" and listener = ?l]
  have w: "wire_frames default_config [1, 2, 3, 4] = [[1, 2, 3, 4]]"
    by (simp add: wire_frames_def frames_of.simps maxFrameBytes_def MAX_PAYLOAD_def default_config_def cdiv_def pieces_def Let_def)
  have fa: "feed default_config [[1, 2, 3, 4]] (demo_sessions ''a'') =
      (True, (demo_sessions ''a'')\<lparr>cs_outQueueBytes := 4, cs_outQueue := [Out_audio [1, 2, 3, 4]]\<rparr>)"
    and fb: "feed default_config [[1, 2, 3, 4]] (demo_sessions ''b'') = (False, demo_sessions ''b'')" and qb: "cs_outQueue (demo_sessions ''b'') = []"
    by (simp_all add: receiveRxAudio_def enqueueRxAudio_def demo_sessions_def mk_client_session_def backlog_cap_def default_config_def
        config_calc_defs i32_ok_code cdiv_def CONNECTION_TIMEOUT_MS_def)
  have b: "bc_config ?b = default_config" "bc_targets ?b = [''a'', ''b'']" "length [1, 2, 3, 4 :: u8] = 4" by (simp_all add: mk_broadcaster_def)
  from t [unfolded b w] obtain ss' ns' where
    s: "\<forall>i. ss' i = (if i \<in> set [''a'', ''b''] then snd (feed default_config [[1, 2, 3, 4]] (demo_sessions i)) else demo_sessions i)"
    and r: "broadcastToTargets (session_recv default_config) ?l [1, 2, 3, 4] 0 4 ?b (demo_sessions, []) =
      Some (?b\<lparr>bc_targets := filter (\<lambda>i. fst (feed default_config [[1, 2, 3, 4]] (demo_sessions i))) [''a'', ''b'']\<rparr>,
        fold (\<lambda>i w. ?l i ''Target indicated removal'' w) (filter (\<lambda>i. \<not> fst (feed default_config [[1, 2, 3, 4]] (demo_sessions i))) [''a'', ''b'']) (ss', ns'))"
    by blast
  have "cs_outQueue (ss' ''a'') = [Out_audio [1, 2, 3, 4]] \<and> cs_outQueue (ss' ''b'') = []" unfolding s [rule_format] by (simp add: fa fb qb del: feed.simps)
  with r show ?thesis by (simp add: fa fb mk_broadcaster_def del: feed.simps)
qed

end
