(* ===== verification/Control_Reliability.thy ===== *)
theory Control_Reliability
  imports Control_Message
begin

text \<open>
  Acknowledged delivery of critical control messages over UDP: \<open>src/ControlReliability.cpp\<close>.
  The pending table is the source's insertion-ordered vector of (sequence, entry) pairs, clock
  readings are arguments (milliseconds, as integers), and each operation returns the new state
  with its result. The lemmas show the invariant (at most 16 entries, distinct sequences, attempts
  within the budget), the bound on resends over any interleaving of operations, that silence from
  the peer spends exactly the budget, and that an acknowledgement ends the retransmission.
\<close>

section \<open>State\<close>

record pending_control =
  pc_packet :: audio_packet
  pc_lastSendTime :: int
  pc_attempts :: int

record control_reliability =
  cr_maxAttempts :: int
  cr_timeoutMs :: int
  cr_pending :: "(u32 \<times> pending_control) list"
  cr_controlRetransmits :: int

definition CR_BUFFER_SIZE :: nat where "CR_BUFFER_SIZE = 16"
definition CR_DEFAULT_TIMEOUT_MS :: int where "CR_DEFAULT_TIMEOUT_MS = 500"
definition CR_DEFAULT_MAX_ATTEMPTS :: int where "CR_DEFAULT_MAX_ATTEMPTS = 3"

definition mk_pending_control :: "audio_packet \<Rightarrow> int \<Rightarrow> pending_control" where
  "mk_pending_control p t = \<lparr>pc_packet = p, pc_lastSendTime = t, pc_attempts = 1\<rparr>"

definition mk_control_reliability :: "int \<Rightarrow> int \<Rightarrow> cpp_exn + control_reliability" where
  "mk_control_reliability ma tmo =
     (if ma < 1 then Inl (Invalid_argument ''maxAttempts must be >= 1'')
      else if tmo < 1 then Inl (Invalid_argument ''timeoutMs must be >= 1'')
      else Inr \<lparr>cr_maxAttempts = ma, cr_timeoutMs = tmo, cr_pending = [], cr_controlRetransmits = 0\<rparr>)"

section \<open>Operations\<close>

fun isCriticalType :: "control_type \<Rightarrow> bool" where
  "isCriticalType ConnectRequest = True"
| "isCriticalType ConnectAccept = True"
| "isCriticalType ConnectReject = True"
| "isCriticalType AudioConfig = True"
| "isCriticalType StreamStart = True"
| "isCriticalType StreamStop = True"
| "isCriticalType StreamPause = True"
| "isCriticalType StreamResume = True"
| "isCriticalType TxGranted = True"
| "isCriticalType TxDenied = True"
| "isCriticalType TxPreempted = True"
| "isCriticalType TxReleased = True"
| "isCriticalType ClientsUpdate = True"
| "isCriticalType Disconnect = True"
| "isCriticalType _ = False"

text \<open>The guard that \<open>recordSentAt\<close> and \<open>generateAck\<close> share.\<close>

definition cr_tracked :: "audio_packet \<Rightarrow> bool" where
  "cr_tracked p \<longleftrightarrow> ptype p = Control \<and>
     (case cm_deserialize (payload p) of None \<Rightarrow> False | Some m \<Rightarrow> isCriticalType (messageType m))"

fun cr_replace :: "u32 \<Rightarrow> pending_control \<Rightarrow> (u32 \<times> pending_control) list \<Rightarrow>
    (u32 \<times> pending_control) list option" where
  "cr_replace s pc [] = None"
| "cr_replace s pc ((s', pc') # rest) =
     (if s' = s then Some ((s', pc) # rest) else map_option (Cons (s', pc')) (cr_replace s pc rest))"

definition recordSentAt :: "audio_packet \<Rightarrow> int \<Rightarrow> control_reliability \<Rightarrow> control_reliability" where
  "recordSentAt p t cr =
     (if \<not> cr_tracked p then cr
      else let pc = mk_pending_control p t
        in case cr_replace (sequence p) pc (cr_pending cr) of
             Some ps \<Rightarrow> cr\<lparr>cr_pending := ps\<rparr>
           | None \<Rightarrow>
               let ps = (if length (cr_pending cr) \<ge> CR_BUFFER_SIZE then tl (cr_pending cr) else cr_pending cr)
               in cr\<lparr>cr_pending := ps @ [(sequence p, pc)]\<rparr>)"

fun cr_erase :: "u32 \<Rightarrow> (u32 \<times> pending_control) list \<Rightarrow> (u32 \<times> pending_control) list option" where
  "cr_erase s [] = None"
| "cr_erase s ((s', pc) # rest) =
     (if s' = s then Some rest else map_option (Cons (s', pc)) (cr_erase s rest))"

definition onAckReceived :: "u32 \<Rightarrow> control_reliability \<Rightarrow> control_reliability \<times> bool" where
  "onAckReceived s cr =
     (case cr_erase s (cr_pending cr) of
        Some ps \<Rightarrow> (cr\<lparr>cr_pending := ps\<rparr>, True)
      | None \<Rightarrow> (cr, False))"

text \<open>
  The scan of \<open>onNackReceivedAt\<close>: the entries after it, and the packet to resend, if any.
\<close>

fun cr_nack_scan :: "int \<Rightarrow> u32 \<Rightarrow> int \<Rightarrow> (u32 \<times> pending_control) list \<Rightarrow>
    (u32 \<times> pending_control) list \<times> audio_packet option" where
  "cr_nack_scan ma s now [] = ([], None)"
| "cr_nack_scan ma s now ((s', pc) # rest) =
     (if s' \<noteq> s then (let (ps, r) = cr_nack_scan ma s now rest in ((s', pc) # ps, r))
      else if pc_attempts pc \<ge> ma then (rest, None)
      else ((s', pc\<lparr>pc_attempts := pc_attempts pc + 1, pc_lastSendTime := now\<rparr>) # rest, Some (pc_packet pc)))"

definition onNackReceivedAt :: "u32 \<Rightarrow> int \<Rightarrow> control_reliability \<Rightarrow>
    control_reliability \<times> audio_packet option" where
  "onNackReceivedAt s now cr =
     (let (ps, r) = cr_nack_scan (cr_maxAttempts cr) s now (cr_pending cr)
      in (cr\<lparr>cr_pending := ps,
             cr_controlRetransmits := cr_controlRetransmits cr + (if r = None then 0 else 1)\<rparr>, r))"

text \<open>
  The sweep of \<open>checkRetransmitsAt\<close>: an entry that is due is resent or, its budget spent, erased;
  the index only moves past entries that stay.
\<close>

fun cr_sweep :: "int \<Rightarrow> int \<Rightarrow> int \<Rightarrow> (u32 \<times> pending_control) list \<Rightarrow>
    (u32 \<times> pending_control) list \<times> audio_packet list" where
  "cr_sweep ma tmo now [] = ([], [])"
| "cr_sweep ma tmo now ((s, pc) # rest) =
     (let (ps, rs) = cr_sweep ma tmo now rest
      in if now - pc_lastSendTime pc \<ge> tmo then
           (if pc_attempts pc \<ge> ma then (ps, rs)
            else ((s, pc\<lparr>pc_attempts := pc_attempts pc + 1, pc_lastSendTime := now\<rparr>) # ps, pc_packet pc # rs))
         else ((s, pc) # ps, rs))"

definition checkRetransmitsAt :: "int \<Rightarrow> control_reliability \<Rightarrow> control_reliability \<times> audio_packet list" where
  "checkRetransmitsAt now cr =
     (let (ps, rs) = cr_sweep (cr_maxAttempts cr) (cr_timeoutMs cr) now (cr_pending cr)
      in (cr\<lparr>cr_pending := ps, cr_controlRetransmits := cr_controlRetransmits cr + int (length rs)\<rparr>, rs))"

definition generateAck :: "audio_packet \<Rightarrow> control_message option" where
  "generateAck p = (if cr_tracked p then Some (cm_controlAck (sequence p)) else None)"

definition cr_pendingCount :: "control_reliability \<Rightarrow> nat" where
  "cr_pendingCount cr = length (cr_pending cr)"

definition cr_reset :: "control_reliability \<Rightarrow> control_reliability" where
  "cr_reset cr = cr\<lparr>cr_pending := [], cr_controlRetransmits := 0\<rparr>"

section \<open>Runs\<close>

text \<open>The calls a connection makes, and the packets it puts on the wire again because of them.\<close>

datatype cr_op = OpSent audio_packet int | OpAck u32 | OpNack u32 int | OpSweep int | OpReset

fun cr_apply :: "cr_op \<Rightarrow> control_reliability \<Rightarrow> control_reliability \<times> audio_packet list" where
  "cr_apply (OpSent p t) cr = (recordSentAt p t cr, [])"
| "cr_apply (OpAck s) cr = (fst (onAckReceived s cr), [])"
| "cr_apply (OpNack s now) cr = (let (cr', r) = onNackReceivedAt s now cr in (cr', case r of None \<Rightarrow> [] | Some p \<Rightarrow> [p]))"
| "cr_apply (OpSweep now) cr = checkRetransmitsAt now cr"
| "cr_apply OpReset cr = (cr_reset cr, [])"

fun cr_run :: "cr_op list \<Rightarrow> control_reliability \<Rightarrow> control_reliability \<times> audio_packet list" where
  "cr_run [] cr = (cr, [])"
| "cr_run (op # ops) cr =
     (let (cr', rs) = cr_apply op cr; (cr'', rs') = cr_run ops cr' in (cr'', rs @ rs'))"

section \<open>Invariant\<close>

definition cr_entry_ok :: "int \<Rightarrow> u32 \<times> pending_control \<Rightarrow> bool" where
  "cr_entry_ok ma e \<longleftrightarrow> sequence (pc_packet (snd e)) = fst e \<and> cr_tracked (pc_packet (snd e)) \<and>
     1 \<le> pc_attempts (snd e) \<and> pc_attempts (snd e) \<le> ma"

definition cr_ok :: "control_reliability \<Rightarrow> bool" where
  "cr_ok cr \<longleftrightarrow> 1 \<le> cr_maxAttempts cr \<and> 1 \<le> cr_timeoutMs cr \<and>
     length (cr_pending cr) \<le> CR_BUFFER_SIZE \<and> distinct (map fst (cr_pending cr)) \<and>
     (\<forall>e \<in> set (cr_pending cr). cr_entry_ok (cr_maxAttempts cr) e)"

lemma cr_replace_None: "cr_replace s pc ps = None \<longleftrightarrow> s \<notin> fst ` set ps"
  by (induction s pc ps rule: cr_replace.induct) auto

lemma cr_replace_keys: "cr_replace s pc ps = Some ps' \<Longrightarrow> map fst ps' = map fst ps"
  by (induction s pc ps arbitrary: ps' rule: cr_replace.induct) (auto split: if_splits)

lemma cr_replace_set: "cr_replace s pc ps = Some ps' \<Longrightarrow> set ps' \<subseteq> insert (s, pc) (set ps)"
  by (induction s pc ps arbitrary: ps' rule: cr_replace.induct) (auto split: if_splits)

lemma cr_replace_get:
  "cr_replace s pc ps = Some ps' \<Longrightarrow> map_of ps' x = (if x = s then Some pc else map_of ps x)"
  by (induction s pc ps arbitrary: ps' rule: cr_replace.induct) (auto split: if_splits)

lemma cr_erase_eq: "distinct (map fst ps) \<Longrightarrow>
  cr_erase s ps = (if s \<in> fst ` set ps then Some (filter (\<lambda>e. fst e \<noteq> s) ps) else None)"
proof (induction s ps rule: cr_erase.induct)
  case (2 s s' pc rest)
  have "filter (\<lambda>e. fst e \<noteq> s) rest = rest" if "s \<notin> fst ` set rest"
    using that by (auto simp: filter_id_conv)
  with 2 show ?case by auto
qed simp

text \<open>Both scans in closed form: which entries stay, and which packets are resent.\<close>

definition cr_bump :: "int \<Rightarrow> u32 \<times> pending_control \<Rightarrow> u32 \<times> pending_control" where
  "cr_bump now e = (fst e, (snd e)\<lparr>pc_attempts := pc_attempts (snd e) + 1, pc_lastSendTime := now\<rparr>)"

definition cr_due :: "int \<Rightarrow> int \<Rightarrow> u32 \<times> pending_control \<Rightarrow> bool" where
  "cr_due tmo now e \<longleftrightarrow> now - pc_lastSendTime (snd e) \<ge> tmo"

definition cr_spent :: "int \<Rightarrow> u32 \<times> pending_control \<Rightarrow> bool" where
  "cr_spent ma e \<longleftrightarrow> pc_attempts (snd e) \<ge> ma"

lemma fst_cr_bump [simp]: "fst (cr_bump now e) = fst e"
  by (simp add: cr_bump_def)

lemma map_fst_bump: "map fst (map (\<lambda>e. if P e then cr_bump now e else e) ps) = map fst ps"
  by simp

lemma cr_sweep_eq: "cr_sweep ma tmo now ps =
  (map (\<lambda>e. if cr_due tmo now e then cr_bump now e else e) (filter (\<lambda>e. \<not> (cr_due tmo now e \<and> cr_spent ma e)) ps),
   map (pc_packet \<circ> snd) (filter (\<lambda>e. cr_due tmo now e \<and> \<not> cr_spent ma e) ps))"
  by (induction ma tmo now ps rule: cr_sweep.induct) (simp_all add: cr_due_def cr_spent_def cr_bump_def)

lemma cr_nack_eq: "distinct (map fst ps) \<Longrightarrow> cr_nack_scan ma s now ps =
  (map (\<lambda>e. if fst e = s then cr_bump now e else e) (filter (\<lambda>e. \<not> (fst e = s \<and> cr_spent ma e)) ps),
   case map_of ps s of None \<Rightarrow> None | Some pc \<Rightarrow> if cr_spent ma (s, pc) then None else Some (pc_packet pc))"
proof (induction ma s now ps rule: cr_nack_scan.induct)
  case (2 ma s now s' pc rest)
  show ?case
  proof (cases "s' = s")
    case True
    with 2 have no: "\<forall>e \<in> set rest. fst e \<noteq> s" by force
    then have "filter (\<lambda>e. \<not> (fst e = s \<and> cr_spent ma e)) rest = rest"
      by (simp add: filter_id_conv)
    moreover have "map (\<lambda>e. if fst e = s then cr_bump now e else e) rest = rest"
      using no by (simp add: map_idI)
    ultimately show ?thesis by (simp add: True cr_spent_def cr_bump_def)
  next
    case False
    with 2 show ?thesis by simp
  qed
qed simp

lemma cr_entry_ok_bump: "cr_entry_ok ma e \<Longrightarrow> \<not> cr_spent ma e \<Longrightarrow> cr_entry_ok ma (cr_bump now e)"
  by (simp add: cr_entry_ok_def cr_bump_def cr_spent_def)

text \<open>Keeping some entries and bumping some of those with budget left keeps the invariant.\<close>

lemma cr_ok_pass:
  assumes "cr_ok cr" and "\<And>e. Q e \<Longrightarrow> P e \<Longrightarrow> \<not> cr_spent (cr_maxAttempts cr) e"
  shows "cr_ok (cr\<lparr>cr_pending := map (\<lambda>e. if P e then cr_bump now e else e) (filter Q (cr_pending cr)),
    cr_controlRetransmits := n\<rparr>)"
proof -
  let ?ps = "map (\<lambda>e. if P e then cr_bump now e else e) (filter Q (cr_pending cr))"
  have "length ?ps \<le> CR_BUFFER_SIZE"
    using assms(1) by (simp add: cr_ok_def order_trans [OF length_filter_le])
  moreover have "map fst ?ps = map fst (filter Q (cr_pending cr))" by (rule map_fst_bump)
  then have "distinct (map fst ?ps)"
    using assms(1) by (simp only: cr_ok_def distinct_map_filter)
  moreover have "\<forall>e \<in> set ?ps. cr_entry_ok (cr_maxAttempts cr) e"
    using assms by (auto simp: cr_ok_def intro!: cr_entry_ok_bump)
  ultimately show ?thesis
    using assms(1) unfolding cr_ok_def by simp
qed

lemma cr_ok_init: "mk_control_reliability ma tmo = Inr cr \<Longrightarrow> cr_ok cr"
  by (auto simp: mk_control_reliability_def cr_ok_def split: if_splits)

lemma cr_ok_recordSentAt:
  assumes "cr_ok cr" shows "cr_ok (recordSentAt p t cr)"
proof (cases "cr_tracked p")
  case tr: True
  let ?pc = "mk_pending_control p t"
  have new: "cr_entry_ok (cr_maxAttempts cr) (sequence p, ?pc)"
    using assms tr by (simp add: cr_entry_ok_def mk_pending_control_def cr_ok_def)
  show ?thesis
  proof (cases "cr_replace (sequence p) ?pc (cr_pending cr)")
    case None
    then have fresh: "sequence p \<notin> fst ` set (cr_pending cr)" by (simp add: cr_replace_None)
    define ps where "ps = (if length (cr_pending cr) \<ge> CR_BUFFER_SIZE then tl (cr_pending cr) else cr_pending cr)"
    have sub: "set ps \<subseteq> set (cr_pending cr)"
      unfolding ps_def by (cases "cr_pending cr") auto
    have dist: "distinct (map fst ps)"
      using assms by (auto simp: cr_ok_def ps_def map_tl distinct_tl)
    have len: "length ps < CR_BUFFER_SIZE"
      using assms by (auto simp: cr_ok_def ps_def CR_BUFFER_SIZE_def)
    have "recordSentAt p t cr = cr\<lparr>cr_pending := ps @ [(sequence p, ?pc)]\<rparr>"
      using tr None by (simp add: recordSentAt_def ps_def)
    then show ?thesis
      using assms new fresh sub dist len by (auto simp: cr_ok_def)
  next
    case (Some ps)
    then have "recordSentAt p t cr = cr\<lparr>cr_pending := ps\<rparr>"
      using tr by (simp add: recordSentAt_def)
    then show ?thesis
      using assms new cr_replace_set [OF Some] cr_replace_keys [OF Some]
        map_eq_imp_length_eq [OF cr_replace_keys [OF Some]]
      unfolding cr_ok_def by auto
  qed
qed (simp add: recordSentAt_def assms)

lemma cr_ack_eq: "cr_ok cr \<Longrightarrow> fst (onAckReceived s cr) =
    cr\<lparr>cr_pending := filter (\<lambda>e. fst e \<noteq> s) (cr_pending cr)\<rparr>"
proof (cases "s \<in> fst ` set (cr_pending cr)")
  case False
  then have "filter (\<lambda>e. fst e \<noteq> s) (cr_pending cr) = cr_pending cr"
    by (auto simp: filter_id_conv)
  with False show "cr_ok cr \<Longrightarrow> ?thesis" by (simp add: onAckReceived_def cr_ok_def cr_erase_eq)
qed (simp add: onAckReceived_def cr_ok_def cr_erase_eq)

lemma cr_ok_apply: "cr_ok cr \<Longrightarrow> cr_ok (fst (cr_apply op cr))"
proof (induction op)
  case (OpAck s)
  from cr_ok_pass [OF this, where Q = "\<lambda>e. fst e \<noteq> s" and P = "\<lambda>e. False" and
      n = "cr_controlRetransmits cr"] OpAck
  show ?case by (simp add: cr_ack_eq)
next
  case (OpNack s now)
  then have "distinct (map fst (cr_pending cr))" by (simp add: cr_ok_def)
  with cr_ok_pass [OF OpNack, of "\<lambda>e. \<not> (fst e = s \<and> cr_spent (cr_maxAttempts cr) e)" "\<lambda>e. fst e = s"]
  show ?case by (simp add: onNackReceivedAt_def cr_nack_eq)
next
  case (OpSweep now)
  with cr_ok_pass [OF OpSweep, of "\<lambda>e. \<not> (cr_due (cr_timeoutMs cr) now e \<and> cr_spent (cr_maxAttempts cr) e)"
      "cr_due (cr_timeoutMs cr) now"]
  show ?case by (simp add: checkRetransmitsAt_def cr_sweep_eq)
next
  case OpReset
  then show ?case by (simp add: cr_reset_def cr_ok_def)
qed (simp add: cr_ok_recordSentAt)

lemma cr_ok_run: "cr_ok cr \<Longrightarrow> cr_ok (fst (cr_run ops cr))"
proof (induction ops arbitrary: cr)
  case (Cons op ops)
  then show ?case using cr_ok_apply [OF Cons.prems, of op] by (simp add: case_prod_beta)
qed simp

section \<open>The resend budget\<close>

definition cr_budget :: "u32 \<Rightarrow> control_reliability \<Rightarrow> nat" where
  "cr_budget s cr = (case map_of (cr_pending cr) s of None \<Rightarrow> 0
     | Some pc \<Rightarrow> nat (cr_maxAttempts cr - pc_attempts pc))"

definition cr_resends :: "u32 \<Rightarrow> audio_packet list \<Rightarrow> nat" where
  "cr_resends s rs = length (filter (\<lambda>p. sequence p = s) rs)"

fun cr_records :: "u32 \<Rightarrow> cr_op \<Rightarrow> nat" where
  "cr_records s (OpSent p t) = (if sequence p = s \<and> cr_tracked p then 1 else 0)"
| "cr_records s _ = 0"

lemma cr_resends_append: "cr_resends s (xs @ ys) = cr_resends s xs + cr_resends s ys"
  by (simp add: cr_resends_def)

lemma map_of_pass:
  "distinct (map fst ps) \<Longrightarrow>
   map_of (map (\<lambda>e. if P e then cr_bump now e else e) (filter Q ps)) s =
     (case map_of ps s of None \<Rightarrow> None
      | Some pc \<Rightarrow> if Q (s, pc) then Some (if P (s, pc) then snd (cr_bump now (s, pc)) else pc) else None)"
proof (induction ps)
  case (Cons e ps)
  obtain s' pc where e: "e = (s', pc)" by (cases e)
  have "map_of ps s' = None" using Cons.prems by (simp add: e map_of_eq_None_iff)
  with Cons show ?case by (auto simp: e cr_bump_def)
qed simp

lemma cr_resends_filter:
  assumes "distinct (map fst ps)" and "\<forall>e \<in> set ps. sequence (pc_packet (snd e)) = fst e"
  shows "cr_resends s (map (pc_packet \<circ> snd) (filter R ps)) =
    (case map_of ps s of None \<Rightarrow> 0 | Some pc \<Rightarrow> if R (s, pc) then 1 else 0)"
  using assms
proof (induction ps)
  case (Cons e ps)
  obtain s' pc where e: "e = (s', pc)" by (cases e)
  have "map_of ps s' = None" using Cons.prems by (simp add: e map_of_eq_None_iff)
  with Cons show ?case by (auto simp: e cr_resends_def)
qed (simp add: cr_resends_def)

lemma cr_ok_facts:
  assumes "cr_ok cr"
  shows "distinct (map fst (cr_pending cr))" and "\<forall>e \<in> set (cr_pending cr). sequence (pc_packet (snd e)) = fst e"
    and "1 \<le> cr_maxAttempts cr"
  using assms by (auto simp: cr_ok_def cr_entry_ok_def)

lemma map_of_tl_le: "map_of (tl ps) s = Some v \<Longrightarrow> distinct (map fst ps) \<Longrightarrow> map_of ps s = Some v"
  by (cases ps) (auto simp: rev_image_eqI)

lemma cr_budget_record:
  assumes "cr_ok cr"
  shows "cr_budget s (recordSentAt p t cr) \<le> cr_budget s cr + cr_records s (OpSent p t) * (nat (cr_maxAttempts cr) - 1)"
proof (cases "cr_tracked p")
  case tr: True
  let ?pc = "mk_pending_control p t"
  let ?ps = "if length (cr_pending cr) \<ge> CR_BUFFER_SIZE then tl (cr_pending cr) else cr_pending cr"
  have new: "nat (cr_maxAttempts cr - pc_attempts ?pc) = nat (cr_maxAttempts cr) - 1"
    by (simp add: mk_pending_control_def nat_diff_distrib')
  show ?thesis
  proof (cases "cr_replace (sequence p) ?pc (cr_pending cr)")
    case None
    then have "map_of ?ps (sequence p) = None"
      unfolding cr_replace_None by (cases "cr_pending cr") (auto simp: map_of_eq_None_iff)
    with None tr new show ?thesis
      using map_of_tl_le [OF _ cr_ok_facts(1) [OF assms], of s]
      by (auto simp: recordSentAt_def cr_budget_def map_add_def split: option.splits)
  next
    case (Some ps)
    with tr new show ?thesis
      by (cases "map_of (cr_pending cr) s")
         (simp_all add: recordSentAt_def cr_budget_def cr_replace_get [OF Some])
  qed
qed (simp add: recordSentAt_def)

lemma cr_budget_step:
  assumes "cr_ok cr"
  shows "cr_resends s (snd (cr_apply op cr)) + cr_budget s (fst (cr_apply op cr))
    \<le> cr_budget s cr + cr_records s op * (nat (cr_maxAttempts cr) - 1)"
proof (cases op)
  case (OpSent p t)
  with cr_budget_record [OF assms] show ?thesis by (simp add: cr_resends_def)
next
  case (OpAck s')
  with cr_ok_facts(1) [OF assms] show ?thesis
    using map_of_pass [where Q = "\<lambda>e. fst e \<noteq> s'" and P = "\<lambda>e. False" and ps = "cr_pending cr" and s = s
      and now = 0]
    by (cases "map_of (cr_pending cr) s")
       (simp_all add: cr_ack_eq [OF assms] cr_budget_def cr_resends_def del: map_of_eq_Some_iff)
next
  case (OpNack s' now)
  have seq: "sequence (pc_packet pc) = s'" if "map_of (cr_pending cr) s' = Some pc" for pc
    using cr_ok_facts(2) [OF assms] map_of_SomeD [OF that] by auto
  show ?thesis
    by (cases "map_of (cr_pending cr) s'"; cases "s = s'"; cases "map_of (cr_pending cr) s";
        simp add: OpNack onNackReceivedAt_def cr_nack_eq [OF cr_ok_facts(1) [OF assms]]
         map_of_pass [OF cr_ok_facts(1) [OF assms]] cr_budget_def cr_bump_def cr_spent_def cr_resends_def seq,
        linarith?)
next
  case (OpSweep now)
  with cr_ok_facts(1,2) [OF assms] show ?thesis
    by (auto simp: checkRetransmitsAt_def cr_sweep_eq map_of_pass cr_resends_filter cr_budget_def
      cr_bump_def cr_spent_def split: option.splits)
qed (simp add: cr_reset_def cr_budget_def cr_resends_def)

lemma cr_apply_maxAttempts [simp]: "cr_maxAttempts (fst (cr_apply op cr)) = cr_maxAttempts cr"
  by (cases op) (auto simp: recordSentAt_def onAckReceived_def onNackReceivedAt_def checkRetransmitsAt_def
    cr_reset_def Let_def case_prod_beta split: option.splits)

lemma cr_budget_run:
  assumes "cr_ok cr"
  shows "cr_resends s (snd (cr_run ops cr)) + cr_budget s (fst (cr_run ops cr))
    \<le> cr_budget s cr + sum_list (map (cr_records s) ops) * (nat (cr_maxAttempts cr) - 1)"
  using assms
proof (induction ops arbitrary: cr)
  case (Cons op ops)
  from Cons.IH [OF cr_ok_apply [OF Cons.prems, of op]] cr_budget_step [OF Cons.prems, of s op]
  show ?case by (simp add: case_prod_beta cr_resends_append add_mult_distrib)
qed (simp add: cr_resends_def)

section \<open>Silence and acknowledgement\<close>

lemma sweep_single_due:
  "t + tmo \<le> now \<Longrightarrow> cr_sweep ma tmo now [(s, \<lparr>pc_packet = p, pc_lastSendTime = t, pc_attempts = k\<rparr>)] =
    (if ma \<le> k then ([], []) else ([(s, \<lparr>pc_packet = p, pc_lastSendTime = now, pc_attempts = k + 1\<rparr>)], [p]))"
  by simp

lemma sweeps_idle: "cr_pending cr = [] \<Longrightarrow>
    cr_pending (fst (cr_run (map OpSweep ts) cr)) = [] \<and> snd (cr_run (map OpSweep ts) cr) = []"
proof (induction ts arbitrary: cr)
  case (Cons t ts)
  show ?case
    using Cons.IH [of "fst (checkRetransmitsAt t cr)"] Cons.prems
    by (simp add: checkRetransmitsAt_def case_prod_beta)
qed simp

lemma sweeps_single:
  assumes "cr_pending cr = [(sequence p, \<lparr>pc_packet = p, pc_lastSendTime = t, pc_attempts = k\<rparr>)]"
    and "sorted_wrt (\<lambda>a b. a + cr_timeoutMs cr \<le> b) (t # ts)" and "k \<le> cr_maxAttempts cr"
  shows "snd (cr_run (map OpSweep ts) cr) = replicate (min (length ts) (nat (cr_maxAttempts cr - k))) p \<and>
    (cr_pending (fst (cr_run (map OpSweep ts) cr)) = [] \<longleftrightarrow> length ts > nat (cr_maxAttempts cr - k))"
  using assms
proof (induction ts arbitrary: cr t k)
  case (Cons now ts)
  define cr' where "cr' = fst (checkRetransmitsAt now cr)"
  have due: "t + cr_timeoutMs cr \<le> now" using Cons.prems(2) by simp
  show ?case
  proof (cases "cr_maxAttempts cr \<le> k")
    case True
    then have "cr_pending cr' = []" and "snd (checkRetransmitsAt now cr) = []"
      using Cons.prems(1) due by (simp_all add: cr'_def checkRetransmitsAt_def)
    with True sweeps_idle [of cr' ts] show ?thesis by (simp add: case_prod_beta flip: cr'_def)
  next
    case False
    have st: "cr_pending cr' = [(sequence p, \<lparr>pc_packet = p, pc_lastSendTime = now, pc_attempts = k + 1\<rparr>)]"
      "cr_timeoutMs cr' = cr_timeoutMs cr" "cr_maxAttempts cr' = cr_maxAttempts cr"
      "snd (checkRetransmitsAt now cr) = [p]"
      using Cons.prems(1) due False by (simp_all add: cr'_def checkRetransmitsAt_def)
    have left: "nat (cr_maxAttempts cr - k) = Suc (nat (cr_maxAttempts cr - (k + 1)))"
      using False by simp
    from Cons.IH [OF st(1)] Cons.prems(2) False st
    show ?thesis by (simp add: case_prod_beta left flip: cr'_def)
  qed
qed simp

lemma ack_clears:
  assumes "cr_ok cr" and "cr_tracked p"
  shows "snd (onAckReceived (sequence p) (recordSentAt p t cr))"
    and "cr_budget (sequence p) (fst (onAckReceived (sequence p) (recordSentAt p t cr))) = 0"
proof -
  have ok: "cr_ok (recordSentAt p t cr)" using assms(1) by (rule cr_ok_recordSentAt)
  have "sequence p \<in> fst ` set (cr_pending (recordSentAt p t cr))"
  proof (cases "cr_replace (sequence p) (mk_pending_control p t) (cr_pending cr)")
    case (Some ps)
    then have "sequence p \<in> fst ` set (cr_pending cr)" by (metis cr_replace_None option.distinct(1))
    with assms(2) Some show ?thesis
      using arg_cong [OF cr_replace_keys [OF Some], of set] by (simp add: recordSentAt_def)
  qed (simp add: recordSentAt_def assms(2) Let_def)
  with ok show "snd (onAckReceived (sequence p) (recordSentAt p t cr))"
    by (simp add: onAckReceived_def cr_ok_def cr_erase_eq)
  have "map_of (filter (\<lambda>e. fst e \<noteq> sequence p) ps) (sequence p) = None" for ps :: "(u32 \<times> pending_control) list"
    by (auto simp: map_of_eq_None_iff)
  then show "cr_budget (sequence p) (fst (onAckReceived (sequence p) (recordSentAt p t cr))) = 0"
    by (simp add: cr_ack_eq [OF ok] cr_budget_def)
qed

section \<open>Properties\<close>

text \<open>
  C39: from construction on, whatever calls are made in whatever order, the pending table holds at
  most 16 entries with distinct sequences, each a critical control packet under its own sequence
  whose attempts are between 1 and the maximum.
\<close>

theorem control_pending_invariant:
  assumes "mk_control_reliability ma tmo = Inr cr"
  shows "cr_ok (fst (cr_run ops cr))"
  using assms by (intro cr_ok_run cr_ok_init)

theorem control_pending_invariant_witness:
  "cr_ok (fst (cr_run [OpSent (createControl 0 7 [0x40]) 0, OpNack 7 3, OpSweep 1000, OpAck 7]
     \<lparr>cr_maxAttempts = 3, cr_timeoutMs = 500, cr_pending = [], cr_controlRetransmits = 0\<rparr>))"
  by (rule control_pending_invariant [of 3 500]) (simp add: mk_control_reliability_def)

text \<open>
  C12: over any interleaving of sends, acknowledgements, NACKs, timeout sweeps and resets, the
  packets put on the wire again with a given sequence number are at most (maxAttempts - 1) for each
  time a packet with that sequence was recorded: neither a peer's NACKs nor the clock can spend
  more.
\<close>

theorem control_resend_bound:
  assumes "mk_control_reliability ma tmo = Inr cr"
  shows "cr_resends s (snd (cr_run ops cr)) \<le> sum_list (map (cr_records s) ops) * (nat ma - 1)"
proof -
  have "cr_budget s cr = 0" "cr_maxAttempts cr = ma"
    using assms by (auto simp: mk_control_reliability_def cr_budget_def split: if_splits)
  with cr_budget_run [OF cr_ok_init [OF assms], of s ops] show ?thesis by simp
qed

theorem control_resend_bound_witness:
  "cr_resends 7 (snd (cr_run [OpSent (createControl 0 7 [0x40]) 0, OpNack 7 1, OpNack 7 2, OpNack 7 3]
     \<lparr>cr_maxAttempts = 3, cr_timeoutMs = 500, cr_pending = [], cr_controlRetransmits = 0\<rparr>)) \<le> 2"
proof -
  have "cr_records 7 (OpSent (createControl 0 7 [0x40]) 0) \<le> 1" by simp
  with control_resend_bound [of 3 500 "\<lparr>cr_maxAttempts = 3, cr_timeoutMs = 500, cr_pending = [], cr_controlRetransmits = 0\<rparr>"
    7 "[OpSent (createControl 0 7 [0x40]) 0, OpNack 7 1, OpNack 7 2, OpNack 7 3]"]
  show ?thesis by (simp add: mk_control_reliability_def del: cr_run.simps split: if_splits)
qed

text \<open>
  A critical control packet that the peer never acknowledges is resent on each sweep that
  finds the timeout elapsed, exactly maxAttempts - 1 times in all, and is dropped by the sweep
  after that and not before.
\<close>

theorem control_silence_spends_budget:
  assumes "mk_control_reliability ma tmo = Inr cr" and "cr_tracked p"
    and "sorted_wrt (\<lambda>a b. a + tmo \<le> b) (t # ts)"
  shows "snd (cr_run (OpSent p t # map OpSweep ts) cr) = replicate (min (length ts) (nat ma - 1)) p \<and>
    (cr_pendingCount (fst (cr_run (OpSent p t # map OpSweep ts) cr)) = 0 \<longleftrightarrow> nat ma \<le> length ts)"
proof -
  define cr' where "cr' = recordSentAt p t cr"
  have 1: "1 \<le> ma" using assms(1) by (simp add: mk_control_reliability_def split: if_splits)
  have cr': "cr_pending cr' = [(sequence p, \<lparr>pc_packet = p, pc_lastSendTime = t, pc_attempts = 1\<rparr>)]"
    "cr_timeoutMs cr' = tmo" "cr_maxAttempts cr' = ma"
    using assms(1,2) by (auto simp: cr'_def mk_control_reliability_def recordSentAt_def mk_pending_control_def
      CR_BUFFER_SIZE_def split: if_splits)
  have "nat (ma - 1) = nat ma - 1" by simp
  with sweeps_single [OF cr'(1), of ts] assms(3) 1 show ?thesis
    by (simp add: case_prod_beta cr' cr_pendingCount_def flip: cr'_def) linarith
qed

theorem control_silence_spends_budget_witness:
  "snd (cr_run (OpSent (createControl 0 7 [0x40]) 0 # map OpSweep [500, 1000, 1500, 2000])
     \<lparr>cr_maxAttempts = 3, cr_timeoutMs = 500, cr_pending = [], cr_controlRetransmits = 0\<rparr>) =
   [createControl 0 7 [0x40], createControl 0 7 [0x40]]"
proof -
  have "cm_deserialize [0x40] = Some (ofType TxGranted)"
    by (simp add: cm_deserialize_Some cm_serialize_def ofType_def put_defs)
  then have "cr_tracked (createControl 0 7 [0x40])"
    by (simp add: cr_tracked_def createControl_def mk_packet_def ofType_def)
  from control_silence_spends_budget [OF _ this, of 3 500 "\<lparr>cr_maxAttempts = 3, cr_timeoutMs = 500, cr_pending = [],
      cr_controlRetransmits = 0\<rparr>" 0 "[500, 1000, 1500, 2000]"]
  show ?thesis by (simp add: mk_control_reliability_def del: cr_run.simps)
qed

text \<open>
  The receiver's CONTROL_ACK for a packet, parsed by the sender that recorded it, matches the
  pending entry, and after it the packet is never resent unless it is recorded again.
\<close>

theorem control_ack_ends_retransmission:
  assumes "cr_ok cr" and "generateAck p = Some a" and "\<forall>op \<in> set ops. cr_records (sequence p) op = 0"
  shows "snd (onAckReceived (parseControlAckSequence a) (recordSentAt p t cr)) \<and>
    cr_resends (sequence p)
      (snd (cr_run ops (fst (onAckReceived (parseControlAckSequence a) (recordSentAt p t cr))))) = 0"
proof -
  have tr: "cr_tracked p" and a: "parseControlAckSequence a = sequence p"
    using assms(2) by (auto simp: generateAck_def parse_scalars split: if_splits)
  let ?cr = "fst (onAckReceived (sequence p) (recordSentAt p t cr))"
  have ok: "cr_ok ?cr"
    using cr_ok_apply [OF cr_ok_recordSentAt [OF assms(1)], of "OpAck (sequence p)"] by simp
  have none: "sum_list (map (cr_records (sequence p)) ops) = 0"
    using assms(3) by (induction ops) simp_all
  show ?thesis
    using cr_budget_run [OF ok, of "sequence p" ops] ack_clears [OF assms(1) tr] by (simp only: a none) simp
qed

theorem control_ack_ends_retransmission_witness:
  "snd (onAckReceived (parseControlAckSequence (cm_controlAck 7)) (recordSentAt (createControl 0 7 [0x40]) 0
     \<lparr>cr_maxAttempts = 3, cr_timeoutMs = 500, cr_pending = [], cr_controlRetransmits = 0\<rparr>))"
proof -
  have "cm_deserialize [0x40] = Some (ofType TxGranted)"
    by (simp add: cm_deserialize_Some cm_serialize_def ofType_def put_defs)
  then have "generateAck (createControl 0 7 [0x40]) = Some (cm_controlAck 7)"
    by (simp add: generateAck_def cr_tracked_def createControl_def mk_packet_def ofType_def)
  from control_ack_ends_retransmission [OF _ this, of _ "[]"] show ?thesis
    by (simp add: cr_ok_def)
qed

end
