(* ===== verification/Reorder_Buffer.thy ===== *)
theory Reorder_Buffer
  imports Audio_Packet
begin

text \<open>
  The reorder buffer for out-of-order UDP packets: \<open>src/PacketReorderBuffer.cpp\<close>. The two
  \<open>std::map\<close>s are the ordered maps of the prelude, keyed by the sequence read as unsigned; time is
  an argument; the calls to the emitter are a list, where \<open>None\<close> is the null pointer that stands
  for one slot of silence. The lemmas show the invariant, that emission is strictly in order and
  never repeats a slot over any run, the agreement of the flush with the span walk it replaces,
  the caps on silence and on holding time, and the exact restoration of a reordered stream.
\<close>

section \<open>State and operations\<close>

record reorder_buffer =
  rb_windowSize :: nat
  rb_maxHoldMs :: int
  rb_buffer :: "(int, audio_packet) omap"
  rb_arrivalTimes :: "(int, int) omap"
  rb_nextExpected :: int
  rb_packetsReordered :: int
  rb_packetsDroppedLate :: int
  rb_gapsEmitted :: int

type_synonym emits = "audio_packet option list"

definition mk_reorder_buffer :: "nat \<Rightarrow> int \<Rightarrow> cpp_exn + reorder_buffer" where
  "mk_reorder_buffer w h =
     (if w = 0 then Inl (Invalid_argument ''windowSize must be >= 1'')
      else if h < 0 then Inl (Invalid_argument ''maxHoldMs must be >= 0'')
      else Inr \<lparr>rb_windowSize = w, rb_maxHoldMs = h, rb_buffer = [], rb_arrivalTimes = [],
        rb_nextExpected = -1, rb_packetsReordered = 0, rb_packetsDroppedLate = 0, rb_gapsEmitted = 0\<rparr>)"

text \<open>\<open>static_cast<std::int64_t>(static_cast<std::uint32_t>(packet.sequence()))\<close>.\<close>

definition rb_seq :: "audio_packet \<Rightarrow> int" where
  "rb_seq p = uint (sequence p)"

function drainConsecutive :: "reorder_buffer \<Rightarrow> reorder_buffer \<times> emits" where
  "drainConsecutive b =
     (if rb_buffer b = [] then (b, [])
      else case omap_get (rb_buffer b) (rb_nextExpected b) of
             None \<Rightarrow> (b, [])
           | Some p \<Rightarrow>
               let (b', es) = drainConsecutive (b\<lparr>
                     rb_buffer := omap_del (rb_nextExpected b) (rb_buffer b),
                     rb_arrivalTimes := omap_del (rb_nextExpected b) (rb_arrivalTimes b),
                     rb_packetsReordered := rb_packetsReordered b + 1,
                     rb_nextExpected := rb_nextExpected b + 1\<rparr>)
               in (b', Some p # es))"
  by pat_completeness auto
termination
  by (relation "measure (\<lambda>b. length (rb_buffer b))") (simp_all add: omap_del_length_less omap_get_Some_in)

declare drainConsecutive.simps [simp del]

text \<open>
  The loop of \<open>forceFlush\<close> over the buffered packets in ascending order: \<open>cursor\<close> is the next slot
  not accounted for, \<open>budget\<close> what is left of the silence allowance.
\<close>

fun flush_loop :: "int \<Rightarrow> int \<Rightarrow> int \<Rightarrow> (int, audio_packet) omap \<Rightarrow> reorder_buffer \<Rightarrow> reorder_buffer \<times> emits" where
  "flush_loop start cursor budget [] b = (b\<lparr>rb_buffer := []\<rparr>, [])"
| "flush_loop start cursor budget ((sq, p) # rest) b =
     (let holes = sq - cursor;
          holes = (if holes > budget then budget else holes);
          b = b\<lparr>rb_gapsEmitted := rb_gapsEmitted b + int (nat holes)\<rparr>;
          b = (if sq \<noteq> start then b\<lparr>rb_packetsReordered := rb_packetsReordered b + 1\<rparr> else b);
          (b', es) = flush_loop start (sq + 1) (budget - holes) rest b
      in (b', replicate (nat holes) None @ Some p # es))"

definition forceFlush :: "reorder_buffer \<Rightarrow> reorder_buffer \<times> emits" where
  "forceFlush b =
     (if rb_buffer b = [] then (b, [])
      else let highestBuffered = fst (last (rb_buffer b));
               start = rb_nextExpected b;
               (b', es) = flush_loop start start (int (rb_windowSize b)) (rb_buffer b) b
        in (b'\<lparr>rb_arrivalTimes := [], rb_nextExpected := highestBuffered + 1\<rparr>, es))"

definition insertAt :: "audio_packet \<Rightarrow> int \<Rightarrow> reorder_buffer \<Rightarrow> reorder_buffer \<times> emits" where
  "insertAt p nowMs b =
     (let sq = rb_seq p;
          b = (if rb_nextExpected b < 0 then b\<lparr>rb_nextExpected := sq\<rparr> else b)
      in if sq < rb_nextExpected b then (b\<lparr>rb_packetsDroppedLate := rb_packetsDroppedLate b + 1\<rparr>, [])
         else if sq = rb_nextExpected b then
           (let (b', es) = drainConsecutive (b\<lparr>rb_nextExpected := sq + 1\<rparr>) in (b', Some p # es))
         else
           (let b = b\<lparr>rb_buffer := omap_put sq p (rb_buffer b),
                      rb_arrivalTimes := omap_put sq nowMs (rb_arrivalTimes b)\<rparr>
            in if length (rb_buffer b) \<ge> rb_windowSize b then forceFlush b else (b, [])))"

fun oldest_arrival :: "int \<Rightarrow> (int, int) omap \<Rightarrow> int" where
  "oldest_arrival t [] = t"
| "oldest_arrival t ((_, a) # rest) = oldest_arrival (if a < t then a else t) rest"

definition checkTimeoutAt :: "int \<Rightarrow> reorder_buffer \<Rightarrow> reorder_buffer \<times> emits" where
  "checkTimeoutAt nowMs b =
     (if rb_buffer b = [] then (b, [])
      else case rb_arrivalTimes b of
             [] \<Rightarrow> (b, [])
           | (_, a) # _ \<Rightarrow>
               if nowMs - oldest_arrival a (rb_arrivalTimes b) \<ge> rb_maxHoldMs b then forceFlush b else (b, []))"

definition rb_bufferedCount :: "reorder_buffer \<Rightarrow> nat" where
  "rb_bufferedCount b = length (rb_buffer b)"

definition rb_reset :: "reorder_buffer \<Rightarrow> reorder_buffer" where
  "rb_reset b = b\<lparr>rb_buffer := [], rb_arrivalTimes := [], rb_nextExpected := -1, rb_packetsReordered := 0,
     rb_packetsDroppedLate := 0, rb_gapsEmitted := 0\<rparr>"

text \<open>The two entry points a connection drives, and a run of them.\<close>

datatype rb_op = RbInsert audio_packet int | RbTimeout int

fun rb_apply :: "rb_op \<Rightarrow> reorder_buffer \<Rightarrow> reorder_buffer \<times> emits" where
  "rb_apply (RbInsert p t) b = insertAt p t b"
| "rb_apply (RbTimeout t) b = checkTimeoutAt t b"

fun rb_run :: "rb_op list \<Rightarrow> reorder_buffer \<Rightarrow> reorder_buffer \<times> emits" where
  "rb_run [] b = (b, [])"
| "rb_run (op # ops) b = (let (b', es) = rb_apply op b; (b'', es') = rb_run ops b' in (b'', es @ es'))"

section \<open>Invariant\<close>

text \<open>
  Both maps are ordered and have the same keys, every buffered packet is under its own sequence
  and ahead of the next expected one, and the window is not full.
\<close>

definition rb_wf :: "reorder_buffer \<Rightarrow> bool" where
  "rb_wf b \<longleftrightarrow> omap_ok (rb_buffer b) \<and> omap_keys (rb_arrivalTimes b) = omap_keys (rb_buffer b) \<and>
     (\<forall>e \<in> set (rb_buffer b). rb_seq (snd e) = fst e \<and> rb_nextExpected b \<le> fst e) \<and>
     (rb_nextExpected b < 0 \<longrightarrow> rb_buffer b = [])"

definition rb_ok :: "reorder_buffer \<Rightarrow> bool" where
  "rb_ok b \<longleftrightarrow> rb_wf b \<and> rb_nextExpected b \<notin> fst ` set (rb_buffer b) \<and>
     length (rb_buffer b) < rb_windowSize b \<and> 0 \<le> rb_maxHoldMs b"

text \<open>The sequences of the packets in an emission, and how much silence it holds.\<close>

definition emit_seqs :: "emits \<Rightarrow> int list" where
  "emit_seqs es = map rb_seq (List.map_filter (\<lambda>x. x) es)"

definition emit_gaps :: "emits \<Rightarrow> nat" where
  "emit_gaps es = length (filter (\<lambda>e. e = None) es)"

lemma emit_simps [simp]:
  "emit_seqs [] = []" "emit_seqs (Some p # es) = rb_seq p # emit_seqs es"
  "emit_seqs (None # es) = emit_seqs es" "emit_seqs (es @ es') = emit_seqs es @ emit_seqs es'"
  "emit_seqs (replicate n None) = []"
  "emit_gaps [] = 0" "emit_gaps (Some p # es) = emit_gaps es" "emit_gaps (replicate n None) = n"
  "emit_gaps (None # es) = Suc (emit_gaps es)" "emit_gaps (es @ es') = emit_gaps es + emit_gaps es'"
  by (induction n) (simp_all add: emit_seqs_def emit_gaps_def List.map_filter_def)

lemma omap_keys_del_eq: "omap_keys (omap_del k m) = filter (\<lambda>x. x \<noteq> k) (omap_keys m)"
  by (simp add: omap_del_def filter_map comp_def)

lemma omap_keys_put_eq: "omap_keys (omap_put k v m) = oset_insert k (omap_keys m)"
  by (induction k v m rule: omap_put.induct) auto

lemma omap_del_set: "set (omap_del k m) = {e \<in> set m. fst e \<noteq> k}"
  by (auto simp: omap_del_def)

lemma omap_put_set: "omap_ok m \<Longrightarrow> set (omap_put k v m) = insert (k, v) {e \<in> set m. fst e \<noteq> k}"
  by (induction k v m rule: omap_put.induct) (force simp: omap_ok_Cons)+

text \<open>
  \<open>drainConsecutive\<close> emits the packets of the slots it passes, without silence, and stops at the
  first slot that is not buffered.
\<close>

lemma drain_spec:
  assumes "rb_wf b" and "0 \<le> rb_nextExpected b" and "drainConsecutive b = (b', es)"
  shows "rb_wf b' \<and> rb_nextExpected b \<le> rb_nextExpected b' \<and>
    rb_nextExpected b' \<notin> fst ` set (rb_buffer b') \<and>
    es = map (omap_get (rb_buffer b)) [rb_nextExpected b..rb_nextExpected b' - 1] \<and>
    emit_seqs es = [rb_nextExpected b..rb_nextExpected b' - 1] \<and> emit_gaps es = 0 \<and>
    rb_buffer b' = filter (\<lambda>e. rb_nextExpected b' \<le> fst e) (rb_buffer b) \<and>
    rb_windowSize b' = rb_windowSize b \<and> rb_maxHoldMs b' = rb_maxHoldMs b \<and>
    rb_gapsEmitted b' = rb_gapsEmitted b \<and> rb_packetsDroppedLate b' = rb_packetsDroppedLate b \<and>
    rb_packetsReordered b' = rb_packetsReordered b + int (length es)"
  using assms
proof (induction b arbitrary: b' es rule: drainConsecutive.induct)
  case (1 b)
  let ?n = "rb_nextExpected b"
  have ge: "filter (\<lambda>e. ?n \<le> fst e) (rb_buffer b) = rb_buffer b"
    using "1.prems"(1) by (auto simp: filter_id_conv rb_wf_def)
  show ?case
  proof (cases "omap_get (rb_buffer b) ?n")
    case None
    then have b': "b' = b" "es = []" using "1.prems"(3) by (auto simp: drainConsecutive.simps [of b] split: if_splits)
    have "?n \<notin> fst ` set (rb_buffer b)" using None by (simp add: map_of_eq_None_iff)
    with b' ge "1.prems"(1) show ?thesis by simp
  next
    case (Some p)
    then have ne: "rb_buffer b \<noteq> []" by auto
    define b1 where "b1 = b\<lparr>rb_buffer := omap_del ?n (rb_buffer b),
      rb_arrivalTimes := omap_del ?n (rb_arrivalTimes b),
      rb_packetsReordered := rb_packetsReordered b + 1, rb_nextExpected := ?n + 1\<rparr>"
    obtain es1 where es: "drainConsecutive b1 = (b', es1)" "es = Some p # es1"
      using "1.prems"(3) ne Some by (auto simp: drainConsecutive.simps [of b] b1_def split: prod.splits)
    have n1: "rb_nextExpected b1 = ?n + 1" by (simp add: b1_def)
    have wf1: "rb_wf b1"
      using "1.prems"(1,2) by (auto simp: rb_wf_def b1_def omap_ok_del omap_keys_del_eq omap_del_set)
    have seqp: "rb_seq p = ?n" using "1.prems"(1) map_of_SomeD [OF Some] by (auto simp: rb_wf_def)
    have IH: "rb_wf b' \<and> ?n + 1 \<le> rb_nextExpected b' \<and> rb_nextExpected b' \<notin> fst ` set (rb_buffer b') \<and>
      es1 = map (omap_get (rb_buffer b1)) [?n + 1..rb_nextExpected b' - 1] \<and>
      emit_seqs es1 = [?n + 1..rb_nextExpected b' - 1] \<and> emit_gaps es1 = 0 \<and>
      rb_buffer b' = filter (\<lambda>e. rb_nextExpected b' \<le> fst e) (rb_buffer b1) \<and>
      rb_windowSize b' = rb_windowSize b1 \<and> rb_maxHoldMs b' = rb_maxHoldMs b1 \<and>
      rb_gapsEmitted b' = rb_gapsEmitted b1 \<and> rb_packetsDroppedLate b' = rb_packetsDroppedLate b1 \<and>
      rb_packetsReordered b' = rb_packetsReordered b1 + int (length es1)"
      using "1.IH" [OF ne Some, folded b1_def, OF wf1 _ es(1)] "1.prems"(2) unfolding n1 by linarith
    then have up: "[?n..rb_nextExpected b' - 1] = ?n # [?n + 1..rb_nextExpected b' - 1]"
      by (simp add: upto_rec1)
    have "omap_get (rb_buffer b1) k = omap_get (rb_buffer b) k" if "k \<noteq> ?n" for k
      using that by (simp add: b1_def omap_get_del)
    then have "map (omap_get (rb_buffer b1)) [?n + 1..rb_nextExpected b' - 1] =
      map (omap_get (rb_buffer b)) [?n + 1..rb_nextExpected b' - 1]" by simp
    moreover have "filter (\<lambda>e. rb_nextExpected b' \<le> fst e) (rb_buffer b1) =
      filter (\<lambda>e. rb_nextExpected b' \<le> fst e) (rb_buffer b)"
      using IH by (auto simp: b1_def omap_del_def intro!: filter_cong)
    ultimately show ?thesis using IH by (elim conjE) (simp add: es(2) up Some seqp b1_def)
  qed
qed

text \<open>The flush loop emits exactly the buffered packets in order and never more silence than its budget.\<close>

lemma flush_loop_spec:
  assumes "omap_ok m" and "\<forall>e \<in> set m. cursor \<le> fst e" and "\<forall>e \<in> set m. rb_seq (snd e) = fst e"
    and "0 \<le> budget" and "flush_loop start cursor budget m b = (b', es)"
  shows "emit_seqs es = omap_keys m \<and> int (emit_gaps es) \<le> budget \<and>
    b' = b\<lparr>rb_buffer := [], rb_gapsEmitted := rb_gapsEmitted b + int (emit_gaps es),
      rb_packetsReordered := rb_packetsReordered b + int (length (filter (\<lambda>k. k \<noteq> start) (omap_keys m)))\<rparr>"
  using assms
proof (induction m arbitrary: cursor budget b b' es)
  case (Cons e rest)
  obtain sq p where e: "e = (sq, p)" by (cases e)
  define holes where "holes = (if sq - cursor > budget then budget else sq - cursor)"
  have h: "0 \<le> holes" "holes \<le> budget" using Cons.prems(2,4) by (auto simp: holes_def e)
  have rest: "omap_ok rest" "\<forall>e \<in> set rest. sq + 1 \<le> fst e" "\<forall>e \<in> set rest. rb_seq (snd e) = fst e"
    using Cons.prems by (auto simp: omap_ok_Cons e)
  have seqp: "rb_seq p = sq" using Cons.prems(3) by (simp add: e)
  define b1 where "b1 = (let c = b\<lparr>rb_gapsEmitted := rb_gapsEmitted b + int (nat holes)\<rparr> in
    if sq \<noteq> start then c\<lparr>rb_packetsReordered := rb_packetsReordered c + 1\<rparr> else c)"
  obtain es1 where es: "flush_loop start (sq + 1) (budget - holes) rest b1 = (b', es1)"
    "es = replicate (nat holes) None @ Some p # es1"
    using Cons.prems(5) by (auto simp: e holes_def b1_def Let_def split: prod.splits if_splits)
  have "emit_seqs es1 = omap_keys rest \<and> int (emit_gaps es1) \<le> budget - holes \<and>
    b' = b1\<lparr>rb_buffer := [], rb_gapsEmitted := rb_gapsEmitted b1 + int (emit_gaps es1),
      rb_packetsReordered := rb_packetsReordered b1 + int (length (filter (\<lambda>k. k \<noteq> start) (omap_keys rest)))\<rparr>"
    using Cons.IH [OF rest _ es(1)] h by simp
  then show ?case using h by (auto simp: e es(2) seqp b1_def Let_def)
qed auto

lemma forceFlush_spec:
  assumes "rb_wf b" and "rb_buffer b \<noteq> []" and "forceFlush b = (b', es)"
  shows "emit_seqs es = omap_keys (rb_buffer b) \<and> emit_gaps es \<le> rb_windowSize b \<and>
    b' = b\<lparr>rb_buffer := [], rb_arrivalTimes := [], rb_nextExpected := fst (last (rb_buffer b)) + 1,
      rb_gapsEmitted := rb_gapsEmitted b + int (emit_gaps es),
      rb_packetsReordered := rb_packetsReordered b +
        int (length (filter (\<lambda>k. k \<noteq> rb_nextExpected b) (omap_keys (rb_buffer b))))\<rparr>"
proof -
  obtain b1 where b1: "flush_loop (rb_nextExpected b) (rb_nextExpected b) (int (rb_windowSize b)) (rb_buffer b) b = (b1, es)"
    "b' = b1\<lparr>rb_arrivalTimes := [], rb_nextExpected := fst (last (rb_buffer b)) + 1\<rparr>"
    using assms(2,3) by (auto simp: forceFlush_def Let_def split: prod.splits)
  from flush_loop_spec [OF _ _ _ _ b1(1)] assms(1) show ?thesis
    by (simp add: rb_wf_def b1(2))
qed

lemma omap_keys_le_last: "omap_ok m \<Longrightarrow> e \<in> set m \<Longrightarrow> fst e \<le> fst (last m)"
proof (induction m)
  case (Cons x m)
  have "fst x < fst (last m)" if "m \<noteq> []"
    using Cons.prems(1) last_in_set [OF that] by (auto simp: omap_ok_Cons)
  with Cons show ?case by (auto simp: omap_ok_Cons less_imp_le)
qed simp

lemma oldest_arrival_le: "oldest_arrival t m \<le> t \<and> (\<forall>e \<in> set m. oldest_arrival t m \<le> snd e)"
  by (induction t m rule: oldest_arrival.induct) (auto split: if_splits)

section \<open>What one call does\<close>

text \<open>
  The facts of a step that the properties share: the invariant is kept, the emitted sequences are
  ascending and lie between the old and the new next expected slot, and the silence is capped.
\<close>

definition rb_step_ok :: "reorder_buffer \<Rightarrow> reorder_buffer \<Rightarrow> emits \<Rightarrow> bool" where
  "rb_step_ok b b' es \<longleftrightarrow> rb_ok b' \<and> rb_windowSize b' = rb_windowSize b \<and> rb_maxHoldMs b' = rb_maxHoldMs b \<and>
     rb_nextExpected b \<le> rb_nextExpected b' \<and> sorted_wrt (<) (emit_seqs es) \<and>
     (\<forall>s \<in> set (emit_seqs es). rb_nextExpected b \<le> s \<and> s < rb_nextExpected b') \<and>
     emit_gaps es \<le> rb_windowSize b \<and> rb_gapsEmitted b' = rb_gapsEmitted b + int (emit_gaps es)"

lemma sorted_upto [simp]: "sorted_wrt (<) [i..j]"
  by (induction i j rule: upto.induct) (subst upto.simps, auto)

lemma rb_step_flush:
  assumes "rb_wf b" and "rb_buffer b \<noteq> []" and "0 < rb_windowSize b" and "0 \<le> rb_maxHoldMs b"
    and "forceFlush b = (b', es)"
  shows "rb_step_ok b b' es"
proof -
  note f = forceFlush_spec [OF assms(1,2,5)]
  have last: "last (rb_buffer b) \<in> set (rb_buffer b)" using assms(2) by simp
  then have le: "rb_nextExpected b \<le> fst (last (rb_buffer b))" using assms(1) by (auto simp: rb_wf_def)
  have "sorted_wrt (<) (omap_keys (rb_buffer b))" using assms(1) by (simp add: rb_wf_def omap_ok_def)
  moreover have "\<forall>s \<in> set (omap_keys (rb_buffer b)). rb_nextExpected b \<le> s \<and> s < fst (last (rb_buffer b)) + 1"
    using assms(1) omap_keys_le_last by (fastforce simp: rb_wf_def)
  ultimately show ?thesis
    using f le assms(3,4) by (simp add: rb_step_ok_def rb_ok_def rb_wf_def)
qed

lemma rb_seq_nonneg [simp]: "0 \<le> rb_seq p"
  by (simp add: rb_seq_def)

text \<open>\<open>insertAt\<close> once the baseline is set, by where the sequence falls.\<close>

definition rb_baseline :: "audio_packet \<Rightarrow> reorder_buffer \<Rightarrow> reorder_buffer" where
  "rb_baseline p b = (if rb_nextExpected b < 0 then b\<lparr>rb_nextExpected := rb_seq p\<rparr> else b)"

lemma rb_baseline_ok: "rb_ok b \<Longrightarrow> rb_ok (rb_baseline p b) \<and> 0 \<le> rb_nextExpected (rb_baseline p b) \<and>
    rb_nextExpected b \<le> rb_nextExpected (rb_baseline p b)"
  using rb_seq_nonneg [of p] order_trans [of "rb_nextExpected b" 0 "rb_seq p"]
  by (cases "rb_nextExpected b < 0") (simp_all add: rb_baseline_def rb_ok_def rb_wf_def)

lemma rb_baseline_fields [simp]:
  "rb_windowSize (rb_baseline p b) = rb_windowSize b" "rb_maxHoldMs (rb_baseline p b) = rb_maxHoldMs b"
  "rb_buffer (rb_baseline p b) = rb_buffer b" "rb_gapsEmitted (rb_baseline p b) = rb_gapsEmitted b"
  "rb_packetsDroppedLate (rb_baseline p b) = rb_packetsDroppedLate b"
  "rb_packetsReordered (rb_baseline p b) = rb_packetsReordered b"
  "rb_arrivalTimes (rb_baseline p b) = rb_arrivalTimes b"
  by (simp_all add: rb_baseline_def)

definition rb_hold :: "audio_packet \<Rightarrow> int \<Rightarrow> reorder_buffer \<Rightarrow> reorder_buffer" where
  "rb_hold p t b = b\<lparr>rb_buffer := omap_put (rb_seq p) p (rb_buffer b),
     rb_arrivalTimes := omap_put (rb_seq p) t (rb_arrivalTimes b)\<rparr>"

lemma insertAt_cases:
  "insertAt p t b = (let c = rb_baseline p b in
     if rb_seq p < rb_nextExpected c then (c\<lparr>rb_packetsDroppedLate := rb_packetsDroppedLate c + 1\<rparr>, [])
     else if rb_seq p = rb_nextExpected c then
       (let (b', es) = drainConsecutive (c\<lparr>rb_nextExpected := rb_seq p + 1\<rparr>) in (b', Some p # es))
     else if length (rb_buffer (rb_hold p t c)) \<ge> rb_windowSize c then forceFlush (rb_hold p t c)
     else (rb_hold p t c, []))"
  by (simp add: insertAt_def rb_baseline_def rb_hold_def Let_def)

lemma rb_wf_next: "rb_ok b \<Longrightarrow> 0 \<le> rb_nextExpected b \<Longrightarrow> rb_wf (b\<lparr>rb_nextExpected := rb_nextExpected b + 1\<rparr>)"
  by (force simp: rb_ok_def rb_wf_def)

lemma rb_wf_hold:
  assumes "rb_ok b" and "0 \<le> rb_nextExpected b" and "rb_nextExpected b < rb_seq p"
  shows "rb_wf (rb_hold p t b)" and "rb_nextExpected b \<notin> fst ` set (rb_buffer (rb_hold p t b))"
    and "rb_buffer (rb_hold p t b) \<noteq> []"
proof -
  have ok: "omap_ok (rb_buffer b)" using assms(1) by (simp add: rb_ok_def rb_wf_def)
  show "rb_wf (rb_hold p t b)"
    using assms ok by (auto simp: rb_ok_def rb_wf_def rb_hold_def omap_ok_put omap_keys_put_eq omap_put_set)
  show "rb_nextExpected b \<notin> fst ` set (rb_buffer (rb_hold p t b))"
    using assms by (auto simp: rb_ok_def rb_hold_def set_omap_keys_put)
  show "rb_buffer (rb_hold p t b) \<noteq> []"
    using set_omap_keys_put [of "rb_seq p" p "rb_buffer b"] by (auto simp: rb_hold_def)
qed

lemma rb_hold_fields [simp]:
  "rb_windowSize (rb_hold p t b) = rb_windowSize b" "rb_maxHoldMs (rb_hold p t b) = rb_maxHoldMs b"
  "rb_nextExpected (rb_hold p t b) = rb_nextExpected b" "rb_gapsEmitted (rb_hold p t b) = rb_gapsEmitted b"
  "rb_packetsDroppedLate (rb_hold p t b) = rb_packetsDroppedLate b"
  by (simp_all add: rb_hold_def)

lemma rb_step_insert:
  assumes "rb_ok b" and "insertAt p t b = (b', es)"
  shows "rb_step_ok b b' es"
proof -
  define c where "c = rb_baseline p b"
  have c: "rb_ok c" "0 \<le> rb_nextExpected c" "rb_nextExpected b \<le> rb_nextExpected c"
    using rb_baseline_ok [OF assms(1)] by (simp_all add: c_def)
  have fields: "rb_windowSize c = rb_windowSize b" "rb_maxHoldMs c = rb_maxHoldMs b" "rb_gapsEmitted c = rb_gapsEmitted b"
    by (simp_all add: c_def)
  have "rb_step_ok c b' es"
  proof (cases "rb_seq p" "rb_nextExpected c" rule: linorder_cases)
    case less
    then have "b' = c\<lparr>rb_packetsDroppedLate := rb_packetsDroppedLate c + 1\<rparr>" "es = []"
      using assms(2) by (auto simp: insertAt_cases Let_def simp flip: c_def)
    with c(1) show ?thesis by (simp add: rb_step_ok_def rb_ok_def rb_wf_def)
  next
    case equal
    let ?d = "c\<lparr>rb_nextExpected := rb_seq p + 1\<rparr>"
    have wf: "rb_wf ?d" using rb_wf_next [OF c(1,2)] by (simp add: equal)
    obtain es1 where es: "drainConsecutive ?d = (b', es1)" "es = Some p # es1"
      using assms(2) equal by (auto simp: insertAt_cases Let_def simp flip: c_def split: prod.splits)
    have "0 \<le> rb_nextExpected ?d" using c(2) equal by simp
    note d = drain_spec [OF wf this es(1), simplified]
    then have "rb_buffer b' = filter (\<lambda>e. rb_nextExpected b' \<le> fst e) (rb_buffer c)" by blast
    then have "length (rb_buffer b') < rb_windowSize c"
      using c(1) by (simp add: rb_ok_def le_less_trans [OF length_filter_le])
    with d c equal show ?thesis by (elim conjE) (auto simp: es(2) rb_step_ok_def rb_ok_def)
  next
    case greater
    note h = rb_wf_hold [OF c(1,2) greater, of t]
    show ?thesis
    proof (cases "length (rb_buffer (rb_hold p t c)) \<ge> rb_windowSize c")
      case True
      then have "forceFlush (rb_hold p t c) = (b', es)"
        using assms(2) greater by (simp add: insertAt_cases Let_def flip: c_def)
      from rb_step_flush [OF h(1,3) _ _ this] c(1) show ?thesis
        by (auto simp: rb_step_ok_def rb_ok_def)
    next
      case False
      then have "b' = rb_hold p t c" "es = []"
        using assms(2) greater by (auto simp: insertAt_cases Let_def simp flip: c_def)
      with False h c(1) show ?thesis by (simp add: rb_step_ok_def rb_ok_def)
    qed
  qed
  then show ?thesis using c(3) fields by (force simp: rb_step_ok_def)
qed

lemma rb_step_timeout:
  assumes "rb_ok b" and "checkTimeoutAt t b = (b', es)"
  shows "rb_step_ok b b' es"
proof -
  have same: "rb_step_ok b b []" using assms(1) by (simp add: rb_step_ok_def)
  have flush: "rb_step_ok b b' es" if "forceFlush b = (b', es)" "rb_buffer b \<noteq> []"
    using rb_step_flush [OF _ that(2) _ _ that(1)] assms(1) by (auto simp: rb_ok_def)
  show ?thesis
    using assms(2) same flush by (auto simp: checkTimeoutAt_def split: if_splits list.splits prod.splits)
qed

lemma rb_step: "rb_ok b \<Longrightarrow> rb_apply op b = (b', es) \<Longrightarrow> rb_step_ok b b' es"
  by (cases op) (auto intro: rb_step_insert rb_step_timeout)

lemma rb_ok_init: "mk_reorder_buffer w h = Inr b \<Longrightarrow> rb_ok b"
  by (auto simp: mk_reorder_buffer_def rb_ok_def rb_wf_def split: if_splits)

lemma rb_run_facts:
  assumes "rb_ok b" and "rb_run ops b = (b', es)"
  shows "rb_ok b' \<and> rb_windowSize b' = rb_windowSize b \<and> rb_maxHoldMs b' = rb_maxHoldMs b \<and> rb_nextExpected b \<le> rb_nextExpected b' \<and>
    sorted_wrt (<) (emit_seqs es) \<and>
    (\<forall>s \<in> set (emit_seqs es). rb_nextExpected b \<le> s \<and> s < rb_nextExpected b') \<and>
    emit_gaps es \<le> length ops * rb_windowSize b \<and> rb_gapsEmitted b' = rb_gapsEmitted b + int (emit_gaps es)"
  using assms
proof (induction ops arbitrary: b es)
  case (Cons op ops)
  obtain b1 es1 es2 where st: "rb_apply op b = (b1, es1)" "rb_run ops b1 = (b', es2)" "es = es1 @ es2"
    using Cons.prems(2) by (auto split: prod.splits)
  note s1 = rb_step [OF Cons.prems(1) st(1)]
  then have "rb_ok b1" by (simp add: rb_step_ok_def)
  from Cons.IH [OF this st(2)] s1 show ?case
    by (auto simp: rb_step_ok_def st(3) sorted_wrt_append) (meson less_le_trans order_trans)+
qed simp

section \<open>The flush against the span walk\<close>

lemma map_get_holes: "\<forall>k \<in> set ks. k \<notin> fst ` set m \<Longrightarrow> map (omap_get m) ks = replicate (length ks) None"
  by (induction ks) (simp_all add: map_of_eq_None_iff)

text \<open>
  When the budget covers the missing slots, the loop over the buffered packets emits what a walk
  over the whole span of sequence numbers would.
\<close>

lemma flush_loop_span:
  assumes "omap_ok m" and "m \<noteq> []" and "\<forall>e \<in> set m. cursor \<le> fst e"
    and "fst (last m) + 1 - cursor - int (length m) \<le> budget"
  shows "snd (flush_loop start cursor budget m b) = map (omap_get m) [cursor..fst (last m)]"
  using assms
proof (induction m arbitrary: cursor budget b)
  case (Cons e rest)
  obtain sq p where e: "e = (sq, p)" by (cases e)
  have rest: "omap_ok rest" "\<forall>e \<in> set rest. sq + 1 \<le> fst e"
    using Cons.prems(1) by (auto simp: omap_ok_Cons e)
  have cur: "cursor \<le> sq" using Cons.prems(3) by (simp add: e)
  have lastge: "int (length rest) \<le> fst (last (e # rest)) - sq"
  proof -
    have "\<forall>x \<in> set rest. fst x \<le> fst (last (e # rest))"
      using omap_keys_le_last [OF Cons.prems(1)] by (metis list.set_intros(2))
    then have "set (omap_keys rest) \<subseteq> {sq + 1..fst (last (e # rest))}"
      using rest(2) by (fastforce simp del: last.simps)
    then have "card (set (omap_keys rest)) \<le> card {sq + 1..fst (last (e # rest))}"
      by (intro card_mono) auto
    moreover have "card (set (omap_keys rest)) = length rest"
      using distinct_card [OF omap_ok_distinct [OF rest(1)]] by (simp only: length_map)
    moreover have "sq \<le> fst (last (e # rest))"
      using omap_keys_le_last [OF Cons.prems(1), of e] by (simp add: e)
    ultimately show ?thesis by simp
  qed
  then have holes: "\<not> sq - cursor > budget" using Cons.prems(4) by simp
  have up: "[cursor..fst (last (e # rest))] = [cursor..sq - 1] @ sq # [sq + 1..fst (last (e # rest))]"
    using cur lastge by (simp add: upto_split2 [of cursor sq] upto_split3)
  have h: "map (omap_get (e # rest)) [cursor..sq - 1] = replicate (nat (sq - cursor)) None"
    using map_get_holes [of "[cursor..sq - 1]" "e # rest"] rest(2) by (fastforce simp: e)
  have tail: "map (omap_get (e # rest)) [sq + 1..fst (last (e # rest))] = map (omap_get rest) [sq + 1..fst (last (e # rest))]"
    by (simp add: e)
  show ?case
  proof (cases "rest = []")
    case True
    with holes show ?thesis unfolding up map_append h by (simp add: e Let_def)
  next
    case False
    have "fst (last rest) + 1 - (sq + 1) - int (length rest) \<le> budget - (sq - cursor)"
      using Cons.prems(4) False by (simp add: e)
    from Cons.IH [OF rest(1) False rest(2) this] holes tail False show ?thesis
      unfolding up map_append h by (simp add: e Let_def case_prod_beta)
  qed
qed simp

section \<open>Restoring a reordered stream\<close>

definition rb_inserts :: "(audio_packet \<times> int) list \<Rightarrow> rb_op list" where
  "rb_inserts pts = map (\<lambda>(p, t). RbInsert p t) pts"

lemma rb_run_snoc:
  "rb_run (ops @ [op]) b = (let (b', es) = rb_run ops b; (b'', es') = rb_apply op b' in (b'', es @ es'))"
  by (induction ops arbitrary: b) (auto split: prod.splits)

lemma rb_run_baseline:
  "rb_nextExpected b < 0 \<Longrightarrow> rb_run (RbInsert p t # ops) b = rb_run (RbInsert p t # ops) (b\<lparr>rb_nextExpected := rb_seq p\<rparr>)"
  using rb_seq_nonneg [of p] by (simp add: insertAt_def del: rb_seq_nonneg)

text \<open>
  The state after some arrivals \<open>A\<close> of a stream that starts at \<open>s\<close>: everything before the next
  expected slot has arrived and been emitted, the rest of \<open>A\<close> is buffered.
\<close>

definition restoring :: "int \<Rightarrow> audio_packet list \<Rightarrow> reorder_buffer \<Rightarrow> emits \<Rightarrow> bool" where
  "restoring s A b es \<longleftrightarrow> rb_ok b \<and> s \<le> rb_nextExpected b \<and> 0 \<le> s \<and>
     {s..<rb_nextExpected b} \<subseteq> rb_seq ` set A \<and> rb_nextExpected b \<notin> rb_seq ` set A \<and>
     set (rb_buffer b) = {(rb_seq p, p) |p. p \<in> set A \<and> rb_nextExpected b \<le> rb_seq p} \<and>
     emit_seqs es = [s..rb_nextExpected b - 1] \<and> set es \<subseteq> Some ` set A \<and>
     rb_gapsEmitted b = 0 \<and> rb_packetsDroppedLate b = 0"

lemma restoring_equal:
  assumes "restoring s A b es" and "rb_seq p = rb_nextExpected b" and "insertAt p t b = (b', es')"
    and "rb_seq p \<notin> rb_seq ` set A"
  shows "restoring s (A @ [p]) b' (es @ es')"
proof -
  let ?n = "rb_nextExpected b"
  let ?d = "b\<lparr>rb_nextExpected := ?n + 1\<rparr>"
  have r: "rb_ok b" "0 \<le> ?n" "s \<le> ?n" using assms(1) by (auto simp: restoring_def)
  have wf: "rb_wf ?d" using rb_wf_next [OF r(1,2)] by simp
  obtain es1 where es: "drainConsecutive ?d = (b', es1)" "es' = Some p # es1"
    using assms(2,3) r(2) by (auto simp: insertAt_def Let_def split: prod.splits)
  have "rb_ok b'" using rb_step_insert [OF r(1) assms(3)] by (simp add: rb_step_ok_def)
  have "0 \<le> rb_nextExpected ?d" using r(2) by simp
  note d = drain_spec [OF wf this es(1), simplified]
  have n': "?n + 1 \<le> rb_nextExpected b'" and buf': "rb_buffer b' = filter (\<lambda>e. rb_nextExpected b' \<le> fst e) (rb_buffer b)"
    and seqs: "emit_seqs es1 = [?n + 1..rb_nextExpected b' - 1]" and notin: "rb_nextExpected b' \<notin> fst ` set (rb_buffer b')"
    and es1: "es1 = map (omap_get (rb_buffer b)) [?n + 1..rb_nextExpected b' - 1]" and ng: "emit_gaps es1 = 0"
    and cnt: "rb_gapsEmitted b' = rb_gapsEmitted b" "rb_packetsDroppedLate b' = rb_packetsDroppedLate b"
    using d by blast+
  have buf: "set (rb_buffer b) = {(rb_seq q, q) |q. q \<in> set A \<and> ?n \<le> rb_seq q}"
    using assms(1) by (simp add: restoring_def)
  have in_es1: "\<exists>q. x = Some q \<and> q \<in> set A \<and> ?n < rb_seq q" if x: "x \<in> set es1" for x
  proof -
    have "x \<noteq> None" using x ng by (auto simp: emit_gaps_def filter_empty_conv)
    then obtain q k where q: "x = Some q" "?n < k" "omap_get (rb_buffer b) k = Some q"
      using x unfolding es1 by (auto simp: image_iff add1_zle_eq simp del: map_of_eq_Some_iff)
    from map_of_SomeD [OF q(3)] buf q(1,2) show ?thesis by auto
  qed
  have "{?n + 1..<rb_nextExpected b'} = set (emit_seqs es1)" by (auto simp: seqs)
  also have "\<dots> \<subseteq> rb_seq ` set A"
    using in_es1 by (fastforce simp: emit_seqs_def List.map_filter_def)
  finally have hi: "{?n + 1..<rb_nextExpected b'} \<subseteq> rb_seq ` set A" .
  have lo: "{s..<?n} \<subseteq> rb_seq ` set A" using assms(1) by (simp add: restoring_def)
  have "{s..<rb_nextExpected b'} \<subseteq> {s..<?n} \<union> {?n} \<union> {?n + 1..<rb_nextExpected b'}" by auto
  also have "\<dots> \<subseteq> rb_seq ` set (A @ [p])" using hi lo assms(2) by (simp add: le_supI1 le_supI2 subset_insertI2)
  finally have cov: "{s..<rb_nextExpected b'} \<subseteq> rb_seq ` set (A @ [p])" .
  have nn: "rb_nextExpected b' \<notin> rb_seq ` set (A @ [p])"
  proof
    assume "rb_nextExpected b' \<in> rb_seq ` set (A @ [p])"
    then obtain q where q: "q \<in> set A" "rb_seq q = rb_nextExpected b'" using n' assms(2) by auto
    then have "(rb_seq q, q) \<in> set (rb_buffer b')" using n' by (simp add: buf' buf)
    with notin q(2) show False by force
  qed
  have "set (rb_buffer b') = {(rb_seq q, q) |q. q \<in> set (A @ [p]) \<and> rb_nextExpected b' \<le> rb_seq q}"
    using buf n' assms(2) by (auto simp: buf')
  moreover have "emit_seqs (es @ es') = [s..rb_nextExpected b' - 1]"
    using assms(1,2) n' r(3) by (simp add: restoring_def es(2) seqs upto_split2 [of s ?n] upto_rec1 flip: upto_split3)
  moreover have "set (es @ es') \<subseteq> Some ` set (A @ [p])"
    using assms(1) in_es1 by (auto simp: restoring_def es(2))
  ultimately show ?thesis
    using assms(1) \<open>rb_ok b'\<close> n' cov nn cnt by (simp add: restoring_def)
qed

lemma restoring_greater:
  assumes "restoring s A b es" and "rb_nextExpected b < rb_seq p" and "insertAt p t b = (b', es')"
    and "rb_seq p \<notin> rb_seq ` set A"
    and "card {q \<in> set (A @ [p]). rb_nextExpected b \<le> rb_seq q} < rb_windowSize b"
  shows "restoring s (A @ [p]) b' (es @ es')"
proof -
  have r: "rb_ok b" "0 \<le> rb_nextExpected b" using assms(1) by (auto simp: restoring_def)
  have base: "rb_baseline p b = b" using r(2) by (simp add: rb_baseline_def)
  let ?h = "rb_hold p t b"
  have ok: "omap_ok (rb_buffer b)" using r(1) by (simp add: rb_ok_def rb_wf_def)
  have buf: "set (rb_buffer b) = {(rb_seq q, q) |q. q \<in> set A \<and> rb_nextExpected b \<le> rb_seq q}"
    using assms(1) by (simp add: restoring_def)
  have hset: "set (rb_buffer ?h) = {(rb_seq q, q) |q. q \<in> set (A @ [p]) \<and> rb_nextExpected b \<le> rb_seq q}"
    using assms(2,4) buf by (auto simp: rb_hold_def omap_put_set [OF ok]) (metis imageI)
  have "distinct (rb_buffer ?h)"
    using rb_wf_hold(1) [OF r assms(2), of t] omap_ok_distinct [of "rb_buffer ?h"] by (simp add: rb_wf_def distinct_map)
  then have "length (rb_buffer ?h) = card (set (rb_buffer ?h))" by (simp add: distinct_card)
  also have "set (rb_buffer ?h) = (\<lambda>q. (rb_seq q, q)) ` {q \<in> set (A @ [p]). rb_nextExpected b \<le> rb_seq q}"
    unfolding hset by auto
  also have "card \<dots> = card {q \<in> set (A @ [p]). rb_nextExpected b \<le> rb_seq q}"
    by (intro card_image) (auto simp: inj_on_def)
  finally have len: "length (rb_buffer ?h) < rb_windowSize b" using assms(5) by simp
  then have b': "b' = ?h" "es' = []"
    using assms(2,3) by (auto simp: insertAt_cases base Let_def)
  have "rb_ok b'" using rb_step_insert [OF r(1) assms(3)] by (simp add: rb_step_ok_def)
  then show ?thesis
    using assms(1,2) hset by (auto simp: restoring_def b')
qed

text \<open>
  A stream of consecutive sequence numbers, delivered once each in some order that starts with the
  first and in which no packet arrives \<open>w\<close> or more positions late.
\<close>

definition displaced_stream :: "nat \<Rightarrow> audio_packet list \<Rightarrow> bool" where
  "displaced_stream w ps \<longleftrightarrow> ps \<noteq> [] \<and> distinct (map rb_seq ps) \<and>
     set (map rb_seq ps) = set [rb_seq (hd ps)..rb_seq (hd ps) + int (length ps) - 1] \<and>
     (\<forall>j < length ps. int j < rb_seq (ps ! j) - rb_seq (hd ps) + int w)"

lemma displaced_card:
  assumes "displaced_stream w ps" and "i < length ps" and "s = rb_seq (hd ps)"
    and "{s..<n} \<subseteq> rb_seq ` set (take i ps)" and "n \<notin> rb_seq ` set (take i ps)"
    and "s \<le> n" and "n < rb_seq (ps ! i)"
  shows "card {q \<in> set (take i ps @ [ps ! i]). n \<le> rb_seq q} < w"
proof -
  let ?B = "set (take i ps @ [ps ! i])"
  have B: "?B = set (take (Suc i) ps)" using assms(2) by (simp add: take_Suc_conv_app_nth)
  have dist: "distinct ps" using assms(1) by (simp add: displaced_stream_def distinct_map)
  have all: "rb_seq ` set ps = {s..s + int (length ps) - 1}"
    using assms(1,3) by (simp add: displaced_stream_def)
  have "rb_seq (ps ! i) \<in> rb_seq ` set ps" using assms(2) by simp
  then have "n \<in> rb_seq ` set ps" using assms(6,7) by (simp add: all)
  then obtain j where j: "j < length ps" "rb_seq (ps ! j) = n"
    by (metis imageE in_set_conv_nth)
  have "i < j"
  proof (rule ccontr)
    assume "\<not> i < j"
    then consider "j = i" | "j < i" by linarith
    then show False
    proof cases
      case 2
      then have "ps ! j \<in> set (take i ps)" using assms(2) by (metis in_set_conv_nth length_take min.absorb2 less_imp_le nth_take)
      with assms(5) j(2) show False by blast
    qed (use j(2) assms(7) in simp)
  qed
  have late: "int j < n - s + int w" using assms(1,3) j by (auto simp: displaced_stream_def)
  have "card ?B = Suc i"
    unfolding B using dist assms(2) by (simp add: distinct_card)
  moreover have "card ?B = card {q \<in> ?B. n \<le> rb_seq q} + card {q \<in> ?B. rb_seq q < n}"
    by (subst card_Un_disjoint [symmetric]) (auto intro!: arg_cong [where f = card])
  moreover have "{s..<n} \<subseteq> rb_seq ` {q \<in> ?B. rb_seq q < n}" using assms(4) by fastforce
  then have "card {s..<n} \<le> card {q \<in> ?B. rb_seq q < n}" by (intro surj_card_le) auto
  ultimately show ?thesis using late \<open>i < j\<close> assms(6) by simp
qed

lemma restoring_run:
  assumes "displaced_stream w ps" and "length ts = length ps" and "i \<le> length ps"
    and "restoring (rb_seq (hd ps)) [] b []" and "rb_windowSize b = w"
  shows "restoring (rb_seq (hd ps)) (take i ps) (fst (rb_run (rb_inserts (take i (zip ps ts))) b))
    (snd (rb_run (rb_inserts (take i (zip ps ts))) b))"
  using assms(3)
proof (induction i)
  case 0
  then show ?case using assms(4) by (simp add: rb_inserts_def)
next
  case (Suc i)
  let ?s = "rb_seq (hd ps)" and ?p = "ps ! i"
  obtain bi es where run: "rb_run (rb_inserts (take i (zip ps ts))) b = (bi, es)" by fastforce
  obtain b' es' where ins: "insertAt ?p (ts ! i) bi = (b', es')" by fastforce
  have snoc: "rb_inserts (take (Suc i) (zip ps ts)) = rb_inserts (take i (zip ps ts)) @ [RbInsert ?p (ts ! i)]"
    using Suc.prems assms(2) by (simp add: rb_inserts_def take_Suc_conv_app_nth)
  have R: "restoring ?s (take i ps) bi es" using Suc run by simp
  have w: "rb_windowSize bi = w"
    using rb_run_facts [OF _ run] assms(4,5) by (simp add: restoring_def)
  have "rb_seq ?p \<notin> rb_seq ` set (take i ps)"
  proof
    assume "rb_seq ?p \<in> rb_seq ` set (take i ps)"
    then obtain k where k: "k < i" "rb_seq (ps ! k) = rb_seq ?p" using Suc.prems by (auto simp: in_set_conv_nth)
    then have "map rb_seq ps ! k = map rb_seq ps ! i" using Suc.prems by simp
    then show False
      using k(1) Suc.prems assms(1) by (auto simp: displaced_stream_def nth_eq_iff_index_eq simp del: nth_map)
  qed
  note fresh = this
  have "rb_seq ?p \<in> rb_seq ` set ps" using Suc.prems by simp
  then have "?s \<le> rb_seq ?p" using assms(1) by (simp add: displaced_stream_def)
  then have ge: "rb_nextExpected bi \<le> rb_seq ?p"
    using R fresh by (auto simp: restoring_def not_less [symmetric])
  have "restoring ?s (take i ps @ [?p]) b' (es @ es')"
  proof (cases "rb_seq ?p = rb_nextExpected bi")
    case True
    from restoring_equal [OF R True ins fresh] show ?thesis .
  next
    case False
    with ge have gt: "rb_nextExpected bi < rb_seq ?p" by simp
    have "card {q \<in> set (take i ps @ [?p]). rb_nextExpected bi \<le> rb_seq q} < rb_windowSize bi"
      using displaced_card [OF assms(1) _ refl _ _ _ gt] R Suc.prems by (simp add: w restoring_def)
    from restoring_greater [OF R gt ins fresh this] show ?thesis .
  qed
  then show ?case
    using Suc.prems by (simp add: snoc rb_run_snoc run ins take_Suc_conv_app_nth)
qed

lemma restored_order:
  assumes "emit_seqs es = map rb_seq (sort_key rb_seq ps)" and "set es \<subseteq> Some ` set ps" and "inj_on rb_seq (set ps)"
  shows "es = map Some (sort_key rb_seq ps)"
proof -
  define qs where "qs = map the es"
  have "map (Some \<circ> the) es = es" using assms(2) by (intro map_idI) auto
  then have qs: "es = map Some qs" "set qs \<subseteq> set ps" using assms(2) by (auto simp: qs_def)
  have "emit_seqs (map Some qs) = map rb_seq qs" by (induction qs) auto
  then have "map rb_seq qs = map rb_seq (sort_key rb_seq ps)" using assms(1) qs(1) by simp
  moreover have "inj_on rb_seq (set qs \<union> set (sort_key rb_seq ps))"
    using assms(3) qs(2) by (auto intro: inj_on_subset)
  ultimately have "qs = sort_key rb_seq ps" by (rule map_inj_on)
  then show ?thesis using qs(1) by simp
qed

section \<open>Properties\<close>

text \<open>
  C36: Whatever arrives and whenever the timeout is checked, the sequences handed to the emitter
  are strictly ascending over the whole run, so no slot is played twice or out of order; every one
  of them is below the next expected slot, and the window never holds a full load between calls.
\<close>

theorem reorder_emits_in_order:
  assumes "mk_reorder_buffer w h = Inr b"
  shows "sorted_wrt (<) (emit_seqs (snd (rb_run ops b))) \<and>
    (\<forall>s \<in> set (emit_seqs (snd (rb_run ops b))). s < rb_nextExpected (fst (rb_run ops b))) \<and>
    rb_bufferedCount (fst (rb_run ops b)) < w"
proof -
  have "rb_windowSize b = w" using assms by (auto simp: mk_reorder_buffer_def split: if_splits)
  with rb_run_facts [OF rb_ok_init [OF assms] prod.collapse [symmetric], of ops] show ?thesis
    by (auto simp: rb_ok_def rb_bufferedCount_def)
qed

definition demo_rb :: reorder_buffer where
  "demo_rb = \<lparr>rb_windowSize = 4, rb_maxHoldMs = 50, rb_buffer = [], rb_arrivalTimes = [],
    rb_nextExpected = -1, rb_packetsReordered = 0, rb_packetsDroppedLate = 0, rb_gapsEmitted = 0\<rparr>"

lemma demo_rb_mk: "mk_reorder_buffer 4 50 = Inr demo_rb"
  by (simp add: mk_reorder_buffer_def demo_rb_def)

theorem reorder_emits_in_order_witness:
  "sorted_wrt (<) (emit_seqs (snd (rb_run [RbInsert (createRxAudio 0 5 []) 0, RbInsert (createRxAudio 0 7 []) 1,
     RbTimeout 60, RbInsert (createRxAudio 0 6 []) 61] demo_rb)))"
  using reorder_emits_in_order [OF demo_rb_mk] by blast

text \<open>
  One call, on any reachable state, emits at most windowSize slots of silence however large
  the jump in sequence numbers is, and the gap counter counts exactly the silence emitted.
\<close>

theorem reorder_silence_capped:
  assumes "mk_reorder_buffer w h = Inr b" and "rb_run ops b = (b1, es1)" and "rb_apply op b1 = (b2, es2)"
  shows "emit_gaps es2 \<le> w \<and> rb_gapsEmitted b2 = int (emit_gaps es1) + int (emit_gaps es2)"
proof -
  have b: "rb_windowSize b = w" "rb_gapsEmitted b = 0"
    using assms(1) by (auto simp: mk_reorder_buffer_def split: if_splits)
  note run = rb_run_facts [OF rb_ok_init [OF assms(1)] assms(2)]
  then have "rb_ok b1" by blast
  from rb_step [OF this assms(3)] run b show ?thesis by (simp add: rb_step_ok_def)
qed

theorem reorder_silence_capped_witness:
  "emit_gaps (snd (rb_apply (RbTimeout 90) (fst (rb_run [RbInsert (createRxAudio 0 5 []) 0,
     RbInsert (createRxAudio 0 0xFFFFFFF0 []) 1] demo_rb)))) \<le> 4"
  using reorder_silence_capped [OF demo_rb_mk prod.collapse [symmetric] prod.collapse [symmetric]] by blast

text \<open>
  When the missing slots between the next expected and the highest buffered sequence fit the
  cap, a flush emits exactly what a walk over every slot of that span would: the buffered packet
  of a slot, or silence for a slot that is missing.
\<close>

theorem reorder_flush_is_span_walk:
  assumes "rb_wf b" and "rb_buffer b \<noteq> []"
    and "fst (last (rb_buffer b)) + 1 - rb_nextExpected b - int (length (rb_buffer b)) \<le> int (rb_windowSize b)"
  shows "snd (forceFlush b) = map (omap_get (rb_buffer b)) [rb_nextExpected b..fst (last (rb_buffer b))]"
proof -
  have "snd (forceFlush b) =
    snd (flush_loop (rb_nextExpected b) (rb_nextExpected b) (int (rb_windowSize b)) (rb_buffer b) b)"
    using assms(2) by (simp add: forceFlush_def Let_def case_prod_beta)
  with flush_loop_span [OF _ assms(2) _ assms(3)] assms(1) show ?thesis by (simp add: rb_wf_def)
qed

theorem reorder_flush_is_span_walk_witness:
  "snd (forceFlush (demo_rb\<lparr>rb_nextExpected := 5, rb_buffer := [(7, createRxAudio 0 7 [])],
     rb_arrivalTimes := [(7, 0)]\<rparr>)) = [None, None, Some (createRxAudio 0 7 [])]"
proof -
  let ?b = "demo_rb\<lparr>rb_nextExpected := 5, rb_buffer := [(7, createRxAudio 0 7 [])], rb_arrivalTimes := [(7, 0)]\<rparr>"
  have "rb_wf ?b" by (simp add: rb_wf_def omap_ok_def rb_seq_def createRxAudio_def mk_packet_def)
  from reorder_flush_is_span_walk [OF this] show ?thesis by (simp add: demo_rb_def upto_rec1)
qed

text \<open>
  After a timeout check on any reachable state, no packet is held that had already waited
  maxHoldMs, whatever the order the packets came in.
\<close>

theorem reorder_hold_bound:
  assumes "mk_reorder_buffer w h = Inr b" and "rb_run ops b = (b1, es1)" and "checkTimeoutAt now b1 = (b2, es2)"
    and "rb_buffer b2 \<noteq> []"
  shows "\<forall>e \<in> set (rb_arrivalTimes b2). now - snd e < rb_maxHoldMs b2"
proof -
  have ok: "rb_ok b1" using rb_run_facts [OF rb_ok_init [OF assms(1)] assms(2)] by blast
  have no_flush: False if "forceFlush b1 = (b2, es2)"
    using forceFlush_spec [OF _ _ that] ok that assms(4) by (cases "rb_buffer b1 = []") (auto simp: rb_ok_def forceFlush_def)
  have nonempty: "rb_arrivalTimes b1 \<noteq> []" if "rb_buffer b1 \<noteq> []"
    using ok that by (auto simp: rb_ok_def rb_wf_def)
  show ?thesis
  proof (cases "rb_arrivalTimes b1")
    case Nil
    with assms(3,4) nonempty show ?thesis by (auto simp: checkTimeoutAt_def split: if_splits)
  next
    case (Cons e rest)
    obtain k a where e: "e = (k, a)" by (cases e)
    have "b2 = b1 \<and> now - oldest_arrival a (rb_arrivalTimes b1) < rb_maxHoldMs b1"
      using assms(3,4) no_flush Cons by (auto simp: checkTimeoutAt_def e simp del: oldest_arrival.simps split: if_splits)
    with oldest_arrival_le [of a "rb_arrivalTimes b1"] show ?thesis by fastforce
  qed
qed

theorem reorder_hold_bound_witness:
  "list_all (\<lambda>e. 40 - snd e < 50) (rb_arrivalTimes (fst (checkTimeoutAt 40 (fst (rb_run
     [RbInsert (createRxAudio 0 5 []) 0, RbInsert (createRxAudio 0 9 []) 1, RbInsert (createRxAudio 0 8 []) 30]
     demo_rb)))))"
proof -
  let ?ops = "[RbInsert (createRxAudio 0 5 []) 0, RbInsert (createRxAudio 0 9 []) 1, RbInsert (createRxAudio 0 8 []) 30]"
  have "rb_buffer (fst (checkTimeoutAt 40 (fst (rb_run ?ops demo_rb)))) \<noteq> []"
    and "rb_maxHoldMs (fst (checkTimeoutAt 40 (fst (rb_run ?ops demo_rb)))) = 50"
    by (simp_all add: demo_rb_def insertAt_def checkTimeoutAt_def rb_seq_def createRxAudio_def mk_packet_def
      drainConsecutive.simps)
  with reorder_hold_bound [OF demo_rb_mk prod.collapse [symmetric] prod.collapse [symmetric], of 40 ?ops]
  show ?thesis by (simp add: list_all_set)
qed

section \<open>Timeout checks that find nothing to flush\<close>

text \<open>
  The arrivals of a run, and when its timeout checks come in time: whenever one runs, each packet that has arrived came less than
  \<open>h\<close> milliseconds ago or waits for nothing, since every sequence number from \<open>s\<close> up to its own has arrived.
\<close>

fun arrivals_of :: "rb_op list \<Rightarrow> (audio_packet \<times> int) list" where
  "arrivals_of [] = []"
| "arrivals_of (RbInsert p t # ops) = (p, t) # arrivals_of ops"
| "arrivals_of (RbTimeout now # ops) = arrivals_of ops"

definition held_in_time :: "int \<Rightarrow> int \<Rightarrow> int \<Rightarrow> (audio_packet \<times> int) list \<Rightarrow> bool" where
  "held_in_time s h now A \<longleftrightarrow>
     list_all (\<lambda>(p, t). now - t < h \<or> list_all (\<lambda>n. n \<in> set (map (rb_seq \<circ> fst) A)) [s..rb_seq p - 1]) A"

fun prompt :: "int \<Rightarrow> int \<Rightarrow> (audio_packet \<times> int) list \<Rightarrow> rb_op list \<Rightarrow> bool" where
  "prompt s h A [] \<longleftrightarrow> True"
| "prompt s h A (RbInsert p t # ops) \<longleftrightarrow> prompt s h (A @ [(p, t)]) ops"
| "prompt s h A (RbTimeout now # ops) \<longleftrightarrow> held_in_time s h now A \<and> prompt s h A ops"

lemma arrivals_of_append: "arrivals_of (ops @ ops') = arrivals_of ops @ arrivals_of ops'"
  by (induction ops rule: arrivals_of.induct) simp_all

lemma prompt_append: "prompt s h A (ops @ ops') \<longleftrightarrow> prompt s h A ops \<and> prompt s h (A @ arrivals_of ops) ops'"
  by (induction s h A ops rule: prompt.induct) auto

text \<open>The arrival times the buffer keeps are those of the arrivals.\<close>

definition timed :: "(audio_packet \<times> int) list \<Rightarrow> reorder_buffer \<Rightarrow> bool" where
  "timed A b \<longleftrightarrow> (\<forall>(k, t) \<in> set (rb_arrivalTimes b). \<exists>p. (p, t) \<in> set A \<and> rb_seq p = k)"

lemma timed_mono: "timed A b \<Longrightarrow> set A \<subseteq> set A' \<Longrightarrow> set (rb_arrivalTimes b') \<subseteq> set (rb_arrivalTimes b) \<Longrightarrow> timed A' b'"
  unfolding timed_def by blast

lemma drain_arrivals: "drainConsecutive b = (b', es) \<Longrightarrow> set (rb_arrivalTimes b') \<subseteq> set (rb_arrivalTimes b)"
proof (induction b arbitrary: b' es rule: drainConsecutive.induct)
  case (1 b)
  show ?case
  proof (cases "rb_buffer b = [] \<or> omap_get (rb_buffer b) (rb_nextExpected b) = None")
    case True
    then have "b' = b" using "1.prems" by (auto simp: drainConsecutive.simps [of b] split: if_splits option.splits)
    then show ?thesis by simp
  next
    case False
    then obtain p where p: "omap_get (rb_buffer b) (rb_nextExpected b) = Some p" "rb_buffer b \<noteq> []" by auto
    let ?b = "b\<lparr>rb_buffer := omap_del (rb_nextExpected b) (rb_buffer b), rb_arrivalTimes := omap_del (rb_nextExpected b) (rb_arrivalTimes b),
      rb_packetsReordered := rb_packetsReordered b + 1, rb_nextExpected := rb_nextExpected b + 1\<rparr>"
    obtain b1 es1 where d: "drainConsecutive ?b = (b1, es1)" by fastforce
    have "b' = b1" using "1.prems" p d by (simp add: drainConsecutive.simps [of b])
    with "1.IH" [OF p(2,1) d] show ?thesis by (auto simp: omap_del_def)
  qed
qed

lemma insert_timed:
  assumes "timed A b" "insertAt p t b = (b', es)"
  shows "timed (A @ [(p, t)]) b'"
proof -
  let ?b = "if rb_nextExpected b < 0 then b\<lparr>rb_nextExpected := rb_seq p\<rparr> else b"
  let ?h = "?b\<lparr>rb_buffer := omap_put (rb_seq p) p (rb_buffer ?b), rb_arrivalTimes := omap_put (rb_seq p) t (rb_arrivalTimes ?b)\<rparr>"
  have "set (omap_put k v m) \<subseteq> insert (k, v) (set m)" for k v and m :: "(int, int) omap"
    by (induction m) (auto split: if_splits)
  then have put: "timed (A @ [(p, t)]) ?h" using assms(1) by (fastforce simp: timed_def)
  have flush: "rb_arrivalTimes (fst (forceFlush ?h)) \<in> {[], rb_arrivalTimes ?h}" by (simp add: forceFlush_def Let_def case_prod_beta)
  have start: "timed (A @ [(p, t)]) ?b" using assms(1) by (auto simp: timed_def)
  consider (late) "rb_seq p < rb_nextExpected ?b" | (exp) "rb_seq p = rb_nextExpected ?b" | (hold) "rb_nextExpected ?b < rb_seq p" by linarith
  then show ?thesis
  proof cases
    case late
    then show ?thesis using assms(2) start by (auto simp: insertAt_def Let_def timed_def split: if_splits)
  next
    case exp
    obtain b1 es1 where d: "drainConsecutive (?b\<lparr>rb_nextExpected := rb_seq p + 1\<rparr>) = (b1, es1)" by fastforce
    have "b' = b1" using assms(2) exp d by (simp add: insertAt_def Let_def)
    then show ?thesis using drain_arrivals [OF d] by (intro timed_mono [OF start]) (simp_all split: if_splits)
  next
    case hold
    then have "b' = ?h \<or> b' = fst (forceFlush ?h)" using assms(2) by (auto simp: insertAt_def Let_def split: if_splits)
    then show ?thesis using put flush by (auto simp: timed_def)
  qed
qed

lemma run_timed: "timed A b \<Longrightarrow> timed (A @ pts) (fst (rb_run (rb_inserts pts) b))"
proof (induction pts arbitrary: A b)
  case (Cons pt pts)
  obtain p t where pt: "pt = (p, t)" by fastforce
  obtain b1 es where i: "insertAt p t b = (b1, es)" by fastforce
  from Cons.IH [OF insert_timed [OF Cons.prems i]] i show ?case by (simp add: pt rb_inserts_def case_prod_beta)
qed (simp add: rb_inserts_def)

lemma oldest_arrival_among: "oldest_arrival a xs \<in> insert a (snd ` set xs)"
  by (induction a xs rule: oldest_arrival.induct) (auto split: if_splits)

lemma check_in_time:
  assumes "restoring s (map fst A) b es" "timed A b" "held_in_time s h now A" "rb_maxHoldMs b = h"
  shows "checkTimeoutAt now b = (b, [])"
proof (cases "rb_buffer b = [] \<or> rb_arrivalTimes b = []")
  case False
  then obtain k a rest where t: "rb_arrivalTimes b = (k, a) # rest" by (cases "rb_arrivalTimes b") auto
  have "now - t < h" if e: "(k, t) \<in> set (rb_arrivalTimes b)" for k t
  proof -
    from e assms(2) obtain p where p: "(p, t) \<in> set A" "rb_seq p = k" by (auto simp: timed_def)
    have "k \<in> fst ` set (rb_arrivalTimes b)" using e by force
    then have "k \<in> fst ` set (rb_buffer b)" using assms(1) by (metis restoring_def rb_ok_def rb_wf_def set_map)
    then have le: "rb_nextExpected b \<le> k" "s \<le> rb_nextExpected b" "rb_nextExpected b \<notin> set (map (rb_seq \<circ> fst) A)"
      using assms(1) by (auto simp: restoring_def image_image)
    moreover have "k \<in> set (map (rb_seq \<circ> fst) A)" using p by force
    ultimately have "rb_nextExpected b < k" by (metis order_less_le)
    then have "rb_nextExpected b \<in> set [s..rb_seq p - 1]" "rb_nextExpected b \<notin> set (map (rb_seq \<circ> fst) A)"
      using p(2) le(2,3) by simp_all
    then show ?thesis using assms(3) p(1) unfolding held_in_time_def list_all_iff by fastforce
  qed
  moreover have "oldest_arrival a (rb_arrivalTimes b) \<in> snd ` set (rb_arrivalTimes b)"
    using oldest_arrival_among [of a "rb_arrivalTimes b"] by (auto simp: t simp del: oldest_arrival.simps)
  ultimately have "now - oldest_arrival a (rb_arrivalTimes b) < h" by auto
  then show ?thesis using False assms(4) t by (simp add: checkTimeoutAt_def del: oldest_arrival.simps)
qed (auto simp: checkTimeoutAt_def)

lemma inserts_restore:
  assumes "mk_reorder_buffer w h = Inr b" and "displaced_stream w ps" and "length ts = length ps"
  shows "snd (rb_run (rb_inserts (zip ps ts)) b) = map Some (sort_key rb_seq ps) \<and>
    rb_bufferedCount (fst (rb_run (rb_inserts (zip ps ts)) b)) = 0 \<and>
    rb_packetsDroppedLate (fst (rb_run (rb_inserts (zip ps ts)) b)) = 0"
proof -
  let ?s = "rb_seq (hd ps)"
  let ?b = "b\<lparr>rb_nextExpected := ?s\<rparr>"
  have b: "b = \<lparr>rb_windowSize = w, rb_maxHoldMs = h, rb_buffer = [], rb_arrivalTimes = [],
        rb_nextExpected = -1, rb_packetsReordered = 0, rb_packetsDroppedLate = 0, rb_gapsEmitted = 0\<rparr>"
    and w: "0 < w" "0 \<le> h"
    using assms(1) by (auto simp: mk_reorder_buffer_def split: if_splits)
  obtain p ps' t ts' where ps: "ps = p # ps'" "ts = t # ts'"
    using assms(2,3) by (cases ps; cases ts) (auto simp: displaced_stream_def)
  have run: "rb_run (rb_inserts (zip ps ts)) b = rb_run (rb_inserts (zip ps ts)) ?b"
    using rb_run_baseline [of b p t] by (simp add: ps rb_inserts_def b del: rb_run.simps)
  have start: "restoring ?s [] ?b []"
    using w by (simp add: restoring_def b rb_ok_def rb_wf_def)
  obtain b' es where r: "rb_run (rb_inserts (zip ps ts)) ?b = (b', es)" by fastforce
  have "rb_windowSize ?b = w" by (simp add: b)
  from restoring_run [OF assms(2,3) order_refl start this] have R: "restoring ?s ps b' es"
    using assms(3) r by simp
  have dist: "distinct (map rb_seq ps)" and all: "rb_seq ` set ps = {?s..?s + int (length ps) - 1}"
    using assms(2) by (simp_all add: displaced_stream_def)
  have n: "rb_nextExpected b' = ?s + int (length ps)"
  proof -
    have sub: "{?s..<rb_nextExpected b'} \<subseteq> {?s..?s + int (length ps) - 1}"
      and ge: "?s \<le> rb_nextExpected b'" "rb_nextExpected b' \<notin> {?s..?s + int (length ps) - 1}"
      using R unfolding restoring_def all by simp_all
    have "?s + int (length ps) \<notin> {?s..<rb_nextExpected b'}" using sub by (meson add_le_same_cancel1 atLeastAtMost_iff
        diff_add_cancel less_le_not_le zle_diff1_eq subsetD order_refl)
    then show ?thesis using ge by auto
  qed
  have "map rb_seq (sort_key rb_seq ps) = [?s..?s + int (length ps) - 1]"
    using dist all by (intro sorted_distinct_set_unique) (simp_all add: distinct_map strict_sorted_imp_sorted)
  then have "es = map Some (sort_key rb_seq ps)"
    using R dist n by (intro restored_order) (simp_all add: restoring_def distinct_map)
  moreover have "rb_buffer b' = []"
  proof -
    have "\<not> rb_nextExpected b' \<le> rb_seq q" if "q \<in> set ps" for q
      using imageI [OF that, of rb_seq] by (simp add: all n)
    then have "set (rb_buffer b') = {}" using R by (auto simp: restoring_def)
    then show ?thesis by simp
  qed
  ultimately show ?thesis
    using R by (simp add: run r rb_bufferedCount_def restoring_def)
qed

lemma in_time_run:
  assumes "mk_reorder_buffer w h = Inr b" and "displaced_stream w ps" and "length ts = length ps"
    and "arrivals_of ops = take i (zip ps ts)" "i \<le> length ps" and "prompt (rb_seq (hd ps)) h [] ops"
  shows "rb_run ops b = rb_run (rb_inserts (arrivals_of ops)) b"
  using assms(4-6)
proof (induction ops arbitrary: i rule: rev_induct)
  case (snoc op ops)
  let ?s = "rb_seq (hd ps)" and ?A = "arrivals_of ops"
  show ?case
  proof (cases op)
    case (RbInsert p t)
    have "?A @ [(p, t)] = take i (zip ps ts)" using snoc.prems(1) by (simp add: arrivals_of_append RbInsert)
    from arg_cong [OF this, of butlast] have a: "?A = take (i - 1) (zip ps ts)" "i - 1 \<le> length ps"
      using snoc.prems(2) assms(3) by (simp_all add: butlast_take)
    from snoc.IH [OF a] snoc.prems(3) show ?thesis
      by (simp add: arrivals_of_append prompt_append RbInsert rb_run_snoc rb_inserts_def)
  next
    case (RbTimeout now)
    have a: "?A = take i (zip ps ts)" using snoc.prems(1) by (simp add: arrivals_of_append RbTimeout)
    have ih: "rb_run ops b = rb_run (rb_inserts ?A) b" using snoc.IH [OF a snoc.prems(2)] snoc.prems(3) by (simp add: prompt_append)
    have b: "b = \<lparr>rb_windowSize = w, rb_maxHoldMs = h, rb_buffer = [], rb_arrivalTimes = [],
        rb_nextExpected = -1, rb_packetsReordered = 0, rb_packetsDroppedLate = 0, rb_gapsEmitted = 0\<rparr>" and w: "0 < w" "0 \<le> h"
      using assms(1) by (auto simp: mk_reorder_buffer_def split: if_splits)
    obtain b1 es where r: "rb_run (rb_inserts ?A) b = (b1, es)" by fastforce
    have "checkTimeoutAt now b1 = (b1, [])"
    proof (cases "?A = []")
      case True
      then show ?thesis using r by (auto simp: rb_inserts_def b checkTimeoutAt_def)
    next
      case False
      then obtain p t where A: "?A = (p, t) # tl ?A" "p = hd ps" using a assms(2,3) by (cases ps; cases ts; cases i) (auto simp: displaced_stream_def)
      let ?b = "b\<lparr>rb_nextExpected := ?s\<rparr>"
      have "rb_run (rb_inserts ((p, t) # tl ?A)) b = rb_run (rb_inserts ((p, t) # tl ?A)) ?b"
        using rb_run_baseline [of b p t] by (simp add: rb_inserts_def b A(2) del: rb_run.simps)
      then have r': "rb_run (rb_inserts ?A) ?b = (b1, es)" using r A(1) by simp
      have start: "restoring ?s [] ?b []" using w by (simp add: restoring_def b rb_ok_def rb_wf_def)
      have "rb_windowSize ?b = w" by (simp add: b)
      from restoring_run [OF assms(2,3) snoc.prems(2) start this] have "restoring ?s (map fst ?A) b1 es"
        using r' assms(3) by (simp add: a take_zip [symmetric] take_map [symmetric])
      moreover have "timed ?A b1" using run_timed [of "[]" b ?A] r by (simp add: timed_def b)
      moreover have "held_in_time ?s h now ?A" using snoc.prems(3) by (simp add: prompt_append RbTimeout)
      moreover have "rb_maxHoldMs b1 = h" using rb_run_facts [OF rb_ok_init [OF assms(1)] r] by (simp add: b)
      ultimately show ?thesis by (rule check_in_time)
    qed
    then show ?thesis using ih r by (simp add: RbTimeout rb_run_snoc arrivals_of_append)
  qed
qed (simp add: rb_inserts_def)

text \<open>
  C4: a stream that is reordered within the window is restored. The packets of a gapless range of sequence numbers arrive once each, the one with the lowest number first, and
  none arrives windowSize or more positions late; between the arrivals the hold timeout may be checked at any time, as long as no check finds a packet that has waited
  maxHoldMs for a missing predecessor. Then the stream comes out complete and in sequence order: nothing is dropped, no silence is
  inserted and nothing stays behind.
\<close>

theorem reorder_restores_stream:
  assumes "mk_reorder_buffer w h = Inr b" and "displaced_stream w ps" and "length ts = length ps"
    and "arrivals_of ops = zip ps ts" and "prompt (rb_seq (hd ps)) h [] ops"
  shows "snd (rb_run ops b) = map Some (sort_key rb_seq ps) \<and>
    rb_bufferedCount (fst (rb_run ops b)) = 0 \<and> rb_packetsDroppedLate (fst (rb_run ops b)) = 0"
proof -
  have "arrivals_of ops = take (length ps) (zip ps ts)" using assms(3,4) by simp
  from in_time_run [OF assms(1-3) this order_refl assms(5)] have "rb_run ops b = rb_run (rb_inserts (zip ps ts)) b" by (simp add: assms(4))
  with inserts_restore [OF assms(1-3)] show ?thesis by simp
qed

text \<open>A run with a check that finds two packets waiting for the sixth.\<close>

theorem reorder_restores_stream_witness:
  "snd (rb_run [RbInsert (createRxAudio 0 5 []) 0, RbInsert (createRxAudio 0 8 []) 1, RbInsert (createRxAudio 0 7 []) 2, RbTimeout 40,
     RbInsert (createRxAudio 0 6 []) 45, RbTimeout 90] demo_rb) = map (\<lambda>n. Some (createRxAudio 0 n [])) [5, 6, 7, 8]"
proof -
  let ?ps = "map (\<lambda>n. createRxAudio 0 n []) [5, 8, 7, 6]"
  let ?ops = "[RbInsert (createRxAudio 0 5 []) 0, RbInsert (createRxAudio 0 8 []) 1, RbInsert (createRxAudio 0 7 []) 2, RbTimeout 40,
     RbInsert (createRxAudio 0 6 []) 45, RbTimeout 90]"
  have sq: "rb_seq (createRxAudio 0 n []) = uint n" for n
    by (simp add: rb_seq_def createRxAudio_def mk_packet_def)
  have "int j < rb_seq (?ps ! j) - 5 + 4" if "j < 4" for j
  proof -
    from that consider "j = 0" | "j = 1" | "j = 2" | "j = 3" by linarith
    then show ?thesis by cases (simp_all add: sq)
  qed
  moreover have "{5, 6, 7, 8} = {5..8 :: int}" by auto
  moreover have "{5, 8, 7, 6} = {5, 6, 7, 8 :: int}" by auto
  ultimately have d: "displaced_stream 4 ?ps"
    by (simp add: displaced_stream_def sq)
  have "prompt (rb_seq (hd ?ps)) 50 [] ?ops" by (simp add: held_in_time_def sq upto_rec1)
  from reorder_restores_stream [OF demo_rb_mk d, of "[0, 1, 2, 45]" ?ops, OF _ _ this] show ?thesis
    by (simp add: sq del: rb_run.simps)
qed

end
