(* ===== verification/Jitter_Estimator.thy ===== *)
theory Jitter_Estimator
  imports Prelude Complex_Main
begin

text \<open>
  The adaptive buffer target: \<open>src/JitterEstimator.cpp\<close>. A \<open>double\<close> operation on finite values is the
  exact rational result followed by the rounding \<open>rnd\<close>, an argument of the model: nothing below
  depends on which rounding it is. Infinities and NaN are not values of the model (the multiplier is
  finite and the samples come from 64-bit integers, so they do not arise). Signed 64-bit overflow,
  which is undefined behaviour, is the result \<open>None\<close>. The lemmas show the target always inside its
  configured range, the immediate ramp up, the one-step ramp down no more often than every hundred
  packets, and that a peer's time stamps can reach the overflow.
\<close>

definition i64_ok :: "int \<Rightarrow> bool" where
  "i64_ok x \<longleftrightarrow> - (2 ^ 63) \<le> x \<and> x < 2 ^ 63"

definition RAMP_DOWN_INTERVAL :: int where "RAMP_DOWN_INTERVAL = 100"

record jitter_estimator =
  je_minMs :: int
  je_maxMs :: int
  je_multiplier :: rat
  je_jitterMs :: rat
  je_prevArrivalNanos :: int
  je_prevSendNanos :: int
  je_adaptiveTargetMs :: int
  je_packetCount :: int
  je_lastRampDownPacket :: int

definition mk_jitter_estimator :: "int \<Rightarrow> int \<Rightarrow> rat \<Rightarrow> cpp_exn + jitter_estimator" where
  "mk_jitter_estimator minMs maxMs multiplier =
     (if minMs \<le> 0 then Inl (Invalid_argument ''minMs must be > 0'')
      else if maxMs < minMs then Inl (Invalid_argument ''maxMs must be >= minMs'')
      else if multiplier \<le> 0 then Inl (Invalid_argument ''multiplier must be > 0'')
      else Inr \<lparr>je_minMs = minMs, je_maxMs = maxMs, je_multiplier = multiplier, je_jitterMs = 0,
                je_prevArrivalNanos = - 1, je_prevSendNanos = - 1, je_adaptiveTargetMs = minMs,
                je_packetCount = 0, je_lastRampDownPacket = 0\<rparr>)"

text \<open>The jitter sample in milliseconds; \<open>None\<close> when one of the three subtractions overflows.\<close>

definition jitter_sample :: "(rat \<Rightarrow> rat) \<Rightarrow> int \<Rightarrow> int \<Rightarrow> jitter_estimator \<Rightarrow> rat option" where
  "jitter_sample rnd sendTs arrival e =
     (let arrivalDelta = arrival - je_prevArrivalNanos e; sendDelta = sendTs - je_prevSendNanos e
      in if i64_ok arrivalDelta \<and> i64_ok sendDelta \<and> i64_ok (arrivalDelta - sendDelta)
         then Some \<bar>rnd (rnd (of_int (arrivalDelta - sendDelta)) / 1000000)\<bar>
         else None)"

text \<open>The clamp of the desired target, done on the \<open>double\<close> before the conversion.\<close>

definition desired_target :: "(rat \<Rightarrow> rat) \<Rightarrow> jitter_estimator \<Rightarrow> int" where
  "desired_target rnd e =
     (let desiredMs = of_int (ceiling (rnd (rnd (je_jitterMs e * je_multiplier e) + of_int (je_minMs e)))) :: rat;
          desiredMs = (if \<not> desiredMs \<ge> of_int (je_minMs e) then of_int (je_minMs e) else desiredMs);
          desiredMs = (if desiredMs > of_int (je_maxMs e) then of_int (je_maxMs e) else desiredMs)
      in floor desiredMs)"

definition ramp :: "int \<Rightarrow> jitter_estimator \<Rightarrow> jitter_estimator" where
  "ramp desired e =
     (if desired > je_adaptiveTargetMs e then
        e\<lparr>je_adaptiveTargetMs := desired, je_lastRampDownPacket := je_packetCount e\<rparr>
      else if desired < je_adaptiveTargetMs e \<and> je_packetCount e - je_lastRampDownPacket e \<ge> RAMP_DOWN_INTERVAL then
        let stepped = je_adaptiveTargetMs e - 1
        in e\<lparr>je_adaptiveTargetMs := (if desired > stepped then desired else stepped),
             je_lastRampDownPacket := je_packetCount e\<rparr>
      else e)"

definition recordArrivalAt :: "(rat \<Rightarrow> rat) \<Rightarrow> int \<Rightarrow> int \<Rightarrow> jitter_estimator \<Rightarrow> jitter_estimator option" where
  "recordArrivalAt rnd sendTs arrival e =
     (let e = e\<lparr>je_packetCount := je_packetCount e + 1\<rparr>
      in if je_prevArrivalNanos e < 0 then
           Some (e\<lparr>je_prevArrivalNanos := arrival, je_prevSendNanos := sendTs\<rparr>)
         else case jitter_sample rnd sendTs arrival e of
                None \<Rightarrow> None
              | Some sample \<Rightarrow>
                  let e = e\<lparr>je_jitterMs := rnd (je_jitterMs e + rnd (rnd (sample - je_jitterMs e) / 16)),
                            je_prevArrivalNanos := arrival, je_prevSendNanos := sendTs\<rparr>
                  in Some (ramp (desired_target rnd e) e))"

definition adaptiveBufferTargetMs :: "jitter_estimator \<Rightarrow> int" where
  "adaptiveBufferTargetMs e = (if je_packetCount e = 0 then - 1 else je_adaptiveTargetMs e)"

definition je_reset :: "jitter_estimator \<Rightarrow> jitter_estimator" where
  "je_reset e = e\<lparr>je_jitterMs := 0, je_prevArrivalNanos := - 1, je_prevSendNanos := - 1,
     je_adaptiveTargetMs := je_minMs e, je_packetCount := 0, je_lastRampDownPacket := 0\<rparr>"

section \<open>Invariant\<close>

datatype je_op = JeArrival int int | JeReset

fun je_step :: "(rat \<Rightarrow> rat) \<Rightarrow> je_op \<Rightarrow> jitter_estimator \<Rightarrow> jitter_estimator option" where
  "je_step rnd (JeArrival s a) e = recordArrivalAt rnd s a e"
| "je_step rnd JeReset e = Some (je_reset e)"

fun je_run :: "(rat \<Rightarrow> rat) \<Rightarrow> je_op list \<Rightarrow> jitter_estimator \<Rightarrow> jitter_estimator option" where
  "je_run rnd [] e = Some e"
| "je_run rnd (x # xs) e = (case je_step rnd x e of None \<Rightarrow> None | Some e \<Rightarrow> je_run rnd xs e)"

definition je_ok :: "jitter_estimator \<Rightarrow> bool" where
  "je_ok e \<longleftrightarrow> 0 < je_minMs e \<and> je_minMs e \<le> je_adaptiveTargetMs e \<and> je_adaptiveTargetMs e \<le> je_maxMs e \<and>
     je_lastRampDownPacket e \<le> je_packetCount e \<and> 0 \<le> je_packetCount e"

lemma mk_jitter_ok: "mk_jitter_estimator lo hi m = Inr e \<Longrightarrow> je_ok e \<and> je_minMs e = lo \<and> je_maxMs e = hi \<and> je_packetCount e = 0"
  by (auto simp: mk_jitter_estimator_def je_ok_def split: if_splits)

lemma desired_range: "je_minMs e \<le> je_maxMs e \<Longrightarrow> je_minMs e \<le> desired_target rnd e \<and> desired_target rnd e \<le> je_maxMs e"
  by (auto simp: desired_target_def Let_def)

text \<open>One arrival after the first moves the target straight up to the demand, or down by one step.\<close>

lemma ramp_spec:
  assumes "je_ok e" "je_minMs e \<le> desired" "desired \<le> je_maxMs e"
  shows "je_ok (ramp desired e) \<and> je_minMs (ramp desired e) = je_minMs e \<and> je_maxMs (ramp desired e) = je_maxMs e \<and>
    je_packetCount (ramp desired e) = je_packetCount e \<and>
    je_adaptiveTargetMs e - 1 \<le> je_adaptiveTargetMs (ramp desired e) \<and>
    (je_adaptiveTargetMs (ramp desired e) < je_adaptiveTargetMs e \<longrightarrow>
       je_adaptiveTargetMs (ramp desired e) = je_adaptiveTargetMs e - 1 \<and>
       je_lastRampDownPacket e + RAMP_DOWN_INTERVAL \<le> je_packetCount e \<and>
       je_lastRampDownPacket (ramp desired e) = je_packetCount e) \<and>
    desired \<le> je_adaptiveTargetMs (ramp desired e) \<and> je_lastRampDownPacket e \<le> je_lastRampDownPacket (ramp desired e)"
  using assms by (auto simp: ramp_def je_ok_def Let_def)

lemma recordArrivalAt_spec:
  assumes "je_ok e" "recordArrivalAt rnd s a e = Some e'"
  shows "je_ok e' \<and> je_minMs e' = je_minMs e \<and> je_maxMs e' = je_maxMs e \<and> je_packetCount e' = je_packetCount e + 1 \<and>
    je_lastRampDownPacket e \<le> je_lastRampDownPacket e' \<and> je_adaptiveTargetMs e - 1 \<le> je_adaptiveTargetMs e' \<and>
    (je_adaptiveTargetMs e' < je_adaptiveTargetMs e \<longrightarrow>
       je_lastRampDownPacket e + RAMP_DOWN_INTERVAL \<le> je_packetCount e' \<and> je_lastRampDownPacket e' = je_packetCount e')"
proof (cases "je_prevArrivalNanos e < 0")
  case True
  then show ?thesis using assms by (auto simp: recordArrivalAt_def je_ok_def)
next
  case False
  let ?e = "e\<lparr>je_packetCount := je_packetCount e + 1\<rparr>"
  from assms(2) False obtain j where e': "e' = ramp (desired_target rnd (?e\<lparr>je_jitterMs := j, je_prevArrivalNanos := a, je_prevSendNanos := s\<rparr>))
      (?e\<lparr>je_jitterMs := j, je_prevArrivalNanos := a, je_prevSendNanos := s\<rparr>)"
    by (auto simp: recordArrivalAt_def Let_def split: option.splits)
  define f where "f = ?e\<lparr>je_jitterMs := j, je_prevArrivalNanos := a, je_prevSendNanos := s\<rparr>"
  have f: "je_ok f" "je_minMs f = je_minMs e" "je_maxMs f = je_maxMs e" "je_packetCount f = je_packetCount e + 1"
    "je_lastRampDownPacket f = je_lastRampDownPacket e" "je_adaptiveTargetMs f = je_adaptiveTargetMs e"
    using assms(1) by (auto simp: f_def je_ok_def)
  have "je_minMs f \<le> je_maxMs f" using f(1) by (simp add: je_ok_def)
  note r = desired_range [OF this, of rnd]
  from ramp_spec [OF f(1) conjunct1 [OF r] conjunct2 [OF r]] show ?thesis
    unfolding e' f_def [symmetric] using f by auto
qed

lemma je_run_ok:
  "je_ok e \<Longrightarrow> je_run rnd xs e = Some e' \<Longrightarrow> je_ok e' \<and> je_minMs e' = je_minMs e \<and> je_maxMs e' = je_maxMs e"
proof (induction xs arbitrary: e)
  case (Cons x xs)
  then obtain e1 where st: "je_step rnd x e = Some e1" "je_run rnd xs e1 = Some e'" by (auto split: option.splits)
  have "je_ok e1 \<and> je_minMs e1 = je_minMs e \<and> je_maxMs e1 = je_maxMs e"
  proof (cases x)
    case (JeArrival s a)
    then show ?thesis using recordArrivalAt_spec [OF Cons.prems(1)] st(1) by auto
  next
    case JeReset
    then show ?thesis using st(1) Cons.prems(1) by (auto simp: je_reset_def je_ok_def)
  qed
  with Cons.IH [OF _ st(2)] show ?case by simp
qed simp

text \<open>Between two arrivals \<open>n\<close> packets apart the target falls by at most one per hundred packets.\<close>

lemma je_arrivals_descent:
  assumes "je_ok e" "je_run rnd (map (\<lambda>(s, a). JeArrival s a) ts) e = Some e'"
  shows "je_packetCount e' = je_packetCount e + int (length ts) \<and>
    RAMP_DOWN_INTERVAL * (je_adaptiveTargetMs e - je_adaptiveTargetMs e') \<le> je_packetCount e' - je_lastRampDownPacket e \<and>
    RAMP_DOWN_INTERVAL * (je_adaptiveTargetMs e - je_adaptiveTargetMs e') + je_lastRampDownPacket e \<le> je_lastRampDownPacket e'"
  using assms
proof (induction ts arbitrary: e)
  case Nil
  then show ?case by (auto simp: je_ok_def)
next
  case (Cons t ts)
  obtain s a where t: "t = (s, a)" by (cases t)
  obtain e1 where st: "recordArrivalAt rnd s a e = Some e1"
    and run: "je_run rnd (map (\<lambda>(s, a). JeArrival s a) ts) e1 = Some e'"
    using Cons.prems(2) by (auto simp: t split: option.splits)
  note sp = recordArrivalAt_spec [OF Cons.prems(1) st]
  then have "je_ok e1" by simp
  from Cons.IH [OF this run] sp show ?case by (auto simp: RAMP_DOWN_INTERVAL_def je_ok_def)
qed

section \<open>Properties\<close>

text \<open>
  Whatever time stamps arrive, in whatever order, and whatever the floating-point rounding, as
  long as no subtraction overflows the adaptive target stays between the configured minimum and
  maximum; over any run of arrivals it falls by at most one millisecond per hundred packets.
\<close>

theorem jitter_target_bounded:
  assumes "mk_jitter_estimator lo hi m = Inr e" and "je_run rnd xs e = Some e1"
    and "je_run rnd (map (\<lambda>(s, a). JeArrival s a) ts) e1 = Some e2"
  shows "lo \<le> je_adaptiveTargetMs e2 \<and> je_adaptiveTargetMs e2 \<le> hi \<and>
    RAMP_DOWN_INTERVAL * (je_adaptiveTargetMs e1 - je_adaptiveTargetMs e2) \<le>
      je_packetCount e1 - je_lastRampDownPacket e1 + int (length ts)"
proof -
  note ok = mk_jitter_ok [OF assms(1)]
  from je_run_ok [OF _ assms(2)] ok have ok1: "je_ok e1" "je_minMs e1 = lo" "je_maxMs e1 = hi" by auto
  from je_run_ok [OF ok1(1) assms(3)] ok1 have "lo \<le> je_adaptiveTargetMs e2" "je_adaptiveTargetMs e2 \<le> hi" by (auto simp: je_ok_def)
  then show ?thesis using je_arrivals_descent [OF ok1(1) assms(3)] by auto
qed

definition demo_jitter :: jitter_estimator where
  "demo_jitter = \<lparr>je_minMs = 40, je_maxMs = 400, je_multiplier = 3, je_jitterMs = 0, je_prevArrivalNanos = - 1,
     je_prevSendNanos = - 1, je_adaptiveTargetMs = 40, je_packetCount = 0, je_lastRampDownPacket = 0\<rparr>"

lemma demo_jitter_mk: "mk_jitter_estimator 40 400 3 = Inr demo_jitter"
  by (simp add: mk_jitter_estimator_def demo_jitter_def)

theorem jitter_target_bounded_witness:
  "(\<exists>e. je_run id [JeArrival 0 1000, JeArrival 10000000 91001000] demo_jitter = Some e \<and>
      40 \<le> je_adaptiveTargetMs e \<and> je_adaptiveTargetMs e \<le> 400 \<and> je_adaptiveTargetMs e = 56)"
proof -
  have "\<lceil>243 / 16 :: rat\<rceil> = 16" by (rule ceiling_unique) simp_all
  then obtain e where e: "je_run id [JeArrival 0 1000, JeArrival 10000000 91001000] demo_jitter = Some e" "je_adaptiveTargetMs e = 56"
    by (simp add: demo_jitter_def recordArrivalAt_def jitter_sample_def i64_ok_def desired_target_def ramp_def
        Let_def ceiling_divide_eq_div)
  from jitter_target_bounded [OF demo_jitter_mk e(1), of "[]" e] e show ?thesis by auto
qed

text \<open>
  Two in-range time stamps of the peer make the send-side subtraction overflow, which the guard
  against non-finite values further down cannot see.
\<close>

lemma jitter_timestamps_overflow:
  "i64_ok (2 ^ 63 - 1) \<and> i64_ok (- (2 ^ 63)) \<and>
   je_run rnd [JeArrival (2 ^ 63 - 1) 1000, JeArrival (- (2 ^ 63)) 2000] demo_jitter = None"
  by (simp add: demo_jitter_def recordArrivalAt_def jitter_sample_def i64_ok_def)

end
