(* ===== verification/Udp_Connection.thy ===== *)
theory Udp_Connection
  imports Protocol_Handler Control_Reliability Reorder_Buffer Jitter_Estimator Bounded_Fifo
begin

text \<open>
  The UDP connection: \<open>src/net/UdpClientConnection.cpp\<close>, the composition of the control reliability
  layer, the jitter estimator, the reorder buffer, the FEC codec and the ordered queue. The state is
  the connection with its optional subsystems; the socket is the script of the outcomes of \<open>sendTo\<close>
  and the log of the datagrams it accepted. A record of clock readings is the argument of every
  operation. Emitter callbacks are the lists the subsystem models return, offered in order. \<open>None\<close> is
  the undefined behaviour of the jitter estimator's overflow.
\<close>

section \<open>The ordered queue\<close>

record packet_queue =
  pq_queue :: "(audio_packet \<times> provenance) list"
  pq_shutdown :: bool
  pq_maxSize :: nat
  pq_drops :: int

definition kDefaultMaxSize :: nat where "kDefaultMaxSize = 2048"

definition mk_packet_queue :: "nat \<Rightarrow> packet_queue" where
  "mk_packet_queue maxSize = \<lparr>pq_queue = [], pq_shutdown = False,
     pq_maxSize = (if maxSize = 0 then kDefaultMaxSize else maxSize), pq_drops = 0\<rparr>"

definition pq_offer :: "audio_packet \<Rightarrow> provenance \<Rightarrow> packet_queue \<Rightarrow> packet_queue" where
  "pq_offer p v q =
     (let q = (if length (pq_queue q) \<ge> pq_maxSize q
               then q\<lparr>pq_queue := tl (pq_queue q), pq_drops := pq_drops q + 1\<rparr> else q)
      in q\<lparr>pq_queue := pq_queue q @ [(p, v)]\<rparr>)"

text \<open>Both polls: the blocking one once its wait is over.\<close>

definition pq_poll :: "packet_queue \<Rightarrow> packet_queue \<times> (audio_packet \<times> provenance) option" where
  "pq_poll q = (case pq_queue q of [] \<Rightarrow> (q, None) | e # rest \<Rightarrow> (q\<lparr>pq_queue := rest\<rparr>, Some e))"

definition pq_close :: "packet_queue \<Rightarrow> packet_queue" where
  "pq_close q = q\<lparr>pq_shutdown := True\<rparr>"

section \<open>Configuration and state\<close>

record udp_reliability_config =
  rc_reorderWindowSize :: int
  rc_reorderMaxHoldMs :: int
  rc_fecEnabled :: bool
  rc_fecBlockSize :: int
  rc_frameDurationMs :: int
  rc_maxAudioPayloadBytes :: int
  rc_adaptiveJitterEnabled :: bool
  rc_jitterMinMs :: int
  rc_jitterMaxMs :: int
  rc_jitterMultiplier :: rat
  rc_controlReliabilityEnabled :: bool
  rc_controlRetransmitMaxAttempts :: int

definition default_udp_reliability :: udp_reliability_config where
  "default_udp_reliability = \<lparr>rc_reorderWindowSize = 8, rc_reorderMaxHoldMs = 30, rc_fecEnabled = False,
     rc_fecBlockSize = 5, rc_frameDurationMs = 20, rc_maxAudioPayloadBytes = 1344,
     rc_adaptiveJitterEnabled = False, rc_jitterMinMs = 0, rc_jitterMaxMs = 0, rc_jitterMultiplier = 3,
     rc_controlReliabilityEnabled = False, rc_controlRetransmitMaxAttempts = 3\<rparr>"

definition UDP_HEARTBEAT_INTERVAL_MS :: int where "UDP_HEARTBEAT_INTERVAL_MS = 3000"
definition UDP_CONNECTION_TIMEOUT_MS :: int where "UDP_CONNECTION_TIMEOUT_MS = 8000"
definition UDP_MAX_CONSECUTIVE_CRC_ERRORS :: nat where "UDP_MAX_CONSECUTIVE_CRC_ERRORS = 20"
definition MAX_DATAGRAM_SIZE :: nat where "MAX_DATAGRAM_SIZE = HEADER_SIZE + MAX_PAYLOAD + CRC_SIZE + 64"

text \<open>
  The datagram socket: whether it is closed, the outcomes of the coming sends (a send beyond the
  script succeeds) and the datagrams handed to the network with their destination.
\<close>

record udp_socket =
  us_closed :: bool
  us_outcomes :: "bool list"
  us_sent :: "(bytes \<times> string \<times> u16) list"

definition socket_sendTo :: "bytes \<Rightarrow> string \<Rightarrow> u16 \<Rightarrow> udp_socket \<Rightarrow> bool \<times> udp_socket" where
  "socket_sendTo d host port s =
     (let ok = (\<not> us_closed s \<and> (case us_outcomes s of [] \<Rightarrow> True | b # _ \<Rightarrow> b))
      in (ok, s\<lparr>us_outcomes := tl (us_outcomes s),
                us_sent := us_sent s @ (if ok then [(d, host, port)] else [])\<rparr>))"

text \<open>The wall clock in ms, the steady clock in ms and in ns, the packet time stamp in ns.\<close>

record clocks =
  ck_wallMs :: int
  ck_steadyMs :: int
  ck_steadyNanos :: int
  ck_packetNanos :: u64

record udp_connection =
  uc_socket :: udp_socket
  uc_ownsSocket :: bool
  uc_remoteHost :: string
  uc_remotePort :: u16
  uc_expectedSenderHost :: string
  uc_sequenceCounter :: u32
  uc_closed :: bool
  uc_orderedQueue :: packet_queue
  uc_reorderBuffer :: "reorder_buffer option"
  uc_fecEncoder :: "fec_encoder option"
  uc_fecDecoder :: "fec_decoder option"
  uc_jitterEstimator :: "jitter_estimator option"
  uc_controlReliability :: "control_reliability option"
  uc_lastSendTime :: int
  uc_lastReceiveTime :: int
  uc_packetsSent :: int
  uc_packetsReceived :: int
  uc_bytesSent :: int
  uc_bytesReceived :: int
  uc_crcErrors :: int
  uc_consecutiveCrcErrors :: nat
  uc_oversizedDatagrams :: int
  uc_maxAudioPayload :: nat
  uc_highestSequenceSeen :: int
  uc_packetsLost :: int
  uc_packetsOutOfOrder :: int

section \<open>Construction\<close>

definition udp_usable_payload :: "udp_reliability_config \<Rightarrow> nat" where
  "udp_usable_payload cfg =
     (let usable = rc_maxAudioPayloadBytes cfg > 0 \<and> nat (rc_maxAudioPayloadBytes cfg) \<le> MAX_PAYLOAD
      in nat (if usable then rc_maxAudioPayloadBytes cfg else rc_maxAudioPayloadBytes default_udp_reliability))"

text \<open>A negative block size converts to a huge \<open>size_t\<close>, which the encoder rejects.\<close>

definition size_of_int :: "int \<Rightarrow> nat" where
  "size_of_int x = nat (x mod 2 ^ 64)"

definition init_fec :: "udp_reliability_config \<Rightarrow> cpp_exn + (fec_encoder \<times> fec_decoder) option" where
  "init_fec cfg =
     (if \<not> rc_fecEnabled cfg then Inr None
      else case mk_fec_encoder (size_of_int (rc_fecBlockSize cfg)) of
             Inl e \<Rightarrow> Inl e
           | Inr enc \<Rightarrow>
               let blockPeriodMs = max 0 (rc_fecBlockSize cfg) * max 0 (rc_frameDurationMs cfg)
               in Inr (Some (enc, setPendingIdleTimeoutMs (blockPeriodMs + max 0 (rc_reorderMaxHoldMs cfg) +
                                    max 0 (rc_jitterMaxMs cfg)) (mk_fec_decoder DEFAULT_BLOCK_TIMEOUT_MS))))"

definition init_reorder :: "udp_reliability_config \<Rightarrow> cpp_exn + reorder_buffer option" where
  "init_reorder cfg =
     (if rc_reorderWindowSize cfg > 0
      then case mk_reorder_buffer (nat (rc_reorderWindowSize cfg)) (rc_reorderMaxHoldMs cfg) of
             Inl e \<Rightarrow> Inl e | Inr b \<Rightarrow> Inr (Some b)
      else Inr None)"

definition init_jitter :: "udp_reliability_config \<Rightarrow> cpp_exn + jitter_estimator option" where
  "init_jitter cfg =
     (if rc_adaptiveJitterEnabled cfg \<and> rc_jitterMinMs cfg > 0 \<and> rc_jitterMaxMs cfg \<ge> rc_jitterMinMs cfg
      then case mk_jitter_estimator (rc_jitterMinMs cfg) (rc_jitterMaxMs cfg) (rc_jitterMultiplier cfg) of
             Inl e \<Rightarrow> Inl e | Inr j \<Rightarrow> Inr (Some j)
      else Inr None)"

definition init_control :: "udp_reliability_config \<Rightarrow> cpp_exn + control_reliability option" where
  "init_control cfg =
     (if rc_controlReliabilityEnabled cfg
      then case mk_control_reliability (max 1 (rc_controlRetransmitMaxAttempts cfg)) CR_DEFAULT_TIMEOUT_MS of
             Inl e \<Rightarrow> Inl e | Inr c \<Rightarrow> Inr (Some c)
      else Inr None)"

text \<open>\<open>resolve\<close> is \<open>Socket::resolveHostV4\<close>, the empty string when resolution fails.\<close>

definition initPipeline :: "(string \<Rightarrow> string) \<Rightarrow> udp_reliability_config \<Rightarrow> udp_connection \<Rightarrow> cpp_exn + udp_connection" where
  "initPipeline resolve cfg c =
     (case init_fec cfg of Inl e \<Rightarrow> Inl e
      | Inr fec \<Rightarrow> case init_reorder cfg of Inl e \<Rightarrow> Inl e
      | Inr rb \<Rightarrow> case init_jitter cfg of Inl e \<Rightarrow> Inl e
      | Inr je \<Rightarrow> case init_control cfg of Inl e \<Rightarrow> Inl e
      | Inr cr \<Rightarrow> Inr (c\<lparr>uc_maxAudioPayload := udp_usable_payload cfg,
          uc_expectedSenderHost := resolve (uc_remoteHost c),
          uc_fecEncoder := map_option fst fec, uc_fecDecoder := map_option snd fec,
          uc_reorderBuffer := rb, uc_jitterEstimator := je, uc_controlReliability := cr\<rparr>))"

definition mk_udp_connection ::
  "clocks \<Rightarrow> (string \<Rightarrow> string) \<Rightarrow> bool \<Rightarrow> udp_socket \<Rightarrow> string \<Rightarrow> u16 \<Rightarrow> udp_reliability_config \<Rightarrow> cpp_exn + udp_connection" where
  "mk_udp_connection t resolve owns sock host port cfg = initPipeline resolve cfg
     \<lparr>uc_socket = sock, uc_ownsSocket = owns, uc_remoteHost = host, uc_remotePort = port,
      uc_expectedSenderHost = [], uc_sequenceCounter = 0, uc_closed = False,
      uc_orderedQueue = mk_packet_queue kDefaultMaxSize, uc_reorderBuffer = None, uc_fecEncoder = None,
      uc_fecDecoder = None, uc_jitterEstimator = None, uc_controlReliability = None,
      uc_lastSendTime = ck_wallMs t, uc_lastReceiveTime = ck_wallMs t, uc_packetsSent = 0,
      uc_packetsReceived = 0, uc_bytesSent = 0, uc_bytesReceived = 0, uc_crcErrors = 0,
      uc_consecutiveCrcErrors = 0, uc_oversizedDatagrams = 0, uc_maxAudioPayload = 0,
      uc_highestSequenceSeen = - 1, uc_packetsLost = 0, uc_packetsOutOfOrder = 0\<rparr>"

section \<open>Send\<close>

definition uc_nextSequence :: "udp_connection \<Rightarrow> u32 \<times> udp_connection" where
  "uc_nextSequence c = (uc_sequenceCounter c, c\<lparr>uc_sequenceCounter := uc_sequenceCounter c + 1\<rparr>)"

definition uc_sendPacket :: "clocks \<Rightarrow> audio_packet \<Rightarrow> udp_connection \<Rightarrow> bool \<times> udp_connection" where
  "uc_sendPacket t p c =
     (if uc_closed c then (False, c)
      else let d = serialize p;
               c = (if length d > UDP_MAX_PAYLOAD then c\<lparr>uc_oversizedDatagrams := uc_oversizedDatagrams c + 1\<rparr> else c);
               dest = (if uc_expectedSenderHost c = [] then uc_remoteHost c else uc_expectedSenderHost c);
               (ok, s) = socket_sendTo d dest (uc_remotePort c) (uc_socket c);
               c = c\<lparr>uc_socket := s\<rparr>
        in if \<not> ok then (False, c)
           else (True, c\<lparr>uc_lastSendTime := ck_wallMs t, uc_packetsSent := uc_packetsSent c + 1,
                         uc_bytesSent := uc_bytesSent c + int (length d)\<rparr>))"

definition uc_sendControl :: "clocks \<Rightarrow> control_message \<Rightarrow> udp_connection \<Rightarrow> bool \<times> udp_connection" where
  "uc_sendControl t m c =
     (let (s, c) = uc_nextSequence c; p = createControl (ck_packetNanos t) s (cm_serialize m);
          (ok, c) = uc_sendPacket t p c
      in (ok, c\<lparr>uc_controlReliability := map_option (recordSentAt p (ck_steadyMs t)) (uc_controlReliability c)\<rparr>))"

definition uc_trySendControl :: "clocks \<Rightarrow> control_message \<Rightarrow> udp_connection \<Rightarrow> bool \<times> udp_connection" where
  "uc_trySendControl t m c = uc_sendControl t m c"

definition maybeSendFecParity :: "clocks \<Rightarrow> audio_packet \<Rightarrow> udp_connection \<Rightarrow> udp_connection" where
  "maybeSendFecParity t p c =
     (case uc_fecEncoder c of
        None \<Rightarrow> c
      | Some e \<Rightarrow>
          let (e, parity) = recordAndMaybeEmit (ck_packetNanos t) p e; c = c\<lparr>uc_fecEncoder := Some e\<rparr>
          in case parity of
               None \<Rightarrow> c
             | Some q \<Rightarrow> let (s, c) = uc_nextSequence c in snd (uc_sendPacket t (q\<lparr>sequence := s\<rparr>) c))"

text \<open>
  One turn of the do-while of \<open>sendAudioChunked\<close>, and the loop: with a chunk size of zero it would
  send empty packets for ever (\<open>None\<close>).
\<close>

definition chunk_turn ::
  "clocks \<Rightarrow> packet_type \<Rightarrow> bytes \<Rightarrow> udp_connection \<Rightarrow> bool \<times> udp_connection" where
  "chunk_turn t ty chunk c =
     (let (s, c) = uc_nextSequence c; p = mk_packet (ck_packetNanos t) ty s chunk;
          (ok, c) = uc_sendPacket t p c
      in (ok, maybeSendFecParity t p c))"

partial_function (option) chunk_loop ::
  "clocks \<Rightarrow> packet_type \<Rightarrow> nat \<Rightarrow> bytes \<Rightarrow> udp_connection \<Rightarrow> (bool \<times> udp_connection) option" where
  [code]: "chunk_loop t ty m rest c =
     (let n = min (length rest) m; (ok, c) = chunk_turn t ty (take n rest) c
      in if ok \<and> n < length rest then chunk_loop t ty m (drop n rest) c else Some (ok, c))"

definition sendAudioChunked ::
  "clocks \<Rightarrow> packet_type \<Rightarrow> bytes \<Rightarrow> nat \<Rightarrow> nat \<Rightarrow> udp_connection \<Rightarrow> (bool \<times> udp_connection) option" where
  "sendAudioChunked t ty d off len c = chunk_loop t ty (uc_maxAudioPayload c) (take len (drop off d)) c"

definition uc_sendRxAudio :: "clocks \<Rightarrow> bytes \<Rightarrow> nat \<Rightarrow> nat \<Rightarrow> udp_connection \<Rightarrow> (bool \<times> udp_connection) option" where
  "uc_sendRxAudio t d off len c = sendAudioChunked t AudioRx d off len c"

definition uc_sendTxAudio :: "clocks \<Rightarrow> bytes \<Rightarrow> udp_connection \<Rightarrow> (bool \<times> udp_connection) option" where
  "uc_sendTxAudio t d c = sendAudioChunked t AudioTx d 0 (length d) c"

definition uc_sendHeartbeat :: "clocks \<Rightarrow> udp_connection \<Rightarrow> bool \<times> udp_connection" where
  "uc_sendHeartbeat t c = (let (s, c) = uc_nextSequence c in uc_sendPacket t (createHeartbeat (ck_packetNanos t) s) c)"

section \<open>Receive\<close>

definition trackSequence :: "u32 \<Rightarrow> udp_connection \<Rightarrow> udp_connection" where
  "trackSequence s c =
     (let sq = uint s; highest = uc_highestSequenceSeen c
      in if highest < 0 then c\<lparr>uc_highestSequenceSeen := sq\<rparr>
         else if sq > highest + 1 then
           c\<lparr>uc_packetsLost := uc_packetsLost c + (sq - highest - 1), uc_highestSequenceSeen := sq\<rparr>
         else if sq = highest + 1 then c\<lparr>uc_highestSequenceSeen := sq\<rparr>
         else c\<lparr>uc_packetsOutOfOrder := uc_packetsOutOfOrder c + 1\<rparr>)"

definition isExpectedSender :: "string \<Rightarrow> u16 \<Rightarrow> udp_connection \<Rightarrow> bool" where
  "isExpectedSender host port c =
     (if port \<noteq> uc_remotePort c then False
      else if uc_expectedSenderHost c = [] then True
      else host = uc_expectedSenderHost c)"

text \<open>
  \<open>handleControlReliabilityLocked\<close> on an engaged reliability layer: whether the packet is consumed,
  and what to send after the lock is released.
\<close>

definition handleControlReliabilityLocked ::
  "clocks \<Rightarrow> audio_packet \<Rightarrow> control_reliability \<Rightarrow> udp_connection \<Rightarrow> bool \<times> audio_packet list \<times> udp_connection" where
  "handleControlReliabilityLocked t p cr c =
     (case cm_deserialize (payload p) of
        None \<Rightarrow> (False, [], c)
      | Some m \<Rightarrow>
          if messageType m = ControlAck then
            let ackedSeq = parseControlAckSequence m
            in (True, [], if sint ackedSeq \<ge> 0 then c\<lparr>uc_controlReliability := Some (fst (onAckReceived ackedSeq cr))\<rparr> else c)
          else if messageType m = Nack then
            let nackedSeq = parseNackSequence m
            in if sint nackedSeq \<ge> 0 then
                 let (cr, r) = onNackReceivedAt nackedSeq (ck_steadyMs t) cr
                 in (True, case r of None \<Rightarrow> [] | Some q \<Rightarrow> [q], c\<lparr>uc_controlReliability := Some cr\<rparr>)
               else (True, [], c)
          else case generateAck p of
                 None \<Rightarrow> (False, [], c)
               | Some ack \<Rightarrow>
                   let (s, c) = uc_nextSequence c
                   in (False, [createControl (ck_packetNanos t) s (cm_serialize ack)], c))"

fun uc_send_all :: "clocks \<Rightarrow> audio_packet list \<Rightarrow> udp_connection \<Rightarrow> udp_connection" where
  "uc_send_all t [] c = c"
| "uc_send_all t (p # ps) c = uc_send_all t ps (snd (uc_sendPacket t p c))"

text \<open>The control block shared by both receive paths: consumed or not, after the replies are sent.\<close>

definition control_stage :: "clocks \<Rightarrow> audio_packet \<Rightarrow> udp_connection \<Rightarrow> bool \<times> udp_connection" where
  "control_stage t p c =
     (case uc_controlReliability c of
        None \<Rightarrow> (False, c)
      | Some cr \<Rightarrow>
          if ptype p = Control then
            let (consumed, outgoing, c) = handleControlReliabilityLocked t p cr c
            in (consumed, uc_send_all t outgoing c)
          else (False, c))"

definition jitter_stage :: "(rat \<Rightarrow> rat) \<Rightarrow> clocks \<Rightarrow> audio_packet \<Rightarrow> udp_connection \<Rightarrow> udp_connection option" where
  "jitter_stage rnd t p c =
     (case uc_jitterEstimator c of
        None \<Rightarrow> Some c
      | Some j \<Rightarrow>
          if ptype p = AudioRx \<or> ptype p = AudioTx then
            (case recordArrivalAt rnd (sint (timestamp p)) (ck_steadyNanos t) j of
               None \<Rightarrow> None
             | Some j \<Rightarrow> Some (c\<lparr>uc_jitterEstimator := Some j\<rparr>))
          else Some c)"

text \<open>The emitters: FEC output and reorder output into the queue.\<close>

definition offer_emits :: "fec_emits \<Rightarrow> packet_queue \<Rightarrow> packet_queue" where
  "offer_emits es q = fold (\<lambda>(p, v) q. case p of Some p \<Rightarrow> pq_offer p v q | None \<Rightarrow> q) es q"

definition fec_feed :: "clocks \<Rightarrow> audio_packet \<Rightarrow> udp_connection \<Rightarrow> udp_connection" where
  "fec_feed t p c =
     (case uc_fecDecoder c of
        None \<Rightarrow> c
      | Some d \<Rightarrow>
          let (d, es) = fd_processPacket (ck_packetNanos t) (ck_steadyMs t) p d
          in c\<lparr>uc_fecDecoder := Some d, uc_orderedQueue := offer_emits es (uc_orderedQueue c)\<rparr>)"

definition fec_timeout :: "clocks \<Rightarrow> udp_connection \<Rightarrow> udp_connection" where
  "fec_timeout t c =
     (case uc_fecDecoder c of
        None \<Rightarrow> c
      | Some d \<Rightarrow>
          let (d, es) = fd_checkTimeoutAt (ck_steadyMs t) d
          in c\<lparr>uc_fecDecoder := Some d, uc_orderedQueue := offer_emits es (uc_orderedQueue c)\<rparr>)"

definition reorder_emit :: "clocks \<Rightarrow> audio_packet option \<Rightarrow> udp_connection \<Rightarrow> udp_connection" where
  "reorder_emit t e c =
     (case e of
        None \<Rightarrow> c
      | Some p \<Rightarrow>
          if uc_fecDecoder c \<noteq> None then fec_feed t p c
          else c\<lparr>uc_orderedQueue := pq_offer p Live (uc_orderedQueue c)\<rparr>)"

definition reorder_insert :: "clocks \<Rightarrow> audio_packet \<Rightarrow> udp_connection \<Rightarrow> udp_connection" where
  "reorder_insert t p c =
     (case uc_reorderBuffer c of
        None \<Rightarrow> c
      | Some b \<Rightarrow>
          let (b, es) = insertAt p (ck_steadyMs t) b
          in fold (reorder_emit t) es (c\<lparr>uc_reorderBuffer := Some b\<rparr>))"

definition reorder_timeout :: "clocks \<Rightarrow> udp_connection \<Rightarrow> udp_connection" where
  "reorder_timeout t c =
     (case uc_reorderBuffer c of
        None \<Rightarrow> c
      | Some b \<Rightarrow>
          let (b, es) = checkTimeoutAt (ck_steadyMs t) b
          in fold (reorder_emit t) es (c\<lparr>uc_reorderBuffer := Some b\<rparr>))"

text \<open>\<open>enqueueReceived\<close>: what the demux thread calls on a server-fed connection.\<close>

definition enqueueReceived :: "(rat \<Rightarrow> rat) \<Rightarrow> clocks \<Rightarrow> audio_packet \<Rightarrow> int \<Rightarrow> udp_connection \<Rightarrow> udp_connection option" where
  "enqueueReceived rnd t p rawBytes c =
     (let c = c\<lparr>uc_lastReceiveTime := ck_wallMs t, uc_consecutiveCrcErrors := 0,
                uc_packetsReceived := uc_packetsReceived c + 1, uc_bytesReceived := uc_bytesReceived c + rawBytes\<rparr>;
          (consumed, c) = control_stage t p c
      in if consumed then Some c
         else case jitter_stage rnd t p c of
                None \<Rightarrow> None
              | Some c \<Rightarrow>
                  if uc_reorderBuffer c \<noteq> None then Some (reorder_timeout t (reorder_insert t p c))
                  else if uc_fecDecoder c \<noteq> None then Some (trackSequence (sequence p) (fec_timeout t (fec_feed t p c)))
                  else if ptype p = FecParity then Some c
                  else Some (trackSequence (sequence p) (c\<lparr>uc_orderedQueue := pq_offer p Live (uc_orderedQueue c)\<rparr>)))"

definition recordCrcError :: "udp_connection \<Rightarrow> udp_connection" where
  "recordCrcError c = c\<lparr>uc_crcErrors := uc_crcErrors c + 1, uc_consecutiveCrcErrors := uc_consecutiveCrcErrors c + 1\<rparr>"

definition poll_result :: "udp_connection \<Rightarrow> receive_result \<times> udp_connection" where
  "poll_result c =
     (let (q, r) = pq_poll (uc_orderedQueue c)
      in case r of
           Some (p, v) \<Rightarrow> (rr_of p v, c\<lparr>uc_orderedQueue := q\<rparr>)
         | None \<Rightarrow> (rr_noData, c))"

datatype recv_from = From_ok bytes string u16 bool | From_timedOut | From_failed

definition receiveFromSocket ::
  "(rat \<Rightarrow> rat) \<Rightarrow> clocks \<Rightarrow> recv_from \<Rightarrow> udp_connection \<Rightarrow> (receive_result \<times> udp_connection) option" where
  "receiveFromSocket rnd t rr c =
     (if pq_queue (uc_orderedQueue c) \<noteq> [] then Some (poll_result c)
      else case rr of
             From_timedOut \<Rightarrow> Some (poll_result (fec_timeout t (reorder_timeout t c)))
           | From_failed \<Rightarrow> Some (rr_dead, c)
           | From_ok d host port truncated \<Rightarrow>
               if truncated \<or> \<not> isExpectedSender host port c then Some (rr_noData, c)
               else case deserialize d of
                      None \<Rightarrow>
                        let c = recordCrcError c
                        in Some (if uc_consecutiveCrcErrors c \<ge> UDP_MAX_CONSECUTIVE_CRC_ERRORS then rr_dead else rr_noData, c)
                    | Some p \<Rightarrow>
                        let c = c\<lparr>uc_consecutiveCrcErrors := 0, uc_lastReceiveTime := ck_wallMs t,
                              uc_packetsReceived := uc_packetsReceived c + 1,
                              uc_bytesReceived := uc_bytesReceived c + int (length d)\<rparr>;
                            (consumed, c) = control_stage t p c
                        in if consumed then Some (poll_result c)
                           else case jitter_stage rnd t p c of
                                  None \<Rightarrow> None
                                | Some c \<Rightarrow>
                                    if uc_reorderBuffer c \<noteq> None
                                    then Some (poll_result (reorder_timeout t (reorder_insert t p c)))
                                    else if uc_fecDecoder c \<noteq> None
                                    then Some (poll_result (trackSequence (sequence p) (fec_timeout t (fec_feed t p c))))
                                    else if ptype p = FecParity then Some (rr_noData, c)
                                    else Some (rr_of p Live, trackSequence (sequence p) c))"

text \<open>
  \<open>receivePacket\<close>. On a server-fed connection the demux thread runs during the wait; its calls of
  \<open>enqueueReceived\<close> are separate operations, so the wait ends with the queue as it is.
\<close>

definition uc_receivePacket ::
  "(rat \<Rightarrow> rat) \<Rightarrow> clocks \<Rightarrow> recv_from \<Rightarrow> udp_connection \<Rightarrow> (receive_result \<times> udp_connection) option" where
  "uc_receivePacket rnd t rr c =
     (if uc_closed c then Some (rr_dead, c)
      else if \<not> uc_ownsSocket c then
        if pq_queue (uc_orderedQueue c) \<noteq> [] then Some (poll_result c)
        else Some (poll_result (fec_timeout t (reorder_timeout t c)))
      else receiveFromSocket rnd t rr c)"

section \<open>Retransmission, heartbeat, statistics, close\<close>

definition checkControlRetransmits :: "clocks \<Rightarrow> udp_connection \<Rightarrow> udp_connection" where
  "checkControlRetransmits t c =
     (case uc_controlReliability c of
        None \<Rightarrow> c
      | Some cr \<Rightarrow>
          let (cr, ps) = checkRetransmitsAt (ck_steadyMs t) cr
          in uc_send_all t ps (c\<lparr>uc_controlReliability := Some cr\<rparr>))"

definition uc_shouldSendHeartbeat :: "clocks \<Rightarrow> udp_connection \<Rightarrow> bool \<times> udp_connection" where
  "uc_shouldSendHeartbeat t c =
     (let c = checkControlRetransmits t c in (ck_wallMs t - uc_lastSendTime c > UDP_HEARTBEAT_INTERVAL_MS, c))"

definition uc_isConnectionTimedOut :: "clocks \<Rightarrow> udp_connection \<Rightarrow> bool" where
  "uc_isConnectionTimedOut t c \<longleftrightarrow> ck_wallMs t - uc_lastReceiveTime c > UDP_CONNECTION_TIMEOUT_MS"

definition uc_timeSinceLastReceive :: "clocks \<Rightarrow> udp_connection \<Rightarrow> int" where
  "uc_timeSinceLastReceive t c = ck_wallMs t - uc_lastReceiveTime c"

definition uc_packetsReordered :: "udp_connection \<Rightarrow> int" where
  "uc_packetsReordered c = (case uc_reorderBuffer c of Some b \<Rightarrow> rb_packetsReordered b | None \<Rightarrow> 0)"

definition uc_packetsRecoveredByFec :: "udp_connection \<Rightarrow> int" where
  "uc_packetsRecoveredByFec c = (case uc_fecDecoder c of Some d \<Rightarrow> fd_packetsRecoveredByFec d | None \<Rightarrow> 0)"

definition uc_sequenceGaps :: "udp_connection \<Rightarrow> int" where
  "uc_sequenceGaps c = (case uc_reorderBuffer c of Some b \<Rightarrow> rb_gapsEmitted b | None \<Rightarrow> - 1)"

definition uc_jitterMs :: "udp_connection \<Rightarrow> rat" where
  "uc_jitterMs c = (case uc_jitterEstimator c of Some j \<Rightarrow> je_jitterMs j | None \<Rightarrow> 0)"

definition uc_adaptiveBufferTargetMs :: "udp_connection \<Rightarrow> int" where
  "uc_adaptiveBufferTargetMs c = (case uc_jitterEstimator c of Some j \<Rightarrow> adaptiveBufferTargetMs j | None \<Rightarrow> - 1)"

definition uc_controlRetransmits :: "udp_connection \<Rightarrow> int" where
  "uc_controlRetransmits c = (case uc_controlReliability c of Some r \<Rightarrow> cr_controlRetransmits r | None \<Rightarrow> 0)"

definition uc_fecBlocksUnreconciled :: "udp_connection \<Rightarrow> int" where
  "uc_fecBlocksUnreconciled c = (case uc_fecDecoder c of Some d \<Rightarrow> fd_fecBlocksUnreconciled d | None \<Rightarrow> 0)"

definition uc_fecPendingPacketsDiscarded :: "udp_connection \<Rightarrow> int" where
  "uc_fecPendingPacketsDiscarded c = (case uc_fecDecoder c of Some d \<Rightarrow> fd_pendingPacketsDiscarded d | None \<Rightarrow> - 1)"

definition uc_fecPendingIdleTimeoutMs :: "udp_connection \<Rightarrow> int" where
  "uc_fecPendingIdleTimeoutMs c = (case uc_fecDecoder c of Some d \<Rightarrow> fd_pendingIdleMs d | None \<Rightarrow> - 1)"

definition uc_measuresSequenceGaps :: "udp_connection \<Rightarrow> bool" where
  "uc_measuresSequenceGaps c \<longleftrightarrow> uc_reorderBuffer c = None"

definition uc_close :: "udp_connection \<Rightarrow> udp_connection" where
  "uc_close c =
     (if uc_closed c then c
      else c\<lparr>uc_closed := True, uc_orderedQueue := pq_close (uc_orderedQueue c),
             uc_socket := (if uc_ownsSocket c then (uc_socket c)\<lparr>us_closed := True\<rparr> else uc_socket c)\<rparr>)"

section \<open>The queue keeps the bounded-queue contract\<close>

definition pq_put :: "(audio_packet \<times> provenance) list \<Rightarrow> packet_queue \<Rightarrow> packet_queue" where
  "pq_put es q = fold (\<lambda>(p, v). pq_offer p v) es q"

fun pq_take :: "nat \<Rightarrow> packet_queue \<Rightarrow> packet_queue \<times> (audio_packet \<times> provenance) list" where
  "pq_take 0 q = (q, [])"
| "pq_take (Suc n) q =
     (case pq_poll q of (q', None) \<Rightarrow> (q', []) | (q', Some e) \<Rightarrow> let (q'', es) = pq_take n q' in (q'', e # es))"

definition pq_ok :: "packet_queue \<Rightarrow> bool" where
  "pq_ok q \<longleftrightarrow> 0 < pq_maxSize q \<and> length (pq_queue q) \<le> pq_maxSize q"

lemma pq_offer_spec:
  "pq_ok q \<Longrightarrow> pq_ok (pq_offer p v q) \<and> pq_maxSize (pq_offer p v q) = pq_maxSize q \<and>
   pq_queue (pq_offer p v q) = drop (length (pq_queue q) + 1 - pq_maxSize q) (pq_queue q @ [(p, v)])"
  by (cases "pq_queue q") (auto simp: pq_ok_def pq_offer_def Let_def)

lemma pq_put_spec:
  "pq_ok q \<Longrightarrow> pq_ok (pq_put es q) \<and> pq_maxSize (pq_put es q) = pq_maxSize q \<and>
   pq_queue (pq_put es q) = drop (length (pq_queue q) + length es - pq_maxSize q) (pq_queue q @ es)"
proof (induction es arbitrary: q)
  case Nil
  then show ?case by (simp add: pq_put_def pq_ok_def)
next
  case (Cons e es)
  obtain p v where e: "e = (p, v)" by (cases e)
  let ?q = "pq_offer p v q"
  note o = pq_offer_spec [OF Cons.prems, of p v]
  have put: "pq_put (e # es) q = pq_put es ?q" by (simp add: pq_put_def e)
  have "drop (length (pq_queue ?q) + length es - pq_maxSize q) (pq_queue ?q @ es) =
      drop (length (pq_queue q) + length (e # es) - pq_maxSize q) (pq_queue q @ e # es)"
  proof (cases "length (pq_queue q) < pq_maxSize q")
    case True
    then show ?thesis using o by (simp add: e)
  next
    case False
    then have full: "length (pq_queue q) = pq_maxSize q" using Cons.prems by (simp add: pq_ok_def)
    then obtain x xs where "pq_queue q = x # xs" using Cons.prems by (cases "pq_queue q") (auto simp: pq_ok_def)
    then show ?thesis using o full by (simp add: e)
  qed
  then show ?case using Cons.IH [of ?q] o by (simp add: put)
qed

lemma pq_take_spec:
  "pq_ok q \<Longrightarrow> pq_ok (fst (pq_take n q)) \<and> pq_maxSize (fst (pq_take n q)) = pq_maxSize q \<and>
   pq_queue (fst (pq_take n q)) = drop n (pq_queue q) \<and> snd (pq_take n q) = take n (pq_queue q)"
proof (induction n arbitrary: q)
  case (Suc n)
  show ?case
  proof (cases "pq_queue q")
    case Nil
    then show ?thesis using Suc.prems by (simp add: pq_poll_def)
  next
    case (Cons e rest)
    have "pq_ok (q\<lparr>pq_queue := rest\<rparr>)" using Suc.prems Cons by (simp add: pq_ok_def)
    from Suc.IH [OF this] show ?thesis using Cons by (simp add: pq_poll_def case_prod_beta Let_def)
  qed
qed simp

interpretation ordered: bounded_fifo pq_put pq_take pq_queue pq_maxSize pq_ok "\<lambda>_. True"
  by unfold_locales (simp_all add: pq_put_spec pq_take_spec, simp add: pq_ok_def)

lemma pq_ok_mk: "pq_ok (mk_packet_queue n)"
  by (simp add: pq_ok_def mk_packet_queue_def kDefaultMaxSize_def)

section \<open>Sending audio\<close>

text \<open>An open connection whose sends succeed, and what a stretch of sends adds to the wire.\<close>

definition can_send :: "udp_connection \<Rightarrow> bool" where
  "can_send c \<longleftrightarrow> \<not> uc_closed c \<and> \<not> us_closed (uc_socket c) \<and> us_outcomes (uc_socket c) = []"

definition udp_dest :: "udp_connection \<Rightarrow> string" where
  "udp_dest c = (if uc_expectedSenderHost c = [] then uc_remoteHost c else uc_expectedSenderHost c)"

definition seqs_from :: "u32 \<Rightarrow> nat \<Rightarrow> u32 list" where
  "seqs_from s n = map (\<lambda>i. s + word_of_nat i) [0..<n]"

definition wired :: "udp_connection \<Rightarrow> udp_connection \<Rightarrow> audio_packet list \<Rightarrow> bool" where
  "wired c c' ps \<longleftrightarrow> can_send c' \<and> udp_dest c' = udp_dest c \<and> uc_remotePort c' = uc_remotePort c \<and>
     uc_maxAudioPayload c' = uc_maxAudioPayload c \<and>
     us_sent (uc_socket c') = us_sent (uc_socket c) @ map (\<lambda>p. (serialize p, udp_dest c, uc_remotePort c)) ps \<and>
     map sequence ps = seqs_from (uc_sequenceCounter c) (length ps) \<and>
     uc_sequenceCounter c' = uc_sequenceCounter c + word_of_nat (length ps) \<and>
     uc_packetsSent c' = uc_packetsSent c + int (length ps)"

lemma seqs_from_append: "seqs_from s (m + n) = seqs_from s m @ seqs_from (s + word_of_nat m) n"
proof -
  have "[0..<m + n] = [0..<m] @ map (\<lambda>i. i + m) [0..<n]"
    using upt_add_eq_append [of 0 m n] map_add_upt [of m n] by (simp add: add.commute)
  then show ?thesis by (simp add: seqs_from_def comp_def ac_simps)
qed

lemma wired_refl: "can_send c \<Longrightarrow> wired c c []"
  by (simp add: wired_def seqs_from_def)

lemma wired_trans: "wired c c' ps \<Longrightarrow> wired c' c'' qs \<Longrightarrow> wired c c'' (ps @ qs)"
  by (auto simp: wired_def seqs_from_append add.assoc)

lemma sendPacket_wired:
  assumes "can_send c" "uc_nextSequence c = (s, c1)"
  shows "\<exists>c'. uc_sendPacket t (p\<lparr>sequence := s\<rparr>) c1 = (True, c') \<and> wired c c' [p\<lparr>sequence := s\<rparr>] \<and>
    uc_fecEncoder c' = uc_fecEncoder c"
  using assms
  by (auto simp: can_send_def uc_nextSequence_def uc_sendPacket_def socket_sendTo_def wired_def udp_dest_def seqs_from_def Let_def)

lemma maybeSendFecParity_wired:
  assumes "can_send c"
  shows "\<exists>qs. wired c (maybeSendFecParity t p c) qs \<and> (\<forall>q \<in> set qs. ptype q = FecParity)"
proof (cases "uc_fecEncoder c")
  case None
  then show ?thesis using wired_refl [OF assms] by (intro exI [of _ "[]"]) (simp add: maybeSendFecParity_def)
next
  case (Some e)
  obtain e' r where rec: "recordAndMaybeEmit (ck_packetNanos t) p e = (e', r)" by (cases "recordAndMaybeEmit (ck_packetNanos t) p e")
  let ?c = "c\<lparr>uc_fecEncoder := Some e'\<rparr>"
  have ok: "can_send ?c" using assms by (simp add: can_send_def)
  have lift: "wired ?c c' qs \<Longrightarrow> wired c c' qs" for c' qs by (simp add: wired_def udp_dest_def)
  show ?thesis
  proof (cases r)
    case None
    then show ?thesis using wired_refl [OF ok] lift rec Some by (intro exI [of _ "[]"]) (simp add: maybeSendFecParity_def)
  next
    case (Some q)
    have q: "ptype q = FecParity"
      using rec Some by (auto simp: recordAndMaybeEmit_def buildParityPacket_def mk_packet_def Let_def split: if_splits)
    obtain s c1 where n: "uc_nextSequence ?c = (s, c1)" by (cases "uc_nextSequence ?c")
    from sendPacket_wired [OF ok n, of t q] obtain c' where c': "uc_sendPacket t (q\<lparr>sequence := s\<rparr>) c1 = (True, c')"
      "wired ?c c' [q\<lparr>sequence := s\<rparr>]" by blast
    then show ?thesis
      using rec Some n \<open>uc_fecEncoder c = Some e\<close> lift [OF c'(2)] q
      by (intro exI [of _ "[q\<lparr>sequence := s\<rparr>]"]) (simp add: maybeSendFecParity_def)
  qed
qed

lemma chunk_turn_wired:
  assumes "can_send c" "ty \<noteq> FecParity"
  shows "\<exists>c' ps. chunk_turn t ty chunk c = (True, c') \<and> wired c c' ps \<and>
    (\<forall>p \<in> set ps. ptype p = ty \<and> length (payload p) \<le> length chunk \<or> ptype p = FecParity) \<and>
    map payload (filter (\<lambda>p. ptype p = ty) ps) = [chunk]"
proof -
  obtain s c1 where n: "uc_nextSequence c = (s, c1)" by (cases "uc_nextSequence c")
  let ?p = "mk_packet (ck_packetNanos t) ty s chunk"
  have "?p\<lparr>sequence := s\<rparr> = ?p" by (simp add: mk_packet_def)
  with sendPacket_wired [OF assms(1) n, of t ?p] obtain c2 where c2: "uc_sendPacket t ?p c1 = (True, c2)" "wired c c2 [?p]" by auto
  have "can_send c2" using c2(2) by (simp add: wired_def)
  from maybeSendFecParity_wired [OF this, of t ?p] obtain qs
    where qs: "wired c2 (maybeSendFecParity t ?p c2) qs" "\<forall>q \<in> set qs. ptype q = FecParity" by blast
  have "filter (\<lambda>p. ptype p = ty) qs = []" using qs(2) assms(2) by (auto simp: filter_empty_conv)
  then show ?thesis
    using n c2 wired_trans [OF c2(2) qs(1)] qs(2)
    by (intro exI [of _ "maybeSendFecParity t ?p c2"] exI [of _ "[?p] @ qs"]) (auto simp: chunk_turn_def mk_packet_def)
qed

lemma chunk_loop_wired:
  assumes "can_send c" "ty \<noteq> FecParity" "0 < m"
  shows "\<exists>c' ps. chunk_loop t ty m rest c = Some (True, c') \<and> wired c c' ps \<and>
    (\<forall>p \<in> set ps. ptype p = ty \<and> length (payload p) \<le> m \<or> ptype p = FecParity) \<and>
    concat (map payload (filter (\<lambda>p. ptype p = ty) ps)) = rest \<and>
    length (filter (\<lambda>p. ptype p = ty) ps) = max 1 ((length rest + m - 1) div m)"
  using assms(1)
proof (induction "length rest" arbitrary: rest c rule: less_induct)
  case less
  let ?n = "min (length rest) m"
  from chunk_turn_wired [OF less.prems assms(2), of t "take ?n rest"] obtain c1 ps where
    t1: "chunk_turn t ty (take ?n rest) c = (True, c1)" "wired c c1 ps"
    "\<forall>p \<in> set ps. ptype p = ty \<and> length (payload p) \<le> length (take ?n rest) \<or> ptype p = FecParity"
    "map payload (filter (\<lambda>p. ptype p = ty) ps) = [take ?n rest]" by (elim exE conjE) (rule that)
  have one: "length (filter (\<lambda>p. ptype p = ty) ps) = 1" using arg_cong [OF t1(4), of length] by simp
  have cs: "can_send c1" using t1(2) by (simp add: wired_def)
  show ?case
  proof (cases "length rest \<le> m")
    case True
    have "length rest + m - 1 < 2 * m" using True assms(3) by simp
    then have "(length rest + m - 1) div m < 2" by (simp add: less_mult_imp_div_less)
    then have cnt: "max 1 ((length rest + m - 1) div m) = 1" by simp
    have "chunk_loop t ty m rest c = Some (True, c1)"
      using True t1(1) by (subst chunk_loop.simps) (simp add: min_def)
    moreover have "\<forall>p \<in> set ps. ptype p = ty \<and> length (payload p) \<le> m \<or> ptype p = FecParity"
      using t1(3) True by (auto simp: min_def)
    ultimately show ?thesis using t1(2,4) True one by (intro exI [of _ c1] exI [of _ ps]) (simp add: cnt [simplified] min_def)
  next
    case False
    then have n: "?n = m" "m < length rest" by simp_all
    have "length (drop m rest) < length rest" using n assms(3) by simp
    from less.hyps [OF this cs] obtain c2 qs where
      r: "chunk_loop t ty m (drop m rest) c1 = Some (True, c2)" "wired c1 c2 qs"
      "\<forall>p \<in> set qs. ptype p = ty \<and> length (payload p) \<le> m \<or> ptype p = FecParity"
      "concat (map payload (filter (\<lambda>p. ptype p = ty) qs)) = drop m rest"
      "length (filter (\<lambda>p. ptype p = ty) qs) = max 1 ((length (drop m rest) + m - 1) div m)"
      by (elim exE conjE) (rule that)
    have cnt: "1 + max 1 ((length (drop m rest) + m - 1) div m) = max 1 ((length rest + m - 1) div m)"
    proof -
      have "length rest + m - 1 = (length rest - 1) + m" using n(2) by simp
      then have "(length rest + m - 1) div m = (length rest - 1) div m + 1" using assms(3) by (simp only: div_add_self2)
      moreover have "1 \<le> (length rest - 1) div m" using n(2) assms(3) by (simp add: Suc_le_eq div_greater_zero_iff)
      moreover have "length (drop m rest) + m - 1 = length rest - 1" using n(2) by simp
      ultimately show ?thesis by (simp only: max_def) simp
    qed
    have "chunk_loop t ty m rest c = Some (True, c2)"
      using t1(1) n r(1) by (subst chunk_loop.simps) simp
    then show ?thesis
      using wired_trans [OF t1(2) r(2)] t1(3,4) r(3-5) n one cnt
      by (intro exI [of _ c2] exI [of _ "ps @ qs"]) auto
  qed
qed

lemma constructed_chunk_size:
  "mk_udp_connection t resolve owns sock host port cfg = Inr c \<Longrightarrow> 0 < uc_maxAudioPayload c \<and> uc_maxAudioPayload c \<le> MAX_PAYLOAD"
  by (auto simp: mk_udp_connection_def initPipeline_def udp_usable_payload_def default_udp_reliability_def MAX_PAYLOAD_def Let_def
      split: sum.splits if_splits)

section \<open>Datagrams from elsewhere\<close>

text \<open>
  The application loop on a connection that owns its socket: before each read the queue is drained
  (the calls that do not touch the socket), then one datagram outcome is read. It ends when a call
  reports the connection dead.
\<close>

definition uc_drain :: "udp_connection \<Rightarrow> (audio_packet \<times> provenance) list \<times> udp_connection" where
  "uc_drain c = (pq_queue (uc_orderedQueue c), c\<lparr>uc_orderedQueue := (uc_orderedQueue c)\<lparr>pq_queue := []\<rparr>\<rparr>)"

definition rr_packets :: "receive_result \<Rightarrow> (audio_packet \<times> provenance) list" where
  "rr_packets r = (case rr_packet r of None \<Rightarrow> [] | Some p \<Rightarrow> [(p, rr_provenance r)])"

fun uc_pump ::
  "(rat \<Rightarrow> rat) \<Rightarrow> (clocks \<times> recv_from) list \<Rightarrow> udp_connection \<Rightarrow> ((audio_packet \<times> provenance) list \<times> bool \<times> udp_connection) option" where
  "uc_pump rnd [] c = (let (out, c) = uc_drain c in Some (out, True, c))"
| "uc_pump rnd ((t, rr) # evs) c =
     (let (out, c) = uc_drain c
      in case receiveFromSocket rnd t rr c of
           None \<Rightarrow> None
         | Some (r, c) \<Rightarrow>
             if rr_closed r then Some (out, False, c)
             else case uc_pump rnd evs c of
                    None \<Rightarrow> None
                  | Some (out', alive, c) \<Rightarrow> Some (out @ rr_packets r @ out', alive, c))"

text \<open>The loop really is the receive call: draining is what repeated calls do.\<close>

fun uc_poll_calls :: "(rat \<Rightarrow> rat) \<Rightarrow> clocks \<Rightarrow> recv_from \<Rightarrow> nat \<Rightarrow> udp_connection \<Rightarrow> receive_result list \<times> udp_connection" where
  "uc_poll_calls rnd t rr 0 c = ([], c)"
| "uc_poll_calls rnd t rr (Suc n) c =
     (case receiveFromSocket rnd t rr c of
        None \<Rightarrow> ([], c)
      | Some (r, c) \<Rightarrow> let (rs, c) = uc_poll_calls rnd t rr n c in (r # rs, c))"

lemma uc_drain_calls:
  "uc_poll_calls rnd t rr (length (pq_queue (uc_orderedQueue c))) c =
     (map (\<lambda>(p, v). rr_of p v) (fst (uc_drain c)), snd (uc_drain c))"
proof (induction "pq_queue (uc_orderedQueue c)" arbitrary: c)
  case Nil
  then have "c\<lparr>uc_orderedQueue := (uc_orderedQueue c)\<lparr>pq_queue := []\<rparr>\<rparr> = c"
    by (cases c, cases "uc_orderedQueue c") simp
  with Nil show ?case by (simp add: uc_drain_def)
next
  case (Cons e es)
  obtain p v where e: "e = (p, v)" by (cases e)
  let ?c = "c\<lparr>uc_orderedQueue := (uc_orderedQueue c)\<lparr>pq_queue := es\<rparr>\<rparr>"
  have q: "pq_queue (uc_orderedQueue c) = (p, v) # es" using Cons.hyps(2) e by simp
  have "receiveFromSocket rnd t rr c = Some (rr_of p v, ?c)"
    by (simp add: receiveFromSocket_def poll_result_def pq_poll_def q Let_def)
  then show ?case using Cons.hyps(1) [of ?c] by (simp add: q uc_drain_def)
qed

definition genuine :: "string \<Rightarrow> u16 \<Rightarrow> recv_from \<Rightarrow> bool" where
  "genuine host port rr = (case rr of
     From_ok d h p truncated \<Rightarrow> \<not> truncated \<and> p = port \<and> (host = [] \<or> h = host) | _ \<Rightarrow> True)"

text \<open>No receive operation changes whom the connection listens to, or closes it.\<close>

definition same_peer :: "udp_connection \<Rightarrow> udp_connection \<Rightarrow> bool" where
  "same_peer c c' \<longleftrightarrow> uc_remotePort c' = uc_remotePort c \<and> uc_expectedSenderHost c' = uc_expectedSenderHost c \<and>
     uc_closed c' = uc_closed c"

named_theorems peer_intros \<open>operations that keep the peer\<close>

lemma same_peer_refl [peer_intros]: "same_peer c c"
  by (simp add: same_peer_def)

lemma same_peer_trans: "same_peer c c' \<Longrightarrow> same_peer c' c'' \<Longrightarrow> same_peer c c''"
  by (simp add: same_peer_def)

lemma same_peer_updates [simp]:
  "same_peer c (c'\<lparr>uc_orderedQueue := q\<rparr>) = same_peer c c'" "same_peer c (c'\<lparr>uc_fecDecoder := fd\<rparr>) = same_peer c c'"
  "same_peer c (c'\<lparr>uc_reorderBuffer := rb\<rparr>) = same_peer c c'" "same_peer c (c'\<lparr>uc_jitterEstimator := je\<rparr>) = same_peer c c'"
  "same_peer c (c'\<lparr>uc_controlReliability := cr\<rparr>) = same_peer c c'" "same_peer c (c'\<lparr>uc_sequenceCounter := s\<rparr>) = same_peer c c'"
  "same_peer (c\<lparr>uc_reorderBuffer := rb\<rparr>) c' = same_peer c c'"
  by (simp_all add: same_peer_def)

lemma same_peer_sendPacket: "same_peer c (snd (uc_sendPacket t p c))"
  by (simp add: uc_sendPacket_def same_peer_def Let_def case_prod_beta)

lemma same_peer_send_all [peer_intros]: "same_peer c (uc_send_all t ps c)"
proof (induction ps arbitrary: c)
  case (Cons p ps)
  then show ?case by (auto intro: same_peer_trans [OF same_peer_sendPacket])
qed (simp add: same_peer_refl)

lemma same_peer_handle: "handleControlReliabilityLocked t p cr c = (consumed, out, c') \<Longrightarrow> same_peer c c'"
  by (auto simp: handleControlReliabilityLocked_def uc_nextSequence_def Let_def same_peer_refl case_prod_beta
      split: option.splits if_splits)

lemma same_peer_control [peer_intros]: "same_peer c (snd (control_stage t p c))"
  using same_peer_handle same_peer_trans same_peer_send_all same_peer_refl
  by (fastforce simp: control_stage_def Let_def split: option.splits prod.splits)

lemma same_peer_jitter: "jitter_stage rnd t p c = Some c' \<Longrightarrow> same_peer c c'"
  by (auto simp: jitter_stage_def same_peer_refl split: option.splits if_splits)

lemma same_peer_fec [peer_intros]: "same_peer c (fec_feed t p c)" "same_peer c (fec_timeout t c)"
  by (auto simp: fec_feed_def fec_timeout_def same_peer_refl split: option.splits prod.splits)

lemma same_peer_emit [peer_intros]: "same_peer c (reorder_emit t e c)"
  by (auto simp: reorder_emit_def intro!: peer_intros split: option.splits)

lemma same_peer_emits: "same_peer c (fold (reorder_emit t) es c)"
proof (induction es arbitrary: c)
  case (Cons e es)
  then show ?case by (auto intro: same_peer_trans [OF same_peer_emit])
qed (simp add: same_peer_refl)

lemma same_peer_reorder [peer_intros]: "same_peer c (reorder_insert t p c)" "same_peer c (reorder_timeout t c)"
  using same_peer_emits [of "c\<lparr>uc_reorderBuffer := x\<rparr>" for x]
  by (auto simp: reorder_insert_def reorder_timeout_def same_peer_refl split: option.splits prod.splits)

lemma same_peer_track [peer_intros]: "same_peer c (trackSequence s c)"
  by (simp add: trackSequence_def same_peer_def Let_def)

lemma same_peer_poll [peer_intros]: "same_peer c (snd (poll_result c))"
  by (auto simp: poll_result_def pq_poll_def same_peer_refl split: list.splits)

lemma same_peer_receive:
  assumes "receiveFromSocket rnd t rr c = Some (r, c')"
  shows "same_peer c c'"
proof -
  have poll: "same_peer c x \<Longrightarrow> (r, c') = poll_result x \<Longrightarrow> same_peer c c'" for x
    using same_peer_trans [OF _ same_peer_poll] by (metis snd_conv)
  show ?thesis
  proof (cases "pq_queue (uc_orderedQueue c) = []")
    case False
    with assms show ?thesis by (intro poll [OF same_peer_refl]) (simp add: receiveFromSocket_def)
  next
    case True
    show ?thesis
    proof (cases rr)
      case (From_ok d h p tr)
      show ?thesis
      proof (cases "tr \<or> \<not> isExpectedSender h p c \<or> deserialize d = None")
        case True
        with assms From_ok \<open>pq_queue (uc_orderedQueue c) = []\<close> show ?thesis
          by (cases "tr \<or> \<not> isExpectedSender h p c")
            (auto simp: receiveFromSocket_def recordCrcError_def same_peer_def Let_def split: if_splits)
      next
        case False
        then obtain q where q: "deserialize d = Some q" by auto
        define c1 where "c1 = c\<lparr>uc_consecutiveCrcErrors := 0, uc_lastReceiveTime := ck_wallMs t,
          uc_packetsReceived := uc_packetsReceived c + 1, uc_bytesReceived := uc_bytesReceived c + int (length d)\<rparr>"
        obtain consumed c2 where st: "control_stage t q c1 = (consumed, c2)" by (cases "control_stage t q c1")
        have "same_peer c c1" by (simp add: c1_def same_peer_def)
        then have p2: "same_peer c c2" using same_peer_control [of c1 t q] st same_peer_trans by fastforce
        have eq: "Some (r, c') = (if consumed then Some (poll_result c2) else case jitter_stage rnd t q c2 of None \<Rightarrow> None
            | Some c \<Rightarrow> if uc_reorderBuffer c \<noteq> None then Some (poll_result (reorder_timeout t (reorder_insert t q c)))
               else if uc_fecDecoder c \<noteq> None then Some (poll_result (trackSequence (sequence q) (fec_timeout t (fec_feed t q c))))
               else if ptype q = FecParity then Some (rr_noData, c) else Some (rr_of q Live, trackSequence (sequence q) c))"
          using assms False q True st by (simp add: receiveFromSocket_def From_ok c1_def Let_def)
        show ?thesis
        proof (cases consumed)
          case True
          with eq show ?thesis by (intro poll [OF p2]) simp
        next
          case False
          with eq obtain c3 where j: "jitter_stage rnd t q c2 = Some c3" by (auto split: option.splits)
          have p3: "same_peer c c3" using same_peer_trans [OF p2 same_peer_jitter [OF j]] .
          have a: "same_peer c (reorder_timeout t (reorder_insert t q c3))"
            by (blast intro: same_peer_trans [OF p3] same_peer_trans same_peer_reorder)
          have b: "same_peer c (trackSequence (sequence q) (fec_timeout t (fec_feed t q c3)))"
            by (blast intro: same_peer_trans [OF p3] same_peer_trans same_peer_fec same_peer_track)
          have e: "same_peer c (trackSequence (sequence q) c3)"
            by (rule same_peer_trans [OF p3 same_peer_track])
          from eq False j poll [OF a] poll [OF b] e p3 show ?thesis by (auto split: if_splits)
        qed
      qed
    next
      case From_timedOut
      have "same_peer c (fec_timeout t (reorder_timeout t c))"
        by (blast intro: same_peer_trans same_peer_reorder same_peer_fec)
      from poll [OF this] From_timedOut True assms show ?thesis by (simp add: receiveFromSocket_def)
    next
      case From_failed
      with True assms show ?thesis by (simp add: receiveFromSocket_def same_peer_refl)
    qed
  qed
qed

lemma same_peer_enqueue:
  assumes "enqueueReceived rnd t p n c = Some c'"
  shows "same_peer c c'"
proof -
  define c1 where "c1 = c\<lparr>uc_lastReceiveTime := ck_wallMs t, uc_consecutiveCrcErrors := 0,
    uc_packetsReceived := uc_packetsReceived c + 1, uc_bytesReceived := uc_bytesReceived c + n\<rparr>"
  obtain consumed c2 where st: "control_stage t p c1 = (consumed, c2)" by (cases "control_stage t p c1")
  have "same_peer c c1" by (simp add: c1_def same_peer_def)
  then have p2: "same_peer c c2" using same_peer_control [of c1 t p] st same_peer_trans by fastforce
  have eq: "Some c' = (if consumed then Some c2 else case jitter_stage rnd t p c2 of None \<Rightarrow> None
      | Some c \<Rightarrow> if uc_reorderBuffer c \<noteq> None then Some (reorder_timeout t (reorder_insert t p c))
         else if uc_fecDecoder c \<noteq> None then Some (trackSequence (sequence p) (fec_timeout t (fec_feed t p c)))
         else if ptype p = FecParity then Some c
         else Some (trackSequence (sequence p) (c\<lparr>uc_orderedQueue := pq_offer p Live (uc_orderedQueue c)\<rparr>)))"
    using assms st by (simp add: enqueueReceived_def c1_def Let_def)
  show ?thesis
  proof (cases consumed)
    case False
    with eq obtain c3 where j: "jitter_stage rnd t p c2 = Some c3" by (auto split: option.splits)
    have p3: "same_peer c c3" using same_peer_trans [OF p2 same_peer_jitter [OF j]] .
    have a: "same_peer c (reorder_timeout t (reorder_insert t p c3))"
      by (blast intro: same_peer_trans [OF p3] same_peer_trans same_peer_reorder)
    have b: "same_peer c (trackSequence (sequence p) (fec_timeout t (fec_feed t p c3)))"
      by (blast intro: same_peer_trans [OF p3] same_peer_trans same_peer_fec same_peer_track)
    have "same_peer c (c3\<lparr>uc_orderedQueue := q\<rparr>)" for q using p3 by simp
    then have e: "same_peer c (trackSequence (sequence p) (c3\<lparr>uc_orderedQueue := q\<rparr>))" for q
      using same_peer_trans same_peer_track by blast
    from eq False j a b e p3 show ?thesis by (auto split: if_splits)
  qed (use eq p2 in simp)
qed

lemma drain_drained: "pq_queue (uc_orderedQueue c) = [] \<Longrightarrow> uc_drain c = ([], c)"
  by (cases c, cases "uc_orderedQueue c") (simp add: uc_drain_def)

lemma drain_facts:
  assumes "uc_drain c = (out, c1)"
  shows "pq_queue (uc_orderedQueue c1) = []" "uc_remotePort c1 = uc_remotePort c" "uc_expectedSenderHost c1 = uc_expectedSenderHost c"
  using assms by (auto simp: uc_drain_def)

lemma pump_after_drain: "uc_drain c = (out, c1) \<Longrightarrow> uc_pump rnd evs c = map_option (\<lambda>(o1, x). (out @ o1, x)) (uc_pump rnd evs c1)"
proof -
  assume d: "uc_drain c = (out, c1)"
  then have d1: "uc_drain c1 = ([], c1)" by (intro drain_drained drain_facts(1))
  show ?thesis
  proof (cases evs)
    case Nil
    then show ?thesis by (simp add: d d1)
  next
    case (Cons e rest)
    then show ?thesis by (cases e) (auto simp: d d1 split: option.splits prod.splits)
  qed
qed

lemma spoofed_receive:
  assumes "pq_queue (uc_orderedQueue c) = []" "\<not> genuine (uc_expectedSenderHost c) (uc_remotePort c) rr"
  shows "receiveFromSocket rnd t rr c = Some (rr_noData, c)"
  using assms by (auto simp: genuine_def receiveFromSocket_def isExpectedSender_def split: recv_from.splits)

lemma pump_filter:
  assumes "uc_remotePort c = port" "uc_expectedSenderHost c = host"
  shows "uc_pump rnd evs c = uc_pump rnd (filter (\<lambda>e. genuine host port (snd e)) evs) c"
  using assms
proof (induction evs arbitrary: c)
  case (Cons e evs)
  obtain t rr where e: "e = (t, rr)" by (cases e)
  obtain out c1 where d: "uc_drain c = (out, c1)" by (cases "uc_drain c")
  have c1: "uc_remotePort c1 = port" "uc_expectedSenderHost c1 = host" using drain_facts(2,3) [OF d] Cons.prems by simp_all
  show ?case
  proof (cases "genuine host port rr")
    case True
    show ?thesis
    proof (cases "receiveFromSocket rnd t rr c1")
      case (Some rc)
      obtain r c2 where rc: "rc = (r, c2)" by (cases rc)
      have "same_peer c1 c2" using same_peer_receive Some rc by blast
      then have "uc_remotePort c2 = port" "uc_expectedSenderHost c2 = host" using c1 by (simp_all add: same_peer_def)
      from Cons.IH [OF this] show ?thesis using True d Some rc by (simp add: e)
    qed (use True d in \<open>simp add: e\<close>)
  next
    case False
    then have "receiveFromSocket rnd t rr c1 = Some (rr_noData, c1)"
      using spoofed_receive [of c1 rr rnd t] drain_facts(1) [OF d] c1 by simp
    then have "uc_pump rnd (e # evs) c = map_option (\<lambda>(o1, x). (out @ o1, x)) (uc_pump rnd evs c1)"
      by (auto simp: e d rr_noData_def rr_packets_def split: option.splits prod.splits)
    also have "\<dots> = map_option (\<lambda>(o1, x). (out @ o1, x)) (uc_pump rnd (filter (\<lambda>e. genuine host port (snd e)) evs) c1)"
      using Cons.IH [OF c1] by simp
    finally show ?thesis using pump_after_drain [OF d] False by (simp add: e)
  qed
qed simp

section \<open>Chunks and parity\<close>

text \<open>A frame of more than one and at most two chunks.\<close>

lemma chunk_loop_two:
  assumes "can_send c" "ty \<noteq> FecParity" "m < length rest" "length rest \<le> 2 * m"
  shows "\<exists>c' ps. chunk_loop t ty m rest c = Some (True, c') \<and> wired c c' ps \<and>
    map payload (filter (\<lambda>p. ptype p = ty) ps) = [take m rest, drop m rest]"
proof -
  from chunk_turn_wired [OF assms(1,2), of t "take m rest"] obtain c1 ps where
    t1: "chunk_turn t ty (take m rest) c = (True, c1)" "wired c c1 ps" "map payload (filter (\<lambda>p. ptype p = ty) ps) = [take m rest]"
    by (elim exE conjE) (rule that)
  have "can_send c1" using t1(2) by (simp add: wired_def)
  from chunk_turn_wired [OF this assms(2), of t "drop m rest"] obtain c2 qs where
    t2: "chunk_turn t ty (drop m rest) c1 = (True, c2)" "wired c1 c2 qs" "map payload (filter (\<lambda>p. ptype p = ty) qs) = [drop m rest]"
    by (elim exE conjE) (rule that)
  have "chunk_loop t ty m (drop m rest) c1 = Some (True, c2)"
    using t2(1) assms(4) by (subst chunk_loop.simps) (simp add: min_absorb1)
  then have "chunk_loop t ty m rest c = Some (True, c2)"
    using t1(1) assms(3) by (subst chunk_loop.simps) (simp add: min_absorb2)
  then show ?thesis using wired_trans [OF t1(2) t2(2)] t1(3) t2(3)
    by (intro exI [of _ c2] exI [of _ "ps @ qs"]) simp
qed

text \<open>An acknowledgement of a sequence in the negative half of the counter is taken for a parse error.\<close>

lemma ack_of_high_sequence_ignored:
  assumes "sint s < 0" and "payload p = cm_serialize (cm_controlAck s)"
  shows "handleControlReliabilityLocked t p cr c = (True, [], c)"
  using assms parse_scalars(2) [of s]
  by (simp add: handleControlReliabilityLocked_def cm_deserialize_serialize)
     (simp add: cm_controlAck_def)

lemma parity_is_longer: "parity_of ps q \<Longrightarrow> length (payload q) = max_len (map payload ps) + PARITY_HEADER_SIZE"
  by (simp add: parity_of_def parity_payload_def PARITY_HEADER_SIZE_def be_bytes32_def)

text \<open>
  A parity over full-size chunks of a 16-bit stereo stream exceeds the MTU advisory that the chunk
  size was derived from.
\<close>

lemma parity_exceeds_advisory:
  assumes "parity_of ps q" and "max_len (map payload ps) = packet_udpMaxAudioPayload 4"
  shows "length (serialize q) = UDP_MAX_PAYLOAD + 4"
  using parity_is_longer [OF assms(1)] assms(2)
  by (simp add: length_serialize packetSize_def packet_udpMaxAudioPayload_def packet_consts PARITY_HEADER_SIZE_def)

section \<open>Properties\<close>

text \<open>
  C10: sending audio over UDP. On an open connection whose sends succeed, a call returns and puts
  packets on the wire to the peer, numbered consecutively: audio packets of the requested type whose
  payloads are at most the chunk size, cover the given bytes exactly and in order and decode as they
  are, as many as needed (one for an empty call), and otherwise only FEC parity.
\<close>

theorem udp_audio_chunks:
  assumes "can_send c" and "0 < uc_maxAudioPayload c" and "uc_maxAudioPayload c \<le> MAX_PAYLOAD"
  shows "\<exists>c' ps. uc_sendRxAudio t d off len c = Some (True, c') \<and> wired c c' ps \<and>
    list_all (\<lambda>p. ptype p = AudioRx \<and> length (payload p) \<le> uc_maxAudioPayload c \<and> deserialize (serialize p) = Some p \<or>
      ptype p = FecParity) ps \<and>
    concat (map payload (filter (\<lambda>p. ptype p = AudioRx) ps)) = take len (drop off d) \<and>
    length (filter (\<lambda>p. ptype p = AudioRx) ps) =
      max 1 ((length (take len (drop off d)) + uc_maxAudioPayload c - 1) div uc_maxAudioPayload c)"
proof -
  have "AudioRx \<noteq> FecParity" by simp
  from chunk_loop_wired [OF assms(1) this assms(2), of t "take len (drop off d)"] obtain c' ps where
    r: "chunk_loop t AudioRx (uc_maxAudioPayload c) (take len (drop off d)) c = Some (True, c')" "wired c c' ps"
    "\<forall>p \<in> set ps. ptype p = AudioRx \<and> length (payload p) \<le> uc_maxAudioPayload c \<or> ptype p = FecParity"
    "concat (map payload (filter (\<lambda>p. ptype p = AudioRx) ps)) = take len (drop off d)"
    "length (filter (\<lambda>p. ptype p = AudioRx) ps) =
      max 1 ((length (take len (drop off d)) + uc_maxAudioPayload c - 1) div uc_maxAudioPayload c)"
    by (elim exE conjE) (rule that)
  have "list_all (\<lambda>p. ptype p = AudioRx \<and> length (payload p) \<le> uc_maxAudioPayload c \<and> deserialize (serialize p) = Some p \<or>
      ptype p = FecParity) ps"
    using r(3) assms(3) by (fastforce simp: list_all_iff deserialize_serialize)
  with r show ?thesis unfolding uc_sendRxAudio_def sendAudioChunked_def
    by (intro exI [of _ c'] exI [of _ ps]) simp
qed

definition demo_clocks :: clocks where
  "demo_clocks = \<lparr>ck_wallMs = 1000, ck_steadyMs = 50, ck_steadyNanos = 50000000, ck_packetNanos = 7\<rparr>"

text \<open>A connection with the forward error correction of the WAN preset and chunks of \<open>n\<close> bytes.\<close>

definition demo_connection :: "int \<Rightarrow> udp_connection" where
  "demo_connection n = projr (mk_udp_connection demo_clocks (\<lambda>h. h) True \<lparr>us_closed = False, us_outcomes = [], us_sent = []\<rparr> ''10.0.0.2'' 4533
     (default_udp_reliability\<lparr>rc_fecEnabled := True, rc_maxAudioPayloadBytes := n\<rparr>))"

lemma demo_connection_facts:
  "can_send (demo_connection 1376)" "uc_maxAudioPayload (demo_connection 1376) = 1376"
  "can_send (demo_connection 2)" "uc_maxAudioPayload (demo_connection 2) = 2"
  "uc_remotePort (demo_connection 2) = 4533" "uc_expectedSenderHost (demo_connection 2) = ''10.0.0.2''"
  by (simp_all add: demo_connection_def mk_udp_connection_def initPipeline_def init_fec_def init_reorder_def init_jitter_def
      init_control_def default_udp_reliability_def mk_fec_encoder_def fec_consts mk_reorder_buffer_def size_of_int_def
      udp_usable_payload_def MAX_PAYLOAD_def can_send_def)

theorem udp_audio_chunks_witness:
  "\<exists>c' ps. uc_sendRxAudio demo_clocks [1, 2, 3] 0 3 (demo_connection 2) = Some (True, c') \<and> wired (demo_connection 2) c' ps \<and>
    concat (map payload (filter (\<lambda>p. ptype p = AudioRx) ps)) = [1, 2, 3] \<and> length (filter (\<lambda>p. ptype p = AudioRx) ps) = 2"
proof -
  have "0 < uc_maxAudioPayload (demo_connection 2)" "uc_maxAudioPayload (demo_connection 2) \<le> MAX_PAYLOAD"
    by (simp_all add: demo_connection_facts MAX_PAYLOAD_def)
  from udp_audio_chunks [OF demo_connection_facts(3) this, of demo_clocks "[1, 2, 3]" 0 3]
  show ?thesis by (elim exE conjE, intro exI conjI) (assumption | simp add: demo_connection_facts)+
qed

text \<open>
  C6: datagrams that do not come from the connection's peer, and truncated ones, cannot be told from
  datagrams that were never sent: the packets delivered, the liveness of the connection and its whole
  final state (counters, timers, sequence tracking, repair stages) are those of the run without them.
\<close>

theorem udp_spoofed_invisible:
  "uc_pump rnd evs c = uc_pump rnd (filter (\<lambda>e. genuine (uc_expectedSenderHost c) (uc_remotePort c) (snd e)) evs) c"
  by (rule pump_filter) simp_all

text \<open>
  The WAN preset cuts every 10 ms frame of the default format into chunks of 1376 and 544 bytes, so its
  FEC blocks mix payload lengths, and a lost short chunk comes back with 832 bytes of silence appended
  that the sender never sent.
\<close>

theorem udp_wan_repair_inserts_silence:
  assumes "can_send c" and "config_udpMaxAudioPayload udpWan = Some (uc_maxAudioPayload c)"
    and "bytesPerFrame udpWan = Some (int (length d))"
    and "source_block s AudioRx len (kept # lost # post)" and "map (\<lambda>p. length (payload p)) (kept # lost # post) = [1376, 544, 1376, 544, 1376]"
    and "parity_of (kept # lost # post) q" and "fec_idle s fd"
  shows "(\<exists>c' ps. uc_sendRxAudio t d 0 (length d) c = Some (True, c') \<and> wired c c' ps \<and>
      map (\<lambda>p. length (payload p)) (filter (\<lambda>p. ptype p = AudioRx) ps) = [1376, 544]) \<and>
    map (map_option payload \<circ> fst) (snd (fd_run nanos (zip [kept] [u] @ zip post [u, u, u] @ [(q, u)]) fd)) =
      Some (payload kept) # Some (payload lost @ replicate 832 0) # map (\<lambda>p. Some (payload p)) post"
proof
  have m: "uc_maxAudioPayload c = 1376" "length d = 1920"
    using assms(2,3) by (simp_all add: config_calc_defs preset_defs cdiv_def i32_ok_code packet_udpMaxAudioPayload_def packet_consts)
  have "AudioRx \<noteq> FecParity" by simp
  from chunk_loop_two [OF assms(1) this, of 1376 d t] m obtain c' ps where
    r: "chunk_loop t AudioRx 1376 d c = Some (True, c')" "wired c c' ps"
    "map payload (filter (\<lambda>p. ptype p = AudioRx) ps) = [take 1376 d, drop 1376 d]" by auto
  from arg_cong [OF r(3), of "map length"] m
  have "map (\<lambda>p. length (payload p)) (filter (\<lambda>p. ptype p = AudioRx) ps) = [1376, 544]" by (simp add: comp_def)
  with r m show "\<exists>c' ps. uc_sendRxAudio t d 0 (length d) c = Some (True, c') \<and> wired c c' ps \<and>
      map (\<lambda>p. length (payload p)) (filter (\<lambda>p. ptype p = AudioRx) ps) = [1376, 544]"
    by (auto simp: uc_sendRxAudio_def sendAudioChunked_def)
next
  have len: "len = 1376" "length (payload lost) = 544" "length post = 3"
    using assms(4,5) by (auto simp: source_block_def max_len_def numeral_3_eq_3)
  from single_loss_run [of s AudioRx len "[kept]" lost post q fd "[u]" "[u, u, u]" nanos u] assms(4,6,7) len
  show "map (map_option payload \<circ> fst) (snd (fd_run nanos (zip [kept] [u] @ zip post [u, u, u] @ [(q, u)]) fd)) =
      Some (payload kept) # Some (payload lost @ replicate 832 0) # map (\<lambda>p. Some (payload p)) post"
    by (simp add: comp_def mk_packet_def pad_to_def)
qed

definition wan_block :: "audio_packet list" where
  "wan_block = map (\<lambda>(s, n). mk_packet 0 AudioRx s (replicate n 9)) [(10, 1376), (11, 544), (12, 1376), (13, 544), (14, 1376)]"

lemma wan_block_source: "source_block 10 AudioRx 1376 wan_block"
  by (simp add: source_block_def wan_block_def consecutive_Cons mk_packet_def fd_isAudio_def fec_consts max_len_def)
     (simp add: consecutive_def)

definition wan_parity :: audio_packet where
  "wan_parity = mk_packet 0 FecParity 15 (parity_payload 10 (map payload wan_block))"

theorem udp_wan_repair_inserts_silence_witness:
  "map (map_option payload \<circ> fst) (snd (fd_run 3 (zip [wan_block ! 0] [0] @ zip (drop 2 wan_block) [0, 0, 0] @ [(wan_parity, 0)])
      ((mk_fec_decoder 60)\<lparr>fd_nextExpectedSeq := 10\<rparr>))) =
    Some (payload (wan_block ! 0)) # Some (replicate 544 9 @ replicate 832 0) # map (\<lambda>p. Some (payload p)) (drop 2 wan_block)"
proof -
  have b: "wan_block ! 0 # wan_block ! 1 # drop 2 wan_block = wan_block" by (simp add: wan_block_def)
  have p: "payload (wan_block ! 1) = replicate 544 9" by (simp add: wan_block_def mk_packet_def)
  have w: "config_udpMaxAudioPayload udpWan = Some (uc_maxAudioPayload (demo_connection 1376))"
    "bytesPerFrame udpWan = Some (int (length (replicate 1920 (0 :: u8))))"
    by (simp_all add: config_calc_defs preset_defs cdiv_def i32_ok_code packet_udpMaxAudioPayload_def packet_consts demo_connection_facts)
  have l: "map (\<lambda>p. length (payload p)) wan_block = [1376, 544, 1376, 544, 1376]"
    by (simp add: wan_block_def mk_packet_def)
  have q: "parity_of wan_block wan_parity"
    by (simp add: parity_of_def wan_parity_def) (simp add: wan_block_def mk_packet_def)
  have i: "fec_idle 10 ((mk_fec_decoder 60)\<lparr>fd_nextExpectedSeq := 10\<rparr>)"
    by (simp add: fec_idle_def mk_fec_decoder_def)
  show ?thesis
    using conjunct2 [OF udp_wan_repair_inserts_silence [OF demo_connection_facts(1) w, unfolded b,
        of 10 1376 "wan_block ! 0" "wan_block ! 1" "drop 2 wan_block" wan_parity _ _ 3 0, unfolded b p, OF wan_block_source l q i]] .
qed

end
