(* ===== verification/Discovery.thy ===== *)
theory Discovery
  imports Udp_Connection "HOL-Library.List_Lexorder" "HOL-Library.Char_ord"
begin

text \<open>
  LAN discovery (\<open>src/src/net/Discovery.cpp\<close>): the rate limiter and the reply codec that every
  answering path shares, the responder on the rendezvous port, and the prober. The facts provider's
  answer and the clock readings are arguments; the sockets are scripts of outcomes. The properties:
  a probe round finds exactly the servers that answer it; the limiter's table is bounded and spaces
  the replies as long as it is not overrun, and what a flood of forged sources does to it.
\<close>

section \<open>The limiter and the reply\<close>

record discovery_facts =
  df_enabled :: bool
  df_port :: u16
  df_transports :: u8
  df_sampleRate :: u32
  df_bitsPerSample :: u8
  df_channels :: u8
  df_clientCount :: u8
  df_maxClients :: u8
  df_name :: string

record discovery_replier =
  dr_seen :: "(string, int) omap"
  dr_seq :: u32

definition MAX_SOURCES :: nat where "MAX_SOURCES = 64"
definition MIN_INTERVAL_MS :: int where "MIN_INTERVAL_MS = 1000"

definition mk_discovery_replier :: discovery_replier where
  "mk_discovery_replier = \<lparr>dr_seen = [], dr_seq = 0\<rparr>"

text \<open>The eviction scan: the first of the entries with the least time.\<close>

definition oldest_source :: "(string, int) omap \<Rightarrow> string" where
  "oldest_source m = fst (fold (\<lambda>i oldest. if snd i < snd oldest then i else oldest) m (hd m))"

definition dr_allow :: "string \<Rightarrow> int \<Rightarrow> discovery_replier \<Rightarrow> bool \<times> discovery_replier" where
  "dr_allow addrKey nowMs r =
     (case omap_get (dr_seen r) addrKey of
        Some prev \<Rightarrow>
          if nowMs - prev < MIN_INTERVAL_MS then (False, r)
          else (True, r\<lparr>dr_seen := omap_put addrKey nowMs (dr_seen r)\<rparr>)
      | None \<Rightarrow>
          let seen = (if length (dr_seen r) \<ge> MAX_SOURCES then omap_del (oldest_source (dr_seen r)) (dr_seen r) else dr_seen r)
          in (True, r\<lparr>dr_seen := omap_put addrKey nowMs seen\<rparr>))"

definition reply_message :: "u32 \<Rightarrow> discovery_facts \<Rightarrow> control_message" where
  "reply_message token f = discoverReply token (df_port f) (df_transports f) (df_sampleRate f) (df_bitsPerSample f)
     (df_channels f) (df_clientCount f) (df_maxClients f) (df_name f)"

definition dr_buildReply :: "u64 \<Rightarrow> u32 \<Rightarrow> discovery_facts \<Rightarrow> discovery_replier \<Rightarrow> bytes \<times> discovery_replier" where
  "dr_buildReply nanos token f r =
     (serialize (mk_packet nanos Control (dr_seq r) (cm_serialize (reply_message token f))), r\<lparr>dr_seq := dr_seq r + 1\<rparr>)"

definition endpoint_key :: "string \<Rightarrow> u16 \<Rightarrow> string" where
  "endpoint_key host port = host @ '':'' @ to_string (unat port)"

text \<open>The token of a datagram that is a well-formed DISCOVER.\<close>

definition discover_token_of :: "audio_packet option \<Rightarrow> u32 option" where
  "discover_token_of p =
     (case p of
        None \<Rightarrow> None
      | Some p \<Rightarrow>
          if ptype p \<noteq> Control then None
          else case cm_deserialize (payload p) of
                 None \<Rightarrow> None
               | Some m \<Rightarrow> if messageType m \<noteq> Discover then None else parseDiscoverToken m)"

section \<open>The responder\<close>

record discovery_responder =
  dp_socket :: udp_socket
  dp_running :: bool
  dp_replier :: discovery_replier

text \<open>\<open>start\<close> with the outcome of the bind.\<close>

definition dp_start :: "bool \<Rightarrow> string + udp_socket \<Rightarrow> discovery_responder \<Rightarrow> string + discovery_responder" where
  "dp_start hasProvider bound r =
     (if dp_running r then Inl ''Discovery responder already running''
      else if \<not> hasProvider then Inl ''Discovery responder needs a facts provider''
      else case bound of
             Inl err \<Rightarrow> Inl err
           | Inr s \<Rightarrow> Inr (r\<lparr>dp_socket := s, dp_running := True\<rparr>))"

definition dp_stop :: "discovery_responder \<Rightarrow> discovery_responder" where
  "dp_stop r =
     (if \<not> dp_running r then r
      else r\<lparr>dp_running := False, dp_socket := (dp_socket r)\<lparr>us_closed := True\<rparr>\<rparr>)"

text \<open>One turn of the responder's loop.\<close>

definition responder_turn :: "u64 \<Rightarrow> int \<Rightarrow> discovery_facts \<Rightarrow> recv_from \<Rightarrow> discovery_responder \<Rightarrow> discovery_responder" where
  "responder_turn nanos nowMs facts rr r =
     (case rr of
        From_ok d host port truncated \<Rightarrow>
          (case discover_token_of (deserialize d) of
             None \<Rightarrow> r
           | Some token \<Rightarrow>
               if \<not> df_enabled facts then r
               else let (ok, rp) = dr_allow (endpoint_key host port) nowMs (dp_replier r)
                    in if \<not> ok then r\<lparr>dp_replier := rp\<rparr>
                       else let (bs, rp) = dr_buildReply nanos token facts rp
                            in r\<lparr>dp_replier := rp, dp_socket := snd (socket_sendTo bs host port (dp_socket r))\<rparr>)
      | _ \<Rightarrow> r)"

section \<open>The prober\<close>

record discovery_options =
  do_address :: string
  do_port :: u16
  do_timeoutMs :: int
  do_maxServers :: nat
  do_bindHost :: string

definition default_discovery_options :: discovery_options where
  "default_discovery_options = \<lparr>do_address = ''255.255.255.255'', do_port = 4533, do_timeoutMs = 1000,
     do_maxServers = 64, do_bindHost = []\<rparr>"

text \<open>The probe datagram, and what one received datagram contributes.\<close>

definition probe_bytes :: "u64 \<Rightarrow> u32 \<Rightarrow> bytes" where
  "probe_bytes nanos token = serialize (createControl nanos 0 (cm_serialize (discover token)))"

definition reply_of :: "u32 \<Rightarrow> string \<Rightarrow> bytes \<Rightarrow> discovery_info option" where
  "reply_of token host d =
     (case deserialize d of
        None \<Rightarrow> None
      | Some p \<Rightarrow>
          if ptype p \<noteq> Control then None
          else case cm_deserialize (payload p) of
                 None \<Rightarrow> None
               | Some m \<Rightarrow>
                   case parseDiscoverReply m of
                     None \<Rightarrow> None
                   | Some info \<Rightarrow> if di_token info \<noteq> token then None else Some (info\<lparr>di_host := host\<rparr>))"

definition info_key :: "discovery_info \<Rightarrow> string" where
  "info_key i = endpoint_key (di_host i) (di_port i)"

text \<open>
  The collection loop over the readings of the clock and the outcomes of the receives; when the
  script ends the receive times out.
\<close>

fun collect_replies ::
  "nat \<Rightarrow> u32 \<Rightarrow> int \<Rightarrow> (int \<times> recv_from) list \<Rightarrow> string list \<Rightarrow> discovery_info list \<Rightarrow> discovery_info list" where
  "collect_replies maxServers token deadline [] seen found = found"
| "collect_replies maxServers token deadline ((now, rr) # evs) seen found =
     (if length found \<ge> maxServers then found
      else if deadline - now \<le> 0 then found
      else case rr of
             From_ok d host port truncated \<Rightarrow>
               (case reply_of token host d of
                  None \<Rightarrow> collect_replies maxServers token deadline evs seen found
                | Some info \<Rightarrow>
                    if info_key info \<in> set seen then collect_replies maxServers token deadline evs seen found
                    else collect_replies maxServers token deadline evs (oset_insert (info_key info) seen) (found @ [info]))
           | _ \<Rightarrow> found)"

text \<open>
  \<open>discoverServers\<close>: the probe socket (or the error text of the bind), whether broadcast could be enabled,
  the token drawn, the clock before the loop; the servers found, the error text and the socket.
\<close>

definition discoverServers ::
  "discovery_options \<Rightarrow> string + udp_socket \<Rightarrow> bool \<Rightarrow> u64 \<Rightarrow> u32 \<Rightarrow> int \<Rightarrow> (int \<times> recv_from) list \<Rightarrow>
    discovery_info list \<times> string option \<times> udp_socket option" where
  "discoverServers opts sock broadcast nanos token nowMs evs =
     (if do_maxServers opts = 0 then ([], None, None)
      else case sock of
             Inl err \<Rightarrow> ([], Some err, None)
           | Inr s \<Rightarrow>
               if \<not> broadcast then ([], Some ''could not enable broadcast on the probe socket (SO_BROADCAST)'', Some s)
               else let (ok, s) = socket_sendTo (probe_bytes nanos token) (do_address opts) (do_port opts) s
                    in if \<not> ok then ([], Some (''could not send the DISCOVER probe to '' @ do_address opts), Some s)
                       else (collect_replies (do_maxServers opts) token (nowMs + (if do_timeoutMs opts < 0 then 0 else do_timeoutMs opts))
                               evs [] [], None, Some s))"

section \<open>The limiter's table\<close>

fun dr_run :: "(string \<times> int) list \<Rightarrow> discovery_replier \<Rightarrow> bool list \<times> discovery_replier" where
  "dr_run [] r = ([], r)"
| "dr_run ((k, t) # ps) r = (let (ok, r) = dr_allow k t r; (oks, r) = dr_run ps r in (ok # oks, r))"

definition dr_ok :: "discovery_replier \<Rightarrow> bool" where
  "dr_ok r \<longleftrightarrow> omap_ok (dr_seen r) \<and> length (dr_seen r) \<le> MAX_SOURCES"

lemma fold_least:
  assumes "m \<noteq> []"
  shows "fold (\<lambda>i oldest. if snd i < snd oldest then i else oldest) m (hd m) \<in> set m \<and>
    (\<forall>e \<in> set m. snd (fold (\<lambda>i oldest. if snd i < snd oldest then i else oldest) m (hd m)) \<le> (snd e :: int))"
proof -
  have "fold (\<lambda>i oldest. if snd i < snd oldest then i else oldest) m e0 \<in> insert e0 (set m) \<and>
    (\<forall>e \<in> insert e0 (set m). snd (fold (\<lambda>i oldest. if snd i < snd oldest then i else oldest) m e0) \<le> (snd e :: int))"
    for e0 :: "'a \<times> int"
  proof (induction m arbitrary: e0)
    case (Cons a m)
    from Cons [of "if snd a < snd e0 then a else e0"] show ?case by (cases "snd a < snd e0") auto
  qed simp
  from this [of "hd m"] show ?thesis using assms by (auto simp: insert_absorb)
qed

lemma oldest_source_in: "m \<noteq> [] \<Longrightarrow> oldest_source m \<in> fst ` set m"
  using fold_least [of m] by (auto simp: oldest_source_def)

lemma oldest_source_least:
  assumes "m \<noteq> []" "omap_ok m" "omap_get m (oldest_source m) = Some v" "omap_get m k = Some v'"
  shows "v \<le> v'"
proof -
  let ?e = "fold (\<lambda>i oldest. if snd i < snd oldest then i else oldest) m (hd m)"
  have e: "?e \<in> set m" "\<forall>e \<in> set m. snd ?e \<le> snd e" using fold_least [OF assms(1)] by blast+
  have "omap_get m (fst ?e) = Some (snd ?e)"
    using map_of_is_SomeI [OF omap_ok_distinct [OF assms(2)], of "fst ?e" "snd ?e"] e(1) by (simp del: fold_simps)
  then have "v = snd ?e" using assms(3) by (simp add: oldest_source_def)
  with e(2) map_of_SomeD [OF assms(4)] show ?thesis by fastforce
qed

lemma dr_allow_ok: "dr_ok r \<Longrightarrow> dr_ok (snd (dr_allow k t r))"
proof -
  assume r: "dr_ok r"
  show ?thesis
  proof (cases "omap_get (dr_seen r) k")
    case None
    let ?m = "if length (dr_seen r) \<ge> MAX_SOURCES then omap_del (oldest_source (dr_seen r)) (dr_seen r) else dr_seen r"
    have "length ?m < MAX_SOURCES"
      using r omap_del_length_less [OF oldest_source_in, of "dr_seen r"] by (cases "dr_seen r") (auto simp: dr_ok_def MAX_SOURCES_def)
    then have "length (omap_put k t ?m) \<le> MAX_SOURCES" using length_omap_put [of k t ?m] by linarith
    then show ?thesis using r None by (auto simp: dr_ok_def dr_allow_def Let_def omap_ok_put omap_ok_del)
  next
    case (Some p)
    then show ?thesis using r omap_get_Some_in [OF Some]
      by (simp add: dr_ok_def dr_allow_def omap_ok_put length_omap_put_old)
  qed
qed

lemma dr_run_ok: "dr_ok r \<Longrightarrow> dr_ok (snd (dr_run ps r))"
proof (induction ps arbitrary: r)
  case (Cons e ps)
  obtain k t where e: "e = (k, t)" by (cases e)
  have "dr_ok (snd (dr_allow k t r))" using Cons.prems by (rule dr_allow_ok)
  from Cons.IH [OF this] show ?case by (simp add: e case_prod_beta)
qed simp

lemma dr_fresh_ok: "dr_ok mk_discovery_replier"
  by (simp add: dr_ok_def mk_discovery_replier_def)

lemma length_dr_run [simp]: "length (fst (dr_run ps r)) = length ps"
  by (induction ps arbitrary: r) (auto simp: case_prod_beta)

text \<open>As long as the table has room for every source, an entry is kept until its own source is answered again.\<close>

lemma dr_allow_keeps:
  assumes "dr_ok r" and "card (insert k (fst ` set (dr_seen r))) \<le> MAX_SOURCES" and "k' \<noteq> k"
  shows "omap_get (dr_seen (snd (dr_allow k t r))) k' = omap_get (dr_seen r) k'"
    and "fst ` set (dr_seen (snd (dr_allow k t r))) = insert k (fst ` set (dr_seen r))"
proof -
  have len: "card (fst ` set (dr_seen r)) = length (dr_seen r)"
    using omap_ok_distinct [of "dr_seen r"] assms(1) distinct_card [of "map fst (dr_seen r)"] by (simp add: dr_ok_def)
  have room: "length (dr_seen r) < MAX_SOURCES" if "omap_get (dr_seen r) k = None"
    using assms(2) that len by (simp add: omap_get_None)
  show "omap_get (dr_seen (snd (dr_allow k t r))) k' = omap_get (dr_seen r) k'"
    "fst ` set (dr_seen (snd (dr_allow k t r))) = insert k (fst ` set (dr_seen r))"
    using room assms(3) by (auto simp: dr_allow_def Let_def omap_simps dest: omap_get_Some_in split: option.splits)
qed

lemma dr_later_answer:
  assumes "dr_ok r" and "card (fst ` set (dr_seen r) \<union> fst ` set ps) \<le> MAX_SOURCES"
    and "omap_get (dr_seen r) k = Some t0" and "sorted (t0 # map snd ps)"
    and "j < length ps" and "fst (ps ! j) = k" and "fst (dr_run ps r) ! j"
  shows "MIN_INTERVAL_MS \<le> snd (ps ! j) - t0"
  using assms
proof (induction ps arbitrary: r t0 j)
  case (Cons e ps)
  obtain k' t' where e: "e = (k', t')" by (cases e)
  let ?r = "snd (dr_allow k' t' r)"
  have c: "card (insert k' (fst ` set (dr_seen r))) \<le> MAX_SOURCES"
    by (rule le_trans [OF card_mono Cons.prems(2)]) (auto simp: e)
  show ?case
  proof (cases j)
    case 0
    then show ?thesis using Cons.prems(3,6,7) by (auto simp: e dr_allow_def case_prod_beta split: if_splits)
  next
    case (Suc j')
    have keys: "fst ` set (dr_seen ?r) \<union> fst ` set ps \<subseteq> fst ` set (dr_seen r) \<union> fst ` set (e # ps)"
      using dr_allow_keeps(2) [OF Cons.prems(1) c, of "k' @ ''x''" t'] by (auto simp: e)
    then have card: "card (fst ` set (dr_seen ?r) \<union> fst ` set ps) \<le> MAX_SOURCES"
      by (intro le_trans [OF card_mono Cons.prems(2)]) auto
    have ans: "fst (dr_run ps ?r) ! j'" using Cons.prems(7) Suc by (simp add: e case_prod_beta)
    obtain t1 where t1: "omap_get (dr_seen ?r) k = Some t1" "t0 \<le> t1" "sorted (t1 # map snd ps)"
    proof (cases "k' = k")
      case True
      then show ?thesis using Cons.prems(3,4) that [of t0] that [of t']
        by (cases "t' - t0 < MIN_INTERVAL_MS") (auto simp: e dr_allow_def omap_simps)
    next
      case False
      then show ?thesis using dr_allow_keeps(1) [OF Cons.prems(1) c, of k t'] Cons.prems(3,4) that [of t0]
        by (auto simp: e)
    qed
    from Cons.IH [OF dr_allow_ok [OF Cons.prems(1)] card t1(1,3) _ _ ans] Cons.prems(5,6) Suc t1(2)
    show ?thesis by simp
  qed
qed simp

lemma dr_run_append:
  "dr_run (ps @ qs) r = (let (o1, r) = dr_run ps r; (o2, r) = dr_run qs r in (o1 @ o2, r))"
  by (induction ps arbitrary: r) (auto simp: case_prod_beta Let_def)

lemma dr_run_keys:
  assumes "dr_ok r" and "card (fst ` set (dr_seen r) \<union> fst ` set ps) \<le> MAX_SOURCES"
  shows "fst ` set (dr_seen (snd (dr_run ps r))) = fst ` set (dr_seen r) \<union> fst ` set ps"
  using assms
proof (induction ps arbitrary: r)
  case (Cons e ps)
  obtain k t where e: "e = (k, t)" by (cases e)
  have c: "card (insert k (fst ` set (dr_seen r))) \<le> MAX_SOURCES"
    by (rule le_trans [OF card_mono Cons.prems(2)]) (auto simp: e)
  have keys: "fst ` set (dr_seen (snd (dr_allow k t r))) = insert k (fst ` set (dr_seen r))"
    using dr_allow_keeps(2) [OF Cons.prems(1) c, of "k @ ''x''" t] by simp
  from Cons.IH [OF dr_allow_ok [OF Cons.prems(1)], of k t] Cons.prems(2) keys
  show ?case by (simp add: e case_prod_beta insert_commute)
qed simp

text \<open>One probe each from new sources, all one millisecond after the entry of \<open>k\<close>.\<close>

definition flooded :: "string \<Rightarrow> int \<Rightarrow> string list \<Rightarrow> discovery_replier \<Rightarrow> bool" where
  "flooded k t xs r \<longleftrightarrow> omap_ok (dr_seen r) \<and>
     (\<forall>x. omap_get (dr_seen r) x = (if x = k then Some t else if x \<in> set xs then Some (t + 1) else None))"

lemma flooded_length:
  assumes "flooded k t xs r" "distinct xs" "k \<notin> set xs"
  shows "length (dr_seen r) = Suc (length xs)"
proof -
  have "x \<in> fst ` set (dr_seen r) \<longleftrightarrow> x \<in> insert k (set xs)" for x
    using assms(1) omap_get_None [of "dr_seen r" x] by (cases "x = k"; cases "x \<in> set xs") (simp_all add: flooded_def)
  then have "fst ` set (dr_seen r) = insert k (set xs)" by blast
  moreover have "length (dr_seen r) = card (fst ` set (dr_seen r))"
    using omap_ok_distinct [of "dr_seen r"] assms(1) distinct_card [of "map fst (dr_seen r)"] by (simp add: flooded_def)
  ultimately show ?thesis using assms(2,3) by (simp add: distinct_card)
qed

lemma flood_step:
  assumes "flooded k t xs r" "distinct (xs @ [x])" "k \<notin> set (xs @ [x])" "Suc (length xs) < MAX_SOURCES"
  shows "fst (dr_allow x (t + 1) r) \<and> flooded k t (xs @ [x]) (snd (dr_allow x (t + 1) r))"
proof -
  have "length (dr_seen r) < MAX_SOURCES" using flooded_length [OF assms(1)] assms(2,3,4) by simp
  moreover have "omap_get (dr_seen r) x = None" using assms(1-3) by (auto simp: flooded_def)
  ultimately show ?thesis using assms(1,3) by (auto simp: flooded_def dr_allow_def Let_def omap_get_put_eq omap_ok_put)
qed

lemma flood_run:
  assumes "flooded k t xs r" "distinct (xs @ ys)" "k \<notin> set (xs @ ys)" "length xs + length ys < MAX_SOURCES"
  shows "fst (dr_run (map (\<lambda>x. (x, t + 1)) ys) r) = replicate (length ys) True \<and>
    flooded k t (xs @ ys) (snd (dr_run (map (\<lambda>x. (x, t + 1)) ys) r))"
  using assms
proof (induction ys arbitrary: xs r)
  case (Cons y ys)
  have s: "fst (dr_allow y (t + 1) r)" "flooded k t (xs @ [y]) (snd (dr_allow y (t + 1) r))"
    using flood_step [OF Cons.prems(1), of y] Cons.prems(2-4) by auto
  have "distinct ((xs @ [y]) @ ys)" "k \<notin> set ((xs @ [y]) @ ys)" "length (xs @ [y]) + length ys < MAX_SOURCES"
    using Cons.prems(2-4) by simp_all
  from Cons.IH [OF s(2) this] s(1) show ?case by (simp add: case_prod_beta)
qed simp

lemma flood_evicts:
  assumes "flooded k t xs r" "distinct (xs @ [x])" "k \<notin> set (xs @ [x])" "Suc (length xs) = MAX_SOURCES"
  shows "fst (dr_allow x (t + 1) r) \<and> omap_get (dr_seen (snd (dr_allow x (t + 1) r))) k = None"
proof -
  let ?m = "dr_seen r"
  have len: "length ?m = MAX_SOURCES" using flooded_length [OF assms(1)] assms(2,3,4) by simp
  then have ne: "?m \<noteq> []" by (auto simp: MAX_SOURCES_def)
  have ok: "omap_ok ?m" and get: "\<And>z. omap_get ?m z = (if z = k then Some t else if z \<in> set xs then Some (t + 1) else None)"
    using assms(1) by (simp_all add: flooded_def)
  obtain v where v: "omap_get ?m (oldest_source ?m) = Some v"
    using oldest_source_in [OF ne] by (metis omap_get_None option.exhaust)
  have "v \<le> t" using oldest_source_least [OF ne ok v, of k t] get by simp
  then have "oldest_source ?m = k" using v get by (auto split: if_splits)
  moreover have "omap_get ?m x = None" "x \<noteq> k" using get assms(2,3) by auto
  ultimately show ?thesis using len by (simp add: dr_allow_def Let_def omap_get_put_eq omap_get_del)
qed

section \<open>Probe and reply\<close>

lemma length_reply: "length (cm_serialize (reply_message token f)) \<le> MAX_PAYLOAD"
  by (simp add: cm_serialize_def reply_message_def discoverReply_def put_defs Let_def MAX_PAYLOAD_def be_bytes32_def
      be_bytes16_def str_bytes_def)

definition info_of :: "u32 \<Rightarrow> string \<Rightarrow> discovery_facts \<Rightarrow> discovery_info" where
  "info_of token host f = \<lparr>di_token = token, di_port = df_port f, di_transports = df_transports f,
     di_sampleRate = df_sampleRate f, di_bitsPerSample = df_bitsPerSample f, di_channels = df_channels f,
     di_clientCount = df_clientCount f, di_maxClients = df_maxClients f, di_name = take 255 (df_name f), di_host = host\<rparr>"

lemma reply_of_buildReply: "reply_of token host (fst (dr_buildReply nanos token f r)) = Some (info_of token host f)"
  using length_reply [of token f]
  by (simp add: reply_of_def dr_buildReply_def deserialize_serialize mk_packet_def cm_deserialize_serialize)
     (simp add: reply_message_def parse_discover_reply info_of_def)

lemma probe_token: "discover_token_of (deserialize (probe_bytes nanos token)) = Some token"
proof -
  have "length (cm_serialize (discover token)) \<le> MAX_PAYLOAD"
    by (simp add: cm_serialize_def discover_def putU32_def putI32_def be_bytes32_def MAX_PAYLOAD_def)
  then show ?thesis
    by (simp add: discover_token_of_def probe_bytes_def deserialize_serialize createControl_def mk_packet_def
        cm_deserialize_serialize parse_scalars(3)) (simp add: discover_def)
qed

text \<open>A responder whose socket works and that has not answered this source recently.\<close>

definition will_answer :: "string \<Rightarrow> discovery_facts \<Rightarrow> discovery_responder \<Rightarrow> bool" where
  "will_answer key f r \<longleftrightarrow> df_enabled f \<and> \<not> us_closed (dp_socket r) \<and> us_outcomes (dp_socket r) = [] \<and>
     omap_get (dr_seen (dp_replier r)) key = None"

definition answer_to :: "u64 \<Rightarrow> int \<Rightarrow> discovery_facts \<Rightarrow> recv_from \<Rightarrow> discovery_responder \<Rightarrow> bytes \<times> string \<times> u16" where
  "answer_to nanos nowMs f rr r = last (us_sent (dp_socket (responder_turn nanos nowMs f rr r)))"

lemma responder_answers:
  assumes "will_answer (endpoint_key host port) f r"
  shows "\<exists>rp. answer_to nanos nowMs f (From_ok (probe_bytes n token) host port tr) r = (fst (dr_buildReply nanos token f rp), host, port)"
proof -
  obtain rp where "dr_allow (endpoint_key host port) nowMs (dp_replier r) = (True, rp)"
    using assms by (simp add: will_answer_def dr_allow_def Let_def)
  then have "responder_turn nanos nowMs f (From_ok (probe_bytes n token) host port tr) r =
      r\<lparr>dp_replier := snd (dr_buildReply nanos token f rp),
        dp_socket := snd (socket_sendTo (fst (dr_buildReply nanos token f rp)) host port (dp_socket r))\<rparr>"
    using assms by (simp add: responder_turn_def probe_token will_answer_def case_prod_beta)
  then show ?thesis using assms by (auto simp: answer_to_def will_answer_def socket_sendTo_def Let_def)
qed

section \<open>Datagrams that do not answer a probe\<close>

text \<open>
  Stated on the bytes, without the parser of the reply: not a valid packet, not a control message, not a DISCOVER_REPLY, or one
  that does not begin with the four bytes of the token.
\<close>

definition foreign :: "u32 \<Rightarrow> recv_from \<Rightarrow> bool" where
  "foreign token rr =
     (case rr of
        From_ok d host port tr \<Rightarrow>
          (case deserialize d of
             None \<Rightarrow> True
           | Some p \<Rightarrow> ptype p \<noteq> Control \<or>
               (case cm_deserialize (payload p) of
                  None \<Rightarrow> True
                | Some m \<Rightarrow> messageType m \<noteq> DiscoverReply \<or> take 4 (cm_data m) \<noteq> be_bytes32 token))
      | _ \<Rightarrow> True)"

lemma leading_word: "4 \<le> length d \<Longrightarrow> take 4 d = be_bytes32 (fst (getI32 (mk_reader d)))"
proof -
  assume "4 \<le> length d"
  then have len: "length (take 4 d) = 4" by simp
  define w :: u32 where "w = be_fold 0 (take 4 d)"
  have b: "be_bytes32 w = take 4 d" using bytes_of_be_fold [of "take 4 d" "0 :: u32"] len by (simp add: be_bytes32_alt w_def)
  have "d = be_bytes32 w @ drop 4 d" by (simp add: b)
  then have "fst (getI32 (mk_reader d)) = w" using getI32_at [of "[]" w "drop 4 d" False] by (metis mk_reader_at fst_conv)
  then show ?thesis by (simp add: b)
qed

lemma parsed_token:
  assumes "parseDiscoverReply m = Some info"
  shows "messageType m = DiscoverReply \<and> take 4 (cm_data m) = be_bytes32 (di_token info)"
proof -
  have "messageType m = DiscoverReply" "4 \<le> length (cm_data m)" "di_token info = fst (getI32 (mk_reader (cm_data m)))"
    using assms by (auto simp: parseDiscoverReply_def Let_def split: if_splits prod.splits)
  then show ?thesis using leading_word by simp
qed

lemma foreign_ignored: "foreign token (From_ok d host port tr) \<Longrightarrow> reply_of token host d = None"
  by (auto simp: foreign_def reply_of_def dest: parsed_token split: option.splits)

section \<open>The collection\<close>

text \<open>What a datagram contributes to the round, and the round without its timing.\<close>

definition contribution :: "u32 \<Rightarrow> recv_from \<Rightarrow> discovery_info option" where
  "contribution token rr = (case rr of From_ok d host port tr \<Rightarrow> reply_of token host d | _ \<Rightarrow> None)"

definition is_datagram :: "recv_from \<Rightarrow> bool" where
  "is_datagram rr = (case rr of From_ok d host port tr \<Rightarrow> True | _ \<Rightarrow> False)"

lemma collect_distinct:
  assumes "list_all (\<lambda>(now, rr). now < deadline \<and> is_datagram rr) evs"
    and "List.map_filter (contribution token) (map snd evs) = infos"
    and "distinct (map info_key infos)" and "set (map info_key infos) \<inter> set seen = {}"
    and "length found + length infos \<le> maxServers"
  shows "collect_replies maxServers token deadline evs seen found = found @ infos"
  using assms
proof (induction evs arbitrary: seen found infos)
  case (Cons e evs)
  obtain now rr where e: "e = (now, rr)" by (cases e)
  from Cons.prems(1) obtain d host port tr where rr: "rr = From_ok d host port tr" and t: "now < deadline"
    by (cases rr) (simp_all add: e is_datagram_def)
  have evs: "list_all (\<lambda>(now, rr). now < deadline \<and> is_datagram rr) evs" using Cons.prems(1) by simp
  show ?case
  proof (cases "reply_of token host d")
    case None
    then have "List.map_filter (contribution token) (map snd evs) = infos"
      using Cons.prems(2) by (simp add: e rr map_filter_simps) (simp add: contribution_def)
    from Cons.IH [OF evs this Cons.prems(3-5)] None t Cons.prems(5) show ?thesis
      by (cases infos) (auto simp: e rr)
  next
    case (Some info)
    define infos' where i2: "infos' = List.map_filter (contribution token) (map snd evs)"
    have i: "infos = info # infos'" "List.map_filter (contribution token) (map snd evs) = infos'"
      using Cons.prems(2) Some contribution_def [of token rr] unfolding i2 by (auto simp: e rr map_filter_simps)
    have "collect_replies maxServers token deadline evs (oset_insert (info_key info) seen) (found @ [info]) = (found @ [info]) @ infos'"
      by (rule Cons.IH [OF evs i(2)]) (use Cons.prems(3-5) i(1) in \<open>auto simp: set_oset_insert\<close>)
    with Some t Cons.prems(4,5) i(1) show ?thesis by (simp add: e rr)
  qed
qed (simp add: map_filter_simps)

lemma collect_bounded: "length found \<le> maxServers \<Longrightarrow> length (collect_replies maxServers token deadline evs seen found) \<le> maxServers"
  by (induction maxServers token deadline evs seen found rule: collect_replies.induct) (auto split: recv_from.splits option.splits)

text \<open>Whatever arrives, the servers found answered this probe and have different endpoints.\<close>

lemma collect_genuine:
  assumes "distinct (map info_key found)" "set (map info_key found) \<subseteq> set seen"
    and "\<forall>i \<in> set found. di_token i = token"
  shows "distinct (map info_key (collect_replies maxServers token deadline evs seen found)) \<and>
    (\<forall>i \<in> set (collect_replies maxServers token deadline evs seen found). di_token i = token)"
  using assms
proof (induction maxServers token deadline evs seen found rule: collect_replies.induct)
  case (2 maxServers token deadline now rr evs seen found)
  show ?case
  proof (cases "length found \<ge> maxServers \<or> deadline - now \<le> 0 \<or> \<not> is_datagram rr")
    case True
    then show ?thesis using "2.prems" by (cases rr) (auto simp: is_datagram_def)
  next
    case False
    then obtain d host port tr where rr: "rr = From_ok d host port tr" by (cases rr) (auto simp: is_datagram_def)
    have tok: "di_token info = token" if "reply_of token host d = Some info" for info
      using that by (auto simp: reply_of_def split: option.splits if_splits)
    show ?thesis
    proof (cases "reply_of token host d")
      case None
      then show ?thesis using "2.IH"(1) [OF _ _ rr None] "2.prems" False by (simp add: rr)
    next
      case (Some info)
      show ?thesis
      proof (cases "info_key info \<in> set seen")
        case True
        then show ?thesis using "2.IH"(2) [OF _ _ rr Some True] "2.prems" False Some by (simp add: rr)
      next
        case new: False
        have "set (map info_key (found @ [info])) \<subseteq> set (oset_insert (info_key info) seen)"
          "distinct (map info_key (found @ [info]))" "\<forall>i \<in> set (found @ [info]). di_token i = token"
          using "2.prems" new tok [OF Some] by (auto simp: set_oset_insert)
        then show ?thesis using "2.IH"(3) [OF _ _ rr Some new] False Some new by (simp add: rr)
      qed
    qed
  qed
qed simp

section \<open>Properties\<close>

text \<open>
  C15: one probe round. Servers that hear the probe, are discoverable, can send and have not answered
  this source recently are found by the prober: with different endpoints and within the limit on
  servers, whatever other datagrams arrive in between, malformed ones, other messages or replies to other probes, the result is the list of the servers that
  answered, in order of arrival, each with the source address of its reply and the facts it
  published (the name cut to 255 bytes). A foreign datagram is one whose bytes are not a DISCOVER_REPLY with the token of this probe.
\<close>

theorem discovery_finds_servers:
  assumes "list_all (\<lambda>(h, f, r). will_answer (endpoint_key chost cport) f r) srvs"
    and "distinct (map (\<lambda>(h, f, r). endpoint_key h (df_port f)) srvs)"
    and "0 < do_maxServers opts" and "length srvs \<le> do_maxServers opts"
    and "list_all (\<lambda>(now, rr). now < t0 + do_timeoutMs opts \<and> is_datagram rr) evs" and "0 \<le> do_timeoutMs opts"
    and "filter (\<lambda>rr. \<not> foreign token rr) (map snd evs) =
      map (\<lambda>(h, f, r). From_ok (fst (answer_to nanos nowMs f (From_ok (probe_bytes n token) chost cport False) r)) h sport False) srvs"
    and "\<not> us_closed s" and "us_outcomes s = []"
  shows "discoverServers opts (Inr s) True n token t0 evs =
    (map (\<lambda>(h, f, r). info_of token h f) srvs, None,
     Some (s\<lparr>us_sent := us_sent s @ [(probe_bytes n token, do_address opts, do_port opts)]\<rparr>))"
proof -
  let ?rr = "\<lambda>(h, f, r). From_ok (fst (answer_to nanos nowMs f (From_ok (probe_bytes n token) chost cport False) r)) h sport False"
  have c: "contribution token (?rr x) = Some ((\<lambda>(h, f, r). info_of token h f) x)" if "x \<in> set srvs" for x
  proof -
    obtain h f r where x: "x = (h, f, r)" by (cases x)
    with that assms(1) have "will_answer (endpoint_key chost cport) f r" by (auto simp: list_all_iff)
    from responder_answers [OF this, of nanos nowMs n token False] show ?thesis
      by (auto simp: x contribution_def reply_of_buildReply)
  qed
  have "contribution token rr \<noteq> None \<longleftrightarrow> \<not> foreign token rr" if "rr \<in> set (map snd evs)" for rr
  proof
    assume "contribution token rr \<noteq> None"
    then show "\<not> foreign token rr" using foreign_ignored by (cases rr) (auto simp: contribution_def)
  next
    assume "\<not> foreign token rr"
    with that have "rr \<in> set (filter (\<lambda>rr. \<not> foreign token rr) (map snd evs))" by simp
    then obtain x where "x \<in> set srvs" "rr = ?rr x" unfolding assms(7) by auto
    then show "contribution token rr \<noteq> None" using c by simp
  qed
  then have "filter (\<lambda>rr. contribution token rr \<noteq> None) (map snd evs) = filter (\<lambda>rr. \<not> foreign token rr) (map snd evs)"
    by (intro filter_cong refl)
  then have "List.map_filter (contribution token) (map snd evs) =
      map (the \<circ> contribution token) (filter (\<lambda>rr. \<not> foreign token rr) (map snd evs))"
    by (simp add: List.map_filter_def)
  also have "\<dots> = map (\<lambda>(h, f, r). info_of token h f) srvs" using c unfolding assms(7) by simp
  finally have infos: "List.map_filter (contribution token) (map snd evs) = map (\<lambda>(h, f, r). info_of token h f) srvs" .
  have keys: "map info_key (map (\<lambda>(h, f, r). info_of token h f) srvs) = map (\<lambda>(h, f, r). endpoint_key h (df_port f)) srvs"
    by (auto simp: info_key_def info_of_def)
  have "collect_replies (do_maxServers opts) token (t0 + do_timeoutMs opts) evs [] [] = [] @ map (\<lambda>(h, f, r). info_of token h f) srvs"
    by (rule collect_distinct [OF assms(5) infos]) (use assms(2,4) keys in \<open>simp_all del: map_map\<close>)
  moreover have "socket_sendTo (probe_bytes n token) (do_address opts) (do_port opts) s =
      (True, s\<lparr>us_sent := us_sent s @ [(probe_bytes n token, do_address opts, do_port opts)]\<rparr>)"
    using assms(8,9) by (cases s) (simp add: socket_sendTo_def)
  ultimately show ?thesis using assms(3,6) by (simp add: discoverServers_def)
qed

definition demo_facts :: discovery_facts where
  "demo_facts = \<lparr>df_enabled = True, df_port = 45411, df_transports = 1, df_sampleRate = 48000, df_bitsPerSample = 16,
     df_channels = 2, df_clientCount = 1, df_maxClients = 4, df_name = ''shack''\<rparr>"

definition demo_responder :: discovery_responder where
  "demo_responder = \<lparr>dp_socket = \<lparr>us_closed = False, us_outcomes = [], us_sent = []\<rparr>, dp_running = True,
     dp_replier = mk_discovery_replier\<rparr>"

text \<open>A round in which garbage and a reply to somebody else's probe arrive before the reply to this one.\<close>

definition demo_other_reply :: bytes where
  "demo_other_reply = fst (dr_buildReply 6 78 demo_facts mk_discovery_replier)"

lemma built_reply_foreign: "foreign token (From_ok (fst (dr_buildReply nanos token' f rp)) host port tr) \<longleftrightarrow> be_bytes32 token' \<noteq> be_bytes32 token"
proof -
  have "cm_deserialize (cm_serialize (reply_message token' f)) = Some (reply_message token' f)" by (rule cm_deserialize_serialize)
  moreover have "take 4 (cm_data (reply_message token' f)) = be_bytes32 token'" "messageType (reply_message token' f) = DiscoverReply"
    by (simp_all add: reply_message_def discoverReply_def put_defs Let_def)
  ultimately show ?thesis using length_reply [of token' f]
    by (simp add: foreign_def dr_buildReply_def deserialize_serialize mk_packet_def)
qed

theorem discovery_finds_servers_witness:
  "fst (discoverServers default_discovery_options (Inr \<lparr>us_closed = False, us_outcomes = [], us_sent = []\<rparr>) True 5 77 100
     [(110, From_ok [1, 2, 3] ''10.0.0.9'' 9 False), (115, From_ok demo_other_reply ''10.0.0.3'' 4533 False),
      (120, From_ok (fst (answer_to 6 50 demo_facts (From_ok (probe_bytes 5 77) ''10.0.0.1'' 999 False) demo_responder)) ''10.0.0.2'' 4533 False)])
   = [info_of 77 ''10.0.0.2'' demo_facts]"
proof -
  let ?a = "fst (answer_to 6 50 demo_facts (From_ok (probe_bytes 5 77) ''10.0.0.1'' 999 False) demo_responder)"
  have w: "will_answer (endpoint_key ''10.0.0.1'' 999) demo_facts demo_responder"
    by (simp add: will_answer_def demo_facts_def demo_responder_def mk_discovery_replier_def)
  from responder_answers [OF this, of 6 50 5 77 False]
  have c: "\<not> foreign 77 (From_ok ?a ''10.0.0.2'' 4533 False)" by (auto simp: built_reply_foreign)
  have j: "foreign 77 (From_ok [1, 2, 3] ''10.0.0.9'' 9 False)" by (simp add: foreign_def deserialize_def packet_consts)
  have "be_bytes32 78 \<noteq> be_bytes32 77" by (simp add: be_bytes32_def)
  then have k: "foreign 77 (From_ok demo_other_reply ''10.0.0.3'' 4533 False)" by (simp add: demo_other_reply_def built_reply_foreign)
  show ?thesis
    using discovery_finds_servers [of "''10.0.0.1''" 999 "[(''10.0.0.2'', demo_facts, demo_responder)]" default_discovery_options 100
        "[(110, From_ok [1, 2, 3] ''10.0.0.9'' 9 False), (115, From_ok demo_other_reply ''10.0.0.3'' 4533 False), (120, From_ok ?a ''10.0.0.2'' 4533 False)]" 77 6 50 5 4533
        "\<lparr>us_closed = False, us_outcomes = [], us_sent = []\<rparr>"] w c j k
    by (simp add: default_discovery_options_def is_datagram_def)
qed

text \<open>
  The reply limiter. Whatever probes arrive, its table never exceeds 64 sources; and as long as at
  most 64 sources probe, under a clock that does not go back, two answers to the same source are at
  least 1000 ms apart.
\<close>

theorem discovery_replies_spaced:
  assumes "card (fst ` set ps) \<le> MAX_SOURCES" and "sorted (map snd ps)"
    and "i < j" and "j < length ps" and "fst (ps ! i) = fst (ps ! j)"
    and "fst (dr_run ps mk_discovery_replier) ! i" and "fst (dr_run ps mk_discovery_replier) ! j"
  shows "length (dr_seen (snd (dr_run ps mk_discovery_replier))) \<le> MAX_SOURCES \<and> MIN_INTERVAL_MS \<le> snd (ps ! j) - snd (ps ! i)"
proof
  show "length (dr_seen (snd (dr_run ps mk_discovery_replier))) \<le> MAX_SOURCES"
    using dr_run_ok [OF dr_fresh_ok, of ps] by (simp add: dr_ok_def)
  let ?pre = "take i ps" and ?post = "drop (Suc i) ps"
  obtain k t where kt: "ps ! i = (k, t)" by (cases "ps ! i")
  define r where "r = snd (dr_run ?pre mk_discovery_replier)"
  have i: "i < length ps" using assms(3,4) by simp
  have ps: "ps = ?pre @ (k, t) # ?post" using id_take_nth_drop [OF i] kt by simp
  have ok: "dr_ok r" unfolding r_def by (rule dr_run_ok [OF dr_fresh_ok])
  have run: "dr_run ps mk_discovery_replier = (fst (dr_run ?pre mk_discovery_replier) @ fst (dr_allow k t r) # fst (dr_run ?post (snd (dr_allow k t r))),
      snd (dr_run ?post (snd (dr_allow k t r))))"
    by (subst ps, subst dr_run_append) (simp add: r_def case_prod_beta)
  have ans: "fst (dr_allow k t r)" "fst (dr_run ?post (snd (dr_allow k t r))) ! (j - Suc i)"
    using assms(3,6,7) i unfolding run by (simp_all add: nth_append min_absorb2 nth_Cons')
  have "insert k (fst ` set ?pre) \<union> fst ` set ?post = fst ` set (?pre @ (k, t) # ?post)" by auto
  then have set: "insert k (fst ` set ?pre) \<union> fst ` set ?post = fst ` set ps" unfolding ps [symmetric] .
  have "fst ` set (dr_seen r) = fst ` set ?pre"
    unfolding r_def
  proof (subst dr_run_keys [OF dr_fresh_ok])
    show "card (fst ` set (dr_seen mk_discovery_replier) \<union> fst ` set ?pre) \<le> MAX_SOURCES"
      by (rule le_trans [OF card_mono assms(1)]) (use set in \<open>auto simp: mk_discovery_replier_def\<close>)
  qed (simp add: mk_discovery_replier_def)
  moreover have "card (insert k (fst ` set ?pre)) \<le> MAX_SOURCES"
    by (rule le_trans [OF card_mono assms(1)]) (use set in auto)
  ultimately have keys: "fst ` set (dr_seen (snd (dr_allow k t r))) = insert k (fst ` set ?pre)"
    using dr_allow_keeps(2) [OF ok, of k "k @ ''x''" t] by simp
  have get: "omap_get (dr_seen (snd (dr_allow k t r))) k = Some t"
    using ans(1) by (auto simp: dr_allow_def Let_def omap_get_put_eq split: option.splits if_splits)
  have "sorted (map snd (?pre @ (k, t) # ?post))" using assms(2) ps by simp
  then have "sorted (t # map snd ?post)" by (simp add: sorted_append)
  moreover have "j - Suc i < length ?post" "fst (?post ! (j - Suc i)) = k" using assms(3-5) kt by simp_all
  ultimately have "MIN_INTERVAL_MS \<le> snd (?post ! (j - Suc i)) - t"
    using dr_later_answer [OF dr_allow_ok [OF ok] _ get, of ?post "j - Suc i"] keys set assms(1) ans(2) by simp
  then show "MIN_INTERVAL_MS \<le> snd (ps ! j) - snd (ps ! i)" using assms(3,4) kt by simp
qed

theorem discovery_replies_spaced_witness:
  "length (dr_seen (snd (dr_run [(''a'', 0), (''a'', 1500)] mk_discovery_replier))) \<le> MAX_SOURCES \<and> MIN_INTERVAL_MS \<le> (1500 :: int) - 0"
  using discovery_replies_spaced [of "[(''a'', 0), (''a'', 1500)]" 0 1]
  by (simp add: mk_discovery_replier_def dr_allow_def MAX_SOURCES_def MIN_INTERVAL_MS_def)

text \<open>
  A flood of forged source addresses defeats the limiter. A source that has been answered is
  answered again two milliseconds later if 64 other sources probe in between: its entry is the
  oldest and is evicted long before it has aged out.
\<close>

theorem discovery_flood_defeats_limit:
  assumes "distinct ks" and "length ks = MAX_SOURCES" and "k \<notin> set ks"
  shows "fst (dr_run ((k, t) # map (\<lambda>x. (x, t + 1)) ks @ [(k, t + 2)]) mk_discovery_replier) = replicate 66 True"
proof -
  obtain ys z where ks: "ks = ys @ [z]" using assms(2) by (cases ks rule: rev_cases) (auto simp: MAX_SOURCES_def)
  define r0 where "r0 = snd (dr_allow k t mk_discovery_replier)"
  have a0: "dr_allow k t mk_discovery_replier = (True, r0)" and f0: "flooded k t [] r0"
    by (simp_all add: r0_def dr_allow_def mk_discovery_replier_def flooded_def MAX_SOURCES_def omap_ok_Cons)
  obtain o1 r1 where r1: "dr_run (map (\<lambda>x. (x, t + 1)) ys) r0 = (o1, r1)" by (cases "dr_run (map (\<lambda>x. (x, t + 1)) ys) r0")
  have f1: "o1 = replicate 63 True" "flooded k t ys r1"
    using flood_run [OF f0, of ys] assms ks r1 by (simp_all add: MAX_SOURCES_def)
  obtain b r2 where r2: "dr_allow z (t + 1) r1 = (b, r2)" by (cases "dr_allow z (t + 1) r1")
  have f2: "b" "omap_get (dr_seen r2) k = None"
    using flood_evicts [OF f1(2), of z] assms ks r2 by (simp_all add: MAX_SOURCES_def)
  have "fst (dr_allow k (t + 2) r2)" using f2(2) by (simp add: dr_allow_def Let_def)
  then show ?thesis using a0 f1(1) f2(1) r2 r1
    by (simp add: ks dr_run_append case_prod_beta replicate_append_same [symmetric] numeral_eq_Suc)
qed

theorem discovery_flood_defeats_limit_witness:
  "fst (dr_run ((''victim'', 0) # map (\<lambda>x. (x, 0 + 1)) (map to_string [0..<64]) @ [(''victim'', 0 + 2)]) mk_discovery_replier) =
    replicate 66 True"
proof -
  have "distinct (map to_string [0..<64])" by (auto simp: distinct_map inj_on_def dest: to_string_inject)
  moreover have "''victim'' \<notin> set (map to_string [0..<64])"
  proof
    assume "''victim'' \<in> set (map to_string [0..<64])"
    then obtain n where n: "to_string n = ''victim''" by auto
    have "CHR ''v'' \<notin> set (to_string n)" for n
    proof (induction n rule: to_string.induct)
      case (1 n)
      have "digit m \<noteq> CHR ''v''" if "m < 10" for m using of_char_digit [OF that] that by auto
      then show ?case using 1 by (subst to_string.simps) (auto simp: eq_commute)
    qed
    then show False using n by (metis list.set_intros(1))
  qed
  ultimately show ?thesis
    by (intro discovery_flood_defeats_limit) (simp_all add: MAX_SOURCES_def)
qed

end
