(* ===== verification/Udp_Server.thy ===== *)
theory Udp_Server
  imports Discovery
begin

text \<open>
  The UDP server transport (\<open>src/src/net/UdpServerTransport.cpp\<close>): one socket for all clients, a demux
  that routes datagrams by source address, admits a new client only on a CONNECT_REQUEST and answers
  discovery probes without creating anything, the bounded registry of connections waiting to be
  accepted, and the removal of clients. The connections are shared objects: they live in a store and
  the tables hold references into it, so that what one table closes every holder sees closed. The
  calls of the demux thread, of the accept thread and of the sessions interleave as steps; the
  routing invariant is proved for every reachable state, and the isolation of the clients for every
  run of the demux.
\<close>

section \<open>State\<close>

record client_address =
  ca_id :: string
  ca_host :: "string option"
  ca_port :: u16

definition hasEndpoint :: "client_address \<Rightarrow> bool" where
  "hasEndpoint a \<longleftrightarrow> ca_host a \<noteq> None"

record pending_entry =
  pe_conn :: nat
  pe_since :: int

record udp_server =
  sv_cfg :: udp_reliability_config
  sv_socket :: udp_socket
  sv_bound :: bool
  sv_running :: bool
  sv_clientIdCounter :: nat
  sv_byAddress :: "(string, nat) omap"
  sv_byId :: "(string, nat) omap"
  sv_pending :: "pending_entry list"
  sv_replier :: discovery_replier
  sv_store :: "(client_address \<times> udp_connection) list"

definition MAX_PENDING_CONNECTIONS :: nat where "MAX_PENDING_CONNECTIONS = 8"
definition PENDING_TTL_MS :: int where "PENDING_TTL_MS = 10000"

definition mk_udp_server :: "udp_reliability_config \<Rightarrow> udp_socket \<Rightarrow> udp_server" where
  "mk_udp_server cfg s = \<lparr>sv_cfg = cfg, sv_socket = s, sv_bound = False, sv_running = False, sv_clientIdCounter = 1,
     sv_byAddress = [], sv_byId = [], sv_pending = [], sv_replier = mk_discovery_replier, sv_store = []\<rparr>"

definition sv_bind :: "string + udp_socket \<Rightarrow> udp_server \<Rightarrow> string + udp_server" where
  "sv_bind bound sv =
     (if sv_bound sv then Inl ''Already bound''
      else case bound of
             Inl err \<Rightarrow> Inl err
           | Inr s \<Rightarrow> Inr (sv\<lparr>sv_socket := s, sv_bound := True, sv_running := True\<rparr>))"

definition sv_isBound :: "udp_server \<Rightarrow> bool" where
  "sv_isBound sv \<longleftrightarrow> sv_bound sv \<and> \<not> us_closed (sv_socket sv)"

text \<open>The shared object behind a reference.\<close>

definition sv_conn :: "udp_server \<Rightarrow> nat \<Rightarrow> udp_connection" where "sv_conn sv r = snd (sv_store sv ! r)"
definition sv_addr :: "udp_server \<Rightarrow> nat \<Rightarrow> client_address" where "sv_addr sv r = fst (sv_store sv ! r)"

definition sv_update :: "nat \<Rightarrow> udp_connection \<Rightarrow> udp_server \<Rightarrow> udp_server" where
  "sv_update r c sv = sv\<lparr>sv_store := (sv_store sv)[r := (sv_addr sv r, c)]\<rparr>"

definition sv_key :: "client_address \<Rightarrow> string" where
  "sv_key a = (case ca_host a of Some h \<Rightarrow> endpoint_key h (ca_port a) | None \<Rightarrow> [])"

section \<open>The demux\<close>

definition isConnectRequest :: "audio_packet option \<Rightarrow> bool" where
  "isConnectRequest p =
     (case p of
        None \<Rightarrow> False
      | Some p \<Rightarrow>
          ptype p = Control \<and>
          (case cm_deserialize (payload p) of None \<Rightarrow> False | Some m \<Rightarrow> messageType m = ConnectRequest))"

text \<open>\<open>facts\<close> is the provider's answer, \<open>None\<close> when no provider is installed.\<close>

definition sendDiscoveryReply ::
  "clocks \<Rightarrow> discovery_facts option \<Rightarrow> u32 \<Rightarrow> string \<Rightarrow> u16 \<Rightarrow> string \<Rightarrow> udp_server \<Rightarrow> udp_server" where
  "sendDiscoveryReply t facts token host port addrKey sv =
     (case facts of
        None \<Rightarrow> sv
      | Some f \<Rightarrow>
          if \<not> df_enabled f then sv
          else let (ok, rp) = dr_allow addrKey (ck_wallMs t) (sv_replier sv)
               in if \<not> ok then sv\<lparr>sv_replier := rp\<rparr>
                  else let (bs, rp) = dr_buildReply (ck_packetNanos t) token f rp
                       in sv\<lparr>sv_replier := rp, sv_socket := snd (socket_sendTo bs host port (sv_socket sv))\<rparr>)"

fun expire_loop :: "int \<Rightarrow> pending_entry list \<Rightarrow> udp_server \<Rightarrow> pending_entry list \<times> udp_server" where
  "expire_loop now [] sv = ([], sv)"
| "expire_loop now (e # es) sv =
     (let r = pe_conn e
      in if now - pe_since e > PENDING_TTL_MS \<or> uc_closed (sv_conn sv r)
         then expire_loop now es
                (sv_update r (uc_close (sv_conn sv r))
                  (sv\<lparr>sv_byId := omap_del (ca_id (sv_addr sv r)) (sv_byId sv),
                      sv_byAddress := omap_del (sv_key (sv_addr sv r)) (sv_byAddress sv)\<rparr>))
         else let (kept, sv) = expire_loop now es sv in (e # kept, sv))"

definition expireStaleLocked :: "int \<Rightarrow> udp_server \<Rightarrow> udp_server" where
  "expireStaleLocked now sv = (let (kept, sv) = expire_loop now (sv_pending sv) sv in sv\<lparr>sv_pending := kept\<rparr>)"

text \<open>
  \<open>resolve\<close> is \<open>Socket::resolveHostV4\<close>. The constructor of the connection may throw; nothing on the
  demux thread catches it.
\<close>

datatype demux_fault = Uncaught cpp_exn | Signed_overflow

definition tryCreateConnectionLocked ::
  "(string \<Rightarrow> string) \<Rightarrow> clocks \<Rightarrow> string \<Rightarrow> u16 \<Rightarrow> string \<Rightarrow> udp_server \<Rightarrow> demux_fault + nat option \<times> udp_server" where
  "tryCreateConnectionLocked resolve t host port addrKey sv =
     (let sv = (if length (sv_pending sv) \<ge> MAX_PENDING_CONNECTIONS then expireStaleLocked (ck_wallMs t) sv else sv)
      in if length (sv_pending sv) \<ge> MAX_PENDING_CONNECTIONS then Inr (None, sv)
         else let i = ''udp-'' @ to_string (sv_clientIdCounter sv);
                  sv = sv\<lparr>sv_clientIdCounter := sv_clientIdCounter sv + 1\<rparr>
              in case mk_udp_connection t resolve False (sv_socket sv) host port (sv_cfg sv) of
                   Inl e \<Rightarrow> Inl (Uncaught e)
                 | Inr c \<Rightarrow>
                     let r = length (sv_store sv)
                     in Inr (Some r, sv\<lparr>sv_store := sv_store sv @ [(\<lparr>ca_id = i, ca_host = Some host, ca_port = port\<rparr>, c)],
                          sv_byAddress := omap_put addrKey r (sv_byAddress sv), sv_byId := omap_put i r (sv_byId sv),
                          sv_pending := sv_pending sv @ [\<lparr>pe_conn = r, pe_since = ck_wallMs t\<rparr>]\<rparr>))"

text \<open>The section under the routing lock: the connection the datagram belongs to.\<close>

definition demux_route ::
  "(string \<Rightarrow> string) \<Rightarrow> clocks \<Rightarrow> string \<Rightarrow> u16 \<Rightarrow> audio_packet option \<Rightarrow> udp_server \<Rightarrow> demux_fault + nat option \<times> udp_server" where
  "demux_route resolve t host port packet sv =
     (let key = endpoint_key host port; conn = omap_get (sv_byAddress sv) key;
          stale = (case conn of None \<Rightarrow> False | Some r \<Rightarrow> uc_closed (sv_conn sv r));
          sv = (if stale then sv\<lparr>sv_byId := omap_del (ca_id (sv_addr sv (the conn))) (sv_byId sv),
                                 sv_byAddress := omap_del key (sv_byAddress sv)\<rparr> else sv);
          conn = (if stale then None else conn)
      in case conn of
           Some r \<Rightarrow> Inr (Some r, sv)
         | None \<Rightarrow> if isConnectRequest packet then tryCreateConnectionLocked resolve t host port key sv else Inr (None, sv))"

text \<open>What the connection does with its datagram, after the lock is released.\<close>

definition conn_feed :: "(rat \<Rightarrow> rat) \<Rightarrow> clocks \<Rightarrow> bytes \<Rightarrow> udp_connection \<Rightarrow> udp_connection option" where
  "conn_feed rnd t d c =
     (case deserialize d of
        Some p \<Rightarrow> enqueueReceived rnd t p (int (length d)) c
      | None \<Rightarrow> Some (recordCrcError c))"

definition demux_turn ::
  "(string \<Rightarrow> string) \<Rightarrow> (rat \<Rightarrow> rat) \<Rightarrow> clocks \<Rightarrow> discovery_facts option \<Rightarrow> recv_from \<Rightarrow> udp_server \<Rightarrow> demux_fault + udp_server" where
  "demux_turn resolve rnd t facts rr sv =
     (case rr of
        From_ok d host port truncated \<Rightarrow>
          (case discover_token_of (deserialize d) of
             Some token \<Rightarrow> Inr (sendDiscoveryReply t facts token host port (endpoint_key host port) sv)
           | None \<Rightarrow>
               (case demux_route resolve t host port (deserialize d) sv of
                  Inl e \<Rightarrow> Inl e
                | Inr (None, sv) \<Rightarrow> Inr sv
                | Inr (Some r, sv) \<Rightarrow>
                    (case conn_feed rnd t d (sv_conn sv r) of
                       None \<Rightarrow> Inl Signed_overflow
                     | Some c \<Rightarrow> Inr (sv_update r c sv))))
      | _ \<Rightarrow> Inr sv)"

section \<open>Accepting, disconnecting, closing, statistics\<close>

datatype accept_result = Accepted nat | Accept_timedOut | Accept_error

fun accept_pop :: "udp_server \<Rightarrow> pending_entry list \<Rightarrow> nat option \<times> pending_entry list" where
  "accept_pop sv [] = (None, [])"
| "accept_pop sv (e # es) = (if \<not> uc_closed (sv_conn sv (pe_conn e)) then (Some (pe_conn e), es) else accept_pop sv es)"

text \<open>\<open>acceptClient\<close> after its wait: the demux turns that run during the wait are separate steps.\<close>

definition acceptClient :: "udp_server \<Rightarrow> accept_result \<times> udp_server" where
  "acceptClient sv =
     (if \<not> sv_isBound sv then (Accept_error, sv)
      else if sv_pending sv = [] \<and> sv_running sv then (Accept_timedOut, sv)
      else if \<not> sv_running sv then (Accept_error, sv)
      else let (r, rest) = accept_pop sv (sv_pending sv); sv = sv\<lparr>sv_pending := rest\<rparr>
           in (case r of Some r \<Rightarrow> Accepted r | None \<Rightarrow> Accept_timedOut, sv))"

definition close_conn :: "nat \<Rightarrow> udp_server \<Rightarrow> udp_server" where
  "close_conn r sv = sv_update r (uc_close (sv_conn sv r)) sv"

text \<open>
  \<open>disconnectClient\<close> and \<open>close\<close> take connections out of the tables under the lock and close them after they have released it: the
  part under the lock, which gives the connections to close, and the whole call when no other thread comes between.
\<close>

definition disconnect_unroute :: "string \<Rightarrow> udp_server \<Rightarrow> nat option \<times> udp_server" where
  "disconnect_unroute i sv =
     (case omap_get (sv_byId sv) i of
        None \<Rightarrow> (None, sv)
      | Some removed \<Rightarrow>
          let sv = sv\<lparr>sv_byId := omap_del i (sv_byId sv)\<rparr>
          in (Some removed,
              if hasEndpoint (sv_addr sv removed)
              then sv\<lparr>sv_byAddress := omap_del (sv_key (sv_addr sv removed)) (sv_byAddress sv)\<rparr> else sv))"

definition disconnectClient :: "nat \<Rightarrow> udp_server \<Rightarrow> udp_server" where
  "disconnectClient r sv = (case disconnect_unroute (ca_id (sv_addr sv r)) sv of (None, sv) \<Rightarrow> sv | (Some removed, sv) \<Rightarrow> close_conn removed sv)"

definition close_flags :: "udp_server \<Rightarrow> udp_server" where
  "close_flags sv = sv\<lparr>sv_running := False, sv_bound := False\<rparr>"

definition close_drain :: "udp_server \<Rightarrow> nat list \<times> udp_server" where
  "close_drain sv = (map snd (sv_byId sv), sv\<lparr>sv_byId := [], sv_byAddress := [], sv_pending := []\<rparr>)"

definition close_socket :: "udp_server \<Rightarrow> udp_server" where
  "close_socket sv = sv\<lparr>sv_socket := (sv_socket sv)\<lparr>us_closed := True\<rparr>\<rparr>"

definition sv_close :: "udp_server \<Rightarrow> udp_server" where
  "sv_close sv = (let (drained, sv) = close_drain (close_flags sv) in close_socket (fold close_conn drained sv))"

definition sv_sum :: "(udp_connection \<Rightarrow> int) \<Rightarrow> udp_server \<Rightarrow> int" where
  "sv_sum f sv = sum_list (map (\<lambda>(i, r). f (sv_conn sv r)) (sv_byId sv))"

definition sv_packetsSent :: "udp_server \<Rightarrow> int" where "sv_packetsSent = sv_sum uc_packetsSent"
definition sv_packetsReceived :: "udp_server \<Rightarrow> int" where "sv_packetsReceived = sv_sum uc_packetsReceived"
definition sv_bytesSent :: "udp_server \<Rightarrow> int" where "sv_bytesSent = sv_sum uc_bytesSent"
definition sv_bytesReceived :: "udp_server \<Rightarrow> int" where "sv_bytesReceived = sv_sum uc_bytesReceived"
definition sv_crcErrors :: "udp_server \<Rightarrow> int" where "sv_crcErrors = sv_sum uc_crcErrors"
definition sv_controlRetransmits :: "udp_server \<Rightarrow> int" where "sv_controlRetransmits = sv_sum uc_controlRetransmits"
definition sv_orderedQueueDrops :: "udp_server \<Rightarrow> int" where "sv_orderedQueueDrops = sv_sum (\<lambda>c. pq_drops (uc_orderedQueue c))"

section \<open>The routing invariant\<close>

text \<open>
  Relative to the connections \<open>X\<close> that a thread has taken out of the tables and is about to close, and to the entries \<open>ps\<close> that wait to be
  accepted: every reference in a table points to an object
  that is routed by its own identity and its own endpoint, every open connection is routed or about to be closed, and the
  waiting connections are open, distinct and at most eight.
\<close>

definition conn_id :: "nat \<Rightarrow> string" where
  "conn_id r = ''udp-'' @ to_string (Suc r)"

definition routed :: "nat set \<Rightarrow> udp_server \<Rightarrow> pending_entry list \<Rightarrow> bool" where
  "routed X sv ps \<longleftrightarrow> omap_ok (sv_byAddress sv) \<and> omap_ok (sv_byId sv) \<and>
     sv_clientIdCounter sv = Suc (length (sv_store sv)) \<and> X \<subseteq> {..<length (sv_store sv)} \<and>
     (\<forall>r < length (sv_store sv). ca_id (sv_addr sv r) = conn_id r \<and> hasEndpoint (sv_addr sv r)) \<and>
     (\<forall>i r. omap_get (sv_byId sv) i = Some r \<longrightarrow>
        r < length (sv_store sv) \<and> i = conn_id r \<and> omap_get (sv_byAddress sv) (sv_key (sv_addr sv r)) = Some r) \<and>
     (\<forall>k r. omap_get (sv_byAddress sv) k = Some r \<longrightarrow>
        r < length (sv_store sv) \<and> sv_key (sv_addr sv r) = k \<and> omap_get (sv_byId sv) (conn_id r) = Some r) \<and>
     (\<forall>r < length (sv_store sv). \<not> uc_closed (sv_conn sv r) \<longrightarrow> r \<in> X \<or> omap_get (sv_byId sv) (conn_id r) = Some r) \<and>
     distinct (map pe_conn ps) \<and>
     (\<forall>e \<in> set ps. pe_conn e < length (sv_store sv) \<and> pe_conn e \<notin> X \<and> \<not> uc_closed (sv_conn sv (pe_conn e)))"

definition sv_inv :: "nat set \<Rightarrow> udp_server \<Rightarrow> bool" where
  "sv_inv X sv \<longleftrightarrow> routed X sv (sv_pending sv) \<and> length (sv_pending sv) \<le> MAX_PENDING_CONNECTIONS"

text \<open>No close is under way.\<close>

abbreviation sv_ok :: "udp_server \<Rightarrow> bool" where "sv_ok \<equiv> sv_inv {}"

lemma conn_id_inject [simp]: "conn_id r = conn_id r' \<longleftrightarrow> r = r'"
  by (auto simp: conn_id_def dest: to_string_inject)

lemma sv_update_fields [simp]:
  "sv_byAddress (sv_update r c sv) = sv_byAddress sv" "sv_byId (sv_update r c sv) = sv_byId sv"
  "sv_pending (sv_update r c sv) = sv_pending sv" "sv_clientIdCounter (sv_update r c sv) = sv_clientIdCounter sv"
  "length (sv_store (sv_update r c sv)) = length (sv_store sv)" "sv_cfg (sv_update r c sv) = sv_cfg sv"
  "sv_running (sv_update r c sv) = sv_running sv"
  by (simp_all add: sv_update_def)

lemma sv_update_get [simp]:
  "r < length (sv_store sv) \<Longrightarrow> sv_conn (sv_update r c sv) r' = (if r' = r then c else sv_conn sv r')"
  "sv_addr (sv_update r c sv) r' = sv_addr sv r'"
  by (simp add: sv_update_def sv_conn_def)
     (cases "r < length (sv_store sv)"; cases "r' = r"; simp add: sv_update_def sv_addr_def list_update_beyond)

lemma uc_closed_close [simp]: "uc_closed (uc_close c)"
  by (simp add: uc_close_def)

lemma sv_table_updates [simp]:
  "sv_conn (sv\<lparr>sv_byId := bi\<rparr>) r = sv_conn sv r" "sv_conn (sv\<lparr>sv_byAddress := ba\<rparr>) r = sv_conn sv r"
  "sv_addr (sv\<lparr>sv_byId := bi\<rparr>) r = sv_addr sv r" "sv_addr (sv\<lparr>sv_byAddress := ba\<rparr>) r = sv_addr sv r"
  "sv_conn (sv\<lparr>sv_pending := ps\<rparr>) r = sv_conn sv r" "sv_addr (sv\<lparr>sv_pending := ps\<rparr>) r = sv_addr sv r"
  "sv_conn (sv\<lparr>sv_socket := s\<rparr>) r = sv_conn sv r" "sv_addr (sv\<lparr>sv_socket := s\<rparr>) r = sv_addr sv r"
  "sv_conn (sv\<lparr>sv_replier := p\<rparr>) r = sv_conn sv r" "sv_addr (sv\<lparr>sv_replier := p\<rparr>) r = sv_addr sv r"
  by (simp_all add: sv_conn_def sv_addr_def)

text \<open>A use of a connection that does not reopen it, and does not close one that waits.\<close>

lemma routed_update:
  assumes "routed X sv ps" "r < length (sv_store sv)" "uc_closed (sv_conn sv r) \<Longrightarrow> uc_closed c"
    and "r \<in> pe_conn ` set ps \<Longrightarrow> \<not> uc_closed c"
  shows "routed X (sv_update r c sv) ps"
  using assms by (auto simp: routed_def)

text \<open>Taking a connection out of both tables; it is closed, or is being closed.\<close>

definition unroute :: "nat \<Rightarrow> udp_server \<Rightarrow> udp_server" where
  "unroute r sv = sv\<lparr>sv_byId := omap_del (ca_id (sv_addr sv r)) (sv_byId sv),
     sv_byAddress := omap_del (sv_key (sv_addr sv r)) (sv_byAddress sv)\<rparr>"

lemma routed_unroute:
  assumes ok: "routed X sv ps" and r: "r < length (sv_store sv)" "uc_closed (sv_conn sv r) \<or> r \<in> X"
    and own: "omap_get (sv_byId sv) (conn_id r) = Some r"
  shows "routed X (unroute r sv) ps"
proof -
  have id: "ca_id (sv_addr sv r) = conn_id r" using ok r(1) by (simp add: routed_def)
  have other: "sv_key (sv_addr sv r') \<noteq> sv_key (sv_addr sv r)" if "omap_get (sv_byId sv) i = Some r'" "i \<noteq> conn_id r" for r' i
    using ok own that unfolding routed_def by (metis option.inject)
  show ?thesis using ok r(2) other unfolding routed_def unroute_def id
    by (auto simp: omap_get_del omap_ok_del)
qed

lemma routed_close_unroute:
  assumes "routed X sv ps" "r < length (sv_store sv)" "r \<notin> pe_conn ` set ps" "omap_get (sv_byId sv) (conn_id r) = Some r"
  shows "routed X (unroute r (sv_update r (uc_close (sv_conn sv r)) sv)) ps"
  by (rule routed_unroute [OF routed_update [OF assms(1,2)]]) (use assms in simp_all)

lemma unroute_update: "unroute r (sv_update r' c sv) = sv_update r' c (unroute r sv)"
  unfolding unroute_def sv_update_get(2) by (cases sv) (simp add: sv_update_def sv_addr_def)

text \<open>Every open connection that is not about to be closed is its own entry in the identity table.\<close>

lemma routed_open: "routed X sv ps \<Longrightarrow> r < length (sv_store sv) \<Longrightarrow> \<not> uc_closed (sv_conn sv r) \<Longrightarrow> r \<notin> X \<Longrightarrow>
    omap_get (sv_byId sv) (conn_id r) = Some r"
  by (auto simp: routed_def)

lemma routed_pending [simp]: "routed X (sv\<lparr>sv_pending := qs\<rparr>) ps = routed X sv ps"
  by (simp add: routed_def)

lemma routed_io [simp]:
  "routed X (sv\<lparr>sv_socket := s\<rparr>) ps = routed X sv ps" "routed X (sv\<lparr>sv_replier := p\<rparr>) ps = routed X sv ps"
  "routed X (sv\<lparr>sv_running := b, sv_bound := b'\<rparr>) ps = routed X sv ps"
  by (simp_all add: routed_def sv_conn_def sv_addr_def)

lemma routed_subset: "routed X sv ps \<Longrightarrow> distinct (map pe_conn qs) \<Longrightarrow> set qs \<subseteq> set ps \<Longrightarrow> routed X sv qs"
  by (auto simp: routed_def)

section \<open>The operations keep it\<close>

lemma expire_loop_ok:
  assumes "routed X sv (done @ es)" and "expire_loop now es sv = (kept, sv')"
  shows "routed X sv' (done @ kept) \<and> set kept \<subseteq> set es \<and> length kept \<le> length es \<and>
    length (sv_store sv') = length (sv_store sv) \<and> sv_clientIdCounter sv' = sv_clientIdCounter sv"
  using assms
proof (induction es arbitrary: "done" kept sv)
  case (Cons e es)
  let ?r = "pe_conn e"
  have r: "?r < length (sv_store sv)" "\<not> uc_closed (sv_conn sv ?r)" "?r \<notin> pe_conn ` set (done @ es)" "?r \<notin> X"
    using Cons.prems(1) by (auto simp: routed_def)
  show ?case
  proof (cases "now - pe_since e > PENDING_TTL_MS")
    case True
    let ?sv = "unroute ?r (sv_update ?r (uc_close (sv_conn sv ?r)) sv)"
    have "routed X sv (done @ es)" by (rule routed_subset [OF Cons.prems(1)]) (use Cons.prems(1) in \<open>auto simp: routed_def\<close>)
    then have "routed X ?sv (done @ es)" using r routed_open [of X sv "done @ es" ?r] by (intro routed_close_unroute) auto
    moreover have "expire_loop now es ?sv = (kept, sv')"
      using Cons.prems(2) True unfolding unroute_update by (simp add: unroute_def Let_def)
    ultimately show ?thesis using Cons.IH [of ?sv "done" kept] by (auto simp: unroute_def)
  next
    case False
    then obtain kept' where k: "expire_loop now es sv = (kept', sv')" "kept = e # kept'"
      using Cons.prems(2) r(2) by (auto split: prod.splits)
    with Cons.IH [of sv "done @ [e]" kept'] Cons.prems(1) show ?thesis by auto
  qed
qed simp

lemma expireStale_ok:
  assumes "sv_inv X sv"
  shows "sv_inv X (expireStaleLocked now sv) \<and> length (sv_store (expireStaleLocked now sv)) = length (sv_store sv)"
proof -
  obtain kept sv' where e: "expire_loop now (sv_pending sv) sv = (kept, sv')" by (cases "expire_loop now (sv_pending sv) sv")
  with expire_loop_ok [of X sv "[]" "sv_pending sv" now kept sv'] assms show ?thesis
    by (simp add: sv_inv_def expireStaleLocked_def)
qed

lemma mk_udp_connection_open: "mk_udp_connection t resolve owns s host port cfg = Inr c \<Longrightarrow> \<not> uc_closed c"
  by (auto simp: mk_udp_connection_def initPipeline_def split: sum.splits)

lemma create_ok:
  assumes ok: "routed X sv ps" and key: "omap_get (sv_byAddress sv) (endpoint_key host port) = None" and c: "\<not> uc_closed c"
  shows "routed X (sv\<lparr>sv_clientIdCounter := sv_clientIdCounter sv + 1,
      sv_store := sv_store sv @ [(\<lparr>ca_id = ''udp-'' @ to_string (sv_clientIdCounter sv), ca_host = Some host, ca_port = port\<rparr>, c)],
      sv_byAddress := omap_put (endpoint_key host port) (length (sv_store sv)) (sv_byAddress sv),
      sv_byId := omap_put (''udp-'' @ to_string (sv_clientIdCounter sv)) (length (sv_store sv)) (sv_byId sv)\<rparr>)
    (ps @ [\<lparr>pe_conn = length (sv_store sv), pe_since = now\<rparr>])"
  (is "routed X ?sv ?ps")
proof -
  let ?n = "length (sv_store sv)"
  define sv' where "sv' = ?sv"
  have id: "''udp-'' @ to_string (sv_clientIdCounter sv) = conn_id ?n" using ok by (simp add: routed_def conn_id_def)
  have old: "sv_conn sv' r = sv_conn sv r" "sv_addr sv' r = sv_addr sv r" if "r < ?n" for r
    using that by (simp_all add: sv'_def sv_conn_def sv_addr_def nth_append)
  have new: "sv_conn sv' ?n = c" "sv_addr sv' ?n = \<lparr>ca_id = conn_id ?n, ca_host = Some host, ca_port = port\<rparr>"
    using id by (simp_all add: sv'_def sv_conn_def sv_addr_def)
  have bi: "omap_get (sv_byId sv') i = (if i = conn_id ?n then Some ?n else omap_get (sv_byId sv) i)" for i
    using id by (simp add: sv'_def omap_get_put_eq)
  have ba: "omap_get (sv_byAddress sv') k = (if k = endpoint_key host port then Some ?n else omap_get (sv_byAddress sv) k)" for k
    by (simp add: sv'_def omap_get_put_eq)
  have fields: "length (sv_store sv') = Suc ?n" "sv_clientIdCounter sv' = Suc (sv_clientIdCounter sv)"
    "omap_ok (sv_byAddress sv')" "omap_ok (sv_byId sv')" using ok by (simp_all add: sv'_def routed_def omap_ok_put)
  have i_fact: "r < ?n \<and> i = conn_id r \<and> omap_get (sv_byAddress sv) (sv_key (sv_addr sv r)) = Some r" if "omap_get (sv_byId sv) i = Some r" for i r
    using ok that unfolding routed_def by blast
  have k: "r < ?n \<and> sv_key (sv_addr sv r) = k \<and> omap_get (sv_byId sv) (conn_id r) = Some r" if "omap_get (sv_byAddress sv) k = Some r" for k r
    using ok that unfolding routed_def by blast
  have "\<forall>i r. omap_get (sv_byId sv') i = Some r \<longrightarrow>
      r < Suc ?n \<and> i = conn_id r \<and> omap_get (sv_byAddress sv') (sv_key (sv_addr sv' r)) = Some r"
  proof (intro allI impI)
    fix i r assume "omap_get (sv_byId sv') i = Some r"
    then show "r < Suc ?n \<and> i = conn_id r \<and> omap_get (sv_byAddress sv') (sv_key (sv_addr sv' r)) = Some r"
      using i_fact [of i r] key unfolding bi ba
      by (cases "i = conn_id ?n") (auto simp: new sv_key_def old)
  qed
  moreover have "\<forall>k r. omap_get (sv_byAddress sv') k = Some r \<longrightarrow>
      r < Suc ?n \<and> sv_key (sv_addr sv' r) = k \<and> omap_get (sv_byId sv') (conn_id r) = Some r"
  proof (intro allI impI)
    fix x r assume "omap_get (sv_byAddress sv') x = Some r"
    then show "r < Suc ?n \<and> sv_key (sv_addr sv' r) = x \<and> omap_get (sv_byId sv') (conn_id r) = Some r"
      using k [of x r] unfolding bi ba by (cases "x = endpoint_key host port") (auto simp: new sv_key_def old)
  qed
  moreover have "\<forall>r < Suc ?n. ca_id (sv_addr sv' r) = conn_id r \<and> hasEndpoint (sv_addr sv' r)"
    using ok by (auto simp: less_Suc_eq old new hasEndpoint_def routed_def simp del: sv_table_updates)
  moreover have "\<forall>r < Suc ?n. \<not> uc_closed (sv_conn sv' r) \<longrightarrow> r \<in> X \<or> omap_get (sv_byId sv') (conn_id r) = Some r"
    unfolding bi using routed_open [OF ok] by (auto simp: less_Suc_eq old)
  moreover have "X \<subseteq> {..<Suc ?n}" using ok by (auto simp: routed_def)
  moreover have "distinct (map pe_conn ?ps)" "\<forall>e \<in> set ?ps. pe_conn e < Suc ?n \<and> pe_conn e \<notin> X \<and> \<not> uc_closed (sv_conn sv' (pe_conn e))"
    using ok c by (auto simp: routed_def old new)
  moreover have "sv_clientIdCounter sv = Suc ?n" using ok by (simp add: routed_def)
  ultimately show ?thesis using fields unfolding sv'_def [symmetric] routed_def by simp
qed

text \<open>What the sweep leaves alone: connections that do not wait, every address, and free routes.\<close>

lemma expire_frame:
  assumes "expire_loop now es sv = (kept, sv')" and "\<forall>e \<in> set es. pe_conn e < length (sv_store sv)"
  shows "(\<forall>r. r \<notin> pe_conn ` set es \<longrightarrow> sv_conn sv' r = sv_conn sv r) \<and> (\<forall>r. sv_addr sv' r = sv_addr sv r) \<and>
    (\<forall>k. omap_get (sv_byAddress sv) k = None \<longrightarrow> omap_get (sv_byAddress sv') k = None)"
  using assms
proof (induction es arbitrary: kept sv)
  case (Cons e es)
  let ?r = "pe_conn e"
  let ?sv = "sv_update ?r (uc_close (sv_conn sv ?r)) (unroute ?r sv)"
  show ?case
  proof (cases "now - pe_since e > PENDING_TTL_MS \<or> uc_closed (sv_conn sv ?r)")
    case True
    then have "expire_loop now es ?sv = (kept, sv')" using Cons.prems(1) by (simp add: unroute_def Let_def)
    from Cons.IH [OF this] Cons.prems(2) show ?thesis
      by (auto simp: unroute_def omap_get_del)
  next
    case False
    with Cons show ?thesis by (auto simp: Let_def split: prod.splits)
  qed
qed simp

text \<open>Accepted clients: open, and no longer waiting. An operation keeps one when it leaves its object alone.\<close>

definition accepted :: "udp_server \<Rightarrow> nat \<Rightarrow> bool" where
  "accepted sv r \<longleftrightarrow> r < length (sv_store sv) \<and> \<not> uc_closed (sv_conn sv r) \<and> r \<notin> pe_conn ` set (sv_pending sv)"

definition keeps :: "udp_server \<Rightarrow> udp_server \<Rightarrow> bool" where
  "keeps sv sv' \<longleftrightarrow> (\<forall>r. accepted sv r \<longrightarrow> accepted sv' r \<and> sv_conn sv' r = sv_conn sv r \<and> sv_addr sv' r = sv_addr sv r)"

lemma keeps_trans: "keeps sv sv' \<Longrightarrow> keeps sv' sv'' \<Longrightarrow> keeps sv sv''"
  by (simp add: keeps_def)

lemma expireStale_keeps:
  assumes "sv_inv X sv"
  shows "keeps sv (expireStaleLocked now sv) \<and>
    (\<forall>k. omap_get (sv_byAddress sv) k = None \<longrightarrow> omap_get (sv_byAddress (expireStaleLocked now sv)) k = None)"
proof -
  obtain kept sv' where e: "expire_loop now (sv_pending sv) sv = (kept, sv')" by (cases "expire_loop now (sv_pending sv) sv")
  have "\<forall>e \<in> set (sv_pending sv). pe_conn e < length (sv_store sv)" using assms by (simp add: sv_inv_def routed_def)
  with expire_frame [OF e] expire_loop_ok [of X sv "[]" "sv_pending sv" now kept sv'] e assms show ?thesis
    by (fastforce simp: keeps_def accepted_def expireStaleLocked_def sv_inv_def)
qed

lemma create_keeps:
  assumes ok: "sv_inv X sv" and free: "omap_get (sv_byAddress sv) (endpoint_key host port) = None"
    and r: "tryCreateConnectionLocked resolve t host port (endpoint_key host port) sv = Inr (res, sv')"
  shows "sv_inv X sv' \<and> keeps sv sv' \<and>
    (\<forall>r. res = Some r \<longrightarrow> r < length (sv_store sv') \<and> \<not> uc_closed (sv_conn sv' r) \<and> sv_key (sv_addr sv' r) = endpoint_key host port \<and> \<not> accepted sv r)"
proof -
  define sv1 where "sv1 = (if length (sv_pending sv) \<ge> MAX_PENDING_CONNECTIONS then expireStaleLocked (ck_wallMs t) sv else sv)"
  have ok1: "sv_inv X sv1" and k1: "keeps sv sv1" and free1: "omap_get (sv_byAddress sv1) (endpoint_key host port) = None"
    and len1: "length (sv_store sv1) = length (sv_store sv)"
    using ok free expireStale_ok [OF ok] expireStale_keeps [OF ok] by (simp_all add: sv1_def keeps_def)
  show ?thesis
  proof (cases "length (sv_pending sv1) \<ge> MAX_PENDING_CONNECTIONS")
    case True
    with r have "res = None" "sv' = sv1" by (simp_all add: tryCreateConnectionLocked_def sv1_def [symmetric] Let_def)
    with ok1 k1 show ?thesis by simp
  next
    case False
    let ?n = "length (sv_store sv1)"
    from r False obtain c where c: "mk_udp_connection t resolve False (sv_socket sv1) host port (sv_cfg sv1) = Inr c"
      by (auto simp: tryCreateConnectionLocked_def sv1_def [symmetric] Let_def split: sum.splits)
    let ?a = "\<lparr>ca_id = ''udp-'' @ to_string (sv_clientIdCounter sv1), ca_host = Some host, ca_port = port\<rparr>"
    define sv2 where "sv2 = sv1\<lparr>sv_clientIdCounter := sv_clientIdCounter sv1 + 1, sv_store := sv_store sv1 @ [(?a, c)],
      sv_byAddress := omap_put (endpoint_key host port) ?n (sv_byAddress sv1),
      sv_byId := omap_put (''udp-'' @ to_string (sv_clientIdCounter sv1)) ?n (sv_byId sv1)\<rparr>"
    have res: "res = Some ?n" "sv' = sv2\<lparr>sv_pending := sv_pending sv1 @ [\<lparr>pe_conn = ?n, pe_since = ck_wallMs t\<rparr>]\<rparr>"
      using r False c by (simp_all add: tryCreateConnectionLocked_def sv1_def [symmetric] sv2_def Let_def)
    have "routed X sv2 (sv_pending sv1 @ [\<lparr>pe_conn = ?n, pe_since = ck_wallMs t\<rparr>])"
      unfolding sv2_def using ok1 free1 mk_udp_connection_open [OF c] by (intro create_ok) (simp_all add: sv_inv_def)
    then have "sv_inv X sv'" using False by (simp add: sv_inv_def res)
    moreover have st: "sv_store sv' = sv_store sv1 @ [(?a, c)]" "sv_pending sv' = sv_pending sv1 @ [\<lparr>pe_conn = ?n, pe_since = ck_wallMs t\<rparr>]"
      by (simp_all add: res sv2_def)
    have "keeps sv1 sv'" by (auto simp: keeps_def accepted_def sv_conn_def sv_addr_def st nth_append)
    with k1 have "keeps sv sv'" by (rule keeps_trans)
    ultimately show ?thesis using mk_udp_connection_open [OF c] res(1)
      by (simp add: st sv_conn_def sv_addr_def sv_key_def accepted_def len1 [symmetric])
  qed
qed

lemma route_keeps:
  assumes ok: "sv_inv X sv" and r: "demux_route resolve t host port packet sv = Inr (res, sv')"
  shows "sv_inv X sv' \<and> keeps sv sv' \<and>
    (\<forall>r. res = Some r \<longrightarrow> r < length (sv_store sv') \<and> \<not> uc_closed (sv_conn sv' r) \<and> sv_key (sv_addr sv' r) = endpoint_key host port)"
proof -
  let ?key = "endpoint_key host port"
  have ok': "routed X sv (sv_pending sv)" using ok by (simp add: sv_inv_def)
  consider (hit) x where "omap_get (sv_byAddress sv) ?key = Some x" "\<not> uc_closed (sv_conn sv x)"
    | (stale) x where "omap_get (sv_byAddress sv) ?key = Some x" "uc_closed (sv_conn sv x)"
    | (free) "omap_get (sv_byAddress sv) ?key = None" by (cases "omap_get (sv_byAddress sv) ?key") auto
  then show ?thesis
  proof cases
    case hit
    have "res = Some x" "sv' = sv" using r by (simp_all add: demux_route_def Let_def hit)
    moreover have "x < length (sv_store sv)" "sv_key (sv_addr sv x) = ?key"
      using ok' hit(1) unfolding routed_def by blast+
    ultimately show ?thesis using ok hit by (simp add: keeps_def)
  next
    case stale
    have x: "x < length (sv_store sv)" "sv_key (sv_addr sv x) = ?key" "omap_get (sv_byId sv) (conn_id x) = Some x"
      using ok' stale(1) unfolding routed_def by blast+
    let ?sv = "unroute x sv"
    have "routed X ?sv (sv_pending sv)" using routed_unroute [OF ok' x(1) disjI1 [OF stale(2)] x(3)] .
    then have ok1: "sv_inv X ?sv" using ok by (simp add: sv_inv_def unroute_def)
    have k1: "keeps sv ?sv" by (simp add: keeps_def accepted_def unroute_def)
    have free1: "omap_get (sv_byAddress ?sv) ?key = None" by (simp add: unroute_def x(2) omap_get_del)
    have r1: "(if isConnectRequest packet then tryCreateConnectionLocked resolve t host port ?key ?sv else Inr (None, ?sv)) = Inr (res, sv')"
      using r by (cases "isConnectRequest packet") (simp_all add: demux_route_def Let_def unroute_def stale x(2))
    show ?thesis
    proof (cases "isConnectRequest packet")
      case True
      with r1 have "tryCreateConnectionLocked resolve t host port ?key ?sv = Inr (res, sv')" by simp
      from create_keeps [OF ok1 free1 this] k1 show ?thesis by (blast intro: keeps_trans)
    qed (use r1 ok1 k1 in simp)
  next
    case free
    have r1: "(if isConnectRequest packet then tryCreateConnectionLocked resolve t host port ?key sv else Inr (None, sv)) = Inr (res, sv')"
      using r by (cases "isConnectRequest packet") (simp_all add: demux_route_def Let_def free)
    show ?thesis
    proof (cases "isConnectRequest packet")
      case True
      with r1 create_keeps [OF ok free] show ?thesis by simp
    next
      case False
      with r1 ok show ?thesis by (simp add: keeps_def)
    qed
  qed
qed

lemma conn_feed_closed: "conn_feed rnd t d c = Some c' \<Longrightarrow> uc_closed c' = uc_closed c"
  by (auto simp: conn_feed_def recordCrcError_def same_peer_def dest: same_peer_enqueue split: option.splits)

lemma discovery_keeps:
  "sv_inv X sv \<Longrightarrow> sv_inv X (sendDiscoveryReply t facts token host port key sv)"
  "keeps sv (sendDiscoveryReply t facts token host port key sv)"
  "sv_store (sendDiscoveryReply t facts token host port key sv) = sv_store sv"
  by (auto simp: sendDiscoveryReply_def sv_inv_def keeps_def accepted_def Let_def case_prod_beta split: option.splits)

text \<open>The datagrams of one client: from its endpoint, and not a probe.\<close>

definition from_client :: "client_address \<Rightarrow> recv_from \<Rightarrow> bool" where
  "from_client a rr = (case rr of From_ok d host port tr \<Rightarrow>
     ca_host a = Some host \<and> ca_port a = port \<and> discover_token_of (deserialize d) = None | _ \<Rightarrow> False)"

definition datagram :: "recv_from \<Rightarrow> bytes" where
  "datagram rr = (case rr of From_ok d host port tr \<Rightarrow> d | _ \<Rightarrow> [])"

lemma endpoint_key_inject: "endpoint_key h p = endpoint_key h' p' \<longleftrightarrow> h = h' \<and> p = p'"
  using endpoint_inject [of h "unat p" h' "unat p'"] by (auto simp: endpoint_key_def unsigned_word_eqI)

text \<open>One turn: an accepted client's object changes by its own datagrams and by nothing else.\<close>

lemma turn_isolation:
  assumes ok: "sv_inv X sv" and turn: "demux_turn resolve rnd t facts rr sv = Inr sv'"
  shows "sv_inv X sv' \<and> (\<forall>r. accepted sv r \<and> r \<notin> X \<longrightarrow> accepted sv' r \<and> sv_addr sv' r = sv_addr sv r \<and>
    (if from_client (sv_addr sv r) rr then conn_feed rnd t (datagram rr) (sv_conn sv r) else Some (sv_conn sv r)) = Some (sv_conn sv' r))"
proof (cases rr)
  case (From_ok d host port tr)
  show ?thesis
  proof (cases "discover_token_of (deserialize d)")
    case (Some token)
    then show ?thesis using turn discovery_keeps [where t = t and facts = facts and token = token and host = host and port = port and sv = sv] ok
      by (auto simp: demux_turn_def From_ok from_client_def keeps_def)
  next
    case None
    with turn obtain res sv1 where route: "demux_route resolve t host port (deserialize d) sv = Inr (res, sv1)"
      and rest: "(case res of None \<Rightarrow> Inr sv1 | Some r \<Rightarrow> (case conn_feed rnd t d (sv_conn sv1 r) of None \<Rightarrow> Inl Signed_overflow
        | Some c \<Rightarrow> Inr (sv_update r c sv1))) = Inr sv'"
      by (auto simp: demux_turn_def From_ok split: sum.splits prod.splits option.splits)
    from route_keeps [OF ok route] have ok1: "sv_inv X sv1" and k1: "keeps sv sv1" and hit: "\<And>r. res = Some r \<Longrightarrow>
        r < length (sv_store sv1) \<and> \<not> uc_closed (sv_conn sv1 r) \<and> sv_key (sv_addr sv1 r) = endpoint_key host port" by blast+
    have mine: "from_client (sv_addr sv r) rr \<longleftrightarrow> sv_key (sv_addr sv r) = endpoint_key host port" if "accepted sv r" for r
    proof -
      have "hasEndpoint (sv_addr sv r)" using that ok by (simp add: accepted_def sv_inv_def routed_def)
      then obtain h where "ca_host (sv_addr sv r) = Some h" by (auto simp: hasEndpoint_def)
      then show ?thesis using None by (auto simp: From_ok from_client_def sv_key_def endpoint_key_inject)
    qed
    have routes: "omap_get (sv_byAddress sv) (sv_key (sv_addr sv r)) = Some r" if "accepted sv r" "r \<notin> X" for r
      using that ok unfolding sv_inv_def accepted_def routed_def by blast
    show ?thesis
    proof (cases res)
      case None
      have "\<not> from_client (sv_addr sv r) rr" if a: "accepted sv r" "r \<notin> X" for r
      proof
        assume "from_client (sv_addr sv r) rr"
        then have "omap_get (sv_byAddress sv) (endpoint_key host port) = Some r" using mine [OF a(1)] routes [OF a] by simp
        then show False using route a None by (simp add: demux_route_def Let_def accepted_def)
      qed
      then show ?thesis using rest ok1 k1 None by (simp add: keeps_def)
    next
      case (Some x)
      then obtain c where c: "conn_feed rnd t d (sv_conn sv1 x) = Some c" "sv' = sv_update x c sv1"
        using rest by (auto split: option.splits)
      have x: "x < length (sv_store sv1)" "\<not> uc_closed (sv_conn sv1 x)" "\<not> uc_closed c" "sv_key (sv_addr sv1 x) = endpoint_key host port"
        using hit [OF Some] conn_feed_closed [OF c(1)] by auto
      have ok': "sv_inv X sv'" using routed_update [of X sv1 "sv_pending sv1" x c] ok1 x by (simp add: c(2) sv_inv_def)
      have "accepted sv' r \<and> sv_addr sv' r = sv_addr sv r \<and>
        (if from_client (sv_addr sv r) rr then conn_feed rnd t (datagram rr) (sv_conn sv r) else Some (sv_conn sv r)) = Some (sv_conn sv' r)"
        if a: "accepted sv r" "r \<notin> X" for r
      proof -
        have k: "accepted sv1 r" "sv_conn sv1 r = sv_conn sv r" "sv_addr sv1 r = sv_addr sv r" using k1 a by (simp_all add: keeps_def)
        have "x = r \<longleftrightarrow> from_client (sv_addr sv r) rr"
        proof
          assume "from_client (sv_addr sv r) rr"
          then have "omap_get (sv_byAddress sv) (endpoint_key host port) = Some r" using mine [OF a(1)] routes [OF a] by simp
          then show "x = r" using route a Some by (simp add: demux_route_def Let_def accepted_def)
        next
          assume "x = r"
          then show "from_client (sv_addr sv r) rr" using mine [OF a(1)] x(4) k(3) by simp
        qed
        then show ?thesis using k x c by (auto simp: accepted_def From_ok datagram_def)
      qed
      with ok' show ?thesis by blast
    qed
  qed
qed (use turn ok in \<open>simp_all add: demux_turn_def from_client_def\<close>)

section \<open>Runs and steps\<close>

fun demux_run ::
  "(string \<Rightarrow> string) \<Rightarrow> (rat \<Rightarrow> rat) \<Rightarrow> (clocks \<times> discovery_facts option \<times> recv_from) list \<Rightarrow> udp_server \<Rightarrow> demux_fault + udp_server" where
  "demux_run resolve rnd [] sv = Inr sv"
| "demux_run resolve rnd ((t, facts, rr) # evs) sv =
     (case demux_turn resolve rnd t facts rr sv of Inl e \<Rightarrow> Inl e | Inr sv \<Rightarrow> demux_run resolve rnd evs sv)"

text \<open>The connection alone, fed its own datagrams.\<close>

fun feed_run :: "(rat \<Rightarrow> rat) \<Rightarrow> (clocks \<times> discovery_facts option \<times> recv_from) list \<Rightarrow> udp_connection \<Rightarrow> udp_connection option" where
  "feed_run rnd [] c = Some c"
| "feed_run rnd ((t, facts, rr) # evs) c =
     (case conn_feed rnd t (datagram rr) c of None \<Rightarrow> None | Some c \<Rightarrow> feed_run rnd evs c)"

text \<open>
  What the threads do to the transport, section by section of what they do under the lock, with the connections that they have
  taken out of the tables and have not closed yet: turns of the demux, and its routing apart from the feeding of the datagram; accepts; any
  use of a connection that does not reopen it (sends, receives, the feeding, closing it unless it waits); the two parts of a disconnect
  and the parts of the shutdown.
\<close>

inductive sv_step :: "(string \<Rightarrow> string) \<Rightarrow> (rat \<Rightarrow> rat) \<Rightarrow> udp_server \<times> nat list \<Rightarrow> udp_server \<times> nat list \<Rightarrow> bool" for resolve rnd where
  Demux: "demux_turn resolve rnd t facts rr sv = Inr sv' \<Longrightarrow> sv_step resolve rnd (sv, xs) (sv', xs)"
| Route: "demux_route resolve t host port packet sv = Inr (res, sv') \<Longrightarrow> sv_step resolve rnd (sv, xs) (sv', xs)"
| Accept: "acceptClient sv = (res, sv') \<Longrightarrow> sv_step resolve rnd (sv, xs) (sv', xs)"
| Use: "r < length (sv_store sv) \<Longrightarrow> (uc_closed (sv_conn sv r) \<Longrightarrow> uc_closed c) \<Longrightarrow>
    (r \<in> pe_conn ` set (sv_pending sv) \<Longrightarrow> \<not> uc_closed c) \<Longrightarrow> sv_step resolve rnd (sv, xs) (sv_update r c sv, xs)"
| Disconnect: "r < length (sv_store sv) \<Longrightarrow> r \<notin> pe_conn ` set (sv_pending sv) \<Longrightarrow> disconnect_unroute (ca_id (sv_addr sv r)) sv = (removed, sv') \<Longrightarrow>
    sv_step resolve rnd (sv, xs) (sv', (case removed of None \<Rightarrow> xs | Some x \<Rightarrow> x # xs))"
| Close: "r \<in> set xs \<Longrightarrow> sv_step resolve rnd (sv, xs) (close_conn r sv, remove1 r xs)"
| Stop: "sv_step resolve rnd (sv, xs) (close_flags sv, xs)"
| Drain: "close_drain sv = (drained, sv') \<Longrightarrow> sv_step resolve rnd (sv, xs) (sv', drained @ xs)"
| Shut: "sv_step resolve rnd (sv, xs) (close_socket sv, xs)"

inductive_cases sv_stepE: "sv_step resolve rnd sv sv'"

lemma accept_pop_suffix: "\<exists>pre. es = pre @ snd (accept_pop sv es)"
  by (induction es) (auto intro: exI [of _ "_ # _"] exI [of _ "[]"])

lemma accept_ok: "sv_inv X sv \<Longrightarrow> sv_inv X (snd (acceptClient sv))"
proof -
  assume ok: "sv_inv X sv"
  obtain pre where pre: "sv_pending sv = pre @ snd (accept_pop sv (sv_pending sv))" using accept_pop_suffix by blast
  let ?rest = "snd (accept_pop sv (sv_pending sv))"
  have "distinct (map pe_conn (sv_pending sv))" using ok by (simp add: sv_inv_def routed_def)
  then have "distinct (map pe_conn (pre @ ?rest))" unfolding pre [symmetric] .
  then have d: "distinct (map pe_conn ?rest)" by simp
  have "set ?rest \<subseteq> set (pre @ ?rest)" by simp
  then have s: "set ?rest \<subseteq> set (sv_pending sv)" unfolding pre [symmetric] .
  have "routed X sv (sv_pending sv)" using ok by (simp add: sv_inv_def)
  from routed_subset [OF this d s] have "routed X sv ?rest" .
  moreover have "length (snd (accept_pop sv (sv_pending sv))) \<le> MAX_PENDING_CONNECTIONS"
    using ok arg_cong [OF pre, of length] by (simp add: sv_inv_def)
  ultimately show ?thesis using ok by (auto simp: acceptClient_def sv_inv_def Let_def case_prod_beta)
qed

text \<open>The second parts: what has been taken out of the tables is closed.\<close>

lemma routed_more:
  assumes "routed X sv ps" "Y \<subseteq> {..<length (sv_store sv)}" "Y \<inter> pe_conn ` set ps = {}"
  shows "routed (X \<union> Y) sv ps"
  using assms by (auto simp: routed_def)

lemma routed_closed: "routed X sv ps \<Longrightarrow> (\<And>r. r \<in> X \<Longrightarrow> r \<notin> Y \<Longrightarrow> uc_closed (sv_conn sv r)) \<Longrightarrow> Y \<subseteq> X \<Longrightarrow> routed Y sv ps"
  unfolding routed_def by (elim conjE, intro conjI) (simp_all, blast+)

lemma close_conn_ok:
  assumes "sv_inv (set xs) sv" "r \<in> set xs"
  shows "sv_inv (set (remove1 r xs)) (close_conn r sv)"
proof -
  have R: "routed (set xs) sv (sv_pending sv)" using assms(1) by (simp add: sv_inv_def)
  then have r: "r < length (sv_store sv)" "r \<notin> pe_conn ` set (sv_pending sv)" using assms(2) by (auto simp: routed_def)
  have "routed (set xs) (close_conn r sv) (sv_pending sv)"
    unfolding close_conn_def using R r by (intro routed_update) simp_all
  then have "routed (set (remove1 r xs)) (close_conn r sv) (sv_pending sv)"
  proof (rule routed_closed)
    fix r' assume "r' \<in> set xs" "r' \<notin> set (remove1 r xs)"
    then have "r' = r" by (metis in_set_remove1)
    then show "uc_closed (sv_conn (close_conn r sv) r')" using r(1) by (simp add: close_conn_def)
  qed (rule set_remove1_subset)
  then show ?thesis using assms(1) by (simp add: sv_inv_def close_conn_def)
qed

text \<open>The first part of a disconnect.\<close>

lemma disconnect_unroute_ok:
  assumes ok: "sv_inv (set xs) sv" and r: "r < length (sv_store sv)" "r \<notin> pe_conn ` set (sv_pending sv)"
    and d: "disconnect_unroute (ca_id (sv_addr sv r)) sv = (removed, sv')"
  shows "sv_inv (set (case removed of None \<Rightarrow> xs | Some x \<Rightarrow> x # xs)) sv'"
proof (cases "omap_get (sv_byId sv) (conn_id r)")
  case None
  then show ?thesis using ok r d by (auto simp: disconnect_unroute_def sv_inv_def routed_def)
next
  case (Some x)
  have R: "routed (set xs) sv (sv_pending sv)" using ok by (simp add: sv_inv_def)
  then have "conn_id r = conn_id x" using Some unfolding routed_def by blast
  then have x: "x = r" by simp
  have id: "ca_id (sv_addr sv r) = conn_id r" "hasEndpoint (sv_addr sv r)" using R r(1) by (simp_all add: routed_def)
  have d': "removed = Some r" "sv' = unroute r sv"
    using d Some id by (auto simp: disconnect_unroute_def x unroute_def Let_def)
  have "routed (set xs \<union> {r}) sv (sv_pending sv)" using R r by (intro routed_more) auto
  from routed_unroute [OF this r(1)] Some have "routed (insert r (set xs)) (unroute r sv) (sv_pending sv)" by (simp add: x)
  then show ?thesis using ok by (simp add: d' sv_inv_def unroute_def)
qed

text \<open>The tables are emptied: every open connection was in the table of identities or was to be closed.\<close>

lemma drain_ok:
  assumes ok: "sv_inv (set xs) sv" and d: "close_drain sv = (drained, sv')"
  shows "sv_inv (set (drained @ xs)) sv'"
proof -
  have R: "routed (set xs) sv (sv_pending sv)" using ok by (simp add: sv_inv_def)
  have len: "r < length (sv_store sv)" if "(i, r) \<in> set (sv_byId sv)" for i r
  proof -
    have "omap_get (sv_byId sv) i = Some r"
      using R that by (intro map_of_is_SomeI) (auto simp: routed_def intro: omap_ok_distinct)
    then show ?thesis using R unfolding routed_def by blast
  qed
  have d': "drained = map snd (sv_byId sv)" "sv' = sv\<lparr>sv_byId := [], sv_byAddress := [], sv_pending := []\<rparr>"
    using d by (simp_all add: close_drain_def)
  have views: "sv_conn sv' = sv_conn sv" "sv_addr sv' = sv_addr sv" "length (sv_store sv') = length (sv_store sv)"
    "sv_byId sv' = []" "sv_byAddress sv' = []" "sv_pending sv' = []" "sv_clientIdCounter sv' = sv_clientIdCounter sv"
    by (simp_all add: d'(2) sv_conn_def sv_addr_def fun_eq_iff)
  have open_in: "r \<in> set (drained @ xs)" if "r < length (sv_store sv)" "\<not> uc_closed (sv_conn sv r)" for r
  proof (cases "r \<in> set xs")
    case False
    then have "omap_get (sv_byId sv) (conn_id r) = Some r" using routed_open [OF R that] by simp
    then have "(conn_id r, r) \<in> set (sv_byId sv)" by (rule map_of_SomeD)
    then show ?thesis by (force simp: d'(1))
  qed simp
  have sub: "set (drained @ xs) \<subseteq> {..<length (sv_store sv)}" using R len by (auto simp: d'(1) routed_def)
  have "routed (set (drained @ xs)) sv' []"
    using R open_in sub unfolding routed_def views by (elim conjE, intro conjI) simp_all
  then show ?thesis by (simp add: sv_inv_def views)
qed

lemma sv_step_ok: "sv_step resolve rnd p p' \<Longrightarrow> sv_inv (set (snd p)) (fst p) \<Longrightarrow> sv_inv (set (snd p')) (fst p')"
proof (induction rule: sv_step.induct)
  case (Demux t facts rr sv sv')
  then show ?case using turn_isolation [OF _ Demux.hyps] by simp
next
  case (Route t host port packet sv res sv')
  then show ?case using route_keeps [OF _ Route.hyps] by simp
next
  case (Accept sv res sv')
  then show ?case using accept_ok [of _ sv] by fastforce
next
  case (Use r sv c xs)
  then show ?case using routed_update [of "set xs" sv "sv_pending sv" r c] by (simp add: sv_inv_def)
next
  case (Disconnect r sv removed sv' xs)
  then show ?case using disconnect_unroute_ok by simp
next
  case (Drain sv drained sv' xs)
  then show ?case using drain_ok by fastforce
next
  case (Close r xs sv)
  then show ?case using close_conn_ok by simp
qed (simp_all add: close_flags_def close_socket_def sv_inv_def)

lemma bind_ok: "sv_bind (Inr s) (mk_udp_server cfg s0) = Inr sv \<Longrightarrow> sv_ok sv"
  by (auto simp: sv_bind_def mk_udp_server_def sv_inv_def routed_def)

text \<open>The sweep keeps exactly the entries that have not expired.\<close>

lemma expire_kept:
  assumes "distinct (map pe_conn es)" "\<forall>e \<in> set es. pe_conn e < length (sv_store sv) \<and> \<not> uc_closed (sv_conn sv (pe_conn e))"
  shows "fst (expire_loop now es sv) = filter (\<lambda>e. \<not> now - pe_since e > PENDING_TTL_MS) es"
  using assms
proof (induction es arbitrary: sv)
  case (Cons e es)
  let ?sv = "sv_update (pe_conn e) (uc_close (sv_conn sv (pe_conn e))) (unroute (pe_conn e) sv)"
  have "\<forall>e' \<in> set es. pe_conn e' \<noteq> pe_conn e" using Cons.prems(1) by (auto simp: image_iff)
  then have "\<forall>e' \<in> set es. pe_conn e' < length (sv_store ?sv) \<and> \<not> uc_closed (sv_conn ?sv (pe_conn e'))"
    using Cons.prems(2) by (auto simp: unroute_def)
  from Cons.IH [OF _ this] Cons.IH [of sv] Cons.prems show ?case
    by (simp add: Let_def case_prod_beta unroute_def)
qed simp

definition sender_open :: "udp_server \<Rightarrow> string \<Rightarrow> bool" where
  "sender_open sv key = (case omap_get (sv_byAddress sv) key of None \<Rightarrow> False | Some r \<Rightarrow> \<not> uc_closed (sv_conn sv r))"

definition has_room :: "int \<Rightarrow> udp_server \<Rightarrow> bool" where
  "has_room now sv \<longleftrightarrow> length (sv_pending sv) < MAX_PENDING_CONNECTIONS \<or>
     list_ex (\<lambda>e. now - pe_since e > PENDING_TTL_MS) (sv_pending sv)"

lemma room_after_sweep:
  assumes "sv_inv X sv"
  shows "length (sv_pending (if length (sv_pending sv) \<ge> MAX_PENDING_CONNECTIONS then expireStaleLocked now sv else sv)) <
    MAX_PENDING_CONNECTIONS \<longleftrightarrow> has_room now sv"
proof (cases "length (sv_pending sv) \<ge> MAX_PENDING_CONNECTIONS")
  case True
  then have full: "length (sv_pending sv) = MAX_PENDING_CONNECTIONS" using assms by (simp add: sv_inv_def)
  have p: "sv_pending (expireStaleLocked now sv) = filter (\<lambda>e. \<not> now - pe_since e > PENDING_TTL_MS) (sv_pending sv)"
    using expire_kept [of "sv_pending sv" sv now] assms
    by (simp add: expireStaleLocked_def sv_inv_def routed_def case_prod_beta)
  have "length (filter (\<lambda>e. \<not> now - pe_since e > PENDING_TTL_MS) (sv_pending sv)) < length (sv_pending sv) \<longleftrightarrow>
      list_ex (\<lambda>e. now - pe_since e > PENDING_TTL_MS) (sv_pending sv)"
    using length_filter_less [of _ "sv_pending sv" "\<lambda>e. \<not> now - pe_since e > PENDING_TTL_MS"]
      filter_True [of "sv_pending sv" "\<lambda>e. \<not> now - pe_since e > PENDING_TTL_MS"]
    by (cases "list_ex (\<lambda>e. now - pe_since e > PENDING_TTL_MS) (sv_pending sv)") (auto simp: list_ex_iff)
  then show ?thesis using True full by (simp add: has_room_def p)
qed (simp add: has_room_def)

lemma create_length:
  assumes "sv_inv X sv" "tryCreateConnectionLocked resolve t host port key sv = Inr (res, sv')"
  shows "length (sv_store sv') = length (sv_store sv) + (if has_room (ck_wallMs t) sv then 1 else 0)"
proof -
  define sv1 where "sv1 = (if length (sv_pending sv) \<ge> MAX_PENDING_CONNECTIONS then expireStaleLocked (ck_wallMs t) sv else sv)"
  have room: "length (sv_pending sv1) < MAX_PENDING_CONNECTIONS \<longleftrightarrow> has_room (ck_wallMs t) sv"
    using room_after_sweep [OF assms(1)] by (simp add: sv1_def)
  have len: "length (sv_store sv1) = length (sv_store sv)" using expireStale_ok [OF assms(1)] by (simp add: sv1_def)
  show ?thesis using assms(2) room len
    by (cases "has_room (ck_wallMs t) sv")
       (auto simp: tryCreateConnectionLocked_def sv1_def [symmetric] Let_def split: sum.splits)
qed

lemma connect_not_discover: "isConnectRequest p \<Longrightarrow> discover_token_of p = None"
  by (auto simp: isConnectRequest_def discover_token_of_def split: option.splits)

section \<open>Properties\<close>

text \<open>
  C8: the routing tables. In every state the transport can reach, whatever the order of datagrams,
  accepts, disconnects, closes and uses by the sessions, and also between the two parts of a disconnect or of the shutdown: each entry of the two tables points to a
  connection that is routed by its own identity and its own endpoint in the other table, every open
  connection is routed or is one of those that a thread has taken out of the tables and is about to close, and at most eight distinct, open connections
  wait to be accepted.
\<close>

theorem udp_server_routing:
  assumes "sv_bind (Inr s) (mk_udp_server cfg s0) = Inr sv0" and "(sv_step resolve rnd)\<^sup>*\<^sup>* (sv0, []) (sv, closing)"
  shows "sv_inv (set closing) sv"
proof -
  have "sv_inv (set (snd p)) (fst p)" if "(sv_step resolve rnd)\<^sup>*\<^sup>* (sv0, []) p" for p
    using that bind_ok [OF assms(1)] by (induction rule: rtranclp_induct) (auto intro: sv_step_ok)
  from this [OF assms(2)] show ?thesis by simp
qed

text \<open>
  C5: clients do not influence each other. Over any run of the demux, an accepted client stays
  accepted and its connection ends exactly as if it alone had been fed its own datagrams: those from
  its own endpoint that are not discovery probes. Nothing that any other sender transmits matters.
\<close>

theorem udp_server_isolation:
  assumes "sv_ok sv" and "accepted sv r" and "demux_run resolve rnd evs sv = Inr sv'"
  shows "accepted sv' r \<and>
    feed_run rnd (filter (\<lambda>(t, facts, rr). from_client (sv_addr sv r) rr) evs) (sv_conn sv r) = Some (sv_conn sv' r)"
  using assms
proof (induction evs arbitrary: sv)
  case (Cons e evs)
  obtain t facts rr where e: "e = (t, facts, rr)" by (cases e)
  from Cons.prems(3) obtain sv1 where t1: "demux_turn resolve rnd t facts rr sv = Inr sv1" "demux_run resolve rnd evs sv1 = Inr sv'"
    by (auto simp: e split: sum.splits)
  from turn_isolation [OF Cons.prems(1) t1(1)] Cons.prems(2) have s1: "sv_ok sv1" "accepted sv1 r" "sv_addr sv1 r = sv_addr sv r"
    "(if from_client (sv_addr sv r) rr then conn_feed rnd t (datagram rr) (sv_conn sv r) else Some (sv_conn sv r)) = Some (sv_conn sv1 r)"
    by simp_all
  from Cons.IH [OF s1(1,2) t1(2)] s1(3,4) show ?case by (cases "from_client (sv_addr sv r) rr") (simp_all add: e)
qed simp

text \<open>
  Admission. A datagram creates a connection if and only if it is a CRC-valid CONNECT_REQUEST from
  a sender without an open connection, and fewer than eight connections wait or one of those that
  wait is older than ten seconds; it creates exactly one.
\<close>

theorem udp_server_admission:
  assumes "sv_ok sv" and "demux_turn resolve rnd t facts (From_ok d host port tr) sv = Inr sv'"
  shows "length (sv_store sv') = length (sv_store sv) +
    (if isConnectRequest (deserialize d) \<and> \<not> sender_open sv (endpoint_key host port) \<and> has_room (ck_wallMs t) sv then 1 else 0)"
proof (cases "discover_token_of (deserialize d)")
  case (Some token)
  then show ?thesis using assms(2) connect_not_discover [of "deserialize d"]
    by (auto simp: demux_turn_def discovery_keeps(3))
next
  case None
  with assms(2) obtain res sv1 where route: "demux_route resolve t host port (deserialize d) sv = Inr (res, sv1)"
    and len: "length (sv_store sv') = length (sv_store sv1)"
    by (auto simp: demux_turn_def split: sum.splits prod.splits option.splits)
  let ?key = "endpoint_key host port"
  show ?thesis
  proof (cases "sender_open sv ?key")
    case True
    then show ?thesis using route len by (auto simp: sender_open_def demux_route_def Let_def split: option.splits)
  next
    case False
    define sv0 where "sv0 = (case omap_get (sv_byAddress sv) ?key of None \<Rightarrow> sv | Some r \<Rightarrow>
      sv\<lparr>sv_byId := omap_del (ca_id (sv_addr sv r)) (sv_byId sv), sv_byAddress := omap_del ?key (sv_byAddress sv)\<rparr>)"
    have route0: "(if isConnectRequest (deserialize d) then tryCreateConnectionLocked resolve t host port ?key sv0 else Inr (None, sv0)) = Inr (res, sv1)"
      using route False by (cases "omap_get (sv_byAddress sv) ?key"; cases "isConnectRequest (deserialize d)")
        (simp_all add: demux_route_def sender_open_def sv0_def Let_def)
    have "demux_route resolve t host port None sv = Inr (None, sv0)"
      using False by (cases "omap_get (sv_byAddress sv) ?key") (simp_all add: demux_route_def sender_open_def sv0_def Let_def isConnectRequest_def)
    from route_keeps [OF assms(1) this] have ok0: "sv_ok sv0" by blast
    have same: "length (sv_store sv0) = length (sv_store sv)" "has_room (ck_wallMs t) sv0 = has_room (ck_wallMs t) sv"
      by (simp_all add: sv0_def has_room_def split: option.splits)
    show ?thesis
    proof (cases "isConnectRequest (deserialize d)")
      case True
      with route0 create_length [OF ok0, of resolve t host port ?key res sv1] False len same show ?thesis by simp
    qed (use route0 len same in simp)
  qed
qed

section \<open>Concrete runs\<close>

definition demo_server :: udp_server where
  "demo_server = projr (sv_bind (Inr \<lparr>us_closed = False, us_outcomes = [], us_sent = []\<rparr>)
     (mk_udp_server default_udp_reliability \<lparr>us_closed = True, us_outcomes = [], us_sent = []\<rparr>))"

definition demo_connect :: bytes where
  "demo_connect = serialize (createControl 7 0 (cm_serialize \<lparr>messageType = ConnectRequest, cm_data = []\<rparr>))"

lemma demo_bind: "sv_bind (Inr \<lparr>us_closed = False, us_outcomes = [], us_sent = []\<rparr>)
    (mk_udp_server default_udp_reliability \<lparr>us_closed = True, us_outcomes = [], us_sent = []\<rparr>) = Inr demo_server"
  by (simp add: demo_server_def sv_bind_def mk_udp_server_def)

lemma demo_connect_request: "isConnectRequest (deserialize demo_connect)"
proof -
  let ?m = "\<lparr>messageType = ConnectRequest, cm_data = []\<rparr>"
  have "length (cm_serialize ?m) \<le> MAX_PAYLOAD" by (simp add: cm_serialize_def MAX_PAYLOAD_def)
  then show ?thesis
    by (simp add: demo_connect_def deserialize_serialize createControl_def mk_packet_def isConnectRequest_def cm_deserialize_serialize)
qed

lemma feed_Some:
  assumes "uc_jitterEstimator c = None" "uc_controlReliability c = None"
  shows "\<exists>c'. conn_feed rnd t d c = Some c'"
  using assms by (auto simp: conn_feed_def enqueueReceived_def control_stage_def jitter_stage_def Let_def split: option.splits)

lemma turn_garbage:
  assumes "deserialize d = None"
  shows "\<exists>sv'. demux_turn resolve rnd t facts (From_ok d host port tr) sv = Inr sv'"
  using assms by (auto simp: demux_turn_def discover_token_of_def demux_route_def isConnectRequest_def conn_feed_def Let_def
      split: option.splits)

definition demo_resolve :: "string \<Rightarrow> string" where "demo_resolve h = h"

lemma demo_ctor: "\<exists>c. mk_udp_connection demo_clocks demo_resolve False (sv_socket demo_server) ''10.0.0.7'' 4000 default_udp_reliability = Inr c \<and>
    uc_jitterEstimator c = None \<and> uc_controlReliability c = None"
  by (simp add: mk_udp_connection_def initPipeline_def init_fec_def init_reorder_def init_jitter_def init_control_def
      default_udp_reliability_def mk_reorder_buffer_def)

text \<open>A client connects: a connection is created and waits to be accepted.\<close>

lemma demo_admitted:
  "\<exists>sv. demux_turn demo_resolve (\<lambda>x. x) demo_clocks None (From_ok demo_connect ''10.0.0.7'' 4000 False) demo_server = Inr sv \<and>
    sv_ok sv \<and> sv_isBound sv \<and> sv_running sv \<and> map pe_conn (sv_pending sv) = [0] \<and> length (sv_store sv) = 1 \<and>
    sv_addr sv 0 = \<lparr>ca_id = ''udp-1'', ca_host = Some ''10.0.0.7'', ca_port = 4000\<rparr> \<and> sv_byId sv = [(''udp-1'', 0)]"
proof -
  from demo_ctor obtain c where c: "mk_udp_connection demo_clocks demo_resolve False (sv_socket demo_server) ''10.0.0.7'' 4000 default_udp_reliability = Inr c"
    "uc_jitterEstimator c = None" "uc_controlReliability c = None" by blast
  from feed_Some [OF c(2,3)] obtain c' where f: "conn_feed (\<lambda>x. x) demo_clocks demo_connect c = Some c'" by blast
  have s: "sv_byAddress demo_server = []" "sv_pending demo_server = []" "sv_store demo_server = []" "sv_cfg demo_server = default_udp_reliability"
    "sv_clientIdCounter demo_server = 1" "sv_byId demo_server = []" "sv_bound demo_server" "sv_running demo_server" "\<not> us_closed (sv_socket demo_server)"
    by (simp_all add: demo_server_def sv_bind_def mk_udp_server_def)
  have one: "to_string 1 = ''1''" by code_simp
  have tok: "discover_token_of (deserialize demo_connect) = None" using connect_not_discover demo_connect_request by blast
  let ?a = "\<lparr>ca_id = ''udp-1'', ca_host = Some ''10.0.0.7'', ca_port = 4000\<rparr>"
  let ?sv = "demo_server\<lparr>sv_clientIdCounter := 2, sv_store := [(?a, c')],
      sv_byAddress := [(endpoint_key ''10.0.0.7'' 4000, 0)], sv_byId := [(''udp-1'', 0)],
      sv_pending := [\<lparr>pe_conn = 0, pe_since = ck_wallMs demo_clocks\<rparr>]\<rparr>"
  have route: "demux_route demo_resolve demo_clocks ''10.0.0.7'' 4000 (deserialize demo_connect) demo_server =
      Inr (Some 0, ?sv\<lparr>sv_store := [(?a, c)]\<rparr>)"
    using c(1) demo_connect_request one
    by (simp add: demux_route_def tryCreateConnectionLocked_def s MAX_PENDING_CONNECTIONS_def Let_def)
  then have turn: "demux_turn demo_resolve (\<lambda>x. x) demo_clocks None (From_ok demo_connect ''10.0.0.7'' 4000 False) demo_server = Inr ?sv"
    using f by (simp add: demux_turn_def tok sv_conn_def sv_addr_def sv_update_def)
  moreover have "sv_ok ?sv" using turn_isolation [OF bind_ok [OF demo_bind] turn] by blast
  ultimately show ?thesis using s by (intro exI [of _ ?sv]) (simp add: sv_isBound_def sv_addr_def)
qed

theorem udp_server_routing_witness:
  "\<exists>sv. (sv_step demo_resolve (\<lambda>x. x))\<^sup>*\<^sup>* (demo_server, []) (sv, [0]) \<and> length (sv_store sv) = 1 \<and> sv_byId sv = [] \<and> sv_inv {0} sv"
proof -
  obtain sv where sv: "demux_turn demo_resolve (\<lambda>x. x) demo_clocks None (From_ok demo_connect ''10.0.0.7'' 4000 False) demo_server = Inr sv"
    "length (sv_store sv) = 1" "sv_byId sv = [(''udp-1'', 0)]" using demo_admitted by blast
  let ?d = "sv\<lparr>sv_byId := [], sv_byAddress := [], sv_pending := []\<rparr>"
  have d: "close_drain sv = ([0], ?d)" by (simp add: close_drain_def sv(3))
  have "sv_step demo_resolve (\<lambda>x. x) (demo_server, []) (sv, [])" by (rule Demux [OF sv(1)])
  moreover have "sv_step demo_resolve (\<lambda>x. x) (sv, []) (?d, [0])" using Drain [OF d, of demo_resolve "\<lambda>x. x" "[]"] by simp
  ultimately have r: "(sv_step demo_resolve (\<lambda>x. x))\<^sup>*\<^sup>* (demo_server, []) (?d, [0])" by (meson r_into_rtranclp rtranclp_trans)
  from udp_server_routing [OF demo_bind r] r sv(2) show ?thesis by (intro exI [of _ ?d]) simp
qed

lemma demo_accepted:
  "\<exists>sv. sv_ok sv \<and> accepted sv 0 \<and> sv_addr sv 0 = \<lparr>ca_id = ''udp-1'', ca_host = Some ''10.0.0.7'', ca_port = 4000\<rparr>"
proof -
  from demo_admitted obtain sv where "demux_turn demo_resolve (\<lambda>x. x) demo_clocks None (From_ok demo_connect ''10.0.0.7'' 4000 False) demo_server = Inr sv"
    and sv: "sv_ok sv" "sv_isBound sv" "sv_running sv" "map pe_conn (sv_pending sv) = [0]" "length (sv_store sv) = 1"
    "sv_addr sv 0 = \<lparr>ca_id = ''udp-1'', ca_host = Some ''10.0.0.7'', ca_port = 4000\<rparr>" by (elim exE conjE) (rule that)
  obtain e where e: "sv_pending sv = [e]" "pe_conn e = 0" using sv(4) by (cases "sv_pending sv") auto
  have o: "\<not> uc_closed (sv_conn sv 0)" using sv(1) e by (simp add: sv_inv_def routed_def)
  have "acceptClient sv = (Accepted 0, sv\<lparr>sv_pending := []\<rparr>)" using sv(2,3) e o by (simp add: acceptClient_def)
  then have "sv_ok (sv\<lparr>sv_pending := []\<rparr>)" using accept_ok [OF sv(1)] by simp
  then show ?thesis using sv(5,6) o by (intro exI [of _ "sv\<lparr>sv_pending := []\<rparr>"]) (simp add: accepted_def)
qed

theorem udp_server_isolation_witness:
  "\<exists>sv sv'. accepted sv 0 \<and>
    demux_run demo_resolve (\<lambda>x. x) [(demo_clocks, None, From_ok [1, 2, 3] ''10.0.0.66'' 4000 False),
      (demo_clocks, None, From_ok [1, 2, 3] ''10.0.0.7'' 4000 False)] sv = Inr sv' \<and>
    uc_crcErrors (sv_conn sv' 0) = uc_crcErrors (sv_conn sv 0) + 1"
proof -
  obtain sv where sv: "sv_ok sv" "accepted sv 0" "sv_addr sv 0 = \<lparr>ca_id = ''udp-1'', ca_host = Some ''10.0.0.7'', ca_port = 4000\<rparr>"
    using demo_accepted by blast
  have g: "deserialize [1, 2, 3] = None" by (simp add: deserialize_def packet_consts)
  let ?evs = "[(demo_clocks, None, From_ok [1, 2, 3] ''10.0.0.66'' 4000 False), (demo_clocks, None, From_ok [1, 2, 3] ''10.0.0.7'' 4000 False)]"
  obtain sv1 where s1: "demux_turn demo_resolve (\<lambda>x. x) demo_clocks None (From_ok [1, 2, 3] ''10.0.0.66'' 4000 False) sv = Inr sv1"
    using turn_garbage [OF g] by blast
  obtain sv2 where s2: "demux_turn demo_resolve (\<lambda>x. x) demo_clocks None (From_ok [1, 2, 3] ''10.0.0.7'' 4000 False) sv1 = Inr sv2"
    using turn_garbage [OF g] by blast
  have run: "demux_run demo_resolve (\<lambda>x. x) ?evs sv = Inr sv2" using s1 s2 by simp
  from udp_server_isolation [OF sv(1,2) run] have "recordCrcError (sv_conn sv 0) = sv_conn sv2 0"
    by (simp add: sv(3) from_client_def discover_token_of_def g conn_feed_def datagram_def)
  moreover have "uc_crcErrors (recordCrcError c) = uc_crcErrors c + 1" for c by (simp add: recordCrcError_def)
  ultimately have "uc_crcErrors (sv_conn sv2 0) = uc_crcErrors (sv_conn sv 0) + 1" by metis
  with sv(2) run show ?thesis by blast
qed

theorem udp_server_admission_witness:
  "\<exists>sv. demux_turn demo_resolve (\<lambda>x. x) demo_clocks None (From_ok demo_connect ''10.0.0.7'' 4000 False) demo_server = Inr sv \<and>
    length (sv_store sv) = length (sv_store demo_server) + 1"
proof -
  obtain sv where sv: "demux_turn demo_resolve (\<lambda>x. x) demo_clocks None (From_ok demo_connect ''10.0.0.7'' 4000 False) demo_server = Inr sv"
    using demo_admitted by blast
  have "\<not> sender_open demo_server (endpoint_key ''10.0.0.7'' 4000)" "has_room (ck_wallMs demo_clocks) demo_server"
    by (simp_all add: sender_open_def has_room_def demo_server_def sv_bind_def mk_udp_server_def MAX_PENDING_CONNECTIONS_def)
  with udp_server_admission [OF bind_ok [OF demo_bind] sv] demo_connect_request sv show ?thesis by simp
qed

end
