(* ===== verification/Stream_Server.thy ===== *)
theory Stream_Server
  imports Audio_Broadcaster Udp_Server
begin

text \<open>
  The stream server (\<open>src/src/net/AudioStreamServer.cpp\<close>): the accept thread, the three threads of every
  client session, the shared broadcaster and mixer with their callbacks into the sessions, the roster, and the
  two-pass shutdown. The sessions live in a store, since a thread keeps its session after the roster has dropped it. The threads
  interleave: a step of the relation is one section of one thread between two points where it can wait, and
  everything that comes from outside (packets, outcomes of sends, clocks, device errors) is an argument of the step.
  \<open>ClientSession::close\<close> is the exchange of \<open>closed_\<close> followed by five such sections, each of them a step of the
  thread that won the exchange; it uses the broadcaster and the mixer that the server has when the section runs, where the code uses the ones it copied at
  the start, which differs only after a stop has released them.
  \<open>None\<close> is an exception that nothing catches or an overflow.
\<close>

section \<open>State\<close>

text \<open>
  Where the run thread of a session is: \<open>R_new\<close> before it is started, \<open>R_leaving\<close> while it is inside the
  \<open>close()\<close> of its \<open>leaveRoster\<close>.
\<close>

datatype run_phase = R_new | R_handshake | R_accepting | R_streaming | R_leaving | R_done

text \<open>
  \<open>close()\<close> takes several locks one after the other, and other threads run between its sections: the stage that is next,
  and the thread that won the exchange of \<open>closed_\<close> and executes them. A receive thread that closes because of a receive
  error ends afterwards (\<open>By_receiver True\<close>), one that was told to disconnect goes on with its loop.
\<close>

datatype session_stage = Cl_target | Cl_mixer | Cl_roster | Cl_out | Cl_conn
datatype session_closer = By_run | By_writer | By_receiver bool | By_stop | By_fanout

record srv_session =
  sx_cs :: client_session
  sx_run :: run_phase
  sx_writer :: bool
  sx_receiver :: bool
  sx_connClosed :: bool
  sx_close :: "(session_stage \<times> session_closer) option"

text \<open>
  The accept thread inside \<open>handleNewClient\<close>, and the thread inside \<open>stop\<close>: while it closes the sessions of its
  snapshot (in the first pass or the second) it has the one it is closing and those that are left.
\<close>

datatype accept_state = Acc_idle | Acc_opening string string | Acc_checked string string | Acc_inserted string string

datatype stop_phase = St_none | St_teardown1 | St_closing bool "string option" "string list" | St_barrier1 | St_join
  | St_teardown2 | St_barrier2

record audio_server =
  as_config :: audio_stream_config
  as_backend :: bool
  as_captureId :: bool
  as_playbackId :: bool
  as_injectOnly :: bool
  as_running :: bool
  as_clientIdCounter :: nat
  as_transport :: bool
  as_acceptThread :: bool
  as_accept :: accept_state
  as_stop :: stop_phase
  as_broadcaster :: "broadcaster option"
  as_mixer :: "audio_mixer option"
  as_captureOpen :: bool
  as_playbackOpen :: bool
  as_sessions :: "string list"
  as_objs :: "string \<rightharpoonup> srv_session"
  as_failed :: "string list"
  as_activeThreads :: int
  as_evictions :: nat
  as_events :: "server_note list"
  as_rejected :: "(string \<times> control_message) list"

definition mk_audio_server :: "audio_stream_config \<Rightarrow> bool \<Rightarrow> bool \<Rightarrow> bool \<Rightarrow> bool \<Rightarrow> audio_server" where
  "mk_audio_server config backend captureId playbackId injectOnly =
     \<lparr>as_config = config, as_backend = backend, as_captureId = captureId, as_playbackId = playbackId, as_injectOnly = injectOnly,
      as_running = False, as_clientIdCounter = 1, as_transport = False, as_acceptThread = False, as_accept = Acc_idle,
      as_stop = St_none, as_broadcaster = None, as_mixer = None, as_captureOpen = False, as_playbackOpen = False,
      as_sessions = [], as_objs = Map.empty, as_failed = [], as_activeThreads = 0, as_evictions = 0, as_events = [], as_rejected = []\<rparr>"

section \<open>Notifications and roster\<close>

definition post :: "server_note list \<Rightarrow> audio_server \<Rightarrow> audio_server" where
  "post ns sv = sv\<lparr>as_events := as_events sv @ filter (\<lambda>n. n \<noteq> Count_eviction) ns,
     as_evictions := as_evictions sv + length (filter (\<lambda>n. n = Count_eviction) ns)\<rparr>"

text \<open>A call into a session.\<close>

definition on_cs :: "string \<Rightarrow> (client_session \<Rightarrow> client_session \<times> server_note list) \<Rightarrow> audio_server \<Rightarrow> audio_server" where
  "on_cs i f sv =
     (case as_objs sv i of
        None \<Rightarrow> sv
      | Some x \<Rightarrow> let (s, ns) = f (sx_cs x) in post ns (sv\<lparr>as_objs := (as_objs sv)(i \<mapsto> x\<lparr>sx_cs := s\<rparr>)\<rparr>))"

definition clients_update :: "audio_server \<Rightarrow> control_message" where
  "clients_update sv =
     clientsUpdateWithInfo (int (length (as_sessions sv))) (maxClients (as_config sv))
       (case as_mixer sv of Some m \<Rightarrow> currentTxOwner m | None \<Rightarrow> []) (as_sessions sv)
       (Some (\<lambda>i. if i \<in> set (as_sessions sv) then (case as_objs sv i of Some x \<Rightarrow> cs_clientInfo (sx_cs x) | None \<Rightarrow> None) else None))"

definition broadcastClientsUpdate :: "audio_server \<Rightarrow> audio_server" where
  "broadcastClientsUpdate sv =
     (if as_sessions sv = [] then sv
      else fold (\<lambda>i. on_cs i (sendControlMessage (clients_update sv))) (as_sessions sv) sv)"

text \<open>The callbacks of the mixer: into the sessions it registered, and the server's own listener.\<close>

fun mixer_callback :: "mixer_note \<Rightarrow> audio_server \<Rightarrow> audio_server" where
  "mixer_callback (OnTxGranted i) sv = on_cs i cs_onTxGranted sv"
| "mixer_callback (OnPreempted i by) sv = on_cs i (cs_onPreempted by) sv"
| "mixer_callback (OnTxReleased i) sv = on_cs i cs_onTxReleased sv"
| "mixer_callback (OnOwnerChanged _) sv = broadcastClientsUpdate sv"
| "mixer_callback (OnConflict _ _) sv = sv"

section \<open>Closing a session\<close>

definition on_sx :: "string \<Rightarrow> (srv_session \<Rightarrow> srv_session) \<Rightarrow> audio_server \<Rightarrow> audio_server" where
  "on_sx i f sv = sv\<lparr>as_objs := (as_objs sv)(i := map_option f (as_objs sv i))\<rparr>"

definition set_run :: "run_phase \<Rightarrow> string \<Rightarrow> audio_server \<Rightarrow> audio_server" where
  "set_run r i sv = on_sx i (\<lambda>x. x\<lparr>sx_run := r\<rparr>) sv"

definition thread_finished :: "audio_server \<Rightarrow> audio_server" where
  "thread_finished sv = sv\<lparr>as_activeThreads := as_activeThreads sv - 1\<rparr>"

definition writer_exit :: "string \<Rightarrow> audio_server \<Rightarrow> audio_server" where
  "writer_exit i sv = thread_finished (on_sx i (\<lambda>x. x\<lparr>sx_writer := False\<rparr>) sv)"

definition receiver_exit :: "string \<Rightarrow> audio_server \<Rightarrow> audio_server" where
  "receiver_exit i sv = thread_finished (on_sx i (\<lambda>x. x\<lparr>sx_receiver := False\<rparr>) sv)"

text \<open>What the run thread does in \<open>leaveRoster\<close> once its \<open>close()\<close> has returned, and its end.\<close>

definition run_gone :: "string \<Rightarrow> audio_server \<Rightarrow> audio_server" where
  "run_gone i sv = thread_finished (set_run R_done i (broadcastClientsUpdate (post [OnClientDisconnected i] sv)))"

text \<open>How a thread goes on when its call of \<open>close()\<close> returns.\<close>

fun after_close :: "session_closer \<Rightarrow> string \<Rightarrow> audio_server \<Rightarrow> audio_server" where
  "after_close By_run i sv = run_gone i sv"
| "after_close By_writer i sv = writer_exit i sv"
| "after_close (By_receiver ends) i sv = (if ends then receiver_exit i sv else sv)"
| "after_close By_stop i sv = sv"
| "after_close By_fanout i sv = sv"

text \<open>
  The call: the exchange of \<open>closed_\<close>. The loser returns at once, also while the winner is still on its way through the
  sections.
\<close>

definition session_close :: "session_closer \<Rightarrow> string \<Rightarrow> audio_server \<Rightarrow> audio_server" where
  "session_close who i sv =
     (case as_objs sv i of
        None \<Rightarrow> sv
      | Some x \<Rightarrow>
          if cs_closed (sx_cs x) then after_close who i sv
          else on_sx i (\<lambda>x. x\<lparr>sx_cs := (sx_cs x)\<lparr>cs_closed := True\<rparr>, sx_close := Some (Cl_target, who)\<rparr>) sv)"

text \<open>The sections, and one step of the thread that is inside \<open>close()\<close>.\<close>

fun close_section :: "session_stage \<Rightarrow> string \<Rightarrow> audio_server \<Rightarrow> audio_server" where
  "close_section Cl_target i sv = sv\<lparr>as_broadcaster := map_option (\<lambda>b. snd (removeTarget i b)) (as_broadcaster sv)\<rparr>"
| "close_section Cl_mixer i sv =
     (case as_mixer sv of
        None \<Rightarrow> sv
      | Some m \<Rightarrow> let (m, notes) = unregisterClient i m in fold mixer_callback notes (sv\<lparr>as_mixer := Some m\<rparr>))"
| "close_section Cl_roster i sv = sv\<lparr>as_sessions := removeAll i (as_sessions sv)\<rparr>"
| "close_section Cl_out i sv = on_cs i (\<lambda>s. (s\<lparr>cs_outClosed := True\<rparr>, [])) sv"
| "close_section Cl_conn i sv = on_sx i (\<lambda>x. x\<lparr>sx_connClosed := True\<rparr>) sv"

fun next_stage :: "session_stage \<Rightarrow> session_stage option" where
  "next_stage Cl_target = Some Cl_mixer"
| "next_stage Cl_mixer = Some Cl_roster"
| "next_stage Cl_roster = Some Cl_out"
| "next_stage Cl_out = Some Cl_conn"
| "next_stage Cl_conn = None"

definition close_turn :: "session_stage \<Rightarrow> session_closer \<Rightarrow> string \<Rightarrow> audio_server \<Rightarrow> audio_server" where
  "close_turn st who i sv =
     (let sv = on_sx i (\<lambda>x. x\<lparr>sx_close := map_option (\<lambda>st. (st, who)) (next_stage st)\<rparr>) (close_section st i sv)
      in if next_stage st = None then after_close who i sv else sv)"

definition leaveRoster :: "string \<Rightarrow> audio_server \<Rightarrow> audio_server" where
  "leaveRoster i sv = session_close By_run i (set_run R_leaving i sv)"

section \<open>Shared audio\<close>

text \<open>The outcomes of the two device opens: an error text, or success.\<close>

definition openSharedAudioLines :: "string option \<Rightarrow> string option \<Rightarrow> audio_server \<Rightarrow> string option \<times> audio_server" where
  "openSharedAudioLines capture playback sv =
     (let openCapture = (\<not> as_captureOpen sv \<and> as_captureId sv \<and> as_backend sv)
      in if openCapture \<and> capture \<noteq> None then (capture, sv)
         else let sv = (if openCapture then sv\<lparr>as_captureOpen := True, as_broadcaster := map_option bc_start (as_broadcaster sv)\<rparr> else sv);
                  openPlayback = (\<not> as_playbackOpen sv \<and> as_playbackId sv \<and> as_backend sv)
           in if openPlayback \<and> playback \<noteq> None then (playback, sv)
              else (None, if openPlayback then sv\<lparr>as_playbackOpen := True, as_mixer := map_option mixer_start (as_mixer sv)\<rparr> else sv))"

definition stopSharedAudio :: "audio_server \<Rightarrow> audio_server" where
  "stopSharedAudio sv = sv\<lparr>as_broadcaster := None, as_mixer := None, as_captureOpen := False, as_playbackOpen := False\<rparr>"

definition initializeSharedAudio :: "string option \<Rightarrow> string option \<Rightarrow> audio_server \<Rightarrow> (string option \<times> audio_server) option" where
  "initializeSharedAudio capture playback sv =
     (case mk_audio_mixer (as_config sv) of
        None \<Rightarrow> None
      | Some m \<Rightarrow>
          let sv = sv\<lparr>as_broadcaster := Some (mk_broadcaster (as_config sv)), as_mixer := Some m\<rparr>
          in Some (if as_captureId sv
                   then case openSharedAudioLines capture playback sv of
                          (Some err, sv) \<Rightarrow> (Some err, stopSharedAudio sv)
                        | (None, sv) \<Rightarrow> (None, sv)
                   else (None, sv)))"

section \<open>Start\<close>

text \<open>The transport of a configuration; a supplied factory replaces it outright.\<close>

datatype transport_choice = Choose_udp udp_reliability_config | Choose_dual | Choose_tcp

definition reliability_of :: "audio_stream_config \<Rightarrow> udp_reliability_config option" where
  "reliability_of c = map_option (\<lambda>n. \<lparr>rc_reorderWindowSize = reorderBufferSize c, rc_reorderMaxHoldMs = reorderMaxHoldMs c,
     rc_fecEnabled = fecEnabled c, rc_fecBlockSize = fecBlockSize c, rc_frameDurationMs = frameDurationMs c,
     rc_maxAudioPayloadBytes = int n, rc_adaptiveJitterEnabled = adaptiveJitterEnabled c,
     rc_jitterMinMs = bufferMinMs c, rc_jitterMaxMs = bufferMaxMs c, rc_jitterMultiplier = jitterMultiplier c,
     rc_controlReliabilityEnabled = controlReliabilityEnabled c,
     rc_controlRetransmitMaxAttempts = controlRetransmitMaxAttempts c\<rparr>) (config_udpMaxAudioPayload c)"

definition createTransport :: "audio_stream_config \<Rightarrow> transport_choice option" where
  "createTransport c =
     (case transportType c of
        Udp \<Rightarrow> map_option Choose_udp (reliability_of c)
      | Dual \<Rightarrow> Some Choose_dual
      | Tcp \<Rightarrow> Some Choose_tcp)"

definition bare_udp :: "audio_stream_config \<Rightarrow> bool" where
  "bare_udp c \<longleftrightarrow> (transportType c = Udp \<or> transportType c = Dual) \<and> \<not> fecEnabled c \<and> reorderBufferSize c = 0 \<and>
     \<not> adaptiveJitterEnabled c \<and> \<not> controlReliabilityEnabled c \<and> \<not> explicitBareUdp c"

definition bare_udp_text :: string where
  "bare_udp_text = ''UDP with no reliability layer: select a profile '' @
     ''(na_server_set_reliability_profile / AudioStreamConfig preset, e.g. '' @
     ''NA_RELIABILITY_UDP_WAN) or explicitly request bare UDP '' @
     ''(NA_RELIABILITY_UDP_BARE / AudioStreamConfig::udpBare())''"

text \<open>
  \<open>transport\<close> says whether the factory, if there is one, returned a transport; \<open>bound\<close> is the
  outcome of the bind, an error or the port.
\<close>

definition server_start ::
  "bool \<Rightarrow> string + int \<Rightarrow> string option \<Rightarrow> string option \<Rightarrow> audio_server \<Rightarrow> (string option \<times> audio_server) option" where
  "server_start transport bound capture playback sv =
     (if as_running sv then Some (Some ''Server already running'', sv)
      else if bare_udp (as_config sv) then Some (Some bare_udp_text, sv)
      else if \<not> transport then Some (Some ''Transport factory returned no transport'', sv)
      else case bound of
             Inl err \<Rightarrow> Some (Some err, sv)
           | Inr port \<Rightarrow>
               (case initializeSharedAudio capture playback (sv\<lparr>as_transport := True, as_running := True\<rparr>) of
                  None \<Rightarrow> None
                | Some (Some err, sv) \<Rightarrow> Some (Some err, sv\<lparr>as_running := False, as_transport := False\<rparr>)
                | Some (None, sv) \<Rightarrow> Some (None, post [OnServerStarted port] (sv\<lparr>as_acceptThread := True\<rparr>))))"

text \<open>What a probe is told, read live; the port is the transport's.\<close>

definition discovery_provider :: "int \<Rightarrow> audio_server \<Rightarrow> discovery_facts" where
  "discovery_provider bound sv =
     (let c = as_config sv; sat = (\<lambda>x. if x > 255 then 255 else if x < 0 then 0 else word_of_int x :: u8)
      in \<lparr>df_enabled = discoverable c, df_port = (if bound > 0 then word_of_int bound else 0),
          df_transports = (case transportType c of Udp \<Rightarrow> 2 | Dual \<Rightarrow> 3 | Tcp \<Rightarrow> 1),
          df_sampleRate = word_of_int (sampleRate c), df_bitsPerSample = word_of_int (bitsPerSample c),
          df_channels = word_of_int (channels c), df_clientCount = sat (int (length (as_sessions sv))),
          df_maxClients = sat (maxClients c), df_name = serverName c\<rparr>)"

section \<open>The accept thread\<close>

definition reject :: "string \<Rightarrow> reject_reason \<Rightarrow> string \<Rightarrow> audio_server \<Rightarrow> audio_server" where
  "reject addr reason msg sv = sv\<lparr>as_rejected := as_rejected sv @ [(addr, connectReject reason msg)], as_accept := Acc_idle\<rparr>"

definition session_id :: "nat \<Rightarrow> string" where "session_id n = ''audio-'' @ to_string n"

text \<open>\<open>handleNewClient\<close> in three sections: the checks, the device lines, the insertion, and the start of the session.\<close>

definition accept_check :: "string \<Rightarrow> audio_server \<Rightarrow> audio_server" where
  "accept_check addr sv =
     (if \<not> as_running sv then sv
      else let i = session_id (as_clientIdCounter sv); sv = sv\<lparr>as_clientIdCounter := as_clientIdCounter sv + 1\<rparr>
        in if \<not> as_captureId sv \<and> \<not> as_injectOnly sv then reject addr Rejected ''Capture device not configured'' sv
           else if \<not> int (length (as_sessions sv)) < maxClients (as_config sv)
           then reject addr Busy (''Maximum clients ('' @ int_string (maxClients (as_config sv)) @ '') reached'') sv
           else sv\<lparr>as_accept := Acc_opening i addr\<rparr>)"

definition accept_open :: "string option \<Rightarrow> string option \<Rightarrow> string \<Rightarrow> string \<Rightarrow> audio_server \<Rightarrow> audio_server" where
  "accept_open capture playback i addr sv =
     (case openSharedAudioLines capture playback sv of
        (Some err, sv) \<Rightarrow> reject addr Rejected (''Audio devices unavailable: '' @ err) sv
      | (None, sv) \<Rightarrow> sv\<lparr>as_accept := Acc_checked i addr\<rparr>)"

definition accept_insert :: "string \<Rightarrow> string \<Rightarrow> audio_server \<Rightarrow> audio_server option" where
  "accept_insert i addr sv =
     (case mk_client_session (as_config sv) i of
        None \<Rightarrow> None
      | Some s \<Rightarrow>
          Some (if \<not> as_running sv then sv\<lparr>as_accept := Acc_idle\<rparr>
                else sv\<lparr>as_accept := Acc_inserted i addr, as_sessions := oset_insert i (as_sessions sv),
                  as_objs := (as_objs sv)(i \<mapsto> \<lparr>sx_cs = s, sx_run = R_new, sx_writer = False, sx_receiver = False,
                    sx_connClosed = False, sx_close = None\<rparr>)\<rparr>))"

definition accept_start :: "string \<Rightarrow> string \<Rightarrow> audio_server \<Rightarrow> audio_server" where
  "accept_start i addr sv =
     set_run R_handshake i ((post [OnClientConnected i addr] sv)\<lparr>as_activeThreads := as_activeThreads sv + 1, as_accept := Acc_idle\<rparr>)"

section \<open>The run thread\<close>

text \<open>\<open>packet\<close> is what the connection would deliver; the receive loop is gated on the session and the server.\<close>

definition run_handshake :: "audio_packet option \<Rightarrow> string \<Rightarrow> srv_session \<Rightarrow> audio_server \<Rightarrow> audio_server option" where
  "run_handshake packet i x sv =
     (let packet = (if cs_closed (sx_cs x) \<or> \<not> as_running sv then None else packet)
      in case performHandshake (as_config sv) packet (sx_cs x) of
           Inl e \<Rightarrow> None
         | Inr (False, s) \<Rightarrow> Some (leaveRoster i (on_cs i (\<lambda>_. (s, [])) sv))
         | Inr (True, s) \<Rightarrow>
             (case rederive_cap s of None \<Rightarrow> None | Some s \<Rightarrow> Some (set_run R_accepting i (on_cs i (\<lambda>_. (s, [])) sv))))"

definition start_io_threads :: "string \<Rightarrow> audio_server \<Rightarrow> audio_server" where
  "start_io_threads i sv = sv\<lparr>as_activeThreads := as_activeThreads sv + 2,
     as_objs := (as_objs sv)(i := map_option (\<lambda>x. x\<lparr>sx_writer := True, sx_receiver := True\<rparr>) (as_objs sv i))\<rparr>"

text \<open>\<open>sent\<close>: whether the configuration and the accept message went out.\<close>

definition run_register :: "bool \<Rightarrow> string \<Rightarrow> srv_session \<Rightarrow> audio_server \<Rightarrow> audio_server" where
  "run_register sent i x sv =
     (if \<not> sent then leaveRoster i sv
      else let sv = sv\<lparr>as_broadcaster := map_option (addTarget i) (as_broadcaster sv),
                       as_mixer := map_option (registerClient i (cs_txPriority (sx_cs x))) (as_mixer sv)\<rparr>;
               sv = start_io_threads i sv;
               sv = post [OnStreamStarted i] sv;
               sv = on_cs i (\<lambda>s. (s\<lparr>cs_streaming := True\<rparr>, [])) sv
           in set_run R_streaming i (broadcastClientsUpdate sv))"

definition run_finish :: "string \<Rightarrow> audio_server \<Rightarrow> audio_server" where
  "run_finish i sv = leaveRoster i (post [OnStreamStopped i] (on_cs i (\<lambda>s. (s\<lparr>cs_streaming := False\<rparr>, [])) sv))"

text \<open>One turn of the heartbeat loop: whether a heartbeat was due and went out, whether the peer timed out.\<close>

definition run_tick :: "bool \<Rightarrow> bool \<Rightarrow> bool \<Rightarrow> string \<Rightarrow> srv_session \<Rightarrow> audio_server \<Rightarrow> audio_server" where
  "run_tick hbDue hbSent timedOut i x sv =
     (if cs_closed (sx_cs x) \<or> \<not> as_running sv then run_finish i sv
      else if hbDue \<and> \<not> hbSent then run_finish i (post [OnError i ''Heartbeat send failed: client is not draining''] sv)
      else if timedOut then run_finish i (post [OnError i ''Connection timeout''] sv)
      else sv)"

section \<open>The writer and the receive thread\<close>

definition writer_turn :: "bool \<Rightarrow> string \<Rightarrow> srv_session \<Rightarrow> audio_server \<Rightarrow> audio_server" where
  "writer_turn ok i x sv =
     (case writer_take (sx_cs x) of
        (None, _) \<Rightarrow> if cs_outClosed (sx_cs x) then writer_exit i sv else sv
      | (Some item, s) \<Rightarrow>
          let sv = on_cs i (\<lambda>_. (s, [])) sv
          in if ok then sv else session_close By_writer i (post (writer_failed item s) sv))"

datatype receive_outcome = Rx_none | Rx_closed | Rx_packet audio_packet provenance

text \<open>The clocks: steady milliseconds, the ring's wall clock, wall nanoseconds.\<close>

definition receive_turn ::
  "receive_outcome \<Rightarrow> int \<Rightarrow> int \<Rightarrow> int \<Rightarrow> string \<Rightarrow> srv_session \<Rightarrow> audio_server \<Rightarrow> audio_server option" where
  "receive_turn r now wall nanos i x sv =
     (if cs_closed (sx_cs x) \<or> \<not> as_running sv then Some (receiver_exit i sv)
      else case r of
             Rx_none \<Rightarrow> Some sv
           | Rx_closed \<Rightarrow> Some (session_close (By_receiver True) i (post [OnError i ''Receive error''] sv))
           | Rx_packet p prov \<Rightarrow>
               if ptype p = AudioTx then
                 let (s, mixer, mnotes, notes) = handleTxAudio now wall (payload p) prov (sx_cs x) (as_mixer sv)
                 in Some (fold mixer_callback mnotes (on_cs i (\<lambda>_. (s, notes)) (sv\<lparr>as_mixer := mixer\<rparr>)))
               else if ptype p = Control then
                 (case cs_handleControlMessage nanos p (sx_cs x) of
                    None \<Rightarrow> None
                  | Some (disconnect, s, notes) \<Rightarrow>
                      let sv = on_cs i (\<lambda>_. (s, notes)) sv in Some (if disconnect then session_close (By_receiver False) i sv else sv))
               else Some sv)"

section \<open>Fan-out and mixer threads\<close>

definition server_recv :: "audio_stream_config \<Rightarrow> string \<Rightarrow> bytes \<Rightarrow> nat \<Rightarrow> nat \<Rightarrow> audio_server \<Rightarrow> bool \<times> audio_server" where
  "server_recv native i d p n sv =
     (case as_objs sv i of
        None \<Rightarrow> (False, sv)
      | Some x \<Rightarrow> let (ok, s, ns) = receiveRxAudio native d p n (sx_cs x)
          in (ok, post ns (sv\<lparr>as_objs := (as_objs sv)(i \<mapsto> x\<lparr>sx_cs := s\<rparr>)\<rparr>)))"

text \<open>
  The server's broadcast listener closes the session if the roster still has it. The fan-out leaves the failed targets
  to \<open>target_report\<close>, which other threads may precede; the order in which one fan-out reports them is left open.
\<close>

definition target_failed :: "string \<Rightarrow> string \<Rightarrow> audio_server \<Rightarrow> audio_server" where
  "target_failed i reason sv = sv\<lparr>as_failed := as_failed sv @ [i]\<rparr>"

definition target_report :: "string \<Rightarrow> audio_server \<Rightarrow> audio_server" where
  "target_report i sv =
     (let sv = sv\<lparr>as_failed := remove1 i (as_failed sv)\<rparr> in if i \<in> set (as_sessions sv) then session_close By_fanout i sv else sv)"

definition with_broadcaster :: "(broadcaster \<times> audio_server) option \<Rightarrow> audio_server option" where
  "with_broadcaster r = map_option (\<lambda>(b, sv). sv\<lparr>as_broadcaster := Some b\<rparr>) r"

definition as_injectAudio :: "bytes \<Rightarrow> audio_server \<Rightarrow> audio_server option" where
  "as_injectAudio d sv =
     (if d = [] then Some sv
      else case as_broadcaster sv of
             None \<Rightarrow> Some sv
           | Some b \<Rightarrow> with_broadcaster (injectAudio (server_recv (as_config sv)) target_failed d b sv))"

definition server_capture :: "capture_read \<Rightarrow> audio_server \<Rightarrow> audio_server option" where
  "server_capture r sv =
     (case as_broadcaster sv of
        None \<Rightarrow> Some sv
      | Some b \<Rightarrow> with_broadcaster (map_option snd (capture_turn (server_recv (as_config sv)) target_failed
          (\<lambda>reason. post [OnError [] (''Capture device lost: '' @ reason)]) r b sv)))"

definition server_idle_check :: "int \<Rightarrow> audio_server \<Rightarrow> audio_server" where
  "server_idle_check now sv =
     (case as_mixer sv of
        None \<Rightarrow> sv
      | Some m \<Rightarrow> let (m, notes) = mixer_checkIdleTimeout now m in fold mixer_callback notes (sv\<lparr>as_mixer := Some m\<rparr>))"

section \<open>Stop\<close>

definition stop_begin :: "audio_server \<Rightarrow> audio_server" where
  "stop_begin sv = (if \<not> as_running sv then sv else sv\<lparr>as_running := False, as_stop := St_teardown1\<rparr>)"

definition stop_closing :: "string \<Rightarrow> audio_server \<Rightarrow> bool" where
  "stop_closing i sv \<longleftrightarrow> (case as_objs sv i of None \<Rightarrow> False | Some x \<Rightarrow> map_option snd (sx_close x) = Some By_stop)"

definition stop_advance :: "audio_server \<Rightarrow> audio_server" where
  "stop_advance sv =
     (case as_stop sv of
        St_none \<Rightarrow> sv
      | St_teardown1 \<Rightarrow> sv\<lparr>as_stop := St_closing False None (as_sessions sv)\<rparr>
      | St_closing again (Some i) rest \<Rightarrow> if stop_closing i sv then sv else sv\<lparr>as_stop := St_closing again None rest\<rparr>
      | St_closing again None (i # rest) \<Rightarrow> (session_close By_stop i sv)\<lparr>as_stop := St_closing again (Some i) rest\<rparr>
      | St_closing again None [] \<Rightarrow> sv\<lparr>as_stop := if again then St_barrier2 else St_barrier1\<rparr>
      | St_barrier1 \<Rightarrow> if as_activeThreads sv = 0 then (stopSharedAudio (sv\<lparr>as_sessions := []\<rparr>))\<lparr>as_stop := St_join\<rparr> else sv
      | St_join \<Rightarrow> if as_acceptThread sv then sv else sv\<lparr>as_stop := St_teardown2\<rparr>
      | St_teardown2 \<Rightarrow> sv\<lparr>as_stop := St_closing True None (as_sessions sv)\<rparr>
      | St_barrier2 \<Rightarrow> if as_activeThreads sv = 0
          then post [OnServerStopped] ((stopSharedAudio (sv\<lparr>as_sessions := []\<rparr>))\<lparr>as_transport := False, as_stop := St_none\<rparr>) else sv)"

definition accept_exit :: "audio_server \<Rightarrow> audio_server" where
  "accept_exit sv = (if as_running sv then sv else sv\<lparr>as_acceptThread := False\<rparr>)"

section \<open>Queries\<close>

definition as_hasClient :: "audio_server \<Rightarrow> bool" where "as_hasClient sv \<longleftrightarrow> as_sessions sv \<noteq> []"
definition as_clientCount :: "audio_server \<Rightarrow> int" where "as_clientCount sv = int (length (as_sessions sv))"
definition as_connectedClientIds :: "audio_server \<Rightarrow> string list" where "as_connectedClientIds sv = as_sessions sv"
definition as_txOwner :: "audio_server \<Rightarrow> string" where
  "as_txOwner sv = (case as_mixer sv of Some m \<Rightarrow> currentTxOwner m | None \<Rightarrow> [])"

section \<open>Steps\<close>

text \<open>A thread that is inside \<open>close()\<close> takes no other step.\<close>

definition inside :: "session_closer \<Rightarrow> srv_session \<Rightarrow> bool" where
  "inside who x \<longleftrightarrow> map_option snd (sx_close x) = Some who"

inductive server_step :: "audio_server \<Rightarrow> audio_server \<Rightarrow> bool" where
  step_start: "as_stop sv = St_none \<Longrightarrow> server_start tr bound capture playback sv = Some (err, sv') \<Longrightarrow> server_step sv sv'"
| step_stop: "server_step sv (stop_begin sv)"
| step_advance: "server_step sv (stop_advance sv)"
| step_check: "as_acceptThread sv \<Longrightarrow> as_accept sv = Acc_idle \<Longrightarrow> server_step sv (accept_check addr sv)"
| step_open: "as_accept sv = Acc_opening i addr \<Longrightarrow> server_step sv (accept_open capture playback i addr sv)"
| step_insert: "as_accept sv = Acc_checked i addr \<Longrightarrow> accept_insert i addr sv = Some sv' \<Longrightarrow> server_step sv sv'"
| step_begin: "as_accept sv = Acc_inserted i addr \<Longrightarrow> server_step sv (accept_start i addr sv)"
| step_exit: "as_accept sv = Acc_idle \<Longrightarrow> server_step sv (accept_exit sv)"
| step_handshake: "as_objs sv i = Some x \<Longrightarrow> sx_run x = R_handshake \<Longrightarrow> run_handshake packet i x sv = Some sv' \<Longrightarrow> server_step sv sv'"
| step_register: "as_objs sv i = Some x \<Longrightarrow> sx_run x = R_accepting \<Longrightarrow> server_step sv (run_register sent i x sv)"
| step_tick: "as_objs sv i = Some x \<Longrightarrow> sx_run x = R_streaming \<Longrightarrow> server_step sv (run_tick hbDue hbSent timedOut i x sv)"
| step_writer: "as_objs sv i = Some x \<Longrightarrow> sx_writer x \<Longrightarrow> \<not> inside By_writer x \<Longrightarrow> server_step sv (writer_turn ok i x sv)"
| step_receive: "as_objs sv i = Some x \<Longrightarrow> sx_receiver x \<Longrightarrow> \<not> inside (By_receiver True) x \<Longrightarrow> \<not> inside (By_receiver False) x \<Longrightarrow>
    receive_turn r now wall nanos i x sv = Some sv' \<Longrightarrow> server_step sv sv'"
| step_inject: "as_injectAudio d sv = Some sv' \<Longrightarrow> server_step sv sv'"
| step_capture: "server_capture cr sv = Some sv' \<Longrightarrow> server_step sv sv'"
| step_close: "as_objs sv i = Some x \<Longrightarrow> sx_close x = Some (st, who) \<Longrightarrow> server_step sv (close_turn st who i sv)"
| step_report: "i \<in> set (as_failed sv) \<Longrightarrow> server_step sv (target_report i sv)"
| step_idle: "server_step sv (server_idle_check now sv)"

section \<open>What a listener hears of a client\<close>

datatype life = L_connected | L_started | L_stopped | L_disconnected

fun life_note :: "string \<Rightarrow> server_note \<Rightarrow> life list" where
  "life_note i (OnClientConnected j _) = (if j = i then [L_connected] else [])"
| "life_note i (OnStreamStarted j) = (if j = i then [L_started] else [])"
| "life_note i (OnStreamStopped j) = (if j = i then [L_stopped] else [])"
| "life_note i (OnClientDisconnected j) = (if j = i then [L_disconnected] else [])"
| "life_note i _ = []"

definition life_of :: "string \<Rightarrow> audio_server \<Rightarrow> life list" where
  "life_of i sv = concat (map (life_note i) (as_events sv))"

text \<open>Notifications that say nothing of a client's life.\<close>

definition quiet :: "server_note list \<Rightarrow> bool" where
  "quiet ns \<longleftrightarrow> list_all (\<lambda>n. \<forall>i. life_note i n = []) ns"

lemma quiet_simps [simp]: "quiet []" "quiet (n # ns) \<longleftrightarrow> (\<forall>i. life_note i n = []) \<and> quiet ns" "quiet (ms @ ns) \<longleftrightarrow> quiet ms \<and> quiet ns"
  by (auto simp: quiet_def)

lemma life_of_post: "life_of i (post ns sv) = life_of i sv @ concat (map (life_note i) ns)"
proof -
  have "concat (map (life_note i) (filter (\<lambda>n. n \<noteq> Count_eviction) ns)) = concat (map (life_note i) ns)" by (induction ns) auto
  then show ?thesis by (simp add: life_of_def post_def)
qed

lemma quiet_concat: "quiet ns \<Longrightarrow> concat (map (life_note i) ns) = []"
  by (induction ns) auto

text \<open>The threads of a session, and how far its close is.\<close>

type_synonym session_shape = "run_phase \<times> bool \<times> bool \<times> bool \<times> (session_stage \<times> session_closer) option"

definition shape :: "srv_session \<Rightarrow> session_shape" where
  "shape x = (sx_run x, sx_writer x, sx_receiver x, cs_closed (sx_cs x), sx_close x)"

definition shape_at :: "audio_server \<Rightarrow> string \<Rightarrow> session_shape option" where
  "shape_at sv i = map_option shape (as_objs sv i)"

text \<open>What the calls between components leave alone: they move audio and messages and may report errors.\<close>

definition calm :: "audio_server \<Rightarrow> audio_server \<Rightarrow> bool" where
  "calm sv sv' \<longleftrightarrow> as_config sv' = as_config sv \<and> as_running sv' = as_running sv \<and> as_clientIdCounter sv' = as_clientIdCounter sv \<and>
     as_acceptThread sv' = as_acceptThread sv \<and> as_accept sv' = as_accept sv \<and> as_stop sv' = as_stop sv \<and>
     as_captureOpen sv' = as_captureOpen sv \<and> as_playbackOpen sv' = as_playbackOpen sv \<and> as_activeThreads sv' = as_activeThreads sv \<and>
     (as_broadcaster sv' = None \<longleftrightarrow> as_broadcaster sv = None) \<and> (as_mixer sv' = None \<longleftrightarrow> as_mixer sv = None) \<and>
     shape_at sv' = shape_at sv \<and> (\<forall>i. life_of i sv' = life_of i sv) \<and> as_sessions sv' = as_sessions sv"

lemma calm_refl [simp]: "calm sv sv"
  by (simp add: calm_def)

lemma calm_trans: "calm sv sv' \<Longrightarrow> calm sv' sv'' \<Longrightarrow> calm sv sv''"
  by (simp add: calm_def)

lemma calm_fold:
  assumes "\<And>a sv. calm sv (f a sv)"
  shows "calm sv (fold f xs sv)"
proof (induction xs arbitrary: sv)
  case (Cons a xs)
  show ?case using calm_trans [OF assms [where a = a and sv = sv] Cons.IH] by simp
qed simp

lemma post_calm: "quiet ns \<Longrightarrow> calm sv (post ns sv)"
proof -
  assume q: "quiet ns"
  have life: "life_of i (post ns sv) = life_of i sv" for i by (simp add: life_of_post quiet_concat q)
  show ?thesis unfolding calm_def life by (auto simp: post_def shape_at_def)
qed

text \<open>Replacing the session part of an object.\<close>

lemma put_cs_calm:
  assumes "as_objs sv i = Some x" "cs_closed s = cs_closed (sx_cs x)"
  shows "calm sv (sv\<lparr>as_objs := (as_objs sv)(i \<mapsto> x\<lparr>sx_cs := s\<rparr>)\<rparr>)"
  unfolding calm_def using assms by (auto simp: shape_at_def shape_def life_of_def fun_eq_iff)

lemma on_cs_calm:
  assumes "\<And>s. cs_closed (fst (f s)) = cs_closed s" "\<And>s. quiet (snd (f s))"
  shows "calm sv (on_cs i f sv)"
proof (cases "as_objs sv i")
  case (Some x)
  obtain s ns where f: "f (sx_cs x) = (s, ns)" by fastforce
  have "calm sv (sv\<lparr>as_objs := (as_objs sv)(i \<mapsto> x\<lparr>sx_cs := s\<rparr>)\<rparr>)"
    using put_cs_calm [OF Some, of s] assms(1) [of "sx_cs x"] f by simp
  from calm_trans [OF this post_calm] assms(2) [of "sx_cs x"] f Some show ?thesis by (simp add: on_cs_def)
qed (simp add: on_cs_def)

lemma enqueueControl_calm: "cs_closed (fst (enqueueControl m s)) = cs_closed s" "quiet (snd (enqueueControl m s))"
  by (simp_all add: enqueueControl_def)

lemma session_calls_calm:
  "cs_closed (fst (sendControlMessage m s)) = cs_closed s" "quiet (snd (sendControlMessage m s))"
  "cs_closed (fst (cs_onTxGranted s)) = cs_closed s" "quiet (snd (cs_onTxGranted s))"
  "cs_closed (fst (cs_onTxReleased s)) = cs_closed s" "quiet (snd (cs_onTxReleased s))"
  "cs_closed (fst (cs_onPreempted by s)) = cs_closed s" "quiet (snd (cs_onPreempted by s))"
  using enqueueControl_calm
  by (auto simp: sendControlMessage_def cs_onTxGranted_def cs_onTxReleased_def cs_onPreempted_def case_prod_beta)

lemma broadcastClientsUpdate_calm: "calm sv (broadcastClientsUpdate sv)"
  by (simp add: broadcastClientsUpdate_def calm_fold on_cs_calm session_calls_calm)

lemma mixer_callback_calm: "calm sv (mixer_callback n sv)"
  by (cases n) (simp_all add: on_cs_calm session_calls_calm broadcastClientsUpdate_calm)

lemma mixer_callbacks_calm: "calm sv (fold mixer_callback ns sv)"
  by (intro calm_fold mixer_callback_calm)

text \<open>Updates of the shared components.\<close>

lemma shared_calm:
  "calm sv (sv\<lparr>as_broadcaster := map_option f (as_broadcaster sv)\<rparr>)"
  "as_mixer sv = Some m \<Longrightarrow> calm sv (sv\<lparr>as_mixer := Some m'\<rparr>)"
  "calm sv (sv\<lparr>as_mixer := map_option g (as_mixer sv)\<rparr>)"
  "calm sv (sv\<lparr>as_failed := xs\<rparr>)"
  by (auto simp: calm_def shape_at_def life_of_def fun_eq_iff)

text \<open>Every section of a close but the erase from the roster is such a call.\<close>

lemma close_section_calm: "st \<noteq> Cl_roster \<Longrightarrow> calm sv (close_section st i sv)"
proof (cases st)
  case Cl_mixer
  then show ?thesis
    by (auto simp: Let_def intro: calm_trans [OF shared_calm(2) mixer_callbacks_calm] split: option.split prod.split)
next
  case Cl_conn
  then show ?thesis by (cases "as_objs sv i") (auto simp: on_sx_def calm_def shape_at_def shape_def life_of_def fun_eq_iff)
qed (simp_all add: shared_calm on_cs_calm)

lemma target_failed_calm: "calm sv (target_failed i reason sv)"
  by (simp add: target_failed_def shared_calm)

lemma receiveRxAudio_calm:
  assumes "receiveRxAudio native d p n s = (ok, s', ns)"
  shows "cs_closed s' = cs_closed s \<and> quiet ns"
  using assms by (auto simp: receiveRxAudio_def enqueueConvertedRxAudio_def enqueueRxAudio_def Let_def
      split: if_splits option.splits prod.splits)

lemma server_recv_calm: "calm sv (snd (server_recv native i d p n sv))"
proof (cases "as_objs sv i")
  case (Some x)
  obtain ok s ns where r: "receiveRxAudio native d p n (sx_cs x) = (ok, s, ns)" by (metis prod_cases3)
  from receiveRxAudio_calm [OF r] have "calm sv (sv\<lparr>as_objs := (as_objs sv)(i \<mapsto> x\<lparr>sx_cs := s\<rparr>)\<rparr>)" "quiet ns"
    using put_cs_calm [OF Some, of s] by simp_all
  from calm_trans [OF this(1) post_calm [OF this(2)]] show ?thesis by (simp add: server_recv_def Some r)
qed (simp add: server_recv_def)

section \<open>The fan-out leaves the lives of the clients alone\<close>

interpretation server_targets: broadcast_targets "server_recv native" "\<lambda>i sv. as_objs sv i" for native
  by unfold_locales (auto simp: server_recv_def post_def Let_def split: option.splits prod.splits)

lemma offer_calm: "calm sv (snd (offer (server_recv native i) d offset fs sv))"
proof (induction fs arbitrary: sv)
  case (Cons f fs)
  obtain p n where f: "f = (p, n)" by fastforce
  obtain ok sv' where r: "server_recv native i d (offset + p) n sv = (ok, sv')" by fastforce
  have c: "calm sv sv'" using server_recv_calm [of sv native i d "offset + p" n] r by simp
  show ?case using c calm_trans [OF c Cons.IH] by (simp add: f r)
qed simp

lemma deliver_all_calm:
  assumes "0 < chunk" "deliver_all (server_recv native) chunk d offset len ids sv = Some (failed, sv')"
  shows "calm sv sv'"
  using assms(2)
proof (induction ids arbitrary: sv failed)
  case (Cons i ids)
  let ?o = "offer (server_recv native i) d offset (frames_of chunk len 0) sv"
  have d: "deliver (server_recv native i) chunk d offset len 0 sv = Some ?o" by (rule deliver_offer) (simp_all add: assms(1))
  have c: "calm sv (snd ?o)" by (rule offer_calm)
  from Cons.prems d obtain failed' where "deliver_all (server_recv native) chunk d offset len ids (snd ?o) = Some (failed', sv')"
    by (auto split: option.splits prod.splits)
  from calm_trans [OF c Cons.IH [OF this]] show ?case .
qed simp

lemma drop_failed_calm: "calm sv (snd (fold (drop_failed target_failed) failed (b, sv)))"
proof (induction failed arbitrary: b sv)
  case (Cons i failed)
  show ?case using calm_trans [OF target_failed_calm Cons.IH] by (simp add: drop_failed_def)
qed simp

lemma broadcast_calm:
  assumes "broadcastToTargets (server_recv native) target_failed d offset len b sv = Some (b', sv')"
  shows "calm sv sv'"
proof -
  from assms obtain failed sv1 where d: "deliver_all (server_recv native) (maxFrameBytes (bc_config b)) d offset len (bc_targets b) sv = Some (failed, sv1)"
    and f: "fold (drop_failed target_failed) failed (b, sv1) = (b', sv')"
    by (auto simp: broadcastToTargets_def split: option.splits)
  from maxFrameBytes_bounds [of "bc_config b"] have "0 < maxFrameBytes (bc_config b)" by simp
  from deliver_all_calm [OF this d] have "calm sv sv1" .
  moreover have "calm sv1 sv'" using drop_failed_calm [of sv1 failed b] f by simp
  ultimately show ?thesis by (rule calm_trans)
qed

lemma put_broadcaster_calm: "as_broadcaster sv \<noteq> None \<Longrightarrow> calm sv (sv\<lparr>as_broadcaster := Some b\<rparr>)"
  by (auto simp: calm_def shape_at_def life_of_def)

lemma with_broadcaster_calm:
  assumes "calm sv sv'" "as_broadcaster sv \<noteq> None"
  shows "calm sv (sv'\<lparr>as_broadcaster := Some b\<rparr>)"
proof (rule calm_trans [OF assms(1)])
  show "calm sv' (sv'\<lparr>as_broadcaster := Some b\<rparr>)" using assms by (intro put_broadcaster_calm) (simp add: calm_def)
qed

lemma inject_calm:
  assumes "as_injectAudio d sv = Some sv'"
  shows "calm sv sv'"
proof (cases "d = [] \<or> as_broadcaster sv = None")
  case False
  then obtain b where b: "as_broadcaster sv = Some b" "d \<noteq> []" by auto
  with assms obtain b' sv1 where i: "injectAudio (server_recv (as_config sv)) target_failed d b sv = Some (b', sv1)"
    and s: "sv' = sv1\<lparr>as_broadcaster := Some b'\<rparr>" by (auto simp: as_injectAudio_def with_broadcaster_def)
  from i have "calm sv sv1" by (auto simp: injectAudio_def intro: broadcast_calm split: if_splits option.splits)
  then show ?thesis unfolding s by (intro with_broadcaster_calm) (simp_all add: b)
qed (use assms in \<open>auto simp: as_injectAudio_def split: if_splits\<close>)

lemma capture_calm:
  assumes "server_capture r sv = Some sv'"
  shows "calm sv sv'"
proof (cases "as_broadcaster sv")
  case (Some b)
  with assms obtain k b' sv1 where i: "capture_turn (server_recv (as_config sv)) target_failed
      (\<lambda>reason. post [OnError [] (''Capture device lost: '' @ reason)]) r b sv = Some (k, b', sv1)"
    and s: "sv' = sv1\<lparr>as_broadcaster := Some b'\<rparr>" by (auto simp: server_capture_def with_broadcaster_def)
  from i have "calm sv sv1"
    by (auto simp: capture_turn_def Let_def intro: broadcast_calm post_calm split: capture_read.splits if_splits)
  then show ?thesis unfolding s by (intro with_broadcaster_calm) (simp_all add: Some)
qed (use assms in \<open>simp add: server_capture_def\<close>)

lemma idle_check_calm: "calm sv (server_idle_check now sv)"
  by (auto simp: server_idle_check_def Let_def intro: calm_trans [OF shared_calm(2) mixer_callbacks_calm] split: option.split prod.split)

section \<open>One thread of one session moves\<close>

fun live :: "session_shape \<Rightarrow> int" where
  "live (r, w, c, cl, e) = (if r = R_new \<or> r = R_done then 0 else 1) + of_bool w + of_bool c"

definition threads_of :: "audio_server \<Rightarrow> int" where
  "threads_of sv = (\<Sum>i \<in> {i. shape_at sv i \<noteq> None}. live (the (shape_at sv i)))"

lemma threads_of_upd:
  assumes fin: "finite {i. shape_at sv i \<noteq> None}" and i: "shape_at sv i = Some s" and upd: "shape_at sv' = (shape_at sv)(i \<mapsto> s')"
  shows "threads_of sv' = threads_of sv - live s + live s'"
proof -
  let ?A = "{i. shape_at sv i \<noteq> None}"
  have A: "{i. shape_at sv' i \<noteq> None} = ?A" "i \<in> ?A" using i unfolding upd by (auto simp del: not_None_eq)
  have "(\<Sum>j \<in> ?A - {i}. live (the (shape_at sv' j))) = (\<Sum>j \<in> ?A - {i}. live (the (shape_at sv j)))"
    by (intro sum.cong) (auto simp: upd)
  with sum.remove [OF fin A(2), of "\<lambda>j. live (the (shape_at sv j))"] sum.remove [OF fin A(2), of "\<lambda>j. live (the (shape_at sv' j))"]
  show ?thesis unfolding threads_of_def A(1) by (simp add: i upd)
qed

definition moved :: "string \<Rightarrow> session_shape \<Rightarrow> life list \<Rightarrow> audio_server \<Rightarrow> audio_server \<Rightarrow> bool" where
  "moved i s' ev sv sv' \<longleftrightarrow> as_config sv' = as_config sv \<and> as_running sv' = as_running sv \<and> as_clientIdCounter sv' = as_clientIdCounter sv \<and>
     as_acceptThread sv' = as_acceptThread sv \<and> as_accept sv' = as_accept sv \<and> as_stop sv' = as_stop sv \<and>
     as_captureOpen sv' = as_captureOpen sv \<and> as_playbackOpen sv' = as_playbackOpen sv \<and>
     (as_broadcaster sv' = None \<longleftrightarrow> as_broadcaster sv = None) \<and> (as_mixer sv' = None \<longleftrightarrow> as_mixer sv = None) \<and>
     (\<exists>s. shape_at sv i = Some s \<and> as_activeThreads sv' = as_activeThreads sv - live s + live s') \<and>
     shape_at sv' = (shape_at sv)(i \<mapsto> s') \<and> (\<forall>j. life_of j sv' = life_of j sv @ (if j = i then ev else [])) \<and>
     as_sessions sv' = as_sessions sv"

lemma calm_moved: "calm sv sv' \<Longrightarrow> shape_at sv i = Some s \<Longrightarrow> moved i s [] sv sv'"
  unfolding calm_def moved_def by (elim conjE, intro conjI) (auto simp: fun_eq_iff)

lemma moved_shape: "moved i s ev sv sv' \<Longrightarrow> shape_at sv' i = Some s"
  by (simp add: moved_def)

lemma moved_trans:
  assumes a: "moved i s ev sv sv'" and b: "moved i s' ev' sv' sv''"
  shows "moved i s' (ev @ ev') sv sv''"
proof -
  have sh: "shape_at sv' i = Some s" by (rule moved_shape [OF a])
  from a obtain s0 where s0: "shape_at sv i = Some s0" "as_activeThreads sv' = as_activeThreads sv - live s0 + live s"
    by (auto simp: moved_def)
  from b sh have t: "as_activeThreads sv'' = as_activeThreads sv' - live s + live s'" by (auto simp: moved_def)
  have "shape_at sv'' = (shape_at sv)(i \<mapsto> s')" using a b by (auto simp: moved_def)
  then show ?thesis using a b s0 t unfolding moved_def by (elim conjE, intro conjI) auto
qed

lemma moved_calm: "moved i s ev sv sv' \<Longrightarrow> calm sv' sv'' \<Longrightarrow> moved i s ev sv sv''"
  using moved_trans [of i s ev sv sv' s "[]" sv''] calm_moved [of sv' sv'' i s] moved_shape [of i s ev sv sv'] by simp

lemma calm_then_moved: "calm sv sv' \<Longrightarrow> shape_at sv i = Some s \<Longrightarrow> moved i s' ev sv' sv'' \<Longrightarrow> moved i s' ev sv sv''"
  using moved_trans [of i s "[]" sv sv' s' ev sv''] calm_moved [of sv sv' i s] by simp

lemma put_live:
  assumes "as_objs sv i = Some x" "shape x' = s'" "as_activeThreads sv + (live s' - live (shape x)) = n"
  shows "moved i s' [] sv (sv\<lparr>as_activeThreads := n, as_objs := (as_objs sv)(i \<mapsto> x')\<rparr>)"
  using assms by (auto simp: moved_def shape_at_def life_of_def fun_eq_iff)

lemma on_sx_moved:
  assumes "shape_at sv i = Some s" "\<And>x. shape x = s \<Longrightarrow> shape (f x) = s'" "live s' = live s"
  shows "moved i s' [] sv (on_sx i f sv)"
proof -
  obtain x where x: "as_objs sv i = Some x" "shape x = s" using assms(1) by (auto simp: shape_at_def)
  from put_live [OF x(1) assms(2) [OF x(2)], of "as_activeThreads sv"] x assms(3) show ?thesis by (simp add: on_sx_def)
qed

lemma thread_ends_moved:
  assumes "shape_at sv i = Some s" "\<And>x. shape x = s \<Longrightarrow> shape (f x) = s'" "live s' = live s - 1"
  shows "moved i s' [] sv (thread_finished (on_sx i f sv))"
proof -
  obtain x where x: "as_objs sv i = Some x" "shape x = s" using assms(1) by (auto simp: shape_at_def)
  have "thread_finished (on_sx i f sv) = sv\<lparr>as_activeThreads := as_activeThreads sv - 1, as_objs := (as_objs sv)(i \<mapsto> f x)\<rparr>"
    by (simp add: on_sx_def thread_finished_def x)
  with put_live [OF x(1) assms(2) [OF x(2)], of "as_activeThreads sv - 1"] x assms(3) show ?thesis by simp
qed

lemma moved_post:
  assumes "shape_at sv i = Some s" "\<And>j. life_note j n = (if j = i then ev else [])"
  shows "moved i s ev sv (post [n] sv)"
proof -
  have "life_of j (post [n] sv) = life_of j sv @ (if j = i then ev else [])" for j by (simp add: life_of_post assms(2))
  moreover have "shape_at (post [n] sv) = (shape_at sv)(i \<mapsto> s)" using assms(1) by (auto simp: shape_at_def post_def fun_eq_iff)
  ultimately show ?thesis using assms(1) by (auto simp: moved_def post_def)
qed

section \<open>Leaving\<close>

lemma run_gone_moved:
  assumes sh: "shape_at sv i = Some (r, w, c, cl, e)" and r: "r \<noteq> R_new" "r \<noteq> R_done"
  shows "moved i (R_done, w, c, cl, e) [L_disconnected] sv (run_gone i sv)"
proof -
  let ?b = "broadcastClientsUpdate (post [OnClientDisconnected i] sv)"
  have b: "moved i (r, w, c, cl, e) [L_disconnected] sv ?b"
    by (rule moved_calm [OF moved_post [OF sh] broadcastClientsUpdate_calm]) simp
  have "moved i (R_done, w, c, cl, e) [] ?b (run_gone i sv)"
    unfolding run_gone_def set_run_def by (rule thread_ends_moved [OF moved_shape [OF b]]) (use r in \<open>auto simp: shape_def\<close>)
  from moved_trans [OF b this] show ?thesis by simp
qed

lemma writer_exit_moved: "shape_at sv i = Some (r, True, c, cl, e) \<Longrightarrow> moved i (r, False, c, cl, e) [] sv (writer_exit i sv)"
  unfolding writer_exit_def by (erule thread_ends_moved) (auto simp: shape_def)

lemma receiver_exit_moved: "shape_at sv i = Some (r, w, True, cl, e) \<Longrightarrow> moved i (r, w, False, cl, e) [] sv (receiver_exit i sv)"
  unfolding receiver_exit_def by (erule thread_ends_moved) (auto simp: shape_def)

text \<open>The shape after a thread's call of \<open>close()\<close> has returned, and what the thread reports then.\<close>

fun left_shape :: "session_closer \<Rightarrow> session_shape \<Rightarrow> session_shape" where
  "left_shape By_run (r, w, c, k) = (R_done, w, c, k)"
| "left_shape By_writer (r, w, c, k) = (r, False, c, k)"
| "left_shape (By_receiver ends) (r, w, c, k) = (r, w, c \<and> \<not> ends, k)"
| "left_shape By_stop s = s"
| "left_shape By_fanout s = s"

definition left_note :: "session_closer \<Rightarrow> life list" where
  "left_note who = (if who = By_run then [L_disconnected] else [])"

text \<open>The thread that closes is alive.\<close>

fun may_close :: "session_closer \<Rightarrow> session_shape \<Rightarrow> bool" where
  "may_close By_run (r, w, c, k) \<longleftrightarrow> r = R_leaving"
| "may_close By_writer (r, w, c, k) \<longleftrightarrow> w"
| "may_close (By_receiver ends) (r, w, c, k) \<longleftrightarrow> c"
| "may_close By_stop s \<longleftrightarrow> True"
| "may_close By_fanout s \<longleftrightarrow> True"

lemma after_close_moved:
  assumes "shape_at sv i = Some s" "may_close who s"
  shows "moved i (left_shape who s) (left_note who) sv (after_close who i sv)"
proof -
  obtain r w c cl e where s: "s = (r, w, c, cl, e)" by (metis prod.exhaust)
  show ?thesis
  proof (cases who)
    case By_run
    then show ?thesis using run_gone_moved [of sv i r w c cl e] assms by (simp add: s left_note_def)
  next
    case By_writer
    then show ?thesis using writer_exit_moved [of sv i r c cl e] assms by (simp add: s left_note_def)
  next
    case (By_receiver ends)
    then show ?thesis using receiver_exit_moved [of sv i r w cl e] calm_moved [OF calm_refl assms(1)] assms by (cases ends) (simp_all add: s left_note_def)
  qed (use calm_moved [OF calm_refl assms(1)] in \<open>simp_all add: left_note_def\<close>)
qed

fun closed_shape :: "session_closer \<Rightarrow> session_shape \<Rightarrow> session_shape" where
  "closed_shape who (r, w, c, cl, e) = (if cl then left_shape who (r, w, c, cl, e) else (r, w, c, True, Some (Cl_target, who)))"

fun closed_note :: "session_closer \<Rightarrow> session_shape \<Rightarrow> life list" where
  "closed_note who (r, w, c, cl, e) = (if cl then left_note who else [])"

lemma session_close_moved:
  assumes "shape_at sv i = Some s" "may_close who s"
  shows "moved i (closed_shape who s) (closed_note who s) sv (session_close who i sv)"
proof -
  obtain r w c cl e where s: "s = (r, w, c, cl, e)" by (metis prod.exhaust)
  obtain x where x: "as_objs sv i = Some x" "shape x = s" using assms(1) by (auto simp: shape_at_def)
  show ?thesis
  proof (cases cl)
    case True
    then show ?thesis using after_close_moved [OF assms] x by (simp add: session_close_def s shape_def)
  next
    case False
    have "moved i (r, w, c, True, Some (Cl_target, who)) [] sv
      (on_sx i (\<lambda>x. x\<lparr>sx_cs := (sx_cs x)\<lparr>cs_closed := True\<rparr>, sx_close := Some (Cl_target, who)\<rparr>) sv)"
      by (rule on_sx_moved [OF assms(1)]) (simp_all add: s shape_def)
    then show ?thesis using False x by (simp add: session_close_def s shape_def)
  qed
qed

lemma other_close_moved:
  assumes "shape_at sv i = Some s" "may_close who s" "who \<noteq> By_run"
  shows "moved i (closed_shape who s) [] sv (session_close who i sv)"
proof -
  have "closed_note who s = []" using assms(3) by (cases s rule: live.cases) (simp add: left_note_def)
  with session_close_moved [OF assms(1,2)] show ?thesis by simp
qed

lemma leaveRoster_moved:
  assumes "shape_at sv i = Some (r, w, c, cl, e)" "r \<noteq> R_new" "r \<noteq> R_done"
  shows "moved i (closed_shape By_run (R_leaving, w, c, cl, e)) (closed_note By_run (R_leaving, w, c, cl, e)) sv (leaveRoster i sv)"
proof -
  have a: "moved i (R_leaving, w, c, cl, e) [] sv (set_run R_leaving i sv)"
    unfolding set_run_def by (rule on_sx_moved [OF assms(1)]) (use assms(2,3) in \<open>auto simp: shape_def\<close>)
  have "may_close By_run (R_leaving, w, c, cl, e)" by simp
  from moved_trans [OF a session_close_moved [OF moved_shape [OF a] this]] show ?thesis by (simp add: leaveRoster_def)
qed

lemma run_handshake_moved:
  assumes x: "as_objs sv i = Some x" "shape x = (R_handshake, w, c, cl, e)" and st: "run_handshake packet i x sv = Some sv'"
  shows "moved i (closed_shape By_run (R_leaving, w, c, cl, e)) (closed_note By_run (R_leaving, w, c, cl, e)) sv sv' \<or>
    moved i (R_accepting, w, c, cl, e) [] sv sv'"
proof -
  define p where "p = (if cs_closed (sx_cs x) \<or> \<not> as_running sv then None else packet)"
  from st obtain k s where hs: "performHandshake (as_config sv) p (sx_cs x) = Inr (k, s)"
    by (auto simp: run_handshake_def Let_def p_def [symmetric] split: sum.splits)
  have cl: "cs_closed s = cs_closed (sx_cs x)" using handshake_keeps_queue [OF hs] by (simp add: same_stream_def)
  have calm: "calm sv (on_cs i (\<lambda>_. (t, [])) sv)" if "cs_closed t = cs_closed (sx_cs x)" for t
    using put_cs_calm [OF x(1) that] by (simp add: on_cs_def x(1) post_def)
  have sh: "shape_at sv i = Some (R_handshake, w, c, cl, e)" using x by (simp add: shape_at_def)
  show ?thesis
  proof (cases k)
    case False
    let ?s1 = "on_cs i (\<lambda>_. (s, [])) sv"
    have sv': "sv' = leaveRoster i ?s1" using st hs False by (simp add: run_handshake_def Let_def p_def [symmetric])
    have "shape_at ?s1 i = Some (R_handshake, w, c, cl, e)" using calm [OF cl] sh by (simp add: calm_def)
    from calm_then_moved [OF calm [OF cl] sh leaveRoster_moved [OF this]] show ?thesis by (simp add: sv')
  next
    case True
    then obtain t where t: "rederive_cap s = Some t" "sv' = set_run R_accepting i (on_cs i (\<lambda>_. (t, [])) sv)"
      using st hs by (auto simp: run_handshake_def Let_def p_def [symmetric] split: option.splits)
    let ?s1 = "on_cs i (\<lambda>_. (t, [])) sv"
    have ct: "cs_closed t = cs_closed (sx_cs x)" using t(1) cl by (auto simp: rederive_cap_def)
    have s1: "shape_at ?s1 i = Some (R_handshake, w, c, cl, e)" using calm [OF ct] sh by (simp add: calm_def)
    have "moved i (R_accepting, w, c, cl, e) [] ?s1 sv'"
      unfolding t(2) set_run_def by (rule on_sx_moved [OF s1]) (simp_all add: shape_def)
    from calm_then_moved [OF calm [OF ct] sh this] show ?thesis by simp
  qed
qed

lemma start_io_threads_moved:
  assumes "shape_at sv i = Some (r, False, False, cl, e)"
  shows "moved i (r, True, True, cl, e) [] sv (start_io_threads i sv)"
proof -
  obtain x where x: "as_objs sv i = Some x" "shape x = (r, False, False, cl, e)" using assms by (auto simp: shape_at_def)
  let ?x = "x\<lparr>sx_writer := True, sx_receiver := True\<rparr>"
  have "start_io_threads i sv = sv\<lparr>as_activeThreads := as_activeThreads sv + 2, as_objs := (as_objs sv)(i \<mapsto> ?x)\<rparr>"
    by (simp add: start_io_threads_def x(1))
  moreover have "moved i (r, True, True, cl, e) [] sv (sv\<lparr>as_activeThreads := as_activeThreads sv + 2, as_objs := (as_objs sv)(i \<mapsto> ?x)\<rparr>)"
    by (rule put_live [OF x(1)]) (use x(2) in \<open>simp_all add: shape_def\<close>)
  ultimately show ?thesis by simp
qed

lemma run_register_moved:
  assumes sh: "shape_at sv i = Some (R_accepting, False, False, cl, e)"
  shows "moved i (closed_shape By_run (R_leaving, False, False, cl, e)) (closed_note By_run (R_leaving, False, False, cl, e)) sv (run_register sent i x sv) \<or>
    moved i (R_streaming, True, True, cl, e) [L_started] sv (run_register sent i x sv)"
proof (cases sent)
  case False
  then show ?thesis using leaveRoster_moved [OF sh] by (simp add: run_register_def)
next
  case True
  let ?a = "sv\<lparr>as_broadcaster := map_option (addTarget i) (as_broadcaster sv),
    as_mixer := map_option (registerClient i (cs_txPriority (sx_cs x))) (as_mixer sv)\<rparr>"
  let ?b = "start_io_threads i ?a"
  let ?c = "on_cs i (\<lambda>s. (s\<lparr>cs_streaming := True\<rparr>, [])) (post [OnStreamStarted i] ?b)"
  let ?d = "broadcastClientsUpdate ?c"
  have ca: "calm sv ?a" using calm_trans [OF shared_calm(1) shared_calm(3)] by simp
  have "shape_at ?a i = Some (R_accepting, False, False, cl, e)" using sh by (simp add: shape_at_def)
  note b = calm_then_moved [OF ca sh start_io_threads_moved [OF this]]
  have "moved i (R_accepting, True, True, cl, e) [L_started] ?b (post [OnStreamStarted i] ?b)"
    by (rule moved_post [OF moved_shape [OF b]]) simp
  from moved_trans [OF b this] have "moved i (R_accepting, True, True, cl, e) [L_started] sv (post [OnStreamStarted i] ?b)" by simp
  from moved_calm [OF this on_cs_calm] have "moved i (R_accepting, True, True, cl, e) [L_started] sv ?c" by simp
  from moved_calm [OF this broadcastClientsUpdate_calm] have d: "moved i (R_accepting, True, True, cl, e) [L_started] sv ?d" .
  have "moved i (R_streaming, True, True, cl, e) [] ?d (set_run R_streaming i ?d)"
    unfolding set_run_def by (rule on_sx_moved [OF moved_shape [OF d]]) (simp_all add: shape_def)
  from moved_trans [OF d this] show ?thesis using True by (simp add: run_register_def Let_def)
qed

lemma run_finish_moved:
  assumes sh: "shape_at sv i = Some (R_streaming, w, c, cl, e)"
  shows "moved i (closed_shape By_run (R_leaving, w, c, cl, e)) ([L_stopped] @ closed_note By_run (R_leaving, w, c, cl, e)) sv (run_finish i sv)"
proof -
  let ?a = "on_cs i (\<lambda>s. (s\<lparr>cs_streaming := False\<rparr>, [])) sv"
  have c: "calm sv ?a" by (rule on_cs_calm) simp_all
  then have "shape_at ?a i = Some (R_streaming, w, c, cl, e)" using sh by (simp add: calm_def)
  then have "moved i (R_streaming, w, c, cl, e) [L_stopped] ?a (post [OnStreamStopped i] ?a)" by (rule moved_post) simp
  note b = calm_then_moved [OF c sh this]
  show ?thesis unfolding run_finish_def by (rule moved_trans [OF b leaveRoster_moved [OF moved_shape [OF b]]]) simp_all
qed

lemma run_tick_moved:
  assumes sh: "shape_at sv i = Some (R_streaming, w, c, cl, e)"
  shows "run_tick hbDue hbSent timedOut i x sv = sv \<or>
    moved i (closed_shape By_run (R_leaving, w, c, cl, e)) ([L_stopped] @ closed_note By_run (R_leaving, w, c, cl, e)) sv
      (run_tick hbDue hbSent timedOut i x sv)"
proof -
  have "moved i (closed_shape By_run (R_leaving, w, c, cl, e)) ([L_stopped] @ closed_note By_run (R_leaving, w, c, cl, e)) sv (run_finish i (post ns sv))"
    if "quiet ns" for ns
  proof -
    have "shape_at (post ns sv) i = Some (R_streaming, w, c, cl, e)" using sh by (simp add: shape_at_def post_def)
    from calm_then_moved [OF post_calm [OF that] sh run_finish_moved [OF this]] show ?thesis .
  qed
  then show ?thesis using run_finish_moved [OF sh] by (auto simp: run_tick_def)
qed

text \<open>The writer and the receiver: they work, they end, or they close the session.\<close>

lemma writer_turn_moved:
  assumes x: "as_objs sv i = Some x" "shape x = (r, True, c, cl, e)"
  shows "calm sv (writer_turn ok i x sv) \<or> moved i (r, False, c, cl, e) [] sv (writer_turn ok i x sv) \<or>
    moved i (closed_shape By_writer (r, True, c, cl, e)) [] sv (writer_turn ok i x sv)"
proof -
  have sh: "shape_at sv i = Some (r, True, c, cl, e)" using x by (simp add: shape_at_def)
  obtain item s where t: "writer_take (sx_cs x) = (item, s)" by fastforce
  show ?thesis
  proof (cases item)
    case None
    then show ?thesis using t writer_exit_moved [OF sh] by (simp add: writer_turn_def)
  next
    case (Some it)
    let ?a = "on_cs i (\<lambda>_. (s, [])) sv"
    let ?b = "post (writer_failed it s) ?a"
    have cl: "cs_closed s = cs_closed (sx_cs x)" using writer_take_frame(3) [of "sx_cs x"] t by simp
    have a: "calm sv ?a" using put_cs_calm [OF x(1) cl] by (simp add: on_cs_def x(1) post_def)
    have "quiet (writer_failed it s)" by (simp add: writer_failed_def)
    note b = calm_trans [OF a post_calm [OF this]]
    then have "shape_at ?b i = Some (r, True, c, cl, e)" using sh by (simp add: calm_def)
    then have "moved i (closed_shape By_writer (r, True, c, cl, e)) [] ?b (session_close By_writer i ?b)" by (rule other_close_moved) simp_all
    from calm_then_moved [OF b sh this] a show ?thesis using t Some by (auto simp: writer_turn_def Let_def)
  qed
qed

lemma handleTxAudio_calm:
  assumes "handleTxAudio now wall d prov s mixer = (s', mixer', mnotes, notes)"
  shows "cs_closed s' = cs_closed s \<and> quiet notes \<and> (mixer' = None \<longleftrightarrow> mixer = None)"
proof (cases mixer)
  case (Some m)
  obtain mx mn res where sub: "submitTxAudio now wall (cs_clientId s) d prov m = (mx, mn, res)" by (metis prod_cases3)
  obtain t n where e: "enqueueControl (txDenied (currentTxOwner mx)) (s\<lparr>cs_txBytesSubmitted := cs_txBytesSubmitted s + int (length d), cs_txDeniedCount := cs_txDeniedCount s + 1\<rparr>) = (t, n)"
    by fastforce
  with enqueueControl_calm [of "txDenied (currentTxOwner mx)" "s\<lparr>cs_txBytesSubmitted := cs_txBytesSubmitted s + int (length d), cs_txDeniedCount := cs_txDeniedCount s + 1\<rparr>"]
  have "cs_closed t = cs_closed s" "quiet n" by simp_all
  then show ?thesis using assms sub e by (auto simp: handleTxAudio_def Some Let_def split: if_splits)
qed (use assms in \<open>auto simp: handleTxAudio_def Let_def\<close>)

lemma handleControlMessage_calm:
  assumes "cs_handleControlMessage nanos p s = Some (disc, s', notes)"
  shows "cs_closed s' = cs_closed s \<and> quiet notes"
proof -
  have "cs_closed t = cs_closed s \<and> quiet n" if "enqueueControl m s = (t, n)" for m t n
    using enqueueControl_calm [of m s] that by simp
  then show ?thesis using assms by (auto simp: cs_handleControlMessage_def Let_def split: option.splits if_splits prod.splits)
qed

lemma receive_turn_moved:
  assumes x: "as_objs sv i = Some x" "shape x = (r, w, True, cl, e)" and st: "receive_turn rx now wall nanos i x sv = Some sv'"
  shows "calm sv sv' \<or> moved i (r, w, False, cl, e) [] sv sv' \<or> (\<exists>ends. moved i (closed_shape (By_receiver ends) (r, w, True, cl, e)) [] sv sv')"
proof (cases "cs_closed (sx_cs x) \<or> \<not> as_running sv")
  case True
  have "shape_at sv i = Some (r, w, True, cl, e)" using x by (simp add: shape_at_def)
  from receiver_exit_moved [OF this] True st show ?thesis by (simp add: receive_turn_def)
next
  case run: False
  have sh: "shape_at sv i = Some (r, w, True, cl, e)" using x by (simp add: shape_at_def)
  have put: "calm sv (on_cs i (\<lambda>_. (s, ns)) sv)" if "cs_closed s = cs_closed (sx_cs x)" "quiet ns" for s ns
    using calm_trans [OF put_cs_calm [OF x(1) that(1)] post_calm [OF that(2)]] by (simp add: on_cs_def x(1))
  have close: "moved i (closed_shape (By_receiver ends) (r, w, True, cl, e)) [] sv (session_close (By_receiver ends) i sv1)" if "calm sv sv1" for sv1 ends
  proof -
    have "shape_at sv1 i = Some (r, w, True, cl, e)" using sh that by (simp add: calm_def)
    then show ?thesis by (intro calm_then_moved [OF that sh] other_close_moved) simp_all
  qed
  show ?thesis
  proof (cases rx)
    case Rx_none
    then show ?thesis using st run by (simp add: receive_turn_def)
  next
    case Rx_closed
    have "calm sv (post [OnError i ''Receive error''] sv)" by (rule post_calm) simp
    from close [OF this, of True] show ?thesis using st run Rx_closed by (auto simp: receive_turn_def simp del: closed_shape.simps)
  next
    case (Rx_packet p prov)
    consider (tx) "ptype p = AudioTx" | (ctl) "ptype p = Control" | (other) "ptype p \<noteq> AudioTx" "ptype p \<noteq> Control" by blast
    then show ?thesis
    proof cases
      case tx
      obtain s mixer mn ns where h: "handleTxAudio now wall (payload p) prov (sx_cs x) (as_mixer sv) = (s, mixer, mn, ns)" by (metis prod_cases4)
      note hc = handleTxAudio_calm [OF h]
      have "calm sv (sv\<lparr>as_mixer := mixer\<rparr>)" using hc by (auto simp: calm_def shape_at_def life_of_def fun_eq_iff)
      moreover have "calm (sv\<lparr>as_mixer := mixer\<rparr>) (on_cs i (\<lambda>_. (s, ns)) (sv\<lparr>as_mixer := mixer\<rparr>))"
        using hc x(1) calm_trans [OF put_cs_calm [of "sv\<lparr>as_mixer := mixer\<rparr>" i x s] post_calm] by (simp add: on_cs_def)
      ultimately have "calm sv (fold mixer_callback mn (on_cs i (\<lambda>_. (s, ns)) (sv\<lparr>as_mixer := mixer\<rparr>)))"
        using calm_trans mixer_callbacks_calm by blast
      then show ?thesis using st run Rx_packet tx h by (simp add: receive_turn_def)
    next
      case ctl
      with st run Rx_packet obtain disc s ns where h: "cs_handleControlMessage nanos p (sx_cs x) = Some (disc, s, ns)"
        "sv' = (if disc then session_close (By_receiver False) i (on_cs i (\<lambda>_. (s, ns)) sv) else on_cs i (\<lambda>_. (s, ns)) sv)"
        by (auto simp: receive_turn_def Let_def split: option.splits)
      from put handleControlMessage_calm [OF h(1)] have "calm sv (on_cs i (\<lambda>_. (s, ns)) sv)" by blast
      then show ?thesis using h(2) close [of _ False] by (cases disc) (simp_all del: closed_shape.simps, blast)
    qed (use st run Rx_packet in \<open>simp add: receive_turn_def\<close>)
  qed
qed

section \<open>The invariant\<close>

text \<open>What has been heard of a client whose run thread is at a phase.\<close>

fun phase_life :: "run_phase option \<Rightarrow> life list \<Rightarrow> bool" where
  "phase_life None l \<longleftrightarrow> l = []"
| "phase_life (Some R_new) l \<longleftrightarrow> l = []"
| "phase_life (Some R_handshake) l \<longleftrightarrow> l = [L_connected]"
| "phase_life (Some R_accepting) l \<longleftrightarrow> l = [L_connected]"
| "phase_life (Some R_streaming) l \<longleftrightarrow> l = [L_connected, L_started]"
| "phase_life (Some R_leaving) l \<longleftrightarrow> l = [L_connected] \<or> l = [L_connected, L_started, L_stopped]"
| "phase_life (Some R_done) l \<longleftrightarrow> l = [L_connected, L_disconnected] \<or> l = [L_connected, L_started, L_stopped, L_disconnected]"

definition run_at :: "audio_server \<Rightarrow> string \<Rightarrow> run_phase option" where
  "run_at sv i = map_option fst (shape_at sv i)"

text \<open>The threads of one session are consistent with its close: the thread that is inside \<open>close()\<close> is alive.\<close>

fun local_ok :: "session_shape \<Rightarrow> bool" where
  "local_ok (r, w, c, cl, e) \<longleftrightarrow> (r = R_streaming \<or> r = R_leaving \<or> r = R_done \<or> \<not> w \<and> \<not> c) \<and> (r = R_done \<longrightarrow> cl) \<and>
     (r = R_leaving \<longleftrightarrow> map_option snd e = Some By_run) \<and> (e \<noteq> None \<longrightarrow> cl) \<and> (map_option snd e = Some By_writer \<longrightarrow> w) \<and>
     (\<forall>ends. map_option snd e = Some (By_receiver ends) \<longrightarrow> c)"

text \<open>A session that may be on the roster: it is open, or its close has not come to the erase.\<close>

fun listed :: "session_shape \<Rightarrow> bool" where
  "listed (r, w, c, cl, e) \<longleftrightarrow> \<not> cl \<or> map_option fst e \<in> {Some Cl_target, Some Cl_mixer, Some Cl_roster}"

definition session_inv :: "audio_server \<Rightarrow> bool" where
  "session_inv sv \<longleftrightarrow> finite {i. shape_at sv i \<noteq> None} \<and> as_activeThreads sv = threads_of sv \<and>
     (\<forall>i. phase_life (run_at sv i) (life_of i sv)) \<and>
     (\<forall>i. pred_option local_ok (shape_at sv i)) \<and>
     (\<forall>i. run_at sv i = Some R_new \<longleftrightarrow> (\<exists>a. as_accept sv = Acc_inserted i a)) \<and>
     (\<forall>i. shape_at sv i \<noteq> None \<longrightarrow> (\<exists>n < as_clientIdCounter sv. i = session_id n)) \<and>
     (\<forall>i a. as_accept sv = Acc_opening i a \<or> as_accept sv = Acc_checked i a \<longrightarrow>
        shape_at sv i = None \<and> (\<exists>n < as_clientIdCounter sv. i = session_id n))"

declare local_ok.simps [simp del] listed.simps [simp del] closed_shape.simps [simp del] closed_note.simps [simp del]

lemmas shape_simps = local_ok.simps listed.simps closed_shape.simps closed_note.simps

definition on_roster :: "audio_server \<Rightarrow> string \<Rightarrow> bool" where
  "on_roster sv i \<longleftrightarrow> (case shape_at sv i of None \<Rightarrow> False | Some s \<Rightarrow> listed s)"

definition roster_inv :: "audio_server \<Rightarrow> bool" where
  "roster_inv sv \<longleftrightarrow> sorted_wrt (<) (as_sessions sv) \<and> int (length (as_sessions sv)) \<le> max 0 (maxClients (as_config sv)) \<and>
     (\<forall>i \<in> set (as_sessions sv). on_roster sv i) \<and>
     (\<forall>i a. as_accept sv = Acc_opening i a \<or> as_accept sv = Acc_checked i a \<longrightarrow> int (length (as_sessions sv)) < maxClients (as_config sv))"

definition stopped :: "audio_server \<Rightarrow> bool" where
  "stopped sv \<longleftrightarrow> \<not> as_running sv \<and> as_stop sv = St_none"

text \<open>The phases of a stop after the accept thread has been joined.\<close>

fun joined :: "stop_phase \<Rightarrow> bool" where
  "joined St_teardown2 = True" | "joined (St_closing again _ _) = again" | "joined St_barrier2 = True" | "joined _ = False"

definition lifecycle_inv :: "audio_server \<Rightarrow> bool" where
  "lifecycle_inv sv \<longleftrightarrow> (as_running sv \<longrightarrow> as_stop sv = St_none) \<and> (\<not> as_acceptThread sv \<longrightarrow> as_accept sv = Acc_idle) \<and>
     (joined (as_stop sv) \<or> stopped sv \<longrightarrow> \<not> as_acceptThread sv) \<and>
     (stopped sv \<longrightarrow> as_sessions sv = [] \<and> as_activeThreads sv = 0 \<and> as_broadcaster sv = None \<and> as_mixer sv = None \<and>
        \<not> as_captureOpen sv \<and> \<not> as_playbackOpen sv)"

definition server_inv :: "audio_server \<Rightarrow> bool" where
  "server_inv sv \<longleftrightarrow> session_inv sv \<and> roster_inv sv \<and> lifecycle_inv sv"

lemma server_inv_init: "server_inv (mk_audio_server config backend captureId playbackId injectOnly)"
  by (simp add: server_inv_def session_inv_def roster_inv_def lifecycle_inv_def mk_audio_server_def shape_at_def threads_of_def
      run_at_def life_of_def)

lemma calm_inv:
  assumes c: "calm sv sv'" and inv: "server_inv sv"
  shows "server_inv sv'"
proof -
  from c have sh: "shape_at sv' = shape_at sv" "run_at sv' = run_at sv" by (auto simp: calm_def run_at_def fun_eq_iff)
  have th: "threads_of sv' = threads_of sv" by (simp add: threads_of_def sh)
  have ro: "on_roster sv' = on_roster sv" by (simp add: on_roster_def sh fun_eq_iff)
  from c inv have "session_inv sv'" unfolding server_inv_def session_inv_def sh th by (auto simp: calm_def)
  moreover have "roster_inv sv'" using c inv unfolding server_inv_def roster_inv_def ro by (auto simp: calm_def)
  moreover have "lifecycle_inv sv'" using c inv by (auto simp: calm_def server_inv_def lifecycle_inv_def stopped_def)
  ultimately show ?thesis by (simp add: server_inv_def)
qed

lemma threads_pos:
  assumes "finite {i. shape_at sv i \<noteq> None}" "shape_at sv i = Some s" "0 < live s"
  shows "0 < threads_of sv"
proof -
  have "0 \<le> live (the (shape_at sv j))" for j by (cases "the (shape_at sv j)" rule: live.cases) simp
  moreover have "i \<in> {i. shape_at sv i \<noteq> None}" using assms(2) by (simp del: not_None_eq)
  ultimately have "live (the (shape_at sv i)) \<le> threads_of sv" unfolding threads_of_def using assms(1) by (intro member_le_sum) simp_all
  then show ?thesis using assms(2,3) by simp
qed

lemma moved_inv:
  assumes m: "moved i s' ev sv sv'" and inv: "server_inv sv" and s: "shape_at sv i = Some s" "fst s' = R_new \<longleftrightarrow> fst s = R_new"
    and t: "0 < live s \<or> live s' = live s" and ok: "local_ok s'" and life: "phase_life (Some (fst s')) (life_of i sv @ ev)"
    and ls: "i \<in> set (as_sessions sv) \<longrightarrow> listed s'"
  shows "server_inv sv'"
proof -
  have sh: "shape_at sv' = (shape_at sv)(i \<mapsto> s')" using m by (simp add: moved_def)
  have dom: "{j. shape_at sv' j \<noteq> None} = {j. shape_at sv j \<noteq> None}" unfolding sh using s(1) by (auto simp del: not_None_eq)
  have run: "run_at sv' = (run_at sv)(i \<mapsto> fst s')" by (simp add: run_at_def sh fun_eq_iff)
  have ri: "run_at sv i = Some (fst s)" using s by (simp add: run_at_def)
  have si: "session_inv sv" using inv by (simp add: server_inv_def)
  have th: "as_activeThreads sv' = threads_of sv'"
    using threads_of_upd [OF _ s(1) sh] si m s(1) by (simp add: session_inv_def moved_def)
  have lf: "life_of j sv' = life_of j sv @ (if j = i then ev else [])" for j using m by (simp add: moved_def)
  have "phase_life (run_at sv' j) (life_of j sv')" for j
    using si life unfolding run lf by (auto simp: session_inv_def)
  moreover have "run_at sv' j = Some R_new \<longleftrightarrow> run_at sv j = Some R_new" for j
    using ri s(2) unfolding run by auto
  moreover have "pred_option local_ok (shape_at sv' j)" for j using si ok by (cases "j = i") (simp_all add: sh session_inv_def)
  moreover have "as_accept sv' = as_accept sv" "as_clientIdCounter sv' = as_clientIdCounter sv" using m by (simp_all add: moved_def)
  moreover have "shape_at sv' j = None \<longleftrightarrow> shape_at sv j = None" for j using s(1) by (simp add: sh)
  ultimately have "session_inv sv'" using si th unfolding session_inv_def dom
    by (elim conjE, intro conjI) (simp_all del: not_None_eq)
  moreover have "on_roster sv' j" if "on_roster sv j" "j \<in> set (as_sessions sv)" for j
    using that ls by (cases "j = i") (simp_all add: on_roster_def sh)
  then have "roster_inv sv'" using m inv by (auto simp: moved_def server_inv_def roster_inv_def)
  moreover have "as_activeThreads sv' = 0" if "stopped sv"
  proof -
    have z: "as_activeThreads sv = 0" using that inv by (simp add: server_inv_def lifecycle_inv_def)
    then have "\<not> 0 < live s" using threads_pos [OF _ s(1)] si by (auto simp: session_inv_def)
    with t m s(1) z show ?thesis by (auto simp: moved_def)
  qed
  then have "lifecycle_inv sv'" using m inv by (auto simp: moved_def server_inv_def lifecycle_inv_def stopped_def)
  ultimately show ?thesis by (simp add: server_inv_def)
qed

lemma inv_at:
  assumes "server_inv sv" "shape_at sv i = Some s"
  shows "local_ok s" "phase_life (Some (fst s)) (life_of i sv)" "i \<in> set (as_sessions sv) \<longrightarrow> listed s"
proof -
  have "pred_option local_ok (shape_at sv i)" using assms(1) by (simp add: server_inv_def session_inv_def)
  then show "local_ok s" using assms(2) by simp
  have "phase_life (run_at sv i) (life_of i sv)" using assms(1) by (simp add: server_inv_def session_inv_def)
  then show "phase_life (Some (fst s)) (life_of i sv)" using assms(2) by (simp add: run_at_def)
  show "i \<in> set (as_sessions sv) \<longrightarrow> listed s" using assms by (auto simp: server_inv_def roster_inv_def on_roster_def)
qed

section \<open>The steps of a close\<close>

text \<open>A call of \<open>close()\<close> by a thread that is not inside one.\<close>

lemma called_inv:
  assumes m: "moved i (closed_shape who (r, w, c, cl, e)) [] sv sv'" and inv: "server_inv sv" and sh: "shape_at sv i = Some (r, w, c, cl, e)"
    and who: "who \<noteq> By_run" "may_close who (r, w, c, cl, e)" "\<And>ends. who = By_receiver ends \<Longrightarrow> \<forall>k. map_option snd e \<noteq> Some (By_receiver k)"
      "who = By_writer \<Longrightarrow> map_option snd e \<noteq> Some By_writer"
  shows "server_inv sv'"
proof (rule moved_inv [OF m inv sh])
  note at = inv_at [OF inv sh]
  show "local_ok (closed_shape who (r, w, c, cl, e))"
    using at(1) who by (cases who; cases cl) (auto simp: shape_simps)
  show "fst (closed_shape who (r, w, c, cl, e)) = R_new \<longleftrightarrow> fst (r, w, c, cl, e) = R_new" using who(1) by (cases who; cases cl) (simp_all add: shape_simps)
  show "0 < live (r, w, c, cl, e) \<or> live (closed_shape who (r, w, c, cl, e)) = live (r, w, c, cl, e)"
    using who(1,2) by (cases who; cases cl) (auto simp: shape_simps)
  show "phase_life (Some (fst (closed_shape who (r, w, c, cl, e)))) (life_of i sv @ [])"
    using at(2) who(1) by (cases who; cases cl) (simp_all add: shape_simps)
  show "i \<in> set (as_sessions sv) \<longrightarrow> listed (closed_shape who (r, w, c, cl, e))"
    using at(3) who(1) by (cases who; cases cl) (simp_all add: shape_simps)
qed

text \<open>The run thread leaves.\<close>

lemma leaves_inv:
  assumes m: "moved i (closed_shape By_run (R_leaving, w, c, cl, e)) (ev @ closed_note By_run (R_leaving, w, c, cl, e)) sv sv'"
    and inv: "server_inv sv" and sh: "shape_at sv i = Some (r, w, c, cl, e)" and r: "r \<noteq> R_new" "r \<noteq> R_done" "r \<noteq> R_leaving"
    and life: "life_of i sv @ ev = [L_connected] \<or> life_of i sv @ ev = [L_connected, L_started, L_stopped]"
  shows "server_inv sv'"
proof (rule moved_inv [OF m inv sh])
  note at = inv_at [OF inv sh]
  show "local_ok (closed_shape By_run (R_leaving, w, c, cl, e))" using at(1) r by (cases cl) (auto simp: shape_simps)
  show "fst (closed_shape By_run (R_leaving, w, c, cl, e)) = R_new \<longleftrightarrow> fst (r, w, c, cl, e) = R_new" using r by (cases cl) (simp_all add: shape_simps)
  show "0 < live (r, w, c, cl, e) \<or> live (closed_shape By_run (R_leaving, w, c, cl, e)) = live (r, w, c, cl, e)" using r by simp
  show "phase_life (Some (fst (closed_shape By_run (R_leaving, w, c, cl, e)))) (life_of i sv @ ev @ closed_note By_run (R_leaving, w, c, cl, e))"
    using life by (cases cl) (auto simp: shape_simps left_note_def simp flip: append_assoc)
  show "i \<in> set (as_sessions sv) \<longrightarrow> listed (closed_shape By_run (R_leaving, w, c, cl, e))" using at(3) by (cases cl) (simp_all add: shape_simps)
qed

lemma drop_inv: "server_inv sv \<Longrightarrow> server_inv (sv\<lparr>as_sessions := removeAll i (as_sessions sv)\<rparr>)"
proof -
  assume inv: "server_inv sv"
  let ?s = "sv\<lparr>as_sessions := removeAll i (as_sessions sv)\<rparr>"
  have sh: "shape_at ?s = shape_at sv" "life_of j ?s = life_of j sv" for j by (simp_all add: shape_at_def life_of_def fun_eq_iff)
  have "run_at ?s = run_at sv" "threads_of ?s = threads_of sv" "on_roster ?s = on_roster sv"
    by (simp_all add: run_at_def threads_of_def on_roster_def sh fun_eq_iff)
  note views = sh this
  have "session_inv ?s" using inv unfolding server_inv_def session_inv_def views by simp
  moreover have len: "int (length (removeAll i (as_sessions sv))) \<le> int (length (as_sessions sv))" by (simp add: removeAll_filter_not_eq)
  have "roster_inv ?s" using inv order_trans [OF len] order_le_less_trans [OF len] unfolding server_inv_def roster_inv_def views
    by (elim conjE, intro conjI) (simp_all add: removeAll_filter_not_eq sorted_wrt_filter)
  moreover have "lifecycle_inv ?s" using inv by (simp add: server_inv_def lifecycle_inv_def stopped_def)
  ultimately show ?thesis by (simp add: server_inv_def)
qed

lemma close_section_inv:
  assumes "server_inv sv"
  shows "server_inv (close_section st i sv)" "shape_at (close_section st i sv) = shape_at sv"
    "st = Cl_roster \<Longrightarrow> i \<notin> set (as_sessions (close_section st i sv))"
proof -
  show "server_inv (close_section st i sv)"
    using drop_inv [OF assms, of i] calm_inv [OF close_section_calm assms, of st i] by (cases "st = Cl_roster") simp_all
  show "shape_at (close_section st i sv) = shape_at sv"
    using close_section_calm [of st sv i] by (cases "st = Cl_roster") (simp_all add: calm_def shape_at_def fun_eq_iff)
qed simp

lemma close_turn_moved:
  assumes sh: "shape_at (close_section st i sv) i = Some (r, w, c, cl, Some (st, who))" and who: "may_close who (r, w, c, cl, Some (st, who))"
  shows "case next_stage st of
      Some n \<Rightarrow> moved i (r, w, c, cl, Some (n, who)) [] (close_section st i sv) (close_turn st who i sv)
    | None \<Rightarrow> moved i (left_shape who (r, w, c, cl, None)) (left_note who) (close_section st i sv) (close_turn st who i sv)"
proof -
  let ?e = "map_option (\<lambda>st. (st, who)) (next_stage st)"
  let ?b = "on_sx i (\<lambda>x. x\<lparr>sx_close := ?e\<rparr>) (close_section st i sv)"
  have b: "moved i (r, w, c, cl, ?e) [] (close_section st i sv) ?b"
    by (rule on_sx_moved [OF sh]) (simp_all add: shape_def)
  show ?thesis
  proof (cases "next_stage st")
    case None
    have "may_close who (r, w, c, cl, None)" using who by (cases who) simp_all
    moreover have "shape_at ?b i = Some (r, w, c, cl, None)" using moved_shape [OF b] None by simp
    ultimately have "moved i (left_shape who (r, w, c, cl, None)) (left_note who) ?b (after_close who i ?b)" by (intro after_close_moved)
    from moved_trans [OF b this] None show ?thesis by (simp add: close_turn_def Let_def)
  next
    case (Some n)
    then show ?thesis using b by (simp add: close_turn_def Let_def)
  qed
qed

lemma close_turn_inv:
  assumes inv: "server_inv sv" and sh: "shape_at sv i = Some (r, w, c, cl, Some (st, who))"
  shows "server_inv (close_turn st who i sv)"
proof -
  let ?s = "close_section st i sv"
  note sec = close_section_inv [OF inv, of st i]
  have sh': "shape_at ?s i = Some (r, w, c, cl, Some (st, who))" using sh sec(2) by simp
  note at = inv_at [OF sec(1) sh']
  have who: "may_close who (r, w, c, cl, Some (st, who))" using at(1) by (cases who) (auto simp: shape_simps)
  note m = close_turn_moved [OF sh' who]
  show ?thesis
  proof (cases "next_stage st")
    case None
    then have st: "st = Cl_conn" by (cases st) simp_all
    then have off: "i \<notin> set (as_sessions ?s)" using at(1,3) by (auto simp: shape_simps)
    from m None have m': "moved i (left_shape who (r, w, c, cl, None)) (left_note who) ?s (close_turn st who i sv)" by simp
    show ?thesis
    proof (rule moved_inv [OF m' sec(1) sh'])
      show "local_ok (left_shape who (r, w, c, cl, None))" using at(1) by (cases who) (auto simp: shape_simps)
      show "fst (left_shape who (r, w, c, cl, None)) = R_new \<longleftrightarrow> fst (r, w, c, cl, Some (st, who)) = R_new" using at(1) by (cases who) (auto simp: shape_simps)
      show "0 < live (r, w, c, cl, Some (st, who)) \<or> live (left_shape who (r, w, c, cl, None)) = live (r, w, c, cl, Some (st, who))"
        using at(1) by (cases who) (auto simp: shape_simps)
      show "phase_life (Some (fst (left_shape who (r, w, c, cl, None)))) (life_of i ?s @ left_note who)"
        using at(1,2) by (cases who) (auto simp: shape_simps left_note_def)
    qed (simp add: off)
  next
    case (Some n)
    from m Some have m': "moved i (r, w, c, cl, Some (n, who)) [] ?s (close_turn st who i sv)" by simp
    show ?thesis
    proof (rule moved_inv [OF m' sec(1) sh'])
      show "i \<in> set (as_sessions ?s) \<longrightarrow> listed (r, w, c, cl, Some (n, who))" using at(1,3) Some sec(3) by (cases st) (auto simp: shape_simps)
    qed (use at in \<open>auto simp: shape_simps\<close>)
  qed
qed

section \<open>Preservation\<close>

text \<open>The accept thread.\<close>

lemma accept_frame:
  assumes "shape_at sv' = shape_at sv" "as_activeThreads sv' = as_activeThreads sv" "\<And>i. life_of i sv' = life_of i sv"
    "as_sessions sv' = as_sessions sv" "as_config sv' = as_config sv" "as_clientIdCounter sv \<le> as_clientIdCounter sv'"
    "\<And>i a. as_accept sv = Acc_inserted i a \<longleftrightarrow> as_accept sv' = Acc_inserted i a"
    "\<And>i a. as_accept sv' = Acc_opening i a \<or> as_accept sv' = Acc_checked i a \<Longrightarrow>
       shape_at sv i = None \<and> (\<exists>n < as_clientIdCounter sv'. i = session_id n) \<and> int (length (as_sessions sv)) < maxClients (as_config sv)"
    and "server_inv sv" "lifecycle_inv sv'"
  shows "server_inv sv'"
proof -
  have run: "run_at sv' = run_at sv" by (simp add: run_at_def assms(1) fun_eq_iff)
  have th: "threads_of sv' = threads_of sv" by (simp add: threads_of_def assms(1))
  have mono: "(\<exists>n < as_clientIdCounter sv. i = session_id n) \<Longrightarrow> \<exists>n < as_clientIdCounter sv'. i = session_id n" for i
    using assms(6) order_less_le_trans [of _ "as_clientIdCounter sv" "as_clientIdCounter sv'"] by blast
  have ro: "on_roster sv' = on_roster sv" by (simp add: on_roster_def assms(1) fun_eq_iff)
  have "session_inv sv'"
    using assms(9) mono assms(8) unfolding server_inv_def session_inv_def run th assms(1-3) assms(7) [symmetric] by blast
  moreover have "roster_inv sv'" using assms(9,8) unfolding server_inv_def roster_inv_def ro assms(4,5) by auto
  ultimately show ?thesis using assms(10) by (simp add: server_inv_def)
qed

lemma session_id_inject: "session_id m = session_id n \<Longrightarrow> m = n"
  by (simp add: session_id_def to_string_inject)

lemma accept_check_inv:
  assumes inv: "server_inv sv" and a: "as_acceptThread sv" "as_accept sv = Acc_idle"
  shows "server_inv (accept_check addr sv)"
proof (cases "as_running sv")
  case run: True
  let ?n = "as_clientIdCounter sv"
  have new: "shape_at sv (session_id ?n) = None"
  proof (rule ccontr)
    assume "shape_at sv (session_id ?n) \<noteq> None"
    then obtain m where "m < ?n" "session_id ?n = session_id m" using inv by (auto simp: server_inv_def session_inv_def simp del: not_None_eq)
    then show False using session_id_inject by fastforce
  qed
  have frame: "shape_at (accept_check addr sv) = shape_at sv" "life_of i (accept_check addr sv) = life_of i sv" for i
    by (simp_all add: accept_check_def reject_def shape_at_def life_of_def Let_def fun_eq_iff)
  show ?thesis
    by (rule accept_frame [OF frame(1) _ frame(2) _ _ _ _ _ inv])
      (use run a inv new in \<open>auto simp: accept_check_def reject_def Let_def lifecycle_inv_def server_inv_def stopped_def split: if_splits\<close>)
qed (simp add: accept_check_def inv)

lemma openSharedAudioLines_frame:
  assumes "openSharedAudioLines capture playback sv = (err, sv')"
  shows "shape_at sv' = shape_at sv \<and> (\<forall>i. life_of i sv' = life_of i sv) \<and> as_sessions sv' = as_sessions sv \<and>
    as_config sv' = as_config sv \<and> as_clientIdCounter sv' = as_clientIdCounter sv \<and> as_accept sv' = as_accept sv \<and>
    as_activeThreads sv' = as_activeThreads sv \<and> as_running sv' = as_running sv \<and> as_stop sv' = as_stop sv \<and> as_acceptThread sv' = as_acceptThread sv"
  using assms by (auto simp: openSharedAudioLines_def Let_def shape_at_def life_of_def fun_eq_iff split: if_splits)

lemma accept_open_inv:
  assumes inv: "server_inv sv" and a: "as_accept sv = Acc_opening i addr"
  shows "server_inv (accept_open capture playback i addr sv)"
proof -
  obtain err sv1 where o: "openSharedAudioLines capture playback sv = (err, sv1)" by fastforce
  note fr = openSharedAudioLines_frame [OF o]
  have acc: "as_acceptThread sv" "\<not> stopped sv" using inv a by (auto simp: server_inv_def lifecycle_inv_def)
  let ?s = "accept_open capture playback i addr sv"
  have eq: "?s = (case err of Some e \<Rightarrow> reject addr Rejected (''Audio devices unavailable: '' @ e) sv1 | None \<Rightarrow> sv1\<lparr>as_accept := Acc_checked i addr\<rparr>)"
    by (simp add: accept_open_def o split: option.split)
  have frame: "shape_at ?s = shape_at sv" "life_of j ?s = life_of j sv" for j
    using fr unfolding eq by (auto simp: reject_def shape_at_def life_of_def fun_eq_iff split: option.split)
  show ?thesis
    by (rule accept_frame [OF frame(1) _ frame(2) _ _ _ _ _ inv])
      (use fr a inv acc in \<open>auto simp: eq reject_def lifecycle_inv_def server_inv_def session_inv_def roster_inv_def stopped_def split: option.splits\<close>)
qed

lemma accept_insert_inv:
  assumes inv: "server_inv sv" and a: "as_accept sv = Acc_checked i addr" and st: "accept_insert i addr sv = Some sv'"
  shows "server_inv sv'"
proof -
  from st obtain s where s: "mk_client_session (as_config sv) i = Some s" by (auto simp: accept_insert_def split: option.splits)
  have acc: "as_acceptThread sv" using inv a by (auto simp: server_inv_def lifecycle_inv_def)
  have fresh: "shape_at sv i = None" "\<exists>n < as_clientIdCounter sv. i = session_id n" "int (length (as_sessions sv)) < maxClients (as_config sv)"
    using inv a by (auto simp: server_inv_def session_inv_def roster_inv_def)
  show ?thesis
  proof (cases "as_running sv")
    case False
    then have sv': "sv' = sv\<lparr>as_accept := Acc_idle\<rparr>" using st s by (simp add: accept_insert_def)
    show ?thesis
      by (rule accept_frame [OF _ _ _ _ _ _ _ _ inv])
        (use inv a acc in \<open>auto simp: sv' shape_at_def life_of_def fun_eq_iff server_inv_def lifecycle_inv_def stopped_def\<close>)
  next
    case True
    let ?x = "\<lparr>sx_cs = s, sx_run = R_new, sx_writer = False, sx_receiver = False, sx_connClosed = False, sx_close = None\<rparr>"
    have sv': "sv' = sv\<lparr>as_accept := Acc_inserted i addr, as_sessions := oset_insert i (as_sessions sv), as_objs := (as_objs sv)(i \<mapsto> ?x)\<rparr>"
      using st s True by (simp add: accept_insert_def)
    have sh: "shape_at sv' = (shape_at sv)(i \<mapsto> (R_new, False, False, False, None))"
      using mk_client_session_fresh [OF s] by (auto simp: sv' shape_at_def shape_def fun_eq_iff)
    have run: "run_at sv' = (run_at sv)(i \<mapsto> R_new)" by (simp add: run_at_def sh fun_eq_iff)
    have life: "life_of j sv' = life_of j sv" for j by (simp add: sv' life_of_def)
    have dom: "{j. shape_at sv' j \<noteq> None} = insert i {j. shape_at sv j \<noteq> None}" unfolding sh by (auto simp del: not_None_eq)
    have si: "session_inv sv" using inv by (simp add: server_inv_def)
    have "threads_of sv' = threads_of sv"
    proof -
      have "(\<Sum>j \<in> {j. shape_at sv j \<noteq> None}. live (the (shape_at sv' j))) = threads_of sv"
        unfolding threads_of_def by (intro sum.cong) (use fresh(1) in \<open>auto simp: sh simp del: not_None_eq\<close>)
      then show ?thesis using si fresh(1) unfolding threads_of_def [of sv'] dom by (simp add: session_inv_def sh del: not_None_eq)
    qed
    moreover have "phase_life (run_at sv' j) (life_of j sv')" for j
      using si fresh(1) unfolding run life by (auto simp: session_inv_def run_at_def dest: spec [of _ i])
    moreover have "run_at sv' j = Some R_new \<longleftrightarrow> (\<exists>b. as_accept sv' = Acc_inserted j b)" for j
      using si a unfolding run by (auto simp: session_inv_def sv')
    moreover have "pred_option local_ok (shape_at sv' j)" for j using si by (simp add: sh session_inv_def local_ok.simps)
    moreover have "shape_at sv' j \<noteq> None \<longrightarrow> (\<exists>n < as_clientIdCounter sv'. j = session_id n)" for j
      using si fresh(2) unfolding sh by (auto simp: session_inv_def sv' simp del: not_None_eq)
    ultimately have "session_inv sv'" using si unfolding session_inv_def dom
      by (elim conjE, intro conjI) (simp_all add: sv' del: not_None_eq)
    moreover have "on_roster sv' i" "on_roster sv j \<Longrightarrow> on_roster sv' j" for j by (simp_all add: on_roster_def sh listed.simps)
    then have "roster_inv sv'"
      using inv fresh(3) length_oset_insert [of i "as_sessions sv"]
      by (auto simp: sv' server_inv_def roster_inv_def oset_insert_sorted set_oset_insert)
    moreover have "lifecycle_inv sv'" using inv acc True by (auto simp: sv' server_inv_def lifecycle_inv_def stopped_def)
    ultimately show ?thesis by (simp add: server_inv_def)
  qed
qed

lemma accept_start_inv:
  assumes inv: "server_inv sv" and a: "as_accept sv = Acc_inserted i addr"
  shows "server_inv (accept_start i addr sv)"
proof -
  let ?s = "accept_start i addr sv"
  have si: "session_inv sv" using inv by (simp add: server_inv_def)
  have acc: "as_acceptThread sv" "\<not> stopped sv" using inv a by (auto simp: server_inv_def lifecycle_inv_def)
  have new: "run_at sv i = Some R_new" using si a by (auto simp: session_inv_def)
  then obtain w c cl e where sh1: "shape_at sv i = Some (R_new, w, c, cl, e)" by (auto simp: run_at_def)
  note at = inv_at [OF inv sh1]
  then have sh0: "shape_at sv i = Some (R_new, False, False, cl, e)" using sh1 by (simp add: local_ok.simps)
  obtain x where x: "as_objs sv i = Some x" "shape x = (R_new, False, False, cl, e)" using sh0 by (auto simp: shape_at_def)
  have s: "?s = sv\<lparr>as_events := as_events sv @ [OnClientConnected i addr], as_activeThreads := as_activeThreads sv + 1,
      as_accept := Acc_idle, as_objs := (as_objs sv)(i \<mapsto> x\<lparr>sx_run := R_handshake\<rparr>)\<rparr>"
    by (simp add: accept_start_def set_run_def on_sx_def post_def x(1))
  have sh: "shape_at ?s = (shape_at sv)(i \<mapsto> (R_handshake, False, False, cl, e))" using x by (auto simp: s shape_at_def shape_def fun_eq_iff)
  have run: "run_at ?s = (run_at sv)(i \<mapsto> R_handshake)" by (simp add: run_at_def sh fun_eq_iff)
  have life: "life_of j ?s = life_of j sv @ (if j = i then [L_connected] else [])" for j by (simp add: s life_of_def)
  have dom: "{j. shape_at ?s j \<noteq> None} = {j. shape_at sv j \<noteq> None}" unfolding sh using sh0 by (auto simp del: not_None_eq)
  have "phase_life (run_at sv i) (life_of i sv)" using si by (simp add: session_inv_def)
  then have li: "life_of i sv = []" by (simp add: new)
  have only: "run_at sv j = Some R_new \<longrightarrow> j = i" for j using si a by (auto simp: session_inv_def)
  have "as_activeThreads ?s = threads_of ?s"
    using threads_of_upd [OF _ sh0 sh] si by (simp add: session_inv_def s)
  moreover have "phase_life (run_at ?s j) (life_of j ?s)" for j using si li unfolding run life by (auto simp: session_inv_def)
  moreover have "run_at ?s j = Some R_new \<longleftrightarrow> (\<exists>b. as_accept ?s = Acc_inserted j b)" for j using only unfolding run by (auto simp: s)
  moreover have "pred_option local_ok (shape_at ?s j)" for j
    using si at(1) by (cases "j = i") (auto simp: sh session_inv_def local_ok.simps)
  moreover have "shape_at ?s j = None \<longleftrightarrow> shape_at sv j = None" for j using sh0 by (simp add: sh)
  moreover have "as_accept ?s = Acc_idle" "as_clientIdCounter ?s = as_clientIdCounter sv" by (simp_all add: s)
  ultimately have "session_inv ?s" using si unfolding session_inv_def dom
    by (elim conjE, intro conjI) (simp_all del: not_None_eq)
  moreover have "on_roster sv j \<Longrightarrow> on_roster ?s j" for j using sh0 by (cases "j = i") (simp_all add: on_roster_def sh listed.simps)
  then have "roster_inv ?s" using inv by (simp add: s server_inv_def roster_inv_def)
  moreover have "lifecycle_inv ?s" using inv acc by (auto simp: s server_inv_def lifecycle_inv_def stopped_def)
  ultimately show ?thesis by (simp add: server_inv_def)
qed

text \<open>Start and stop.\<close>

text \<open>Changes of the lifecycle fields alone.\<close>

lemma lifecycle_step:
  assumes "server_inv sv" "shape_at sv' = shape_at sv" "\<And>i. life_of i sv' = life_of i sv"
    "as_accept sv' = as_accept sv" "as_clientIdCounter sv' = as_clientIdCounter sv" "as_activeThreads sv' = as_activeThreads sv"
    "as_config sv' = as_config sv" "as_sessions sv' = as_sessions sv \<or> as_sessions sv' = []" "lifecycle_inv sv'"
  shows "server_inv sv'"
proof -
  have run: "run_at sv' = run_at sv" by (simp add: run_at_def assms(2) fun_eq_iff)
  have th: "threads_of sv' = threads_of sv" by (simp add: threads_of_def assms(2))
  have ro: "on_roster sv' = on_roster sv" by (simp add: on_roster_def assms(2) fun_eq_iff)
  have "session_inv sv'" using assms(1) unfolding server_inv_def session_inv_def run th assms(2-6) by blast
  moreover have "roster_inv sv'"
    using assms(1,8) unfolding server_inv_def roster_inv_def ro assms(4,7) by (auto intro: order_le_less_trans [rotated])
  ultimately show ?thesis using assms(9) by (simp add: server_inv_def)
qed

lemma stop_begin_inv: "server_inv sv \<Longrightarrow> server_inv (stop_begin sv)"
  by (rule lifecycle_step [of sv])
    (auto simp: stop_begin_def shape_at_def life_of_def server_inv_def lifecycle_inv_def stopped_def fun_eq_iff)

lemma all_done_at_barrier:
  assumes "session_inv sv" "as_activeThreads sv = 0" "as_accept sv = Acc_idle" "shape_at sv i = Some s"
  shows "fst s = R_done"
proof (rule ccontr)
  assume nd: "fst s \<noteq> R_done"
  have "run_at sv i \<noteq> Some R_new" using assms(1,3) by (simp add: session_inv_def)
  then have "fst s \<noteq> R_new" using assms(4) by (simp add: run_at_def)
  with nd have "0 < live s" by (cases s rule: live.cases) simp
  from threads_pos [OF _ assms(4) this] assms(1,2) show False by (simp add: session_inv_def)
qed

lemma close_call_inv:
  assumes "server_inv sv" "who = By_stop \<or> who = By_fanout"
  shows "server_inv (session_close who i sv)" "as_stop (session_close who i sv) = as_stop sv"
    "as_running (session_close who i sv) = as_running sv"
proof -
  have m: "moved i (closed_shape who s) [] sv (session_close who i sv)" if "shape_at sv i = Some s" for s
    using that assms(2) by (intro other_close_moved) auto
  have none: "shape_at sv i = None \<Longrightarrow> session_close who i sv = sv" by (simp add: session_close_def shape_at_def)
  show "server_inv (session_close who i sv)"
  proof (cases "shape_at sv i")
    case (Some s)
    obtain r w c cl e where s: "s = (r, w, c, cl, e)" by (cases s rule: live.cases)
    show ?thesis by (rule called_inv [OF m [OF Some, unfolded s] assms(1) Some [unfolded s]]) (use assms(2) in auto)
  qed (simp add: none assms(1))
  show "as_stop (session_close who i sv) = as_stop sv" "as_running (session_close who i sv) = as_running sv"
    using m none by (cases "shape_at sv i"; simp add: moved_def)+
qed

lemma target_report_inv: "server_inv sv \<Longrightarrow> server_inv (target_report i sv)"
  using close_call_inv(1) [OF calm_inv [OF shared_calm(4)], of sv By_fanout] calm_inv [OF shared_calm(4), of sv]
  by (simp add: target_report_def Let_def)

text \<open>A change of the stop phase alone.\<close>

lemma set_stop_inv:
  assumes "server_inv sv" "as_stop sv \<noteq> St_none" "ph \<noteq> St_none" "joined ph \<longrightarrow> joined (as_stop sv) \<or> \<not> as_acceptThread sv"
  shows "server_inv (sv\<lparr>as_stop := ph\<rparr>)"
  by (rule lifecycle_step [OF assms(1)])
    (use assms in \<open>auto simp: shape_at_def life_of_def server_inv_def lifecycle_inv_def stopped_def fun_eq_iff\<close>)

lemma stop_advance_inv:
  assumes inv: "server_inv sv"
  shows "server_inv (stop_advance sv)"
proof (cases "as_stop sv")
  case (St_closing again cur rest)
  show ?thesis
  proof (cases cur)
    case None
    show ?thesis
    proof (cases rest)
      case (Cons i more)
      let ?c = "session_close By_stop i sv"
      note c = close_call_inv [OF inv, of By_stop i, simplified]
      have "server_inv (?c\<lparr>as_stop := St_closing again (Some i) more\<rparr>)"
        by (rule set_stop_inv [OF c(1)]) (simp_all add: c(2) St_closing)
      then show ?thesis by (simp add: stop_advance_def St_closing None Cons)
    qed (use set_stop_inv [OF inv] in \<open>auto simp: stop_advance_def St_closing None\<close>)
  qed (use set_stop_inv [OF inv] inv in \<open>auto simp: stop_advance_def St_closing\<close>)
next
  case St_barrier1
  show ?thesis
    by (rule lifecycle_step [OF inv];
      use inv in \<open>auto simp: stop_advance_def St_barrier1 stopSharedAudio_def shape_at_def life_of_def server_inv_def lifecycle_inv_def stopped_def fun_eq_iff\<close>)
next
  case St_barrier2
  show ?thesis
    by (rule lifecycle_step [OF inv];
      use inv in \<open>auto simp: stop_advance_def St_barrier2 stopSharedAudio_def post_def shape_at_def life_of_def server_inv_def lifecycle_inv_def stopped_def fun_eq_iff\<close>)
qed (use set_stop_inv [OF inv] inv in \<open>auto simp: stop_advance_def\<close>)

lemma accept_exit_inv: "server_inv sv \<Longrightarrow> as_accept sv = Acc_idle \<Longrightarrow> server_inv (accept_exit sv)"
  by (rule lifecycle_step [of sv])
    (auto simp: accept_exit_def shape_at_def life_of_def server_inv_def lifecycle_inv_def stopped_def fun_eq_iff)

definition same_sessions :: "audio_server \<Rightarrow> audio_server \<Rightarrow> bool" where
  "same_sessions sv sv' \<longleftrightarrow> as_objs sv' = as_objs sv \<and> as_events sv' = as_events sv \<and> as_sessions sv' = as_sessions sv \<and>
     as_config sv' = as_config sv \<and> as_clientIdCounter sv' = as_clientIdCounter sv \<and> as_accept sv' = as_accept sv \<and>
     as_activeThreads sv' = as_activeThreads sv \<and> as_running sv' = as_running sv \<and> as_stop sv' = as_stop sv \<and> as_acceptThread sv' = as_acceptThread sv"

lemma same_sessions_views: "same_sessions sv sv' \<Longrightarrow> shape_at sv' = shape_at sv \<and> (\<forall>i. life_of i sv' = life_of i sv)"
  by (simp add: same_sessions_def shape_at_def life_of_def fun_eq_iff)

lemma openSharedAudioLines_same: "same_sessions sv (snd (openSharedAudioLines capture playback sv))"
  by (simp add: openSharedAudioLines_def Let_def same_sessions_def)

lemma initializeSharedAudio_frame:
  assumes "initializeSharedAudio capture playback sv = Some (e, sv')"
  shows "same_sessions sv sv'" "e \<noteq> None \<Longrightarrow> as_broadcaster sv' = None \<and> as_mixer sv' = None \<and> \<not> as_captureOpen sv' \<and> \<not> as_playbackOpen sv'"
proof -
  from assms obtain m where m: "mk_audio_mixer (as_config sv) = Some m" by (auto simp: initializeSharedAudio_def split: option.splits)
  let ?a = "sv\<lparr>as_broadcaster := Some (mk_broadcaster (as_config sv)), as_mixer := Some m\<rparr>"
  obtain err sv1 where o: "openSharedAudioLines capture playback ?a = (err, sv1)" by fastforce
  have s1: "same_sessions sv sv1" using openSharedAudioLines_same [of ?a capture playback] o by (simp add: same_sessions_def)
  have i: "initializeSharedAudio capture playback sv = Some (if as_captureId ?a
      then (case err of Some err \<Rightarrow> (Some err, stopSharedAudio sv1) | None \<Rightarrow> (None, sv1)) else (None, ?a))"
    unfolding initializeSharedAudio_def m option.case Let_def o by (cases err) simp_all
  have d: "e = None \<and> sv' = ?a \<or> e = None \<and> sv' = sv1 \<or> sv' = stopSharedAudio sv1"
    using assms unfolding i by (cases "as_captureId sv"; cases err) auto
  have "same_sessions sv ?a" "same_sessions sv (stopSharedAudio sv1)" using s1 by (simp_all add: same_sessions_def stopSharedAudio_def)
  with d s1 show "same_sessions sv sv'" by blast
  show "as_broadcaster sv' = None \<and> as_mixer sv' = None \<and> \<not> as_captureOpen sv' \<and> \<not> as_playbackOpen sv'" if "e \<noteq> None"
    using d that by (auto simp: stopSharedAudio_def)
qed

lemma server_start_inv:
  assumes inv: "server_inv sv" and st: "as_stop sv = St_none" "server_start tr bound capture playback sv = Some (err, sv')"
  shows "server_inv sv'"
proof (cases "as_running sv \<or> bare_udp (as_config sv) \<or> \<not> tr \<or> (\<exists>e. bound = Inl e)")
  case True
  then show ?thesis using st inv by (auto simp: server_start_def split: if_splits)
next
  case False
  then obtain port where b: "bound = Inr port" "\<not> as_running sv" "\<not> bare_udp (as_config sv)" tr by (cases bound) auto
  have idle: "as_sessions sv = []" "as_activeThreads sv = 0" "as_accept sv = Acc_idle"
    using inv b(2) st(1) by (auto simp: server_inv_def lifecycle_inv_def stopped_def)
  let ?m = "sv\<lparr>as_transport := True, as_running := True\<rparr>"
  from st b obtain e sv1 where i: "initializeSharedAudio capture playback ?m = Some (e, sv1)"
    and sv': "sv' = (case e of Some err \<Rightarrow> sv1\<lparr>as_running := False, as_transport := False\<rparr> | None \<Rightarrow> post [OnServerStarted port] (sv1\<lparr>as_acceptThread := True\<rparr>))"
    by (auto simp: server_start_def split: option.splits)
  note fr = initializeSharedAudio_frame [OF i]
  have acc: "\<not> as_acceptThread sv" using inv b(2) st(1) by (auto simp: server_inv_def lifecycle_inv_def stopped_def)
  have m1: "same_sessions sv (sv1\<lparr>as_running := False\<rparr>)" "as_running sv1" using fr(1) b(2) by (simp_all add: same_sessions_def)
  have "shape_at sv' = shape_at (sv1\<lparr>as_running := False\<rparr>)" "life_of i sv' = life_of i (sv1\<lparr>as_running := False\<rparr>)" for i
    by (simp_all add: sv' shape_at_def life_of_def post_def fun_eq_iff split: option.split)
  then have sh: "shape_at sv' = shape_at sv" "life_of i sv' = life_of i sv" for i
    using same_sessions_views [OF m1(1)] by simp_all
  have eqs: "as_sessions sv1 = []" "as_config sv1 = as_config sv" "as_clientIdCounter sv1 = as_clientIdCounter sv" "as_accept sv1 = Acc_idle"
    "as_activeThreads sv1 = 0" "as_stop sv1 = St_none" "\<not> as_acceptThread sv1"
    using fr(1) idle st(1) acc by (simp_all add: same_sessions_def)
  show ?thesis
    by (rule lifecycle_step [OF inv sh])
      (use fr(2) eqs m1(2) idle st(1) acc in \<open>auto simp: sv' post_def lifecycle_inv_def stopped_def split: option.split\<close>)
qed

section \<open>Every reachable state\<close>

lemma server_step_inv: "server_step sv sv' \<Longrightarrow> server_inv sv \<Longrightarrow> server_inv sv'"
proof (induction rule: server_step.induct)
  case (step_handshake sv i x packet sv')
  obtain w c cl e where x: "shape x = (R_handshake, w, c, cl, e)" using step_handshake by (simp add: shape_def)
  then have sh: "shape_at sv i = Some (R_handshake, w, c, cl, e)" using step_handshake by (simp add: shape_at_def)
  note at = inv_at [OF step_handshake.prems sh]
  from run_handshake_moved [OF step_handshake.hyps(1) x step_handshake.hyps(3)] show ?case
  proof
    assume "moved i (closed_shape By_run (R_leaving, w, c, cl, e)) (closed_note By_run (R_leaving, w, c, cl, e)) sv sv'"
    with leaves_inv [of i w c cl e "[]", OF _ step_handshake.prems sh] show ?thesis using at by simp
  next
    assume m: "moved i (R_accepting, w, c, cl, e) [] sv sv'"
    show ?thesis by (rule moved_inv [OF m step_handshake.prems sh]) (use at in \<open>auto simp: shape_simps\<close>)
  qed
next
  case (step_register sv i x sent)
  obtain w c cl e where x: "shape x = (R_accepting, w, c, cl, e)" using step_register by (simp add: shape_def)
  then have sh0: "shape_at sv i = Some (R_accepting, w, c, cl, e)" using step_register by (simp add: shape_at_def)
  with inv_at(1) [OF step_register.prems this] have sh: "shape_at sv i = Some (R_accepting, False, False, cl, e)" by (simp add: shape_simps)
  note at = inv_at [OF step_register.prems sh]
  from run_register_moved [OF sh, of sent x] show ?case
  proof
    assume "moved i (closed_shape By_run (R_leaving, False, False, cl, e)) (closed_note By_run (R_leaving, False, False, cl, e)) sv (run_register sent i x sv)"
    with leaves_inv [of i False False cl e "[]", OF _ step_register.prems sh] show ?thesis using at by simp
  next
    assume m: "moved i (R_streaming, True, True, cl, e) [L_started] sv (run_register sent i x sv)"
    show ?thesis by (rule moved_inv [OF m step_register.prems sh]) (use at in \<open>auto simp: shape_simps\<close>)
  qed
next
  case (step_tick sv i x hbDue hbSent timedOut)
  obtain w c cl e where x: "shape x = (R_streaming, w, c, cl, e)" using step_tick by (simp add: shape_def)
  then have sh: "shape_at sv i = Some (R_streaming, w, c, cl, e)" using step_tick by (simp add: shape_at_def)
  note at = inv_at [OF step_tick.prems sh]
  from run_tick_moved [OF sh, of hbDue hbSent timedOut x] show ?case
  proof
    assume "moved i (closed_shape By_run (R_leaving, w, c, cl, e)) ([L_stopped] @ closed_note By_run (R_leaving, w, c, cl, e)) sv
      (run_tick hbDue hbSent timedOut i x sv)"
    from leaves_inv [OF this step_tick.prems sh] show ?thesis using at by simp
  qed (simp add: step_tick.prems)
next
  case (step_writer sv i x ok)
  obtain r c cl e where x: "shape x = (r, True, c, cl, e)" "map_option snd e \<noteq> Some By_writer"
    using step_writer by (simp add: shape_def inside_def)
  then have sh: "shape_at sv i = Some (r, True, c, cl, e)" using step_writer by (simp add: shape_at_def)
  note at = inv_at [OF step_writer.prems sh]
  from writer_turn_moved [OF step_writer.hyps(1) x(1), of ok] show ?case
  proof (elim disjE)
    assume m: "moved i (r, False, c, cl, e) [] sv (writer_turn ok i x sv)"
    show ?thesis by (rule moved_inv [OF m step_writer.prems sh]) (use at x(2) in \<open>auto simp: shape_simps\<close>)
  next
    assume m: "moved i (closed_shape By_writer (r, True, c, cl, e)) [] sv (writer_turn ok i x sv)"
    show ?thesis by (rule called_inv [OF m step_writer.prems sh]) (use x(2) in simp_all)
  qed (rule calm_inv [OF _ step_writer.prems])
next
  case (step_receive sv i x rx now wall nanos sv')
  obtain r w cl e where x: "shape x = (r, w, True, cl, e)" "map_option snd e \<noteq> Some (By_receiver True)" "map_option snd e \<noteq> Some (By_receiver False)"
    using step_receive by (simp add: shape_def inside_def)
  then have no: "map_option snd e \<noteq> Some (By_receiver k)" for k by (cases k) simp_all
  have sh: "shape_at sv i = Some (r, w, True, cl, e)" using step_receive x by (simp add: shape_at_def)
  note at = inv_at [OF step_receive.prems sh]
  from receive_turn_moved [OF step_receive.hyps(1) x(1) step_receive.hyps(5)] show ?case
  proof (elim disjE exE)
    assume m: "moved i (r, w, False, cl, e) [] sv sv'"
    show ?thesis by (rule moved_inv [OF m step_receive.prems sh]) (use at no in \<open>auto simp: shape_simps\<close>)
  next
    fix ends
    assume m: "moved i (closed_shape (By_receiver ends) (r, w, True, cl, e)) [] sv sv'"
    show ?thesis by (rule called_inv [OF m step_receive.prems sh]) (use no in simp_all)
  qed (rule calm_inv [OF _ step_receive.prems])
next
  case (step_close sv i x st who)
  then have "shape_at sv i = Some (sx_run x, sx_writer x, sx_receiver x, cs_closed (sx_cs x), Some (st, who))" by (simp add: shape_at_def shape_def)
  from close_turn_inv [OF step_close.prems this] show ?case .
next
  case step_start
  then show ?case by (blast intro: server_start_inv)
next
  case step_insert
  then show ?case by (blast intro: accept_insert_inv)
next
  case step_inject
  then show ?case by (blast intro: calm_inv inject_calm)
next
  case step_capture
  then show ?case by (blast intro: calm_inv capture_calm)
qed (blast intro: stop_begin_inv stop_advance_inv accept_check_inv accept_open_inv accept_start_inv accept_exit_inv target_report_inv calm_inv idle_check_calm)+

lemma server_reachable_inv: "server_step\<^sup>*\<^sup>* (mk_audio_server config backend captureId playbackId injectOnly) sv \<Longrightarrow> server_inv sv"
  by (induction rule: rtranclp_induct) (auto intro: server_inv_init server_step_inv)

section \<open>Properties\<close>

text \<open>A client that another thread than its run thread is closing, and that is still to be erased from the roster.\<close>

definition erase_pending :: "string \<Rightarrow> audio_server \<Rightarrow> bool" where
  "erase_pending i sv \<longleftrightarrow>
     (case as_objs sv i of
        None \<Rightarrow> False
      | Some x \<Rightarrow> cs_closed (sx_cs x) \<and>
          (case sx_close x of None \<Rightarrow> False | Some (st, who) \<Rightarrow> st \<in> {Cl_target, Cl_mixer, Cl_roster} \<and> who \<noteq> By_run))"

text \<open>
  C16: the events of a client pair up. In every state the server can reach, whatever the threads of the
  sessions, the accept thread, the audio threads and a concurrent stop do and wherever they are inside a close, the roster is within the
  configured limit, and a listener has heard of each client a prefix of: connected, (stream started,
  stream stopped,) disconnected, each at most once. A client that has been reported gone can be on the roster only while
  another thread is inside its close and has not come to the erase.
\<close>

theorem server_events_paired:
  assumes "server_step\<^sup>*\<^sup>* (mk_audio_server config backend captureId playbackId injectOnly) sv"
  shows "int (length (as_sessions sv)) \<le> max 0 (maxClients (as_config sv)) \<and> distinct (as_sessions sv) \<and>
    life_of i sv \<in> {[], [L_connected], [L_connected, L_disconnected], [L_connected, L_started], [L_connected, L_started, L_stopped],
      [L_connected, L_started, L_stopped, L_disconnected]} \<and>
    (i \<in> set (as_sessions sv) \<and> L_disconnected \<in> set (life_of i sv) \<longrightarrow> erase_pending i sv)"
proof -
  have inv: "server_inv sv" by (rule server_reachable_inv [OF assms])
  then have life: "phase_life (run_at sv i) (life_of i sv)" by (simp_all add: server_inv_def session_inv_def)
  have "life_of i sv \<in> {[], [L_connected], [L_connected, L_disconnected], [L_connected, L_started], [L_connected, L_started, L_stopped],
      [L_connected, L_started, L_stopped, L_disconnected]} \<and> (L_disconnected \<in> set (life_of i sv) \<longrightarrow> run_at sv i = Some R_done)"
    using life by (cases "(run_at sv i, life_of i sv)" rule: phase_life.cases) auto
  moreover have "erase_pending i sv" if r: "i \<in> set (as_sessions sv)" "run_at sv i = Some R_done"
  proof -
    from r(2) obtain w c cl e where sh: "shape_at sv i = Some (R_done, w, c, cl, e)" by (auto simp: run_at_def)
    from inv_at [OF inv sh] r(1) have "cl" "map_option fst e \<in> {Some Cl_target, Some Cl_mixer, Some Cl_roster}" "map_option snd e \<noteq> Some By_run"
      by (auto simp: shape_simps)
    with sh show ?thesis by (cases "as_objs sv i") (auto simp: shape_at_def shape_def erase_pending_def)
  qed
  moreover have "sorted_wrt (<) (as_sessions sv)" "int (length (as_sessions sv)) \<le> max 0 (maxClients (as_config sv))"
    using inv by (simp_all add: server_inv_def roster_inv_def)
  ultimately show ?thesis using strict_sorted_distinct by blast
qed

text \<open>
  C17: a stop that has returned left nothing behind. In every reachable state in which the server is not running and no stop is
  in progress the roster is empty, no session thread is alive, the shared audio is released, and every client
  that was reported connected has been reported disconnected, with its stream stopped if it was started; this
  includes the client that the accept thread was admitting while the stop was under way.
\<close>

theorem server_stop_complete:
  assumes "server_step\<^sup>*\<^sup>* (mk_audio_server config backend captureId playbackId injectOnly) sv" "\<not> as_running sv" "as_stop sv = St_none"
  shows "as_sessions sv = [] \<and> as_activeThreads sv = 0 \<and> as_broadcaster sv = None \<and> as_mixer sv = None \<and>
    \<not> as_captureOpen sv \<and> \<not> as_playbackOpen sv \<and>
    life_of i sv \<in> {[], [L_connected, L_disconnected], [L_connected, L_started, L_stopped, L_disconnected]}"
proof -
  have inv: "server_inv sv" by (rule server_reachable_inv [OF assms(1)])
  have st: "as_sessions sv = [] \<and> as_activeThreads sv = 0 \<and> as_broadcaster sv = None \<and> as_mixer sv = None \<and>
    \<not> as_captureOpen sv \<and> \<not> as_playbackOpen sv" "as_accept sv = Acc_idle"
    using inv assms(2,3) by (auto simp: server_inv_def lifecycle_inv_def stopped_def)
  have si: "session_inv sv" using inv by (simp add: server_inv_def)
  then have life: "phase_life (run_at sv i) (life_of i sv)" by (simp add: session_inv_def)
  have "run_at sv i = None \<or> run_at sv i = Some R_done"
    using all_done_at_barrier [OF si _ st(2)] st(1) by (cases "shape_at sv i") (auto simp: run_at_def)
  then show ?thesis using life st(1) by auto
qed

text \<open>
  Two runs of a server without devices that starts and admits a peer. In the first it is stopped while that peer's session is being started, and
  completes the stop after the peer's handshake has failed. In the second the session runs when the stop closes it, and reports its
  end before the stopping thread has come to the erase.
\<close>

definition demo_audio_server :: audio_server where
  "demo_audio_server = mk_audio_server default_config False False False True"

definition demo_obj :: "run_phase \<Rightarrow> bool \<Rightarrow> srv_session" where
  "demo_obj r shut = \<lparr>sx_cs = (the (mk_client_session default_config ''audio-1''))\<lparr>cs_closed := shut, cs_outClosed := shut\<rparr>,
     sx_run = r, sx_writer = False, sx_receiver = False, sx_connClosed = shut, sx_close = None\<rparr>"

lemma demo_parts: "\<exists>m. mk_audio_mixer default_config = Some m \<and> mx_clients m = Map.empty" "\<exists>s. mk_client_session default_config ''audio-1'' = Some s"
  "\<not> bare_udp default_config" "session_id 1 = ''audio-1''" "maxClients default_config = 4"
proof -
  show "\<exists>m. mk_audio_mixer default_config = Some m \<and> mx_clients m = Map.empty"
    by (simp add: mk_audio_mixer_def mk_ring_config_def default_config_def config_calc_defs i32_ok_code cdiv_def MAX_INITIAL_BUFFERING_MS_def split: option.split)
  show "\<exists>s. mk_client_session default_config ''audio-1'' = Some s"
    by (simp add: mk_client_session_def backlog_cap_def default_config_def config_calc_defs i32_ok_code cdiv_def)
  show "\<not> bare_udp default_config" "maxClients default_config = 4" by (simp_all add: bare_udp_def default_config_def)
  show "session_id 1 = ''audio-1''" unfolding session_id_def by code_simp
qed

definition demo_running :: "audio_mixer \<Rightarrow> audio_server" where
  "demo_running m = demo_audio_server\<lparr>as_running := True, as_transport := True, as_broadcaster := Some (mk_broadcaster default_config),
     as_mixer := Some m, as_acceptThread := True, as_events := [OnServerStarted 4533]\<rparr>"

definition demo_admitted :: "audio_mixer \<Rightarrow> audio_server" where
  "demo_admitted m = (demo_running m)\<lparr>as_clientIdCounter := 2, as_accept := Acc_inserted ''audio-1'' ''peer'', as_sessions := [''audio-1''],
     as_objs := [''audio-1'' \<mapsto> demo_obj R_new False]\<rparr>"

lemmas step_into = converse_rtranclp_into_rtranclp [where r = server_step]

lemma demo_start: "mk_audio_mixer default_config = Some m \<Longrightarrow> server_step demo_audio_server (demo_running m)"
  by (rule step_start [of _ True "Inr 4533" None None None])
    (simp_all add: server_start_def demo_audio_server_def demo_running_def mk_audio_server_def initializeSharedAudio_def demo_parts post_def)

lemma demo_admit: "server_step\<^sup>*\<^sup>* (demo_running m) (demo_admitted m)"
proof -
  let ?a = "accept_check ''peer'' (demo_running m)"
  let ?b = "accept_open None None ''audio-1'' ''peer'' ?a"
  have ai: "as_accept ?a = Acc_opening ''audio-1'' ''peer''" using demo_parts(4)
    by (simp add: accept_check_def demo_running_def demo_audio_server_def mk_audio_server_def demo_parts(5) Let_def)
  have bi: "as_accept ?b = Acc_checked ''audio-1'' ''peer''"
    by (simp add: accept_open_def openSharedAudioLines_def accept_check_def demo_running_def demo_audio_server_def mk_audio_server_def demo_parts Let_def)
  have fresh: "sx_cs (demo_obj R_new False) = the (mk_client_session default_config ''audio-1'')"
    using demo_parts(2) by (auto simp: demo_obj_def mk_client_session_def)
  have "demo_obj R_new False = \<lparr>sx_cs = the (mk_client_session default_config ''audio-1''), sx_run = R_new, sx_writer = False, sx_receiver = False, sx_connClosed = False,
      sx_close = None\<rparr>"
    using fresh by (simp add: demo_obj_def)
  then have c: "accept_insert ''audio-1'' ''peer'' ?b = Some (demo_admitted m)" using demo_parts(2,4)
    by (auto simp: accept_insert_def accept_open_def openSharedAudioLines_def accept_check_def demo_running_def demo_admitted_def demo_audio_server_def
        mk_audio_server_def demo_parts(5) Let_def)
  have 1: "server_step (demo_running m) ?a" by (rule step_check) (simp_all add: demo_running_def demo_audio_server_def mk_audio_server_def)
  have 2: "server_step ?a ?b" by (rule step_open [OF ai])
  have 3: "server_step ?b (demo_admitted m)" by (rule step_insert [OF bi c])
  show ?thesis by (rule step_into [OF 1 step_into [OF 2 step_into [OF 3]]]) simp
qed

text \<open>The rest of the run, on the admitted state.\<close>

definition demo_stopping :: audio_server where
  "demo_stopping = demo_audio_server\<lparr>as_transport := True, as_acceptThread := True, as_clientIdCounter := 2, as_accept := Acc_inserted ''audio-1'' ''peer'',
     as_stop := St_join, as_objs := [''audio-1'' \<mapsto> demo_obj R_new True], as_events := [OnServerStarted 4533]\<rparr>"

text \<open>The admitted server while the stop is inside the close of its only session.\<close>

definition demo_closing :: "audio_mixer \<Rightarrow> run_phase \<Rightarrow> session_stage \<Rightarrow> audio_server" where
  "demo_closing m r st = (demo_admitted m)\<lparr>as_running := False, as_stop := St_closing False (Some ''audio-1'') [],
     as_sessions := (if st = Cl_out \<or> st = Cl_conn then [] else [''audio-1'']),
     as_objs := [''audio-1'' \<mapsto> (demo_obj r False)\<lparr>sx_cs := (sx_cs (demo_obj r False))\<lparr>cs_closed := True, cs_outClosed := (st = Cl_conn)\<rparr>,
       sx_close := Some (st, By_stop)\<rparr>]\<rparr>"

lemmas demo_defs = demo_admitted_def demo_running_def demo_audio_server_def mk_audio_server_def demo_obj_def

lemma demo_close_begins: "server_step\<^sup>*\<^sup>* (demo_admitted m) (demo_closing m R_new Cl_target)"
proof -
  have "stop_advance (stop_advance (stop_begin (demo_admitted m))) = demo_closing m R_new Cl_target"
    by (simp add: stop_advance_def stop_begin_def demo_closing_def demo_defs session_close_def on_sx_def fun_eq_iff)
  moreover have "server_step\<^sup>*\<^sup>* (demo_admitted m) (stop_advance (stop_advance (stop_begin (demo_admitted m))))"
    by (rule step_into [OF step_stop step_into [OF step_advance step_into [OF step_advance]]]) simp
  ultimately show ?thesis by simp
qed

lemma demo_close_turn:
  assumes "mx_clients m = Map.empty" "next_stage st = Some st'"
  shows "server_step (demo_closing m r st) (demo_closing m r st')"
proof -
  have "close_turn st By_stop ''audio-1'' (demo_closing m r st) = demo_closing m r st'"
    using assms by (cases st) (auto simp: close_turn_def demo_closing_def demo_defs on_sx_def on_cs_def post_def unregisterClient_def
        removeTarget_def mk_broadcaster_def fun_eq_iff)
  moreover have "server_step (demo_closing m r st) (close_turn st By_stop ''audio-1'' (demo_closing m r st))"
    by (rule step_close, simp add: demo_closing_def, simp add: demo_obj_def)
  ultimately show ?thesis by simp
qed

lemma demo_stop: "mx_clients m = Map.empty \<Longrightarrow> server_step\<^sup>*\<^sup>* (demo_admitted m) demo_stopping"
proof -
  assume m: "mx_clients m = Map.empty"
  let ?c = "demo_closing m R_new Cl_conn"
  let ?d = "close_turn Cl_conn By_stop ''audio-1'' ?c"
  have d: "server_step ?c ?d" by (rule step_close, simp add: demo_closing_def, simp add: demo_obj_def)
  have "server_step\<^sup>*\<^sup>* (demo_closing m R_new Cl_target) ?d"
    using demo_close_turn [OF m, of Cl_target Cl_mixer R_new] demo_close_turn [OF m, of Cl_mixer Cl_roster R_new]
      demo_close_turn [OF m, of Cl_roster Cl_out R_new] demo_close_turn [OF m, of Cl_out Cl_conn R_new] d
    by (simp add: converse_rtranclp_into_rtranclp)
  moreover have e: "stop_advance (stop_advance (stop_advance ?d)) = demo_stopping"
    by (simp add: stop_advance_def close_turn_def demo_closing_def demo_stopping_def demo_defs on_sx_def stop_closing_def stopSharedAudio_def Let_def fun_eq_iff)
  have "server_step\<^sup>*\<^sup>* ?d (stop_advance (stop_advance (stop_advance ?d)))"
    by (rule step_into [OF step_advance step_into [OF step_advance step_into [OF step_advance]]]) simp
  ultimately show ?thesis using demo_close_begins [of m] unfolding e by (meson rtranclp_trans)
qed

definition demo_stopped :: audio_server where
  "demo_stopped = demo_audio_server\<lparr>as_clientIdCounter := 2, as_objs := [''audio-1'' \<mapsto> demo_obj R_done True],
     as_events := [OnServerStarted 4533, OnClientConnected ''audio-1'' ''peer'', OnClientDisconnected ''audio-1'', OnServerStopped]\<rparr>"

lemma demo_finish: "server_step\<^sup>*\<^sup>* demo_stopping demo_stopped"
proof -
  let ?a = "accept_start ''audio-1'' ''peer'' demo_stopping"
  have ai: "as_objs ?a ''audio-1'' = Some (demo_obj R_handshake True)" "sx_run (demo_obj R_handshake True) = R_handshake"
    by (simp_all add: accept_start_def set_run_def on_sx_def post_def demo_stopping_def demo_obj_def)
  let ?b = "the (run_handshake None ''audio-1'' (demo_obj R_handshake True) ?a)"
  have b: "run_handshake None ''audio-1'' (demo_obj R_handshake True) ?a = Some ?b"
    by (simp add: run_handshake_def performHandshake_def Let_def)
  let ?c = "accept_exit ?b"
  have bi: "as_accept ?b = Acc_idle" and f: "stop_advance (stop_advance (stop_advance (stop_advance ?c))) = demo_stopped"
    by (simp_all add: run_handshake_def performHandshake_def Let_def leaveRoster_def run_gone_def thread_finished_def set_run_def on_sx_def session_close_def
        broadcastClientsUpdate_def on_cs_def post_def accept_start_def demo_stopping_def demo_obj_def accept_exit_def stop_advance_def
        stopSharedAudio_def demo_stopped_def demo_audio_server_def mk_audio_server_def fun_eq_iff)
  have 1: "server_step demo_stopping ?a" by (rule step_begin) (simp add: demo_stopping_def)
  have 2: "server_step ?a ?b" by (rule step_handshake [OF ai b])
  have 3: "server_step ?b ?c" by (rule step_exit [OF bi])
  have "server_step\<^sup>*\<^sup>* ?c (stop_advance (stop_advance (stop_advance (stop_advance ?c))))"
    by (rule step_into [OF step_advance step_into [OF step_advance step_into [OF step_advance step_into [OF step_advance]]]]) simp
  then have "server_step\<^sup>*\<^sup>* ?c demo_stopped" by (simp only: f)
  then show ?thesis by (rule step_into [OF 1 step_into [OF 2 step_into [OF 3]]])
qed

text \<open>
  The second run: the stopping thread has marked the session closed, the run thread finds it closed, reports the
  client gone and sends the roster, on which the client still is.
\<close>

definition demo_window :: "audio_mixer \<Rightarrow> audio_server" where
  "demo_window m = run_gone ''audio-1'' (set_run R_leaving ''audio-1'' ((demo_closing m R_handshake Cl_target)\<lparr>as_accept := Acc_idle, as_activeThreads := 1,
     as_events := [OnServerStarted 4533, OnClientConnected ''audio-1'' ''peer'']\<rparr>))"

lemma demo_window_reached: "server_step\<^sup>*\<^sup>* (demo_admitted m) (demo_window m)"
proof -
  let ?a = "accept_start ''audio-1'' ''peer'' (demo_admitted m)"
  let ?b = "stop_advance (stop_advance (stop_begin ?a))"
  let ?s = "(demo_closing m R_handshake Cl_target)\<lparr>as_accept := Acc_idle, as_activeThreads := 1,
     as_events := [OnServerStarted 4533, OnClientConnected ''audio-1'' ''peer'']\<rparr>"
  have b: "?b = ?s"
    by (simp add: stop_advance_def stop_begin_def accept_start_def demo_closing_def demo_defs session_close_def set_run_def on_sx_def post_def fun_eq_iff)
  define x where "x = the (as_objs ?s ''audio-1'')"
  have x: "as_objs ?s ''audio-1'' = Some x" "sx_run x = R_handshake" "cs_closed (sx_cs x)" by (simp_all add: x_def demo_closing_def demo_defs)
  have keep: "on_cs ''audio-1'' (\<lambda>_. (sx_cs x, [])) ?s = ?s" using x(1) by (simp add: on_cs_def post_def fun_upd_idem)
  have "run_handshake None ''audio-1'' x ?s = Some (leaveRoster ''audio-1'' ?s)"
    using keep by (simp add: run_handshake_def performHandshake_def)
  moreover have "leaveRoster ''audio-1'' ?s = demo_window m"
    using x by (simp add: leaveRoster_def session_close_def set_run_def on_sx_def demo_window_def)
  ultimately have w: "run_handshake None ''audio-1'' x ?s = Some (demo_window m)" by simp
  have 1: "server_step (demo_admitted m) ?a" by (rule step_begin) (simp add: demo_admitted_def)
  have 2: "server_step\<^sup>*\<^sup>* ?a ?b" by (rule step_into [OF step_stop step_into [OF step_advance step_into [OF step_advance]]]) simp
  have 3: "server_step ?s (demo_window m)" by (rule step_handshake [OF x(1,2) w])
  from 1 2 3 show ?thesis unfolding b by (meson converse_rtranclp_into_rtranclp rtranclp.rtrancl_into_rtrancl)
qed

lemma demo_window_view:
  "as_sessions (demo_window m) = [''audio-1'']" "life_of ''audio-1'' (demo_window m) = [L_connected, L_disconnected]"
  "maxClients (as_config (demo_window m)) = 4"
proof -
  let ?p = "set_run R_leaving ''audio-1'' ((demo_closing m R_handshake Cl_target)\<lparr>as_accept := Acc_idle, as_activeThreads := 1,
     as_events := [OnServerStarted 4533, OnClientConnected ''audio-1'' ''peer'']\<rparr>)"
  have p: "as_sessions ?p = [''audio-1'']" "life_of ''audio-1'' ?p = [L_connected]" "as_config ?p = default_config"
    "shape_at ?p ''audio-1'' = Some (R_leaving, False, False, True, Some (Cl_target, By_stop))"
    by (simp_all add: set_run_def on_sx_def demo_closing_def demo_defs life_of_def shape_at_def shape_def)
  from run_gone_moved [OF p(4)] p
  show "as_sessions (demo_window m) = [''audio-1'']" "life_of ''audio-1'' (demo_window m) = [L_connected, L_disconnected]"
    "maxClients (as_config (demo_window m)) = 4"
    by (simp_all add: demo_window_def moved_def demo_parts)
qed

theorem server_events_paired_witness:
  "\<exists>m. server_step\<^sup>*\<^sup>* demo_audio_server (demo_window m) \<and> as_sessions (demo_window m) = [''audio-1''] \<and>
     life_of ''audio-1'' (demo_window m) = [L_connected, L_disconnected] \<and> erase_pending ''audio-1'' (demo_window m)"
proof -
  obtain m where m: "mk_audio_mixer default_config = Some m" using demo_parts(1) by blast
  have r: "server_step\<^sup>*\<^sup>* demo_audio_server (demo_window m)"
    using converse_rtranclp_into_rtranclp [OF demo_start [OF m] rtranclp_trans [OF demo_admit demo_window_reached]] .
  from server_events_paired [OF r [unfolded demo_audio_server_def], of "''audio-1''"] r show ?thesis
    by (intro exI [of _ m]) (simp add: demo_window_view)
qed

theorem server_stop_complete_witness:
  "server_step\<^sup>*\<^sup>* demo_audio_server demo_stopped \<and> life_of ''audio-1'' demo_stopped = [L_connected, L_disconnected] \<and> as_sessions demo_stopped = []"
proof -
  obtain m where m: "mk_audio_mixer default_config = Some m" "mx_clients m = Map.empty" using demo_parts(1) by blast
  have r: "server_step\<^sup>*\<^sup>* demo_audio_server demo_stopped"
    using converse_rtranclp_into_rtranclp [OF demo_start [OF m(1)] rtranclp_trans [OF demo_admit rtranclp_trans [OF demo_stop [OF m(2)] demo_finish]]] .
  have "\<not> as_running demo_stopped" "as_stop demo_stopped = St_none" by (simp_all add: demo_stopped_def demo_audio_server_def mk_audio_server_def)
  from server_stop_complete [OF r [unfolded demo_audio_server_def] this] r show ?thesis by (simp add: demo_stopped_def life_of_def)
qed

end
