(* ===== verification/Device_Layer.thy ===== *)
theory Device_Layer
  imports Stream_Config "HOL-Library.Multiset" "HOL-Library.Sublist"
begin

text \<open>
  The device layer: the value types of \<open>include/naudio/Types.hpp\<close>, the device patterns of \<open>src/Platform.cpp\<close>, enumeration and
  the choice of a device (\<open>src/DeviceEnumerator.cpp\<close>), format verification (\<open>src/FormatProbe.cpp\<close>), the opening policy
  (\<open>src/StreamOpener.cpp\<close>), the in-memory backend of \<open>include/naudio/FakeBackend.hpp\<close> and the shell commands of
  \<open>src/PlatformConfigurator.cpp\<close>. The backend is an interface: its answers are function arguments, and what the
  interface promises is the locale \<open>exact_backend\<close>, which the in-memory backend satisfies.
\<close>

section \<open>Types\<close>

datatype encoding = PcmSigned | PcmUnsigned | PcmFloat
datatype endianness = Little | Big

record audio_format =
  af_sampleRate :: int
  af_bitsPerSample :: int
  af_channels :: int
  af_encoding :: encoding
  af_endianness :: endianness

definition default_format :: audio_format where
  "default_format = \<lparr>af_sampleRate = 48000, af_bitsPerSample = 16, af_channels = 2, af_encoding = PcmSigned, af_endianness = Little\<rparr>"

definition frameSize :: "audio_format \<Rightarrow> int option" where
  "frameSize f = mul_i32 (cdiv (af_bitsPerSample f) 8) (af_channels f)"

datatype device_type = Hardware | Virtual | UnknownDevice
datatype capability = CapCapture | CapPlayback | CapDuplex
datatype direction = DirCapture | DirPlayback

record raw_device =
  rd_backendId :: int
  rd_name :: string
  rd_hostApi :: string
  rd_maxInputChannels :: int
  rd_maxOutputChannels :: int
  rd_defaultSampleRate :: rat

record device_info =
  dv_backendId :: int
  dv_captureBackendId :: int
  dv_playbackBackendId :: int
  dv_name :: string
  dv_hostApi :: string
  dv_displayName :: string
  dv_type :: device_type
  dv_capability :: capability
  dv_defaultSampleRate :: rat
  dv_maxInputChannels :: int
  dv_maxOutputChannels :: int

definition isVirtual :: "device_info \<Rightarrow> bool" where
  "isVirtual d \<longleftrightarrow> dv_type d = Virtual"

definition supportsCapture :: "device_info \<Rightarrow> bool" where
  "supportsCapture d \<longleftrightarrow> dv_capability d = CapCapture \<or> dv_capability d = CapDuplex"

definition supportsPlayback :: "device_info \<Rightarrow> bool" where
  "supportsPlayback d \<longleftrightarrow> dv_capability d = CapPlayback \<or> dv_capability d = CapDuplex"

definition backendIdFor :: "direction \<Rightarrow> device_info \<Rightarrow> int" where
  "backendIdFor dir d =
     (let i = (case dir of DirCapture \<Rightarrow> dv_captureBackendId d | DirPlayback \<Rightarrow> dv_playbackBackendId d)
      in if i \<ge> 0 then i else dv_backendId d)"

section \<open>Strings and platforms\<close>

text \<open>\<open>std::tolower\<close> in the C locale.\<close>

definition tolower :: "char \<Rightarrow> char" where
  "tolower c = (let n = of_char c :: nat in if 65 \<le> n \<and> n \<le> 90 then char_of (n + 32) else c)"

definition toLower :: "string \<Rightarrow> string" where
  "toLower = map tolower"

text \<open>\<open>std::string::find\<close> compared with \<open>npos\<close>.\<close>

definition str_contains :: "string \<Rightarrow> string \<Rightarrow> bool" where
  "str_contains haystack needle \<longleftrightarrow> list_ex (\<lambda>k. take (length needle) (drop k haystack) = needle) [0..<Suc (length haystack)]"

definition containsCaseInsensitive :: "string \<Rightarrow> string \<Rightarrow> bool" where
  "containsCaseInsensitive haystack needle = str_contains (toLower haystack) (toLower needle)"

datatype platform = MacOS | Windows | Linux | UnknownPlatform

fun virtualPatterns :: "platform \<Rightarrow> string list" where
  "virtualPatterns MacOS = [''blackhole'', ''soundflower'', ''loopback'']"
| "virtualPatterns Windows = [''vb-audio'', ''cable'', ''virtual'', ''voicemeeter'']"
| "virtualPatterns _ = [''pulse'', ''pipewire'', ''jack'', ''null'']"

fun preferredPatterns :: "platform \<Rightarrow> string list" where
  "preferredPatterns MacOS = [''blackhole'', ''loopback'', ''soundflower'']"
| "preferredPatterns Windows = [''cable'', ''vb-audio'', ''voicemeeter'']"
| "preferredPatterns Linux = [''virtual'', ''null'', ''jack'']"
| "preferredPatterns UnknownPlatform = []"

section \<open>Enumeration\<close>

definition matchKey :: "string \<Rightarrow> string \<Rightarrow> string" where
  "matchKey name hostApi = toLower (name @ '' '' @ hostApi)"

definition containsAny :: "string \<Rightarrow> string list \<Rightarrow> bool" where
  "containsAny haystack patterns = list_ex (\<lambda>p. p \<noteq> [] \<and> str_contains haystack (toLower p)) patterns"

definition displayNameFor :: "string \<Rightarrow> string \<Rightarrow> string" where
  "displayNameFor name hostApi =
     (let n = (if take 5 name = ''Port '' then drop 5 name else name)
      in if hostApi \<noteq> [] then n @ '' ('' @ hostApi @ '')'' else n)"

definition capabilityFor :: "bool \<Rightarrow> bool \<Rightarrow> capability" where
  "capabilityFor canCapture canPlayback =
     (if canCapture \<and> canPlayback then CapDuplex else if canCapture then CapCapture else CapPlayback)"

definition classify :: "platform \<Rightarrow> raw_device \<Rightarrow> device_type" where
  "classify pf r = (if containsAny (matchKey (rd_name r) (rd_hostApi r)) (virtualPatterns pf) then Virtual else Hardware)"

definition device_of :: "platform \<Rightarrow> raw_device \<Rightarrow> device_info" where
  "device_of pf r =
     (let canCapture = rd_maxInputChannels r > 0; canPlayback = rd_maxOutputChannels r > 0
      in \<lparr>dv_backendId = rd_backendId r,
          dv_captureBackendId = (if canCapture then rd_backendId r else -1),
          dv_playbackBackendId = (if canPlayback then rd_backendId r else -1),
          dv_name = rd_name r, dv_hostApi = rd_hostApi r, dv_displayName = displayNameFor (rd_name r) (rd_hostApi r),
          dv_type = classify pf r, dv_capability = capabilityFor canCapture canPlayback,
          dv_defaultSampleRate = rd_defaultSampleRate r, dv_maxInputChannels = rd_maxInputChannels r,
          dv_maxOutputChannels = rd_maxOutputChannels r\<rparr>)"

definition merge_into :: "raw_device \<Rightarrow> device_info \<Rightarrow> device_info" where
  "merge_into r e =
     (let canCapture = rd_maxInputChannels r > 0; canPlayback = rd_maxOutputChannels r > 0
      in e\<lparr>dv_capability := capabilityFor (supportsCapture e \<or> canCapture) (supportsPlayback e \<or> canPlayback),
           dv_maxInputChannels := max (dv_maxInputChannels e) (rd_maxInputChannels r),
           dv_maxOutputChannels := max (dv_maxOutputChannels e) (rd_maxOutputChannels r),
           dv_defaultSampleRate := max (dv_defaultSampleRate e) (rd_defaultSampleRate r),
           dv_captureBackendId := (if canCapture then rd_backendId r else dv_captureBackendId e),
           dv_playbackBackendId := (if canPlayback then rd_backendId r else dv_playbackBackendId e)\<rparr>)"

text \<open>One turn of the loop in \<open>list\<close>: the devices so far and the index of each identity.\<close>

definition list_turn ::
  "platform \<Rightarrow> raw_device \<Rightarrow> device_info list \<times> (string \<rightharpoonup> nat) \<Rightarrow> device_info list \<times> (string \<rightharpoonup> nat)" where
  "list_turn pf r acc =
     (let (out, byIdentity) = acc;
          canCapture = rd_maxInputChannels r > 0; canPlayback = rd_maxOutputChannels r > 0;
          identity = matchKey (rd_name r) (rd_hostApi r);
          fresh = (out @ [device_of pf r], byIdentity(identity \<mapsto> length out))
      in if \<not> canCapture \<and> \<not> canPlayback then acc
         else case byIdentity identity of
                None \<Rightarrow> fresh
              | Some k \<Rightarrow>
                  if (canCapture \<and> supportsCapture (out ! k)) \<or> (canPlayback \<and> supportsPlayback (out ! k)) then fresh
                  else (out[k := merge_into r (out ! k)], byIdentity))"

definition list_devices :: "platform \<Rightarrow> raw_device list \<Rightarrow> device_info list" where
  "list_devices pf raw = fst (fold (list_turn pf) raw ([], \<lambda>_. None))"

definition captureDevices :: "platform \<Rightarrow> raw_device list \<Rightarrow> device_info list" where
  "captureDevices pf raw = filter supportsCapture (list_devices pf raw)"

definition playbackDevices :: "platform \<Rightarrow> raw_device list \<Rightarrow> device_info list" where
  "playbackDevices pf raw = filter supportsPlayback (list_devices pf raw)"

definition device_matches :: "device_info \<Rightarrow> string \<Rightarrow> bool" where
  "device_matches d pattern = containsAny (matchKey (dv_name d) (dv_hostApi d)) [pattern]"

definition find_device :: "device_info list \<Rightarrow> string list \<Rightarrow> device_info option" where
  "find_device devices patterns = find (\<lambda>d. list_ex (device_matches d) patterns) devices"

definition findVirtualCapture :: "platform \<Rightarrow> raw_device list \<Rightarrow> device_info option" where
  "findVirtualCapture pf raw = find_device (captureDevices pf raw) (virtualPatterns pf)"

definition findVirtualPlayback :: "platform \<Rightarrow> raw_device list \<Rightarrow> device_info option" where
  "findVirtualPlayback pf raw = find_device (playbackDevices pf raw) (virtualPatterns pf)"

section \<open>Probing and choosing\<close>

type_synonym prober = "int \<Rightarrow> audio_format \<Rightarrow> direction \<Rightarrow> bool"

definition probe_supports :: "prober \<Rightarrow> device_info \<Rightarrow> audio_format \<Rightarrow> direction \<Rightarrow> bool" where
  "probe_supports probe d f dir = probe (backendIdFor dir d) f dir"

fun preferred :: "prober \<Rightarrow> audio_format \<Rightarrow> direction \<Rightarrow> string list \<Rightarrow> device_info list \<Rightarrow> device_info option" where
  "preferred probe f dir [] devices = None"
| "preferred probe f dir (p # ps) devices =
     (case find (\<lambda>d. str_contains (toLower (dv_name d)) (toLower p) \<and> probe_supports probe d f dir) devices of
        Some d \<Rightarrow> Some d
      | None \<Rightarrow> preferred probe f dir ps devices)"

definition bestVirtual :: "platform \<Rightarrow> prober \<Rightarrow> raw_device list \<Rightarrow> audio_format \<Rightarrow> direction \<Rightarrow> device_info option" where
  "bestVirtual pf probe raw f dir =
     (let devices = filter isVirtual (case dir of DirCapture \<Rightarrow> captureDevices pf raw | DirPlayback \<Rightarrow> playbackDevices pf raw)
      in if devices = [] then None
         else case preferred probe f dir (preferredPatterns pf) devices of
                Some d \<Rightarrow> Some d
              | None \<Rightarrow>
                  (case find (\<lambda>d. probe_supports probe d f dir) devices of
                     Some d \<Rightarrow> Some d
                   | None \<Rightarrow> Some (hd devices)))"

record verification_result =
  vr_success :: bool
  vr_deviceName :: string
  vr_actualSampleRate :: int
  vr_requiredSampleRate :: int
  vr_actualChannels :: int
  vr_requiredChannels :: int
  vr_issues :: "string list"
  vr_suggestions :: "string list"

text \<open>
  \<open>verifyConfiguration\<close>. \<open>guide\<close> gives the suggestions of an injected guide for a device name; the conversion of the
  default rate to an integer truncates.
\<close>

definition trunc :: "rat \<Rightarrow> int" where
  "trunc x = (if x < 0 then \<lceil>x\<rceil> else \<lfloor>x\<rfloor>)"

definition rate_analysis :: "(string \<Rightarrow> string list) option \<Rightarrow> string \<Rightarrow> int \<Rightarrow> int \<Rightarrow> int \<times> string list \<times> string list" where
  "rate_analysis guide name detected required =
     (if detected = 0 then (-1, [''Could not determine device sample rate''], [])
      else if detected \<noteq> required then
        (detected, [''Sample rate mismatch: device is '' @ int_string detected @ '' Hz, required '' @ int_string required @ '' Hz''],
         case guide of Some g \<Rightarrow> g name
         | None \<Rightarrow> [''Set the device's format sample rate to '' @ int_string required @ '' Hz''])
      else (detected, [], []))"

definition channel_analysis :: "int \<Rightarrow> int \<Rightarrow> int \<times> string list" where
  "channel_analysis detected required =
     (if detected = 0 then (-1, [''Could not determine device channel count''])
      else if detected \<noteq> required then
        (detected, [''Channel mismatch: device has '' @ int_string detected @ '' channels, required '' @ int_string required])
      else (detected, []))"

definition verifyConfiguration ::
  "(string \<Rightarrow> string list) option \<Rightarrow> prober \<Rightarrow> device_info option \<Rightarrow> audio_format \<Rightarrow> direction \<Rightarrow> verification_result" where
  "verifyConfiguration guide probe device f dir =
     (case device of
        None \<Rightarrow> \<lparr>vr_success = False, vr_deviceName = ''null'', vr_actualSampleRate = 0, vr_requiredSampleRate = af_sampleRate f,
                 vr_actualChannels = 0, vr_requiredChannels = af_channels f, vr_issues = [''No device specified''],
                 vr_suggestions = [''Select a virtual audio device'']\<rparr>
      | Some d \<Rightarrow>
          let supported = probe (backendIdFor dir d) f dir;
              rate0 = (if supported then af_sampleRate f else trunc (dv_defaultSampleRate d));
              ch0 = (if supported then af_channels f
                     else case dir of DirCapture \<Rightarrow> dv_maxInputChannels d | DirPlayback \<Rightarrow> dv_maxOutputChannels d);
              (rate, rateIssues, suggestions) = rate_analysis guide (dv_name d) rate0 (af_sampleRate f);
              (ch, chIssues) = channel_analysis ch0 (af_channels f)
          in \<lparr>vr_success = (supported \<and> rateIssues @ chIssues = []), vr_deviceName = dv_name d,
              vr_actualSampleRate = rate, vr_requiredSampleRate = af_sampleRate f,
              vr_actualChannels = ch, vr_requiredChannels = af_channels f,
              vr_issues = rateIssues @ chIssues, vr_suggestions = suggestions\<rparr>)"

definition newline :: string where "newline = [CHR 10]"

definition vr_toString :: "verification_result \<Rightarrow> string" where
  "vr_toString v =
     ''Device: '' @ vr_deviceName v @ newline @
     ''Status: '' @ (if vr_success v then ''OK'' else ''CONFIGURATION NEEDED'') @ newline @
     ''Sample Rate: '' @ int_string (vr_actualSampleRate v) @ '' Hz'' @
     (if vr_actualSampleRate v \<noteq> vr_requiredSampleRate v then '' (required: '' @ int_string (vr_requiredSampleRate v) @ '' Hz)'' else []) @ newline @
     ''Channels: '' @ int_string (vr_actualChannels v) @
     (if vr_actualChannels v \<noteq> vr_requiredChannels v then '' (required: '' @ int_string (vr_requiredChannels v) @ '')'' else []) @ newline @
     (if vr_issues v \<noteq> [] then newline @ ''Issues:'' @ newline @ concat (map (\<lambda>i. ''  ! '' @ i @ newline) (vr_issues v)) else []) @
     (if vr_suggestions v \<noteq> []
      then newline @ ''Suggestions:'' @ newline @ concat (map (\<lambda>i. ''  '' @ [CHR 0xE2, CHR 0x86, CHR 0x92] @ '' '' @ i @ newline) (vr_suggestions v))
      else [])"

section \<open>Opening\<close>

text \<open>The backend opens in exactly the format asked for, or answers with the text of \<open>DeviceUnavailable\<close>.\<close>

type_synonym 's opener = "int \<Rightarrow> audio_format \<Rightarrow> string + 's"

definition openCapture :: "prober \<Rightarrow> 's opener \<Rightarrow> device_info \<Rightarrow> audio_format \<Rightarrow> string + 's" where
  "openCapture probe open_stream d requested =
     (let i = backendIdFor DirCapture d; mono = requested\<lparr>af_channels := 1\<rparr>
      in if probe i requested DirCapture then open_stream i requested
         else if af_channels requested \<noteq> 1 \<and> probe i mono DirCapture then open_stream i mono
         else Inl (''Device does not support required audio format: '' @ dv_name d))"

definition openPlayback :: "'s opener \<Rightarrow> device_info \<Rightarrow> audio_format \<Rightarrow> string + 's" where
  "openPlayback open_stream d requested = open_stream (backendIdFor DirPlayback d) requested"

text \<open>The backend of \<open>FakeBackend.hpp\<close>: the registered formats; a stream is represented by the format it was opened with.\<close>

type_synonym fake_backend = "(int \<times> direction \<times> audio_format) list"

definition fake_isSupported :: "fake_backend \<Rightarrow> prober" where
  "fake_isSupported b i f dir = list_ex (\<lambda>(i', dir', f'). i' = i \<and> dir' = dir \<and> f' = f) b"

definition fake_openCaptureStream :: "fake_backend \<Rightarrow> audio_format opener" where
  "fake_openCaptureStream b i f =
     (if fake_isSupported b i f DirCapture then Inr f
      else Inl (''FakeBackend: capture format unsupported for device '' @ int_string i))"

definition fake_openPlaybackStream :: "fake_backend \<Rightarrow> audio_format opener" where
  "fake_openPlaybackStream b i f =
     (if fake_isSupported b i f DirPlayback then Inr f
      else Inl (''FakeBackend: playback format unsupported for device '' @ int_string i))"

section \<open>Shell commands\<close>

definition isalnum :: "char \<Rightarrow> bool" where
  "isalnum c \<longleftrightarrow> (let n = of_char c :: nat in (48 \<le> n \<and> n \<le> 57) \<or> (65 \<le> n \<and> n \<le> 90) \<or> (97 \<le> n \<and> n \<le> 122))"

definition isShellSafe :: "string \<Rightarrow> bool" where
  "isShellSafe arg \<longleftrightarrow> arg \<noteq> [] \<and> list_all (\<lambda>c. isalnum c \<or> c = CHR ''_'' \<or> c = CHR ''-'') arg"

definition nullSinkCommand :: "string \<Rightarrow> string \<Rightarrow> audio_format \<Rightarrow> string" where
  "nullSinkCommand sink desc f =
     ''pactl load-module module-null-sink sink_name='' @ sink @ '' sink_properties=device.description='' @ desc @
     '' rate='' @ int_string (af_sampleRate f) @ '' channels='' @ int_string (af_channels f) @
     '' format=s'' @ int_string (af_bitsPerSample f) @ ''le''"

definition loopbackCommand :: "string \<Rightarrow> int \<Rightarrow> string" where
  "loopbackCommand sink latency =
     ''pactl load-module module-loopback source='' @ sink @ ''.monitor sink='' @ sink @ '' latency_msec='' @ int_string latency"

definition checkSinkCommand :: "string \<Rightarrow> string" where
  "checkSinkCommand sink = ''pactl list short sinks | cut -f2 | grep -Fx '' @ sink"

definition quote :: string where "quote = [CHR 39]"

definition unloadSinkPipeline :: "string \<Rightarrow> string" where
  "unloadSinkPipeline sink =
     ''pactl list short modules | grep module-null-sink | grep -E '' @ quote @ ''(^|[[:space:]])sink_name='' @ sink @
     ''([[:space:]]|$)'' @ quote @ '' | cut -f1 | xargs -r pactl unload-module''"

record guide_config =
  gc_format :: audio_format
  gc_sinkName :: string
  gc_sinkDescription :: string
  gc_clientAppName :: string
  gc_digitalModeApp :: string

record configuration_result =
  cr_success :: bool
  cr_message :: string
  cr_sinkName :: string
  cr_commands :: "string list"

text \<open>
  \<open>autoConfigureLinux\<close> with the shell as a function on a state of its own: each command gives an exit code, its output
  and the next state.
\<close>

type_synonym 'w shell = "string \<Rightarrow> 'w \<Rightarrow> (int \<times> string) \<times> 'w"

definition autoConfigureLinux :: "platform \<Rightarrow> guide_config \<Rightarrow> 'w shell \<Rightarrow> 'w \<Rightarrow> configuration_result \<times> 'w" where
  "autoConfigureLinux pf g sh w =
     (let sink = gc_sinkName g; res = \<lparr>cr_success = False, cr_message = [], cr_sinkName = sink, cr_commands = []\<rparr>
      in if pf \<noteq> Linux then (res\<lparr>cr_message := ''Auto-configuration is only supported on Linux'', cr_sinkName := []\<rparr>, w)
         else if \<not> isShellSafe sink then (res\<lparr>cr_message := ''Invalid sink name: '' @ sink\<rparr>, w)
         else if \<not> isShellSafe (gc_sinkDescription g)
           then (res\<lparr>cr_message := ''Invalid sink description: '' @ gc_sinkDescription g\<rparr>, w)
         else
           let (check, w) = sh (checkSinkCommand sink) w;
               res = res\<lparr>cr_commands := [checkSinkCommand sink]\<rparr>;
               (res, w) = (if fst check = 0
                           then (res\<lparr>cr_commands := cr_commands res @ [unloadSinkPipeline sink]\<rparr>, snd (sh (unloadSinkPipeline sink) w))
                           else (res, w));
               cmd = nullSinkCommand sink (gc_sinkDescription g) (gc_format g);
               (create, w) = sh cmd w;
               res = res\<lparr>cr_commands := cr_commands res @ [cmd]\<rparr>
           in if fst create \<noteq> 0
              then (res\<lparr>cr_message := ''Failed to create null sink. Is PulseAudio/PipeWire running? Output: '' @ snd create\<rparr>, w)
              else
                let w = snd (sh (loopbackCommand sink 20) w);
                    (verify, w) = sh (checkSinkCommand sink) w;
                    res = res\<lparr>cr_commands := cr_commands res @ [loopbackCommand sink 20, checkSinkCommand sink]\<rparr>
                in if fst verify = 0 \<and> str_contains (snd verify) sink
                   then (res\<lparr>cr_success := True, cr_message := ''Virtual audio device created successfully: '' @ sink\<rparr>, w)
                   else (res\<lparr>cr_message := ''Sink creation command succeeded but device not found''\<rparr>, w))"

definition isMacOSBlackHoleInstalled :: "platform \<Rightarrow> 'w shell \<Rightarrow> 'w \<Rightarrow> bool \<times> 'w" where
  "isMacOSBlackHoleInstalled pf sh w =
     (if pf \<noteq> MacOS then (False, w)
      else let (r, w) = sh ''system_profiler SPAudioDataType 2>/dev/null | grep -i blackhole'' w
           in (containsCaseInsensitive (snd r) ''blackhole'', w))"

section \<open>Enumeration loses no device\<close>

fun supports_dir :: "direction \<Rightarrow> device_info \<Rightarrow> bool" where
  "supports_dir DirCapture d = supportsCapture d"
| "supports_dir DirPlayback d = supportsPlayback d"

fun usable_dir :: "direction \<Rightarrow> raw_device \<Rightarrow> bool" where
  "usable_dir DirCapture r = (0 < rd_maxInputChannels r)"
| "usable_dir DirPlayback r = (0 < rd_maxOutputChannels r)"

definition dir_ids :: "direction \<Rightarrow> device_info list \<Rightarrow> int multiset" where
  "dir_ids dir ds = image_mset (backendIdFor dir) (filter_mset (supports_dir dir) (mset ds))"

lemma dir_ids_snoc: "dir_ids dir (ds @ [d]) = dir_ids dir ds + (if supports_dir dir d then {#backendIdFor dir d#} else {#})"
  by (simp add: dir_ids_def)

lemma dir_ids_update:
  assumes "k < length ds"
    and "supports_dir dir (ds ! k) \<Longrightarrow> supports_dir dir d \<and> backendIdFor dir d = backendIdFor dir (ds ! k)"
  shows "dir_ids dir (ds[k := d]) = dir_ids dir ds + (if supports_dir dir d \<and> \<not> supports_dir dir (ds ! k) then {#backendIdFor dir d#} else {#})"
proof -
  have "mset ds = add_mset (ds ! k) (mset ds - {#ds ! k#})" using assms(1) by simp
  moreover have "mset (ds[k := d]) = add_mset d (mset ds - {#ds ! k#})" using assms(1) by (rule mset_update)
  ultimately obtain M where "mset ds = add_mset (ds ! k) M" "mset (ds[k := d]) = add_mset d M" by blast
  then show ?thesis using assms(2) by (auto simp: dir_ids_def)
qed

lemma supports_device_of: "supports_dir dir (device_of pf r) \<longleftrightarrow> usable_dir dir r" if "usable_dir DirCapture r \<or> usable_dir DirPlayback r"
  using that by (cases dir) (auto simp: device_of_def supportsCapture_def supportsPlayback_def capabilityFor_def Let_def)

lemma backendIdFor_device_of: "usable_dir dir r \<Longrightarrow> backendIdFor dir (device_of pf r) = rd_backendId r"
  by (cases dir) (auto simp: device_of_def backendIdFor_def Let_def)

lemma supports_merge_into:
  "usable_dir DirCapture r \<or> usable_dir DirPlayback r \<Longrightarrow>
    supports_dir dir (merge_into r e) \<longleftrightarrow> usable_dir dir r \<or> supports_dir dir e"
  by (cases dir; cases "dv_capability e")
    (auto simp: merge_into_def supportsCapture_def supportsPlayback_def capabilityFor_def Let_def)

lemma backendIdFor_merge_into:
  "0 \<le> rd_backendId r \<Longrightarrow> backendIdFor dir (merge_into r e) = (if usable_dir dir r then rd_backendId r else backendIdFor dir e)"
  by (cases dir) (auto simp: merge_into_def backendIdFor_def Let_def)

lemma list_turn_ids:
  assumes "list_turn pf r (out, ix) = (out', ix')" "ran ix \<subseteq> {..<length out}" "0 \<le> rd_backendId r"
  shows "ran ix' \<subseteq> {..<length out'} \<and>
    dir_ids dir out' = dir_ids dir out + (if usable_dir dir r then {#rd_backendId r#} else {#})"
proof (cases "usable_dir DirCapture r \<or> usable_dir DirPlayback r")
  case False
  then have "out' = out" "ix' = ix" using assms(1) by (auto simp: list_turn_def Let_def)
  then show ?thesis using False assms(2) by (cases dir) auto
next
  case True
  let ?i = "matchKey (rd_name r) (rd_hostApi r)"
  let ?fresh = "(out @ [device_of pf r], ix(?i \<mapsto> length out))"
  have fresh: ?thesis if "(out', ix') = ?fresh"
    using that assms(2) True backendIdFor_device_of [of dir r pf]
    by (fastforce simp: dir_ids_snoc supports_device_of ran_def split: if_splits)
  show ?thesis
  proof (cases "ix ?i")
    case None
    then show ?thesis using assms(1) True by (intro fresh) (auto simp: list_turn_def Let_def)
  next
    case (Some k)
    let ?e = "out ! k"
    have k: "k < length out" using Some assms(2) by (auto simp: ran_def)
    show ?thesis
    proof (cases "\<exists>dir. usable_dir dir r \<and> supports_dir dir ?e")
      case overlap: True
      then have "usable_dir DirCapture r \<and> supportsCapture ?e \<or> usable_dir DirPlayback r \<and> supportsPlayback ?e"
        by (metis direction.exhaust supports_dir.simps)
      then show ?thesis using assms(1) True Some by (intro fresh) (auto simp: list_turn_def Let_def)
    next
      case disjoint: False
      then have "\<not> (usable_dir DirCapture r \<and> supportsCapture ?e) \<and> \<not> (usable_dir DirPlayback r \<and> supportsPlayback ?e)"
        by (metis supports_dir.simps)
      then have eq: "out' = out[k := merge_into r ?e]" "ix' = ix" using assms(1) True Some by (auto simp: list_turn_def Let_def split: if_splits)
      have "\<not> (usable_dir dir r \<and> supports_dir dir ?e)" using disjoint by blast
      then have "dir_ids dir out' = dir_ids dir out + (if usable_dir dir r then {#rd_backendId r#} else {#})"
        unfolding eq using k True assms(3)
        by (subst dir_ids_update) (auto simp: supports_merge_into backendIdFor_merge_into)
      then show ?thesis using assms(2) eq by simp
    qed
  qed
qed

lemma list_devices_ids:
  assumes "list_all (\<lambda>r. 0 \<le> rd_backendId r) raw" "ran ix \<subseteq> {..<length out}"
  shows "dir_ids dir (fst (fold (list_turn pf) raw (out, ix))) =
    dir_ids dir out + image_mset rd_backendId (filter_mset (usable_dir dir) (mset raw))"
  using assms
proof (induction raw arbitrary: out ix)
  case (Cons r raw)
  obtain out' ix' where t: "list_turn pf r (out, ix) = (out', ix')" by fastforce
  from list_turn_ids [OF t Cons.prems(2)] Cons.prems(1)
  have "ran ix' \<subseteq> {..<length out'}" "dir_ids dir out' = dir_ids dir out + (if usable_dir dir r then {#rd_backendId r#} else {#})" by simp_all
  with Cons.IH [of ix' out'] Cons.prems(1) t show ?case by simp
qed simp

text \<open>
  Enumeration loses no device. Whatever the names, the overlaps and the order of the backend's records, the ids under which
  the listed devices open for capture are, with multiplicity, the ids of the records with input channels, and
  likewise for playback: a split pair is merged into one device that opens in both directions, and two devices of the same
  name stay two.
\<close>

theorem enumeration_complete:
  assumes "list_all (\<lambda>r. 0 \<le> rd_backendId r) raw"
  shows "mset (map (backendIdFor DirCapture) (captureDevices pf raw)) = mset (map rd_backendId (filter (\<lambda>r. 0 < rd_maxInputChannels r) raw)) \<and>
    mset (map (backendIdFor DirPlayback) (playbackDevices pf raw)) = mset (map rd_backendId (filter (\<lambda>r. 0 < rd_maxOutputChannels r) raw))"
proof -
  have fn: "supports_dir DirCapture = supportsCapture" "supports_dir DirPlayback = supportsPlayback"
    "usable_dir DirCapture = (\<lambda>r. 0 < rd_maxInputChannels r)" "usable_dir DirPlayback = (\<lambda>r. 0 < rd_maxOutputChannels r)"
    by (auto simp: fun_eq_iff)
  have "dir_ids dir (list_devices pf raw) = image_mset rd_backendId (filter_mset (usable_dir dir) (mset raw))" for dir
    using list_devices_ids [OF assms, of "\<lambda>_. None" "[]" dir pf] by (simp add: list_devices_def dir_ids_def)
  from this [of DirCapture] this [of DirPlayback] show ?thesis
    by (simp add: dir_ids_def fn captureDevices_def playbackDevices_def mset_filter)
qed

text \<open>Two identical USB rigs, one reported as a split pair; all four ids stay reachable.\<close>

definition demo_raw :: "raw_device list" where
  "demo_raw =
     [\<lparr>rd_backendId = 0, rd_name = ''USB Audio'', rd_hostApi = ''ALSA'', rd_maxInputChannels = 1, rd_maxOutputChannels = 0, rd_defaultSampleRate = 48000\<rparr>,
      \<lparr>rd_backendId = 1, rd_name = ''USB Audio'', rd_hostApi = ''ALSA'', rd_maxInputChannels = 0, rd_maxOutputChannels = 2, rd_defaultSampleRate = 48000\<rparr>,
      \<lparr>rd_backendId = 2, rd_name = ''USB Audio'', rd_hostApi = ''ALSA'', rd_maxInputChannels = 1, rd_maxOutputChannels = 2, rd_defaultSampleRate = 48000\<rparr>]"

theorem enumeration_complete_witness:
  "mset (map (backendIdFor DirCapture) (captureDevices Linux demo_raw)) = {#0, 2#} \<and>
   mset (map (backendIdFor DirPlayback) (playbackDevices Linux demo_raw)) = {#1, 2#}"
proof -
  have "list_all (\<lambda>r. 0 \<le> rd_backendId r) demo_raw" by (simp add: demo_raw_def)
  from enumeration_complete [OF this, of Linux] show ?thesis by (simp add: demo_raw_def)
qed

section \<open>What a backend promises\<close>

text \<open>
  The contract of \<open>DeviceBackend.hpp\<close>: a stream opens in exactly the format asked for, and a format the probe confirms opens.
\<close>

locale exact_backend =
  fixes probe :: prober and open_capture open_playback :: "'s opener" and actualFormat :: "'s \<Rightarrow> audio_format"
  assumes capture_exact: "open_capture i f = Inr s \<Longrightarrow> actualFormat s = f"
    and playback_exact: "open_playback i f = Inr s \<Longrightarrow> actualFormat s = f"
    and capture_probed: "probe i f DirCapture \<Longrightarrow> \<exists>s. open_capture i f = Inr s"
    and playback_probed: "probe i f DirPlayback \<Longrightarrow> \<exists>s. open_playback i f = Inr s"
begin

lemma capture_format:
  assumes "openCapture probe open_capture d f = Inr s"
  shows "actualFormat s = (if probe (backendIdFor DirCapture d) f DirCapture then f else f\<lparr>af_channels := 1\<rparr>)"
  using assms capture_exact by (auto simp: openCapture_def Let_def split: if_splits)

lemma capture_opens_iff:
  "(\<exists>s. openCapture probe open_capture d f = Inr s) \<longleftrightarrow>
    probe (backendIdFor DirCapture d) f DirCapture \<or> probe (backendIdFor DirCapture d) (f\<lparr>af_channels := 1\<rparr>) DirCapture"
proof -
  have mono: "probe i (f\<lparr>af_channels := 1\<rparr>) DirCapture = probe i f DirCapture" if one: "af_channels f = 1" for i
  proof -
    have "f\<lparr>af_channels := 1\<rparr> = f" using one by (cases f) simp
    then show ?thesis by metis
  qed
  show ?thesis
  proof (cases "af_channels f = 1")
    case True
    then show ?thesis using capture_probed mono by (simp add: openCapture_def Let_def)
  next
    case False
    then show ?thesis using capture_probed by (simp add: openCapture_def Let_def)
  qed
qed

lemma verified_opens:
  assumes "vr_success (verifyConfiguration guide probe (Some d) f dir)"
  shows "\<exists>s. (case dir of DirCapture \<Rightarrow> openCapture probe open_capture d f | DirPlayback \<Rightarrow> openPlayback open_playback d f) = Inr s \<and> actualFormat s = f"
proof -
  have p: "probe (backendIdFor dir d) f dir" using assms by (auto simp: verifyConfiguration_def Let_def split: prod.splits)
  show ?thesis
  proof (cases dir)
    case DirCapture
    then show ?thesis using p capture_probed capture_exact by (fastforce simp: openCapture_def Let_def)
  next
    case DirPlayback
    then show ?thesis using p playback_probed playback_exact by (fastforce simp: openPlayback_def)
  qed
qed

end

interpretation fake: exact_backend "fake_isSupported b" "fake_openCaptureStream b" "fake_openPlaybackStream b" "\<lambda>f. f" for b
  by unfold_locales (auto simp: fake_openCaptureStream_def fake_openPlaybackStream_def split: if_splits)

text \<open>
  A device reported ready opens. When the verification of a device succeeds for a format and a direction, the stream opener
  opens it in that direction in exactly that format, without the mono fallback.
\<close>

theorem verified_device_opens:
  assumes "vr_success (verifyConfiguration guide (fake_isSupported b) (Some d) f dir)"
  shows "(case dir of DirCapture \<Rightarrow> openCapture (fake_isSupported b) (fake_openCaptureStream b) d f
    | DirPlayback \<Rightarrow> openPlayback (fake_openPlaybackStream b) d f) = Inr f"
  using fake.verified_opens [OF assms] by auto

theorem verified_device_opens_witness:
  "openCapture (fake_isSupported [(0, DirCapture, default_format)]) (fake_openCaptureStream [(0, DirCapture, default_format)])
     (device_of Linux (hd demo_raw)) default_format = Inr default_format"
proof -
  have "vr_success (verifyConfiguration None (fake_isSupported [(0, DirCapture, default_format)]) (Some (device_of Linux (hd demo_raw))) default_format DirCapture)"
    by (simp add: verifyConfiguration_def fake_isSupported_def demo_raw_def device_of_def backendIdFor_def rate_analysis_def channel_analysis_def default_format_def)
  from verified_device_opens [OF this] show ?thesis by simp
qed

section \<open>The choice of a virtual device\<close>

lemma find_SomeD: "find P xs = Some x \<Longrightarrow> x \<in> set xs \<and> P x"
  by (auto simp: find_Some_iff)

lemma preferred_Some:
  "preferred probe f dir ps ds = Some d \<Longrightarrow> d \<in> set ds \<and> probe_supports probe d f dir"
  by (induction ps) (auto split: option.splits dest!: find_SomeD)

text \<open>
  The best virtual device. One is returned exactly when the direction has a virtual device at all; it is one of them,
  and it supports the format whenever any of them does.
\<close>

theorem best_virtual_choice:
  "let devices = filter isVirtual (case dir of DirCapture \<Rightarrow> captureDevices pf raw | DirPlayback \<Rightarrow> playbackDevices pf raw);
       ok = (\<lambda>d. probe_supports probe d f dir)
   in case bestVirtual pf probe raw f dir of
        None \<Rightarrow> devices = []
      | Some d \<Rightarrow> d \<in> set devices \<and> (list_ex ok devices = ok d)"
proof -
  let ?ds = "filter isVirtual (case dir of DirCapture \<Rightarrow> captureDevices pf raw | DirPlayback \<Rightarrow> playbackDevices pf raw)"
  let ?ok = "\<lambda>d. probe_supports probe d f dir"
  show ?thesis
  proof (cases "?ds = []")
    case True
    then show ?thesis unfolding bestVirtual_def Let_def by simp
  next
    case False
    show ?thesis
    proof (cases "preferred probe f dir (preferredPatterns pf) ?ds")
      case (Some d)
      then have "bestVirtual pf probe raw f dir = Some d" using False unfolding bestVirtual_def Let_def by simp
      then show ?thesis using preferred_Some [OF Some] unfolding Let_def by (auto simp: list_ex_iff)
    next
      case none: None
      show ?thesis
      proof (cases "find ?ok ?ds")
        case (Some d)
        then have "bestVirtual pf probe raw f dir = Some d" using False none unfolding bestVirtual_def Let_def by simp
        then show ?thesis using find_SomeD [OF Some] unfolding Let_def by (auto simp: list_ex_iff)
      next
        case None
        then have "bestVirtual pf probe raw f dir = Some (hd ?ds)" using False none unfolding bestVirtual_def Let_def by simp
        moreover have "hd ?ds \<in> set ?ds" using False by (rule hd_in_set)
        moreover have "\<not> list_ex ?ok ?ds" "\<not> ?ok (hd ?ds)"
          using None \<open>hd ?ds \<in> set ?ds\<close> unfolding find_None_iff list_ex_iff by blast+
        ultimately show ?thesis unfolding Let_def by simp
      qed
    qed
  qed
qed

section \<open>The shell sees only safe words\<close>

text \<open>A shell that keeps the log of the commands it was given.\<close>

definition logged :: "'w shell \<Rightarrow> ('w \<times> string list) shell" where
  "logged sh cmd = (\<lambda>(w, ran_cmds). let (r, w') = sh cmd w in (r, (w', ran_cmds @ [cmd])))"

text \<open>
  The audit trail of the auto-configuration. For every shell, the commands of the result are exactly the commands that were
  run, in order; none is run off Linux or when the sink name or the description has a character other than a letter,
  a digit, an underscore or a dash, and there are never more than five.
\<close>

theorem auto_configure_audit:
  "case autoConfigureLinux pf g (logged sh) (w, []) of
     (res, (w', ran_cmds)) \<Rightarrow> cr_commands res = ran_cmds \<and> length ran_cmds \<le> 5 \<and>
       (ran_cmds \<noteq> [] \<longleftrightarrow> pf = Linux \<and> isShellSafe (gc_sinkName g) \<and> isShellSafe (gc_sinkDescription g))"
  by (auto simp: autoConfigureLinux_def logged_def Let_def split: prod.splits if_splits)

end
