(* ===== verification/Stream_Client.thy ===== *)
theory Stream_Client
  imports Stream_Server Device_Layer
begin

text \<open>
  The stream client, \<open>AudioStreamClient\<close> of \<open>src/src/net/AudioStreamClient.cpp\<close>: its state, the configuration and listener
  calls, the handshake, the audio lines and one turn of each worker loop. The lifecycle, that is the interleaving of these
  with reconnection and teardown, is in \<open>Client_Lifecycle\<close>.

  Connections and ring buffers are shared by reference between the client and its workers, so they live in stores and
  the fields \<open>connection_\<close>, \<open>rxBuffer_\<close>, \<open>txBuffer_\<close> hold indices. What a connection, a device, a clock or the
  transport factory answers is an argument. \<open>None\<close> is a call that has not returned: a reader still waiting, or an operation
  C++ leaves undefined.
\<close>

section \<open>State\<close>

text \<open>The calls of \<open>AudioClientListener\<close>.\<close>

datatype client_note =
    Note_connected string string
  | Note_disconnected string
  | Note_streamStarted string
  | Note_streamStopped string
  | Note_error string string
  | Note_reconnecting string int int
  | Note_reconnected string
  | Note_clientsUpdate int int string "string list"
  | Note_txGranted
  | Note_txDenied string
  | Note_txPreempted string
  | Note_txReleased

text \<open>What the client sees of a connection: whether it was closed, and what it was given to send.\<close>

datatype client_out = Sent_control control_message | Sent_audio bytes | Sent_heartbeat

record client_conn =
  cn_open :: bool
  cn_sent :: "client_out list"

record stream_client =
  sc_serverHost :: string
  sc_serverPort :: u16
  sc_clientName :: string
  sc_backend :: bool
  sc_playbackDeviceId :: "int option"
  sc_captureDeviceId :: "int option"
  sc_captureIsMono :: bool
  sc_identity :: client_info
  sc_config :: audio_stream_config
  sc_rxFormatRequest :: "rx_format_request option"
  sc_grantedRxLayout :: int
  sc_connection :: "nat option"
  sc_rxBuffer :: "nat option"
  sc_txBuffer :: "nat option"
  sc_captureStream :: "audio_format option"
  sc_playbackStream :: "audio_format option"
  sc_connected :: bool
  sc_streaming :: bool
  sc_closed :: bool
  sc_txInjectEnabled :: bool
  sc_captureMuted :: bool
  sc_playbackMuted :: bool
  sc_measuredLatencyMs :: int
  sc_connectTimeMs :: int
  sc_autoReconnect :: bool
  sc_maxReconnectAttempts :: int
  sc_reconnectDelayMs :: int
  sc_maxReconnectDelayMs :: int
  sc_reconnecting :: bool
  sc_connectionGeneration :: int
  sc_reconnectAttempt :: int
  sc_serverClientsInfo :: "clients_update_info option"
  sc_listeners :: "nat list"
  sc_audioListeners :: "(int \<times> nat) list"
  sc_audioListenerSeq :: int
  sc_activeThreads :: int
  sc_conns :: "client_conn list"
  sc_rings :: "audio_ring list"
  sc_posted :: "(nat list \<times> client_note) list"
  sc_heard :: "(nat \<times> bytes) list"
  sc_played :: "bytes list"

text \<open>
  \<open>sc_posted\<close> is what was handed to the callback dispatcher, each task with the listeners of its snapshot; \<open>sc_heard\<close>
  the calls of the raw audio listeners; \<open>sc_played\<close> what was written to the playback line. A stream field holds the
  format of the line that is open.
\<close>

definition mk_stream_client :: "string \<Rightarrow> u16 \<Rightarrow> string \<Rightarrow> stream_client" where
  "mk_stream_client host port name =
     \<lparr>sc_serverHost = host, sc_serverPort = port, sc_clientName = name, sc_backend = False, sc_playbackDeviceId = None,
      sc_captureDeviceId = None, sc_captureIsMono = False,
      sc_identity = \<lparr>callsign = [], ci_name = [], ci_location = []\<rparr>, sc_config = default_config,
      sc_rxFormatRequest = None, sc_grantedRxLayout = -1, sc_connection = None, sc_rxBuffer = None, sc_txBuffer = None,
      sc_captureStream = None, sc_playbackStream = None, sc_connected = False, sc_streaming = False, sc_closed = False,
      sc_txInjectEnabled = False, sc_captureMuted = True, sc_playbackMuted = False, sc_measuredLatencyMs = 0,
      sc_connectTimeMs = 0, sc_autoReconnect = True, sc_maxReconnectAttempts = 10, sc_reconnectDelayMs = 1000,
      sc_maxReconnectDelayMs = 30000, sc_reconnecting = False, sc_connectionGeneration = 0, sc_reconnectAttempt = 0,
      sc_serverClientsInfo = None, sc_listeners = [], sc_audioListeners = [], sc_audioListenerSeq = 1,
      sc_activeThreads = 0, sc_conns = [], sc_rings = [], sc_posted = [], sc_heard = [], sc_played = []\<rparr>"

definition kConnectTimeoutMs :: int where "kConnectTimeoutMs = 10000"
definition kReconnectConnectTimeoutMs :: int where "kReconnectConnectTimeoutMs = 5000"
definition kMinStableConnectionMs :: int where "kMinStableConnectionMs = 5000"
definition kHandshakeSliceMs :: int where "kHandshakeSliceMs = 100"

section \<open>Notifications and listeners\<close>

definition notify :: "client_note \<Rightarrow> stream_client \<Rightarrow> stream_client" where
  "notify n c = c\<lparr>sc_posted := sc_posted c @ [(sc_listeners c, n)]\<rparr>"

abbreviation notifyError :: "string \<Rightarrow> stream_client \<Rightarrow> stream_client" where
  "notifyError e \<equiv> notify (Note_error ''local'' e)"

definition addStreamListener :: "nat option \<Rightarrow> stream_client \<Rightarrow> stream_client" where
  "addStreamListener listener c =
     (case listener of
        None \<Rightarrow> c
      | Some l \<Rightarrow> if l \<in> set (sc_listeners c) then c else c\<lparr>sc_listeners := sc_listeners c @ [l]\<rparr>)"

text \<open>The erase; the fence on the dispatcher that follows waits and changes nothing here.\<close>

definition removeStreamListener :: "nat option \<Rightarrow> stream_client \<Rightarrow> stream_client" where
  "removeStreamListener listener c =
     c\<lparr>sc_listeners := (case listener of None \<Rightarrow> sc_listeners c | Some l \<Rightarrow> removeAll l (sc_listeners c))\<rparr>"

definition addAudioListener :: "nat \<Rightarrow> stream_client \<Rightarrow> int \<times> stream_client" where
  "addAudioListener f c =
     (sc_audioListenerSeq c,
      c\<lparr>sc_audioListenerSeq := sc_audioListenerSeq c + 1,
        sc_audioListeners := sc_audioListeners c @ [(sc_audioListenerSeq c, f)]\<rparr>)"

definition removeAudioListener :: "int \<Rightarrow> stream_client \<Rightarrow> stream_client" where
  "removeAudioListener token c = c\<lparr>sc_audioListeners := filter (\<lambda>p. fst p \<noteq> token) (sc_audioListeners c)\<rparr>"

section \<open>Configuration and getters\<close>

definition setConfig :: "audio_stream_config \<Rightarrow> stream_client \<Rightarrow> bool \<times> stream_client" where
  "setConfig cfg c = (if sc_connected c then (False, c) else (True, c\<lparr>sc_config := cfg\<rparr>))"

definition requestRxFormat :: "rx_format_request \<Rightarrow> stream_client \<Rightarrow> stream_client" where
  "requestRxFormat rq c = c\<lparr>sc_rxFormatRequest := Some rq\<rparr>"

definition grantedRxLayout :: "stream_client \<Rightarrow> u8 option" where
  "grantedRxLayout c = (if sc_grantedRxLayout c < 0 then None else Some (word_of_int (sc_grantedRxLayout c)))"

definition sc_isConnected :: "stream_client \<Rightarrow> bool" where
  "sc_isConnected c \<longleftrightarrow> sc_connected c \<and> \<not> sc_closed c"

datatype duplex = Duplex_listen | Duplex_talk | Duplex_full

definition setDuplex :: "duplex \<Rightarrow> stream_client \<Rightarrow> stream_client" where
  "setDuplex mode c = c\<lparr>sc_captureMuted := (mode = Duplex_listen), sc_playbackMuted := (mode = Duplex_talk)\<rparr>"

definition serverClientCount :: "stream_client \<Rightarrow> int" where
  "serverClientCount c = (case sc_serverClientsInfo c of Some i \<Rightarrow> cu_clientCount i | None \<Rightarrow> -1)"

definition serverMaxClients :: "stream_client \<Rightarrow> int" where
  "serverMaxClients c = (case sc_serverClientsInfo c of Some i \<Rightarrow> cu_maxClients i | None \<Rightarrow> -1)"

definition serverTxOwner :: "stream_client \<Rightarrow> string" where
  "serverTxOwner c = (case sc_serverClientsInfo c of
     Some i \<Rightarrow> (case cu_txOwner i of Some t \<Rightarrow> t | None \<Rightarrow> []) | None \<Rightarrow> [])"

definition serverClientIds :: "stream_client \<Rightarrow> string list" where
  "serverClientIds c = (case sc_serverClientsInfo c of Some i \<Rightarrow> cu_clientIds i | None \<Rightarrow> [])"

section \<open>Connections and rings in their stores\<close>

definition new_connection :: "stream_client \<Rightarrow> nat \<times> stream_client" where
  "new_connection c = (length (sc_conns c), c\<lparr>sc_conns := sc_conns c @ [\<lparr>cn_open = True, cn_sent = []\<rparr>]\<rparr>)"

definition conn_close :: "nat \<Rightarrow> stream_client \<Rightarrow> stream_client" where
  "conn_close i c = c\<lparr>sc_conns := (sc_conns c)[i := (sc_conns c ! i)\<lparr>cn_open := False\<rparr>]\<rparr>"

definition conn_send :: "nat \<Rightarrow> client_out \<Rightarrow> stream_client \<Rightarrow> stream_client" where
  "conn_send i out c = c\<lparr>sc_conns := (sc_conns c)[i := (sc_conns c ! i)\<lparr>cn_sent := cn_sent (sc_conns c ! i) @ [out]\<rparr>]\<rparr>"

definition ring_write :: "int \<Rightarrow> bytes \<Rightarrow> nat \<Rightarrow> stream_client \<Rightarrow> (stream_client \<times> nat) option" where
  "ring_write wall d k c = map_option (\<lambda>(r, n). (c\<lparr>sc_rings := (sc_rings c)[k := r]\<rparr>, n)) (rg_write wall d 0 (length d) (sc_rings c ! k))"

text \<open>
  A read with the worker's timeout of two frames: it answers at once when there is data, and otherwise when \<open>waited\<close>
  milliseconds have passed that reach the timeout.
\<close>

definition ring_read :: "int \<Rightarrow> int \<Rightarrow> nat \<Rightarrow> audio_stream_config \<Rightarrow> nat \<Rightarrow> stream_client \<Rightarrow> (stream_client \<times> bytes) option" where
  "ring_read wall waited len cfg k c =
     map_option (\<lambda>(r, out). (c\<lparr>sc_rings := (sc_rings c)[k := r]\<rparr>, out))
       (rg_read wall 0 len (frameDurationMs cfg * 2) [(waited, id)] (sc_rings c ! k))"

section \<open>Connecting\<close>

definition client_createTransport :: "audio_stream_config \<Rightarrow> transport_choice option" where
  "client_createTransport c =
     (if transportType c = Udp then map_option Choose_udp (reliability_of c) else Some Choose_tcp)"

definition client_bare_udp :: "audio_stream_config \<Rightarrow> bool" where
  "client_bare_udp c \<longleftrightarrow> transportType c = Udp \<and> \<not> fecEnabled c \<and> reorderBufferSize c = 0 \<and>
     \<not> adaptiveJitterEnabled c \<and> \<not> controlReliabilityEnabled c \<and> \<not> explicitBareUdp c"

definition client_bare_udp_text :: string where
  "client_bare_udp_text = ''UDP with no reliability layer: select a profile '' @
     ''(na_client_set_reliability_profile / AudioStreamConfig preset, e.g. '' @
     ''NA_RELIABILITY_UDP_WAN) or explicitly request bare UDP '' @
     ''(NA_RELIABILITY_UDP_BARE / AudioStreamConfig::udpBare())''"

text \<open>The refusals of \<open>connect\<close> before it reaches the network.\<close>

definition connect_refusal :: "stream_client \<Rightarrow> string option" where
  "connect_refusal c =
     (if sc_connected c then Some ''Already connected''
      else if sc_closed c then Some (''Client is closed '' @ [CHR 0xE2, CHR 0x80, CHR 0x94] @ '' create a new client to connect again'')
      else if sc_playbackDeviceId c = None then Some ''Playback device not configured''
      else if client_bare_udp (sc_config c) then Some client_bare_udp_text
      else None)"

text \<open>
  \<open>receiveWhilePumpingArq\<close> over the operations of the connection: each turn is the steady clock at the head of the loop and
  what the receive of that slice meets.
\<close>

fun receiveWhilePumpingArq ::
  "('e \<Rightarrow> int \<Rightarrow> 'c \<Rightarrow> receive_result \<times> 'c) \<Rightarrow> ('e \<Rightarrow> 'c \<Rightarrow> 'c) \<Rightarrow> int \<Rightarrow> (int \<times> 'e) list \<Rightarrow> 'c \<Rightarrow> (receive_result \<times> 'c) option" where
  "receiveWhilePumpingArq recv pump deadline [] c = None"
| "receiveWhilePumpingArq recv pump deadline ((clock, e) # turns) c =
     (let remaining = deadline - clock
      in if remaining \<le> 0 then Some (rr_noData, c)
         else let slice = min remaining kHandshakeSliceMs;
                  (r, c) = recv e slice c
              in if rr_packet r \<noteq> None \<or> rr_closed r then Some (r, c)
                 else receiveWhilePumpingArq recv pump deadline turns (pump e c))"

text \<open>The client's half of the handshake: the request, and the loop over the packets received.\<close>

definition handshake_request :: "stream_client \<Rightarrow> control_message" where
  "handshake_request c =
     (let info = (if ci_isEmpty (sc_identity c) then None else Some (sc_identity c))
      in case sc_rxFormatRequest c of
           Some rq \<Rightarrow> connectRequestV12 (sc_clientName c) VERSION (Some (sc_config c)) info rq
         | None \<Rightarrow> connectRequestFull (sc_clientName c) VERSION (Some (sc_config c)) info)"

definition apply_server_config :: "control_message \<Rightarrow> stream_client \<Rightarrow> stream_client" where
  "apply_server_config msg c =
     (let c = (case applyAudioConfigTo msg (sc_config c) of Some cfg \<Rightarrow> c\<lparr>sc_config := cfg\<rparr> | None \<Rightarrow> c)
      in case parseAudioConfigGrantedLayout msg of
           Some layout \<Rightarrow> c\<lparr>sc_grantedRxLayout := uint layout\<rparr> | None \<Rightarrow> c)"

fun handshake_loop :: "receive_result list \<Rightarrow> stream_client \<Rightarrow> bool \<times> stream_client" where
  "handshake_loop [] c = (False, c)"
| "handshake_loop (r # rs) c =
     (case rr_packet r of
        None \<Rightarrow> (False, c)
      | Some p \<Rightarrow>
          if ptype p \<noteq> Control then handshake_loop rs c
          else case cm_deserialize (payload p) of
                 None \<Rightarrow> handshake_loop rs c
               | Some msg \<Rightarrow>
                   if messageType msg = AudioConfig then handshake_loop rs (apply_server_config msg c)
                   else if messageType msg = ConnectAccept then (True, c)
                   else if messageType msg = ConnectReject
                     then (False, notifyError (''Connection rejected: '' @
                             (case parseErrorMessage msg of Some e \<Rightarrow> e | None \<Rightarrow> ''unknown'')) c)
                   else handshake_loop rs c)"

definition client_performHandshake :: "nat \<Rightarrow> bool \<Rightarrow> receive_result list \<Rightarrow> stream_client \<Rightarrow> bool \<times> stream_client" where
  "client_performHandshake conn sent rs c =
     (let c = c\<lparr>sc_grantedRxLayout := -1\<rparr>
      in if \<not> sent then (False, notifyError ''Handshake send failed'' c)
         else let c = conn_send conn (Sent_control (handshake_request c)) c
              in if rs = [] \<or> rr_packet (hd rs) = None then (False, notifyError ''Handshake timeout'' c)
                 else handshake_loop rs c)"

text \<open>
  \<open>openAudioLines\<close>: a line that opens answers with its actual format, one that does not with the reason. The two rings are
  allocated at the end of the store.
\<close>

definition formatFromConfig :: "stream_client \<Rightarrow> audio_format" where
  "formatFromConfig c = \<lparr>af_sampleRate = sampleRate (sc_config c), af_bitsPerSample = bitsPerSample (sc_config c),
     af_channels = channels (sc_config c), af_encoding = PcmSigned, af_endianness = Little\<rparr>"

definition lines_failed :: "string \<Rightarrow> stream_client \<Rightarrow> string option \<times> stream_client" where
  "lines_failed m c = (Some m, notifyError m c)"

definition openAudioLines ::
  "audio_format opener \<Rightarrow> audio_format opener \<Rightarrow> stream_client \<Rightarrow> (string option \<times> stream_client) option" where
  "openAudioLines open_capture open_playback c =
     (if \<not> sc_backend c then Some (lines_failed ''Audio line unavailable: no backend'' c)
      else let fmt = formatFromConfig c;
               capture = (case sc_captureDeviceId c of None \<Rightarrow> Inr None | Some i \<Rightarrow> map_sum id Some (open_capture i fmt))
           in case capture of
                Inl e \<Rightarrow> Some (lines_failed (''Audio line unavailable: '' @ e) c)
              | Inr cap \<Rightarrow>
                  (case open_playback (the (sc_playbackDeviceId c)) fmt of
                     Inl e \<Rightarrow> Some (lines_failed (''Audio line unavailable: '' @ e) c)
                   | Inr pb \<Rightarrow>
                       map_option (\<lambda>ring. (None, c\<lparr>sc_captureStream := cap, sc_playbackStream := Some pb,
                            sc_rings := sc_rings c @ [ring, ring],
                            sc_rxBuffer := Some (length (sc_rings c)), sc_txBuffer := Some (Suc (length (sc_rings c))),
                            sc_captureIsMono := (case cap of Some f \<Rightarrow> af_channels f = 1 | None \<Rightarrow> False)\<rparr>))
                         (mk_ring_config (sc_config c))))"

section \<open>The workers\<close>

text \<open>What a turn of a worker ends in: another turn, the end of the loop, or a lost connection and then one or the other.\<close>

datatype turn_end = Go_on | Finish | Lost_go_on | Lost_finish

definition client_handleControlMessage :: "int \<Rightarrow> audio_packet \<Rightarrow> stream_client \<Rightarrow> (turn_end \<times> stream_client) option" where
  "client_handleControlMessage nanos p c =
     (case cm_deserialize (payload p) of
        None \<Rightarrow> Some (Go_on, c)
      | Some msg \<Rightarrow>
          if messageType msg = LatencyResponse then
            let sent = sint (parseLatencyTimestamp msg)
            in if in_i64 (nanos - sent)
               then Some (Go_on, c\<lparr>sc_measuredLatencyMs := cdiv (cdiv (nanos - sent) 1000000) 2\<rparr>) else None
          else if messageType msg = ClientsUpdate then
            Some (Go_on, case parseClientsUpdate msg of
              None \<Rightarrow> c
            | Some info \<Rightarrow> notify (Note_clientsUpdate (cu_clientCount info) (cu_maxClients info)
                (case cu_txOwner info of Some t \<Rightarrow> t | None \<Rightarrow> []) (cu_clientIds info)) (c\<lparr>sc_serverClientsInfo := Some info\<rparr>))
          else if messageType msg = TxGranted then Some (Go_on, notify Note_txGranted c)
          else if messageType msg = TxDenied then
            Some (Go_on, notify (Note_txDenied (case parseTxClientId msg of Some t \<Rightarrow> t | None \<Rightarrow> [])) c)
          else if messageType msg = TxPreempted then
            Some (Go_on, notify (Note_txPreempted (case parseTxClientId msg of Some t \<Rightarrow> t | None \<Rightarrow> [])) c)
          else if messageType msg = TxReleased then Some (Go_on, notify Note_txReleased c)
          else if messageType msg = Disconnect \<or> messageType msg = CtlError then
            Some (Lost_go_on, case parseErrorMessage msg of Some e \<Rightarrow> notifyError e c | None \<Rightarrow> c)
          else Some (Go_on, c))"

text \<open>The raw audio listeners, and every hundredth packet the target of the adaptive jitter buffer.\<close>

definition rx_listeners :: "bytes \<Rightarrow> stream_client \<Rightarrow> stream_client" where
  "rx_listeners d c = c\<lparr>sc_heard := sc_heard c @ map (\<lambda>(_, l). (l, d)) (sc_audioListeners c)\<rparr>"

definition rx_adapt :: "int \<Rightarrow> nat \<Rightarrow> audio_stream_config \<Rightarrow> int \<Rightarrow> stream_client \<Rightarrow> stream_client" where
  "rx_adapt adaptive ring cfg n c =
     (if adaptiveJitterEnabled cfg \<and> n mod 100 = 0 \<and> adaptive > 0 \<and> adaptive \<noteq> bufferTargetMs cfg
      then c\<lparr>sc_rings := (sc_rings c)[ring := rg_updateConfig (cfg\<lparr>bufferTargetMs := adaptive\<rparr>) (sc_rings c ! ring)]\<rparr>
      else c)"

text \<open>The body of \<open>receiveLoop\<close> after the receive; \<open>rxPackets\<close> is the loop's counter.\<close>

definition client_receive_turn ::
  "receive_result \<Rightarrow> bool \<Rightarrow> int \<Rightarrow> int \<Rightarrow> int \<Rightarrow> nat \<Rightarrow> nat \<Rightarrow> audio_stream_config \<Rightarrow> int \<Rightarrow> stream_client \<Rightarrow> (turn_end \<times> int \<times> stream_client) option" where
  "client_receive_turn r ackSent adaptive wall nanos conn ring cfg rxPackets c =
     (if rr_closed r then
        Some (if sc_closed c then (Finish, rxPackets, c)
              else (Lost_finish, rxPackets, notifyError ''Receive error: connection closed'' c))
      else case rr_packet r of
             None \<Rightarrow> Some (Go_on, rxPackets, c)
           | Some p \<Rightarrow>
               if ptype p = AudioRx then
                 map_option (\<lambda>(c, _). (Go_on, rxPackets + 1, rx_adapt adaptive ring cfg (rxPackets + 1) (rx_listeners (payload p) c)))
                   (ring_write wall (payload p) ring c)
               else if ptype p = Control then
                 map_option (\<lambda>(e, c). (e, rxPackets, c)) (client_handleControlMessage nanos p c)
               else if ptype p = Heartbeat then
                 Some (if ackSent then (Go_on, rxPackets, conn_send conn (Sent_control (ofType HeartbeatAck)) c)
                       else if sc_closed c then (Finish, rxPackets, c)
                       else (Lost_finish, rxPackets, notifyError ''Receive error: heartbeat ack failed'' c))
               else Some (Go_on, rxPackets, c))"

definition line_frame :: "audio_format \<Rightarrow> nat option" where
  "line_frame f = map_option (\<lambda>n. nat (max 1 n)) (frameSize f)"

definition play_piece :: "string option \<Rightarrow> bytes option \<Rightarrow> stream_client \<Rightarrow> turn_end \<times> stream_client" where
  "play_piece device piece c =
     (case (piece, device) of
        (None, _) \<Rightarrow> (Go_on, c)
      | (Some d, None) \<Rightarrow> (Go_on, c\<lparr>sc_played := sc_played c @ [d]\<rparr>)
      | (Some _, Some e) \<Rightarrow> (Finish, notifyError (''Playback device lost: '' @ e) c))"

text \<open>
  One turn of \<open>playbackLoop\<close>: the frames that go to the line are cut from the bytes read, or silence. \<open>device\<close> is the text of
  the exception of a lost device.
\<close>

definition client_playback_turn ::
  "string option \<Rightarrow> int \<Rightarrow> int \<Rightarrow> nat \<Rightarrow> audio_format \<Rightarrow> audio_stream_config \<Rightarrow> stream_client \<Rightarrow> (turn_end \<times> stream_client) option" where
  "client_playback_turn device wall waited ring fmt cfg c =
     do {
       frameBytes \<leftarrow> bytesPerFrame cfg;
       fs \<leftarrow> line_frame fmt;
       if frameBytes < 0 then None else do {
         (c, out) \<leftarrow> ring_read wall waited (nat frameBytes) cfg ring c;
         Some (play_piece device
           (if out \<noteq> [] then Some (take (length out div fs * fs) (if sc_playbackMuted c then replicate (nat frameBytes) 0 else out))
            else if rg_available (sc_rings c ! ring) = 0 then Some (replicate (nat frameBytes div fs * fs) 0) else None) c)
       }
     }"

text \<open>The expansion of mono samples into the stereo buffer, which has room for \<open>room\<close> more bytes.\<close>

fun expand_mono :: "nat \<Rightarrow> bytes \<Rightarrow> bytes" where
  "expand_mono room (a # b # xs) = (if room > 3 then a # b # a # b # expand_mono (room - 4) xs else [])"
| "expand_mono room _ = []"

definition tx_bytes :: "bool \<Rightarrow> nat \<Rightarrow> bytes \<Rightarrow> bytes" where
  "tx_bytes captureIsMono framesPerRead d = (if captureIsMono then expand_mono (framesPerRead * 4) d else d)"

text \<open>One turn of \<open>captureLoop\<close> on what the line gave.\<close>

definition client_capture_turn ::
  "capture_read \<Rightarrow> int \<Rightarrow> nat \<Rightarrow> bool \<Rightarrow> audio_stream_config \<Rightarrow> stream_client \<Rightarrow> (turn_end \<times> stream_client) option" where
  "client_capture_turn r wall ring captureIsMono cfg c =
     (case r of
        Device_lost e \<Rightarrow> Some (Finish, notifyError (''Capture device lost: '' @ e) c)
      | Captured d \<Rightarrow>
          if d = [] \<or> sc_captureMuted c then Some (Go_on, c)
          else do {
            n \<leftarrow> samplesPerFrame cfg;
            (c, _) \<leftarrow> ring_write wall (tx_bytes captureIsMono (nat (max 1 n)) d) ring c;
            Some (Go_on, c)
          })"

definition client_send_turn ::
  "bool \<Rightarrow> int \<Rightarrow> int \<Rightarrow> nat \<Rightarrow> nat \<Rightarrow> audio_stream_config \<Rightarrow> stream_client \<Rightarrow> (turn_end \<times> stream_client) option" where
  "client_send_turn sent wall waited conn ring cfg c =
     do {
       frameBytes \<leftarrow> bytesPerFrame cfg;
       if frameBytes < 0 then None else do {
         (c, out) \<leftarrow> ring_read wall waited (nat frameBytes) cfg ring c;
         Some (if out = [] then (Go_on, c)
               else if sent then (Go_on, conn_send conn (Sent_audio out) c)
               else if sc_closed c then (Finish, c)
               else (Lost_finish, notifyError ''Send error'' c))
       }
     }"

definition injectTxAudio :: "int \<Rightarrow> bytes option \<Rightarrow> stream_client \<Rightarrow> (stream_client \<times> nat) option" where
  "injectTxAudio wall pcm c =
     (case pcm of
        None \<Rightarrow> Some (c, 0)
      | Some d \<Rightarrow>
          if d = [] \<or> \<not> sc_connected c \<or> sc_closed c \<or> \<not> sc_txInjectEnabled c \<or> sc_captureMuted c then Some (c, 0)
          else case sc_txBuffer c of None \<Rightarrow> Some (c, 0) | Some k \<Rightarrow> ring_write wall d k c)"

text \<open>
  \<open>heartbeatLoop\<close> after the sleep, in the two halves the send divides: the flags, the watchdog and the heartbeat; the
  watchdog again and the latency probe on the connection of the moment.
\<close>

definition client_watchdog :: "bool \<Rightarrow> stream_client \<Rightarrow> turn_end \<times> stream_client" where
  "client_watchdog timedOut c = (if timedOut then (Lost_finish, notifyError ''Connection timeout'' c) else (Go_on, c))"

definition heartbeat_first :: "bool \<Rightarrow> bool \<Rightarrow> bool \<Rightarrow> nat \<Rightarrow> stream_client \<Rightarrow> turn_end \<times> stream_client" where
  "heartbeat_first timedOut hbDue hbSent conn c =
     (if sc_closed c \<or> \<not> sc_connected c then (Finish, c)
      else case client_watchdog timedOut c of
             (Lost_finish, c) \<Rightarrow> (Lost_finish, c)
           | (_, c) \<Rightarrow>
               (Go_on, if \<not> hbDue then c
                       else if hbSent then conn_send conn Sent_heartbeat c
                       else if sc_closed c then c else notifyError ''Heartbeat error'' c))"

definition measureLatency :: "int \<Rightarrow> bool \<Rightarrow> stream_client \<Rightarrow> stream_client" where
  "measureLatency nanos sent c =
     (if \<not> sc_connected c then c
      else case sc_connection c of
             None \<Rightarrow> c
           | Some i \<Rightarrow> if sent then conn_send i (Sent_control (latencyProbe (word_of_int nanos))) c else c)"

definition heartbeat_second :: "bool \<Rightarrow> int \<Rightarrow> bool \<Rightarrow> stream_client \<Rightarrow> turn_end \<times> stream_client" where
  "heartbeat_second timedOut nanos sent c =
     (case client_watchdog timedOut c of
        (Lost_finish, c) \<Rightarrow> (Lost_finish, c)
      | (_, c) \<Rightarrow> (Go_on, measureLatency nanos sent c))"

section \<open>Statistics\<close>

record client_stats =
  st_connected :: bool
  st_packetsSent :: int
  st_packetsReceived :: int
  st_bytesSent :: int
  st_bytesReceived :: int
  st_crcErrors :: int
  st_packetsReordered :: int
  st_packetsRecoveredByFec :: int
  st_fecBlocksUnreconciled :: int
  st_controlRetransmits :: int
  st_queueDrops :: int
  st_jitterMs :: rat
  st_bufferTargetMs :: int
  st_packetsLost :: int
  st_packetsOutOfOrder :: int
  st_packetLossRate :: rat
  st_sequenceGaps :: int
  st_socketReceiveDrops :: int
  st_fecPendingDiscarded :: int

definition default_stats :: client_stats where
  "default_stats = \<lparr>st_connected = False, st_packetsSent = 0, st_packetsReceived = 0, st_bytesSent = 0, st_bytesReceived = 0,
     st_crcErrors = 0, st_packetsReordered = 0, st_packetsRecoveredByFec = 0, st_fecBlocksUnreconciled = 0,
     st_controlRetransmits = 0, st_queueDrops = 0, st_jitterMs = 0, st_bufferTargetMs = -1, st_packetsLost = -1,
     st_packetsOutOfOrder = -1, st_packetLossRate = -1, st_sequenceGaps = -1, st_socketReceiveDrops = -1,
     st_fecPendingDiscarded = -1\<rparr>"

text \<open>
  \<open>stats\<close> over a UDP connection. The loss rate and the kernel's drop counter are the connection's answers and arguments here.
\<close>

definition sc_stats :: "udp_connection option \<Rightarrow> rat \<Rightarrow> int \<Rightarrow> stream_client \<Rightarrow> client_stats" where
  "sc_stats conn lossRate drops c =
     (case conn of
        None \<Rightarrow> default_stats
      | Some u \<Rightarrow>
          if \<not> sc_connected c \<or> sc_closed c then default_stats
          else let s = default_stats\<lparr>st_connected := True, st_packetsSent := uc_packetsSent u,
                     st_packetsReceived := uc_packetsReceived u, st_bytesSent := uc_bytesSent u,
                     st_bytesReceived := uc_bytesReceived u, st_crcErrors := uc_crcErrors u,
                     st_packetsReordered := uc_packetsReordered u, st_packetsRecoveredByFec := uc_packetsRecoveredByFec u,
                     st_fecBlocksUnreconciled := uc_fecBlocksUnreconciled u, st_controlRetransmits := uc_controlRetransmits u,
                     st_queueDrops := pq_drops (uc_orderedQueue u), st_jitterMs := uc_jitterMs u,
                     st_bufferTargetMs := uc_adaptiveBufferTargetMs u\<rparr>;
                   s = (if uc_measuresSequenceGaps u
                        then s\<lparr>st_packetsLost := uc_packetsLost u, st_packetsOutOfOrder := uc_packetsOutOfOrder u,
                               st_packetLossRate := lossRate\<rparr> else s)
               in s\<lparr>st_sequenceGaps := uc_sequenceGaps u, st_socketReceiveDrops := drops,
                    st_fecPendingDiscarded := uc_fecPendingPacketsDiscarded u\<rparr>)"

section \<open>The handshake against the server\<close>

lemma setPosition_end:
  "n = length pre + length xs \<Longrightarrow> setPosition n (reader_at pre xs t) = reader_at (pre @ xs) [] t"
  using setPosition_at [of n pre xs "[]" t] by simp

lemma parse_connect_format_v1:
  assumes "length name \<le> 255"
  shows "parseConnectRequestFormatRequest (connectRequestFull name v c ci) = None"
  using assms length_serializeClientInfo [of ci]
  by (cases c)
    (simp_all add: parseConnectRequestFormatRequest_def connectRequestFull_layout codec_simps unat_len8
      Let_def length_cfg_bytes skip_cfg, simp_all add: cfg_bytes_def codec_simps unat_len8 setPosition_end)

lemma handshake_reply:
  assumes "messageType m = AudioConfig" "applyAudioConfigTo m (sc_config c) = Some cfg" "parseAudioConfigGrantedLayout m = g"
  shows "\<exists>c'. client_performHandshake i True (map (\<lambda>m. rr_of (createControl t q (cm_serialize m)) Live) [m, ofType ConnectAccept]) c = (True, c') \<and>
    sc_config c' = cfg \<and> grantedRxLayout c' = g"
  using assms
  by (cases g) (simp_all add: client_performHandshake_def rr_of_def createControl_def mk_packet_def cm_deserialize_serialize ofType_def
      apply_server_config_def conn_send_def grantedRxLayout_def Let_def)

lemma server_answers:
  assumes "config_wire_ok native" "bitsPerSample native = 16" "channels native = 1 \<or> channels native = 2" "0 < sampleRate native"
    and "mk_client_session native cid = Some s0" "length (sc_clientName c) \<le> 255"
    and "ptype p = Control" "payload p = cm_serialize (handshake_request c)"
  shows "\<exists>s. performHandshake native (Some p) s0 = Inr (True, s) \<and> config_wire_ok (cs_sessionConfig s) \<and>
    (case sc_rxFormatRequest c of None \<Rightarrow> \<not> cs_formatRequested s
     | Some rq \<Rightarrow> cs_formatRequested s \<and> cs_grantedLayout s = (if layout_servable native (rq_layout rq) then rq_layout rq else 0) \<and>
       sampleRate (cs_sessionConfig s) = (if rate_servable native (uint (rq_sampleRate rq)) then uint (rq_sampleRate rq) else sampleRate native) \<and>
       channels (cs_sessionConfig s) = (if layout_servable native (rq_layout rq) then 1 else channels native))"
proof -
  let ?info = "if ci_isEmpty (sc_identity c) then None else Some (sc_identity c)"
  let ?m = "handshake_request c" and ?t = "apply_request native (handshake_request c) s0"
  note fr = mk_client_session_fresh [OF assms(5)]
  have ty: "messageType ?m = ConnectRequest"
    by (simp add: handshake_request_def Let_def connectRequestV12_def connectRequestFull_layout split: option.split)
  show ?thesis
  proof (cases "sc_rxFormatRequest c")
    case None
    then have "parseConnectRequestFormatRequest ?m = None" by (simp add: handshake_request_def parse_connect_format_v1 assms(6))
    then have "performHandshake native (Some p) s0 = Inr (True, ?t)" using assms(7,8) ty by (simp add: performHandshake_def cm_deserialize_serialize Let_def)
    moreover have "\<not> cs_formatRequested ?t" using fr by (auto simp: apply_request_def Let_def split: option.split)
    ultimately show ?thesis using None apply_request_config [OF assms(1), of s0 ?m] fr by simp
  next
    case (Some rq)
    then have "parseConnectRequestFormatRequest ?m = Some rq" by (simp add: handshake_request_def parse_connect_format assms(6))
    note run = handshake_runs [OF assms(7,8) ty this, of native s0]
    have t: "config_wire_ok (cs_sessionConfig ?t)" "sampleRate (cs_sessionConfig ?t) = sampleRate native"
      "channels (cs_sessionConfig ?t) = channels native" "cs_decimator ?t = None"
      using apply_request_config [OF assms(1), of s0 ?m] fr apply_request_frame(2) [of native ?m s0] by simp_all
    obtain s where "grant_format native rq ?t = Inr s" "cs_formatRequested s" "config_wire_ok (cs_sessionConfig s)"
      "sampleRate (cs_sessionConfig s) = (if rate_servable native (uint (rq_sampleRate rq)) then uint (rq_sampleRate rq) else sampleRate native)"
      "cs_grantedLayout s = (if layout_servable native (rq_layout rq) then rq_layout rq else 0)"
      "channels (cs_sessionConfig s) = (if layout_servable native (rq_layout rq) then 1 else channels native)"
      using grant_format_grants [OF assms(2-4) t, of rq] by blast
    then show ?thesis using run Some by (intro exI [of _ s]) simp
  qed
qed

section \<open>The capture line\<close>

lemma expand_mono_samples:
  "length d \<le> 2 * k \<Longrightarrow> even (length d) \<Longrightarrow> samples_of (expand_mono (k * 4) d) = concat (map (\<lambda>x. [x, x]) (samples_of d))"
proof (induction d arbitrary: k rule: induct_list012)
  case (3 a b xs)
  then obtain k' where "k = Suc k'" by (cases k) auto
  with 3 show ?case by simp
qed simp_all

section \<open>Properties\<close>

text \<open>
  C19: client and server agree on the stream. For a mono or stereo 16-bit server and any client, with or without a format request,
  the server accepts the client's CONNECT_REQUEST; and when the client reads the server's two answers, its configuration carries
  exactly the format and the buffer settings of the session the server opened, keeps its own transport settings, and its granted
  layout is the one the server granted, or none when nothing was asked.
\<close>

theorem handshake_agreement:
  assumes "config_wire_ok native" "bitsPerSample native = 16" "channels native = 1 \<or> channels native = 2" "0 < sampleRate native"
    and "mk_client_session native cid = Some s0" "length (sc_clientName c) \<le> 255"
    and "ptype p = Control" "payload p = cm_serialize (handshake_request c)"
  shows "\<exists>s c'. performHandshake native (Some p) s0 = Inr (True, s) \<and>
    client_performHandshake i True (map (\<lambda>m. rr_of (createControl t q (cm_serialize m)) Live) [handshake_config s, ofType ConnectAccept]) c = (True, c') \<and>
    sc_config c' = with_format_of (cs_sessionConfig s) (sc_config c) \<and>
    grantedRxLayout c' = map_option (\<lambda>rq. if layout_servable native (rq_layout rq) then rq_layout rq else 0) (sc_rxFormatRequest c)"
proof -
  obtain s where s: "performHandshake native (Some p) s0 = Inr (True, s)" "config_wire_ok (cs_sessionConfig s)"
    and l: "case sc_rxFormatRequest c of None \<Rightarrow> \<not> cs_formatRequested s
     | Some rq \<Rightarrow> cs_formatRequested s \<and> cs_grantedLayout s = (if layout_servable native (rq_layout rq) then rq_layout rq else 0)"
    using server_answers [OF assms] by (fastforce split: option.splits)
  let ?m = "handshake_config s"
  have m: "messageType ?m = AudioConfig" "applyAudioConfigTo ?m (sc_config c) = Some (with_format_of (cs_sessionConfig s) (sc_config c))"
    "parseAudioConfigGrantedLayout ?m = map_option (\<lambda>rq. if layout_servable native (rq_layout rq) then rq_layout rq else 0) (sc_rxFormatRequest c)"
    using l s(2) apply_audio_config_v12 [OF s(2)] apply_audio_config [OF s(2)]
    by (auto simp: handshake_config_def audioConfigV12_def audioConfig_layout split: option.splits)
  from handshake_reply [OF m] s(1) show ?thesis by blast
qed

definition demo_client :: stream_client where
  "demo_client = (mk_stream_client ''host'' 4533 ''wsjtx'')\<lparr>sc_backend := True, sc_playbackDeviceId := Some 1, sc_captureDeviceId := Some 0,
     sc_config := udpWan, sc_rxFormatRequest := Some \<lparr>rq_sampleRate = 12000, rq_layout = 3\<rparr>\<rparr>"

theorem handshake_agreement_witness:
  "\<exists>s c'. performHandshake default_config (Some (createControl 0 0 (cm_serialize (handshake_request demo_client))))
      (the (mk_client_session default_config ''c'')) = Inr (True, s) \<and>
    client_performHandshake 0 True (map (\<lambda>m. rr_of (createControl 0 0 (cm_serialize m)) Live) [handshake_config s, ofType ConnectAccept]) demo_client = (True, c') \<and>
    fecEnabled (sc_config c') \<and> grantedRxLayout c' = Some 3"
proof -
  obtain s0 where s0: "mk_client_session default_config ''c'' = Some s0" using demo_session by blast
  have n: "config_wire_ok default_config" "bitsPerSample default_config = 16" "channels default_config = 1 \<or> channels default_config = 2"
    "0 < sampleRate default_config" by (simp_all add: config_wire_ok_def default_config_def i32_ok_code)
  let ?p = "createControl 0 0 (cm_serialize (handshake_request demo_client))"
  have p: "length (sc_clientName demo_client) \<le> 255" "ptype ?p = Control" "payload ?p = cm_serialize (handshake_request demo_client)"
    by (simp_all add: demo_client_def mk_stream_client_def createControl_def mk_packet_def)
  have "layout_servable default_config 3" by (simp add: layout_servable_def default_config_def)
  moreover have "fecEnabled (with_format_of x (sc_config demo_client))" "sc_rxFormatRequest demo_client = Some \<lparr>rq_sampleRate = 12000, rq_layout = 3\<rparr>" for x
    by (simp_all add: with_format_of_def demo_client_def udpWan_def)
  ultimately show ?thesis using handshake_agreement [OF n s0 p, where i = 0 and t = 0 and q = 0] s0 by auto
qed

text \<open>
  The capture line takes the format of the received stream. With a backend that opens exactly what it is asked for, the
  line that feeds TX is opened in the format the server granted for RX; and when that format has one channel the samples read
  from it are each sent twice, as interleaved stereo, although the stream is mono.
\<close>

theorem tx_capture_format:
  assumes "sc_captureDeviceId c = Some i"
    and "openAudioLines (fake_openCaptureStream b) open_playback c = Some (None, c')"
    and "even (length d)" "length d \<le> 2 * n"
  shows "sc_captureStream c' = Some (formatFromConfig c) \<and> (sc_captureIsMono c' \<longleftrightarrow> channels (sc_config c) = 1) \<and>
    samples_of (tx_bytes (sc_captureIsMono c') n d) =
      (if channels (sc_config c) = 1 then concat (map (\<lambda>x. [x, x]) (samples_of d)) else samples_of d)"
proof -
  from assms(1,2) have "sc_captureStream c' = Some (formatFromConfig c) \<and> (sc_captureIsMono c' \<longleftrightarrow> channels (sc_config c) = 1)"
    by (auto simp: openAudioLines_def lines_failed_def Let_def fake_openCaptureStream_def formatFromConfig_def split: sum.splits if_splits)
  then show ?thesis using expand_mono_samples [OF assms(4,3)] by (simp add: tx_bytes_def)
qed

definition mono_format :: audio_format where
  "mono_format = default_format\<lparr>af_sampleRate := 12000, af_channels := 1\<rparr>"

theorem tx_capture_format_witness:
  "let c = demo_client\<lparr>sc_config := default_config\<lparr>sampleRate := 12000, channels := 1\<rparr>\<rparr>;
       r = openAudioLines (fake_openCaptureStream [(0, DirCapture, mono_format)]) (\<lambda>_ f. Inr f) c
   in case r of Some (None, c') \<Rightarrow> sc_captureStream c' = Some mono_format \<and> samples_of (tx_bytes (sc_captureIsMono c') 240 [5, 0]) = [5, 5] | _ \<Rightarrow> False"
proof -
  define c where "c = demo_client\<lparr>sc_config := default_config\<lparr>sampleRate := 12000, channels := 1\<rparr>\<rparr>"
  have cap: "sc_captureDeviceId c = Some 0" "sc_backend c" and fmt: "formatFromConfig c = mono_format" and ch: "channels (sc_config c) = 1"
    by (simp_all add: c_def demo_client_def formatFromConfig_def mono_format_def default_format_def default_config_def)
  have "\<exists>r. mk_ring_config (sc_config c) = Some r"
    by (simp add: c_def mk_ring_config_def default_config_def config_calc_defs i32_ok_code cdiv_def)
  then obtain c' where c': "openAudioLines (fake_openCaptureStream [(0, DirCapture, mono_format)]) (\<lambda>_ f. Inr f) c = Some (None, c')"
    using cap fmt by (auto simp: openAudioLines_def fake_openCaptureStream_def fake_isSupported_def)
  have "even (length [5, 0 :: u8])" "length [5, 0 :: u8] \<le> 2 * 240" by simp_all
  note f = tx_capture_format [OF cap(1) c' this, unfolded fmt]
  have "samples_of [5, 0] = [5]" by code_simp
  then have "sc_captureStream c' = Some mono_format" "samples_of (tx_bytes (sc_captureIsMono c') 240 [5, 0]) = [5, 5]"
    using f ch by auto
  then show ?thesis using c' unfolding Let_def c_def by simp
qed

end
