(* ===== verification/Client_Lifecycle.thy ===== *)
theory Client_Lifecycle
  imports Stream_Client
begin

text \<open>
  The lifecycle of the stream client: \<open>connect\<close>, the worker threads, \<open>handleConnectionLost\<close>, the reconnection thread,
  \<open>disconnect\<close> and the destructor of \<open>src/src/net/AudioStreamClient.cpp\<close>, as threads that interleave. A thread is a program
  point; one step is one store to an atomic flag with the loads that decide it, or one section under a mutex, or one turn of a
  worker loop. The mutexes \<open>reconnectGuard_\<close> and \<open>runMutex_\<close> are flags; a step that would wait is not enabled. What the
  network, the devices and the clocks answer is the environment of the step.
\<close>

section \<open>Threads\<close>

datatype worker =
    W_receive nat nat int audio_stream_config int
  | W_playback nat audio_format audio_stream_config bool
  | W_capture nat bool audio_stream_config
  | W_send nat nat int audio_stream_config
  | W_heartbeat nat int

text \<open>The flag of the playback worker says that it is still in its initial buffering.\<close>

text \<open>Who runs \<open>runConnect\<close>: the caller of \<open>connect\<close>, or the reconnection thread with its current delay.\<close>

datatype connector = From_connect | From_reconnect int

datatype run_stage = Rs_handshake | Rs_lines | Rs_check | Rs_commit | Rs_notify | Rs_generation | Rs_spawn int audio_stream_config bool | Rs_stream | Rs_started

datatype close_stage = Cs_bump | Cs_streaming | Cs_connected | Cs_stopped | Cs_reset

text \<open>What a worker does after \<open>handleConnectionLost\<close>, and who runs \<open>closeResources\<close>.\<close>

datatype after_loss = Resume worker | Exit_worker

datatype closer = K_lost bool after_loss | K_close "string option"

datatype pc =
    P_connect
  | P_dial connector
  | P_dialing connector
  | P_install connector nat
  | P_run connector nat run_stage
  | P_worker worker
  | P_turn worker
  | P_turn2 worker
  | P_lost int after_loss
  | P_closing closer close_stage
  | P_lost_decide bool after_loss
  | P_lost_claim "string option" after_loss
  | P_lost_notify "string option" after_loss
  | P_lost_reconnect after_loss
  | P_rstart
  | P_rloop int bool
  | P_rcount int bool
  | P_rsleep int
  | P_rcheck int
  | P_rdone
  | P_rfailed int string
  | P_rtail
  | P_rclaim
  | P_rnotify
  | P_disconnect
  | P_salvo
  | P_doClose "string option"
  | P_close_flag "string option"
  | P_close_notify "string option"
  | P_wait "string option"
  | P_finish

record client_env =
  en_now :: int
  en_nanos :: int
  en_wall :: int
  en_waited :: int
  en_transport :: bool
  en_dial :: "string option"
  en_sent :: bool
  en_sent2 :: bool
  en_replies :: "receive_result list"
  en_capture :: "audio_format opener"
  en_playback :: "audio_format opener"
  en_recv :: receive_result
  en_adaptive :: int
  en_timedOut :: bool
  en_hbDue :: bool
  en_read :: capture_read
  en_device :: "string option"

record client_sys =
  cy_client :: stream_client
  cy_guard :: bool
  cy_run :: bool
  cy_results :: "string option list"

definition upd :: "(stream_client \<Rightarrow> stream_client) \<Rightarrow> client_sys \<Rightarrow> client_sys" where
  "upd f s = s\<lparr>cy_client := f (cy_client s)\<rparr>"

section \<open>Connecting\<close>

definition connect_failed :: "connector \<Rightarrow> string \<Rightarrow> pc" where
  "connect_failed who err = (case who of From_connect \<Rightarrow> P_doClose (Some err) | From_reconnect d \<Rightarrow> P_rfailed d err)"

text \<open>A failure of \<open>connect\<close> before the connection is installed returns without closing the client.\<close>

definition dial_failed :: "connector \<Rightarrow> string \<Rightarrow> client_sys \<Rightarrow> client_sys \<times> pc list" where
  "dial_failed who err s =
     (case who of
        From_connect \<Rightarrow> (s\<lparr>cy_results := cy_results s @ [Some err]\<rparr>, [])
      | From_reconnect d \<Rightarrow> (s, [P_rfailed d err]))"

definition connect_step :: "client_sys \<Rightarrow> client_sys \<times> pc list" where
  "connect_step s =
     (case connect_refusal (cy_client s) of
        Some err \<Rightarrow> (s\<lparr>cy_results := cy_results s @ [Some err]\<rparr>, [])
      | None \<Rightarrow> (s, [P_dial From_connect]))"

definition dial_step :: "client_env \<Rightarrow> connector \<Rightarrow> client_sys \<Rightarrow> client_sys \<times> pc list" where
  "dial_step e who s =
     (if who \<noteq> From_connect \<and> sc_closed (cy_client s) then dial_failed who ''Closed'' s
      else if \<not> en_transport e then dial_failed who ''Transport factory returned no transport'' s
      else (s, [P_dialing who]))"

definition dialed_step :: "client_env \<Rightarrow> connector \<Rightarrow> client_sys \<Rightarrow> client_sys \<times> pc list" where
  "dialed_step e who s =
     (case en_dial e of
        Some cerr \<Rightarrow> dial_failed who (if cerr = [] then ''Connect failed'' else cerr) s
      | None \<Rightarrow>
          let (i, c) = new_connection (cy_client s)
          in (s\<lparr>cy_client := c\<lparr>sc_connectTimeMs := en_now e\<rparr>\<rparr>, [P_install who i]))"

text \<open>\<open>connect\<close> installs without a look at the closed flag; \<open>reconnectInternal\<close> checks it under the lock.\<close>

definition install_step :: "connector \<Rightarrow> nat \<Rightarrow> client_sys \<Rightarrow> (client_sys \<times> pc list) option" where
  "install_step who i s =
     (if cy_run s then None
      else if who \<noteq> From_connect \<and> sc_closed (cy_client s)
        then Some (upd (conn_close i) s, [connect_failed who ''Closed during reconnect''])
      else Some (upd (\<lambda>c. c\<lparr>sc_connection := Some i\<rparr>) s, [P_run who i Rs_handshake]))"

definition worker_threads :: "int \<Rightarrow> audio_stream_config \<Rightarrow> bool \<Rightarrow> stream_client \<Rightarrow> worker list" where
  "worker_threads generation cfg captureIsMono c =
     (case (sc_connection c, sc_rxBuffer c) of
        (Some conn, Some rx) \<Rightarrow>
          let tx = the (sc_txBuffer c)
          in [W_receive conn rx generation cfg 0] @
             (case sc_playbackStream c of Some f \<Rightarrow> [W_playback rx f cfg True] | None \<Rightarrow> []) @
             (if sc_captureStream c \<noteq> None then [W_capture tx captureIsMono cfg] else []) @
             (if sc_captureStream c \<noteq> None \<or> sc_txInjectEnabled c then [W_send conn tx generation cfg] else []) @
             [W_heartbeat conn generation]
      | _ \<Rightarrow> [])"

definition connect_succeeded :: "connector \<Rightarrow> client_sys \<Rightarrow> client_sys \<times> pc list" where
  "connect_succeeded who s =
     (case who of From_connect \<Rightarrow> (s\<lparr>cy_results := cy_results s @ [None]\<rparr>, []) | From_reconnect d \<Rightarrow> (s, [P_rcheck d]))"

definition server_address :: "stream_client \<Rightarrow> string" where
  "server_address c = sc_serverHost c @ '':'' @ to_string (unat (sc_serverPort c))"

fun run_step :: "client_env \<Rightarrow> connector \<Rightarrow> nat \<Rightarrow> run_stage \<Rightarrow> client_sys \<Rightarrow> (client_sys \<times> pc list) option" where
  "run_step e who i Rs_handshake s =
     (let (ok, c) = client_performHandshake i (en_sent e) (en_replies e) (cy_client s)
      in Some (s\<lparr>cy_client := c\<rparr>, [if ok then P_run who i Rs_lines else connect_failed who ''Handshake failed'']))"
| "run_step e who i Rs_lines s =
     (if cy_run s then None
      else map_option (\<lambda>(err, c). (s\<lparr>cy_client := c\<rparr>,
             [case err of None \<Rightarrow> P_run who i Rs_check | Some m \<Rightarrow> connect_failed who m]))
           (openAudioLines (en_capture e) (en_playback e) (cy_client s)))"
| "run_step e who i Rs_check s =
     (if cy_run s then None
      else if sc_closed (cy_client s) then Some (s, [connect_failed who ''Closed during connect''])
      else Some (s\<lparr>cy_run := True\<rparr>, [P_run who i Rs_commit]))"
| "run_step e who i Rs_commit s =
     Some ((upd (\<lambda>c. c\<lparr>sc_connected := True\<rparr>) s)\<lparr>cy_run := False\<rparr>, [P_run who i Rs_notify])"
| "run_step e who i Rs_notify s =
     Some (upd (\<lambda>c. notify (Note_connected ''local'' (server_address c)) c) s, [P_run who i Rs_generation])"
| "run_step e who i Rs_generation s =
     Some (s, [P_run who i (let c = cy_client s in Rs_spawn (sc_connectionGeneration c) (sc_config c) (sc_captureIsMono c))])"
| "run_step e who i (Rs_spawn g cfg captureIsMono) s =
     (if cy_run s then None
      else let ws = worker_threads g cfg captureIsMono (cy_client s)
           in Some (upd (\<lambda>c. c\<lparr>sc_activeThreads := sc_activeThreads c + int (length ws)\<rparr>) s, P_run who i Rs_stream # map P_worker ws))"
| "run_step e who i Rs_stream s = Some (upd (\<lambda>c. c\<lparr>sc_streaming := True\<rparr>) s, [P_run who i Rs_started])"
| "run_step e who i Rs_started s = Some (connect_succeeded who (upd (notify (Note_streamStarted ''local'')) s))"

section \<open>Workers\<close>

definition worker_gen :: "worker \<Rightarrow> int" where
  "worker_gen w = (case w of W_receive _ _ g _ _ \<Rightarrow> g | W_send _ _ g _ \<Rightarrow> g | W_heartbeat _ g \<Rightarrow> g | _ \<Rightarrow> 0)"

text \<open>Where a turn leads.\<close>

definition after_turn :: "worker \<Rightarrow> turn_end \<Rightarrow> pc" where
  "after_turn w t =
     (case t of Go_on \<Rightarrow> P_worker w | Finish \<Rightarrow> P_finish | Lost_go_on \<Rightarrow> P_lost (worker_gen w) (Resume w)
      | Lost_finish \<Rightarrow> P_lost (worker_gen w) Exit_worker)"

text \<open>The loop conditions; the buffering loop of the playback worker falls through to the main loop.\<close>

definition worker_head :: "worker \<Rightarrow> client_sys \<Rightarrow> pc" where
  "worker_head w s =
     (if sc_closed (cy_client s) \<or> \<not> sc_connected (cy_client s) then P_finish else P_turn w)"

definition turn_step :: "client_env \<Rightarrow> worker \<Rightarrow> client_sys \<Rightarrow> (client_sys \<times> pc list) option" where
  "turn_step e w s =
     (let c = cy_client s
      in case w of
           W_receive conn ring g cfg n \<Rightarrow>
             map_option (\<lambda>(t, n, c). (s\<lparr>cy_client := c\<rparr>, [after_turn (W_receive conn ring g cfg n) t]))
               (client_receive_turn (en_recv e) (en_sent e) (en_adaptive e) (en_wall e) (en_nanos e) conn ring cfg n c)
         | W_playback ring f cfg buffering \<Rightarrow>
             if buffering then
               map_option (\<lambda>reached. (s, [P_worker (W_playback ring f cfg (\<not> (reached \<or> en_timedOut e)))]))
                 (rg_hasReachedTargetLevel (sc_rings c ! ring))
             else
               map_option (\<lambda>(t, c). (s\<lparr>cy_client := c\<rparr>, [after_turn w t]))
                 (client_playback_turn (en_device e) (en_wall e) (en_waited e) ring f cfg c)
         | W_capture ring captureIsMono cfg \<Rightarrow>
             map_option (\<lambda>(t, c). (s\<lparr>cy_client := c\<rparr>, [after_turn w t]))
               (client_capture_turn (en_read e) (en_wall e) ring captureIsMono cfg c)
         | W_send conn ring g cfg \<Rightarrow>
             map_option (\<lambda>(t, c). (s\<lparr>cy_client := c\<rparr>, [after_turn w t]))
               (client_send_turn (en_sent e) (en_wall e) (en_waited e) conn ring cfg c)
         | W_heartbeat conn g \<Rightarrow>
             let (t, c) = heartbeat_first (en_timedOut e) (en_hbDue e) (en_sent e) conn c
             in Some (s\<lparr>cy_client := c\<rparr>, [if t = Go_on then P_turn2 w else after_turn w t]))"

definition turn2_step :: "client_env \<Rightarrow> worker \<Rightarrow> client_sys \<Rightarrow> client_sys \<times> pc list" where
  "turn2_step e w s =
     (let (t, c) = heartbeat_second (en_timedOut e) (en_nanos e) (en_sent e) (cy_client s)
      in (s\<lparr>cy_client := c\<rparr>, [after_turn w t]))"

section \<open>Losing the connection\<close>

definition resume :: "after_loss \<Rightarrow> pc" where
  "resume k = (case k of Resume w \<Rightarrow> P_worker w | Exit_worker \<Rightarrow> P_finish)"

definition lost_step :: "client_env \<Rightarrow> int \<Rightarrow> after_loss \<Rightarrow> client_sys \<Rightarrow> (client_sys \<times> pc list) option" where
  "lost_step e g k s =
     (let c = cy_client s
      in if cy_guard s then None
         else if sc_closed c \<or> g \<noteq> sc_connectionGeneration c then Some (s, [resume k])
         else Some (s\<lparr>cy_guard := True\<rparr>, [P_closing (K_lost (en_now e - sc_connectTimeMs c < kMinStableConnectionMs) k) Cs_bump]))"

definition unstable_text :: "int \<Rightarrow> string" where
  "unstable_text attempts = ''Connection unstable - failed '' @ int_string attempts @ '' times within '' @
     int_string kMinStableConnectionMs @ ''ms of connecting''"

definition lost_decide_step :: "bool \<Rightarrow> after_loss \<Rightarrow> client_sys \<Rightarrow> client_sys \<times> pc list" where
  "lost_decide_step wasShortLived k s =
     (let c = cy_client s
      in if sc_autoReconnect c \<and> \<not> sc_closed c then
           if wasShortLived then
             let attempts = i32 (sc_reconnectAttempt c + 1)
             in (upd (\<lambda>c. c\<lparr>sc_reconnectAttempt := attempts\<rparr>) s,
                 [if attempts \<ge> sc_maxReconnectAttempts c then P_lost_claim (Some (unstable_text attempts)) k else P_lost_reconnect k])
           else (upd (\<lambda>c. c\<lparr>sc_reconnectAttempt := 0\<rparr>) s, [P_lost_reconnect k])
         else (s, [P_lost_claim None k]))"

text \<open>\<open>claimClosedAndWake\<close>: the exchange; waking the sleepers changes nothing here.\<close>

definition claimClosedAndWake :: "client_sys \<Rightarrow> bool \<times> client_sys" where
  "claimClosedAndWake s =
     (if sc_closed (cy_client s) then (False, s) else (True, upd (\<lambda>c. c\<lparr>sc_closed := True\<rparr>) s))"

definition lost_claim_step :: "string option \<Rightarrow> after_loss \<Rightarrow> client_sys \<Rightarrow> client_sys \<times> pc list" where
  "lost_claim_step err k s =
     (let (won, s) = claimClosedAndWake s
      in if won then (s, [P_lost_notify err k]) else (s\<lparr>cy_guard := False\<rparr>, [resume k]))"

definition lost_notify_step :: "string option \<Rightarrow> after_loss \<Rightarrow> client_sys \<Rightarrow> client_sys \<times> pc list" where
  "lost_notify_step err k s =
     ((upd (\<lambda>c. notify (Note_disconnected ''local'') (case err of Some m \<Rightarrow> notifyError m c | None \<Rightarrow> c)) s)\<lparr>cy_guard := False\<rparr>, [resume k])"

text \<open>\<open>startReconnection\<close>, after which \<open>handleConnectionLost\<close> returns.\<close>

definition startReconnection_step :: "after_loss \<Rightarrow> client_sys \<Rightarrow> client_sys \<times> pc list" where
  "startReconnection_step k s =
     (let c = cy_client s; released = s\<lparr>cy_guard := False\<rparr>
      in if sc_closed c \<or> sc_reconnecting c then (released, [resume k])
         else (upd (\<lambda>c. c\<lparr>sc_reconnecting := True, sc_activeThreads := sc_activeThreads c + 1\<rparr>) released, [resume k, P_rstart]))"

section \<open>Closing\<close>

text \<open>\<open>closeResources\<close>: the generation first, the two flags, the event, and the references under the lock.\<close>

definition reset_refs :: "stream_client \<Rightarrow> stream_client" where
  "reset_refs c =
     (let c' = c\<lparr>sc_connection := None, sc_rxBuffer := None, sc_txBuffer := None, sc_captureStream := None, sc_playbackStream := None\<rparr>
      in case sc_connection c of Some i \<Rightarrow> conn_close i c' | None \<Rightarrow> c')"

definition closed_next :: "closer \<Rightarrow> pc" where
  "closed_next k = (case k of K_lost short a \<Rightarrow> P_lost_decide short a | K_close r \<Rightarrow> P_close_notify r)"

fun closing_step :: "closer \<Rightarrow> close_stage \<Rightarrow> client_sys \<Rightarrow> (client_sys \<times> pc list) option" where
  "closing_step k Cs_bump s =
     Some (upd (\<lambda>c. c\<lparr>sc_connectionGeneration := sc_connectionGeneration c + 1\<rparr>) s, [P_closing k Cs_streaming])"
| "closing_step k Cs_streaming s = Some (upd (\<lambda>c. c\<lparr>sc_streaming := False\<rparr>) s, [P_closing k Cs_connected])"
| "closing_step k Cs_connected s = Some (upd (\<lambda>c. c\<lparr>sc_connected := False\<rparr>) s, [P_closing k Cs_stopped])"
| "closing_step k Cs_stopped s = Some (upd (notify (Note_streamStopped ''local'')) s, [P_closing k Cs_reset])"
| "closing_step k Cs_reset s = (if cy_run s then None else Some (upd reset_refs s, [closed_next k]))"

definition doClose_step :: "string option \<Rightarrow> client_sys \<Rightarrow> client_sys \<times> pc list" where
  "doClose_step r s =
     (if sc_closed (cy_client s) then (s, [P_wait r])
      else (upd (\<lambda>c. c\<lparr>sc_closed := True\<rparr>) s, [P_close_flag r]))"

definition disconnect_step :: "client_sys \<Rightarrow> client_sys \<times> pc list" where
  "disconnect_step s =
     (if sc_closed (cy_client s) then (s, [P_wait None])
      else (upd (\<lambda>c. c\<lparr>sc_closed := True\<rparr>) s, [P_salvo]))"

text \<open>The courtesy salvo: the second copy only when the first went out.\<close>

definition salvo_step :: "client_env \<Rightarrow> client_sys \<Rightarrow> client_sys \<times> pc list" where
  "salvo_step e s =
     (let c = cy_client s; msg = Sent_control (ofType Disconnect)
      in ((case sc_connection c of
             Some i \<Rightarrow> if sc_connected c \<and> en_sent e then upd ((if en_sent2 e then conn_send i msg else id) \<circ> conn_send i msg) s else s
           | None \<Rightarrow> s), [P_close_flag None]))"

definition wait_step :: "string option \<Rightarrow> client_sys \<Rightarrow> (client_sys \<times> pc list) option" where
  "wait_step r s =
     (if sc_activeThreads (cy_client s) \<noteq> 0 then None
      else Some (case r of Some err \<Rightarrow> s\<lparr>cy_results := cy_results s @ [Some err]\<rparr> | None \<Rightarrow> s, []))"

section \<open>Reconnecting\<close>

definition rloop_step :: "int \<Rightarrow> bool \<Rightarrow> client_sys \<Rightarrow> client_sys \<times> pc list" where
  "rloop_step delay first s =
     (let c = cy_client s
      in (s, [if \<not> sc_closed c \<and> sc_reconnecting c \<and> sc_reconnectAttempt c < sc_maxReconnectAttempts c
              then P_rcount delay first else P_rtail]))"

definition rcount_step :: "int \<Rightarrow> bool \<Rightarrow> client_sys \<Rightarrow> client_sys \<times> pc list" where
  "rcount_step delay first s =
     (let c = cy_client s;
          attempt = (if first \<and> sc_reconnectAttempt c \<noteq> 0 then sc_reconnectAttempt c else i32 (sc_reconnectAttempt c + 1))
      in (upd (\<lambda>c. notify (Note_reconnecting ''local'' attempt (sc_maxReconnectAttempts c)) (c\<lparr>sc_reconnectAttempt := attempt\<rparr>)) s,
          [P_rsleep delay]))"

definition rsleep_step :: "int \<Rightarrow> client_sys \<Rightarrow> client_sys \<times> pc list" where
  "rsleep_step delay s = (s, [if sc_closed (cy_client s) then P_rtail else P_dial (From_reconnect delay)])"

definition rcheck_step :: "int \<Rightarrow> client_sys \<Rightarrow> client_sys \<times> pc list" where
  "rcheck_step delay s =
     (let c = cy_client s
      in if \<not> sc_closed c \<and> sc_connected c then (upd (\<lambda>c. c\<lparr>sc_reconnecting := False\<rparr>) s, [P_rdone])
         else (s, [P_rfailed delay []]))"

definition reconnect_failed_text :: "string \<Rightarrow> stream_client \<Rightarrow> string" where
  "reconnect_failed_text err c = ''Reconnect attempt '' @ int_string (sc_reconnectAttempt c) @ ''/'' @
     int_string (sc_maxReconnectAttempts c) @ '' failed: '' @ err"

definition next_delay :: "int \<Rightarrow> stream_client \<Rightarrow> int option" where
  "next_delay delay c = map_option (\<lambda>d. min d (sc_maxReconnectDelayMs c)) (mul_i32 delay 2)"

definition rfailed_step :: "int \<Rightarrow> string \<Rightarrow> client_sys \<Rightarrow> (client_sys \<times> pc list) option" where
  "rfailed_step delay err s =
     map_option (\<lambda>d. (upd (\<lambda>c. notifyError (reconnect_failed_text err c) c) s, [P_rloop d False])) (next_delay delay (cy_client s))"

definition rtail_step :: "client_sys \<Rightarrow> client_sys \<times> pc list" where
  "rtail_step s = (upd (\<lambda>c. c\<lparr>sc_reconnecting := False\<rparr>) s, [P_rclaim])"

definition rclaim_step :: "client_sys \<Rightarrow> client_sys \<times> pc list" where
  "rclaim_step s = (let (won, s) = claimClosedAndWake s in (s, [if won then P_rnotify else P_finish]))"

definition rnotify_step :: "client_sys \<Rightarrow> client_sys \<times> pc list" where
  "rnotify_step s =
     (upd (\<lambda>c. notify (Note_disconnected ''local'')
        (notifyError (''Failed to reconnect after '' @ int_string (sc_reconnectAttempt c) @ '' attempts'') c)) s, [P_finish])"

section \<open>The system\<close>

fun thread_step :: "client_env \<Rightarrow> pc \<Rightarrow> client_sys \<Rightarrow> (client_sys \<times> pc list) option" where
  "thread_step e P_connect s = Some (connect_step s)"
| "thread_step e (P_dial who) s = Some (dial_step e who s)"
| "thread_step e (P_dialing who) s = Some (dialed_step e who s)"
| "thread_step e (P_install who i) s = install_step who i s"
| "thread_step e (P_run who i stage) s = run_step e who i stage s"
| "thread_step e (P_worker w) s = Some (s, [worker_head w s])"
| "thread_step e (P_turn w) s = turn_step e w s"
| "thread_step e (P_turn2 w) s = Some (turn2_step e w s)"
| "thread_step e (P_lost g k) s = lost_step e g k s"
| "thread_step e (P_closing k stage) s = closing_step k stage s"
| "thread_step e (P_lost_decide short k) s = Some (lost_decide_step short k s)"
| "thread_step e (P_lost_claim err k) s = Some (lost_claim_step err k s)"
| "thread_step e (P_lost_notify err k) s = Some (lost_notify_step err k s)"
| "thread_step e (P_lost_reconnect k) s = Some (startReconnection_step k s)"
| "thread_step e P_rstart s = Some (s, [P_rloop (sc_reconnectDelayMs (cy_client s)) True])"
| "thread_step e (P_rloop d first) s = Some (rloop_step d first s)"
| "thread_step e (P_rcount d first) s = Some (rcount_step d first s)"
| "thread_step e (P_rsleep d) s = Some (rsleep_step d s)"
| "thread_step e (P_rcheck d) s = Some (rcheck_step d s)"
| "thread_step e P_rdone s = Some (upd (notify (Note_reconnected ''local'')) s, [P_finish])"
| "thread_step e (P_rfailed d err) s = rfailed_step d err s"
| "thread_step e P_rtail s = Some (rtail_step s)"
| "thread_step e P_rclaim s = Some (rclaim_step s)"
| "thread_step e P_rnotify s = Some (rnotify_step s)"
| "thread_step e P_disconnect s = Some (disconnect_step s)"
| "thread_step e P_salvo s = Some (salvo_step e s)"
| "thread_step e (P_doClose r) s = Some (doClose_step r s)"
| "thread_step e (P_close_flag r) s = Some (upd (\<lambda>c. c\<lparr>sc_reconnecting := False\<rparr>) s, [P_closing (K_close r) Cs_bump])"
| "thread_step e (P_close_notify r) s = Some (upd (notify (Note_disconnected ''local'')) s, [P_wait r])"
| "thread_step e (P_wait r) s = wait_step r s"
| "thread_step e P_finish s = Some (upd (\<lambda>c. c\<lparr>sc_activeThreads := sc_activeThreads c - 1\<rparr>) s, [])"

text \<open>The other calls of the interface.\<close>

datatype api_call =
    A_setConfig audio_stream_config
  | A_requestRxFormat rx_format_request
  | A_setDuplex duplex
  | A_setAutoReconnect bool
  | A_setMaxReconnectAttempts int
  | A_setReconnectDelayMs int
  | A_setMaxReconnectDelayMs int
  | A_addStreamListener "nat option"
  | A_removeStreamListener "nat option"
  | A_addAudioListener nat
  | A_removeAudioListener int
  | A_injectTxAudio int "bytes option"
  | A_measureLatency int bool

fun client_call :: "api_call \<Rightarrow> stream_client \<Rightarrow> stream_client option" where
  "client_call (A_setConfig cfg) c = Some (snd (setConfig cfg c))"
| "client_call (A_requestRxFormat rq) c = Some (requestRxFormat rq c)"
| "client_call (A_setDuplex d) c = Some (setDuplex d c)"
| "client_call (A_setAutoReconnect b) c = Some (c\<lparr>sc_autoReconnect := b\<rparr>)"
| "client_call (A_setMaxReconnectAttempts n) c = Some (c\<lparr>sc_maxReconnectAttempts := n\<rparr>)"
| "client_call (A_setReconnectDelayMs n) c = Some (c\<lparr>sc_reconnectDelayMs := n\<rparr>)"
| "client_call (A_setMaxReconnectDelayMs n) c = Some (c\<lparr>sc_maxReconnectDelayMs := n\<rparr>)"
| "client_call (A_addStreamListener l) c = Some (addStreamListener l c)"
| "client_call (A_removeStreamListener l) c = Some (removeStreamListener l c)"
| "client_call (A_addAudioListener f) c = Some (snd (addAudioListener f c))"
| "client_call (A_removeAudioListener t) c = Some (removeAudioListener t c)"
| "client_call (A_injectTxAudio wall d) c = map_option fst (injectTxAudio wall d c)"
| "client_call (A_measureLatency nanos sent) c = Some (measureLatency nanos sent c)"

text \<open>Any number of threads may call \<open>connect\<close>, \<open>disconnect\<close> and the destructor, at any time.\<close>

inductive client_step :: "client_sys \<times> pc list \<Rightarrow> client_sys \<times> pc list \<Rightarrow> bool" where
  thread: "thread_step e p s = Some (s', ps) \<Longrightarrow> client_step (s, as @ p # bs) (s', as @ ps @ bs)"
| start: "p \<in> {P_connect, P_disconnect, P_doClose None} \<Longrightarrow> client_step (s, ths) (s, p # ths)"
| call: "client_call a (cy_client s) = Some c \<Longrightarrow> client_step (s, ths) (s\<lparr>cy_client := c\<rparr>, ths)"

abbreviation client_steps :: "client_sys \<times> pc list \<Rightarrow> client_sys \<times> pc list \<Rightarrow> bool" where
  "client_steps \<equiv> client_step\<^sup>*\<^sup>*"

definition mk_client_sys :: "stream_client \<Rightarrow> client_sys" where
  "mk_client_sys c = \<lparr>cy_client = c, cy_guard = False, cy_run = False, cy_results = []\<rparr>"

section \<open>What a turn leaves alone\<close>

definition terminal :: "client_note \<Rightarrow> bool" where
  "terminal n \<longleftrightarrow> (case n of Note_disconnected _ \<Rightarrow> True | _ \<Rightarrow> False)"

definition terminals :: "stream_client \<Rightarrow> nat" where
  "terminals c = length (filter (terminal \<circ> snd) (sc_posted c))"

text \<open>The flags, the references, the counters and the terminal events.\<close>

definition lifecycle :: "stream_client \<Rightarrow> (bool \<times> bool \<times> bool \<times> bool) \<times> (int \<times> int \<times> int) \<times>
    (nat option \<times> nat option \<times> nat option \<times> audio_format option \<times> audio_format option) \<times> nat" where
  "lifecycle c = ((sc_closed c, sc_connected c, sc_streaming c, sc_reconnecting c),
     (sc_connectionGeneration c, sc_reconnectAttempt c, sc_activeThreads c),
     (sc_connection c, sc_rxBuffer c, sc_txBuffer c, sc_captureStream c, sc_playbackStream c), terminals c)"

lemma terminals_notify [simp]: "terminals (notify n c) = terminals c + (if terminal n then 1 else 0)"
  by (simp add: terminals_def notify_def)

lemma terminal_simps [simp]:
  "terminal (Note_disconnected i)" "\<not> terminal (Note_error i m)" "\<not> terminal (Note_connected i a)"
  "\<not> terminal (Note_streamStarted i)" "\<not> terminal (Note_streamStopped i)" "\<not> terminal (Note_reconnecting i x y)"
  "\<not> terminal (Note_reconnected i)" "\<not> terminal (Note_clientsUpdate x y o' ids)" "\<not> terminal Note_txGranted"
  "\<not> terminal (Note_txDenied i)" "\<not> terminal (Note_txPreempted i)" "\<not> terminal Note_txReleased"
  by (simp_all add: terminal_def)

lemma notify_fields [simp]:
  "sc_closed (notify n c) = sc_closed c" "sc_connected (notify n c) = sc_connected c" "sc_streaming (notify n c) = sc_streaming c"
  "sc_reconnecting (notify n c) = sc_reconnecting c" "sc_connectionGeneration (notify n c) = sc_connectionGeneration c"
  "sc_reconnectAttempt (notify n c) = sc_reconnectAttempt c" "sc_activeThreads (notify n c) = sc_activeThreads c"
  "sc_connection (notify n c) = sc_connection c" "sc_rxBuffer (notify n c) = sc_rxBuffer c" "sc_txBuffer (notify n c) = sc_txBuffer c"
  "sc_captureStream (notify n c) = sc_captureStream c" "sc_playbackStream (notify n c) = sc_playbackStream c"
  by (simp_all add: notify_def)

lemma lifecycle_notify [simp]: "\<not> terminal n \<Longrightarrow> lifecycle (notify n c) = lifecycle c"
  by (simp add: lifecycle_def)

lemma lifecycle_posted: "sc_posted c' = sc_posted c \<Longrightarrow> terminals c' = terminals c"
  by (simp add: terminals_def)

lemma lifecycle_simps [simp]:
  "lifecycle (c\<lparr>sc_config := a\<rparr>) = lifecycle c" "lifecycle (c\<lparr>sc_grantedRxLayout := g\<rparr>) = lifecycle c"
  "lifecycle (c\<lparr>sc_rings := rs\<rparr>) = lifecycle c" "lifecycle (c\<lparr>sc_heard := h\<rparr>) = lifecycle c"
  "lifecycle (c\<lparr>sc_played := d\<rparr>) = lifecycle c" "lifecycle (c\<lparr>sc_measuredLatencyMs := l\<rparr>) = lifecycle c"
  "lifecycle (c\<lparr>sc_serverClientsInfo := i\<rparr>) = lifecycle c" "lifecycle (c\<lparr>sc_conns := cs\<rparr>) = lifecycle c"
  by (simp_all add: lifecycle_def terminals_def)

lemma lifecycle_conn [simp]: "lifecycle (conn_send i x c) = lifecycle c" "lifecycle (conn_close i c) = lifecycle c"
  by (simp_all add: conn_send_def conn_close_def)

lemma lifecycle_ring_write: "ring_write wall d k c = Some (c', n) \<Longrightarrow> lifecycle c' = lifecycle c"
  by (auto simp: ring_write_def)

lemma lifecycle_ring_read: "ring_read wall wt len cfg k c = Some (c', out) \<Longrightarrow> lifecycle c' = lifecycle c"
  by (auto simp: ring_read_def)

lemma lifecycle_control: "client_handleControlMessage nanos p c = Some (t, c') \<Longrightarrow> lifecycle c' = lifecycle c"
  by (auto simp: client_handleControlMessage_def Let_def split: option.splits if_splits)

lemma lifecycle_rx [simp]: "lifecycle (rx_listeners d c) = lifecycle c" "lifecycle (rx_adapt a ring cfg n c) = lifecycle c"
  by (simp_all add: rx_listeners_def rx_adapt_def)

lemma lifecycle_receive:
  assumes "client_receive_turn r a ad wall nanos conn ring cfg n c = Some (t, n', c')"
  shows "lifecycle c' = lifecycle c"
proof (cases "rr_closed r \<or> rr_packet r = None")
  case True
  then show ?thesis using assms by (auto simp: client_receive_turn_def split: if_splits)
next
  case False
  then obtain p where "rr_packet r = Some p" "\<not> rr_closed r" by auto
  then show ?thesis using assms
    by (cases "ptype p") (auto simp: client_receive_turn_def dest!: lifecycle_control lifecycle_ring_write split: if_splits)
qed

lemma lifecycle_play_piece: "play_piece dv x c = (t, c') \<Longrightarrow> lifecycle c' = lifecycle c"
  by (cases x; cases dv) (auto simp: play_piece_def)

lemma lifecycle_playback: "client_playback_turn dv wall wt ring f cfg c = Some (t, c') \<Longrightarrow> lifecycle c' = lifecycle c"
  by (auto simp: client_playback_turn_def bind_eq_Some_conv dest!: lifecycle_ring_read lifecycle_play_piece split: if_split_asm)

lemma lifecycle_capture: "client_capture_turn r wall ring m cfg c = Some (t, c') \<Longrightarrow> lifecycle c' = lifecycle c"
  by (auto simp: client_capture_turn_def bind_eq_Some_conv dest!: lifecycle_ring_write split: capture_read.splits if_splits)

lemma lifecycle_send: "client_send_turn sent wall wt conn ring cfg c = Some (t, c') \<Longrightarrow> lifecycle c' = lifecycle c"
  by (auto simp: client_send_turn_def bind_eq_Some_conv dest!: lifecycle_ring_read split: if_splits)

lemma lifecycle_watchdog: "client_watchdog b c = (t, c') \<Longrightarrow> lifecycle c' = lifecycle c"
  by (auto simp: client_watchdog_def split: if_splits)

lemma lifecycle_heartbeat:
  "heartbeat_first b d s conn c = (t, c') \<Longrightarrow> lifecycle c' = lifecycle c"
  "heartbeat_second b nanos s c = (t, c') \<Longrightarrow> lifecycle c' = lifecycle c"
  by (auto simp: heartbeat_first_def heartbeat_second_def measureLatency_def client_watchdog_def split: if_splits option.splits)

lemma lifecycle_handshake_loop: "handshake_loop rs c = (ok, c') \<Longrightarrow> lifecycle c' = lifecycle c"
  by (induction rs c rule: handshake_loop.induct)
    (auto simp: apply_server_config_def Let_def split: option.splits if_splits)

lemma lifecycle_handshake: "client_performHandshake i s rs c = (ok, c') \<Longrightarrow> lifecycle c' = lifecycle c"
  by (auto simp: client_performHandshake_def Let_def dest!: lifecycle_handshake_loop split: if_splits)

section \<open>Conservation laws\<close>

text \<open>The threads that owe the terminal event, those the barrier counts, and those that hold a mutex.\<close>

fun owes :: "pc \<Rightarrow> bool" where
  "owes (P_lost_notify _ _) = True"
| "owes P_rnotify = True"
| "owes P_salvo = True"
| "owes (P_close_flag _) = True"
| "owes (P_closing (K_close _) _) = True"
| "owes (P_close_notify _) = True"
| "owes _ = False"

fun counted :: "pc \<Rightarrow> bool" where
  "counted P_connect = False"
| "counted (P_dial who) = (who \<noteq> From_connect)"
| "counted (P_dialing who) = (who \<noteq> From_connect)"
| "counted (P_install who _) = (who \<noteq> From_connect)"
| "counted (P_run who _ _) = (who \<noteq> From_connect)"
| "counted (P_closing (K_close _) _) = False"
| "counted P_disconnect = False"
| "counted P_salvo = False"
| "counted (P_doClose _) = False"
| "counted (P_close_flag _) = False"
| "counted (P_close_notify _) = False"
| "counted (P_wait _) = False"
| "counted _ = True"

fun in_lost :: "pc \<Rightarrow> bool" where
  "in_lost (P_closing (K_lost _ _) _) = True"
| "in_lost (P_lost_decide _ _) = True"
| "in_lost (P_lost_claim _ _) = True"
| "in_lost (P_lost_notify _ _) = True"
| "in_lost (P_lost_reconnect _) = True"
| "in_lost _ = False"

fun in_commit :: "pc \<Rightarrow> bool" where
  "in_commit (P_run _ _ Rs_commit) = True"
| "in_commit _ = False"

definition how_many :: "(pc \<Rightarrow> bool) \<Rightarrow> pc list \<Rightarrow> int" where
  "how_many P ps = int (length (filter P ps))"

lemma how_many_simps [simp]:
  "how_many P [] = 0" "how_many P (p # ps) = (if P p then 1 else 0) + how_many P ps" "how_many P (ps @ qs) = how_many P ps + how_many P qs"
  by (simp_all add: how_many_def)

lemma how_many_none: "(\<And>p. p \<in> set ps \<Longrightarrow> \<not> P p) \<Longrightarrow> how_many P ps = 0"
  by (induction ps) auto

text \<open>The threads of a worker loop, and what its turns keep.\<close>

fun own_turn :: "pc \<Rightarrow> bool" where
  "own_turn (P_worker _) = True"
| "own_turn (P_turn _) = True"
| "own_turn (P_turn2 _) = True"
| "own_turn (P_lost _ _) = True"
| "own_turn P_finish = True"
| "own_turn _ = False"

lemma own_turn_simps: "own_turn p \<Longrightarrow> \<not> owes p \<and> counted p \<and> \<not> in_lost p \<and> \<not> in_commit p"
  by (cases p) auto

lemma after_turn_own [simp]: "own_turn (after_turn w t)"
  by (cases t) (simp_all add: after_turn_def)

lemma resume_own [simp]: "own_turn (resume k)"
  by (cases k) (simp_all add: resume_def)

lemma worker_head_own [simp]: "own_turn (worker_head w s)"
  by (simp add: worker_head_def)

lemma turn_step_quiet:
  assumes "turn_step e w s = Some (s', ps)"
  shows "\<exists>c' p. s' = s\<lparr>cy_client := c'\<rparr> \<and> lifecycle c' = lifecycle (cy_client s) \<and> ps = [p] \<and> own_turn p"
  using assms
  by (cases w)
    (auto simp: turn_step_def Let_def split: if_splits prod.splits
      dest: lifecycle_receive lifecycle_playback lifecycle_capture lifecycle_send lifecycle_heartbeat,
      (rule exI [of _ "cy_client s'"], simp)?)

lemma turn2_step_quiet:
  assumes "turn2_step e w s = (s', ps)"
  shows "\<exists>c' p. s' = s\<lparr>cy_client := c'\<rparr> \<and> lifecycle c' = lifecycle (cy_client s) \<and> ps = [p] \<and> own_turn p"
  using assms by (auto simp: turn2_step_def Let_def split: prod.splits dest: lifecycle_heartbeat)

lemma conn_fields [simp]:
  "sc_closed (conn_close i c) = sc_closed c" "sc_activeThreads (conn_close i c) = sc_activeThreads c"
  "sc_closed (conn_send i x c) = sc_closed c" "sc_activeThreads (conn_send i x c) = sc_activeThreads c"
  "terminals (conn_close i c) = terminals c" "terminals (conn_send i x c) = terminals c"
  by (simp_all add: conn_close_def conn_send_def terminals_def)

lemma terminals_update [simp]:
  "terminals (c\<lparr>sc_closed := a\<rparr>) = terminals c" "terminals (c\<lparr>sc_connected := a\<rparr>) = terminals c"
  "terminals (c\<lparr>sc_streaming := a\<rparr>) = terminals c" "terminals (c\<lparr>sc_reconnecting := a\<rparr>) = terminals c"
  "terminals (c\<lparr>sc_connectionGeneration := g\<rparr>) = terminals c" "terminals (c\<lparr>sc_reconnectAttempt := g\<rparr>) = terminals c"
  "terminals (c\<lparr>sc_activeThreads := g\<rparr>) = terminals c" "terminals (c\<lparr>sc_connection := i\<rparr>) = terminals c"
  "terminals (c\<lparr>sc_rxBuffer := i\<rparr>) = terminals c" "terminals (c\<lparr>sc_txBuffer := i\<rparr>) = terminals c"
  "terminals (c\<lparr>sc_captureStream := f\<rparr>) = terminals c" "terminals (c\<lparr>sc_playbackStream := f\<rparr>) = terminals c"
  "terminals (c\<lparr>sc_connectTimeMs := g\<rparr>) = terminals c" "terminals (c\<lparr>sc_conns := cs\<rparr>) = terminals c"
  "terminals (c\<lparr>sc_rings := rs\<rparr>) = terminals c" "terminals (c\<lparr>sc_captureIsMono := a\<rparr>) = terminals c"
  by (simp_all add: terminals_def)

lemma reset_refs_fields [simp]:
  "sc_closed (reset_refs c) = sc_closed c" "sc_activeThreads (reset_refs c) = sc_activeThreads c" "terminals (reset_refs c) = terminals c"
  by (simp_all add: reset_refs_def Let_def split: option.split)

lemma openAudioLines_fields:
  "openAudioLines oc op c = Some (err, c') \<Longrightarrow> sc_closed c' = sc_closed c \<and> sc_activeThreads c' = sc_activeThreads c \<and> terminals c' = terminals c"
  by (auto simp: openAudioLines_def lines_failed_def Let_def split: if_splits sum.splits option.splits)

lemma lifecycle_fields:
  "lifecycle c' = lifecycle c \<Longrightarrow> sc_closed c' = sc_closed c \<and> sc_activeThreads c' = sc_activeThreads c \<and> terminals c' = terminals c"
  by (simp add: lifecycle_def)

text \<open>The balance of a step: terminal events, the barrier and the two mutexes.\<close>

definition owed_balance :: "client_sys \<Rightarrow> pc list \<Rightarrow> int" where
  "owed_balance s ps = int (terminals (cy_client s)) + how_many owes ps + (if sc_closed (cy_client s) then 0 else 1)"

definition thread_balance :: "client_sys \<Rightarrow> pc list \<Rightarrow> int" where
  "thread_balance s ps = sc_activeThreads (cy_client s) - how_many counted ps"

definition lost_balance :: "client_sys \<Rightarrow> pc list \<Rightarrow> int" where
  "lost_balance s ps = (if cy_guard s then 1 else 0) - how_many in_lost ps"

definition commit_balance :: "client_sys \<Rightarrow> pc list \<Rightarrow> int" where
  "commit_balance s ps = (if cy_run s then 1 else 0) - how_many in_commit ps"

lemmas balance_defs = owed_balance_def thread_balance_def lost_balance_def commit_balance_def

definition balanced :: "client_sys \<Rightarrow> pc \<Rightarrow> client_sys \<Rightarrow> pc list \<Rightarrow> bool" where
  "balanced s p s' ps \<longleftrightarrow>
     owed_balance s' ps = owed_balance s [p] \<and> thread_balance s' ps = thread_balance s [p] \<and>
     ((in_lost p \<longrightarrow> cy_guard s) \<longrightarrow> lost_balance s' ps = lost_balance s [p]) \<and>
     ((in_commit p \<longrightarrow> cy_run s) \<longrightarrow> commit_balance s' ps = commit_balance s [p]) \<and>
     (sc_closed (cy_client s) \<longrightarrow> sc_closed (cy_client s'))"

text \<open>A step that changes neither flags nor counters, to a thread of the same standing.\<close>

lemma balanced_quiet:
  assumes "owes q = owes p" "counted q = counted p" "in_lost q = in_lost p" "in_commit q = in_commit p"
    and "cy_guard s' = cy_guard s" "cy_run s' = cy_run s" "sc_closed (cy_client s') = sc_closed (cy_client s)"
    "sc_activeThreads (cy_client s') = sc_activeThreads (cy_client s)" "terminals (cy_client s') = terminals (cy_client s)"
  shows "balanced s p s' [q]"
  using assms by (simp add: balanced_def balance_defs)

lemma balanced_own:
  assumes "own_turn p" "own_turn q" "s' = s\<lparr>cy_client := c'\<rparr>" "lifecycle c' = lifecycle (cy_client s)"
  shows "balanced s p s' [q]"
  using own_turn_simps [OF assms(1)] own_turn_simps [OF assms(2)] lifecycle_fields [OF assms(4)] assms(3)
  by (simp add: balanced_def balance_defs)

lemma run_step_balanced:
  assumes "run_step e who i stage s = Some (s', ps)"
  shows "balanced s (P_run who i stage) s' ps"
proof -
  have ws: "how_many P (map P_worker ws) = 0" if "\<And>w. \<not> P (P_worker w)" for P ws
    using that by (intro how_many_none) auto
  have cw: "how_many counted (map P_worker ws) = int (length ws)" for ws
    by (induction ws) simp_all
  have fl: "\<not> owes (connect_failed who m) \<and> counted (connect_failed who m) = (who \<noteq> From_connect) \<and>
    \<not> in_lost (connect_failed who m) \<and> \<not> in_commit (connect_failed who m)" for m
    by (cases who) (simp_all add: connect_failed_def)
  show ?thesis
  proof (cases stage)
    case Rs_handshake
    obtain ok c where h: "client_performHandshake i (en_sent e) (en_replies e) (cy_client s) = (ok, c)" by fastforce
    then have "s' = s\<lparr>cy_client := c\<rparr>" "ps = [if ok then P_run who i Rs_lines else connect_failed who ''Handshake failed'']"
      using assms Rs_handshake by simp_all
    then show ?thesis using lifecycle_fields [OF lifecycle_handshake [OF h]] fl Rs_handshake by (auto intro!: balanced_quiet)
  next
    case Rs_lines
    then obtain err c where h: "openAudioLines (en_capture e) (en_playback e) (cy_client s) = Some (err, c)"
      "s' = s\<lparr>cy_client := c\<rparr>" "ps = [case err of None \<Rightarrow> P_run who i Rs_check | Some m \<Rightarrow> connect_failed who m]"
      using assms by (auto split: if_splits)
    then show ?thesis using openAudioLines_fields [OF h(1)] fl Rs_lines by (cases err) (auto intro!: balanced_quiet)
  next
    case (Rs_spawn g cfg captureIsMono)
    then show ?thesis using assms by (auto simp: balanced_def balance_defs upd_def ws cw Let_def split: if_splits)
  next
    case Rs_started
    then show ?thesis using assms by (cases who) (auto simp: balanced_def balance_defs connect_succeeded_def upd_def)
  next
    case Rs_check
    show ?thesis
    proof (cases "sc_closed (cy_client s)")
      case True
      then have "s' = s" "ps = [connect_failed who ''Closed during connect'']" using assms Rs_check by (simp_all split: if_splits)
      then show ?thesis using fl Rs_check by (auto intro!: balanced_quiet)
    next
      case False
      then show ?thesis using assms Rs_check by (auto simp: balanced_def balance_defs split: if_splits)
    qed
  next
    case Rs_commit
    then have "s' = (upd (\<lambda>c. c\<lparr>sc_connected := True\<rparr>) s)\<lparr>cy_run := False\<rparr>" "ps = [P_run who i Rs_notify]" using assms by simp_all
    then show ?thesis using Rs_commit by (simp add: balanced_def balance_defs upd_def)
  next
    case Rs_notify
    then have "s' = upd (\<lambda>c. notify (Note_connected ''local'' (server_address c)) c) s" "ps = [P_run who i Rs_generation]" using assms by simp_all
    then show ?thesis using Rs_notify by (simp add: balanced_def balance_defs upd_def)
  next
    case Rs_generation
    then have "s' = s" "ps = [P_run who i (let c = cy_client s in Rs_spawn (sc_connectionGeneration c) (sc_config c) (sc_captureIsMono c))]" using assms by auto
    then show ?thesis using Rs_generation by (simp add: balanced_def balance_defs Let_def)
  next
    case Rs_stream
    then have "s' = upd (\<lambda>c. c\<lparr>sc_streaming := True\<rparr>) s" "ps = [P_run who i Rs_started]" using assms by simp_all
    then show ?thesis using Rs_stream by (simp add: balanced_def balance_defs upd_def)
  qed
qed

lemma closing_step_balanced:
  assumes "closing_step k stage s = Some (s', ps)"
  shows "balanced s (P_closing k stage) s' ps"
proof -
  have nx: "owes (closed_next k) = owes (P_closing k st) \<and> counted (closed_next k) = counted (P_closing k st) \<and>
    in_lost (closed_next k) = in_lost (P_closing k st) \<and> \<not> in_commit (closed_next k)" for st
    by (cases k) (simp_all add: closed_next_def)
  have st: "owes (P_closing k st) = owes (P_closing k st')" "counted (P_closing k st) = counted (P_closing k st')"
    "in_lost (P_closing k st) = in_lost (P_closing k st')" for st st'
    by (cases k; simp)+
  show ?thesis
  proof (cases stage)
    case Cs_reset
    then have "s' = upd reset_refs s" "ps = [closed_next k]" using assms by (simp_all split: if_splits)
    then show ?thesis using nx [of Cs_reset] Cs_reset by (auto intro!: balanced_quiet simp: upd_def)
  qed (use assms in \<open>auto intro!: balanced_quiet st simp: upd_def\<close>)
qed

lemma simple_steps_balanced:
  "balanced s P_rstart s [P_rloop d f]"
  "balanced s (P_rloop d f) (fst (rloop_step d f s)) (snd (rloop_step d f s))"
  "balanced s (P_rcount d f) (fst (rcount_step d f s)) (snd (rcount_step d f s))"
  "balanced s (P_rsleep d) (fst (rsleep_step d s)) (snd (rsleep_step d s))"
  "balanced s (P_rcheck d) (fst (rcheck_step d s)) (snd (rcheck_step d s))"
  "balanced s P_rdone (upd (notify (Note_reconnected x)) s) [P_finish]"
  "balanced s P_rtail (fst (rtail_step s)) (snd (rtail_step s))"
  "balanced s P_rclaim (fst (rclaim_step s)) (snd (rclaim_step s))"
  "balanced s P_rnotify (fst (rnotify_step s)) (snd (rnotify_step s))"
  "balanced s P_disconnect (fst (disconnect_step s)) (snd (disconnect_step s))"
  "balanced s (P_doClose m) (fst (doClose_step m s)) (snd (doClose_step m s))"
  "balanced s (P_close_flag m) (upd (\<lambda>c. c\<lparr>sc_reconnecting := False\<rparr>) s) [P_closing (K_close m) Cs_bump]"
  "balanced s (P_close_notify m) (upd (notify (Note_disconnected x)) s) [P_wait m]"
  "balanced s P_finish (upd (\<lambda>c. c\<lparr>sc_activeThreads := sc_activeThreads c - 1\<rparr>) s) []"
  by (simp_all add: balanced_def balance_defs rloop_step_def rcount_step_def rsleep_step_def rcheck_step_def
      rtail_step_def rclaim_step_def claimClosedAndWake_def rnotify_step_def disconnect_step_def doClose_step_def upd_def Let_def)

lemma thread_step_balanced:
  assumes "thread_step e p s = Some (s', ps)"
  shows "balanced s p s' ps"
proof -
  define r where "r = (s', ps)"
  have r: "thread_step e p s = Some r" and goal: "balanced s p (fst r) (snd r) \<Longrightarrow> balanced s p s' ps" using assms by (simp_all add: r_def)
  show ?thesis
  proof (cases p)
  case (P_run who i stage)
  then show ?thesis using assms by (simp add: run_step_balanced)
next
  case (P_closing k stage)
  then show ?thesis using assms by (simp add: closing_step_balanced)
next
  case (P_worker w)
  then show ?thesis using assms balanced_own [where p = p and q = "worker_head w s" and s = s and s' = s and c' = "cy_client s"] by fastforce
next
  case (P_turn w)
  then show ?thesis using assms turn_step_quiet [of e w s s' ps] by (auto intro: balanced_own)
next
  case (P_turn2 w)
  then show ?thesis using assms turn2_step_quiet [of e w s s' ps] by (auto intro: balanced_own)
next
  case (P_lost g k)
  then show ?thesis using assms own_turn_simps [OF resume_own, of k]
    by (auto simp: balanced_def balance_defs lost_step_def Let_def split: if_splits)
next
  case (P_lost_decide short k)
  then show ?thesis using assms by (auto simp: balanced_def balance_defs lost_decide_step_def upd_def Let_def split: if_splits)
next
  case (P_lost_claim err k)
  then show ?thesis using assms own_turn_simps [OF resume_own, of k]
    by (auto simp: balanced_def balance_defs lost_claim_step_def claimClosedAndWake_def upd_def Let_def split: if_splits)
next
  case (P_lost_notify err k)
  then show ?thesis using assms own_turn_simps [OF resume_own, of k]
    by (auto simp: balanced_def balance_defs lost_notify_step_def upd_def split: option.splits)
next
  case (P_lost_reconnect k)
  then show ?thesis using assms own_turn_simps [OF resume_own, of k]
    by (auto simp: balanced_def balance_defs startReconnection_step_def upd_def Let_def split: if_splits)
next
  case (P_dial who)
  then show ?thesis using assms by (cases who) (auto simp: balanced_def balance_defs dial_step_def dial_failed_def split: if_splits)
next
  case (P_dialing who)
  then show ?thesis using assms
    by (cases who) (auto simp: balanced_def balance_defs dialed_step_def dial_failed_def new_connection_def split: if_splits option.splits)
next
  case (P_install who i)
  then show ?thesis using assms by (cases who) (auto simp: balanced_def balance_defs install_step_def connect_failed_def upd_def split: if_splits)
next
  case P_connect
  show ?thesis using r P_connect by (intro goal) (auto simp: balanced_def balance_defs connect_step_def split: option.splits)
next
  case (P_rfailed d err)
  show ?thesis using r P_rfailed by (intro goal) (auto simp: balanced_def balance_defs rfailed_step_def upd_def)
next
  case (P_wait x)
  show ?thesis using r P_wait by (intro goal) (auto simp: balanced_def balance_defs wait_step_def split: if_splits option.splits)
next
  case P_salvo
  have "\<exists>c'. fst (salvo_step e s) = s\<lparr>cy_client := c'\<rparr> \<and> lifecycle c' = lifecycle (cy_client s)"
    by (cases "sc_connection (cy_client s)") (auto simp: salvo_step_def upd_def Let_def intro: exI [of _ "cy_client s"])
  moreover have "snd (salvo_step e s) = [P_close_flag None]" by (simp add: salvo_step_def Let_def)
  ultimately show ?thesis using r P_salvo by (intro goal) (auto dest!: lifecycle_fields intro!: balanced_quiet)
qed (use goal r in \<open>auto simp: simple_steps_balanced\<close>)
qed

section \<open>The invariant\<close>

definition client_inv :: "client_sys \<times> pc list \<Rightarrow> bool" where
  "client_inv x \<longleftrightarrow> (case x of (s, ths) \<Rightarrow>
     owed_balance s ths = 1 \<and> thread_balance s ths = 0 \<and> lost_balance s ths = 0 \<and> commit_balance s ths = 0)"

definition fresh_client :: "stream_client \<Rightarrow> bool" where
  "fresh_client c \<longleftrightarrow> \<not> sc_closed c \<and> terminals c = 0 \<and> sc_activeThreads c = 0"

lemma how_many_nonneg: "0 \<le> how_many P ps"
  by (simp add: how_many_def)

lemma client_inv_init: "fresh_client c \<Longrightarrow> client_inv (mk_client_sys c, [])"
  by (simp add: client_inv_def fresh_client_def mk_client_sys_def balance_defs)

lemma client_call_lifecycle: "client_call a c = Some c' \<Longrightarrow> lifecycle c' = lifecycle c"
proof (cases a)
  case (A_addStreamListener l)
  then show "client_call a c = Some c' \<Longrightarrow> ?thesis" by (auto simp: addStreamListener_def lifecycle_def terminals_def split: option.splits if_splits)
next
  case (A_injectTxAudio wall d)
  then show "client_call a c = Some c' \<Longrightarrow> ?thesis"
    by (auto simp: injectTxAudio_def dest!: lifecycle_ring_write split: option.splits if_splits)
next
  case (A_measureLatency nanos sent)
  then show "client_call a c = Some c' \<Longrightarrow> ?thesis" by (auto simp: measureLatency_def split: option.splits if_splits)
qed (auto simp: setConfig_def requestRxFormat_def setDuplex_def removeStreamListener_def addAudioListener_def removeAudioListener_def
    lifecycle_def terminals_def split: if_splits)

lemma client_inv_thread:
  assumes "thread_step e p s = Some (s', ps)" "client_inv (s, as @ p # bs)"
  shows "client_inv (s', as @ ps @ bs)"
proof -
  note b = thread_step_balanced [OF assms(1)]
  have "P p \<Longrightarrow> (if lock then 1 else 0) - how_many P (as @ p # bs) = 0 \<Longrightarrow> lock" for P lock
    using how_many_nonneg [of P as] how_many_nonneg [of P bs] by (cases lock) simp_all
  then have "in_lost p \<Longrightarrow> cy_guard s" "in_commit p \<Longrightarrow> cy_run s"
    using assms(2) unfolding client_inv_def lost_balance_def commit_balance_def by blast+
  then show ?thesis using b assms(2) by (simp add: balanced_def client_inv_def balance_defs)
qed

lemma client_inv_step:
  assumes "client_step x y" "client_inv x"
  shows "client_inv y"
  using assms
proof cases
  case (thread e p s s' ps as bs)
  then show ?thesis using client_inv_thread assms(2) by blast
next
  case (start p s ths)
  then show ?thesis using assms(2) by (auto simp: client_inv_def balance_defs)
next
  case (call a s c ths)
  then show ?thesis using assms(2) lifecycle_fields [OF client_call_lifecycle [OF call(3)]] by (simp add: client_inv_def balance_defs)
qed

lemma client_inv_steps: "client_steps x y \<Longrightarrow> client_inv x \<Longrightarrow> client_inv y"
  by (induction rule: rtranclp_induct) (auto intro: client_inv_step)

lemma closed_final_step: "client_step x y \<Longrightarrow> sc_closed (cy_client (fst x)) \<Longrightarrow> sc_closed (cy_client (fst y))"
proof (induction rule: client_step.induct)
  case (thread e p s s' ps as bs)
  then show ?case using thread_step_balanced by (auto simp: balanced_def)
next
  case (call a s c ths)
  then show ?case using lifecycle_fields [OF client_call_lifecycle] by simp
qed simp

lemma closed_final: "client_steps x y \<Longrightarrow> sc_closed (cy_client (fst x)) \<Longrightarrow> sc_closed (cy_client (fst y))"
  by (induction rule: rtranclp_induct) (auto intro: closed_final_step)

section \<open>Workers of an old generation\<close>

definition reports_loss :: "worker \<Rightarrow> bool" where
  "reports_loss w = (case w of W_playback _ _ _ _ \<Rightarrow> False | W_capture _ _ _ \<Rightarrow> False | _ \<Rightarrow> True)"

fun belongs :: "int \<Rightarrow> pc \<Rightarrow> bool" where
  "belongs g (P_worker w) = (reports_loss w \<longrightarrow> worker_gen w = g)"
| "belongs g (P_turn w) = (reports_loss w \<longrightarrow> worker_gen w = g)"
| "belongs g (P_turn2 w) = (reports_loss w \<and> worker_gen w = g)"
| "belongs g (P_lost g' k) = (g' = g \<and> (case k of Resume w \<Rightarrow> reports_loss w \<longrightarrow> worker_gen w = g | Exit_worker \<Rightarrow> True))"
| "belongs g P_finish = True"
| "belongs g _ = False"

lemma after_turn_belongs:
  "belongs g (P_worker w) \<Longrightarrow> (t = Lost_go_on \<or> t = Lost_finish \<Longrightarrow> reports_loss w) \<Longrightarrow> belongs g (after_turn w t)"
  by (cases t) (auto simp: after_turn_def)

lemma playback_no_loss: "client_playback_turn dv wall wt ring f cfg c = Some (t, c') \<Longrightarrow> t \<noteq> Lost_go_on \<and> t \<noteq> Lost_finish"
  by (auto simp: client_playback_turn_def bind_eq_Some_conv play_piece_def split: if_split_asm option.splits)

lemma capture_no_loss: "client_capture_turn r wall ring m cfg c = Some (t, c') \<Longrightarrow> t \<noteq> Lost_go_on \<and> t \<noteq> Lost_finish"
  by (auto simp: client_capture_turn_def bind_eq_Some_conv split: capture_read.splits if_splits)

lemma turn_step_belongs:
  assumes "turn_step e w s = Some (s', ps)" "belongs g (P_turn w)"
  shows "list_all (belongs g) ps"
proof (cases w)
  case (W_playback ring f cfg buffering)
  then show ?thesis using assms
    by (auto simp: turn_step_def Let_def reports_loss_def intro!: after_turn_belongs split: if_splits dest: playback_no_loss)
next
  case (W_capture ring m cfg)
  then show ?thesis using assms
    by (auto simp: turn_step_def Let_def reports_loss_def intro!: after_turn_belongs dest: capture_no_loss)
qed (use assms in \<open>auto simp: turn_step_def Let_def reports_loss_def worker_gen_def intro!: after_turn_belongs split: prod.splits if_splits\<close>)


section \<open>Schedules\<close>

text \<open>Which thread moves, and what it meets.\<close>

fun run_schedule :: "(nat \<times> client_env) list \<Rightarrow> client_sys \<times> pc list \<Rightarrow> (client_sys \<times> pc list) option" where
  "run_schedule [] x = Some x"
| "run_schedule ((i, e) # sched) (s, ths) =
     (if i < length ths then
        (case thread_step e (ths ! i) s of
           None \<Rightarrow> None
         | Some (s', ps) \<Rightarrow> run_schedule sched (s', take i ths @ ps @ drop (Suc i) ths))
      else None)"

lemma run_schedule_steps: "run_schedule sched x = Some y \<Longrightarrow> client_steps x y"
proof (induction sched x rule: run_schedule.induct)
  case (2 i e sched s ths)
  then obtain s' ps where st: "i < length ths" "thread_step e (ths ! i) s = Some (s', ps)"
    "run_schedule sched (s', take i ths @ ps @ drop (Suc i) ths) = Some y"
    by (auto split: if_splits option.splits)
  have "client_step (s, ths) (s', take i ths @ ps @ drop (Suc i) ths)"
    using client_step.thread [OF st(2), of "take i ths" "drop (Suc i) ths"] id_take_nth_drop [OF st(1)] by simp
  moreover have "client_steps (s', take i ths @ ps @ drop (Suc i) ths) y" using "2.IH" [OF st(1) st(2)] st(3) by simp
  ultimately show ?case by (rule converse_rtranclp_into_rtranclp)
qed simp

text \<open>An environment in which everything succeeds, and one in which the connection is lost.\<close>

definition good_env :: client_env where
  "good_env = \<lparr>en_now = 10000, en_nanos = 0, en_wall = 0, en_waited = 0, en_transport = True, en_dial = None, en_sent = True, en_sent2 = True,
     en_replies = [rr_of (createControl 0 0 (cm_serialize (ofType ConnectAccept))) Live],
     en_capture = (\<lambda>_ f. Inr f), en_playback = (\<lambda>_ f. Inr f), en_recv = rr_dead, en_adaptive = 0, en_timedOut = False,
     en_hbDue = False, en_read = Captured [], en_device = None\<rparr>"

lemma good_env_fields [simp]:
  "en_now good_env = 10000" "en_transport good_env" "en_dial good_env = None" "en_sent good_env" "en_sent2 good_env"
  "en_capture good_env = (\<lambda>_ f. Inr f)" "en_playback good_env = (\<lambda>_ f. Inr f)" "en_recv good_env = rr_dead"
  by (simp_all add: good_env_def)

definition ready_client :: "stream_client \<Rightarrow> bool" where
  "ready_client c \<longleftrightarrow> connect_refusal c = None \<and> sc_backend c \<and> sc_captureDeviceId c = None \<and> mk_ring_config (sc_config c) \<noteq> None \<and>
     \<not> sc_txInjectEnabled c \<and> sc_activeThreads c = 0 \<and> sc_conns c = []"

lemma good_handshake [simp]:
  "client_performHandshake i True (en_replies good_env) c =
    (True, conn_send i (Sent_control (handshake_request (c\<lparr>sc_grantedRxLayout := -1\<rparr>))) (c\<lparr>sc_grantedRxLayout := -1\<rparr>))"
  by (simp add: good_env_def client_performHandshake_def rr_of_def createControl_def mk_packet_def cm_deserialize_serialize ofType_def Let_def)

lemmas schedule_simps = mk_client_sys_def numeral_eq_Suc connect_step_def dial_step_def dialed_step_def new_connection_def
  install_step_def upd_def openAudioLines_def formatFromConfig_def notify_def conn_send_def conn_close_def disconnect_step_def salvo_step_def
  reset_refs_def closed_next_def wait_step_def worker_threads_def connect_succeeded_def

lemma ready_fields:
  assumes "ready_client c"
  shows "connect_refusal c = None" "sc_backend c" "sc_captureDeviceId c = None" "sc_activeThreads c = 0" "\<not> sc_closed c"
    "\<not> sc_connected c" "sc_conns c = []" "\<not> sc_txInjectEnabled c" "\<exists>r. mk_ring_config (sc_config c) = Some r"
  using assms by (auto simp: ready_client_def connect_refusal_def split: if_splits)

lemma stale_streaming_run:
  assumes "ready_client c"
  shows "\<exists>s. run_schedule (replicate 9 (0, good_env) @ replicate 10 (1, good_env) @ replicate 4 (0, good_env)) (mk_client_sys c, [P_connect, P_disconnect])
    = Some (s, []) \<and> sc_closed (cy_client s) \<and> sc_streaming (cy_client s)"
proof -
  obtain r where "mk_ring_config (sc_config c) = Some r" using ready_fields(9) [OF assms] by blast
  then show ?thesis by (simp add: ready_fields [OF assms] schedule_simps Let_def)
qed

definition late_env :: client_env where
  "late_env = good_env\<lparr>en_now := 20000\<rparr>"

definition mute_env :: client_env where
  "mute_env = good_env\<lparr>en_replies := []\<rparr>"

lemma mute_handshake:
  "client_performHandshake i True [] c =
    (False, notifyError ''Handshake timeout'' (conn_send i (Sent_control (handshake_request (c\<lparr>sc_grantedRxLayout := -1\<rparr>))) (c\<lparr>sc_grantedRxLayout := -1\<rparr>)))"
  by (simp add: client_performHandshake_def Let_def)

definition exhaust_schedule :: "(nat \<times> client_env) list" where
  "exhaust_schedule = replicate 13 (0, good_env) @ replicate 11 (0, late_env) @ replicate 4 (1, good_env) @
     replicate 7 (0, good_env) @ [(0, mute_env)] @ replicate 6 (0, good_env)"

lemma exhausted_run:
  assumes "ready_client c" "sc_autoReconnect c" "sc_maxReconnectAttempts c = 1" "sc_reconnectDelayMs c = 1000" "\<not> sc_reconnecting c" "sc_reconnectAttempt c = 0"
  shows "\<exists>s. run_schedule exhaust_schedule (mk_client_sys c, [P_connect]) = Some (s, []) \<and> sc_closed (cy_client s) \<and>
     sc_connection (cy_client s) = Some 1 \<and> map cn_open (sc_conns (cy_client s)) = [False, True]"
proof -
  obtain r where "mk_ring_config (sc_config c) = Some r" using ready_fields(9) [OF assms(1)] by blast
  then show ?thesis using assms(2-)
    by (simp add: ready_fields [OF assms(1)] schedule_simps Let_def exhaust_schedule_def late_env_def mute_env_def mute_handshake
      worker_head_def turn_step_def client_receive_turn_def rr_dead_def after_turn_def worker_gen_def lost_step_def kMinStableConnectionMs_def
      lost_decide_step_def startReconnection_step_def resume_def rloop_step_def rcount_step_def rsleep_step_def connect_failed_def rfailed_step_def
      next_delay_def mul_i32_def i32_ok_def rtail_step_def rclaim_step_def claimClosedAndWake_def rnotify_step_def i32_ident)
qed

lemma ready_fresh: "ready_client c \<Longrightarrow> sc_posted c = [] \<Longrightarrow> fresh_client c"
  by (auto simp: fresh_client_def ready_fields terminals_def)

lemma started_runs:
  assumes "run_schedule sched (s, ps) = Some y" "ps = [P_connect] \<or> ps = [P_connect, P_disconnect]"
  shows "client_steps (s, []) y"
proof -
  have st: "client_steps (s, ths) (s, p # ths)" if "p \<in> {P_connect, P_disconnect}" for p ths
    using client_step.start [of p s ths] that by blast
  have "client_steps (s, []) (s, ps)"
    using assms(2) st [of P_connect "[]"] rtranclp_trans [OF st [of P_disconnect "[]"] st [of P_connect "[P_disconnect]"]] by auto
  then show ?thesis using run_schedule_steps [OF assms(1)] by (rule rtranclp_trans)
qed

definition small_client :: stream_client where
  "small_client = (mk_stream_client ''host'' 4533 ''wsjtx'')\<lparr>sc_backend := True, sc_playbackDeviceId := Some 1, sc_maxReconnectAttempts := 1\<rparr>"

lemma small_ready: "ready_client small_client"
  by (simp add: ready_client_def small_client_def mk_stream_client_def connect_refusal_def client_bare_udp_def mk_ring_config_def
      default_config_def config_calc_defs i32_ok_code cdiv_def)

lemma small_fresh: "fresh_client small_client"
  by (rule ready_fresh [OF small_ready]) (simp add: small_client_def mk_stream_client_def)

section \<open>Properties\<close>

text \<open>
  C18: the terminal event. However many threads connect, lose the connection, reconnect, disconnect and destroy the client,
  \<open>onClientDisconnected\<close> is posted at most once, never before the client is closed, and once the client is closed and no thread is
  still on its way from the claim to the event it has been posted exactly once.
\<close>

theorem client_terminal_event_once:
  assumes "fresh_client c" "client_steps (mk_client_sys c, []) (s, ths)"
  shows "terminals (cy_client s) \<le> 1 \<and> (\<not> sc_closed (cy_client s) \<longrightarrow> terminals (cy_client s) = 0) \<and>
    (sc_closed (cy_client s) \<and> list_all (Not \<circ> owes) ths \<longrightarrow> terminals (cy_client s) = 1)"
proof -
  have "owed_balance s ths = 1" using client_inv_steps [OF assms(2) client_inv_init [OF assms(1)]] by (simp add: client_inv_def)
  moreover have "how_many owes ths = 0" if "list_all (Not \<circ> owes) ths" using that by (intro how_many_none) (auto simp: list_all_iff)
  ultimately show ?thesis using how_many_nonneg [of owes ths] by (auto simp: owed_balance_def split: if_splits)
qed

theorem client_terminal_event_once_witness:
  "\<exists>s. client_steps (mk_client_sys small_client, []) (s, []) \<and> terminals (cy_client s) = 1"
proof -
  obtain s where s: "run_schedule (replicate 9 (0, good_env) @ replicate 10 (1, good_env) @ replicate 4 (0, good_env)) (mk_client_sys small_client, [P_connect, P_disconnect]) = Some (s, [])"
    "sc_closed (cy_client s)" using stale_streaming_run [OF small_ready] by blast
  have "client_steps (mk_client_sys small_client, []) (s, [])" using started_runs [OF s(1)] by simp
  then show ?thesis using client_terminal_event_once [OF small_fresh] s(2) by auto
qed

text \<open>
  C20: the join barrier and the reconnect guard. In every reachable state the thread count is the number of worker and reconnection
  threads that have not finished, so \<open>waitForWorkers\<close> returns exactly when none is left; and at most one thread is inside
  the teardown of \<open>handleConnectionLost\<close>.
\<close>

theorem client_barrier:
  assumes "fresh_client c" "client_steps (mk_client_sys c, []) (s, ths)"
  shows "sc_activeThreads (cy_client s) = how_many counted ths \<and> how_many in_lost ths \<le> 1 \<and>
    (wait_step r s \<noteq> None \<longleftrightarrow> list_all (Not \<circ> counted) ths)"
proof -
  have inv: "thread_balance s ths = 0" "lost_balance s ths = 0"
    using client_inv_steps [OF assms(2) client_inv_init [OF assms(1)]] by (simp_all add: client_inv_def)
  have "how_many counted ths = 0 \<longleftrightarrow> list_all (Not \<circ> counted) ths"
    by (auto simp: how_many_def filter_empty_conv list_all_iff)
  with inv show ?thesis by (auto simp: thread_balance_def lost_balance_def wait_step_def split: if_splits)
qed

theorem client_barrier_witness:
  "\<exists>s. client_steps (mk_client_sys small_client, []) (s, []) \<and> sc_activeThreads (cy_client s) = 0 \<and> wait_step None s \<noteq> None"
proof -
  obtain s where "run_schedule (replicate 9 (0, good_env) @ replicate 10 (1, good_env) @ replicate 4 (0, good_env)) (mk_client_sys small_client, [P_connect, P_disconnect]) = Some (s, [])"
    using stale_streaming_run [OF small_ready] by blast
  from started_runs [OF this] have "client_steps (mk_client_sys small_client, []) (s, [])" by simp
  then show ?thesis using client_barrier [OF small_fresh, of s "[]" None] by auto
qed

text \<open>
  C22: a late error cannot hurt. A worker started for a generation that is no longer the current one, wherever it is in its loop or on its
  way into \<open>handleConnectionLost\<close>, changes no flag, no reference and no counter of the client, whatever it receives, and stays such a
  worker until it ends.
\<close>

theorem stale_worker_harmless:
  assumes "belongs g p" "p \<noteq> P_finish" "g \<noteq> sc_connectionGeneration (cy_client s)" "thread_step e p s = Some (s', ps)"
  shows "lifecycle (cy_client s') = lifecycle (cy_client s) \<and> cy_guard s' = cy_guard s \<and> list_all (belongs g) ps"
proof (cases p)
  case (P_worker w)
  then show ?thesis using assms by (auto simp: worker_head_def)
next
  case (P_turn w)
  then show ?thesis using assms turn_step_quiet [of e w s s' ps] turn_step_belongs [of e w s s' ps g] by auto
next
  case (P_turn2 w)
  then show ?thesis using assms turn2_step_quiet [of e w s s' ps]
    by (auto simp: turn2_step_def intro!: after_turn_belongs split: prod.splits)
next
  case (P_lost g' k)
  then have "s' = s" "ps = [resume k]" using assms by (auto simp: lost_step_def Let_def split: if_splits)
  then show ?thesis using P_lost assms(1) by (cases k) (auto simp: resume_def)
qed (use assms in auto)

theorem stale_worker_harmless_witness:
  "let s = mk_client_sys (small_client\<lparr>sc_connectionGeneration := 1, sc_connected := True\<rparr>)
   in case thread_step good_env (P_lost 0 Exit_worker) s of
        Some (s', ps) \<Rightarrow> lifecycle (cy_client s') = lifecycle (cy_client s) \<and> list_all (belongs 0) ps
      | None \<Rightarrow> False"
proof -
  let ?s = "mk_client_sys (small_client\<lparr>sc_connectionGeneration := 1, sc_connected := True\<rparr>)"
  have st: "thread_step good_env (P_lost 0 Exit_worker) ?s = Some (?s, [P_finish])"
    by (simp add: lost_step_def mk_client_sys_def resume_def)
  have "belongs 0 (P_lost 0 Exit_worker)" "P_lost 0 Exit_worker \<noteq> P_finish" "0 \<noteq> sc_connectionGeneration (cy_client ?s)"
    by (simp_all add: mk_client_sys_def)
  from stale_worker_harmless [OF this st] show ?thesis unfolding Let_def st by simp
qed

text \<open>
  A disconnect that races a connect leaves the stream flag set. Between the commit of \<open>connected_\<close> and the start of the workers a
  \<open>disconnect()\<close> can run to its end; \<open>runConnect\<close> then still sets \<open>streaming_\<close> and posts \<open>onStreamStarted\<close>, and the closed
  client, with no thread left, answers \<open>isStreaming()\<close> with true.
\<close>

theorem disconnect_leaves_streaming:
  assumes "ready_client c"
  shows "\<exists>s. client_steps (mk_client_sys c, []) (s, []) \<and> sc_closed (cy_client s) \<and> sc_streaming (cy_client s)"
  using stale_streaming_run [OF assms] started_runs by blast

theorem disconnect_leaves_streaming_witness:
  "\<exists>s. client_steps (mk_client_sys small_client, []) (s, []) \<and> sc_closed (cy_client s) \<and> sc_streaming (cy_client s)"
  by (rule disconnect_leaves_streaming [OF small_ready])

text \<open>
  The last reconnect attempt leaks its connection. When reconnection gives up on an attempt whose handshake failed, the client is
  closed and every thread has ended, but the connection of that attempt is still referenced and open: nothing closes it until the
  object is destroyed, and \<open>disconnect()\<close> no longer does.
\<close>

theorem exhausted_reconnect_leaks:
  assumes "ready_client c" "sc_autoReconnect c" "sc_maxReconnectAttempts c = 1" "sc_reconnectDelayMs c = 1000" "\<not> sc_reconnecting c" "sc_reconnectAttempt c = 0"
  shows "\<exists>s i. client_steps (mk_client_sys c, []) (s, []) \<and> sc_closed (cy_client s) \<and>
    sc_connection (cy_client s) = Some i \<and> cn_open (sc_conns (cy_client s) ! i)"
proof -
  obtain s where s: "run_schedule exhaust_schedule (mk_client_sys c, [P_connect]) = Some (s, [])" "sc_closed (cy_client s)"
    "sc_connection (cy_client s) = Some 1" "map cn_open (sc_conns (cy_client s)) = [False, True]"
    using exhausted_run [OF assms] by (elim exE conjE) (rule that)
  have "length (sc_conns (cy_client s)) = 2" using arg_cong [OF s(4), of length] by simp
  then have "cn_open (sc_conns (cy_client s) ! 1)" using arg_cong [OF s(4), of "\<lambda>xs. xs ! 1"] by simp
  moreover have "client_steps (mk_client_sys c, []) (s, [])" using started_runs [OF s(1)] by simp
  ultimately show ?thesis using s(2,3) by (intro exI conjI)
qed

theorem exhausted_reconnect_leaks_witness:
  "\<exists>s i. client_steps (mk_client_sys small_client, []) (s, []) \<and> sc_closed (cy_client s) \<and>
    sc_connection (cy_client s) = Some i \<and> cn_open (sc_conns (cy_client s) ! i)"
  by (rule exhausted_reconnect_leaks [OF small_ready]) (simp_all add: small_client_def mk_stream_client_def)

end
