(* ===== verification/Daemon_Config.thy ===== *)
theory Daemon_Config
  imports Device_Layer
begin

text \<open>
  The settings of the daemon (\<open>tools/na_audio_daemon.cpp\<close>): the arguments, the parsers of integers and booleans, the settings table,
  the configuration file that is read at start and written by the control page, and the two passes over the command line. A
  refusal that ends the process with status 2 is \<open>Inl\<close> with the text printed after \<open>error:\<close>. What the file system holds is an
  argument.
\<close>

section \<open>Arguments\<close>

record daemon_args =
  da_mode :: string
  da_capturePattern :: string
  da_captureId :: int
  da_playbackPattern :: string
  da_playbackId :: int
  da_transport :: string
  da_port :: int
  da_durationMs :: int
  da_listDevices :: bool
  da_rate :: int
  da_channels :: int
  da_formatDeclared :: bool
  da_controlPort :: int
  da_autostart :: bool
  da_fakeDevices :: string
  da_fakeToneHz :: int
  da_persistKeys :: "string list"

definition default_args :: daemon_args where
  "default_args = \<lparr>da_mode = ''hardware'', da_capturePattern = [], da_captureId = -1, da_playbackPattern = [], da_playbackId = -1,
     da_transport = ''tcp'', da_port = 4533, da_durationMs = 30000, da_listDevices = False, da_rate = 48000, da_channels = 2,
     da_formatDeclared = False, da_controlPort = 8737, da_autostart = False, da_fakeDevices = [], da_fakeToneHz = 0,
     da_persistKeys = []\<rparr>"

definition markPersisted :: "string \<Rightarrow> daemon_args \<Rightarrow> daemon_args" where
  "markPersisted key a = (if key \<in> set (da_persistKeys a) then a else a\<lparr>da_persistKeys := da_persistKeys a @ [key]\<rparr>)"

section \<open>Values\<close>

text \<open>\<open>std::isspace\<close> and \<open>std::isdigit\<close> of the C locale, and the C string of a \<open>std::string\<close>.\<close>

definition isspace :: "char \<Rightarrow> bool" where
  "isspace c \<longleftrightarrow> (let n = of_char c :: nat in n = 32 \<or> (9 \<le> n \<and> n \<le> 13))"

definition isdigit :: "char \<Rightarrow> bool" where
  "isdigit c \<longleftrightarrow> (let n = of_char c :: nat in 48 \<le> n \<and> n \<le> 57)"

definition c_str :: "string \<Rightarrow> string" where
  "c_str s = takeWhile (\<lambda>c. c \<noteq> CHR 0x00) s"

fun decimal :: "int \<Rightarrow> string \<Rightarrow> int" where
  "decimal acc [] = acc"
| "decimal acc (c # cs) = decimal (acc * 10 + int (of_char c - 48)) cs"

text \<open>\<open>strtoll\<close> in base 10: the value, whether it was out of range, and what follows the number.\<close>

definition strtoll :: "string \<Rightarrow> int \<times> bool \<times> string" where
  "strtoll s =
     (let t = dropWhile isspace s;
          (neg, u) = (case t of c # r \<Rightarrow> if c = CHR ''-'' then (True, r) else if c = CHR ''+'' then (False, r) else (False, t)
                      | [] \<Rightarrow> (False, t));
          ds = takeWhile isdigit u; rest = dropWhile isdigit u;
          v = (if neg then - decimal 0 ds else decimal 0 ds)
      in if ds = [] then (0, False, s)
         else if v < - (2 ^ 63) then (- (2 ^ 63), True, rest)
         else if v > 2 ^ 63 - 1 then (2 ^ 63 - 1, True, rest)
         else (v, False, rest))"

definition parseInt :: "string \<Rightarrow> string \<Rightarrow> int \<Rightarrow> int \<Rightarrow> string + int" where
  "parseInt wher txt lo hi =
     (let s = c_str txt; (v, erange, rest) = strtoll s
      in if txt = [] \<or> rest = s \<or> rest \<noteq> [] then Inl (wher @ '' expects an integer, got '' @ quote @ txt @ quote)
         else if erange \<or> v < lo \<or> v > hi
           then Inl (wher @ '' must be in ['' @ int_string lo @ '', '' @ int_string hi @ ''], got '' @ quote @ txt @ quote)
         else Inr v)"

definition parseBool :: "string \<Rightarrow> string \<Rightarrow> string + bool" where
  "parseBool wher txt =
     (if txt = ''true'' \<or> txt = ''yes'' \<or> txt = ''on'' \<or> txt = ''1'' then Inr True
      else if txt = ''false'' \<or> txt = ''no'' \<or> txt = ''off'' \<or> txt = ''0'' then Inr False
      else Inl (wher @ '' expects true or false, got '' @ quote @ txt @ quote))"

section \<open>The settings table\<close>

record setting =
  st_name :: string
  st_apply :: "daemon_args \<Rightarrow> string \<Rightarrow> string \<Rightarrow> string + daemon_args"
  st_kind :: string
  st_lo :: int
  st_hi :: int

definition int_row :: "string \<Rightarrow> (int \<Rightarrow> daemon_args \<Rightarrow> daemon_args) \<Rightarrow> int \<Rightarrow> int \<Rightarrow> setting" where
  "int_row key store lo hi =
     \<lparr>st_name = key, st_apply = (\<lambda>a v w. map_sum id (\<lambda>n. store n a) (parseInt w v lo hi)), st_kind = ''int'', st_lo = lo, st_hi = hi\<rparr>"

definition kSettings :: "setting list" where
  "kSettings =
     [\<lparr>st_name = ''mode'', st_apply = (\<lambda>a v w. Inr (a\<lparr>da_mode := v\<rparr>)), st_kind = ''enum:hardware,capture-probe,control'', st_lo = 0, st_hi = 0\<rparr>,
      \<lparr>st_name = ''capture'', st_apply = (\<lambda>a v w. Inr (a\<lparr>da_capturePattern := v\<rparr>)), st_kind = ''text'', st_lo = 0, st_hi = 0\<rparr>,
      int_row ''capture-id'' (\<lambda>n a. a\<lparr>da_captureId := n\<rparr>) 0 2147483647,
      \<lparr>st_name = ''playback'', st_apply = (\<lambda>a v w. Inr (a\<lparr>da_playbackPattern := v\<rparr>)), st_kind = ''text'', st_lo = 0, st_hi = 0\<rparr>,
      int_row ''playback-id'' (\<lambda>n a. a\<lparr>da_playbackId := n\<rparr>) 0 2147483647,
      \<lparr>st_name = ''transport'', st_apply = (\<lambda>a v w. Inr (a\<lparr>da_transport := v\<rparr>)), st_kind = ''enum:tcp,udp,dual'', st_lo = 0, st_hi = 0\<rparr>,
      int_row ''rate'' (\<lambda>n a. a\<lparr>da_rate := n, da_formatDeclared := True\<rparr>) 8000 192000,
      int_row ''channels'' (\<lambda>n a. a\<lparr>da_channels := n, da_formatDeclared := True\<rparr>) 1 2,
      int_row ''port'' (\<lambda>n a. a\<lparr>da_port := n\<rparr>) 0 65535,
      int_row ''duration-ms'' (\<lambda>n a. a\<lparr>da_durationMs := n\<rparr>) 0 9223372036854775807,
      int_row ''control-port'' (\<lambda>n a. a\<lparr>da_controlPort := n\<rparr>) 0 65535,
      \<lparr>st_name = ''autostart'', st_apply = (\<lambda>a v w. map_sum id (\<lambda>b. a\<lparr>da_autostart := b\<rparr>) (parseBool w v)), st_kind = ''bool'', st_lo = 0, st_hi = 0\<rparr>]"

definition findSetting :: "string \<Rightarrow> setting option" where
  "findSetting name = find (\<lambda>s. name = st_name s) kSettings"

section \<open>The configuration file\<close>

definition config_ws :: "char \<Rightarrow> bool" where
  "config_ws c \<longleftrightarrow> c \<in> {CHR '' '', CHR 9, CHR 13, CHR 10}"

definition trim :: "string \<Rightarrow> string" where
  "trim s = rev (dropWhile config_ws (rev (dropWhile config_ws s)))"

text \<open>What successive calls of \<open>std::getline\<close> give.\<close>

function file_lines :: "string \<Rightarrow> string list" where
  "file_lines s = (if s = [] then [] else takeWhile (\<lambda>c. c \<noteq> CHR 10) s # file_lines (drop 1 (dropWhile (\<lambda>c. c \<noteq> CHR 10) s)))"
  by pat_completeness auto

termination file_lines
proof (relation "measure length")
  fix s :: string
  assume "s \<noteq> []"
  moreover have "length (dropWhile (\<lambda>c. c \<noteq> CHR 10) s) \<le> length s" by (rule length_dropWhile_le)
  ultimately have "length (drop 1 (dropWhile (\<lambda>c. c \<noteq> CHR 10) s)) < length s" by (cases s) simp_all
  then show "(drop 1 (dropWhile (\<lambda>c. c \<noteq> CHR 10) s), s) \<in> measure length" by simp
qed simp

declare file_lines.simps [simp del]

definition load_line :: "string \<Rightarrow> int \<Rightarrow> string \<Rightarrow> daemon_args \<Rightarrow> string + daemon_args" where
  "load_line path lineNo line a =
     (let t = trim line; wher = path @ '':'' @ int_string lineNo
      in if t = [] \<or> hd t = CHR ''#'' then Inr a
         else if CHR ''='' \<notin> set t then Inl (wher @ '': expected 'key = value', got '' @ quote @ t @ quote)
         else
           let key = trim (takeWhile (\<lambda>c. c \<noteq> CHR ''='') t); val = trim (tl (dropWhile (\<lambda>c. c \<noteq> CHR ''='') t))
           in case (if key = [] then None else findSetting key) of
                None \<Rightarrow> Inl (wher @ '': unknown key '' @ quote @ key @ quote)
              | Some s \<Rightarrow> map_sum id (markPersisted key) (st_apply s a val (wher @ '': '' @ key)))"

fun load_lines :: "string \<Rightarrow> int \<Rightarrow> string list \<Rightarrow> daemon_args \<Rightarrow> string + daemon_args" where
  "load_lines path lineNo [] a = Inr a"
| "load_lines path lineNo (l # ls) a =
     (case load_line path lineNo l a of Inl e \<Rightarrow> Inl e | Inr a' \<Rightarrow> load_lines path (lineNo + 1) ls a')"

definition loadConfigFile :: "string \<Rightarrow> string option \<Rightarrow> daemon_args \<Rightarrow> string + daemon_args" where
  "loadConfigFile path contents a =
     (case contents of
        None \<Rightarrow> Inl (''cannot read config file '' @ quote @ path @ quote)
      | Some txt \<Rightarrow> load_lines path 1 (file_lines txt) a)"

text \<open>A file that is not there or cannot be opened (with the text of the error), or its contents.\<close>

datatype file_state = Absent string | Unreadable string | Contents string

definition loadConfigIfPresent :: "string \<Rightarrow> bool \<Rightarrow> file_state \<Rightarrow> daemon_args \<Rightarrow> string + daemon_args" where
  "loadConfigIfPresent path required f a =
     (let cannot = \<lambda>why. Inl (''cannot read config file '' @ quote @ path @ quote @ '': '' @ why)
      in case f of
           Absent why \<Rightarrow> if required then cannot why else Inr a
         | Unreadable why \<Rightarrow> cannot why
         | Contents txt \<Rightarrow> loadConfigFile path (Some txt) a)"

definition settingValue :: "daemon_args \<Rightarrow> string \<Rightarrow> string" where
  "settingValue a key =
     (if key = ''mode'' then da_mode a
      else if key = ''capture'' then da_capturePattern a
      else if key = ''capture-id'' then (if da_captureId a < 0 then [] else int_string (da_captureId a))
      else if key = ''playback'' then da_playbackPattern a
      else if key = ''playback-id'' then (if da_playbackId a < 0 then [] else int_string (da_playbackId a))
      else if key = ''transport'' then da_transport a
      else if key = ''rate'' then int_string (da_rate a)
      else if key = ''channels'' then int_string (da_channels a)
      else if key = ''port'' then int_string (da_port a)
      else if key = ''duration-ms'' then int_string (da_durationMs a)
      else if key = ''control-port'' then int_string (da_controlPort a)
      else if key = ''autostart'' then (if da_autostart a then ''true'' else ''false'')
      else [])"

definition config_banner :: string where
  "config_banner =
     ''# na_audio_daemon configuration '' @ [CHR 0xE2, CHR 0x80, CHR 0x94] @ '' written by the naudio control page.'' @ newline @
     ''# One `key = value` per line; '#' starts a comment. Keys are the command-line flags'' @ newline @
     ''# without their leading dashes, and a flag on the command line still overrides this'' @ newline @
     ''# file. See na_audio_daemon(1).'' @ newline @
     ''#'' @ newline @
     ''# Hand edits survive a rewrite only as VALUES: this file is regenerated whenever the'' @ newline @
     ''# control page saves, so comments added below are lost. Edit here or there, not both.'' @ newline"

definition config_line :: "daemon_args \<Rightarrow> setting \<Rightarrow> string" where
  "config_line a st =
     (let key = st_name st; v = settingValue a key
      in if key \<notin> set (da_persistKeys a) \<or> v = [] \<or> v = settingValue default_args key then [] else key @ '' = '' @ v @ newline)"

definition renderConfigFile :: "daemon_args \<Rightarrow> string" where
  "renderConfigFile a = config_banner @ concat (map (config_line a) kSettings)"


section \<open>The main program\<close>

text \<open>The first pass finds the configuration file, the second applies the flags.\<close>

record cli_pass1 =
  p1_configPath :: string
  p1_noConfig :: bool
  p1_explicitConfig :: bool
  p1_wantHelp :: bool
  p1_openPage :: bool

fun cli_first :: "string list \<Rightarrow> cli_pass1 \<Rightarrow> string + cli_pass1" where
  "cli_first [] p = Inr p"
| "cli_first (arg # rest) p =
     (if arg = ''-h'' \<or> arg = ''--help'' then cli_first rest (p\<lparr>p1_wantHelp := True\<rparr>)
      else if arg = ''--no-config'' then cli_first rest (p\<lparr>p1_noConfig := True\<rparr>)
      else if arg = ''--open-page'' then cli_first rest (p\<lparr>p1_openPage := True\<rparr>)
      else if arg = ''--config'' then
        (case rest of [] \<Rightarrow> Inl ''--config needs a value''
         | path # rest' \<Rightarrow> cli_first rest' (p\<lparr>p1_configPath := path, p1_explicitConfig := True\<rparr>))
      else cli_first rest p)"

text \<open>How a command line ends the program before anything runs: usage asked for, an error, or an option that is not known.\<close>

datatype cli_end = Show_usage | Cli_error string | Unknown_option string

fun cli_second :: "string list \<Rightarrow> daemon_args \<Rightarrow> cli_end + daemon_args" where
  "cli_second [] a = Inr a"
| "cli_second (arg # rest) a =
     (if arg = ''--config'' then (case rest of [] \<Rightarrow> Inl (Cli_error ''--config needs a value'') | _ # rest' \<Rightarrow> cli_second rest' a)
      else if arg = ''--no-config'' \<or> arg = ''--open-page'' then cli_second rest a
      else if arg = ''--list-devices'' then cli_second rest (a\<lparr>da_listDevices := True\<rparr>)
      else if arg = ''--fake-devices'' then
        (case rest of [] \<Rightarrow> Inl (Cli_error ''--fake-devices needs a value'') | v # rest' \<Rightarrow> cli_second rest' (a\<lparr>da_fakeDevices := v\<rparr>))
      else if arg = ''--fake-tone'' then
        (case rest of [] \<Rightarrow> Inl (Cli_error ''--fake-tone needs a value'')
         | v # rest' \<Rightarrow> (case parseInt ''--fake-tone'' v 1 20000 of Inl e \<Rightarrow> Inl (Cli_error e) | Inr hz \<Rightarrow> cli_second rest' (a\<lparr>da_fakeToneHz := hz\<rparr>)))
      else if arg = ''-h'' \<or> arg = ''--help'' then Inl Show_usage
      else case (if take 2 arg = ''--'' then findSetting (drop 2 arg) else None) of
             Some s \<Rightarrow>
               (case rest of [] \<Rightarrow> Inl (Cli_error (arg @ '' needs a value''))
                | v # rest' \<Rightarrow> (case st_apply s a v arg of Inl e \<Rightarrow> Inl (Cli_error e) | Inr a' \<Rightarrow> cli_second rest' a'))
           | None \<Rightarrow> Inl (Unknown_option arg))"

text \<open>The checks of the whole configuration, before any device is touched.\<close>

definition cli_checks :: "bool \<Rightarrow> daemon_args \<Rightarrow> string option" where
  "cli_checks openPage a =
     (if da_rate a mod 50 \<noteq> 0
        then Some (''--rate '' @ int_string (da_rate a) @ '' does not make an exact 20 ms frame (must be divisible by 50)'')
      else if da_transport a \<noteq> ''tcp'' \<and> da_transport a \<noteq> ''udp'' \<and> da_transport a \<noteq> ''dual''
        then Some (''invalid --transport '' @ quote @ da_transport a @ quote @ '' (tcp|udp|dual)'')
      else if openPage \<and> da_mode a \<noteq> ''control''
        then Some (''--open-page needs --mode control (there is no page to open in '' @ quote @ da_mode a @ quote @ '' mode)'')
      else None)"

datatype daemon_run =
    Run_listDevices daemon_args
  | Run_captureProbe daemon_args
  | Run_hardware daemon_args
  | Run_control daemon_args string bool
  | Run_usage int
  | Run_error string

definition daemon_dispatch :: "bool \<Rightarrow> string \<Rightarrow> daemon_args \<Rightarrow> daemon_run" where
  "daemon_dispatch openPage configPath a =
     (case cli_checks openPage a of
        Some e \<Rightarrow> Run_error e
      | None \<Rightarrow>
          if da_listDevices a then Run_listDevices a
          else if da_mode a = ''capture-probe'' then Run_captureProbe a
          else if da_mode a = ''hardware'' then Run_hardware a
          else if da_mode a = ''control'' then Run_control a configPath openPage
          else Run_error (''invalid --mode '' @ quote @ da_mode a @ quote @ '' (capture-probe|hardware|control)''))"

text \<open>\<open>defaultPath\<close> is what \<open>defaultConfigPath\<close> gives on the machine, \<open>fs\<close> what is at a path.\<close>

definition daemon_main :: "string \<Rightarrow> (string \<Rightarrow> file_state) \<Rightarrow> string list \<Rightarrow> daemon_run" where
  "daemon_main defaultPath fs argv =
     (case cli_first argv \<lparr>p1_configPath = [], p1_noConfig = False, p1_explicitConfig = False, p1_wantHelp = False, p1_openPage = False\<rparr> of
        Inl e \<Rightarrow> Run_error e
      | Inr p \<Rightarrow>
          if p1_explicitConfig p \<and> p1_noConfig p then Run_error ''--config and --no-config are mutually exclusive''
          else
            let loaded =
                  (if p1_wantHelp p \<or> p1_noConfig p then Inr (default_args, [])
                   else if p1_explicitConfig p
                     then map_sum id (\<lambda>a. (a, p1_configPath p)) (loadConfigIfPresent (p1_configPath p) True (fs (p1_configPath p)) default_args)
                   else if defaultPath \<noteq> []
                     then map_sum id (\<lambda>a. (a, defaultPath)) (loadConfigIfPresent defaultPath False (fs defaultPath) default_args)
                   else Inr (default_args, []))
            in case loaded of
                 Inl e \<Rightarrow> Run_error e
               | Inr (a, configPath) \<Rightarrow>
                   (case cli_second argv a of
                      Inl Show_usage \<Rightarrow> Run_usage 0
                    | Inl (Cli_error e) \<Rightarrow> Run_error e
                    | Inl (Unknown_option _) \<Rightarrow> Run_usage 2
                    | Inr a' \<Rightarrow> daemon_dispatch (p1_openPage p) configPath a'))"

section \<open>Numbers\<close>

lemma isdigit_digit: "n < 10 \<Longrightarrow> isdigit (digit n)"
  by (simp add: isdigit_def of_char_digit)

lemma to_string_digits: "list_all isdigit (to_string n)"
proof (induction n rule: to_string.induct)
  case (1 n)
  then show ?case by (subst to_string.simps) (simp add: isdigit_digit)
qed

lemma decimal_append: "decimal acc (xs @ ys) = decimal (decimal acc xs) ys"
  by (induction xs arbitrary: acc) simp_all

lemma decimal_to_string: "decimal 0 (to_string n) = int n"
proof (induction n rule: to_string.induct)
  case (1 n)
  show ?case
  proof (cases "n < 10")
    case True
    then show ?thesis by (subst to_string.simps) (simp add: of_char_digit)
  next
    case False
    with 1 have "decimal 0 (to_string (n div 10)) = int (n div 10)" by simp
    then have "decimal 0 (to_string n) = int (n div 10) * 10 + int (n mod 10)"
      using False by (subst to_string.simps) (simp add: decimal_append of_char_digit)
    then show ?thesis by (simp add: zdiv_int zmod_int flip: of_nat_mult)
  qed
qed

lemma isdigit_facts: "isdigit c \<Longrightarrow> \<not> isspace c \<and> c \<noteq> CHR ''-'' \<and> c \<noteq> CHR ''+'' \<and> c \<noteq> CHR 0x00"
  by (auto simp: isdigit_def isspace_def Let_def)

lemma c_str_to_string [simp]: "c_str (to_string n) = to_string n"
  unfolding c_str_def using to_string_digits [of n] isdigit_facts by (auto simp: takeWhile_eq_all_conv list_all_iff)

lemma strtoll_to_string:
  assumes "int n < 2 ^ 63"
  shows "strtoll (to_string n) = (int n, False, [])"
proof -
  obtain c r where cr: "to_string n = c # r" by (cases "to_string n") simp_all
  have ds: "isdigit c" "\<forall>x\<in>set r. isdigit x" using to_string_digits [of n] cr by (simp_all add: list_all_iff)
  have v: "decimal 0 (c # r) = int n" using decimal_to_string [of n] cr by simp
  show ?thesis unfolding strtoll_def cr
    using ds isdigit_facts [OF ds(1)] v assms
    by (simp add: takeWhile_eq_all_conv [THEN iffD2] dropWhile_eq_Nil_conv [THEN iffD2])
qed

lemma parseInt_int_string:
  assumes "0 \<le> n" "lo \<le> n" "n \<le> hi" "n < 2 ^ 63"
  shows "parseInt wher (int_string n) lo hi = Inr n"
  using assms strtoll_to_string [of "nat n"] by (simp add: parseInt_def int_string_def Let_def)

section \<open>Lines\<close>

lemma file_lines_Nil [simp]: "file_lines [] = []"
  by (simp add: file_lines.simps)

lemma file_lines_step: "CHR 10 \<notin> set l \<Longrightarrow> file_lines (l @ newline @ s) = l # file_lines s"
proof -
  assume "CHR 10 \<notin> set l"
  then have "takeWhile (\<lambda>c. c \<noteq> CHR 10) (l @ newline @ s) = l" "dropWhile (\<lambda>c. c \<noteq> CHR 10) (l @ newline @ s) = newline @ s"
    by (induction l) (auto simp: newline_def)
  then show ?thesis by (subst file_lines.simps) (simp add: newline_def)
qed

lemma file_lines_concat: "(\<And>l. l \<in> set ls \<Longrightarrow> CHR 10 \<notin> set l) \<Longrightarrow> file_lines (concat (map (\<lambda>l. l @ newline) ls)) = ls"
  by (induction ls) (simp_all add: file_lines_step)

definition plain :: "string \<Rightarrow> bool" where
  "plain v \<longleftrightarrow> trim v = v \<and> CHR 10 \<notin> set v"

lemma trim_id: "v \<noteq> [] \<Longrightarrow> \<not> config_ws (hd v) \<Longrightarrow> \<not> config_ws (last v) \<Longrightarrow> trim v = v"
  by (simp add: trim_def dropWhile_eq_self_iff [THEN iffD2] hd_rev)

lemma trim_ends: "trim v = v \<Longrightarrow> v \<noteq> [] \<Longrightarrow> \<not> config_ws (hd v) \<and> \<not> config_ws (last v)"
proof -
  assume a: "trim v = v" "v \<noteq> []"
  let ?u = "dropWhile config_ws v"
  have l: "length v \<le> length ?u" using a(1) length_dropWhile_le [of config_ws "rev ?u"] by (simp add: trim_def) (metis length_rev)
  then have u: "?u = v" by (metis append_self_conv2 length_append le_add2 le_antisym length_dropWhile_le list.size(3) takeWhile_dropWhile_id add_le_same_cancel2 le_zero_eq length_0_conv)
  then have r: "rev (dropWhile config_ws (rev v)) = v" using a(1) by (simp add: trim_def)
  have "dropWhile config_ws (rev v) = rev v" using r by (metis rev_rev_ident)
  then show ?thesis using u a(2) by (metis dropWhile_eq_self_iff hd_rev rev_is_Nil_conv)
qed

lemma trim_space_first: "trim v = v \<Longrightarrow> trim (CHR '' '' # v) = v"
  by (cases "v = []") (simp_all add: trim_def config_ws_def)

lemma trim_space_last: "v \<noteq> [] \<Longrightarrow> \<not> config_ws (hd v) \<Longrightarrow> \<not> config_ws (last v) \<Longrightarrow> trim (v @ '' '') = v"
  by (simp add: trim_def dropWhile_eq_self_iff [THEN iffD2] hd_rev) (simp add: config_ws_def)

definition config_key :: "string \<Rightarrow> bool" where
  "config_key k \<longleftrightarrow> k \<noteq> [] \<and> list_all (\<lambda>c. \<not> config_ws c \<and> c \<noteq> CHR ''='' \<and> c \<noteq> CHR ''#'') k"

lemma split_key:
  "CHR ''='' \<notin> set k \<Longrightarrow> takeWhile (\<lambda>c. c \<noteq> CHR ''='') (k @ '' = '' @ v) = k @ '' '' \<and>
    dropWhile (\<lambda>c. c \<noteq> CHR ''='') (k @ '' = '' @ v) = ''= '' @ v"
  by (induction k) auto

lemma load_line_key:
  assumes k: "config_key k" "findSetting k = Some st" and v: "trim v = v" "v \<noteq> []"
  shows "load_line path n (k @ '' = '' @ v) a = map_sum id (markPersisted k) (st_apply st a v (path @ '':'' @ int_string n @ '': '' @ k))"
proof -
  let ?t = "k @ '' = '' @ v"
  have kw: "\<not> config_ws (hd k)" "\<not> config_ws (last k)" "hd k \<noteq> CHR ''#''" "k \<noteq> []" "CHR ''='' \<notin> set k"
    using k(1) by (auto simp: config_key_def list_all_iff)
  have vw: "\<not> config_ws (last v)" using trim_ends [OF v] by simp
  have t: "trim ?t = ?t" by (rule trim_id) (use kw vw v(2) in auto)
  have "hd ?t = hd k" using kw by simp
  then have h: "?t \<noteq> []" "hd ?t \<noteq> CHR ''#''" "CHR ''='' \<in> set ?t" using kw by simp_all
  have e: "trim (takeWhile (\<lambda>c. c \<noteq> CHR ''='') ?t) = k" "trim (tl (dropWhile (\<lambda>c. c \<noteq> CHR ''='') ?t)) = v"
    using split_key [OF kw(5), of v] trim_space_last [OF kw(4,1,2)] trim_space_first [OF v(1)] by simp_all
  show ?thesis unfolding load_line_def Let_def t e using h k(2) kw(4) by simp
qed

lemma dropWhile_snoc: "\<not> P c \<Longrightarrow> \<exists>z. dropWhile P (xs @ [c]) = z @ [c]"
  by (induction xs) auto

lemma load_line_comment: "load_line path n (CHR ''#'' # r) a = Inr a"
proof -
  have ws: "\<not> config_ws (CHR ''#'')" by (simp add: config_ws_def)
  obtain z where "dropWhile config_ws (rev r @ [CHR ''#'']) = z @ [CHR ''#'']" using dropWhile_snoc [where P = config_ws and c = "CHR ''#''" and xs = "rev r"] ws by blast
  then have "trim (CHR ''#'' # r) = CHR ''#'' # rev z" using ws by (simp add: trim_def)
  then show ?thesis by (simp add: load_line_def)
qed

lemma load_lines_comments: "(\<And>l. l \<in> set ls \<Longrightarrow> l \<noteq> [] \<and> hd l = CHR ''#'') \<Longrightarrow> load_lines path n (ls @ ms) a = load_lines path (n + int (length ls)) ms a"
proof (induction ls arbitrary: n)
  case (Cons l ls)
  have "l \<noteq> [] \<and> hd l = CHR ''#''" by (rule Cons.prems) simp
  then obtain r where "l = CHR ''#'' # r" by (cases l) auto
  then show ?case using Cons.IH [of "n + 1"] Cons.prems by (simp add: load_line_comment algebra_simps)
qed simp

section \<open>Writing the file and reading it back\<close>

text \<open>The values that validation admits; the text settings are one line without outer blanks.\<close>

definition args_ok :: "daemon_args \<Rightarrow> bool" where
  "args_ok a \<longleftrightarrow> plain (da_mode a) \<and> plain (da_capturePattern a) \<and> plain (da_playbackPattern a) \<and> plain (da_transport a) \<and>
     da_captureId a \<le> 2147483647 \<and> da_playbackId a \<le> 2147483647 \<and> 8000 \<le> da_rate a \<and> da_rate a \<le> 192000 \<and>
     1 \<le> da_channels a \<and> da_channels a \<le> 2 \<and> 0 \<le> da_port a \<and> da_port a \<le> 65535 \<and>
     0 \<le> da_durationMs a \<and> da_durationMs a \<le> 9223372036854775807 \<and> 0 \<le> da_controlPort a \<and> da_controlPort a \<le> 65535"

text \<open>A setting copied from one set of arguments to another.\<close>

definition copy_setting :: "daemon_args \<Rightarrow> string \<Rightarrow> daemon_args \<Rightarrow> daemon_args" where
  "copy_setting a key b =
     (if key = ''mode'' then b\<lparr>da_mode := da_mode a\<rparr>
      else if key = ''capture'' then b\<lparr>da_capturePattern := da_capturePattern a\<rparr>
      else if key = ''capture-id'' then b\<lparr>da_captureId := da_captureId a\<rparr>
      else if key = ''playback'' then b\<lparr>da_playbackPattern := da_playbackPattern a\<rparr>
      else if key = ''playback-id'' then b\<lparr>da_playbackId := da_playbackId a\<rparr>
      else if key = ''transport'' then b\<lparr>da_transport := da_transport a\<rparr>
      else if key = ''rate'' then b\<lparr>da_rate := da_rate a, da_formatDeclared := True\<rparr>
      else if key = ''channels'' then b\<lparr>da_channels := da_channels a, da_formatDeclared := True\<rparr>
      else if key = ''port'' then b\<lparr>da_port := da_port a\<rparr>
      else if key = ''duration-ms'' then b\<lparr>da_durationMs := da_durationMs a\<rparr>
      else if key = ''control-port'' then b\<lparr>da_controlPort := da_controlPort a\<rparr>
      else if key = ''autostart'' then b\<lparr>da_autostart := da_autostart a\<rparr>
      else b)"

definition kept :: "daemon_args \<Rightarrow> setting \<Rightarrow> bool" where
  "kept a st \<longleftrightarrow> st_name st \<in> set (da_persistKeys a) \<and> settingValue a (st_name st) \<noteq> [] \<and>
     settingValue a (st_name st) \<noteq> settingValue default_args (st_name st)"

lemma kSettings_names:
  "map st_name kSettings = [''mode'', ''capture'', ''capture-id'', ''playback'', ''playback-id'', ''transport'', ''rate'', ''channels'',
     ''port'', ''duration-ms'', ''control-port'', ''autostart'']"
  by (simp add: kSettings_def int_row_def)

lemma distinct_names: "distinct (map st_name kSettings)"
  by (simp add: kSettings_names)

lemma find_in_distinct: "distinct (map f xs) \<Longrightarrow> x \<in> set xs \<Longrightarrow> find (\<lambda>y. f x = f y) xs = Some x"
  by (induction xs) (auto simp: image_iff)

lemma findSetting_kSettings: "st \<in> set kSettings \<Longrightarrow> findSetting (st_name st) = Some st"
  unfolding findSetting_def by (rule find_in_distinct [OF distinct_names])

lemma config_key_names: "st \<in> set kSettings \<Longrightarrow> config_key (st_name st)"
proof -
  assume "st \<in> set kSettings"
  then have "st_name st \<in> set (map st_name kSettings)" by simp
  then show ?thesis unfolding kSettings_names by (auto simp: config_key_def config_ws_def)
qed

lemma to_string_plain: "plain (int_string n)"
proof -
  have d: "\<not> config_ws c \<and> c \<noteq> CHR 10" if "isdigit c" for c using that by (auto simp: isdigit_def config_ws_def Let_def)
  have e: "\<forall>c\<in>set (int_string n). \<not> config_ws c \<and> c \<noteq> CHR 10"
    using to_string_digits d by (auto simp: int_string_def list_all_iff config_ws_def)
  have "int_string n \<noteq> []" by (simp add: int_string_def)
  then show ?thesis using e trim_id [of "int_string n"] by (auto simp: plain_def)
qed

lemma plain_words [simp]: "plain []" "plain ''true''" "plain ''false''"
  by (simp_all add: plain_def trim_def config_ws_def)

lemma plain_if: "plain x \<Longrightarrow> plain y \<Longrightarrow> plain (if c then x else y)"
  by simp

lemma settingValue_plain: "args_ok a \<Longrightarrow> plain (settingValue a key)"
  unfolding settingValue_def args_ok_def by (intro plain_if) (simp_all add: to_string_plain)

lemma apply_settingValue:
  assumes "st \<in> set kSettings" "args_ok a" "settingValue a (st_name st) \<noteq> []"
  shows "st_apply st b (settingValue a (st_name st)) w = Inr (copy_setting a (st_name st) b)"
  using assms unfolding kSettings_def list.set insert_iff empty_iff
  by (elim disjE; simp add: int_row_def settingValue_def copy_setting_def args_ok_def parseInt_int_string parseBool_def split: if_splits)

lemma load_kept_lines:
  assumes "set sts \<subseteq> set kSettings" "\<And>st. st \<in> set sts \<Longrightarrow> settingValue a (st_name st) \<noteq> []" "args_ok a"
  shows "load_lines path n (map (\<lambda>st. st_name st @ '' = '' @ settingValue a (st_name st)) sts) b =
    Inr (fold (\<lambda>st. markPersisted (st_name st) \<circ> copy_setting a (st_name st)) sts b)"
  using assms(1,2)
proof (induction sts arbitrary: n b)
  case (Cons st sts)
  have st: "st \<in> set kSettings" "settingValue a (st_name st) \<noteq> []" using Cons.prems by auto
  have "trim (settingValue a (st_name st)) = settingValue a (st_name st)" using settingValue_plain [OF assms(3)] by (simp add: plain_def)
  then have "load_line path n (st_name st @ '' = '' @ settingValue a (st_name st)) b = Inr (markPersisted (st_name st) (copy_setting a (st_name st) b))"
    using load_line_key [OF config_key_names [OF st(1)] findSetting_kSettings [OF st(1)] _ st(2)] apply_settingValue [OF st(1) assms(3) st(2)] by simp
  then show ?case using Cons.IH [of "n + 1"] Cons.prems by simp
qed simp

definition banner_lines :: "string list" where
  "banner_lines =
     [''# na_audio_daemon configuration '' @ [CHR 0xE2, CHR 0x80, CHR 0x94] @ '' written by the naudio control page.'',
      ''# One `key = value` per line; '#' starts a comment. Keys are the command-line flags'',
      ''# without their leading dashes, and a flag on the command line still overrides this'',
      ''# file. See na_audio_daemon(1).'',
      ''#'',
      ''# Hand edits survive a rewrite only as VALUES: this file is regenerated whenever the'',
      ''# control page saves, so comments added below are lost. Edit here or there, not both.'']"

lemma config_banner_lines: "config_banner = concat (map (\<lambda>l. l @ newline) banner_lines)"
  by (simp add: config_banner_def banner_lines_def)

lemma banner_comments: "l \<in> set banner_lines \<Longrightarrow> l \<noteq> [] \<and> hd l = CHR ''#'' \<and> CHR 10 \<notin> set l"
  by (auto simp: banner_lines_def)

lemma concat_config_lines:
  "concat (map (config_line a) sts) =
     concat (map (\<lambda>l. l @ newline) (map (\<lambda>st. st_name st @ '' = '' @ settingValue a (st_name st)) (filter (kept a) sts)))"
  by (induction sts) (auto simp: config_line_def kept_def Let_def)

lemma render_lines:
  assumes "args_ok a"
  shows "file_lines (renderConfigFile a) = banner_lines @ map (\<lambda>st. st_name st @ '' = '' @ settingValue a (st_name st)) (filter (kept a) kSettings)"
proof -
  let ?ls = "banner_lines @ map (\<lambda>st. st_name st @ '' = '' @ settingValue a (st_name st)) (filter (kept a) kSettings)"
  have "CHR 10 \<notin> set (st_name st)" if "st \<in> set kSettings" for st
    using config_key_names [OF that] by (auto simp: config_key_def config_ws_def list_all_iff)
  then have "CHR 10 \<notin> set l" if "l \<in> set ?ls" for l
    using that banner_comments settingValue_plain [OF assms] by (auto simp: plain_def)
  then show ?thesis
    using file_lines_concat [of ?ls] by (simp add: renderConfigFile_def config_banner_lines concat_config_lines)
qed

lemma settingValue_persist [simp]: "settingValue (markPersisted k a) key = settingValue a key"
  by (simp add: settingValue_def markPersisted_def)

lemma settingValue_copy:
  assumes "k \<in> st_name ` set kSettings" "key \<in> st_name ` set kSettings"
  shows "settingValue (copy_setting a k b) key = (if key = k then settingValue a key else settingValue b key)"
proof -
  have "k \<in> set (map st_name kSettings)" "key \<in> set (map st_name kSettings)" using assms by simp_all
  then show ?thesis unfolding kSettings_names
    by (simp only: set_simps insert_iff empty_iff) (elim disjE; simp add: copy_setting_def settingValue_def)
qed

text \<open>The settings of \<open>a\<close> that the file carries, copied one after the other.\<close>

definition restore :: "daemon_args \<Rightarrow> setting list \<Rightarrow> daemon_args \<Rightarrow> daemon_args" where
  "restore a sts = fold (\<lambda>st. markPersisted (st_name st) \<circ> copy_setting a (st_name st)) sts"

lemma restore_simps [simp]:
  "restore a [] b = b"
  "restore a (st # sts) b = restore a sts (markPersisted (st_name st) (copy_setting a (st_name st) b))"
  by (simp_all add: restore_def)

lemma reload_restores:
  assumes "args_ok a"
  shows "loadConfigFile path (Some (renderConfigFile a)) b = Inr (restore a (filter (kept a) kSettings) b)"
proof -
  have "load_lines path (1 + int (length banner_lines)) (map (\<lambda>st. st_name st @ '' = '' @ settingValue a (st_name st)) (filter (kept a) kSettings)) b =
    Inr (restore a (filter (kept a) kSettings) b)"
    unfolding restore_def by (rule load_kept_lines) (use assms in \<open>auto simp: kept_def\<close>)
  then show ?thesis using load_lines_comments [of banner_lines] banner_comments by (simp add: loadConfigFile_def render_lines [OF assms])
qed

lemma restore_values:
  assumes "set sts \<subseteq> set kSettings" "key \<in> st_name ` set kSettings"
  shows "settingValue (restore a sts b) key = (if key \<in> st_name ` set sts then settingValue a key else settingValue b key)"
  using assms(1)
proof (induction sts arbitrary: b)
  case (Cons st sts)
  then show ?case using settingValue_copy [of "st_name st" key a b] assms(2) by auto
qed simp

lemma copy_fields:
  "da_persistKeys (copy_setting a k b) = da_persistKeys b"
  "da_formatDeclared (copy_setting a k b) \<longleftrightarrow> da_formatDeclared b \<or> k = ''rate'' \<or> k = ''channels''"
  by (simp_all add: copy_setting_def)

lemma persist_fields:
  "set (da_persistKeys (markPersisted k b)) = insert k (set (da_persistKeys b))"
  "da_formatDeclared (markPersisted k b) = da_formatDeclared b"
  by (auto simp: markPersisted_def)

lemma restore_fields:
  "set (da_persistKeys (restore a sts b)) = set (da_persistKeys b) \<union> st_name ` set sts"
  "da_formatDeclared (restore a sts b) \<longleftrightarrow> da_formatDeclared b \<or> ''rate'' \<in> st_name ` set sts \<or> ''channels'' \<in> st_name ` set sts"
  by (induction sts arbitrary: b) (auto simp: copy_fields persist_fields)

section \<open>Properties\<close>

text \<open>
  C30: what the control page writes is what the next start reads. For arguments that validation admits and whose text settings are
  one line without outer blanks, reading back the rendered file succeeds; every setting that belongs in the file and is not empty
  has its value again, every other one its default, and the keys the file carries are exactly those whose value differs from the default.
\<close>

theorem saved_config_reloads:
  assumes "args_ok a"
  shows "\<exists>b. loadConfigFile path (Some (renderConfigFile a)) default_args = Inr b \<and>
    list_all (\<lambda>key. settingValue b key =
      (if key \<in> set (da_persistKeys a) \<and> settingValue a key \<noteq> [] then settingValue a key else settingValue default_args key)) (map st_name kSettings) \<and>
    set (da_persistKeys b) = st_name ` set (filter (kept a) kSettings)"
proof (intro exI conjI)
  let ?b = "restore a (filter (kept a) kSettings) default_args"
  show "loadConfigFile path (Some (renderConfigFile a)) default_args = Inr ?b" by (rule reload_restores [OF assms])
  have "settingValue ?b (st_name st) = (if st_name st \<in> set (da_persistKeys a) \<and> settingValue a (st_name st) \<noteq> [] then settingValue a (st_name st)
    else settingValue default_args (st_name st))" if "st \<in> set kSettings" for st
  proof -
    have "st_name st \<in> st_name ` set (filter (kept a) kSettings) \<longleftrightarrow> kept a st" using that by (auto simp: kept_def)
    then show ?thesis using restore_values [of "filter (kept a) kSettings" "st_name st" a default_args] that by (auto simp: kept_def)
  qed
  then show "list_all (\<lambda>key. settingValue ?b key = (if key \<in> set (da_persistKeys a) \<and> settingValue a key \<noteq> [] then settingValue a key
    else settingValue default_args key)) (map st_name kSettings)" by (simp add: list_all_iff)
  show "set (da_persistKeys ?b) = st_name ` set (filter (kept a) kSettings)" by (simp add: restore_fields default_args_def)
qed

definition demo_args :: daemon_args where
  "demo_args = default_args\<lparr>da_capturePattern := ''USB Audio'', da_rate := 44100, da_formatDeclared := True, da_port := 5000,
     da_persistKeys := [''port'', ''capture'', ''rate'']\<rparr>"

lemma demo_args_ok: "args_ok demo_args"
  by (simp add: args_ok_def demo_args_def default_args_def plain_def trim_def config_ws_def)

theorem saved_config_reloads_witness:
  "\<exists>b. loadConfigFile ''f'' (Some (renderConfigFile demo_args)) default_args = Inr b \<and> settingValue b ''port'' = ''5000'' \<and>
    settingValue b ''capture'' = ''USB Audio'' \<and> settingValue b ''rate'' = ''44100''"
proof -
  obtain b where b: "loadConfigFile ''f'' (Some (renderConfigFile demo_args)) default_args = Inr b"
    "list_all (\<lambda>key. settingValue b key = (if key \<in> set (da_persistKeys demo_args) \<and> settingValue demo_args key \<noteq> [] then settingValue demo_args key
      else settingValue default_args key)) (map st_name kSettings)"
    using saved_config_reloads [OF demo_args_ok] by blast
  have v: "settingValue demo_args ''port'' = ''5000''" "settingValue demo_args ''capture'' = ''USB Audio''" "settingValue demo_args ''rate'' = ''44100''"
    by (simp_all add: settingValue_def demo_args_def int_string_def to_string.simps digit_def char_of_def bit_0)
  from b(2) have "settingValue b ''port'' = ''5000''" "settingValue b ''capture'' = ''USB Audio''" "settingValue b ''rate'' = ''44100''"
    unfolding kSettings_names by (simp_all only: list.pred_inject v) (simp_all add: demo_args_def)
  then show ?thesis using b(1) by blast
qed

text \<open>
  Saving undoes the declaration of a format. Arguments that declare the default format (a file that says \<open>rate = 48000\<close>, say) carry the
  flag that refuses a device with another format; the rendered file drops settings at their default, so after the next start the
  flag is off, whatever else was saved.
\<close>

theorem format_declaration_lost:
  assumes "args_ok a" "da_rate a = 48000" "da_channels a = 2"
  shows "map_sum id da_formatDeclared (loadConfigFile path (Some (renderConfigFile a)) default_args) = Inr False"
proof -
  have "settingValue a ''rate'' = settingValue default_args ''rate''" "settingValue a ''channels'' = settingValue default_args ''channels''"
    using assms by (simp_all add: settingValue_def default_args_def)
  then have "''rate'' \<notin> st_name ` set (filter (kept a) kSettings)" "''channels'' \<notin> st_name ` set (filter (kept a) kSettings)"
    unfolding kept_def by force+
  then show ?thesis using reload_restores [OF assms(1)] by (simp add: restore_fields default_args_def)
qed

definition declared_args :: daemon_args where
  "declared_args = default_args\<lparr>da_formatDeclared := True, da_persistKeys := [''rate'']\<rparr>"

theorem format_declaration_lost_witness:
  "loadConfigFile ''f'' (Some (''rate = 48000'' @ newline)) default_args = Inr declared_args \<and> da_formatDeclared declared_args \<and>
   map_sum id da_formatDeclared (loadConfigFile ''f'' (Some (renderConfigFile declared_args)) default_args) = Inr False"
proof -
  have ok: "args_ok declared_args" "da_rate declared_args = 48000" "da_channels declared_args = 2" "da_formatDeclared declared_args"
    by (simp_all add: args_ok_def declared_args_def default_args_def plain_def trim_def config_ws_def)
  have fl: "file_lines (''rate = 48000'' @ newline) = [''rate'' @ '' = '' @ ''48000'']"
    using file_lines_step [of "''rate = 48000''" "[]"] by simp
  have "load_line ''f'' 1 (''rate'' @ '' = '' @ ''48000'') default_args = Inr declared_args"
    by (simp add: load_line_def trim_def config_ws_def findSetting_def kSettings_def int_row_def parseInt_def c_str_def strtoll_def isspace_def
        isdigit_def markPersisted_def declared_args_def default_args_def)
  then show ?thesis unfolding loadConfigFile_def option.case fl using ok format_declaration_lost [OF ok(1-3), of "''f''"]
    by (simp add: loadConfigFile_def)
qed

end
