(* ===== verification/Control_Page.thy ===== *)
theory Control_Page
  imports Daemon_Config
begin

text \<open>
  The control page of the daemon (\<open>tools/na_audio_daemon.cpp\<close>): the JSON escaper and the strict parser of flat objects, the HTTP
  request reader, the three defences against other web pages, the routing, the endpoints that change something, and the worker threads that
  serve the connections. A request is served in sections, each of which touches the shared state once, and the sections of
  different workers interleave. A socket is the list of what its reads give, an empty read being an error, a timeout or the end; the texts of
  the read-only endpoints, the faults of writing the file and the way a run ends are an environment of every section. The cached
  device list of \<open>/api/devices\<close> is not part of the state.
\<close>

section \<open>JSON\<close>

abbreviation dquote :: char where "dquote \<equiv> CHR 0x22"
abbreviation backslash :: char where "backslash \<equiv> CHR 0x5C"

definition hex_digit :: "nat \<Rightarrow> char" where
  "hex_digit n = (if n < 10 then digit n else char_of (87 + n))"

definition json_char :: "char \<Rightarrow> string" where
  "json_char c =
     (if c = dquote then [backslash, dquote]
      else if c = backslash then [backslash, backslash]
      else if c = CHR 10 then [backslash, CHR ''n'']
      else if c = CHR 13 then [backslash, CHR ''r'']
      else if c = CHR 9 then [backslash, CHR ''t'']
      else if of_char c < (32 :: nat)
        then [backslash, CHR ''u'', CHR ''0'', CHR ''0'', hex_digit (of_char c div 16), hex_digit (of_char c mod 16)]
      else [c])"

definition jsonEscape :: "string \<Rightarrow> string" where
  "jsonEscape s = concat (map json_char s)"

definition jstr :: "string \<Rightarrow> string" where
  "jstr v = [dquote] @ jsonEscape v @ [dquote]"

definition hex_value :: "char \<Rightarrow> nat option" where
  "hex_value h =
     (let n = of_char h
      in if 48 \<le> n \<and> n \<le> 57 then Some (n - 48)
         else if 97 \<le> n \<and> n \<le> 102 then Some (n - 87)
         else if 65 \<le> n \<and> n \<le> 70 then Some (n - 55)
         else None)"

fun hex_code :: "nat \<Rightarrow> string \<Rightarrow> nat option" where
  "hex_code code [] = Some code"
| "hex_code code (h # hs) = (case hex_value h of None \<Rightarrow> None | Some d \<Rightarrow> hex_code (code * 16 + d) hs)"

text \<open>The escapes other than \<open>u\<close>.\<close>

definition short_escape :: "char \<Rightarrow> char option" where
  "short_escape e =
     (if e = dquote then Some dquote else if e = backslash then Some backslash else if e = CHR ''/'' then Some (CHR ''/'')
      else if e = CHR ''b'' then Some (CHR 8) else if e = CHR ''f'' then Some (CHR 12) else if e = CHR ''n'' then Some (CHR 10)
      else if e = CHR ''r'' then Some (CHR 13) else if e = CHR ''t'' then Some (CHR 9) else None)"

text \<open>The body of a string after its opening quote: the value and what follows the closing quote.\<close>

function json_chars :: "string \<Rightarrow> string \<Rightarrow> string + (string \<times> string)" where
  "json_chars v [] = Inl ''unterminated string''"
| "json_chars v (c # r) =
     (if c = dquote then Inr (v, r)
      else if c \<noteq> backslash then json_chars (v @ [c]) r
      else case r of
             [] \<Rightarrow> Inl ''unterminated string''
           | e # r' \<Rightarrow>
               (case short_escape e of
                  Some x \<Rightarrow> json_chars (v @ [x]) r'
                | None \<Rightarrow>
                    if e = CHR ''u'' then
                      if length r' < 4 then Inl (''truncated '' @ [backslash] @ ''u escape'')
                      else case hex_code 0 (take 4 r') of
                             None \<Rightarrow> Inl (''bad '' @ [backslash] @ ''u escape'')
                           | Some code \<Rightarrow>
                               if code = 0 \<or> code > 127 then Inl (''only ASCII '' @ [backslash] @ ''u escapes are accepted'')
                               else json_chars (v @ [char_of code]) (drop 4 r')
                    else Inl (''unknown escape '' @ quote @ [backslash, e] @ quote)))"
  by pat_completeness auto

termination json_chars
  by (relation "measure (\<lambda>(v, s). length s)") auto

text \<open>\<open>parseString\<close> at the rest \<open>s\<close> of a text of \<open>n\<close> bytes.\<close>

definition json_string :: "nat \<Rightarrow> string \<Rightarrow> string + (string \<times> string)" where
  "json_string n s =
     (case s of
        c # r \<Rightarrow> if c = dquote then json_chars [] r else Inl (''expected a string at byte '' @ to_string (n - length s))
      | [] \<Rightarrow> Inl (''expected a string at byte '' @ to_string n))"

abbreviation skipWs :: "string \<Rightarrow> string" where
  "skipWs \<equiv> dropWhile isspace"

text \<open>One member: its key and value, and the rest after the blanks that follow it.\<close>

definition json_member :: "nat \<Rightarrow> string \<Rightarrow> string + ((string \<times> string) \<times> string)" where
  "json_member n s =
     (case json_string n (skipWs s) of
        Inl e \<Rightarrow> Inl e
      | Inr (k, s2) \<Rightarrow>
          (case skipWs s2 of
             c # s3 \<Rightarrow>
               if c = CHR '':'' then
                 (case json_string n (skipWs s3) of
                    Inl e \<Rightarrow> Inl (''value for '' @ quote @ k @ quote @ '' must be a string ('' @ e @ '')'')
                  | Inr (v, s4) \<Rightarrow> Inr ((k, v), skipWs s4))
               else Inl (''expected ':' after key '' @ quote @ k @ quote)
           | [] \<Rightarrow> Inl (''expected ':' after key '' @ quote @ k @ quote)))"

lemma json_chars_shorter: "json_chars v s = Inr (w, r) \<Longrightarrow> length r < length s"
proof (induction v s rule: json_chars.induct)
  case (2 v c r0)
  show ?case
  proof (cases "c = dquote \<or> c \<noteq> backslash \<or> r0 = []")
    case True
    then show ?thesis using 2 by (auto split: if_splits)
  next
    case False
    then obtain e r' where r0: "r0 = e # r'" by (cases r0) auto
    show ?thesis
    proof (cases "short_escape e")
      case (Some x)
      then show ?thesis using 2 False r0 by fastforce
    next
      case None
      then obtain code where code: "\<not> length r' < 4" "hex_code 0 (take 4 r') = Some code" "json_chars (v @ [char_of code]) (drop 4 r') = Inr (w, r)"
        "e = CHR ''u''" "\<not> (code = 0 \<or> code > 127)" using 2(4) False r0 by (auto split: if_splits option.splits)
      have "length r < length (drop 4 r')" by (rule 2(2) [OF _ _ r0 None code(4,1,2,5,3)]) (use False in auto)
      then show ?thesis using r0 by simp
    qed
  qed
qed simp

lemma json_string_shorter: "json_string n s = Inr (w, r) \<Longrightarrow> length r < length s"
  by (auto simp: json_string_def dest: json_chars_shorter split: list.splits if_splits)

lemma json_member_shorter: "json_member n s = Inr (kv, r) \<Longrightarrow> length r < length s"
proof -
  assume "json_member n s = Inr (kv, r)"
  then obtain k s2 s3 v s4 where m: "json_string n (skipWs s) = Inr (k, s2)" "skipWs s2 = CHR '':'' # s3" "json_string n (skipWs s3) = Inr (v, s4)"
    "r = skipWs s4" by (auto simp: json_member_def split: sum.splits list.splits if_splits)
  have "length s2 < length (skipWs s)" "length s4 < length (skipWs s3)" using m json_string_shorter by blast+
  moreover have "length (skipWs s) \<le> length s" "length (skipWs s2) \<le> length s2" "length (skipWs s3) \<le> length s3" "length r \<le> length s4"
    using m(4) by (simp_all add: length_dropWhile_le)
  ultimately show ?thesis using m(2) by simp
qed

function json_members :: "nat \<Rightarrow> (string \<times> string) list \<Rightarrow> string \<Rightarrow> string + (string \<times> string) list" where
  "json_members n out s =
     (case json_member n s of
        Inl e \<Rightarrow> Inl e
      | Inr (kv, r) \<Rightarrow>
          (case r of
             c # r' \<Rightarrow>
               if c = CHR '','' then json_members n (out @ [kv]) r'
               else if c = CHR 0x7D then (if skipWs r' = [] then Inr (out @ [kv]) else Inl ''trailing bytes after the object'')
               else Inl (''expected ',' or '' @ quote @ [CHR 0x7D] @ quote)
           | [] \<Rightarrow> Inl (''expected ',' or '' @ quote @ [CHR 0x7D] @ quote)))"
  by pat_completeness auto

termination json_members
  by (relation "measure (\<lambda>(n, out, s). length s)") (auto dest: json_member_shorter)

declare json_members.simps [simp del]

text \<open>The empty object ends the parser at once, with whatever follows it.\<close>

definition parseFlatJsonObject :: "string \<Rightarrow> string + (string \<times> string) list" where
  "parseFlatJsonObject body =
     (case skipWs body of
        c # r \<Rightarrow>
          if c = CHR 0x7B then (case skipWs r of c' # _ \<Rightarrow> if c' = CHR 0x7D then Inr [] else json_members (length body) [] r | [] \<Rightarrow> json_members (length body) [] r)
          else Inl ''body is not a JSON object''
      | [] \<Rightarrow> Inl ''body is not a JSON object'')"

section \<open>HTTP\<close>

record http_request =
  hq_method :: string
  hq_target :: string
  hq_body :: string
  hq_host :: string
  hq_origin :: string
  hq_contentType :: string

definition kMaxHead :: nat where "kMaxHead = 8 * 1024"
definition kMaxBody :: nat where "kMaxBody = 64 * 1024"

abbreviation crlf :: string where "crlf \<equiv> [CHR 13, CHR 10]"

text \<open>\<open>std::string::find\<close>.\<close>

fun find_sub :: "string \<Rightarrow> string \<Rightarrow> nat option" where
  "find_sub needle [] = (if needle = [] then Some 0 else None)"
| "find_sub needle (c # s) = (if take (length needle) (c # s) = needle then Some 0 else map_option Suc (find_sub needle s))"

text \<open>Reading up to the end of the head: the buffer, the position of the end, and the reads that are left.\<close>

fun read_head :: "string \<Rightarrow> string list \<Rightarrow> (string \<times> nat \<times> string list) option" where
  "read_head buf [] = None"
| "read_head buf (chunk # later) =
     (if length buf > kMaxHead \<or> chunk = [] then None
      else case find_sub (crlf @ crlf) (buf @ chunk) of
             Some headEnd \<Rightarrow> Some (buf @ chunk, headEnd, later)
           | None \<Rightarrow> read_head (buf @ chunk) later)"

text \<open>The lines of the head after the request line.\<close>

function header_lines :: "string \<Rightarrow> string list" where
  "header_lines s =
     (if s = [] then []
      else case find_sub crlf s of Some e \<Rightarrow> take e s # header_lines (drop (e + 2) s) | None \<Rightarrow> [s])"
  by pat_completeness auto

termination header_lines
  by (relation "measure length") auto

declare header_lines.simps [simp del]

definition header_value :: "string \<Rightarrow> string" where
  "header_value v =
     rev (dropWhile (\<lambda>c. c = CHR '' '' \<or> c = CHR 13) (rev (dropWhile (\<lambda>c. c = CHR '' '' \<or> c = CHR 9) v)))"

text \<open>One header line; \<open>None\<close> is a content length that is refused.\<close>

definition header_step :: "string \<Rightarrow> http_request \<times> nat \<Rightarrow> (http_request \<times> nat) option" where
  "header_step line acc =
     (let (req, contentLength) = acc
      in if CHR '':'' \<notin> set line then Some acc
         else
           let name = toLower (takeWhile (\<lambda>c. c \<noteq> CHR '':'') line); val = header_value (tl (dropWhile (\<lambda>c. c \<noteq> CHR '':'') line))
           in if name = ''host'' then Some (req\<lparr>hq_host := val\<rparr>, contentLength)
              else if name = ''origin'' then Some (req\<lparr>hq_origin := val\<rparr>, contentLength)
              else if name = ''content-type'' then Some (req\<lparr>hq_contentType := val\<rparr>, contentLength)
              else if name = ''content-length'' then
                (case parseInt ''content-length'' val 0 (int kMaxBody) of Inl _ \<Rightarrow> None | Inr n \<Rightarrow> Some (req, nat n))
              else Some acc)"

fun header_steps :: "string list \<Rightarrow> http_request \<times> nat \<Rightarrow> (http_request \<times> nat) option" where
  "header_steps [] acc = Some acc"
| "header_steps (l # ls) acc = (case header_step l acc of None \<Rightarrow> None | Some acc' \<Rightarrow> header_steps ls acc')"

fun read_body :: "nat \<Rightarrow> string \<Rightarrow> string list \<Rightarrow> string option" where
  "read_body contentLength body [] = (if length body < contentLength then None else Some (take contentLength body))"
| "read_body contentLength body (chunk # later) =
     (if length body \<ge> contentLength then Some (take contentLength body)
      else if chunk = [] \<or> length (body @ chunk) > kMaxBody then None
      else read_body contentLength (body @ chunk) later)"

definition request_line :: "string \<Rightarrow> (string \<times> string) option" where
  "request_line line =
     (if CHR '' '' \<notin> set line then None
      else let rest = tl (dropWhile (\<lambda>c. c \<noteq> CHR '' '') line)
           in if CHR '' '' \<notin> set rest then None
              else Some (takeWhile (\<lambda>c. c \<noteq> CHR '' '') line, takeWhile (\<lambda>c. c \<noteq> CHR '' '') rest))"

definition readRequest :: "string list \<Rightarrow> http_request option" where
  "readRequest chunks =
     (case read_head [] chunks of
        None \<Rightarrow> None
      | Some (buf, headEnd, later) \<Rightarrow>
          let head = take headEnd buf;
              lineEnd = (case find_sub crlf head of Some e \<Rightarrow> e | None \<Rightarrow> length head)
          in case request_line (take lineEnd head) of
               None \<Rightarrow> None
             | Some (m, t) \<Rightarrow>
                 (case header_steps (header_lines (drop (lineEnd + 2) head))
                         (\<lparr>hq_method = m, hq_target = t, hq_body = [], hq_host = [], hq_origin = [], hq_contentType = []\<rparr>, 0) of
                    None \<Rightarrow> None
                  | Some (req, contentLength) \<Rightarrow>
                      map_option (\<lambda>b. req\<lparr>hq_body := b\<rparr>) (read_body contentLength (drop (headEnd + 4) buf) later)))"

section \<open>The pipeline\<close>

text \<open>At most one run at a time: the arguments of its thread while it can be joined, the flags, and the state and error of the live status.\<close>

record pipeline =
  pl_running :: bool
  pl_thread :: "daemon_args option"
  pl_stop :: bool
  pl_state :: string
  pl_error :: string

definition pipeline_start :: "daemon_args \<Rightarrow> pipeline \<Rightarrow> string + pipeline" where
  "pipeline_start a p =
     (if pl_running p then Inl ''already streaming''
      else Inr \<lparr>pl_running = True, pl_thread = Some (a\<lparr>da_mode := ''hardware'', da_durationMs := 0\<rparr>), pl_stop = False,
                pl_state = ''starting'', pl_error = []\<rparr>)"

text \<open>The end of the run thread with status \<open>rc\<close>.\<close>

definition pipeline_finished :: "int \<Rightarrow> pipeline \<Rightarrow> pipeline" where
  "pipeline_finished rc p =
     (let err = (if rc \<noteq> 0 \<and> pl_error p = [] then ''the pipeline exited with status '' @ int_string rc else pl_error p)
      in p\<lparr>pl_error := err, pl_state := (if err = [] then ''idle'' else ''error''), pl_running := False\<rparr>)"

text \<open>\<open>stop\<close> joins the thread under the lock of the pipeline; \<open>rc\<close> is the status a run that is still going ends with.\<close>

definition pipeline_stop :: "int \<Rightarrow> pipeline \<Rightarrow> pipeline" where
  "pipeline_stop rc p =
     (case pl_thread p of
        None \<Rightarrow> p\<lparr>pl_running := False\<rparr>
      | Some _ \<Rightarrow>
          let p = p\<lparr>pl_state := (if pl_state p = ''running'' \<or> pl_state p = ''starting'' then ''stopping'' else pl_state p), pl_stop := True\<rparr>
          in ((if pl_running p then pipeline_finished rc p else p)\<lparr>pl_thread := None, pl_running := False\<rparr>))"

text \<open>While it goes on, the run sets the state and the error of the live status; it may also end by itself.\<close>

definition pipeline_report :: "string \<Rightarrow> string \<Rightarrow> pipeline \<Rightarrow> pipeline" where
  "pipeline_report st err p = (if pl_running p \<and> pl_thread p \<noteq> None then p\<lparr>pl_state := st, pl_error := err\<rparr> else p)"

definition pipeline_ended :: "int \<Rightarrow> pipeline \<Rightarrow> pipeline" where
  "pipeline_ended rc p = (if pl_running p \<and> pl_thread p \<noteq> None then pipeline_finished rc p else p)"

section \<open>The server\<close>

record control_server =
  cv_settings :: daemon_args
  cv_configPath :: string
  cv_port :: int
  cv_pipeline :: pipeline
  cv_file :: "string option"
  cv_temp :: "string option"
  cv_quit :: bool

text \<open>
  \<open>cv_file\<close> is what is at the path of the configuration file, \<open>cv_temp\<close> at that of the temporary, which all saves share, and \<open>cv_quit\<close> the
  process-wide stop flag. The environment has the texts of the two static pages and of the read-only endpoints, whether the
  platform is Windows, the fault of writing the file if there is one, the text of a system error, the status of a run that is stopped,
  and whether the platform has a pane for login items and could open it. A fault before the temporary is complete says what is left of it.
\<close>

datatype write_fault = Temp_fault string "string option" | Rename_fault string

record control_env =
  ce_page :: string
  ce_script :: string
  ce_state :: string
  ce_devices :: "string + string"
  ce_live :: string
  ce_windows :: bool
  ce_write :: "write_fault option"
  ce_errno :: string
  ce_rc :: int
  ce_loginItems :: "bool option"

record http_response =
  hr_status :: int
  hr_reason :: string
  hr_contentType :: string
  hr_body :: string

definition sendResponse :: "http_response \<Rightarrow> string" where
  "sendResponse r =
     ''HTTP/1.1 '' @ int_string (hr_status r) @ '' '' @ hr_reason r @ crlf @
     ''Content-Type: '' @ hr_contentType r @ crlf @
     ''Content-Length: '' @ to_string (length (hr_body r)) @ crlf @
     ''Connection: close'' @ crlf @
     ''Content-Security-Policy: default-src 'none'; script-src 'self'; style-src 'self' 'unsafe-inline'; connect-src 'self'; img-src 'self' data:; '' @
     ''frame-ancestors 'none'; base-uri 'none'; form-action '' @ quote @ ''none'' @ quote @ crlf @
     ''X-Content-Type-Options: nosniff'' @ crlf @
     ''Cache-Control: no-store'' @ crlf @
     ''Referrer-Policy: no-referrer'' @ crlf @ crlf @ hr_body r"

definition sendJson :: "int \<Rightarrow> string \<Rightarrow> string \<Rightarrow> http_response" where
  "sendJson status reason json =
     \<lparr>hr_status = status, hr_reason = reason, hr_contentType = ''application/json; charset=utf-8'', hr_body = json\<rparr>"

definition json_field :: "string \<Rightarrow> string" where
  "json_field name = [dquote] @ name @ [dquote, CHR '':'']"

definition sendError :: "int \<Rightarrow> string \<Rightarrow> string \<Rightarrow> http_response" where
  "sendError status reason msg = sendJson status reason ([CHR 0x7B] @ json_field ''error'' @ jstr msg @ [CHR 0x7D])"

definition host_ok :: "int \<Rightarrow> string \<Rightarrow> bool" where
  "host_ok port host \<longleftrightarrow> host = ''127.0.0.1:'' @ int_string port \<or> host = ''localhost:'' @ int_string port"

definition origin_ok :: "int \<Rightarrow> string \<Rightarrow> bool" where
  "origin_ok port orig \<longleftrightarrow> orig = [] \<or> orig = ''http://127.0.0.1:'' @ int_string port \<or> orig = ''http://localhost:'' @ int_string port"

definition json_typed :: "http_request \<Rightarrow> bool" where
  "json_typed req \<longleftrightarrow> take 16 (toLower (hq_contentType req)) = ''application/json''"

definition authorize :: "int \<Rightarrow> http_request \<Rightarrow> http_response option" where
  "authorize port req =
     (if \<not> host_ok port (hq_host req)
        then Some (sendError 421 ''Misdirected Request''
          (''this page is served on 127.0.0.1 only; the request named host '' @ quote @ hq_host req @ quote))
      else if \<not> origin_ok port (hq_origin req) then Some (sendError 403 ''Forbidden'' ''cross-origin request refused'')
      else if hq_method req \<noteq> ''GET'' \<and> \<not> json_typed req
        then Some (sendError 415 ''Unsupported Media Type'' ''this endpoint accepts application/json only'')
      else None)"

text \<open>The settings of a request body applied to a copy.\<close>

fun candidate_of :: "(string \<times> string) list \<Rightarrow> daemon_args \<Rightarrow> string + daemon_args" where
  "candidate_of [] a = Inr a"
| "candidate_of ((key, val) # kvs) a =
     (case findSetting key of
        None \<Rightarrow> Inl (''unknown setting '' @ quote @ key @ quote)
      | Some st \<Rightarrow>
          if val = [] \<and> key = ''capture-id'' then candidate_of kvs (a\<lparr>da_captureId := -1\<rparr>)
          else if val = [] \<and> key = ''playback-id'' then candidate_of kvs (a\<lparr>da_playbackId := -1\<rparr>)
          else case st_apply st a val (''--'' @ key) of
                 Inl e \<Rightarrow> Inl e
               | Inr a' \<Rightarrow> candidate_of kvs (markPersisted key a'))"

definition candidate_problem :: "daemon_args \<Rightarrow> string option" where
  "candidate_problem a =
     (if da_rate a mod 50 \<noteq> 0 then Some (''rate '' @ int_string (da_rate a) @ '' does not make an exact 20 ms frame (must be divisible by 50)'')
      else if da_transport a \<noteq> ''tcp'' \<and> da_transport a \<noteq> ''udp'' \<and> da_transport a \<noteq> ''dual''
        then Some (''invalid transport '' @ quote @ da_transport a @ quote @ '' (tcp|udp|dual)'')
      else None)"

definition bool_word :: "bool \<Rightarrow> string" where
  "bool_word b = (if b then ''true'' else ''false'')"

text \<open>What a worker has left to do of a request: the next section of its code, down to the answer.\<close>

datatype work =
    W_temp daemon_args
  | W_remove daemon_args
  | W_rename daemon_args
  | W_store daemon_args
  | W_saved
  | W_stop string
  | W_copy
  | W_start daemon_args
  | W_streaming
  | W_flag http_response
  | W_answered http_response

text \<open>Up to the write of the file: the settings are copied under their lock and the copy is changed and checked.\<close>

definition postConfig :: "http_request \<Rightarrow> control_server \<Rightarrow> work" where
  "postConfig req s =
     (case parseFlatJsonObject (hq_body req) of
        Inl err \<Rightarrow> W_answered (sendError 400 ''Bad Request'' (''malformed request body: '' @ err))
      | Inr kvs \<Rightarrow>
          (case candidate_of kvs (cv_settings s) of
             Inl err \<Rightarrow> W_answered (sendError 400 ''Bad Request'' err)
           | Inr candidate \<Rightarrow>
               (case candidate_problem candidate of
                  Some err \<Rightarrow> W_answered (sendError 400 ''Bad Request'' err)
                | None \<Rightarrow>
                    if cv_configPath s = [] then
                      W_answered (sendError 409 ''Conflict''
                        ''there is no config-file location on this machine (HOME is not set), so settings cannot be saved'')
                    else W_temp candidate)))"

text \<open>\<open>writeConfigFile\<close>: the temporary, the removal of the old file on Windows, and the renaming, which only replaces a file elsewhere.\<close>

definition write_temp :: "control_env \<Rightarrow> daemon_args \<Rightarrow> control_server \<Rightarrow> work \<times> control_server" where
  "write_temp e candidate s =
     (case ce_write e of
        Some (Temp_fault err left) \<Rightarrow> (W_answered (sendError 500 ''Internal Server Error'' err), s\<lparr>cv_temp := left\<rparr>)
      | _ \<Rightarrow> (W_remove candidate, s\<lparr>cv_temp := Some (renderConfigFile candidate)\<rparr>))"

definition remove_old :: "control_env \<Rightarrow> control_server \<Rightarrow> control_server" where
  "remove_old e s = (if ce_windows e then s\<lparr>cv_file := None\<rparr> else s)"

definition rename_error :: "control_server \<Rightarrow> string \<Rightarrow> string" where
  "rename_error s why = ''cannot replace '' @ quote @ cv_configPath s @ quote @ '': '' @ why"

definition rename_temp :: "control_env \<Rightarrow> daemon_args \<Rightarrow> control_server \<Rightarrow> work \<times> control_server" where
  "rename_temp e candidate s =
     (case ce_write e of
        Some (Rename_fault why) \<Rightarrow> (W_answered (sendError 500 ''Internal Server Error'' (rename_error s why)), s\<lparr>cv_temp := None\<rparr>)
      | _ \<Rightarrow>
          if cv_temp s = None \<or> ce_windows e \<and> cv_file s \<noteq> None
            then (W_answered (sendError 500 ''Internal Server Error'' (rename_error s (ce_errno e))), s\<lparr>cv_temp := None\<rparr>)
          else (W_store candidate, s\<lparr>cv_file := cv_temp s, cv_temp := None\<rparr>))"

definition saved_answer :: "control_server \<Rightarrow> http_response" where
  "saved_answer s =
     sendJson 200 ''OK'' ([CHR 0x7B] @ json_field ''ok'' @ ''true,'' @ json_field ''configPath'' @ jstr (cv_configPath s) @ '','' @
       json_field ''restartNeeded'' @ bool_word (pl_running (cv_pipeline s)) @ [CHR 0x7D])"

text \<open>Up to the first call of the pipeline.\<close>

definition postStream :: "http_request \<Rightarrow> work" where
  "postStream req =
     (case parseFlatJsonObject (hq_body req) of
        Inl err \<Rightarrow> W_answered (sendError 400 ''Bad Request'' (''malformed request body: '' @ err))
      | Inr kvs \<Rightarrow>
          let action = fold (\<lambda>(k, v) acc. if k = ''action'' then v else acc) kvs []
          in if action \<noteq> ''start'' \<and> action \<noteq> ''stop'' \<and> action \<noteq> ''restart''
               then W_answered (sendError 400 ''Bad Request'' ''action must be start, stop or restart'')
             else if action = ''start'' then W_copy else W_stop action)"

definition stream_start :: "daemon_args \<Rightarrow> control_server \<Rightarrow> work \<times> control_server" where
  "stream_start a s =
     (case pipeline_start a (cv_pipeline s) of
        Inl err \<Rightarrow> (W_answered (sendError 409 ''Conflict'' err), s)
      | Inr p \<Rightarrow> (W_streaming, s\<lparr>cv_pipeline := p\<rparr>))"

definition stream_answer :: "control_env \<Rightarrow> http_response" where
  "stream_answer e = sendJson 200 ''OK'' ([CHR 0x7B] @ json_field ''ok'' @ ''true,'' @ json_field ''stream'' @ ce_live e @ [CHR 0x7D])"

text \<open>The answer is sent before the flag is set.\<close>

definition postQuit :: work where
  "postQuit = W_flag (sendJson 200 ''OK'' ([CHR 0x7B] @ json_field ''ok'' @ ''true,'' @ json_field ''quitting'' @ ''true'' @ [CHR 0x7D]))"

text \<open>The next section of a worker.\<close>

fun work_section :: "control_env \<Rightarrow> work \<Rightarrow> control_server \<Rightarrow> work \<times> control_server" where
  "work_section e (W_temp candidate) s = write_temp e candidate s"
| "work_section e (W_remove candidate) s = (W_rename candidate, remove_old e s)"
| "work_section e (W_rename candidate) s = rename_temp e candidate s"
| "work_section e (W_store candidate) s = (W_saved, s\<lparr>cv_settings := candidate\<rparr>)"
| "work_section e W_saved s = (W_answered (saved_answer s), s)"
| "work_section e (W_stop action) s =
     (if action = ''restart'' then W_copy else W_streaming, s\<lparr>cv_pipeline := pipeline_stop (ce_rc e) (cv_pipeline s)\<rparr>)"
| "work_section e W_copy s = (W_start (cv_settings s), s)"
| "work_section e (W_start a) s = stream_start a s"
| "work_section e W_streaming s = (W_answered (stream_answer e), s)"
| "work_section e (W_flag r) s = (W_answered r, s\<lparr>cv_quit := True\<rparr>)"
| "work_section e (W_answered r) s = (W_answered r, s)"

definition postOpenLoginItems :: "control_env \<Rightarrow> http_response" where
  "postOpenLoginItems e =
     (case ce_loginItems e of
        None \<Rightarrow> sendError 404 ''Not Found'' ''Login Items is a macOS pane; this platform has none''
      | Some False \<Rightarrow> sendError 500 ''Internal Server Error''
          ''could not open System Settings; open General > Login Items & Extensions yourself''
      | Some True \<Rightarrow> sendJson 200 ''OK'' ([CHR 0x7B] @ json_field ''ok'' @ ''true'' @ [CHR 0x7D]))"

text \<open>Authorization and routing, down to the first section that changes something.\<close>

definition control_route :: "control_env \<Rightarrow> http_request \<Rightarrow> control_server \<Rightarrow> work" where
  "control_route e req s =
     (case authorize (cv_port s) req of
        Some r \<Rightarrow> W_answered r
      | None \<Rightarrow>
          let path = takeWhile (\<lambda>c. c \<noteq> CHR ''?'' \<and> c \<noteq> CHR ''#'') (hq_target req); m = hq_method req
          in if m = ''GET'' \<and> (path = ''/'' \<or> path = ''/index.html'')
               then W_answered \<lparr>hr_status = 200, hr_reason = ''OK'', hr_contentType = ''text/html; charset=utf-8'', hr_body = ce_page e\<rparr>
             else if m = ''GET'' \<and> path = ''/app.js''
               then W_answered \<lparr>hr_status = 200, hr_reason = ''OK'', hr_contentType = ''text/javascript; charset=utf-8'', hr_body = ce_script e\<rparr>
             else if m = ''GET'' \<and> path = ''/api/state'' then W_answered (sendJson 200 ''OK'' (ce_state e))
             else if m = ''GET'' \<and> path = ''/api/devices''
               then W_answered (case ce_devices e of
                        Inr json \<Rightarrow> sendJson 200 ''OK'' json
                      | Inl what \<Rightarrow> sendError 500 ''Internal Server Error'' (''device enumeration failed: '' @ what))
             else if m = ''POST'' \<and> path = ''/api/config'' then postConfig req s
             else if m = ''POST'' \<and> path = ''/api/stream'' then postStream req
             else if m = ''POST'' \<and> path = ''/api/quit'' then postQuit
             else if m = ''POST'' \<and> path = ''/api/open-login-items'' then W_answered (postOpenLoginItems e)
             else W_answered (sendError 404 ''Not Found'' (''no such endpoint: '' @ path)))"

text \<open>The sections of one request with no other worker in between.\<close>

fun work_left :: "work \<Rightarrow> nat" where
  "work_left (W_temp _) = 5"
| "work_left (W_remove _) = 4"
| "work_left (W_rename _) = 3"
| "work_left (W_store _) = 2"
| "work_left W_saved = 1"
| "work_left (W_stop _) = 4"
| "work_left W_copy = 3"
| "work_left (W_start _) = 2"
| "work_left W_streaming = 1"
| "work_left (W_flag _) = 1"
| "work_left (W_answered _) = 0"

lemma work_section_decreases: "work_left w \<noteq> 0 \<Longrightarrow> work_left (fst (work_section e w s)) < work_left w"
  by (cases w) (auto simp: write_temp_def rename_temp_def stream_start_def split: option.splits write_fault.splits sum.splits)

function complete :: "control_env \<Rightarrow> work \<Rightarrow> control_server \<Rightarrow> http_response \<times> control_server" where
  "complete e w s =
     (case w of
        W_answered r \<Rightarrow> (r, s)
      | _ \<Rightarrow> complete e (fst (work_section e w s)) (snd (work_section e w s)))"
  by pat_completeness auto

termination complete
  by (relation "measure (\<lambda>(e, w, s). work_left w)") (simp_all only: in_measure case_prod_conv wf_measure, (rule work_section_decreases, simp)+)

declare complete.simps [simp del]

definition control_handle :: "control_env \<Rightarrow> http_request \<Rightarrow> control_server \<Rightarrow> http_response \<times> control_server" where
  "control_handle e req s = complete e (control_route e req s) s"

text \<open>A worker of the accept loop: one request, one answer, and the connection is closed with what was sent on it.\<close>

datatype page_worker = Wk_reading "string list" | Wk_working work | Wk_closed string

definition settle :: "work \<Rightarrow> page_worker" where
  "settle w = (case w of W_answered r \<Rightarrow> Wk_closed (sendResponse r) | _ \<Rightarrow> Wk_working w)"

fun worker_turn :: "control_env \<Rightarrow> page_worker \<Rightarrow> control_server \<Rightarrow> page_worker \<times> control_server" where
  "worker_turn e (Wk_reading chunks) s =
     ((case readRequest chunks of None \<Rightarrow> Wk_closed [] | Some req \<Rightarrow> settle (control_route e req s)), s)"
| "worker_turn e (Wk_working w) s = (let (w', s') = work_section e w s in (settle w', s'))"
| "worker_turn e (Wk_closed sent) s = (Wk_closed sent, s)"

fun wk_live :: "page_worker \<Rightarrow> bool" where
  "wk_live (Wk_closed _) = False"
| "wk_live _ = True"

definition kMaxConnections :: nat where "kMaxConnections = 12"

text \<open>
  A connection is accepted after the finished workers are reaped, and refused with 503 when there are twelve others. The threads
  of the program take turns in any order: a new connection, the next section of a worker, and what the run of the pipeline does by itself.
\<close>

definition page_accept :: "string list \<Rightarrow> page_worker list \<Rightarrow> page_worker list" where
  "page_accept chunks ws =
     ws @ [if length (filter wk_live ws) \<ge> kMaxConnections
             then Wk_closed (sendResponse (sendError 503 ''Service Unavailable'' ''too many concurrent connections''))
           else Wk_reading chunks]"

datatype page_op = Op_accept "string list" | Op_turn control_env nat | Op_report string string | Op_end int

fun page_do :: "page_op \<Rightarrow> page_worker list \<times> control_server \<Rightarrow> page_worker list \<times> control_server" where
  "page_do (Op_accept chunks) (ws, s) = (page_accept chunks ws, s)"
| "page_do (Op_turn e i) (ws, s) = (if i < length ws then let (w, s') = worker_turn e (ws ! i) s in (ws[i := w], s') else (ws, s))"
| "page_do (Op_report st err) (ws, s) = (ws, s\<lparr>cv_pipeline := pipeline_report st err (cv_pipeline s)\<rparr>)"
| "page_do (Op_end rc) (ws, s) = (ws, s\<lparr>cv_pipeline := pipeline_ended rc (cv_pipeline s)\<rparr>)"

definition page_run :: "page_op list \<Rightarrow> page_worker list \<times> control_server \<Rightarrow> page_worker list \<times> control_server" where
  "page_run ops = fold page_do ops"

section \<open>What the escaper writes the parser reads\<close>

lemma hex_value_digit: "n < 16 \<Longrightarrow> hex_value (hex_digit n) = Some n"
  by (auto simp: hex_value_def hex_digit_def digit_def)

lemma char_of_split: "char_of (of_char c div 16 * 16 + of_char c mod 16 :: nat) = c"
  by simp

lemma json_chars_escaped:
  assumes "c \<noteq> CHR 0x00"
  shows "json_chars v (json_char c @ s) = json_chars (v @ [c]) s"
proof (cases "json_char c = [c]")
  case True
  have "c \<noteq> dquote" "c \<noteq> backslash" using True by (auto simp: json_char_def)
  then show ?thesis using True by simp
next
  case False
  show ?thesis
  proof (cases "c \<in> {dquote, backslash, CHR 10, CHR 13, CHR 9}")
    case True
    then show ?thesis by (auto simp: json_char_def short_escape_def)
  next
    case no: False
    have small: "of_char c < (32 :: nat)" using False no by (auto simp: json_char_def split: if_splits)
    have pos: "of_char c \<noteq> (0 :: nat)" 
    proof
      assume "of_char c = (0 :: nat)"
      then have "c = char_of (0 :: nat)" by (metis char_of_char)
      then show False using assms by (simp add: char_of_def)
    qed
    have zero: "hex_value (CHR ''0'') = Some 0" by (simp add: hex_value_def)
    have "hex_code 0 [CHR ''0'', CHR ''0'', hex_digit (of_char c div 16), hex_digit (of_char c mod 16)] = Some (of_char c)"
      using small hex_value_digit [of "of_char c div 16"] hex_value_digit [of "of_char c mod 16"] zero by simp
    then show ?thesis using no small pos by (simp add: json_char_def short_escape_def)
  qed
qed

lemma json_chars_jsonEscape: "CHR 0x00 \<notin> set w \<Longrightarrow> json_chars v (jsonEscape w @ dquote # r) = Inr (v @ w, r)"
proof (induction w arbitrary: v)
  case (Cons c w)
  then have "c \<noteq> CHR 0x00" by auto
  then show ?case using Cons json_chars_escaped [of c v "jsonEscape w @ dquote # r"] by (simp add: jsonEscape_def)
qed (simp add: jsonEscape_def)

lemma json_string_jstr: "CHR 0x00 \<notin> set w \<Longrightarrow> json_string n (jstr w @ r) = Inr (w, r)"
  by (simp add: json_string_def jstr_def json_chars_jsonEscape)

definition flat_object :: "(string \<times> string) list \<Rightarrow> string" where
  "flat_object kvs = [CHR 0x7B] @ concat (map (\<lambda>(k, v). jstr k @ '':'' @ jstr v @ '','') (butlast kvs)) @
     (case last kvs of (k, v) \<Rightarrow> jstr k @ '':'' @ jstr v) @ [CHR 0x7D]"

lemma skipWs_jstr [simp]: "skipWs (jstr w @ r) = jstr w @ r"
  by (simp add: jstr_def isspace_def)

lemma json_member_pair:
  assumes "CHR 0x00 \<notin> set k" "CHR 0x00 \<notin> set v" "\<not> isspace c"
  shows "json_member n (jstr k @ '':'' @ jstr v @ c # r) = Inr ((k, v), c # r)"
  using assms json_string_jstr [of k n "'':'' @ jstr v @ c # r"] json_string_jstr [of v n "c # r"]
  by (simp add: json_member_def isspace_def)

lemma json_members_pairs:
  assumes "kvs \<noteq> []" "list_all (\<lambda>(k, v). CHR 0x00 \<notin> set k \<and> CHR 0x00 \<notin> set v) kvs"
  shows "json_members n out (tl (flat_object kvs)) = Inr (out @ kvs)"
  using assms
proof (induction kvs arbitrary: out)
  case (Cons kv kvs)
  obtain k v where kv: "kv = (k, v)" by fastforce
  show ?case
  proof (cases "kvs = []")
    case True
    then show ?thesis using Cons.prems kv json_member_pair [of k v "CHR 0x7D" n "[]"]
      by (subst json_members.simps) (simp add: flat_object_def isspace_def)
  next
    case False
    have "tl (flat_object (kv # kvs)) = jstr k @ '':'' @ jstr v @ CHR '','' # tl (flat_object kvs)"
      using False kv by (simp add: flat_object_def)
    then show ?thesis using Cons kv False json_member_pair [of k v "CHR '',''" n "tl (flat_object kvs)"]
      by (subst json_members.simps) (simp add: isspace_def)
  qed
qed simp

lemma parse_nonempty:
  "skipWs body = CHR 0x7B # r \<Longrightarrow> skipWs r = dquote # r' \<Longrightarrow> parseFlatJsonObject body = json_members (length body) [] r"
  by (simp add: parseFlatJsonObject_def)

lemma flat_object_roundtrip:
  assumes "kvs \<noteq> []" "list_all (\<lambda>(k, v). CHR 0x00 \<notin> set k \<and> CHR 0x00 \<notin> set v) kvs"
  shows "parseFlatJsonObject (flat_object kvs) = Inr kvs"
proof -
  have "\<exists>k r. tl (flat_object kvs) = jstr k @ r"
  proof (cases kvs)
    case (Cons kv rest)
    obtain k v where "kv = (k, v)" by fastforce
    then show ?thesis using Cons by (cases "rest = []") (auto simp: flat_object_def)
  qed (use assms in simp)
  then obtain k r where "tl (flat_object kvs) = jstr k @ r" by blast
  then have q: "skipWs (tl (flat_object kvs)) = dquote # tl (tl (flat_object kvs))" by (simp add: jstr_def isspace_def)
  have "skipWs (flat_object kvs) = CHR 0x7B # tl (flat_object kvs)" by (simp add: flat_object_def isspace_def)
  from parse_nonempty [OF this q] json_members_pairs [OF assms, of "length (flat_object kvs)" "[]"] show ?thesis by simp
qed

section \<open>Saving a line break\<close>

lemma file_lines_append: "file_lines (p @ newline @ s) = file_lines (p @ newline) @ file_lines s"
proof (induction "length p" arbitrary: p rule: less_induct)
  case less
  show ?case
  proof (cases "CHR 10 \<in> set p")
    case True
    then obtain l p' where p: "p = l @ newline @ p'" "CHR 10 \<notin> set l" using split_list_first [of "CHR 10" p] by (auto simp: newline_def)
    then have "length p' < length p" by (simp add: newline_def)
    then show ?thesis using less [of p'] p file_lines_step [OF p(2)] by simp
  next
    case False
    then show ?thesis using file_lines_step [OF False, of s] file_lines_step [OF False, of "[]"] by simp
  qed
qed

lemma load_lines_stuck:
  "(\<And>n a. \<exists>e. load_line path n l a = Inl e) \<Longrightarrow> \<exists>e. load_lines path n (xs @ l # ys) a = Inl e"
proof (induction xs arbitrary: n a)
  case Nil
  then obtain e where "load_line path n l a = Inl e" by blast
  then show ?case by simp
next
  case (Cons x xs)
  then show ?case by (auto split: sum.splits)
qed

text \<open>A line that no configuration file may contain.\<close>

definition bad_line :: "string \<Rightarrow> bool" where
  "bad_line y \<longleftrightarrow> plain y \<and> y \<noteq> [] \<and> hd y \<noteq> CHR ''#'' \<and> CHR ''='' \<notin> set y"

lemma load_bad_line: "bad_line y \<Longrightarrow> \<exists>e. load_line path n y a = Inl e"
  by (simp add: bad_line_def plain_def load_line_def Let_def)

lemma load_bad_file:
  assumes "bad_line y"
  shows "\<exists>e. loadConfigFile path (Some (p @ newline @ y @ newline @ q)) a = Inl e"
proof -
  have "CHR 10 \<notin> set y" using assms by (simp add: bad_line_def plain_def)
  then have "file_lines (p @ newline @ y @ newline @ q) = file_lines (p @ newline) @ y # file_lines q"
    using file_lines_append [of p "y @ newline @ q"] file_lines_step by simp
  then show ?thesis using load_lines_stuck [where l = y] load_bad_line [OF assms] by (simp add: loadConfigFile_def)
qed

definition capture_saved :: "string \<Rightarrow> daemon_args \<Rightarrow> daemon_args" where
  "capture_saved v a = markPersisted ''capture'' (a\<lparr>da_capturePattern := v\<rparr>)"

lemma capture_candidate: "candidate_of [(''capture'', v)] a = Inr (capture_saved v a)"
  by (simp add: findSetting_def kSettings_def int_row_def capture_saved_def)

lemma capture_problem: "candidate_problem (capture_saved v a) = candidate_problem a"
  by (simp add: candidate_problem_def capture_saved_def markPersisted_def)

lemma capture_rendered:
  assumes "v \<noteq> []"
  shows "\<exists>p q. renderConfigFile (capture_saved v a) = p @ ''capture = '' @ v @ newline @ q"
proof -
  obtain before st after where k: "kSettings = before @ st # after" "st_name st = ''capture''"
    by (rule that [of "[hd kSettings]" "kSettings ! 1" "drop 2 kSettings"]) (simp_all add: kSettings_def)
  have "settingValue (capture_saved v a) ''capture'' = v" by (simp add: capture_saved_def settingValue_def markPersisted_def)
  then have "config_line (capture_saved v a) st = ''capture = '' @ v @ newline"
    using assms k(2) by (simp add: config_line_def Let_def capture_saved_def persist_fields) (simp add: settingValue_def default_args_def)
  then have "renderConfigFile (capture_saved v a) = (config_banner @ concat (map (config_line (capture_saved v a)) before)) @ ''capture = '' @ v @ newline @
    concat (map (config_line (capture_saved v a)) after)" unfolding renderConfigFile_def k(1) by simp
  then show ?thesis by blast
qed

text \<open>A save that is not disturbed; on Windows the old file is removed first, so that the renaming succeeds.\<close>

definition saved_server :: "daemon_args \<Rightarrow> control_server \<Rightarrow> control_server" where
  "saved_server a s = s\<lparr>cv_settings := a, cv_file := Some (renderConfigFile a), cv_temp := None\<rparr>"

lemma complete_save:
  assumes "ce_write e = None"
  shows "complete e (W_temp a) s = (saved_answer (saved_server a s), saved_server a s)"
  using assms by (simp add: complete.simps write_temp_def remove_old_def rename_temp_def saved_server_def saved_answer_def)

section \<open>Requests of other pages\<close>

text \<open>
  The bytes of a connection are a command of the page itself: a POST to one of the three endpoints that act, to an own host name, with no
  origin or an own one, and of JSON type. Silencing a run replaces all other connections by ones that are closed with nothing sent.
\<close>

definition own_names :: "int \<Rightarrow> string set" where
  "own_names port = {''127.0.0.1:'' @ int_string port, ''localhost:'' @ int_string port}"

definition page_command :: "int \<Rightarrow> string list \<Rightarrow> bool" where
  "page_command port chunks =
     (case readRequest chunks of
        None \<Rightarrow> False
      | Some req \<Rightarrow>
          hq_method req = ''POST'' \<and> hq_host req \<in> own_names port \<and>
          (hq_origin req = [] \<or> hq_origin req \<in> (\<lambda>h. ''http://'' @ h) ` own_names port) \<and>
          take 16 (toLower (hq_contentType req)) = ''application/json'' \<and>
          takeWhile (\<lambda>c. c \<notin> set ''?#'') (hq_target req) \<in> {''/api/config'', ''/api/stream'', ''/api/quit''})"

fun silence :: "int \<Rightarrow> page_op \<Rightarrow> page_op" where
  "silence port (Op_accept chunks) = Op_accept (if page_command port chunks then chunks else [])"
| "silence port p = p"

lemma readRequest_silent: "readRequest [] = None"
  by (simp add: readRequest_def)

lemma route_other:
  assumes "readRequest chunks = Some req" "\<not> page_command (cv_port s) chunks"
  shows "\<exists>r. control_route e req s = W_answered r"
  using assms by (auto simp: page_command_def own_names_def control_route_def authorize_def host_ok_def origin_ok_def json_typed_def Let_def split: option.splits if_splits)

text \<open>The worker of a run and its counterpart in the silenced run.\<close>

inductive same_worker :: "int \<Rightarrow> page_worker \<Rightarrow> page_worker \<Rightarrow> bool" for port where
  same_refl: "same_worker port w w"
| same_other: "\<not> page_command port chunks \<Longrightarrow> same_worker port (Wk_reading chunks) (Wk_reading [])"
| same_closed: "same_worker port (Wk_closed sent) (Wk_closed sent')"

lemma same_worker_live: "same_worker port w w' \<Longrightarrow> wk_live w \<longleftrightarrow> wk_live w'"
  by (induction rule: same_worker.induct) simp_all

lemma section_port: "work_section e w s = (w', s') \<Longrightarrow> cv_port s' = cv_port s"
  by (cases w) (auto simp: write_temp_def rename_temp_def remove_old_def stream_start_def split: option.splits write_fault.splits sum.splits if_splits)

lemma turn_port: "cv_port (snd (worker_turn e w s)) = cv_port s"
  by (cases w) (auto simp: section_port split: prod.splits)

lemma same_worker_turn:
  assumes "same_worker (cv_port s) w w'"
  shows "same_worker (cv_port s) (fst (worker_turn e w s)) (fst (worker_turn e w' s)) \<and> snd (worker_turn e w s) = snd (worker_turn e w' s)"
  using assms
proof cases
  case (same_other chunks)
  then have "\<exists>t. worker_turn e w s = (Wk_closed t, s)"
    using route_other [of chunks _ s e] by (cases "readRequest chunks") (auto simp: settle_def)
  then show ?thesis using same_other by (auto simp: readRequest_silent intro: same_closed)
qed (auto intro: same_refl same_closed)

definition same_page :: "int \<Rightarrow> page_worker list \<times> control_server \<Rightarrow> page_worker list \<times> control_server \<Rightarrow> bool" where
  "same_page port p p' \<longleftrightarrow> list_all2 (same_worker port) (fst p) (fst p') \<and> snd p = snd p' \<and> cv_port (snd p) = port"

lemma same_page_live:
  "list_all2 (same_worker port) ws ws' \<Longrightarrow> length (filter wk_live ws) = length (filter wk_live ws')"
  by (induction rule: list_all2_induct) (auto dest: same_worker_live)

lemma same_page_do:
  assumes "same_page port p p'"
  shows "same_page port (page_do a p) (page_do (silence port a) p')"
proof -
  obtain ws ws' s where p: "p = (ws, s)" "p' = (ws', s)" "list_all2 (same_worker port) ws ws'" "cv_port s = port"
    using assms by (cases p; cases p') (auto simp: same_page_def)
  show ?thesis
  proof (cases a)
    case (Op_accept chunks)
    have "same_worker port (Wk_reading chunks) (Wk_reading (if page_command port chunks then chunks else []))"
      by (simp add: same_refl same_other)
    then show ?thesis using Op_accept p same_page_live [OF p(3)]
      by (simp add: same_page_def page_accept_def same_refl list_all2_appendI)
  next
    case (Op_turn e i)
    show ?thesis
    proof (cases "i < length ws")
      case True
      have "same_worker (cv_port s) (ws ! i) (ws' ! i)" using p(3,4) True by (simp add: list_all2_nthD)
      from same_worker_turn [OF this, of e] turn_port [of e "ws ! i" s] True show ?thesis
        using Op_turn p list_all2_lengthD [OF p(3)] by (auto simp: same_page_def list_all2_update_cong split: prod.splits)
    qed (use Op_turn p list_all2_lengthD [OF p(3)] in \<open>simp add: same_page_def\<close>)
  qed (use p in \<open>simp_all add: same_page_def\<close>)
qed

lemma same_page_run: "same_page port p p' \<Longrightarrow> same_page port (page_run ops p) (page_run (map (silence port) ops) p')"
  unfolding page_run_def by (induction ops arbitrary: p p') (simp_all add: same_page_do)

section \<open>Sections that interleave\<close>

text \<open>
  A restart whose stop is followed by a start of another worker is answered with 409, although it stopped the pipeline and the stream
  goes on with the settings the other worker copied.
\<close>

lemma restart_refused:
  "page_run [Op_turn e 0, Op_turn e 1, Op_turn e 1, Op_turn e 0, Op_turn e 0] ([Wk_working (W_stop ''restart''), Wk_working W_copy], s) =
     ([Wk_closed (sendResponse (sendError 409 ''Conflict'' ''already streaming'')), Wk_working W_streaming],
      s\<lparr>cv_pipeline := \<lparr>pl_running = True, pl_thread = Some (cv_settings s\<lparr>da_mode := ''hardware'', da_durationMs := 0\<rparr>), pl_stop = False,
         pl_state = ''starting'', pl_error = []\<rparr>\<rparr>)"
  by (simp add: page_run_def settle_def stream_start_def pipeline_start_def pipeline_stop_def Let_def split: option.splits)

text \<open>On Windows a renaming that fails is answered with 500 and leaves no configuration file.\<close>

lemma failed_rename_loses_file:
  assumes "ce_windows e" "ce_write e = Some (Rename_fault why)"
  shows "complete e (W_temp candidate) s = (sendError 500 ''Internal Server Error'' (rename_error s why), s\<lparr>cv_file := None, cv_temp := None\<rparr>)"
  using assms by (simp add: complete.simps write_temp_def remove_old_def rename_temp_def rename_error_def)

section \<open>Properties\<close>

text \<open>
  C29: only the page itself can change anything. Whatever connections come in, with whatever bytes, and however their workers and the
  run of the pipeline interleave, the settings, the configuration file, the temporary, the pipeline and the stop flag are at the end what they
  are when every connection that is not a POST of JSON to an acting endpoint, with an own host name and no origin or an own one, is
  replaced by a connection on which nothing arrives.
\<close>

theorem control_page_guarded:
  "snd (page_run ops ([], s)) = snd (page_run (map (silence (cv_port s)) ops) ([], s))"
proof -
  have "same_page (cv_port s) ([], s) ([], s)" by (simp add: same_page_def)
  from same_page_run [OF this, of ops] show ?thesis by (simp add: same_page_def)
qed

definition page_demo_request :: string where
  "page_demo_request = ''POST /api/quit HTTP/1.1'' @ crlf @ ''Host: localhost:8737'' @ crlf @ ''Content-Type: application/json'' @ crlf @ crlf"

definition page_demo_server :: control_server where
  "page_demo_server = \<lparr>cv_settings = default_args, cv_configPath = ''/etc/naudio/daemon.conf'', cv_port = 8737,
     cv_pipeline = \<lparr>pl_running = False, pl_thread = None, pl_stop = False, pl_state = ''idle'', pl_error = []\<rparr>, cv_file = None, cv_temp = None, cv_quit = False\<rparr>"

definition demo_env :: control_env where
  "demo_env = \<lparr>ce_page = [], ce_script = [], ce_state = [], ce_devices = Inr [], ce_live = [], ce_windows = False, ce_write = None, ce_errno = [], ce_rc = 0, ce_loginItems = None\<rparr>"

definition demo_parsed :: http_request where
  "demo_parsed = \<lparr>hq_method = ''POST'', hq_target = ''/api/quit'', hq_body = [], hq_host = ''localhost:8737'', hq_origin = [], hq_contentType = ''application/json''\<rparr>"

lemma demo_read: "readRequest [page_demo_request] = Some demo_parsed"
  by (simp add: readRequest_def page_demo_request_def demo_parsed_def kMaxHead_def Let_def request_line_def header_lines.simps header_step_def
      toLower_def tolower_def header_value_def char_of_def bit_0)

lemma port_8737: "int_string 8737 = ''8737''"
  by (simp add: int_string_def to_string.simps digit_def char_of_def bit_0)

text \<open>A command of the page acts.\<close>

lemma demo_quit:
  "snd (page_run [Op_accept [page_demo_request], Op_turn demo_env 0, Op_turn demo_env 0] ([], page_demo_server)) = page_demo_server\<lparr>cv_quit := True\<rparr>"
proof -
  have "control_route demo_env demo_parsed page_demo_server = postQuit"
    by (simp add: control_route_def authorize_def demo_parsed_def page_demo_server_def host_ok_def origin_ok_def json_typed_def toLower_def tolower_def char_of_def bit_0 port_8737)
  then show ?thesis by (simp add: page_run_def page_accept_def kMaxConnections_def demo_read settle_def postQuit_def)
qed

text \<open>
  C40: the page can save a file the daemon does not start on. The value of a text setting may contain a line break: a save of the capture
  pattern whose second line is not a setting is answered with 200 and written as it is, and a daemon started the way the
  service units start it then ends with an error, whatever the other settings are.
\<close>

theorem page_save_unreadable:
  assumes "candidate_problem (cv_settings s) = None" "cv_configPath s \<noteq> []" "ce_write e = None"
    and "authorize (cv_port s) req = None" "hq_method req = ''POST''" "hq_target req = ''/api/config''"
    and "hq_body req = flat_object [(''capture'', x @ newline @ y)]" "CHR 0x00 \<notin> set x" "CHR 0x00 \<notin> set y" "bad_line y"
  shows "\<exists>r s' txt err. control_handle e req s = (r, s') \<and> hr_status r = 200 \<and> cv_file s' = Some txt \<and>
    daemon_main (cv_configPath s') (\<lambda>_. Contents txt) [''--mode'', ''control'', ''--duration-ms'', ''0''] = Run_error err"
proof -
  let ?v = "x @ newline @ y"
  let ?c = "capture_saved ?v (cv_settings s)"
  have "parseFlatJsonObject (hq_body req) = Inr [(''capture'', ?v)]"
    unfolding assms(7) by (rule flat_object_roundtrip) (use assms(8,9) in \<open>auto simp: newline_def\<close>)
  then have "postConfig req s = W_temp ?c"
    using assms(1,2) capture_candidate [of ?v "cv_settings s"] capture_problem [of ?v "cv_settings s"]
    by (simp add: postConfig_def del: candidate_of.simps)
  then have "control_route e req s = W_temp ?c" using assms(4-6) by (simp add: control_route_def)
  then have "control_handle e req s =
    (saved_answer (saved_server ?c s), saved_server ?c s)"
    using complete_save [OF assms(3)] by (simp add: control_handle_def)
  moreover have "\<exists>err. daemon_main (cv_configPath s) (\<lambda>_. Contents (renderConfigFile ?c)) [''--mode'', ''control'', ''--duration-ms'', ''0''] = Run_error err"
  proof -
    obtain p q where f: "renderConfigFile ?c = p @ ''capture = '' @ ?v @ newline @ q" using capture_rendered [of ?v "cv_settings s"] by (auto simp: newline_def)
    obtain er where "loadConfigFile (cv_configPath s) (Some (renderConfigFile ?c)) default_args = Inl er"
      using load_bad_file [OF assms(10), of _ "p @ ''capture = '' @ x" q] unfolding f by auto
    then show ?thesis using assms(2) by (intro exI [of _ er]) (simp add: daemon_main_def loadConfigIfPresent_def)
  qed
  ultimately show ?thesis
    by - (rule exI [of _ "saved_answer (saved_server ?c s)"], rule exI [of _ "saved_server ?c s"], rule exI [of _ "renderConfigFile ?c"], simp add: saved_server_def saved_answer_def sendJson_def)
qed

definition demo_save :: http_request where
  "demo_save = demo_parsed\<lparr>hq_target := ''/api/config'', hq_body := flat_object [(''capture'', ''mic'' @ newline @ ''bogus'')]\<rparr>"

theorem page_save_unreadable_witness:
  "\<exists>r s' txt err. control_handle demo_env demo_save page_demo_server = (r, s') \<and> hr_status r = 200 \<and> cv_file s' = Some txt \<and>
    daemon_main (cv_configPath s') (\<lambda>_. Contents txt) [''--mode'', ''control'', ''--duration-ms'', ''0''] = Run_error err"
proof (rule page_save_unreadable)
  show "candidate_problem (cv_settings page_demo_server) = None" by (simp add: candidate_problem_def page_demo_server_def default_args_def)
  show "cv_configPath page_demo_server \<noteq> []" "ce_write demo_env = None" by (simp_all add: page_demo_server_def demo_env_def)
  show "authorize (cv_port page_demo_server) demo_save = None"
    by (simp add: authorize_def demo_save_def demo_parsed_def page_demo_server_def host_ok_def origin_ok_def json_typed_def toLower_def tolower_def char_of_def bit_0 port_8737)
  show "hq_method demo_save = ''POST''" "hq_target demo_save = ''/api/config''"
    "hq_body demo_save = flat_object [(''capture'', ''mic'' @ newline @ ''bogus'')]" by (simp_all add: demo_save_def demo_parsed_def)
  show "CHR 0x00 \<notin> set ''mic''" "CHR 0x00 \<notin> set ''bogus''" by simp_all
  show "bad_line ''bogus''" by (simp add: bad_line_def plain_def trim_def config_ws_def)
qed

end
