(* ===== verification/Daemon_Devices.thy ===== *)
theory Daemon_Devices
  imports Daemon_Config Client_Session
begin

text \<open>
  The devices of the daemon (\<open>tools/na_audio_daemon.cpp\<close>): resolving a saved choice against an enumeration, opening the capture device with
  the refusal of an undeclared format, the in-memory device list, and the signal meter with the watch for silence. The
  enumeration and the probing and opening of a device are arguments. The floating-point numbers of the meter are rational numbers and
  every operation on them is followed by the rounding of its type, which is an argument: that of \<open>long double\<close>, whose precision differs between
  platforms, for the running sums, that of \<open>double\<close> for everything else. So is the square root of the C library.
\<close>

section \<open>The saved choice\<close>

definition kDefaultCapturePatterns :: "string list" where
  "kDefaultCapturePatterns = [''USB Audio CODEC'', ''USB Audio'']"

definition kDefaultVirtualSinkPatterns :: "string list" where
  "kDefaultVirtualSinkPatterns = [''BlackHole'', ''VB-Cable'', ''VB-Audio'', ''Soundflower'', ''Loopback'']"

record device_choice =
  dc_device :: "device_info option"
  dc_how :: string
  dc_moved :: bool
  dc_reason :: string

definition no_choice :: "string \<Rightarrow> device_choice" where
  "no_choice why = \<lparr>dc_device = None, dc_how = ''none'', dc_moved = False, dc_reason = why\<rparr>"

definition at_id :: "device_info list \<Rightarrow> direction \<Rightarrow> int \<Rightarrow> device_info option" where
  "at_id devices dir wanted = find (\<lambda>d. backendIdFor dir d = wanted) devices"

text \<open>The device that stands for an id that is not in the enumeration.\<close>

definition device_by_id :: "direction \<Rightarrow> int \<Rightarrow> device_info" where
  "device_by_id dir i =
     \<lparr>dv_backendId = i, dv_captureBackendId = (if dir = DirCapture then i else -1), dv_playbackBackendId = (if dir = DirPlayback then i else -1),
      dv_name = ''device #'' @ int_string i, dv_hostApi = [], dv_displayName = [], dv_type = UnknownDevice, dv_capability = CapCapture,
      dv_defaultSampleRate = 0, dv_maxInputChannels = 0, dv_maxOutputChannels = 0\<rparr>"

text \<open>The devices a pattern selects: those of exactly that name when there is one, else all matches.\<close>

definition choice_pool :: "device_info list \<Rightarrow> string \<Rightarrow> device_info list" where
  "choice_pool devices pat =
     (let matches = filter (\<lambda>d. device_matches d pat) devices; exact = filter (\<lambda>d. toLower (dv_name d) = toLower pat) matches
      in if exact = [] then matches else exact)"

definition no_match_reason :: "device_info list \<Rightarrow> direction \<Rightarrow> string \<Rightarrow> int \<Rightarrow> string" where
  "no_match_reason devices dir pat i =
     ''no device matches '' @ [CHR 0x22] @ pat @ [CHR 0x22] @
     (if i < 0 then []
      else case at_id devices dir i of
             Some d \<Rightarrow> '' (device '' @ int_string i @ '' is now '' @ [CHR 0x22] @ dv_name d @ [CHR 0x22] @ '')''
           | None \<Rightarrow> '' (and there is no device '' @ int_string i @ '')'')"

definition resolveChoice :: "device_info list \<Rightarrow> direction \<Rightarrow> string \<Rightarrow> int \<Rightarrow> string list \<Rightarrow> device_choice" where
  "resolveChoice devices dir pat i defaults =
     (if pat \<noteq> [] then
        let pool = choice_pool devices pat
        in if pool = [] then no_choice (no_match_reason devices dir pat i)
           else case (if i \<ge> 0 then at_id pool dir i else None) of
                  Some d \<Rightarrow> \<lparr>dc_device = Some d, dc_how = ''name'', dc_moved = False, dc_reason = []\<rparr>
                | None \<Rightarrow> \<lparr>dc_device = Some (hd pool), dc_how = ''name'', dc_moved = (i \<ge> 0), dc_reason = []\<rparr>
      else if i \<ge> 0 then
        \<lparr>dc_device = Some (case at_id devices dir i of Some d \<Rightarrow> d | None \<Rightarrow> device_by_id dir i), dc_how = ''id'', dc_moved = False, dc_reason = []\<rparr>
      else case find (\<lambda>d. list_ex (device_matches d) defaults) devices of
             Some d \<Rightarrow> \<lparr>dc_device = Some d, dc_how = ''default'', dc_moved = False, dc_reason = []\<rparr>
           | None \<Rightarrow> no_choice (if defaults = [] then ''no device configured'' else ''no device matches the default patterns''))"

definition describeChoice :: "device_choice \<Rightarrow> string \<Rightarrow> int \<Rightarrow> string" where
  "describeChoice c pat i =
     (if dc_how c = ''name'' then
        ''matched by name '' @ [CHR 0x22] @ pat @ [CHR 0x22] @
        (if dc_moved c then '', saved as device '' @ int_string i @ '' '' @ [CHR 0xE2, CHR 0x80, CHR 0x94] @ '' it moved''
         else if i \<ge> 0 then '', still device '' @ int_string i else [])
      else if dc_how c = ''id'' then ''by id, as given''
      else if dc_how c = ''default'' then ''by the default pattern list''
      else dc_reason c)"

definition resolveCapture :: "platform \<Rightarrow> raw_device list \<Rightarrow> daemon_args \<Rightarrow> device_choice" where
  "resolveCapture pf raw a =
     resolveChoice (captureDevices pf raw) DirCapture (da_capturePattern a) (da_captureId a) kDefaultCapturePatterns"

definition resolvePlayback :: "platform \<Rightarrow> raw_device list \<Rightarrow> daemon_args \<Rightarrow> device_choice" where
  "resolvePlayback pf raw a =
     resolveChoice (playbackDevices pf raw) DirPlayback (da_playbackPattern a) (da_playbackId a) kDefaultVirtualSinkPatterns"

section \<open>Opening for a probe\<close>

definition requested_format :: "daemon_args \<Rightarrow> audio_format" where
  "requested_format a = default_format\<lparr>af_sampleRate := da_rate a, af_channels := da_channels a\<rparr>"

text \<open>
  The start of \<open>runCaptureProbe\<close>, up to the format that is read; a stream is represented by its actual format. The exits with an error
  carry what their message is made of; the hint is printed when the format was declared.
\<close>

datatype probe_error =
  No_capture_device string
| Open_failed string (hint_rate_channels: "(int \<times> int) option")
| Format_refused (opened: audio_format) (declared: audio_format)

definition probe_open :: "platform \<Rightarrow> raw_device list \<Rightarrow> prober \<Rightarrow> audio_format opener \<Rightarrow> daemon_args \<Rightarrow> probe_error + audio_format" where
  "probe_open pf raw probe open_stream a =
     (let choice = resolveCapture pf raw a; requested = requested_format a
      in case dc_device choice of
           None \<Rightarrow> Inl (No_capture_device (dc_reason choice))
         | Some dev \<Rightarrow>
             (case openCapture probe open_stream dev requested of
                Inl e \<Rightarrow> Inl (Open_failed e (if da_formatDeclared a then Some (da_rate a, da_channels a) else None))
              | Inr fmt \<Rightarrow>
                  if da_formatDeclared a \<and> (af_sampleRate fmt \<noteq> af_sampleRate requested \<or> af_channels fmt \<noteq> af_channels requested \<or>
                       af_bitsPerSample fmt \<noteq> af_bitsPerSample requested)
                  then Inl (Format_refused fmt requested)
                  else Inr fmt))"

text \<open>The list of \<open>--fake-devices\<close>: the names between commas that are not empty, numbered in order.\<close>

fun split_commas :: "string \<Rightarrow> string \<Rightarrow> string list" where
  "split_commas acc [] = [acc]"
| "split_commas acc (c # cs) = (if c = CHR '','' then acc # split_commas [] cs else split_commas (acc @ [c]) cs)"

definition fake_devices :: "string \<Rightarrow> int \<Rightarrow> raw_device list" where
  "fake_devices spec rate =
     (let names = filter (\<lambda>n. n \<noteq> []) (split_commas [] spec)
      in map (\<lambda>(i, n). \<lparr>rd_backendId = int i, rd_name = n, rd_hostApi = ''fake'', rd_maxInputChannels = 2, rd_maxOutputChannels = 2,
                         rd_defaultSampleRate = rat_of_int rate\<rparr>) (zip [0..<length names] names))"

section \<open>The meter\<close>

record signal_meter =
  sm_bytes :: int
  sm_frames :: int
  sm_sumSqL :: rat
  sm_sumSqR :: rat
  sm_peakL :: int
  sm_peakR :: int

definition fresh_meter :: signal_meter where
  "fresh_meter = \<lparr>sm_bytes = 0, sm_frames = 0, sm_sumSqL = 0, sm_sumSqR = 0, sm_peakL = 0, sm_peakR = 0\<rparr>"

text \<open>One frame of \<open>chans\<close> samples; \<open>ld\<close> rounds to \<open>long double\<close>.\<close>

definition add_square :: "(rat \<Rightarrow> rat) \<Rightarrow> int \<Rightarrow> rat \<Rightarrow> rat" where
  "add_square ld x acc = ld (acc + ld (rat_of_int x * rat_of_int x))"

definition meter_frame :: "(rat \<Rightarrow> rat) \<Rightarrow> nat \<Rightarrow> int list \<Rightarrow> signal_meter \<Rightarrow> signal_meter" where
  "meter_frame ld chans xs m =
     (let l = xs ! 0; m = m\<lparr>sm_sumSqL := add_square ld l (sm_sumSqL m), sm_peakL := max (sm_peakL m) \<bar>l\<bar>\<rparr>
      in if chans \<ge> 2 then let r = xs ! 1 in m\<lparr>sm_sumSqR := add_square ld r (sm_sumSqR m), sm_peakR := max (sm_peakR m) \<bar>r\<bar>\<rparr> else m)"

definition meter_frames :: "nat \<Rightarrow> bytes \<Rightarrow> int list list" where
  "meter_frames chans xs =
     map (\<lambda>i. samples_of (take (2 * chans) (drop (i * (2 * chans)) xs))) [0..<length xs div (2 * chans)]"

definition consume :: "(rat \<Rightarrow> rat) \<Rightarrow> bytes \<Rightarrow> nat \<Rightarrow> signal_meter \<Rightarrow> signal_meter" where
  "consume ld xs chans m =
     (let fs = meter_frames chans xs; m = fold (meter_frame ld chans) fs (m\<lparr>sm_bytes := sm_bytes m + int (length xs)\<rparr>)
      in m\<lparr>sm_frames := sm_frames m + int (length fs)\<rparr>)"

text \<open>A snapshot without the two figures that are only displayed; \<open>db\<close> rounds to \<open>double\<close>.\<close>

record meter_snap =
  sn_bytes :: int
  sn_frames :: int
  sn_peakL :: int
  sn_peakR :: int
  sn_sumSqL :: rat
  sn_sumSqR :: rat

definition snapshot :: "(rat \<Rightarrow> rat) \<Rightarrow> signal_meter \<Rightarrow> meter_snap" where
  "snapshot db m = \<lparr>sn_bytes = sm_bytes m, sn_frames = sm_frames m, sn_peakL = sm_peakL m, sn_peakR = sm_peakR m,
     sn_sumSqL = db (sm_sumSqL m), sn_sumSqR = db (sm_sumSqR m)\<rparr>"

definition kAlarmMs :: int where "kAlarmMs = 3000"

record silence_watch =
  sw_silentMs :: int
  sw_prev :: meter_snap

definition fresh_watch :: silence_watch where
  "fresh_watch = \<lparr>sw_silentMs = 0, sw_prev = \<lparr>sn_bytes = 0, sn_frames = 0, sn_peakL = 0, sn_peakR = 0, sn_sumSqL = 0, sn_sumSqR = 0\<rparr>\<rparr>"

definition sw_alarmed :: "silence_watch \<Rightarrow> bool" where
  "sw_alarmed w \<longleftrightarrow> sw_silentMs w \<ge> kAlarmMs"

definition sw_tick :: "(rat \<Rightarrow> rat) \<Rightarrow> (rat \<Rightarrow> rat) \<Rightarrow> meter_snap \<Rightarrow> int \<Rightarrow> silence_watch \<Rightarrow> bool \<times> silence_watch" where
  "sw_tick db rt s dtMs w =
     (let frames = sn_frames s - sn_frames (sw_prev w);
          dL = db (sn_sumSqL s - sn_sumSqL (sw_prev w)); dR = db (sn_sumSqR s - sn_sumSqR (sw_prev w));
          w' = w\<lparr>sw_prev := s\<rparr>
      in if frames \<le> 0 then (False, w')
         else let at_floor = (rt (db (dL / db (rat_of_int frames))) < 1 \<and> rt (db (dR / db (rat_of_int frames))) < 1);
                  w'' = w'\<lparr>sw_silentMs := (if at_floor then sw_silentMs w' + dtMs else 0)\<rparr>
              in (\<not> sw_alarmed w \<and> sw_alarmed w'', w''))"

section \<open>The choice of a device\<close>

lemma str_contains_prefix: "str_contains (xs @ ys) xs"
  by (auto simp: str_contains_def list_ex_iff intro!: bexI[of _ 0])

lemma device_matches_name:
  assumes "pat \<noteq> []" and "toLower (dv_name d) = toLower pat"
  shows "device_matches d pat"
proof -
  have "matchKey (dv_name d) (dv_hostApi d) = toLower pat @ toLower ('' '' @ dv_hostApi d)"
    using assms(2) by (simp add: matchKey_def toLower_def)
  then show ?thesis
    using assms(1) str_contains_prefix by (simp add: device_matches_def containsAny_def)
qed

lemma choice_pool_exact:
  assumes "pat \<noteq> []" and "\<exists>d\<in>set devices. toLower (dv_name d) = toLower pat"
  shows "choice_pool devices pat = filter (\<lambda>d. toLower (dv_name d) = toLower pat) devices"
proof -
  have "filter (\<lambda>d. toLower (dv_name d) = toLower pat) (filter (\<lambda>d. device_matches d pat) devices)
      = filter (\<lambda>d. toLower (dv_name d) = toLower pat) devices"
    using device_matches_name[OF assms(1)] by (auto intro: filter_cong)
  moreover have "filter (\<lambda>d. toLower (dv_name d) = toLower pat) devices \<noteq> []" using assms(2) by (auto simp: filter_empty_conv)
  ultimately show ?thesis by (simp add: choice_pool_def Let_def)
qed

text \<open>
  A saved name outlives a renumbering: when exactly one device carries the saved name, ignoring case, that device is chosen whatever the
  saved id, the order of the enumeration and the default patterns, and it is reported as moved exactly when another id was saved; a device
  whose name merely contains the saved one is never taken in its place.
\<close>

theorem saved_name_outlives_renumbering:
  assumes "pat \<noteq> []" and "filter (\<lambda>e. toLower (dv_name e) = toLower pat) devices = [d]"
  shows "resolveChoice devices dir pat i defaults =
           \<lparr>dc_device = Some d, dc_how = ''name'', dc_moved = (i \<ge> 0 \<and> backendIdFor dir d \<noteq> i), dc_reason = []\<rparr>"
proof -
  have "d \<in> set (filter (\<lambda>e. toLower (dv_name e) = toLower pat) devices)" by (simp add: assms(2))
  then have "\<exists>e\<in>set devices. toLower (dv_name e) = toLower pat" by auto
  then have "choice_pool devices pat = [d]" using choice_pool_exact[OF assms(1), of devices] assms(2) by simp
  then show ?thesis using assms(1) by (auto simp: resolveChoice_def Let_def at_id_def)
qed

definition renumbered_devices :: "device_info list" where
  "renumbered_devices = [(device_by_id DirCapture 3)\<lparr>dv_name := ''USB Audio Device 2''\<rparr>, (device_by_id DirCapture 5)\<lparr>dv_name := ''USB Audio Device''\<rparr>]"

theorem saved_name_outlives_renumbering_witness:
  "resolveChoice renumbered_devices DirCapture ''usb audio device'' 3 [] =
     \<lparr>dc_device = Some ((device_by_id DirCapture 5)\<lparr>dv_name := ''USB Audio Device''\<rparr>), dc_how = ''name'', dc_moved = True, dc_reason = []\<rparr>"
proof -
  have 1: "filter (\<lambda>e. toLower (dv_name e) = toLower ''usb audio device'') renumbered_devices =
          [(device_by_id DirCapture 5)\<lparr>dv_name := ''USB Audio Device''\<rparr>]"
    by (simp add: renumbered_devices_def) code_simp
  have 2: "backendIdFor DirCapture ((device_by_id DirCapture 5)\<lparr>dv_name := ''USB Audio Device''\<rparr>) \<noteq> 3"
    by (simp add: backendIdFor_def device_by_id_def)
  show ?thesis using saved_name_outlives_renumbering[OF _ 1, of DirCapture 3 "[]"] 2 by simp
qed

lemma probe_open_declared:
  "probe_open pf raw probe open_stream a = Inr fmt \<Longrightarrow> da_formatDeclared a \<Longrightarrow>
   af_sampleRate fmt = da_rate a \<and> af_channels fmt = da_channels a"
  by (auto simp: probe_open_def requested_format_def Let_def split: option.splits sum.splits if_splits)

section \<open>Rounding\<close>

text \<open>
  What is used of the two floating-point types: rounding keeps the order, and the integers up to \<open>2\<^sup>5\<^sup>3\<close> and the predecessor of one
  in 53 bits are exact, as in every binary format of 53 bits of precision or more; and the correctly rounded root of a number below one, respectively
  of one or more, is below one, respectively one or more.
\<close>

definition rounds53 :: "(rat \<Rightarrow> rat) \<Rightarrow> bool" where
  "rounds53 rnd \<longleftrightarrow> mono rnd \<and> (\<forall>n. \<bar>n\<bar> \<le> 2 ^ 53 \<longrightarrow> rnd (rat_of_int n) = rat_of_int n) \<and> rnd (1 - 1 / 2 ^ 53) = 1 - 1 / 2 ^ 53"

definition root_of_unit :: "(rat \<Rightarrow> rat) \<Rightarrow> bool" where
  "root_of_unit rt \<longleftrightarrow> (\<forall>q. 0 \<le> q \<and> q \<le> 1 - 1 / 2 ^ 53 \<longrightarrow> rt q < 1) \<and> (\<forall>q \<ge> 1. 1 \<le> rt q)"

lemma rounds_int: "rounds53 rnd \<Longrightarrow> 0 \<le> n \<Longrightarrow> n \<le> 2 ^ 53 \<Longrightarrow> rnd (rat_of_int n) = rat_of_int n"
  by (simp add: rounds53_def)

text \<open>The mean of an energy \<open>e\<close> over \<open>n\<close> frames is on the right side of one.\<close>

lemma rounded_mean:
  assumes rnd: "rounds53 rnd" "root_of_unit rt" and n: "0 < n" "n \<le> 2 ^ 53" and e: "0 \<le> e"
  shows "rt (rnd (rat_of_int e / rat_of_int n)) < 1 \<longleftrightarrow> e < n"
proof
  assume "e < n"
  then have "rat_of_int e \<le> rat_of_int n - 1" by (metis of_int_1 of_int_diff of_int_le_iff zle_diff1_eq)
  then have "rat_of_int e / rat_of_int n \<le> 1 - 1 / rat_of_int n" using n(1) by (simp add: field_simps)
  also have "\<dots> \<le> 1 - 1 / 2 ^ 53"
  proof -
    have "rat_of_int n \<le> rat_of_int (2 ^ 53)" using n(2) by (simp only: of_int_le_iff)
    then have "1 / (2 ^ 53) \<le> 1 / rat_of_int n" using n(1) by (intro divide_left_mono) simp_all
    then show ?thesis by simp
  qed
  finally have "rnd (rat_of_int e / rat_of_int n) \<le> 1 - 1 / 2 ^ 53" using rnd(1) monoD [of rnd] unfolding rounds53_def by metis
  moreover have "0 \<le> rnd (rat_of_int e / rat_of_int n)"
  proof -
    have "rnd 0 \<le> rnd (rat_of_int e / rat_of_int n)" using rnd(1) n(1) e by (intro monoD [of rnd]) (simp_all add: rounds53_def)
    then show ?thesis using rounds_int [OF rnd(1), of 0] by simp
  qed
  ultimately show "rt (rnd (rat_of_int e / rat_of_int n)) < 1" using rnd(2) by (simp add: root_of_unit_def)
next
  assume less: "rt (rnd (rat_of_int e / rat_of_int n)) < 1"
  show "e < n"
  proof (rule ccontr)
    assume "\<not> e < n"
    then have "1 \<le> rat_of_int e / rat_of_int n" using n(1) by simp
    then have "rnd 1 \<le> rnd (rat_of_int e / rat_of_int n)" using rnd(1) by (intro monoD [of rnd]) (simp_all add: rounds53_def)
    then have "1 \<le> rt (rnd (rat_of_int e / rat_of_int n))" using rounds_int [OF rnd(1), of 1] rnd(2) by (simp add: root_of_unit_def)
    then show False using less by simp
  qed
qed

section \<open>The watch for silence\<close>

definition energy :: "nat \<Rightarrow> nat \<Rightarrow> bytes \<Rightarrow> int" where
  "energy k chans xs = (if k < chans then (\<Sum>f\<leftarrow>meter_frames chans xs. (f ! k) * (f ! k)) else 0)"

definition frame_count :: "nat \<Rightarrow> bytes \<Rightarrow> int" where
  "frame_count chans xs = int (length (meter_frames chans xs))"

lemma sum_squares_nonneg: "0 \<le> (\<Sum>f\<leftarrow>fs. (f ! k) * (f ! k) :: int)"
  by (induction fs) simp_all

lemma energy_nonneg [simp]: "0 \<le> energy k chans xs"
  by (simp add: energy_def sum_squares_nonneg)

lemma add_square_exact:
  assumes "rounds53 ld" "0 \<le> e" "e + x * x \<le> 2 ^ 53"
  shows "add_square ld x (rat_of_int e) = rat_of_int (e + x * x)"
proof -
  have "ld (rat_of_int (x * x)) = rat_of_int (x * x)" using assms by (intro rounds_int) simp_all
  then show ?thesis using rounds_int [OF assms(1), of "e + x * x"] assms(2,3) by (simp add: add_square_def)
qed

text \<open>The running sums are exact while they fit 53 bits.\<close>

lemma fold_meter_frame:
  assumes "rounds53 ld" "sm_sumSqL m = rat_of_int a" "sm_sumSqR m = rat_of_int b" "0 \<le> a" "0 \<le> b"
    and "a + (\<Sum>f\<leftarrow>fs. (f ! 0) * (f ! 0)) \<le> 2 ^ 53" "1 < chans \<longrightarrow> b + (\<Sum>f\<leftarrow>fs. (f ! 1) * (f ! 1)) \<le> 2 ^ 53"
  shows "sm_frames (fold (meter_frame ld chans) fs m) = sm_frames m \<and>
    sm_sumSqL (fold (meter_frame ld chans) fs m) = rat_of_int (a + (\<Sum>f\<leftarrow>fs. (f ! 0) * (f ! 0))) \<and>
    sm_sumSqR (fold (meter_frame ld chans) fs m) = rat_of_int (b + (if 1 < chans then (\<Sum>f\<leftarrow>fs. (f ! 1) * (f ! 1)) else 0))"
  using assms(2-)
proof (induction fs arbitrary: m a b)
  case (Cons f fs)
  let ?m = "meter_frame ld chans f m" and ?a = "a + f ! 0 * f ! 0" and ?b = "if 1 < chans then b + f ! 1 * f ! 1 else b"
  have "?a \<le> 2 ^ 53" "1 < chans \<longrightarrow> ?b \<le> 2 ^ 53"
    using Cons.prems(5,6) sum_squares_nonneg [of 0 fs] sum_squares_nonneg [of 1 fs] by auto
  then have m: "sm_sumSqL ?m = rat_of_int ?a" "sm_sumSqR ?m = rat_of_int ?b" "sm_frames ?m = sm_frames m"
    using Cons.prems(1-4) add_square_exact [OF assms(1)] by (simp_all add: meter_frame_def Let_def)
  have nn: "0 \<le> ?a" "0 \<le> ?b" using Cons.prems(3,4) by simp_all
  from Cons.IH [OF m(1,2) nn] Cons.prems(5,6) m(3) show ?case by (simp add: add.assoc split: if_splits)
qed simp

lemma meter_frames_zero [simp]: "meter_frames 0 xs = []"
  by (simp add: meter_frames_def)

text \<open>The meter has seen energies \<open>a\<close> and \<open>b\<close>.\<close>

definition metered :: "int \<Rightarrow> int \<Rightarrow> int \<Rightarrow> signal_meter \<Rightarrow> bool" where
  "metered n a b m \<longleftrightarrow> sm_frames m = n \<and> sm_sumSqL m = rat_of_int a \<and> sm_sumSqR m = rat_of_int b \<and> 0 \<le> a \<and> 0 \<le> b"

lemma consume_energy:
  assumes "rounds53 ld" "metered n a b m" "a + energy 0 chans xs \<le> 2 ^ 53" "b + energy 1 chans xs \<le> 2 ^ 53"
  shows "metered (n + frame_count chans xs) (a + energy 0 chans xs) (b + energy 1 chans xs) (consume ld xs chans m)"
proof (cases "chans = 0")
  case True
  then show ?thesis using assms(2) by (simp add: metered_def consume_def energy_def frame_count_def)
next
  case False
  let ?m = "m\<lparr>sm_bytes := sm_bytes m + int (length xs)\<rparr>"
  have e: "energy 0 chans xs = (\<Sum>f\<leftarrow>meter_frames chans xs. (f ! 0) * (f ! 0))" using False by (simp add: energy_def)
  have "a + (\<Sum>f\<leftarrow>meter_frames chans xs. (f ! 0) * (f ! 0)) \<le> 2 ^ 53"
    "1 < chans \<longrightarrow> b + (\<Sum>f\<leftarrow>meter_frames chans xs. (f ! 1) * (f ! 1)) \<le> 2 ^ 53"
    using assms(3,4) False by (simp_all add: energy_def split: if_splits)
  from fold_meter_frame [OF assms(1) _ _ _ _ this, of ?m] assms(2) sum_squares_nonneg [of 0 "meter_frames chans xs"] sum_squares_nonneg [of 1 "meter_frames chans xs"]
  show ?thesis by (simp add: metered_def consume_def Let_def e energy_def frame_count_def)
qed

text \<open>A monitor: in every interval a chunk is metered and the watch is ticked with the snapshot.\<close>

fun watch_run ::
  "(rat \<Rightarrow> rat) \<Rightarrow> (rat \<Rightarrow> rat) \<Rightarrow> (rat \<Rightarrow> rat) \<Rightarrow> nat \<Rightarrow> (bytes \<times> int) list \<Rightarrow> signal_meter \<times> silence_watch \<Rightarrow> signal_meter \<times> silence_watch" where
  "watch_run ld db rt chans [] mw = mw"
| "watch_run ld db rt chans ((xs, dt) # ticks) (m, w) =
     (let m' = consume ld xs chans m in watch_run ld db rt chans ticks (m', snd (sw_tick db rt (snapshot db m') dt w)))"

text \<open>An interval has signal when the energy of its frames reaches one square per frame on a channel.\<close>

definition has_signal :: "nat \<Rightarrow> bytes \<times> int \<Rightarrow> bool" where
  "has_signal chans t \<longleftrightarrow>
     (let n = frame_count chans (fst t) in 0 < n \<and> (n \<le> energy 0 chans (fst t) \<or> n \<le> energy 1 chans (fst t)))"

definition silent_time :: "nat \<Rightarrow> (bytes \<times> int) list \<Rightarrow> int" where
  "silent_time chans ticks = (\<Sum>t\<leftarrow>takeWhile (\<lambda>t. \<not> has_signal chans t) (rev ticks). if meter_frames chans (fst t) = [] then 0 else snd t)"

text \<open>Everything that was metered, per channel and in frames.\<close>

definition total_energy :: "nat \<Rightarrow> nat \<Rightarrow> (bytes \<times> int) list \<Rightarrow> int" where
  "total_energy k chans ticks = (\<Sum>t\<leftarrow>ticks. energy k chans (fst t))"

definition total_frames :: "nat \<Rightarrow> (bytes \<times> int) list \<Rightarrow> int" where
  "total_frames chans ticks = (\<Sum>t\<leftarrow>ticks. frame_count chans (fst t))"

lemma silent_time_snoc:
  "silent_time chans (ticks @ [t]) =
     (if has_signal chans t then 0 else (if meter_frames chans (fst t) = [] then 0 else snd t) + silent_time chans ticks)"
  by (simp add: silent_time_def)

lemma watch_run_append: "watch_run ld db rt chans (us @ vs) mw = watch_run ld db rt chans vs (watch_run ld db rt chans us mw)"
  by (induction ld db rt chans us mw rule: watch_run.induct) (simp_all add: Let_def)

lemma sw_tick_interval:
  assumes r: "rounds53 db" "root_of_unit rt" and m: "metered n a b m" "metered (n + k) (a + e) (b + e') m'"
    and le: "a + e \<le> 2 ^ 53" "b + e' \<le> 2 ^ 53" "0 \<le> e" "0 \<le> e'" "k \<le> 2 ^ 53" and w: "sw_prev w = snapshot db m"
  shows "snd (sw_tick db rt (snapshot db m') dt w) =
    \<lparr>sw_silentMs = (if k \<le> 0 then sw_silentMs w else if k \<le> e \<or> k \<le> e' then 0 else sw_silentMs w + dt), sw_prev = snapshot db m'\<rparr>"
proof -
  have pos: "0 \<le> a" "0 \<le> b" using m(1) by (simp_all add: metered_def)
  then have sums: "db (sm_sumSqL m) = rat_of_int a" "db (sm_sumSqR m) = rat_of_int b"
    "db (sm_sumSqL m') = rat_of_int (a + e)" "db (sm_sumSqR m') = rat_of_int (b + e')"
    using m le rounds_int [OF r(1), of a] rounds_int [OF r(1), of b] rounds_int [OF r(1), of "a + e"] rounds_int [OF r(1), of "b + e'"]
    by (simp_all add: metered_def)
  have diff: "db (rat_of_int e) = rat_of_int e" "db (rat_of_int e') = rat_of_int e'"
    using le pos rounds_int [OF r(1), of e] rounds_int [OF r(1), of e'] by simp_all
  show ?thesis
  proof (cases "k \<le> 0")
    case True
    then show ?thesis using m w by (cases w) (simp add: sw_tick_def snapshot_def metered_def Let_def)
  next
    case False
    have k: "db (rat_of_int k) = rat_of_int k" using False le(5) by (intro rounds_int [OF r(1)]) simp_all
    have "rt (db (rat_of_int e / rat_of_int k)) < 1 \<longleftrightarrow> e < k" "rt (db (rat_of_int e' / rat_of_int k)) < 1 \<longleftrightarrow> e' < k"
      using rounded_mean [OF r] False le(3-5) by simp_all
    then show ?thesis using False m w diff k sums by (cases w) (auto simp: sw_tick_def snapshot_def metered_def Let_def)
  qed
qed

lemma watch_run_exact:
  assumes r: "rounds53 ld" "rounds53 db" "root_of_unit rt"
    and le: "total_energy 0 chans ticks \<le> 2 ^ 53" "total_energy 1 chans ticks \<le> 2 ^ 53" "total_frames chans ticks \<le> 2 ^ 53"
  shows "\<exists>m. metered (total_frames chans ticks) (total_energy 0 chans ticks) (total_energy 1 chans ticks) m \<and>
    watch_run ld db rt chans ticks (fresh_meter, fresh_watch) = (m, \<lparr>sw_silentMs = silent_time chans ticks, sw_prev = snapshot db m\<rparr>)"
  using le
proof (induction ticks rule: rev_induct)
  case Nil
  have "db 0 = 0" using rounds_int [OF r(2), of 0] by simp
  then show ?case by (simp add: metered_def total_energy_def total_frames_def fresh_meter_def fresh_watch_def silent_time_def snapshot_def)
next
  case (snoc t ticks)
  obtain xs dt where t: "t = (xs, dt)" by fastforce
  let ?n = "total_frames chans ticks" and ?a = "total_energy 0 chans ticks" and ?b = "total_energy 1 chans ticks"
  have tot: "total_frames chans (ticks @ [t]) = ?n + frame_count chans xs" "total_energy k chans (ticks @ [t]) = total_energy k chans ticks + energy k chans xs" for k
    by (simp_all add: total_frames_def total_energy_def t)
  have nn: "0 \<le> ?n" "0 \<le> frame_count chans xs" by (auto simp: total_frames_def frame_count_def intro!: sum_list_nonneg)
  have le': "?a + energy 0 chans xs \<le> 2 ^ 53" "?b + energy 1 chans xs \<le> 2 ^ 53" "?n + frame_count chans xs \<le> 2 ^ 53"
    using snoc.prems unfolding tot .
  then have small: "?a \<le> 2 ^ 53" "?b \<le> 2 ^ 53" "?n \<le> 2 ^ 53" "frame_count chans xs \<le> 2 ^ 53"
    using energy_nonneg [of 0 chans xs] energy_nonneg [of 1 chans xs] nn by linarith+
  from snoc.IH [OF small(1-3)] obtain m where m: "metered ?n ?a ?b m"
    "watch_run ld db rt chans ticks (fresh_meter, fresh_watch) = (m, \<lparr>sw_silentMs = silent_time chans ticks, sw_prev = snapshot db m\<rparr>)" by blast
  note m' = consume_energy [OF r(1) m(1) le'(1,2)]
  have fc: "frame_count chans xs \<le> 0 \<longleftrightarrow> meter_frames chans xs = []" "0 < frame_count chans xs \<longleftrightarrow> meter_frames chans xs \<noteq> []"
    by (simp_all add: frame_count_def)
  have "snd (sw_tick db rt (snapshot db (consume ld xs chans m)) dt \<lparr>sw_silentMs = silent_time chans ticks, sw_prev = snapshot db m\<rparr>) =
    \<lparr>sw_silentMs = silent_time chans (ticks @ [t]), sw_prev = snapshot db (consume ld xs chans m)\<rparr>"
    using sw_tick_interval [OF r(2,3) m(1) m' le'(1,2) energy_nonneg energy_nonneg small(4), of "\<lparr>sw_silentMs = silent_time chans ticks, sw_prev = snapshot db m\<rparr>" dt]
    by (auto simp: silent_time_snoc t has_signal_def Let_def fc)
  then show ?case using m' m(2) unfolding tot by (auto simp: watch_run_append t Let_def)
qed

text \<open>
  C34: The watch for silence, which only sees the running sums of the meter, agrees with the intervals themselves: after any sequence of
  intervals the alarm is on exactly when the intervals since the last one with signal, the ones with no frames not counted, last three
  seconds or more. This is so as long as the energy metered since the start, and the number of frames, are at most \<open>2\<^sup>5\<^sup>3\<close>, for any
  roundings that are exact up to there.
\<close>

theorem silence_watch_exact:
  assumes "rounds53 ld" "rounds53 db" "root_of_unit rt"
    and "total_energy 0 chans ticks \<le> 2 ^ 53" "total_energy 1 chans ticks \<le> 2 ^ 53" "total_frames chans ticks \<le> 2 ^ 53"
  shows "sw_alarmed (snd (watch_run ld db rt chans ticks (fresh_meter, fresh_watch))) \<longleftrightarrow> silent_time chans ticks \<ge> 3000"
  using watch_run_exact [OF assms] by (auto simp: sw_alarmed_def kAlarmMs_def)

text \<open>A rounding to a grid of \<open>2\<^sup>-\<^sup>5\<^sup>3\<close>, and two intervals of silence after one with signal.\<close>

definition grid53 :: "rat \<Rightarrow> rat" where
  "grid53 x = rat_of_int \<lfloor>x * 2 ^ 53\<rfloor> / 2 ^ 53"

lemma grid53_rounds: "rounds53 grid53"
proof -
  have "mono grid53" by (auto simp: mono_def grid53_def intro!: divide_right_mono floor_mono)
  moreover have "grid53 (rat_of_int n) = rat_of_int n" for n
    using floor_of_int [of "n * 2 ^ 53", where 'a = rat] by (simp add: grid53_def)
  moreover have "(1 - 1 / 2 ^ 53) * 2 ^ 53 = rat_of_int (2 ^ 53 - 1)" by simp
  then have "grid53 (1 - 1 / 2 ^ 53) = rat_of_int (2 ^ 53 - 1) / 2 ^ 53" unfolding grid53_def by (simp only: floor_of_int)
  then have "grid53 (1 - 1 / 2 ^ 53) = 1 - 1 / 2 ^ 53" by simp
  ultimately show ?thesis by (simp add: rounds53_def)
qed

theorem silence_watch_exact_witness:
  "sw_alarmed (snd (watch_run grid53 grid53 (\<lambda>q. q) 1 [([7, 0, 9, 0], 1000), ([0, 0], 1500), ([0, 0, 0, 0], 1500)] (fresh_meter, fresh_watch)))"
proof -
  let ?ts = "[([7, 0, 9, 0], 1000), ([0, 0], 1500), ([0, 0, 0, 0], 1500)] :: (bytes \<times> int) list"
  have rt: "root_of_unit (\<lambda>q. q)"
    unfolding root_of_unit_def by (auto intro: order_le_less_trans)
  have fr: "meter_frames 1 [7, 0, 9, 0] = [[7], [9]]" "meter_frames 1 [0, 0] = [[0]]" "meter_frames 1 [0, 0, 0, 0] = [[0], [0]]"
    by code_simp+
  have s: "silent_time 1 ?ts = 3000" by (simp add: silent_time_def has_signal_def frame_count_def energy_def fr [simplified])
  have t: "total_energy 0 1 ?ts = 130" "total_energy 1 1 ?ts = 0" "total_frames 1 ?ts = 5"
    by (simp_all add: total_energy_def total_frames_def frame_count_def energy_def fr [simplified])
  from silence_watch_exact [OF grid53_rounds grid53_rounds rt, of 1 ?ts] s t show ?thesis by simp
qed

text \<open>
  Past that bound a format of 53 bits loses the signal: where the sum has reached \<open>2\<^sup>5\<^sup>3\<close> and one more rounds back to it, as it does
  to nearest with ties to even, an interval of any number of frames of amplitude one leaves the sum where it was.
\<close>

lemma quiet_signal_absorbed:
  assumes "ld 1 = 1" "ld (2 ^ 53 + 1) = 2 ^ 53" "sm_sumSqL m = 2 ^ 53" "\<forall>f \<in> set (meter_frames chans xs). f ! 0 = 1"
  shows "sm_sumSqL (consume ld xs chans m) = 2 ^ 53"
proof -
  have "ld 9007199254740993 = 9007199254740992" using assms(2) by simp
  then have "sm_sumSqL (fold (meter_frame ld chans) fs m) = 2 ^ 53" if "\<forall>f \<in> set fs. f ! 0 = 1" "sm_sumSqL m = 2 ^ 53" for fs m
    using that by (induction fs arbitrary: m) (simp_all add: meter_frame_def add_square_def Let_def assms(1))
  with assms(3,4) show ?thesis by (simp add: consume_def Let_def)
qed

end
