(* ===== verification/Hamlib_Bridge.thy ===== *)
theory Hamlib_Bridge
  imports Audio_Packet Bounded_Fifo
begin

text \<open>
  The Hamlib bridge (\<open>tools/na_hamlib_bridge.c\<close>, \<open>tools/na_stream_rate.h\<close>): the choice of the sample rate, the byte ring between the mixer and the
  radio, the receive worker and the transmit worker with its PTT state. libhamlib and the server are an environment: what they answer
  in a turn is an argument of the turn, and what the transmit worker tells the rig is kept as a list of events.
\<close>

section \<open>The sample rate\<close>

text \<open>A rate list is an array bounded by \<open>cap\<close> entries that ends at the first entry that is not positive; \<open>None\<close> is a null pointer.\<close>

definition rate_list :: "int list option \<Rightarrow> nat \<Rightarrow> int list" where
  "rate_list rates cap = (case rates of None \<Rightarrow> [] | Some xs \<Rightarrow> takeWhile (\<lambda>r. r > 0) (take cap xs))"

definition na_rate_list_len :: "int list option \<Rightarrow> nat \<Rightarrow> nat" where
  "na_rate_list_len rates cap = length (rate_list rates cap)"

definition na_rate_list_has :: "int list option \<Rightarrow> nat \<Rightarrow> int \<Rightarrow> bool" where
  "na_rate_list_has rates cap want \<longleftrightarrow> want > 0 \<and> want \<in> set (rate_list rates cap)"

definition rate_delta :: "int \<Rightarrow> int \<Rightarrow> int" where
  "rate_delta preferred r = (if r > preferred then r - preferred else preferred - r)"

text \<open>The inner loop: the best rate so far and its distance, \<open>0\<close> while there is none.\<close>

fun closest_rate :: "int \<Rightarrow> (int \<Rightarrow> bool) \<Rightarrow> int list \<Rightarrow> int \<times> int \<Rightarrow> int \<times> int" where
  "closest_rate preferred allowed [] acc = acc"
| "closest_rate preferred allowed (r # rs) (best, best_delta) =
     (let delta = rate_delta preferred r
      in closest_rate preferred allowed rs
           (if allowed r \<and> (best = 0 \<or> delta < best_delta \<or> (delta = best_delta \<and> r > best)) then (r, delta) else (best, best_delta)))"

text \<open>One pass: \<open>None\<close> when it finds no rate.\<close>

definition rate_pass :: "int list option \<Rightarrow> nat \<Rightarrow> int list option \<Rightarrow> nat \<Rightarrow> int \<Rightarrow> bool \<Rightarrow> int option" where
  "rate_pass rx rx_cap tx tx_cap preferred with_tx =
     (let allowed = (\<lambda>r. \<not> with_tx \<or> na_rate_list_has tx tx_cap r)
      in if allowed preferred \<and> na_rate_list_has rx rx_cap preferred then Some preferred
         else let best = fst (closest_rate preferred allowed (rate_list rx rx_cap) (0, 0))
              in if best > 0 then Some best else None)"

definition na_choose_stream_rate :: "int list option \<Rightarrow> nat \<Rightarrow> int list option \<Rightarrow> nat \<Rightarrow> int \<Rightarrow> int" where
  "na_choose_stream_rate rx rx_cap tx tx_cap preferred =
     (if preferred \<le> 0 then 0
      else if na_rate_list_len rx rx_cap = 0 then preferred
      else let use_tx = na_rate_list_len tx tx_cap > 0
           in case rate_pass rx rx_cap tx tx_cap preferred use_tx of
                Some r \<Rightarrow> r
              | None \<Rightarrow>
                  if \<not> use_tx then preferred
                  else case rate_pass rx rx_cap tx tx_cap preferred False of Some r \<Rightarrow> r | None \<Rightarrow> preferred)"

section \<open>The byte ring\<close>

record byte_ring =
  br_buf :: bytes
  br_head :: nat
  br_count :: nat
  br_lost_queue :: "64 word"
  br_lost_requeue :: "64 word"
  br_short_writes :: "64 word"

abbreviation br_cap :: "byte_ring \<Rightarrow> nat" where
  "br_cap r \<equiv> length (br_buf r)"

definition ring_init :: "nat \<Rightarrow> byte_ring" where
  "ring_init cap = \<lparr>br_buf = replicate cap 0, br_head = 0, br_count = 0, br_lost_queue = 0, br_lost_requeue = 0, br_short_writes = 0\<rparr>"

text \<open>The two copies of \<open>src\<close> into the buffer from \<open>pos\<close>, and out of it.\<close>

definition memcpy_at :: "nat \<Rightarrow> bytes \<Rightarrow> bytes \<Rightarrow> bytes" where
  "memcpy_at i xs buf = take i buf @ xs @ drop (i + length xs) buf"

definition copy_in :: "nat \<Rightarrow> bytes \<Rightarrow> bytes \<Rightarrow> bytes" where
  "copy_in pos src buf =
     (let first = min (length src) (length buf - pos)
      in memcpy_at 0 (drop first src) (memcpy_at pos (take first src) buf))"

definition copy_out :: "nat \<Rightarrow> nat \<Rightarrow> bytes \<Rightarrow> bytes" where
  "copy_out pos n buf = (let first = min n (length buf - pos) in take first (drop pos buf) @ take (n - first) buf)"

definition ring_push :: "bytes \<Rightarrow> byte_ring \<Rightarrow> byte_ring" where
  "ring_push src r =
     (let cap = br_cap r; n = length src;
          (src, n, r) = (if n > cap then (drop (n - cap) src, cap, r\<lparr>br_lost_queue := br_lost_queue r + word_of_nat (n - cap)\<rparr>) else (src, n, r));
          r = (if br_count r + n > cap
               then let d = br_count r + n - cap
                    in r\<lparr>br_lost_queue := br_lost_queue r + word_of_nat d, br_head := (br_head r + d) mod cap, br_count := br_count r - d\<rparr>
               else r)
      in r\<lparr>br_buf := copy_in ((br_head r + br_count r) mod cap) src (br_buf r), br_count := br_count r + n\<rparr>)"

definition ring_requeue :: "bytes \<Rightarrow> byte_ring \<Rightarrow> byte_ring" where
  "ring_requeue src r =
     (let cap = br_cap r; n = length src; space = cap - br_count r;
          r = r\<lparr>br_short_writes := br_short_writes r + 1\<rparr>;
          (src, n, r) = (if n > space then (drop (n - space) src, space, r\<lparr>br_lost_requeue := br_lost_requeue r + word_of_nat (n - space)\<rparr>) else (src, n, r));
          head = (br_head r + cap - n) mod cap
      in r\<lparr>br_head := head, br_buf := copy_in head src (br_buf r), br_count := br_count r + n\<rparr>)"

definition ring_pop :: "nat \<Rightarrow> byte_ring \<Rightarrow> byte_ring \<times> bytes" where
  "ring_pop max_bytes r =
     (let n = min (br_count r) max_bytes
      in (r\<lparr>br_head := (br_head r + n) mod br_cap r, br_count := br_count r - n\<rparr>, copy_out (br_head r) n (br_buf r)))"

section \<open>The workers\<close>

datatype rig_status = Rig_ok | Rig_timeout | Rig_closed | Rig_error

text \<open>What the transmit worker tells the rig; a PTT command with whether it succeeded, a write with the bytes the rig took.\<close>

datatype rig_event = Ptt bool bool | Rig_write bytes

text \<open>
  One turn of the environment: the stop flag, the frames the mixer pushed before the turn and while the write went on, whether the
  server has a transmit owner, whether PTT commands succeed, and the outcome of the write.
\<close>

record tx_env =
  te_stop :: bool
  te_before :: "bytes list"
  te_during :: "bytes list"
  te_owner :: bool
  te_ptt :: bool
  te_status :: rig_status
  te_written :: nat

record tx_worker =
  tw_ring :: byte_ring
  tw_ptt_on :: bool
  tw_owned :: bool
  tw_owned_written :: "64 word"
  tw_events :: "rig_event list"
  tw_discarded :: nat
  tw_failed :: bool

text \<open>\<open>tw_discarded\<close> counts the bytes taken off the ring and dropped because there was no owner or the write failed; the code does not.\<close>

definition ptt_step :: "bool \<Rightarrow> tx_env \<Rightarrow> tx_worker \<Rightarrow> tx_worker" where
  "ptt_step use_ptt e w =
     (if use_ptt \<and> te_owner e \<and> \<not> tw_ptt_on w then w\<lparr>tw_ptt_on := True, tw_events := tw_events w @ [Ptt True (te_ptt e)]\<rparr>
      else if use_ptt \<and> \<not> te_owner e \<and> tw_ptt_on w then w\<lparr>tw_ptt_on := False, tw_events := tw_events w @ [Ptt False (te_ptt e)]\<rparr>
      else w)"

definition owner_step :: "tx_env \<Rightarrow> tx_worker \<Rightarrow> tx_worker" where
  "owner_step e w =
     (if te_owner e = tw_owned w then w
      else w\<lparr>tw_owned := te_owner e, tw_owned_written := (if te_owner e then 0 else tw_owned_written w)\<rparr>)"

text \<open>The write of \<open>xs\<close>; the flag says whether the worker goes on.\<close>

definition write_step :: "tx_env \<Rightarrow> bytes \<Rightarrow> tx_worker \<Rightarrow> bool \<times> tx_worker" where
  "write_step e xs w =
     (if te_status e = Rig_closed \<or> te_status e = Rig_error
        then (False, w\<lparr>tw_failed := True, tw_discarded := tw_discarded w + length xs\<rparr>)
      else
        let written = min (te_written e) (length xs);
            w = w\<lparr>tw_owned_written := tw_owned_written w + word_of_nat written, tw_events := tw_events w @ [Rig_write (take written xs)],
                  tw_ring := fold ring_push (te_during e) (tw_ring w)\<rparr>
        in (True, if written < length xs then w\<lparr>tw_ring := ring_requeue (drop written xs) (tw_ring w)\<rparr> else w))"

definition tx_turn :: "bool \<Rightarrow> nat \<Rightarrow> tx_env \<Rightarrow> tx_worker \<Rightarrow> bool \<times> tx_worker" where
  "tx_turn use_ptt chunk e w =
     (let (r, xs) = ring_pop chunk (fold ring_push (te_before e) (tw_ring w));
          w = ptt_step use_ptt e (owner_step e (w\<lparr>tw_ring := r\<rparr>))
      in if xs \<noteq> [] \<and> te_owner e then write_step e xs w
         else (True, w\<lparr>tw_discarded := tw_discarded w + length xs\<rparr>))"

definition tx_finish :: "tx_env \<Rightarrow> tx_worker \<Rightarrow> tx_worker" where
  "tx_finish e w = (if tw_ptt_on w then w\<lparr>tw_events := tw_events w @ [Ptt False (te_ptt e)]\<rparr> else w)"

text \<open>The worker over the turns it has seen; the flag says whether it has ended.\<close>

fun tx_thread :: "bool \<Rightarrow> nat \<Rightarrow> tx_env list \<Rightarrow> tx_worker \<Rightarrow> bool \<times> tx_worker" where
  "tx_thread use_ptt chunk [] w = (False, w)"
| "tx_thread use_ptt chunk (e # es) w =
     (if te_stop e then (True, tx_finish e w)
      else case tx_turn use_ptt chunk e w of
             (True, w') \<Rightarrow> tx_thread use_ptt chunk es w'
           | (False, w') \<Rightarrow> (True, tx_finish e w'))"

definition tx_start :: "nat \<Rightarrow> tx_worker" where
  "tx_start cap = \<lparr>tw_ring = ring_init cap, tw_ptt_on = False, tw_owned = False, tw_owned_written = 0, tw_events = [], tw_discarded = 0, tw_failed = False\<rparr>"

text \<open>The size of a write: the budget of the stream when it has one, at most the local buffer.\<close>

definition tx_chunk :: "int \<Rightarrow> nat" where
  "tx_chunk budget = (if budget > 0 \<and> budget < 16384 then nat budget else 16384)"

text \<open>The receive worker: what is injected into the server and counted by the meter, and whether it failed.\<close>

fun rx_thread :: "(bool \<times> rig_status \<times> bytes) list \<Rightarrow> bytes list \<Rightarrow> bytes list \<times> bool option" where
  "rx_thread [] injected = (injected, None)"
| "rx_thread ((stop, st, got) # rest) injected =
     (if stop then (injected, Some False)
      else if st = Rig_ok \<and> got \<noteq> [] then rx_thread rest (injected @ [got])
      else if st = Rig_timeout \<or> st = Rig_ok then rx_thread rest injected
      else (injected, Some True))"

section \<open>The chosen rate is the best one\<close>

text \<open>Nearer to the preference, and the higher one of two that are equally near.\<close>

definition no_worse :: "int \<Rightarrow> int \<Rightarrow> int \<Rightarrow> bool" where
  "no_worse preferred x y \<longleftrightarrow> rate_delta preferred x < rate_delta preferred y \<or> (rate_delta preferred x = rate_delta preferred y \<and> x \<ge> y)"

lemma no_worse_refl [simp]: "no_worse p x x"
  by (simp add: no_worse_def)

lemma no_worse_trans: "no_worse p x y \<Longrightarrow> no_worse p y z \<Longrightarrow> no_worse p x z"
  by (auto simp: no_worse_def)

lemma no_worse_total: "\<not> no_worse p x y \<Longrightarrow> no_worse p y x"
  by (auto simp: no_worse_def)

definition rate_acc :: "int \<Rightarrow> int set \<Rightarrow> int \<times> int \<Rightarrow> bool" where
  "rate_acc p S acc \<longleftrightarrow> (if S = {} then acc = (0, 0)
     else fst acc \<in> S \<and> snd acc = rate_delta p (fst acc) \<and> (\<forall>r\<in>S. no_worse p (fst acc) r))"

lemma closest_rate_acc:
  assumes "\<forall>r\<in>set rs. r > 0" "\<forall>r\<in>S. r > 0" "rate_acc p S acc"
  shows "rate_acc p (S \<union> {r \<in> set rs. allowed r}) (closest_rate p allowed rs acc)"
  using assms
proof (induction rs arbitrary: S acc)
  case (Cons r rs)
  obtain best bd where acc: "acc = (best, bd)" by fastforce
  let ?S = "if allowed r then insert r S else S"
  let ?acc = "if allowed r \<and> (best = 0 \<or> rate_delta p r < bd \<or> (rate_delta p r = bd \<and> r > best)) then (r, rate_delta p r) else (best, bd)"
  have "rate_acc p ?S ?acc"
  proof (cases "allowed r \<and> S \<noteq> {}")
    case True
    then have b: "best \<in> S" "bd = rate_delta p best" "\<forall>x\<in>S. no_worse p best x" "best > 0" using Cons.prems acc by (auto simp: rate_acc_def)
    show ?thesis
    proof (cases "rate_delta p r < bd \<or> (rate_delta p r = bd \<and> r > best)")
      case better: True
      then have "no_worse p r best" using b(2) by (auto simp: no_worse_def)
      then have "no_worse p r x" if "x \<in> S" for x using b(3) that no_worse_trans by blast
      then show ?thesis using better True b by (simp add: rate_acc_def)
    next
      case False
      then have "no_worse p best r" using b(2) by (auto simp: no_worse_def)
      then show ?thesis using False True b by (simp add: rate_acc_def) auto
    qed
  next
    case False
    then consider "\<not> allowed r" | "allowed r" "S = {}" by blast
    then show ?thesis using Cons.prems(3) acc by cases (simp_all add: rate_acc_def)
  qed
  moreover have "\<forall>x\<in>?S. x > 0" using Cons.prems by simp
  ultimately have "rate_acc p (?S \<union> {x \<in> set rs. allowed x}) (closest_rate p allowed rs ?acc)" using Cons.IH [of ?S ?acc] Cons.prems(1) by simp
  moreover have "?S \<union> {x \<in> set rs. allowed x} = S \<union> {x \<in> set (r # rs). allowed x}" by auto
  ultimately show ?case by (simp add: acc Let_def)
qed simp

lemma rate_list_pos: "r \<in> set (rate_list rates cap) \<Longrightarrow> r > 0"
  by (auto simp: rate_list_def dest: set_takeWhileD split: option.splits)

lemma rate_pass_spec:
  fixes rx tx :: "int list option" and rx_cap tx_cap :: nat and with_tx :: bool
  assumes "preferred > 0"
  defines "C \<equiv> {r \<in> set (rate_list rx rx_cap). with_tx \<longrightarrow> r \<in> set (rate_list tx tx_cap)}"
  shows "case rate_pass rx rx_cap tx tx_cap preferred with_tx of None \<Rightarrow> C = {} | Some r \<Rightarrow> r \<in> C \<and> (\<forall>x\<in>C. no_worse preferred r x)"
proof -
  let ?allowed = "\<lambda>r. \<not> with_tx \<or> na_rate_list_has tx tx_cap r"
  have C: "C = {r \<in> set (rate_list rx rx_cap). ?allowed r}" unfolding C_def na_rate_list_has_def using rate_list_pos by blast
  show ?thesis
  proof (cases "preferred \<in> C")
    case True
    then have "rate_pass rx rx_cap tx tx_cap preferred with_tx = Some preferred"
      using assms(1) unfolding C by (simp add: rate_pass_def na_rate_list_has_def)
    moreover have "no_worse preferred preferred x" for x by (auto simp: no_worse_def rate_delta_def)
    ultimately show ?thesis using True by simp
  next
    case False
    let ?best = "closest_rate preferred ?allowed (rate_list rx rx_cap) (0, 0)"
    have acc: "rate_acc preferred C ?best"
      using closest_rate_acc [of "rate_list rx rx_cap" "{}" preferred "(0, 0)" ?allowed] rate_list_pos unfolding C by (simp add: rate_acc_def)
    have p: "rate_pass rx rx_cap tx tx_cap preferred with_tx = (if fst ?best > 0 then Some (fst ?best) else None)"
      using False assms(1) unfolding C by (auto simp: rate_pass_def na_rate_list_has_def Let_def)
    show ?thesis
    proof (cases "C = {}")
      case False
      then have "fst ?best \<in> C" "\<forall>x\<in>C. no_worse preferred (fst ?best) x" using acc by (simp_all add: rate_acc_def)
      moreover have "fst ?best > 0" using calculation rate_list_pos unfolding C by blast
      ultimately show ?thesis using p by simp
    qed (use acc p in \<open>simp add: rate_acc_def\<close>)
  qed
qed

text \<open>The rates to choose from: those native in both directions when there are any, else the receive rates.\<close>

definition rate_candidates :: "int list \<Rightarrow> int list \<Rightarrow> int set" where
  "rate_candidates rx tx = (if set rx \<inter> set tx = {} then set rx else set rx \<inter> set tx)"

section \<open>The ring is a queue\<close>

definition ring_ok :: "byte_ring \<Rightarrow> bool" where
  "ring_ok r \<longleftrightarrow> 0 < br_cap r \<and> br_head r < br_cap r \<and> br_count r \<le> br_cap r"

definition ring_contents :: "byte_ring \<Rightarrow> bytes" where
  "ring_contents r = map (\<lambda>i. br_buf r ! ((br_head r + i) mod br_cap r)) [0..<br_count r]"

lemma length_ring_contents [simp]: "length (ring_contents r) = br_count r"
  by (simp add: ring_contents_def)

lemma length_memcpy_at [simp]: "i + length xs \<le> length buf \<Longrightarrow> length (memcpy_at i xs buf) = length buf"
  by (simp add: memcpy_at_def)

lemma nth_memcpy_at:
  "i + length xs \<le> length buf \<Longrightarrow> k < length buf \<Longrightarrow>
   memcpy_at i xs buf ! k = (if i \<le> k \<and> k < i + length xs then xs ! (k - i) else buf ! k)"
  by (auto simp: memcpy_at_def nth_append min_def)

lemma length_copy_in [simp]: "pos < length buf \<Longrightarrow> length src \<le> length buf \<Longrightarrow> length (copy_in pos src buf) = length buf"
  by (simp add: copy_in_def Let_def)

text \<open>Positions are counted from \<open>pos\<close> around the buffer.\<close>

lemma wrap_add: "(pos :: nat) < c \<Longrightarrow> j < c \<Longrightarrow> (pos + j) mod c = (if pos + j < c then pos + j else pos + j - c)"
  by (auto simp: mod_if)

lemma nth_copy_in:
  assumes "pos < length buf" "length src \<le> length buf" "j < length buf"
  shows "copy_in pos src buf ! ((pos + j) mod length buf) = (if j < length src then src ! j else buf ! ((pos + j) mod length buf))"
  using assms unfolding copy_in_def Let_def
  by (simp add: wrap_add nth_memcpy_at min_def) auto

lemma nth_copy_out:
  assumes "pos < length buf" "n \<le> length buf"
  shows "copy_out pos n buf = map (\<lambda>i. buf ! ((pos + i) mod length buf)) [0..<n]"
proof (rule nth_equalityI)
  let ?f = "min n (length buf - pos)"
  show l: "length (copy_out pos n buf) = length (map (\<lambda>i. buf ! ((pos + i) mod length buf)) [0..<n])"
    using assms by (simp add: copy_out_def Let_def)
  fix i assume "i < length (copy_out pos n buf)"
  then have i: "i < n" using l by simp
  show "copy_out pos n buf ! i = map (\<lambda>i. buf ! ((pos + i) mod length buf)) [0..<n] ! i"
  proof (cases "i < ?f")
    case True
    then show ?thesis using assms i by (simp add: copy_out_def Let_def nth_append)
  next
    case False
    then have f: "?f = length buf - pos" "\<not> pos + i < length buf" using i by auto
    have "copy_out pos n buf ! i = buf ! (pos + i - length buf)"
      using assms i f False unfolding copy_out_def Let_def f(1) by (simp add: nth_append add.commute)
    then show ?thesis using assms i f by (simp add: wrap_add)
  qed
qed

lemma wrap_again: "(a + (i + c)) mod c = (a + i) mod (c :: nat)"
  by (simp flip: add.assoc)

lemma nth_contents: "i < br_count r \<Longrightarrow> ring_contents r ! i = br_buf r ! ((br_head r + i) mod br_cap r)"
  by (simp add: ring_contents_def)

lemma advance:
  assumes "ring_ok r" "d \<le> br_count r"
  defines "r' \<equiv> r\<lparr>br_head := (br_head r + d) mod br_cap r, br_count := br_count r - d\<rparr>"
  shows "ring_ok r'" "ring_contents r' = drop d (ring_contents r)"
proof -
  show "ring_ok r'" using assms by (auto simp: ring_ok_def)
  show "ring_contents r' = drop d (ring_contents r)"
    by (rule nth_equalityI) (use assms in \<open>simp_all add: nth_contents ring_ok_def mod_add_left_eq add.assoc\<close>)
qed

lemma ring_pop_facts:
  assumes "ring_ok r"
  shows "ring_ok (fst (ring_pop n r))" "ring_contents (fst (ring_pop n r)) = drop n (ring_contents r)"
    "snd (ring_pop n r) = take n (ring_contents r)" "br_cap (fst (ring_pop n r)) = br_cap r"
proof -
  show "ring_ok (fst (ring_pop n r))" "br_cap (fst (ring_pop n r)) = br_cap r" using assms by (auto simp: ring_pop_def ring_ok_def Let_def)
  show "ring_contents (fst (ring_pop n r)) = drop n (ring_contents r)"
    using advance(2) [OF assms, of "min (br_count r) n"] by (simp add: ring_pop_def Let_def min_def)
  have tk: "take n [0..<br_count r] = [0..<min (br_count r) n]" by (cases "n \<le> br_count r") (simp_all add: take_upt min_def)
  have "copy_out (br_head r) (min (br_count r) n) (br_buf r) = take n (ring_contents r)"
    using assms by (subst nth_copy_out) (auto simp: ring_ok_def ring_contents_def take_map tk)
  then show "snd (ring_pop n r) = take n (ring_contents r)" by (simp add: ring_pop_def Let_def)
qed

lemma append_fits:
  assumes "ring_ok r" "br_count r + length src \<le> br_cap r"
  defines "r' \<equiv> r\<lparr>br_buf := copy_in ((br_head r + br_count r) mod br_cap r) src (br_buf r), br_count := br_count r + length src\<rparr>"
  shows "ring_ok r'" "ring_contents r' = ring_contents r @ src"
proof -
  have c: "0 < br_cap r" "br_head r < br_cap r" "br_count r \<le> br_cap r" using assms by (simp_all add: ring_ok_def)
  let ?pos = "(br_head r + br_count r) mod br_cap r"
  have p: "?pos < br_cap r" using c by simp
  have l: "length (copy_in ?pos src (br_buf r)) = br_cap r" using p assms(2) by simp
  then show "ring_ok r'" using assms c by (simp add: ring_ok_def)
  show "ring_contents r' = ring_contents r @ src"
  proof (rule nth_equalityI)
    fix i assume "i < length (ring_contents r')"
    then have i: "i < br_count r + length src" by (simp add: r'_def)
    define j where "j = (if i < br_count r then i + br_cap r - br_count r else i - br_count r)"
    have j: "j < br_cap r" "(?pos + j) mod br_cap r = (br_head r + i) mod br_cap r"
      using i c assms(2) by (auto simp: j_def mod_add_left_eq add.assoc wrap_again)
    have "ring_contents r' ! i = copy_in ?pos src (br_buf r) ! ((?pos + j) mod br_cap r)" using i l j(2) by (simp add: nth_contents r'_def)
    also have "\<dots> = (if j < length src then src ! j else br_buf r ! ((br_head r + i) mod br_cap r))"
      using nth_copy_in [OF p _ j(1), of src] assms(2) j(2) by simp
    also have "\<dots> = (ring_contents r @ src) ! i"
      using i assms(2) c by (auto simp: j_def nth_append nth_contents)
    finally show "ring_contents r' ! i = (ring_contents r @ src) ! i" .
  qed (simp add: r'_def)
qed

lemma prepend_fits:
  assumes "ring_ok r" "br_count r + length src \<le> br_cap r"
  defines "h \<equiv> (br_head r + br_cap r - length src) mod br_cap r"
  defines "r' \<equiv> r\<lparr>br_head := h, br_buf := copy_in h src (br_buf r), br_count := br_count r + length src\<rparr>"
  shows "ring_ok r'" "ring_contents r' = src @ ring_contents r"
proof -
  have c: "0 < br_cap r" "br_head r < br_cap r" "br_count r \<le> br_cap r" using assms by (simp_all add: ring_ok_def)
  have h: "h < br_cap r" using c by (simp add: h_def)
  have l: "length (copy_in h src (br_buf r)) = br_cap r" using h assms(2) by simp
  then show "ring_ok r'" using assms c h by (simp add: ring_ok_def)
  show "ring_contents r' = src @ ring_contents r"
  proof (rule nth_equalityI)
    fix i assume "i < length (ring_contents r')"
    then have i: "i < br_count r + length src" "i < br_cap r" using assms(2) by (simp_all add: r'_def)
    have w: "(h + i) mod br_cap r = (br_head r + (i - length src)) mod br_cap r" if "length src \<le> i"
    proof -
      have "(h + i) mod br_cap r = (br_head r + br_cap r - length src + i) mod br_cap r" by (simp add: h_def mod_add_left_eq)
      also have "br_head r + br_cap r - length src + i = br_head r + (i - length src) + br_cap r" using that assms(2) by simp
      finally show ?thesis by simp
    qed
    have "ring_contents r' ! i = copy_in h src (br_buf r) ! ((h + i) mod br_cap r)" using i l by (simp add: nth_contents r'_def)
    also have "\<dots> = (if i < length src then src ! i else br_buf r ! ((h + i) mod br_cap r))"
      using nth_copy_in [OF h _ i(2), of src] assms(2) by simp
    also have "\<dots> = (src @ ring_contents r) ! i"
      using i w by (auto simp: nth_append nth_contents)
    finally show "ring_contents r' ! i = (src @ ring_contents r) ! i" .
  qed (simp add: r'_def)
qed

lemma ring_push_facts:
  assumes "ring_ok r"
  shows "ring_ok (ring_push xs r)" "br_cap (ring_push xs r) = br_cap r"
    "ring_contents (ring_push xs r) = drop (br_count r + length xs - br_cap r) (ring_contents r @ xs)"
    "br_lost_queue (ring_push xs r) = br_lost_queue r + word_of_nat (br_count r + length xs - br_cap r)"
    "br_lost_requeue (ring_push xs r) = br_lost_requeue r" "br_short_writes (ring_push xs r) = br_short_writes r"
proof -
  have c: "0 < br_cap r" "br_head r < br_cap r" "br_count r \<le> br_cap r" using assms by (simp_all add: ring_ok_def)
  define ys where "ys = drop (length xs - br_cap r) xs"
  define d where "d = br_count r + length ys - br_cap r"
  define lost where "lost = br_lost_queue r + word_of_nat (length xs - br_cap r) + word_of_nat d"
  define q where "q = r\<lparr>br_lost_queue := lost, br_head := (br_head r + d) mod br_cap r, br_count := br_count r - d\<rparr>"
  have d: "d \<le> br_count r" "length ys \<le> br_cap r" by (simp_all add: d_def ys_def)
  have q: "ring_ok q" "ring_contents q = drop d (ring_contents r)" "br_cap q = br_cap r" "br_count q = br_count r - d"
    using advance [OF assms d(1)] by (simp_all add: q_def ring_ok_def ring_contents_def)
  have e: "ring_push xs r = q\<lparr>br_buf := copy_in ((br_head q + br_count q) mod br_cap q) ys (br_buf q), br_count := br_count q + length ys\<rparr>"
    using c by (auto simp: ring_push_def Let_def q_def lost_def d_def ys_def not_less algebra_simps)
  have f: "br_count q + length ys \<le> br_cap q" using q d c by (auto simp: d_def)
  have k: "drop (br_count r + length xs - br_cap r) (ring_contents r @ xs) = drop d (ring_contents r) @ ys"
    using c by (cases "length xs \<le> br_cap r") (auto simp: ys_def d_def)
  from append_fits [OF q(1) f]
  show "ring_ok (ring_push xs r)" "ring_contents (ring_push xs r) = drop (br_count r + length xs - br_cap r) (ring_contents r @ xs)"
    unfolding e k q(2) by - assumption+
  show "br_cap (ring_push xs r) = br_cap r" unfolding e using f q(3) c by simp
  show "br_lost_queue (ring_push xs r) = br_lost_queue r + word_of_nat (br_count r + length xs - br_cap r)"
    unfolding e using c by (cases "length xs \<le> br_cap r") (simp_all add: q_def lost_def d_def ys_def add.commute flip: of_nat_add)
  show "br_lost_requeue (ring_push xs r) = br_lost_requeue r" "br_short_writes (ring_push xs r) = br_short_writes r"
    unfolding e by (simp_all add: q_def)
qed

lemma ring_requeue_facts:
  assumes "ring_ok r"
  shows "ring_ok (ring_requeue xs r)" "br_cap (ring_requeue xs r) = br_cap r"
    "ring_contents (ring_requeue xs r) = drop (br_count r + length xs - br_cap r) xs @ ring_contents r"
    "br_lost_requeue (ring_requeue xs r) = br_lost_requeue r + word_of_nat (br_count r + length xs - br_cap r)"
    "br_lost_queue (ring_requeue xs r) = br_lost_queue r"
proof -
  have c: "0 < br_cap r" "br_head r < br_cap r" "br_count r \<le> br_cap r" using assms by (simp_all add: ring_ok_def)
  define ys where "ys = drop (br_count r + length xs - br_cap r) xs"
  define q where "q = r\<lparr>br_short_writes := br_short_writes r + 1, br_lost_requeue := br_lost_requeue r + word_of_nat (br_count r + length xs - br_cap r)\<rparr>"
  have q: "ring_ok q" "ring_contents q = ring_contents r" "br_cap q = br_cap r" "br_count q = br_count r"
    using assms by (simp_all add: q_def ring_ok_def ring_contents_def)
  have f: "br_count q + length ys \<le> br_cap q" using q c by (auto simp: ys_def)
  let ?h = "(br_head q + br_cap q - length ys) mod br_cap q"
  have e: "ring_requeue xs r = q\<lparr>br_head := ?h, br_buf := copy_in ?h ys (br_buf q), br_count := br_count q + length ys\<rparr>"
    using c by (auto simp: ring_requeue_def Let_def q_def ys_def not_less add.commute diff_diff_right)
  from prepend_fits [OF q(1) f] show "ring_ok (ring_requeue xs r)"
    "ring_contents (ring_requeue xs r) = drop (br_count r + length xs - br_cap r) xs @ ring_contents r"
    unfolding e q(2) by (simp_all add: ys_def)
  show "br_cap (ring_requeue xs r) = br_cap r" unfolding e using f q(3) c by simp
  show "br_lost_requeue (ring_requeue xs r) = br_lost_requeue r + word_of_nat (br_count r + length xs - br_cap r)"
    "br_lost_queue (ring_requeue xs r) = br_lost_queue r" unfolding e by (simp_all add: q_def)
qed

interpretation txq: bounded_fifo ring_push ring_pop ring_contents br_cap ring_ok "\<lambda>_. True"
  by unfold_locales (simp_all add: ring_push_facts ring_pop_facts, simp add: ring_ok_def)

section \<open>The transmit worker\<close>

text \<open>Whether the rig is keyed after some events: PTT commands that fail change nothing.\<close>

fun keyed :: "bool \<Rightarrow> rig_event list \<Rightarrow> bool" where
  "keyed k [] = k"
| "keyed k (Ptt on ok # es) = keyed (if ok then on else k) es"
| "keyed k (Rig_write xs # es) = keyed k es"

text \<open>Every write happens while the rig is keyed.\<close>

fun keyed_writes :: "bool \<Rightarrow> rig_event list \<Rightarrow> bool" where
  "keyed_writes k [] = True"
| "keyed_writes k (Ptt on ok # es) = keyed_writes (if ok then on else k) es"
| "keyed_writes k (Rig_write xs # es) = (k \<and> keyed_writes k es)"

lemma keyed_append [simp]: "keyed k (xs @ ys) = keyed (keyed k xs) ys"
  by (induction k xs rule: keyed.induct) auto

lemma keyed_writes_append [simp]: "keyed_writes k (xs @ ys) \<longleftrightarrow> keyed_writes k xs \<and> keyed_writes (keyed k xs) ys"
  by (induction k xs rule: keyed_writes.induct) auto

definition ptt_inv :: "tx_worker \<Rightarrow> bool" where
  "ptt_inv w \<longleftrightarrow> keyed False (tw_events w) = tw_ptt_on w \<and> keyed_writes False (tw_events w)"

lemma ptt_step_inv:
  assumes "te_ptt e" "ptt_inv w"
  shows "ptt_inv (ptt_step True e w) \<and> tw_ptt_on (ptt_step True e w) = te_owner e"
  using assms by (auto simp: ptt_step_def ptt_inv_def)

lemma tx_turn_inv:
  assumes "te_ptt e" "ptt_inv w" "tx_turn True chunk e w = (go, w')"
  shows "ptt_inv w'"
proof -
  obtain r xs where r: "ring_pop chunk (fold ring_push (te_before e) (tw_ring w)) = (r, xs)" by fastforce
  let ?w = "ptt_step True e (owner_step e (w\<lparr>tw_ring := r\<rparr>))"
  have "ptt_inv (owner_step e (w\<lparr>tw_ring := r\<rparr>))" using assms(2) by (simp add: ptt_inv_def owner_step_def)
  then have w: "ptt_inv ?w" "tw_ptt_on ?w = te_owner e" using ptt_step_inv [OF assms(1)] by blast+
  show ?thesis
  proof (cases "xs \<noteq> [] \<and> te_owner e")
    case True
    then have "write_step e xs ?w = (go, w')" using assms(3) r by (simp add: tx_turn_def)
    then show ?thesis using w True by (auto simp: write_step_def ptt_inv_def Let_def split: if_splits)
  next
    case False
    then have "w' = ?w\<lparr>tw_discarded := tw_discarded ?w + length xs\<rparr>" using assms(3) r by (auto simp: tx_turn_def Let_def)
    then show ?thesis using w by (simp add: ptt_inv_def)
  qed
qed

lemma tx_finish_inv: "te_ptt e \<Longrightarrow> ptt_inv w \<Longrightarrow> keyed_writes False (tw_events (tx_finish e w)) \<and> \<not> keyed False (tw_events (tx_finish e w))"
  by (auto simp: tx_finish_def ptt_inv_def)

lemma tx_thread_inv:
  "list_all te_ptt es \<Longrightarrow> ptt_inv w \<Longrightarrow> tx_thread True chunk es w = (ended, w') \<Longrightarrow>
   keyed_writes False (tw_events w') \<and> (ended \<longrightarrow> \<not> keyed False (tw_events w')) \<and> (\<not> ended \<longrightarrow> ptt_inv w')"
proof (induction es arbitrary: w)
  case Nil
  then show ?case by (simp add: ptt_inv_def)
next
  case (Cons e es)
  show ?case
  proof (cases "te_stop e")
    case True
    then show ?thesis using Cons.prems tx_finish_inv by auto
  next
    case False
    obtain go v where v: "tx_turn True chunk e w = (go, v)" by fastforce
    have inv: "ptt_inv v" using tx_turn_inv [OF _ Cons.prems(2) v] Cons.prems(1) by simp
    show ?thesis using Cons.IH [OF _ inv] Cons.prems v False inv tx_finish_inv [of e v] by (cases go) auto
  qed
qed

text \<open>The bytes the rig took.\<close>

fun rig_delivered :: "rig_event list \<Rightarrow> nat" where
  "rig_delivered [] = 0"
| "rig_delivered (Rig_write xs # es) = length xs + rig_delivered es"
| "rig_delivered (Ptt _ _ # es) = rig_delivered es"

lemma rig_delivered_append [simp]: "rig_delivered (xs @ ys) = rig_delivered xs + rig_delivered ys"
  by (induction xs rule: rig_delivered.induct) auto

text \<open>What the ring and the events say became of the bytes pushed.\<close>

definition accounted :: "tx_worker \<Rightarrow> 64 word" where
  "accounted w = word_of_nat (rig_delivered (tw_events w)) + word_of_nat (br_count (tw_ring w)) + word_of_nat (tw_discarded w) +
     br_lost_queue (tw_ring w) + br_lost_requeue (tw_ring w)"

definition ring_total :: "byte_ring \<Rightarrow> 64 word" where
  "ring_total r = word_of_nat (br_count r) + br_lost_queue r + br_lost_requeue r"

lemma count_contents: "br_count r = length (ring_contents r)"
  by simp

lemma ring_total_push:
  assumes "ring_ok r"
  shows "ring_total (ring_push xs r) = ring_total r + word_of_nat (length xs)"
proof -
  have "br_count (ring_push xs r) + (br_count r + length xs - br_cap r) = br_count r + length xs"
    using ring_push_facts(3) [OF assms, of xs] count_contents [of "ring_push xs r"] by (simp add: ring_ok_def)
  then have "word_of_nat (br_count (ring_push xs r)) + word_of_nat (br_count r + length xs - br_cap r) = (word_of_nat (br_count r) + word_of_nat (length xs) :: 64 word)"
    by (metis of_nat_add)
  then show ?thesis by (simp add: ring_total_def ring_push_facts [OF assms] algebra_simps)
qed

lemma ring_total_pushes:
  "ring_ok r \<Longrightarrow> ring_ok (fold ring_push fs r) \<and> ring_total (fold ring_push fs r) = ring_total r + word_of_nat (length (concat fs))"
  by (induction fs arbitrary: r) (simp_all add: ring_push_facts ring_total_push)

lemma ring_total_pop:
  assumes "ring_ok r"
  shows "ring_total (fst (ring_pop n r)) + word_of_nat (length (snd (ring_pop n r))) = ring_total r"
proof -
  have "br_count (fst (ring_pop n r)) + length (snd (ring_pop n r)) = br_count r"
    using ring_pop_facts(2,3) [OF assms, of n] count_contents [of "fst (ring_pop n r)"] by simp
  then have "word_of_nat (br_count (fst (ring_pop n r))) + word_of_nat (length (snd (ring_pop n r))) = (word_of_nat (br_count r) :: 64 word)"
    by (metis of_nat_add)
  then show ?thesis by (simp add: ring_total_def ring_pop_def Let_def algebra_simps)
qed

lemma ring_total_requeue:
  assumes "ring_ok r"
  shows "ring_total (ring_requeue xs r) = ring_total r + word_of_nat (length xs)"
proof -
  have "br_count (ring_requeue xs r) + (br_count r + length xs - br_cap r) = br_count r + length xs"
    using ring_requeue_facts(3) [OF assms, of xs] count_contents [of "ring_requeue xs r"] assms by (auto simp: ring_ok_def)
  then have "word_of_nat (br_count (ring_requeue xs r)) + word_of_nat (br_count r + length xs - br_cap r) = (word_of_nat (br_count r) + word_of_nat (length xs) :: 64 word)"
    by (metis of_nat_add)
  then show ?thesis by (simp add: ring_total_def ring_requeue_facts [OF assms] algebra_simps)
qed

lemma accounted_alt: "accounted w = ring_total (tw_ring w) + word_of_nat (rig_delivered (tw_events w)) + word_of_nat (tw_discarded w)"
  by (simp add: accounted_def ring_total_def algebra_simps)

lemma steps_account [simp]:
  "tw_ring (ptt_step u e w) = tw_ring w" "tw_discarded (ptt_step u e w) = tw_discarded w" "rig_delivered (tw_events (ptt_step u e w)) = rig_delivered (tw_events w)"
  "tw_ring (owner_step e w) = tw_ring w" "tw_discarded (owner_step e w) = tw_discarded w" "tw_events (owner_step e w) = tw_events w"
  by (simp_all add: ptt_step_def owner_step_def)

text \<open>The bytes a turn takes over from the mixer: all before it, and those during the write when there is one.\<close>

definition turn_bytes :: "nat \<Rightarrow> tx_env \<Rightarrow> tx_worker \<Rightarrow> bytes" where
  "turn_bytes chunk e w = concat (te_before e) @
     (if snd (ring_pop chunk (fold ring_push (te_before e) (tw_ring w))) \<noteq> [] \<and> te_owner e \<and> te_status e \<noteq> Rig_closed \<and> te_status e \<noteq> Rig_error
      then concat (te_during e) else [])"

lemma write_step_account:
  assumes "ring_ok (tw_ring w)" "write_step e xs w = (go, w')"
  shows "ring_ok (tw_ring w')" "accounted w' = accounted w + word_of_nat (length xs) +
    (if te_status e = Rig_closed \<or> te_status e = Rig_error then 0 else word_of_nat (length (concat (te_during e))))"
proof -
  let ?n = "min (te_written e) (length xs)"
  let ?r = "fold ring_push (te_during e) (tw_ring w)"
  have p: "ring_ok ?r" "ring_total ?r = ring_total (tw_ring w) + word_of_nat (length (concat (te_during e)))" using ring_total_pushes [OF assms(1)] by auto
  have n: "word_of_nat ?n + word_of_nat (length (drop ?n xs)) = (word_of_nat (length xs) :: 64 word)"
    by (simp flip: of_nat_add)
  have t: "drop ?n xs = []" if "\<not> ?n < length xs" using that by simp
  show "ring_ok (tw_ring w')" using assms p ring_requeue_facts(1) [OF p(1)] by (auto simp: write_step_def Let_def split: if_splits)
  show "accounted w' = accounted w + word_of_nat (length xs) +
    (if te_status e = Rig_closed \<or> te_status e = Rig_error then 0 else word_of_nat (length (concat (te_during e))))"
  proof (cases "te_status e = Rig_closed \<or> te_status e = Rig_error")
    case True
    then show ?thesis using assms(2) by (auto simp: write_step_def accounted_alt algebra_simps)
  next
    case False
    show ?thesis
    proof (cases "?n < length xs")
      case short: True
      then have "w' = w\<lparr>tw_owned_written := tw_owned_written w + word_of_nat ?n, tw_events := tw_events w @ [Rig_write (take ?n xs)],
        tw_ring := ring_requeue (drop ?n xs) ?r\<rparr>" using assms(2) False short by (auto simp: write_step_def Let_def)
      then show ?thesis using False p n ring_total_requeue [OF p(1), of "drop ?n xs"] by (simp add: accounted_alt algebra_simps)
    next
      case whole: False
      then have "w' = w\<lparr>tw_owned_written := tw_owned_written w + word_of_nat ?n, tw_events := tw_events w @ [Rig_write (take ?n xs)], tw_ring := ?r\<rparr>"
        using assms(2) False whole by (auto simp: write_step_def Let_def)
      moreover have "?n = length xs" using whole by simp
      ultimately show ?thesis using False p by (simp add: accounted_alt algebra_simps)
    qed
  qed
qed

lemma tx_turn_account:
  assumes "ring_ok (tw_ring w)" "tx_turn u chunk e w = (go, w')"
  shows "ring_ok (tw_ring w') \<and> accounted w' = accounted w + word_of_nat (length (turn_bytes chunk e w))"
proof -
  let ?r0 = "fold ring_push (te_before e) (tw_ring w)"
  obtain r xs where r: "ring_pop chunk ?r0 = (r, xs)" by fastforce
  have p: "ring_ok ?r0" "ring_total ?r0 = ring_total (tw_ring w) + word_of_nat (length (concat (te_before e)))" using ring_total_pushes [OF assms(1)] by auto
  have q: "ring_ok r" "ring_total r + word_of_nat (length xs) = ring_total ?r0" using ring_pop_facts(1) [OF p(1), of chunk] ring_total_pop [OF p(1), of chunk] r by simp_all
  let ?w = "ptt_step u e (owner_step e (w\<lparr>tw_ring := r\<rparr>))"
  have a: "accounted ?w + word_of_nat (length xs) = accounted w + word_of_nat (length (concat (te_before e)))"
    using p q by (simp add: accounted_alt algebra_simps)
  show ?thesis
  proof (cases "xs \<noteq> [] \<and> te_owner e")
    case True
    then have "write_step e xs ?w = (go, w')" using assms(2) r by (simp add: tx_turn_def)
    from write_step_account [OF _ this] q(1) a True r show ?thesis by (auto simp: turn_bytes_def algebra_simps)
  next
    case False
    then have "w' = ?w\<lparr>tw_discarded := tw_discarded ?w + length xs\<rparr>" using assms(2) r by (auto simp: tx_turn_def Let_def)
    then show ?thesis using a q(1) False r by (auto simp: accounted_alt turn_bytes_def algebra_simps)
  qed
qed

fun thread_bytes :: "bool \<Rightarrow> nat \<Rightarrow> tx_env list \<Rightarrow> tx_worker \<Rightarrow> bytes" where
  "thread_bytes u chunk [] w = []"
| "thread_bytes u chunk (e # es) w =
     (if te_stop e then []
      else turn_bytes chunk e w @ (case tx_turn u chunk e w of (True, w') \<Rightarrow> thread_bytes u chunk es w' | (False, w') \<Rightarrow> []))"

lemma tx_thread_account:
  "ring_ok (tw_ring w) \<Longrightarrow> tx_thread u chunk es w = (ended, w') \<Longrightarrow>
   accounted w' = accounted w + word_of_nat (length (thread_bytes u chunk es w))"
proof (induction es arbitrary: w)
  case (Cons e es)
  have fin: "accounted (tx_finish e v) = accounted v" for v by (simp add: tx_finish_def accounted_alt)
  show ?case
  proof (cases "te_stop e")
    case False
    obtain go v where v: "tx_turn u chunk e w = (go, v)" by fastforce
    have t: "ring_ok (tw_ring v)" "accounted v = accounted w + word_of_nat (length (turn_bytes chunk e w))"
      using tx_turn_account [OF Cons.prems(1) v] by simp_all
    show ?thesis using Cons.IH [OF t(1)] Cons.prems(2) v False t(2) fin by (cases go) (auto simp: algebra_simps)
  qed (use Cons.prems fin in auto)
qed simp

lemma tx_start_facts: "0 < cap \<Longrightarrow> ring_ok (tw_ring (tx_start cap))" "ptt_inv (tx_start cap)" "accounted (tx_start cap) = 0"
  by (simp_all add: tx_start_def ring_init_def ring_ok_def ptt_inv_def accounted_def)

section \<open>Properties\<close>

text \<open>
  C33: the rate of the bridge. With a native rate list for the mandatory receive stream the result is one of the rates native in both
  directions, or of the receive rates when the directions share none; no candidate is nearer to the preferred rate, and of two that are
  equally near it is the higher one.
\<close>

theorem stream_rate_optimal:
  assumes "preferred > 0" "rate_list rx rx_cap \<noteq> []"
  shows "na_choose_stream_rate rx rx_cap tx tx_cap preferred \<in> rate_candidates (rate_list rx rx_cap) (rate_list tx tx_cap) \<and>
    (\<forall>r\<in>rate_candidates (rate_list rx rx_cap) (rate_list tx tx_cap).
       no_worse preferred (na_choose_stream_rate rx rx_cap tx tx_cap preferred) r)"
proof -
  let ?R = "rate_list rx rx_cap" and ?T = "rate_list tx tx_cap" and ?u = "0 < na_rate_list_len tx tx_cap"
  let ?p = "rate_pass rx rx_cap tx tx_cap preferred"
  have u: "?u \<longleftrightarrow> ?T \<noteq> []" by (simp add: na_rate_list_len_def)
  have s1: "case ?p True of None \<Rightarrow> set ?R \<inter> set ?T = {} | Some r \<Rightarrow> r \<in> set ?R \<inter> set ?T \<and> (\<forall>x\<in>set ?R \<inter> set ?T. no_worse preferred r x)"
    using rate_pass_spec [OF assms(1), of rx rx_cap True tx tx_cap] by (simp add: Int_def split: option.splits)
  have s0: "case ?p False of None \<Rightarrow> set ?R = {} | Some r \<Rightarrow> r \<in> set ?R \<and> (\<forall>x\<in>set ?R. no_worse preferred r x)"
    using rate_pass_spec [OF assms(1), of rx rx_cap False tx tx_cap] by (simp split: option.splits)
  obtain r where r: "?p False = Some r" using s0 assms(2) by (cases "?p False") simp_all
  have ch: "na_choose_stream_rate rx rx_cap tx tx_cap preferred = (case ?p ?u of Some r \<Rightarrow> r | None \<Rightarrow> if \<not> ?u then preferred else r)"
    using assms r by (simp add: na_choose_stream_rate_def na_rate_list_len_def Let_def split: option.splits)
  show ?thesis
  proof (cases "?p ?u")
    case (Some q)
    then show ?thesis using s1 s0 u ch by (cases "?u") (auto simp: rate_candidates_def split: if_splits)
  next
    case None
    then show ?thesis using s1 s0 u ch r by (cases "?u") (auto simp: rate_candidates_def)
  qed
qed

theorem stream_rate_optimal_witness:
  "rate_candidates [8000, 44100, 96000] [44100, 8000] = {8000, 44100} \<and>
   na_choose_stream_rate (Some [8000, 44100, 96000, 0]) 32 (Some [44100, 8000, 0]) 32 48000 \<in> {8000, 44100} \<and>
   no_worse 48000 (na_choose_stream_rate (Some [8000, 44100, 96000, 0]) 32 (Some [44100, 8000, 0]) 32 48000) 44100"
proof -
  have l: "rate_list (Some [8000, 44100, 96000, 0]) 32 = [8000, 44100, 96000]" "rate_list (Some [44100, 8000, 0]) 32 = [44100, 8000]"
    by (simp_all add: rate_list_def)
  have c: "rate_candidates [8000, 44100, 96000] [44100, 8000] = {8000, 44100}" by (auto simp: rate_candidates_def)
  show ?thesis using stream_rate_optimal [of 48000 "Some [8000, 44100, 96000, 0]" 32 "Some [44100, 8000, 0]" 32] unfolding l c by simp
qed

text \<open>
  C31: the transmitter. With PTT in use and a rig that obeys, whatever the server, the mixer and the stream do, audio is written only
  while the rig is keyed, and when the worker has ended, by request or by a failure, the rig is not keyed.
\<close>

theorem bridge_ptt_safe:
  assumes "list_all te_ptt es" "tx_thread True chunk es (tx_start cap) = (ended, w)"
  shows "keyed_writes False (tw_events w) \<and> (ended \<longrightarrow> \<not> keyed False (tw_events w))"
  using tx_thread_inv [OF assms(1) tx_start_facts(2) assms(2)] by blast

definition demo_turn :: tx_env where
  "demo_turn = \<lparr>te_stop = False, te_before = [[1, 2, 3, 4]], te_during = [], te_owner = True, te_ptt = True, te_status = Rig_ok, te_written = 4\<rparr>"

definition demo_idle :: tx_env where
  "demo_idle = demo_turn\<lparr>te_before := [], te_owner := False\<rparr>"

definition demo_halt :: tx_env where
  "demo_halt = demo_idle\<lparr>te_stop := True\<rparr>"

lemmas demo_turn_defs = demo_turn_def demo_idle_def demo_halt_def

lemma demo_first_turn:
  "\<exists>w. tx_turn True 16384 demo_turn (tx_start 8) = (True, w) \<and> tw_ptt_on w \<and> tw_events w = [Ptt True True, Rig_write [1, 2, 3, 4]] \<and> br_count (tw_ring w) = 0"
proof -
  let ?r = "ring_push [1, 2, 3, 4] (ring_init 8)"
  have ok: "ring_ok (ring_init 8)" by (simp add: ring_ok_def ring_init_def)
  have c: "ring_contents ?r = [1, 2, 3, 4]" using ring_push_facts(3) [OF ok, of "[1, 2, 3, 4]"] by (simp add: ring_init_def ring_contents_def)
  obtain q xs where q: "ring_pop 16384 ?r = (q, xs)" by fastforce
  have "xs = [1, 2, 3, 4]" "ring_contents q = []" using ring_pop_facts(2,3) [OF ring_push_facts(1) [OF ok, of "[1, 2, 3, 4]"], of 16384] q c by simp_all
  moreover have "br_count q = 0" using calculation(2) count_contents [of q] by simp
  ultimately show ?thesis using q by (simp add: tx_turn_def tx_start_def demo_turn_def ptt_step_def owner_step_def write_step_def)
qed

theorem bridge_ptt_safe_witness:
  "\<exists>w. tx_thread True 16384 [demo_turn, demo_halt] (tx_start 8) = (True, w) \<and>
     tw_events w = [Ptt True True, Rig_write [1, 2, 3, 4], Ptt False True] \<and> \<not> keyed False (tw_events w)"
proof -
  obtain v where v: "tx_turn True 16384 demo_turn (tx_start 8) = (True, v)" "tw_ptt_on v" "tw_events v = [Ptt True True, Rig_write [1, 2, 3, 4]]"
    using demo_first_turn by blast
  then have t: "tx_thread True 16384 [demo_turn, demo_halt] (tx_start 8) = (True, tx_finish demo_halt v)" by (simp add: demo_turn_defs)
  moreover have "tw_events (tx_finish demo_halt v) = [Ptt True True, Rig_write [1, 2, 3, 4], Ptt False True]"
    using v by (simp add: tx_finish_def demo_turn_defs)
  moreover have "list_all te_ptt [demo_turn, demo_halt]" by (simp add: demo_turn_defs)
  ultimately show ?thesis using bridge_ptt_safe [of "[demo_turn, demo_halt]" 16384 8 True "tx_finish demo_halt v"] by blast
qed

text \<open>
  C32: every byte is accounted for. Whatever the rig accepts and the mixer pushes in the meantime, the bytes taken over from the mixer are
  those the rig took, those still queued, those the two loss counters report, and those dropped because there was no owner or the
  write failed; counted modulo the width of the counters.
\<close>

theorem bridge_bytes_accounted:
  assumes "0 < cap" "tx_thread use_ptt chunk es (tx_start cap) = (ended, w)"
  shows "word_of_nat (length (thread_bytes use_ptt chunk es (tx_start cap))) =
    word_of_nat (rig_delivered (tw_events w)) + word_of_nat (length (ring_contents (tw_ring w))) + word_of_nat (tw_discarded w) +
    br_lost_queue (tw_ring w) + br_lost_requeue (tw_ring w)"
  using tx_thread_account [OF tx_start_facts(1) [OF assms(1)] assms(2)] tx_start_facts(3) by (simp add: accounted_def)

theorem bridge_bytes_accounted_witness:
  "\<exists>w. tx_thread True 16384 [demo_turn, demo_halt] (tx_start 8) = (True, w) \<and>
    word_of_nat (length (thread_bytes True 16384 [demo_turn, demo_halt] (tx_start 8))) =
      word_of_nat (rig_delivered (tw_events w)) + word_of_nat (length (ring_contents (tw_ring w))) + word_of_nat (tw_discarded w) +
      br_lost_queue (tw_ring w) + br_lost_requeue (tw_ring w)"
proof -
  obtain v where "tx_turn True 16384 demo_turn (tx_start 8) = (True, v)" using demo_first_turn by blast
  then have "tx_thread True 16384 [demo_turn, demo_halt] (tx_start 8) = (True, tx_finish demo_halt v)" by (simp add: demo_turn_defs)
  from this bridge_bytes_accounted [OF _ this] show ?thesis by auto
qed

text \<open>
  A PTT command that fails is not repeated. When the command that unkeys the rig fails once, the worker takes the rig for
  unkeyed, says nothing more to it and ends with the rig keyed, although every later command would have succeeded.
\<close>

theorem ptt_off_not_retried:
  "\<exists>w. tx_thread True 16384 [demo_turn, demo_idle\<lparr>te_ptt := False\<rparr>, demo_idle, demo_halt] (tx_start 8) = (True, w) \<and>
     keyed False (tw_events w) \<and> \<not> tw_ptt_on w \<and> tw_events w = [Ptt True True, Rig_write [1, 2, 3, 4], Ptt False False]"
proof -
  obtain v where v: "tx_turn True 16384 demo_turn (tx_start 8) = (True, v)" "tw_ptt_on v" "tw_events v = [Ptt True True, Rig_write [1, 2, 3, 4]]"
    "br_count (tw_ring v) = 0" using demo_first_turn by blast
  obtain u where u: "tx_turn True 16384 (demo_idle\<lparr>te_ptt := False\<rparr>) v = (True, u)" "\<not> tw_ptt_on u" "tw_events u = tw_events v @ [Ptt False False]"
    "br_count (tw_ring u) = 0"
    using v(2,4) by (auto simp: tx_turn_def demo_turn_defs ring_pop_def copy_out_def ptt_step_def owner_step_def Let_def)
  obtain t where t: "tx_turn True 16384 demo_idle u = (True, t)" "\<not> tw_ptt_on t" "tw_events t = tw_events u"
    using u(2,4) by (auto simp: tx_turn_def demo_turn_defs ring_pop_def copy_out_def ptt_step_def owner_step_def Let_def)
  have s: "\<not> te_stop demo_turn" "\<not> te_stop demo_idle" "\<not> te_stop (demo_idle\<lparr>te_ptt := False\<rparr>)" "te_stop demo_halt" by (simp_all add: demo_turn_defs)
  have "tx_thread True 16384 [demo_turn, demo_idle\<lparr>te_ptt := False\<rparr>, demo_idle, demo_halt] (tx_start 8) = (True, t)"
    using v(1) u(1) t(1,2) s by (simp add: tx_finish_def)
  then show ?thesis using v u t by auto
qed

end
