(* ===== verification/Callback_Dispatcher.thy ===== *)
theory Callback_Dispatcher
  imports Prelude
begin

text \<open>
  The thread that runs listener callbacks (\<open>include/naudio/net/CallbackDispatcher.hpp\<close>) with its two clients: the notifications, which
  snapshot the roster of listeners and then post, and \<open>removeStreamListener\<close>, which erases and then fences (the code is the same in
  \<open>AudioStreamClient.cpp\<close> and \<open>AudioStreamServer.cpp\<close>). A section under one mutex is one operation; threads are the sequence of the
  operations. A posted closure is represented by what it captures: the listeners and the event, or the promise of a fence. The
  lists of accepted and of finished tasks are kept for the statements.
\<close>

section \<open>State\<close>

datatype dispatch_task = Fan_out "nat list" nat | Marker nat

datatype dispatch_thread = Not_spawned | Waiting | Running dispatch_task | Exited

text \<open>A call of \<open>removeStreamListener\<close>: after its erase (the flag: on the dispatch thread), or waiting for a marker.\<close>

datatype removal = Rm_erased nat bool | Rm_waiting nat nat

record dispatcher =
  cd_started :: bool
  cd_stop :: bool
  cd_queue :: "dispatch_task list"
  cd_thread :: dispatch_thread
  cd_roster :: "nat list"
  cd_notes :: "(nat list \<times> nat) list"
  cd_removals :: "removal list"
  cd_detached :: "(nat \<times> bool) list"
  cd_accepted :: "dispatch_task list"
  cd_finished :: "dispatch_task list"

definition fresh_dispatcher :: dispatcher where
  "fresh_dispatcher = \<lparr>cd_started = False, cd_stop = False, cd_queue = [], cd_thread = Not_spawned, cd_roster = [], cd_notes = [],
     cd_removals = [], cd_detached = [], cd_accepted = [], cd_finished = []\<rparr>"

section \<open>The dispatcher\<close>

definition dispatcher_start :: "dispatcher \<Rightarrow> dispatcher" where
  "dispatcher_start s = (if cd_started s then s else s\<lparr>cd_started := True, cd_stop := False, cd_thread := Waiting\<rparr>)"

definition enqueue_task :: "dispatch_task \<Rightarrow> dispatcher \<Rightarrow> dispatcher" where
  "enqueue_task t s = s\<lparr>cd_queue := cd_queue s @ [t], cd_accepted := cd_accepted s @ [t]\<rparr>"

definition dispatcher_post :: "dispatch_task \<Rightarrow> dispatcher \<Rightarrow> dispatcher" where
  "dispatcher_post t s = (if cd_stop s then s else enqueue_task t s)"

text \<open>
  \<open>fence\<close> up to its wait: None when it returns false, else the marker it waits for. A marker is the number of the tasks accepted
  before it.
\<close>

definition fence_marker :: "bool \<Rightarrow> dispatcher \<Rightarrow> nat option \<times> dispatcher" where
  "fence_marker on_thread s =
     (if \<not> cd_started s \<or> cd_stop s then (None, s)
      else if on_thread then (None, s)
      else let n = length (cd_accepted s) in (Some n, enqueue_task (Marker n) s))"

definition fence_ready :: "nat \<Rightarrow> dispatcher \<Rightarrow> bool" where
  "fence_ready n s \<longleftrightarrow> Marker n \<in> set (cd_finished s)"

definition dispatcher_stop :: "dispatcher \<Rightarrow> dispatcher" where
  "dispatcher_stop s = s\<lparr>cd_stop := True\<rparr>"

text \<open>Whether \<open>stop\<close> gets past its join.\<close>

definition stop_returns :: "bool \<Rightarrow> dispatcher \<Rightarrow> bool" where
  "stop_returns on_thread s \<longleftrightarrow> cd_stop s \<and> (on_thread \<or> cd_thread s = Not_spawned \<or> cd_thread s = Exited)"

text \<open>The loop of \<open>run\<close>: the section under the lock, and the end of a task.\<close>

definition run_next :: "dispatcher \<Rightarrow> dispatcher option" where
  "run_next s =
     (if cd_thread s \<noteq> Waiting \<or> \<not> (cd_stop s \<or> cd_queue s \<noteq> []) then None
      else case cd_queue s of
             [] \<Rightarrow> Some (s\<lparr>cd_thread := Exited\<rparr>)
           | t # ts \<Rightarrow> Some (s\<lparr>cd_thread := Running t, cd_queue := ts\<rparr>))"

definition task_end :: "dispatcher \<Rightarrow> dispatcher option" where
  "task_end s =
     (case cd_thread s of
        Running t \<Rightarrow>
          if list_ex (\<lambda>r. case r of Rm_erased _ on_thread \<Rightarrow> on_thread | _ \<Rightarrow> False) (cd_removals s) then None
          else Some (s\<lparr>cd_thread := Waiting, cd_finished := cd_finished s @ [t]\<rparr>)
      | _ \<Rightarrow> None)"

section \<open>Listeners\<close>

definition add_listener :: "nat \<Rightarrow> dispatcher \<Rightarrow> dispatcher" where
  "add_listener l s = (if l \<in> set (cd_roster s) then s else s\<lparr>cd_roster := cd_roster s @ [l]\<rparr>)"

text \<open>A notification: the snapshot, then the post of its closure.\<close>

definition notify_snapshot :: "nat \<Rightarrow> dispatcher \<Rightarrow> dispatcher" where
  "notify_snapshot ev s = s\<lparr>cd_notes := cd_notes s @ [(cd_roster s, ev)]\<rparr>"

definition notify_post :: "nat \<Rightarrow> dispatcher \<Rightarrow> dispatcher option" where
  "notify_post i s =
     (if i < length (cd_notes s)
      then let (ls, ev) = cd_notes s ! i in Some (dispatcher_post (Fan_out ls ev) (s\<lparr>cd_notes := drop_nth i (cd_notes s)\<rparr>))
      else None)"

definition remove_erase :: "nat \<Rightarrow> bool \<Rightarrow> dispatcher \<Rightarrow> dispatcher option" where
  "remove_erase l on_thread s =
     (if on_thread \<and> (\<nexists>t. cd_thread s = Running t) then None
      else Some (s\<lparr>cd_roster := removeAll l (cd_roster s), cd_removals := cd_removals s @ [Rm_erased l on_thread]\<rparr>))"

text \<open>The fence of a removal and its return; the flag of a detached listener says whether the call waited.\<close>

definition remove_fence :: "nat \<Rightarrow> dispatcher \<Rightarrow> dispatcher option" where
  "remove_fence i s =
     (if i < length (cd_removals s)
      then case cd_removals s ! i of
             Rm_erased l on_thread \<Rightarrow>
               (case fence_marker on_thread s of
                  (None, s) \<Rightarrow> Some (s\<lparr>cd_removals := drop_nth i (cd_removals s), cd_detached := cd_detached s @ [(l, False)]\<rparr>)
                | (Some n, s) \<Rightarrow> Some (s\<lparr>cd_removals := (cd_removals s)[i := Rm_waiting l n]\<rparr>))
           | Rm_waiting l n \<Rightarrow>
               (if fence_ready n s
                then Some (s\<lparr>cd_removals := drop_nth i (cd_removals s), cd_detached := cd_detached s @ [(l, True)]\<rparr>) else None)
      else None)"

section \<open>Runs\<close>

datatype dispatch_call =
    Op_start | Op_stop | Op_next | Op_task_end
  | Op_add nat | Op_snapshot nat | Op_post nat | Op_erase nat bool | Op_fence nat

fun dispatch_op :: "dispatch_call \<Rightarrow> dispatcher \<Rightarrow> dispatcher option" where
  "dispatch_op Op_start s = Some (dispatcher_start s)"
| "dispatch_op Op_stop s = Some (dispatcher_stop s)"
| "dispatch_op Op_next s = run_next s"
| "dispatch_op Op_task_end s = task_end s"
| "dispatch_op (Op_add l) s = Some (add_listener l s)"
| "dispatch_op (Op_snapshot ev) s = Some (notify_snapshot ev s)"
| "dispatch_op (Op_post i) s = notify_post i s"
| "dispatch_op (Op_erase l on_thread) s = remove_erase l on_thread s"
| "dispatch_op (Op_fence i) s = remove_fence i s"

fun dispatch_run :: "dispatch_call list \<Rightarrow> dispatcher \<Rightarrow> dispatcher option" where
  "dispatch_run [] s = Some s"
| "dispatch_run (a # as) s = (case dispatch_op a s of None \<Rightarrow> None | Some s' \<Rightarrow> dispatch_run as s')"

lemmas dispatch_defs = dispatcher_start_def dispatcher_post_def enqueue_task_def fence_marker_def dispatcher_stop_def run_next_def task_end_def
  add_listener_def notify_snapshot_def notify_post_def remove_erase_def remove_fence_def

lemma dispatch_run_append: "dispatch_run (as @ bs) s = (case dispatch_run as s of None \<Rightarrow> None | Some s' \<Rightarrow> dispatch_run bs s')"
  by (induction as arbitrary: s) (auto split: option.splits)

lemma dispatch_run_preserves:
  assumes "\<And>a s s'. P s \<Longrightarrow> a \<in> set as \<Longrightarrow> dispatch_op a s = Some s' \<Longrightarrow> P s'"
  shows "P s \<Longrightarrow> dispatch_run as s = Some s' \<Longrightarrow> P s'"
  using assms
proof (induction as arbitrary: s)
  case (Cons a as)
  from Cons.prems(2) obtain s1 where "dispatch_op a s = Some s1" "dispatch_run as s1 = Some s'" by (auto split: option.splits)
  with Cons.IH[of s1] Cons.prems(1,3) show ?case by (metis list.set_intros)
qed simp

section \<open>Order and drain\<close>

fun in_flight :: "dispatch_thread \<Rightarrow> dispatch_task list" where
  "in_flight (Running t) = [t]"
| "in_flight _ = []"

definition dispatch_inv :: "dispatcher \<Rightarrow> bool" where
  "dispatch_inv s \<longleftrightarrow>
     cd_accepted s = cd_finished s @ in_flight (cd_thread s) @ cd_queue s \<and>
     (cd_thread s = Not_spawned \<longleftrightarrow> \<not> cd_started s) \<and>
     (cd_thread s = Exited \<longrightarrow> cd_stop s \<and> cd_queue s = []) \<and>
     (\<forall>k < length (cd_accepted s). \<forall>n. cd_accepted s ! k = Marker n \<longrightarrow> n = k)"

lemma dispatch_inv_fresh: "dispatch_inv fresh_dispatcher"
  by (simp add: dispatch_inv_def fresh_dispatcher_def)

lemma dispatch_inv_enqueue:
  assumes "dispatch_inv s" "\<not> cd_stop s" "\<And>n. t = Marker n \<Longrightarrow> n = length (cd_accepted s)"
  shows "dispatch_inv (enqueue_task t s)"
  using assms by (auto simp: dispatch_inv_def enqueue_task_def nth_append less_Suc_eq)

text \<open>What only touches the roster and the callers.\<close>

lemma dispatch_inv_frame:
  "dispatch_inv s \<Longrightarrow> cd_accepted s' = cd_accepted s \<Longrightarrow> cd_finished s' = cd_finished s \<Longrightarrow> cd_thread s' = cd_thread s \<Longrightarrow>
   cd_queue s' = cd_queue s \<Longrightarrow> cd_started s' = cd_started s \<Longrightarrow> cd_stop s' = cd_stop s \<Longrightarrow> dispatch_inv s'"
  by (simp add: dispatch_inv_def)

lemma dispatch_inv_post: "dispatch_inv s \<Longrightarrow> dispatch_inv (dispatcher_post (Fan_out ls ev) s)"
  by (auto simp: dispatcher_post_def intro: dispatch_inv_enqueue)

lemma dispatch_inv_fence: "dispatch_inv s \<Longrightarrow> fence_marker b s = (r, s') \<Longrightarrow> dispatch_inv s'"
  by (auto simp: fence_marker_def Let_def split: if_splits intro: dispatch_inv_enqueue)

lemma dispatch_inv_op:
  assumes "dispatch_inv s" "dispatch_op a s = Some s'"
  shows "dispatch_inv s'"
proof (cases a)
  case Op_start with assms show ?thesis by (auto simp: dispatch_inv_def dispatcher_start_def split: if_splits)
next
  case Op_stop with assms show ?thesis by (auto simp: dispatch_inv_def dispatcher_stop_def)
next
  case Op_next with assms show ?thesis by (auto simp: dispatch_inv_def run_next_def split: if_splits list.splits)
next
  case Op_task_end with assms show ?thesis by (auto simp: dispatch_inv_def task_end_def split: if_splits dispatch_thread.splits)
next
  case (Op_post i)
  with assms show ?thesis
    by (auto simp: notify_post_def split: if_splits prod.splits intro!: dispatch_inv_post intro: dispatch_inv_frame)
next
  case (Op_fence i)
  with assms show ?thesis
    by (auto simp: remove_fence_def split: if_splits removal.splits prod.splits option.splits dest: dispatch_inv_fence intro: dispatch_inv_frame)
next
  case (Op_add l) with assms show ?thesis by (auto simp: add_listener_def dispatch_inv_def split: if_splits)
next
  case (Op_snapshot ev) with assms show ?thesis by (auto simp: notify_snapshot_def intro: dispatch_inv_frame)
next
  case (Op_erase l b) with assms show ?thesis by (auto simp: remove_erase_def split: if_splits intro: dispatch_inv_frame)
qed

lemma dispatch_inv_run: "dispatch_inv s \<Longrightarrow> dispatch_run as s = Some s' \<Longrightarrow> dispatch_inv s'"
  by (rule dispatch_run_preserves[where P = dispatch_inv]) (auto intro: dispatch_inv_op)

lemmas dispatch_reachable_inv = dispatch_inv_run[OF dispatch_inv_fresh]

text \<open>
  C25: Events are delivered once and in order: whatever the threads do, the tasks that have run, the one running and the ones queued are
  exactly the accepted ones in the order they were accepted; and when \<open>stop\<close> has returned to another thread than the dispatcher's, every
  accepted task has run, unless the dispatcher was never started.
\<close>

theorem dispatch_exactly_once:
  assumes "dispatch_run as fresh_dispatcher = Some s"
  shows "cd_finished s @ in_flight (cd_thread s) @ cd_queue s = cd_accepted s \<and>
    (stop_returns False s \<and> cd_started s \<longrightarrow> cd_finished s = cd_accepted s)"
  using dispatch_reachable_inv[OF assms] by (auto simp: dispatch_inv_def stop_returns_def)

definition drained_run :: "dispatch_call list" where
  "drained_run = [Op_start, Op_add 7, Op_snapshot 1, Op_post 0, Op_stop, Op_next, Op_task_end, Op_next]"

lemma drained_run_state:
  "dispatch_run drained_run fresh_dispatcher =
     Some \<lparr>cd_started = True, cd_stop = True, cd_queue = [], cd_thread = Exited, cd_roster = [7], cd_notes = [], cd_removals = [], cd_detached = [],
           cd_accepted = [Fan_out [7] 1], cd_finished = [Fan_out [7] 1]\<rparr>"
  by (simp add: drained_run_def fresh_dispatcher_def dispatch_defs drop_nth_def)

theorem dispatch_exactly_once_witness:
  "\<exists>s. dispatch_run drained_run fresh_dispatcher = Some s \<and> stop_returns False s \<and> cd_started s \<and> cd_finished s = cd_accepted s \<and> cd_accepted s = [Fan_out [7] 1]"
  using dispatch_exactly_once[OF drained_run_state] drained_run_state by (simp add: stop_returns_def)

lemma dispatch_op_extends:
  "dispatch_op a s = Some s' \<Longrightarrow> \<exists>ts. cd_accepted s' = cd_accepted s @ ts"
  by (cases a) (auto simp: dispatch_defs Let_def split: if_splits removal.splits prod.splits option.splits list.splits dispatch_thread.splits)

lemma dispatch_run_extends: "dispatch_run as s = Some s' \<Longrightarrow> \<exists>ts. cd_accepted s' = cd_accepted s @ ts"
proof (induction as arbitrary: s)
  case (Cons a as)
  then obtain s1 where "dispatch_op a s = Some s1" "dispatch_run as s1 = Some s'" by (auto split: option.splits)
  with Cons.IH dispatch_op_extends[of a s s1] show ?case by fastforce
qed simp

lemma fence_covers:
  assumes "dispatch_inv s" "take n (cd_accepted s) = ts" "length ts = n" "fence_ready n s"
  shows "\<exists>us. cd_finished s = ts @ us"
proof -
  obtain k where k: "k < length (cd_finished s)" "cd_finished s ! k = Marker n"
    using assms(4) by (auto simp: fence_ready_def in_set_conv_nth)
  have acc: "cd_accepted s = cd_finished s @ in_flight (cd_thread s) @ cd_queue s" using assms(1) by (simp add: dispatch_inv_def)
  have "cd_accepted s ! k = Marker n" "k < length (cd_accepted s)" using k by (simp_all add: acc nth_append)
  then have "n = k" using assms(1) by (auto simp: dispatch_inv_def)
  then have "take n (cd_finished s) = ts" using k assms(2) by (simp add: acc)
  then show ?thesis by (metis append_take_drop_id)
qed

lemma fence_run:
  assumes "dispatch_run as fresh_dispatcher = Some s" "fence_marker on_thread s = (Some n, s1)" "dispatch_run bs s1 = Some s2" "fence_ready n s2"
  shows "n = length (cd_accepted s)" "s1 = enqueue_task (Marker n) s" "dispatch_inv s2" "\<exists>us. cd_finished s2 = cd_accepted s @ us"
proof -
  show n: "n = length (cd_accepted s)" and s1: "s1 = enqueue_task (Marker n) s" using assms(2) by (auto simp: fence_marker_def Let_def split: if_splits)
  show inv: "dispatch_inv s2"
    using dispatch_inv_run[OF dispatch_inv_fence[OF dispatch_reachable_inv[OF assms(1)] assms(2)] assms(3)] .
  obtain ts where "cd_accepted s2 = cd_accepted s1 @ ts" using dispatch_run_extends[OF assms(3)] by blast
  then have "take n (cd_accepted s2) = cd_accepted s" unfolding n by (simp add: s1 enqueue_task_def)
  then show "\<exists>us. cd_finished s2 = cd_accepted s @ us" using fence_covers[OF inv _ _ assms(4)] n by blast
qed

text \<open>
  The fence: when \<open>fence\<close> returns true, everything that was accepted before it was called has finished running, in particular no task
  accepted before is still queued or running; whatever the other threads did in the meantime, \<open>stop\<close> included.
\<close>

theorem fence_waits_for_all:
  assumes "dispatch_run as fresh_dispatcher = Some s" "fence_marker on_thread s = (Some n, s1)" "dispatch_run bs s1 = Some s2" "fence_ready n s2"
  shows "\<exists>us. cd_finished s2 = cd_accepted s @ us"
  using fence_run(4)[OF assms] .

text \<open>A callback is queued, a listener is taken off, a fence waits for the callback.\<close>

definition fenced_dispatcher :: dispatcher where
  "fenced_dispatcher = \<lparr>cd_started = True, cd_stop = False, cd_queue = [Fan_out [7] 1], cd_thread = Waiting, cd_roster = [], cd_notes = [],
     cd_removals = [Rm_erased 7 False], cd_detached = [], cd_accepted = [Fan_out [7] 1], cd_finished = []\<rparr>"

lemma fenced_dispatcher_reached:
  "dispatch_run [Op_start, Op_add 7, Op_snapshot 1, Op_post 0, Op_erase 7 False] fresh_dispatcher = Some fenced_dispatcher"
  by (simp add: fenced_dispatcher_def fresh_dispatcher_def dispatch_defs drop_nth_def)

lemma fenced_dispatcher_fence:
  "\<exists>s1 s2. fence_marker False fenced_dispatcher = (Some 1, s1) \<and> dispatch_run [Op_next, Op_task_end, Op_next, Op_task_end] s1 = Some s2 \<and>
     fence_ready 1 s2 \<and> cd_finished s2 = [Fan_out [7] 1, Marker 1]"
  by (simp add: fenced_dispatcher_def dispatch_defs fence_ready_def)

theorem fence_waits_for_all_witness:
  "\<exists>s1 s2 us. fence_marker False fenced_dispatcher = (Some 1, s1) \<and> dispatch_run [Op_next, Op_task_end, Op_next, Op_task_end] s1 = Some s2 \<and>
     fence_ready 1 s2 \<and> cd_finished s2 = [Fan_out [7] 1] @ us"
proof -
  obtain s1 s2 where s: "fence_marker False fenced_dispatcher = (Some 1, s1)" "dispatch_run [Op_next, Op_task_end, Op_next, Op_task_end] s1 = Some s2" "fence_ready 1 s2"
    using fenced_dispatcher_fence by blast
  obtain us where "cd_finished s2 = cd_accepted fenced_dispatcher @ us"
    using fence_waits_for_all[OF fenced_dispatcher_reached s] by blast
  then have "cd_finished s2 = [Fan_out [7] 1] @ us" by (simp add: fenced_dispatcher_def)
  with s show ?thesis by blast
qed

section \<open>Detaching a listener\<close>

fun names :: "nat \<Rightarrow> dispatch_task \<Rightarrow> bool" where
  "names l (Fan_out ls ev) \<longleftrightarrow> l \<in> set ls"
| "names l (Marker n) \<longleftrightarrow> False"

text \<open>Nobody can start to name the listener: it is off the roster, and no notification is between its snapshot and its post with it.\<close>

definition unnamed :: "nat \<Rightarrow> nat \<Rightarrow> dispatcher \<Rightarrow> bool" where
  "unnamed l n s \<longleftrightarrow> l \<notin> set (cd_roster s) \<and> list_all (\<lambda>(ls, ev). l \<notin> set ls) (cd_notes s) \<and> list_all (\<lambda>t. \<not> names l t) (drop n (cd_accepted s))"

lemma unnamed_op:
  assumes "unnamed l n s" "dispatch_op a s = Some s'" "a \<noteq> Op_add l"
  shows "unnamed l n s'"
proof (cases a)
  case (Op_add k) with assms show ?thesis by (auto simp: unnamed_def add_listener_def split: if_splits)
next
  case (Op_snapshot ev) with assms show ?thesis by (auto simp: unnamed_def notify_snapshot_def)
next
  case (Op_post i)
  then obtain ls ev where i: "i < length (cd_notes s)" "cd_notes s ! i = (ls, ev)" using assms by (cases "cd_notes s ! i") (auto simp: notify_post_def split: if_splits)
  then have "l \<notin> set ls" using assms(1) by (auto simp: unnamed_def list_all_length)
  then show ?thesis using Op_post assms i set_drop_nth[of i "cd_notes s"]
    by (auto simp: unnamed_def notify_post_def dispatcher_post_def enqueue_task_def list_all_iff drop_Cons split: if_splits nat.splits)
next
  case (Op_erase k b) with assms show ?thesis by (auto simp: unnamed_def remove_erase_def split: if_splits)
next
  case (Op_fence i)
  with assms show ?thesis
    by (auto simp: unnamed_def remove_fence_def fence_marker_def enqueue_task_def Let_def drop_Cons split: if_splits removal.splits nat.splits)
qed (use assms in \<open>auto simp: unnamed_def dispatch_defs split: if_splits list.splits dispatch_thread.splits\<close>)

lemma unnamed_run: "unnamed l n s \<Longrightarrow> Op_add l \<notin> set as \<Longrightarrow> dispatch_run as s = Some s' \<Longrightarrow> unnamed l n s'"
  by (rule dispatch_run_preserves[where P = "unnamed l n"]) (auto intro: unnamed_op)

text \<open>
  C26: What makes destroying a removed listener safe: if at the fence the listener is off the roster and no notification is between its
  snapshot and its post with it, then from the return of the fence on no callback for it is running, queued or will ever be queued, as
  long as it is not added again.
\<close>

theorem removal_safe_if_no_late_post:
  assumes "dispatch_run as fresh_dispatcher = Some s" "l \<notin> set (cd_roster s)" "list_all (\<lambda>(ls, ev). l \<notin> set ls) (cd_notes s)"
    and "fence_marker on_thread s = (Some n, s1)" "dispatch_run bs s1 = Some s2" "fence_ready n s2" "Op_add l \<notin> set bs"
  shows "list_all (\<lambda>t. \<not> names l t) (in_flight (cd_thread s2) @ cd_queue s2)"
proof -
  note facts = fence_run[OF assms(1,4,5,6)]
  have "unnamed l n s1" using assms(2,3) by (simp add: unnamed_def facts(1,2) enqueue_task_def)
  then have u: "unnamed l n s2" using unnamed_run assms(5,7) by blast
  obtain us where us: "cd_finished s2 = cd_accepted s @ us" using facts(4) by blast
  have "cd_accepted s2 = cd_accepted s @ us @ in_flight (cd_thread s2) @ cd_queue s2" using facts(3) us by (simp add: dispatch_inv_def)
  then have "drop n (cd_accepted s2) = us @ in_flight (cd_thread s2) @ cd_queue s2" unfolding facts(1) by simp
  then show ?thesis using u by (simp add: unnamed_def)
qed

theorem removal_safe_if_no_late_post_witness:
  "\<exists>s1 s2. fence_marker False fenced_dispatcher = (Some 1, s1) \<and> dispatch_run [Op_next, Op_task_end, Op_next, Op_task_end] s1 = Some s2 \<and>
     fence_ready 1 s2 \<and> list_all (\<lambda>t. \<not> names 7 t) (in_flight (cd_thread s2) @ cd_queue s2)"
proof -
  obtain s1 s2 where s: "fence_marker False fenced_dispatcher = (Some 1, s1)" "dispatch_run [Op_next, Op_task_end, Op_next, Op_task_end] s1 = Some s2" "fence_ready 1 s2"
    using fenced_dispatcher_fence by blast
  have "list_all (\<lambda>t. \<not> names 7 t) (in_flight (cd_thread s2) @ cd_queue s2)"
    by (rule removal_safe_if_no_late_post[OF fenced_dispatcher_reached _ _ s]) (simp_all add: fenced_dispatcher_def)
  with s show ?thesis by blast
qed

text \<open>The start, a listener that is added and a notification that has read the roster.\<close>

definition race_run :: "dispatch_call list" where
  "race_run = [Op_start, Op_add 7, Op_snapshot 1, Op_erase 7 False, Op_fence 0, Op_next, Op_task_end, Op_fence 0]"

text \<open>
  The removal does not wait for a notification that has read the roster and not yet posted. There is a run in which
  \<open>removeStreamListener\<close> has waited for its fence and returned, with nothing queued or running, and the callback of the removed listener
  runs afterwards.
\<close>

theorem removed_listener_called:
  "\<exists>s s'. dispatch_run race_run fresh_dispatcher = Some s \<and> cd_detached s = [(7, True)] \<and> cd_queue s = [] \<and> cd_thread s = Waiting \<and>
     dispatch_run [Op_post 0, Op_next] s = Some s' \<and> cd_thread s' = Running (Fan_out [7] 1)"
  by (simp add: race_run_def fresh_dispatcher_def dispatch_defs drop_nth_def fence_ready_def)

text \<open>A removal inside a callback leaves the tasks behind the current one, which name the listener too.\<close>

lemma removal_in_callback_leaves_tasks:
  "\<exists>s. dispatch_run [Op_start, Op_add 7, Op_snapshot 1, Op_post 0, Op_snapshot 2, Op_post 0, Op_next, Op_erase 7 True, Op_fence 0, Op_task_end, Op_next]
         fresh_dispatcher = Some s \<and> cd_detached s = [(7, False)] \<and> cd_thread s = Running (Fan_out [7] 2)"
  by (simp add: fresh_dispatcher_def dispatch_defs drop_nth_def fence_ready_def)

text \<open>A stop that was requested and has not drained the queue makes the fence return at once, with tasks pending.\<close>

lemma fence_after_stop_does_not_wait:
  "\<exists>s. dispatch_run [Op_start, Op_add 7, Op_snapshot 1, Op_post 0, Op_stop, Op_erase 7 False, Op_fence 0, Op_next] fresh_dispatcher = Some s \<and>
       cd_detached s = [(7, False)] \<and> cd_thread s = Running (Fan_out [7] 1)"
  by (simp add: fresh_dispatcher_def dispatch_defs drop_nth_def fence_ready_def)

end
