(* ===== verification/Transports.thy ===== *)
theory Transports
  imports Stream_Server Daemon_Config
begin

text \<open>
  The transports: the TCP connection (\<open>TcpClientConnection.hpp\<close>), which wraps the protocol handler; the TCP server transport
  (\<open>TcpServerTransport.cpp\<close>) with its registry of connections; the composite of TCP and UDP on one port number
  (\<open>DualServerTransport.hpp\<close>); and the client transports. The operating system answers through arguments: what a listen, an accept
  or a bind gave. Connections are shared objects in a store, as in the UDP transport; an accept that has its connection and has not
  registered it yet is a state of its own, since \<open>close\<close> may run in between.
\<close>

section \<open>TCP connection\<close>

record tcp_connection =
  tc_protocol :: protocol_handler
  tc_address :: client_address
  tc_closed :: bool

definition mk_tcp_connection :: "int \<Rightarrow> client_address \<Rightarrow> tcp_connection" where
  "mk_tcp_connection now a = \<lparr>tc_protocol = mk_protocol_handler now, tc_address = a, tc_closed = False\<rparr>"

definition tc_isClosed :: "tcp_connection \<Rightarrow> bool" where
  "tc_isClosed c \<longleftrightarrow> tc_closed c \<or> ph_closed (tc_protocol c)"

definition tc_close :: "tcp_connection \<Rightarrow> tcp_connection" where
  "tc_close c = (if tc_closed c then c else c\<lparr>tc_closed := True, tc_protocol := ph_close (tc_protocol c)\<rparr>)"

definition tc_discardPendingInput ::
  "bool \<Rightarrow> bool \<Rightarrow> int \<Rightarrow> int \<Rightarrow> int list \<Rightarrow> io_event list \<Rightarrow> tcp_connection \<Rightarrow> (nat \<times> io_event list) option" where
  "tc_discardPendingInput valid timeoutSet start budgetMs clk evs c =
     (if tc_closed c then Some (0, evs) else discardPendingInput valid timeoutSet start budgetMs clk evs (tc_protocol c))"

text \<open>The sends delegate.\<close>

definition tc_send :: "(protocol_handler \<Rightarrow> bool \<times> bytes \<times> protocol_handler) \<Rightarrow> tcp_connection \<Rightarrow> bool \<times> bytes \<times> tcp_connection" where
  "tc_send f c = (case f (tc_protocol c) of (ok, w, h) \<Rightarrow> (ok, w, c\<lparr>tc_protocol := h\<rparr>))"

section \<open>TCP server transport\<close>

record tcp_listener =
  tl_valid :: bool
  tl_port :: u16

record tcp_server =
  ts_listener :: tcp_listener
  ts_bound :: bool
  ts_clientIdCounter :: nat
  ts_connections :: "(string, nat) omap"
  ts_store :: "tcp_connection list"

definition mk_tcp_server :: tcp_server where
  "mk_tcp_server = \<lparr>ts_listener = \<lparr>tl_valid = False, tl_port = 0\<rparr>, ts_bound = False, ts_clientIdCounter = 1, ts_connections = [], ts_store = []\<rparr>"

text \<open>\<open>addressFor\<close>: the part after the last colon is the port; what is not digits degrades to the id alone.\<close>

fun port_digits :: "u16 \<Rightarrow> string \<Rightarrow> u16 option" where
  "port_digits p [] = Some p"
| "port_digits p (c # cs) = (if isdigit c then port_digits (p * 10 + word_of_nat (of_char c - 48)) cs else None)"

definition addressFor :: "string \<Rightarrow> string \<Rightarrow> client_address" where
  "addressFor i remote =
     (let digits = rev (takeWhile (\<lambda>c. c \<noteq> CHR '':'') (rev remote)); only_id = \<lparr>ca_id = i, ca_host = None, ca_port = 0\<rparr>
      in if CHR '':'' \<notin> set remote \<or> digits = [] then only_id
         else case port_digits 0 digits of
                None \<Rightarrow> only_id
              | Some p \<Rightarrow> \<lparr>ca_id = i, ca_host = Some (take (length remote - length digits - 1) remote), ca_port = p\<rparr>)"

text \<open>What \<open>listenTcp\<close> gave: an error, or the port the listener has.\<close>

definition tcp_bind :: "string + u16 \<Rightarrow> tcp_server \<Rightarrow> string option \<times> tcp_server" where
  "tcp_bind listen s =
     (if ts_bound s then (Some ''Already bound'', s)
      else case listen of
             Inl e \<Rightarrow> (Some e, s\<lparr>ts_listener := \<lparr>tl_valid = False, tl_port = 0\<rparr>\<rparr>)
           | Inr p \<Rightarrow> (None, s\<lparr>ts_listener := \<lparr>tl_valid = True, tl_port = p\<rparr>, ts_bound := True\<rparr>))"

definition tcp_isBound :: "tcp_server \<Rightarrow> bool" where
  "tcp_isBound s \<longleftrightarrow> ts_bound s \<and> tl_valid (ts_listener s)"

definition tcp_port :: "tcp_server \<Rightarrow> int" where
  "tcp_port s = (if tcp_isBound s then uint (tl_port (ts_listener s)) else -1)"

definition tcp_id :: "nat \<Rightarrow> string" where
  "tcp_id n = ''tcp-'' @ to_string n"

text \<open>What \<open>acceptTcp\<close> gave: a socket with the name of its peer, nothing in time, or an error.\<close>

datatype accept_tcp = Tcp_accepted string | Tcp_timedOut | Tcp_failed

text \<open>The accept up to the new connection, and its registration.\<close>

definition tcp_accept_open :: "accept_tcp \<Rightarrow> int \<Rightarrow> tcp_server \<Rightarrow> accept_result \<times> tcp_server" where
  "tcp_accept_open out now s =
     (if \<not> tcp_isBound s then (Accept_error, s)
      else case out of
             Tcp_timedOut \<Rightarrow> (Accept_timedOut, s)
           | Tcp_failed \<Rightarrow> (Accept_error, s)
           | Tcp_accepted remote \<Rightarrow>
               (Accepted (length (ts_store s)),
                s\<lparr>ts_clientIdCounter := Suc (ts_clientIdCounter s),
                  ts_store := ts_store s @ [mk_tcp_connection now (addressFor (tcp_id (ts_clientIdCounter s)) remote)]\<rparr>))"

definition ts_conn :: "tcp_server \<Rightarrow> nat \<Rightarrow> tcp_connection" where
  "ts_conn s r = ts_store s ! r"

definition tcp_register :: "nat \<Rightarrow> tcp_server \<Rightarrow> tcp_server" where
  "tcp_register r s = s\<lparr>ts_connections := omap_put (ca_id (tc_address (ts_conn s r))) r (ts_connections s)\<rparr>"

definition tcp_acceptClient :: "accept_tcp \<Rightarrow> int \<Rightarrow> tcp_server \<Rightarrow> accept_result \<times> tcp_server" where
  "tcp_acceptClient out now s =
     (case tcp_accept_open out now s of
        (Accepted r, s) \<Rightarrow> (Accepted r, tcp_register r s)
      | other \<Rightarrow> other)"

definition ts_update :: "nat \<Rightarrow> tcp_connection \<Rightarrow> tcp_server \<Rightarrow> tcp_server" where
  "ts_update r c s = s\<lparr>ts_store := (ts_store s)[r := c]\<rparr>"

definition close_ref :: "nat \<Rightarrow> tcp_server \<Rightarrow> tcp_server" where
  "close_ref r s = ts_update r (tc_close (ts_conn s r)) s"

text \<open>
  \<open>disconnectClient\<close> uses only the id of the connection it is given. It and \<open>close\<close> take connections out of the registry under the lock and close
  them after it: the part under the lock, and the whole call.
\<close>

definition tcp_unregister :: "string \<Rightarrow> tcp_server \<Rightarrow> nat option \<times> tcp_server" where
  "tcp_unregister i s =
     (case omap_get (ts_connections s) i of
        None \<Rightarrow> (None, s)
      | Some r \<Rightarrow> (Some r, s\<lparr>ts_connections := omap_del i (ts_connections s)\<rparr>))"

definition tcp_disconnect :: "string \<Rightarrow> tcp_server \<Rightarrow> tcp_server" where
  "tcp_disconnect i s = (case tcp_unregister i s of (None, s) \<Rightarrow> s | (Some r, s) \<Rightarrow> close_ref r s)"

definition tcp_drain :: "tcp_server \<Rightarrow> nat list \<times> tcp_server" where
  "tcp_drain s = (map snd (ts_connections s), s\<lparr>ts_connections := []\<rparr>)"

definition close_listener :: "tcp_server \<Rightarrow> tcp_server" where
  "close_listener s = s\<lparr>ts_listener := (ts_listener s)\<lparr>tl_valid := False\<rparr>\<rparr>"

definition tcp_close :: "tcp_server \<Rightarrow> tcp_server" where
  "tcp_close s = (let (drained, s) = tcp_drain (s\<lparr>ts_bound := False\<rparr>) in close_listener (fold close_ref drained s))"

definition ts_sum :: "(tcp_connection \<Rightarrow> int) \<Rightarrow> tcp_server \<Rightarrow> int" where
  "ts_sum f s = (\<Sum>(i, r)\<leftarrow>ts_connections s. f (ts_conn s r))"

definition tcp_packetsSent :: "tcp_server \<Rightarrow> int" where "tcp_packetsSent = ts_sum (\<lambda>c. sint (ph_packetsSent (tc_protocol c)))"
definition tcp_packetsReceived :: "tcp_server \<Rightarrow> int" where "tcp_packetsReceived = ts_sum (\<lambda>c. sint (ph_packetsReceived (tc_protocol c)))"
definition tcp_bytesSent :: "tcp_server \<Rightarrow> int" where "tcp_bytesSent = ts_sum (\<lambda>c. sint (ph_bytesSent (tc_protocol c)))"
definition tcp_bytesReceived :: "tcp_server \<Rightarrow> int" where "tcp_bytesReceived = ts_sum (\<lambda>c. sint (ph_bytesReceived (tc_protocol c)))"
definition tcp_crcErrors :: "tcp_server \<Rightarrow> int" where "tcp_crcErrors = ts_sum (\<lambda>c. sint (ph_crcErrors (tc_protocol c)))"

section \<open>TCP and UDP on one port\<close>

record dual_server =
  du_tcp :: tcp_server
  du_udp :: udp_server
  du_bindAttempts :: nat

definition mk_dual_server :: "audio_stream_config \<Rightarrow> udp_socket \<Rightarrow> dual_server option" where
  "mk_dual_server c sock = map_option (\<lambda>cfg. \<lparr>du_tcp = mk_tcp_server, du_udp = mk_udp_server cfg sock, du_bindAttempts = 0\<rparr>) (reliability_of c)"

definition kPort0BindAttempts :: nat where "kPort0BindAttempts = 32"
definition kDrawLow :: u16 where "kDrawLow = 49152"
definition kDrawHigh :: u16 where "kDrawHigh = 65535"

definition udp_bind :: "string + udp_socket \<Rightarrow> udp_server \<Rightarrow> string option \<times> udp_server" where
  "udp_bind bound sv = (case sv_bind bound sv of Inl e \<Rightarrow> (Some e, sv) | Inr sv' \<Rightarrow> (None, sv'))"

text \<open>The operating system during a bind: what it answers to the halves of each attempt, and the ports that are drawn.\<close>

record bind_os =
  os_tcp :: "nat \<Rightarrow> u16 \<Rightarrow> string + u16"
  os_udp :: "nat \<Rightarrow> u16 \<Rightarrow> string + udp_socket"
  os_draw :: "nat \<Rightarrow> u16"

definition exhausted_text :: "nat \<Rightarrow> string \<Rightarrow> string" where
  "exhausted_text attempts lastErr =
     (if attempts = 1 then ''UDP bind failed on 1 attempt: '' @ lastErr
      else ''paired bind failed on '' @ to_string attempts @ '' ports (1 OS-assigned, '' @ to_string (attempts - 1) @ '' drawn from '' @
        to_string (unat kDrawLow) @ ''-'' @ to_string (unat kDrawHigh) @ ''), last error: '' @ lastErr)"

text \<open>The loop from attempt \<open>n - k + 1\<close> of \<open>n\<close> on.\<close>

definition asked_port :: "bind_os \<Rightarrow> u16 \<Rightarrow> nat \<Rightarrow> u16" where
  "asked_port os port attempt = (if attempt > 1 then os_draw os attempt else port)"

fun bind_loop :: "bind_os \<Rightarrow> u16 \<Rightarrow> nat \<Rightarrow> nat \<Rightarrow> string \<Rightarrow> dual_server \<Rightarrow> string option \<times> dual_server" where
  "bind_loop os port n 0 lastErr d = (Some (exhausted_text n lastErr), d\<lparr>du_bindAttempts := n\<rparr>)"
| "bind_loop os port n (Suc k) lastErr d =
     (let attempt = n - k
      in case tcp_bind (os_tcp os attempt (asked_port os port attempt)) (du_tcp d) of
           (Some e, t) \<Rightarrow>
             if attempt = 1 then (Some e, d\<lparr>du_tcp := t\<rparr>) else bind_loop os port n k e (d\<lparr>du_tcp := t\<rparr>)
         | (None, t) \<Rightarrow>
             (case udp_bind (os_udp os attempt (word_of_int (tcp_port t))) (du_udp d) of
                (None, u) \<Rightarrow> (None, d\<lparr>du_tcp := t, du_udp := u, du_bindAttempts := attempt\<rparr>)
              | (Some e, u) \<Rightarrow> bind_loop os port n k e (d\<lparr>du_tcp := tcp_close t, du_udp := u\<rparr>)))"

definition bind_attempts :: "u16 \<Rightarrow> nat" where
  "bind_attempts port = (if port = 0 then kPort0BindAttempts else 1)"

definition dual_bind :: "bind_os \<Rightarrow> u16 \<Rightarrow> dual_server \<Rightarrow> string option \<times> dual_server" where
  "dual_bind os port d = bind_loop os port (bind_attempts port) (bind_attempts port) [] d"

definition dual_isBound :: "dual_server \<Rightarrow> bool" where
  "dual_isBound d \<longleftrightarrow> tcp_isBound (du_tcp d) \<and> sv_isBound (du_udp d)"

definition dual_port :: "dual_server \<Rightarrow> int" where
  "dual_port d = tcp_port (du_tcp d)"

text \<open>The slices of the accept; the division of C++ truncates.\<close>

definition tcp_slice :: "int \<Rightarrow> int" where
  "tcp_slice t = (if t > 0 then (if t div 2 < 1 then 1 else t div 2) else - ((- t) div 2))"

definition udp_slice :: "int \<Rightarrow> int" where
  "udp_slice t = (if t > 0 then (if t - tcp_slice t < 1 then 1 else t - tcp_slice t) else t - tcp_slice t)"

datatype dual_accepted = Dual_tcp nat | Dual_udp nat | Dual_timedOut | Dual_error

definition dual_acceptClient :: "accept_tcp \<Rightarrow> int \<Rightarrow> dual_server \<Rightarrow> dual_accepted \<times> dual_server" where
  "dual_acceptClient out now d =
     (if \<not> dual_isBound d then (Dual_error, d)
      else case tcp_acceptClient out now (du_tcp d) of
             (Accepted r, t) \<Rightarrow> (Dual_tcp r, d\<lparr>du_tcp := t\<rparr>)
           | (_, t) \<Rightarrow>
               (case acceptClient (du_udp d) of
                  (res, u) \<Rightarrow> (case res of Accepted r \<Rightarrow> Dual_udp r | Accept_timedOut \<Rightarrow> Dual_timedOut | Accept_error \<Rightarrow> Dual_error,
                               d\<lparr>du_tcp := t, du_udp := u\<rparr>)))"

text \<open>The UDP half given an id; the disconnect of that transport takes the connection and reads its id.\<close>

definition udp_disconnect :: "string \<Rightarrow> udp_server \<Rightarrow> udp_server" where
  "udp_disconnect i sv = (case disconnect_unroute i sv of (None, sv) \<Rightarrow> sv | (Some removed, sv) \<Rightarrow> close_conn removed sv)"

definition dual_disconnectClient :: "string \<Rightarrow> dual_server \<Rightarrow> dual_server" where
  "dual_disconnectClient i d = d\<lparr>du_tcp := tcp_disconnect i (du_tcp d), du_udp := udp_disconnect i (du_udp d)\<rparr>"

definition dual_packetsSent :: "dual_server \<Rightarrow> int" where "dual_packetsSent d = tcp_packetsSent (du_tcp d) + sv_packetsSent (du_udp d)"
definition dual_packetsReceived :: "dual_server \<Rightarrow> int" where "dual_packetsReceived d = tcp_packetsReceived (du_tcp d) + sv_packetsReceived (du_udp d)"
definition dual_bytesSent :: "dual_server \<Rightarrow> int" where "dual_bytesSent d = tcp_bytesSent (du_tcp d) + sv_bytesSent (du_udp d)"
definition dual_bytesReceived :: "dual_server \<Rightarrow> int" where "dual_bytesReceived d = tcp_bytesReceived (du_tcp d) + sv_bytesReceived (du_udp d)"
definition dual_crcErrors :: "dual_server \<Rightarrow> int" where "dual_crcErrors d = tcp_crcErrors (du_tcp d) + sv_crcErrors (du_udp d)"
definition dual_controlRetransmits :: "dual_server \<Rightarrow> int" where "dual_controlRetransmits d = sv_controlRetransmits (du_udp d)"
definition dual_orderedQueueDrops :: "dual_server \<Rightarrow> int" where "dual_orderedQueueDrops d = sv_orderedQueueDrops (du_udp d)"

definition dual_close :: "dual_server \<Rightarrow> dual_server" where
  "dual_close d = d\<lparr>du_tcp := tcp_close (du_tcp d), du_udp := sv_close (du_udp d)\<rparr>"

section \<open>Client transports\<close>

text \<open>
  The connection the transport holds; the caller gets the same object. \<open>connectTcp\<close> gave an error or a socket, \<open>bindUdp\<close> an error or a
  socket; the UDP connection is the result of its constructor, which may throw.
\<close>

definition tcp_client_connect :: "string option \<Rightarrow> int \<Rightarrow> string \<Rightarrow> u16 \<Rightarrow> tcp_connection option \<Rightarrow> string option \<times> tcp_connection option" where
  "tcp_client_connect failed now host port cur =
     (if (case cur of Some c \<Rightarrow> \<not> tc_isClosed c | None \<Rightarrow> False) then (Some ''Already connected'', cur)
      else case failed of
             Some e \<Rightarrow> (Some e, cur)
           | None \<Rightarrow> (None, Some (mk_tcp_connection now \<lparr>ca_id = ''client'', ca_host = Some host, ca_port = port\<rparr>)))"

text \<open>After \<open>close\<close>: what the transport holds, and the object the caller may still hold.\<close>

definition tcp_client_close :: "tcp_connection option \<Rightarrow> tcp_connection option \<times> tcp_connection option" where
  "tcp_client_close cur = (None, map_option tc_close cur)"

definition udp_client_connect ::
  "clocks \<Rightarrow> (string \<Rightarrow> string) \<Rightarrow> string + udp_socket \<Rightarrow> string \<Rightarrow> u16 \<Rightarrow> udp_reliability_config \<Rightarrow> udp_connection option \<Rightarrow>
   cpp_exn + (string option \<times> udp_connection option)" where
  "udp_client_connect t resolve sock host port cfg cur =
     (if (case cur of Some c \<Rightarrow> \<not> uc_closed c | None \<Rightarrow> False) then Inr (Some ''Already connected'', cur)
      else case sock of
             Inl e \<Rightarrow> Inr (Some e, cur)
           | Inr s \<Rightarrow> (case mk_udp_connection t resolve True s host port cfg of Inl x \<Rightarrow> Inl x | Inr c \<Rightarrow> Inr (None, Some c)))"

definition udp_client_close :: "udp_connection option \<Rightarrow> udp_connection option \<times> udp_connection option" where
  "udp_client_close cur = (None, map_option uc_close cur)"

section \<open>Endpoints\<close>

lemma port_digits_decimal: "list_all isdigit ds \<Longrightarrow> port_digits (word_of_int k) ds = Some (word_of_int (decimal k ds))"
proof (induction ds arbitrary: k)
  case (Cons c ds)
  have "word_of_int k * 10 + word_of_nat (of_char c - 48) = (word_of_int (k * 10 + int (of_char c - 48)) :: u16)" by simp
  then show ?case using Cons by (simp del: of_int_add of_int_mult)
qed simp

text \<open>
  The endpoint of an accepted client: \<open>addressFor\<close> reads back the host and the port of a peer name, for every port and every host, with
  colons in it or not.
\<close>

theorem peer_name_roundtrip:
  "addressFor i (host @ '':'' @ to_string (unat p)) = \<lparr>ca_id = i, ca_host = Some host, ca_port = p\<rparr>"
proof -
  have "port_digits 0 (to_string (unat p)) = Some (word_of_int (decimal 0 (to_string (unat p))))"
    using port_digits_decimal[of "to_string (unat p)" 0] to_string_digits by simp
  then have "port_digits 0 (to_string (unat p)) = Some p" by (simp add: decimal_to_string)
  moreover have "takeWhile (\<lambda>c. c \<noteq> CHR '':'') (rev (to_string (unat p)) @ CHR '':'' # rev host) = rev (to_string (unat p))"
    using colon_notin_to_string[of "unat p"] by (subst takeWhile_append2) auto
  moreover have "to_string (unat p) \<noteq> []" by simp
  ultimately show ?thesis by (simp add: addressFor_def Let_def)
qed

section \<open>Binding\<close>

text \<open>What the composite relies on in either half.\<close>

locale bindable =
  fixes bind :: "string + 'o \<Rightarrow> 's \<Rightarrow> string option \<times> 's"
    and bound :: "'s \<Rightarrow> bool"
    and close :: "'s \<Rightarrow> 's"
  assumes bind_bound: "bound s \<Longrightarrow> bind out s = (Some ''Already bound'', s)"
    and bind_refused: "\<not> bound s \<Longrightarrow> \<exists>s'. bind (Inl e) s = (Some e, s') \<and> \<not> bound s'"
    and bind_accepted: "\<not> bound s \<Longrightarrow> \<exists>s'. bind (Inr x) s = (None, s') \<and> bound s'"
    and close_unbound: "\<not> bound (close s)"
begin

lemma bind_iff: "\<not> bound s \<Longrightarrow> fst (bind out s) = None \<longleftrightarrow> (\<exists>x. out = Inr x)"
  using bind_refused bind_accepted by (cases out) (metis fst_conv option.distinct(1) sum.distinct(1), metis fst_conv)

lemma bind_result: "\<not> bound s \<Longrightarrow> bound (snd (bind out s)) \<longleftrightarrow> (\<exists>x. out = Inr x)"
  using bind_refused bind_accepted by (cases out) (metis snd_conv sum.distinct(1), metis snd_conv)

lemma rollback_rebinds: "fst (bind (Inr x) (close s)) = None"
  using bind_accepted[OF close_unbound] by (metis fst_conv)

end

lemma fold_close_tcp_bound [simp]: "ts_bound (fold close_ref rs s) = ts_bound s"
  by (induction rs arbitrary: s) (simp_all add: close_ref_def ts_update_def)

lemma tcp_close_unbound [simp]: "\<not> ts_bound (tcp_close s)"
  by (simp add: tcp_close_def tcp_drain_def close_listener_def Let_def)

lemma fold_close_udp_bound [simp]: "sv_bound (fold close_conn rs sv) = sv_bound sv"
  by (induction rs arbitrary: sv) (simp_all add: close_conn_def sv_update_def)

lemma udp_close_unbound [simp]: "\<not> sv_bound (sv_close sv)"
  by (simp add: sv_close_def close_drain_def close_flags_def close_socket_def Let_def)

interpretation tcp_half: bindable tcp_bind ts_bound tcp_close
  by unfold_locales (simp_all add: tcp_bind_def)

interpretation udp_half: bindable udp_bind sv_bound sv_close
  by unfold_locales (simp_all add: udp_bind_def sv_bind_def)

text \<open>An attempt at which both halves are given; the port is the one the listener has.\<close>

definition pair_port :: "bind_os \<Rightarrow> u16 \<Rightarrow> nat \<Rightarrow> u16 option" where
  "pair_port os port k =
     (case os_tcp os k (asked_port os port k) of
        Inl e \<Rightarrow> None
      | Inr p \<Rightarrow> (case os_udp os k p of Inl e \<Rightarrow> None | Inr sock \<Rightarrow> Some p))"

definition both_bound :: "bind_os \<Rightarrow> u16 \<Rightarrow> nat \<Rightarrow> dual_server \<Rightarrow> bool" where
  "both_bound os port k d \<longleftrightarrow> ts_bound (du_tcp d) \<and> tl_valid (ts_listener (du_tcp d)) \<and> sv_bound (du_udp d) \<and>
     pair_port os port k = Some (tl_port (ts_listener (du_tcp d))) \<and>
     os_udp os k (tl_port (ts_listener (du_tcp d))) = Inr (sv_socket (du_udp d)) \<and> du_bindAttempts d = k"

definition none_bound :: "dual_server \<Rightarrow> bool" where
  "none_bound d \<longleftrightarrow> \<not> ts_bound (du_tcp d) \<and> \<not> sv_bound (du_udp d)"

lemma bind_step:
  assumes "none_bound d" "tcp_bind (os_tcp os k (asked_port os port k)) (du_tcp d) = (r, t)"
  shows "r = Some e \<Longrightarrow> none_bound (d\<lparr>du_tcp := t\<rparr>) \<and> pair_port os port k = None"
    and "r = None \<Longrightarrow> udp_bind (os_udp os k (word_of_int (tcp_port t))) (du_udp d) = (None, u) \<Longrightarrow>
           both_bound os port k (d\<lparr>du_tcp := t, du_udp := u, du_bindAttempts := k\<rparr>)"
    and "r = None \<Longrightarrow> udp_bind (os_udp os k (word_of_int (tcp_port t))) (du_udp d) = (Some e, u) \<Longrightarrow>
           none_bound (d\<lparr>du_tcp := tcp_close t, du_udp := u\<rparr>) \<and> pair_port os port k = None"
  using assms
  by (auto simp: none_bound_def both_bound_def tcp_bind_def pair_port_def udp_bind_def sv_bind_def tcp_port_def tcp_isBound_def split: sum.splits)

lemma bind_loop_spec:
  assumes "none_bound d" "k \<le> n" "bind_loop os port n k e d = (r, d')"
  shows "if r = None then \<exists>j. n - k < j \<and> j \<le> n \<and> both_bound os port j d' \<and> (\<forall>i. n - k < i \<and> i < j \<longrightarrow> pair_port os port i = None)
         else none_bound d' \<and> ((\<exists>x. os_tcp os 1 port = Inl x) \<or> (\<forall>i. n - k < i \<and> i \<le> n \<longrightarrow> pair_port os port i = None))"
  using assms
proof (induction k arbitrary: e d)
  case 0
  then show ?case by (auto simp: none_bound_def)
next
  case (Suc k)
  let ?a = "n - k"
  have a: "0 < ?a" "n - Suc k < ?a" "?a \<le> n" and step: "n - Suc k < i \<longleftrightarrow> i = ?a \<or> n - k < i" for i
    using Suc.prems(2) by auto
  obtain q t where t: "tcp_bind (os_tcp os ?a (asked_port os port ?a)) (du_tcp d) = (q, t)" by (cases "tcp_bind (os_tcp os ?a (asked_port os port ?a)) (du_tcp d)")
  show ?case
  proof (cases q)
    case (Some x)
    have f: "none_bound (d\<lparr>du_tcp := t\<rparr>)" "pair_port os port ?a = None" using bind_step(1)[OF Suc.prems(1) t Some] by auto
    show ?thesis
    proof (cases "?a = 1")
      case True
      have "\<exists>x. os_tcp os 1 port = Inl x"
        using t Some True Suc.prems(1) by (auto simp: tcp_bind_def none_bound_def asked_port_def split: sum.splits)
      then show ?thesis using Suc.prems(3) t Some True f by (auto simp: Let_def)
    next
      case False
      then have "bind_loop os port n k x (d\<lparr>du_tcp := t\<rparr>) = (r, d')" using Suc.prems(3) t Some by (simp add: Let_def)
      from Suc.IH[OF f(1) _ this] Suc.prems(2) f(2) show ?thesis unfolding step by (auto split: if_splits)
    qed
  next
    case None
    obtain q' u where u: "udp_bind (os_udp os ?a (word_of_int (tcp_port t))) (du_udp d) = (q', u)"
      by (cases "udp_bind (os_udp os ?a (word_of_int (tcp_port t))) (du_udp d)")
    show ?thesis
    proof (cases q')
      case None' : None
      then have "r = None" "both_bound os port ?a d'"
        using Suc.prems(3) t u None bind_step(2)[OF Suc.prems(1) t None] by (auto simp: Let_def)
      then show ?thesis using a unfolding step by auto
    next
      case (Some x)
      note f = bind_step(3)[OF Suc.prems(1) t None u[unfolded Some]]
      have "bind_loop os port n k x (d\<lparr>du_tcp := tcp_close t, du_udp := u\<rparr>) = (r, d')" using Suc.prems(3) t u None Some by (simp add: Let_def)
      from Suc.IH[OF _ _ this] f Suc.prems(2) show ?thesis unfolding step by (auto split: if_splits)
    qed
  qed
qed

text \<open>The operating system gives a port that was named, or refuses.\<close>

definition honours_names :: "bind_os \<Rightarrow> bool" where
  "honours_names os \<longleftrightarrow> (\<forall>k p q. p \<noteq> 0 \<longrightarrow> os_tcp os k p = Inr q \<longrightarrow> q = p)"

text \<open>
  C27: The paired bind is all or nothing. From a state in which neither half is bound it ends with both halves bound to one port number, at the
  first attempt the operating system grants to both, or with neither bound; it fails only when TCP refuses the caller's own ask or no
  attempt is granted to both. A port the caller named is the port it gets, at the only attempt; otherwise there are at most 32.
\<close>

theorem dual_bind_all_or_nothing:
  assumes "none_bound d" "honours_names os" "dual_bind os port d = (r, d')"
  shows "if r = None
         then \<exists>k \<le> bind_attempts port. both_bound os port k d' \<and> (\<forall>i. 0 < i \<and> i < k \<longrightarrow> pair_port os port i = None) \<and> 0 < k \<and> k \<le> 32 \<and>
                (port \<noteq> 0 \<longrightarrow> k = 1 \<and> dual_port d' = uint port)
         else none_bound d' \<and> ((\<exists>e. os_tcp os 1 port = Inl e) \<or> (\<forall>i. 0 < i \<and> i \<le> bind_attempts port \<longrightarrow> pair_port os port i = None))"
proof -
  have b: "bind_loop os port (bind_attempts port) (bind_attempts port) [] d = (r, d')" using assms(3) by (simp add: dual_bind_def)
  note spec = bind_loop_spec[OF assms(1) order_refl b]
  have n: "bind_attempts port \<le> 32" "port \<noteq> 0 \<Longrightarrow> bind_attempts port = 1" by (simp_all add: bind_attempts_def kPort0BindAttempts_def)
  have p: "dual_port d' = uint port" if "both_bound os port 1 d'" "port \<noteq> 0"
  proof -
    have "os_tcp os (Suc 0) port = Inr (tl_port (ts_listener (du_tcp d')))"
      using that(1) by (auto simp: both_bound_def pair_port_def asked_port_def split: sum.splits)
    then have "tl_port (ts_listener (du_tcp d')) = port" using assms(2) that(2) unfolding honours_names_def by blast
    then show ?thesis using that(1) by (simp add: dual_port_def tcp_port_def tcp_isBound_def both_bound_def)
  qed
  show ?thesis
  proof (cases r)
    case None
    then obtain k where k: "0 < k" "k \<le> bind_attempts port" "both_bound os port k d'" "\<forall>i. 0 < i \<and> i < k \<longrightarrow> pair_port os port i = None" using spec by auto
    have "k = 1 \<and> dual_port d' = uint port" if "port \<noteq> 0" using k n(2)[OF that] p that by (cases "k = 1") auto
    then show ?thesis using None k n(1) by (auto intro!: exI[of _ k])
  next
    case (Some e) then show ?thesis using spec by auto
  qed
qed

text \<open>UDP refuses the port the system picks; the second attempt is granted.\<close>

definition demo_os :: bind_os where
  "demo_os = \<lparr>os_tcp = (\<lambda>k p. Inr (if p = 0 then 50000 else p)),
     os_udp = (\<lambda>k p. if p = 50000 then Inl ''denied'' else Inr \<lparr>us_closed = False, us_outcomes = [], us_sent = []\<rparr>), os_draw = (\<lambda>k. 49152 + word_of_nat k)\<rparr>"

definition demo_dual :: dual_server where
  "demo_dual = \<lparr>du_tcp = mk_tcp_server, du_udp = mk_udp_server default_udp_reliability \<lparr>us_closed = True, us_outcomes = [], us_sent = []\<rparr>, du_bindAttempts = 0\<rparr>"

definition demo_closed :: tcp_server where
  "demo_closed = mk_tcp_server\<lparr>ts_listener := \<lparr>tl_valid = False, tl_port = 50000\<rparr>\<rparr>"

theorem dual_bind_all_or_nothing_witness:
  "\<exists>d'. dual_bind demo_os 0 demo_dual = (None, d') \<and> (\<exists>k. both_bound demo_os 0 k d' \<and> 0 < k \<and> k \<le> 32) \<and> du_bindAttempts d' = 2 \<and> dual_port d' = 49154"
proof -
  have "dual_bind demo_os 0 demo_dual = bind_loop demo_os 0 32 (Suc (Suc 30)) [] demo_dual"
    by (simp add: dual_bind_def bind_attempts_def kPort0BindAttempts_def)
  also have "bind_loop demo_os 0 32 (Suc (Suc 30)) [] demo_dual = bind_loop demo_os 0 32 (Suc 30) ''denied'' (demo_dual\<lparr>du_tcp := demo_closed\<rparr>)"
    unfolding bind_loop.simps demo_closed_def
    by (simp add: demo_os_def demo_dual_def asked_port_def tcp_bind_def mk_tcp_server_def tcp_port_def tcp_isBound_def udp_bind_def sv_bind_def
        mk_udp_server_def tcp_close_def tcp_drain_def close_listener_def Let_def)
  finally obtain d' where d': "dual_bind demo_os 0 demo_dual = (None, d')" "du_bindAttempts d' = 2" "dual_port d' = 49154"
    unfolding bind_loop.simps demo_closed_def
    by (simp add: demo_os_def demo_dual_def asked_port_def tcp_bind_def mk_tcp_server_def tcp_port_def tcp_isBound_def udp_bind_def sv_bind_def
        mk_udp_server_def dual_port_def Let_def)
  have "none_bound demo_dual" "honours_names demo_os"
    by (simp_all add: none_bound_def demo_dual_def mk_tcp_server_def mk_udp_server_def honours_names_def demo_os_def)
  from dual_bind_all_or_nothing[OF this d'(1)] d' show ?thesis by auto
qed

section \<open>The registry of TCP connections\<close>

text \<open>
  The transport with the accepts that are between their connection and its registration, and with the connections that a disconnect or
  the shutdown has taken out of the registry and has yet to close.
\<close>

inductive tcp_step :: "tcp_server \<times> nat list \<times> nat list \<Rightarrow> tcp_server \<times> nat list \<times> nat list \<Rightarrow> bool" where
  Tcp_bind: "tcp_bind out s = (r, s') \<Longrightarrow> tcp_step (s, fl, xs) (s', fl, xs)"
| Tcp_open: "tcp_accept_open out now s = (Accepted r, s') \<Longrightarrow> tcp_step (s, fl, xs) (s', r # fl, xs)"
| Tcp_register: "r \<in> set fl \<Longrightarrow> tcp_step (s, fl, xs) (tcp_register r s, removeAll r fl, xs)"
| Tcp_use: "r < length (ts_store s) \<Longrightarrow> (tc_closed (ts_conn s r) \<Longrightarrow> tc_closed c) \<Longrightarrow> tc_address c = tc_address (ts_conn s r) \<Longrightarrow>
    tcp_step (s, fl, xs) (ts_update r c s, fl, xs)"
| Tcp_unregister: "tcp_unregister i s = (removed, s') \<Longrightarrow>
    tcp_step (s, fl, xs) (s', fl, (case removed of None \<Rightarrow> xs | Some r \<Rightarrow> r # xs))"
| Tcp_close: "r \<in> set xs \<Longrightarrow> tcp_step (s, fl, xs) (close_ref r s, fl, remove1 r xs)"
| Tcp_unbind: "tcp_step (s, fl, xs) (s\<lparr>ts_bound := False\<rparr>, fl, xs)"
| Tcp_drain: "tcp_drain s = (drained, s') \<Longrightarrow> tcp_step (s, fl, xs) (s', fl, drained @ xs)"
| Tcp_listener: "tcp_step (s, fl, xs) (close_listener s, fl, xs)"

definition tcp_named :: "tcp_server \<Rightarrow> bool" where
  "tcp_named s \<longleftrightarrow> ts_clientIdCounter s = Suc (length (ts_store s)) \<and>
     (\<forall>r < length (ts_store s). ca_id (tc_address (ts_conn s r)) = tcp_id (Suc r)) \<and>
     (\<forall>i r. omap_get (ts_connections s) i = Some r \<longrightarrow> r < length (ts_store s) \<and> i = tcp_id (Suc r))"

definition tcp_held :: "tcp_server \<Rightarrow> nat list \<Rightarrow> nat list \<Rightarrow> nat \<Rightarrow> bool" where
  "tcp_held s fl xs r \<longleftrightarrow> tc_closed (ts_conn s r) \<or> r \<in> set fl \<or> r \<in> set xs \<or> omap_get (ts_connections s) (tcp_id (Suc r)) = Some r"

definition tcp_ok :: "tcp_server \<times> nat list \<times> nat list \<Rightarrow> bool" where
  "tcp_ok x \<longleftrightarrow> (case x of (s, fl, xs) \<Rightarrow> tcp_named s \<and> omap_ok (ts_connections s) \<and>
     (\<forall>r \<in> set fl \<union> set xs. r < length (ts_store s)) \<and> (\<forall>r < length (ts_store s). tcp_held s fl xs r))"

lemma tcp_id_inject [simp]: "tcp_id m = tcp_id n \<longleftrightarrow> m = n"
  by (auto simp: tcp_id_def dest: to_string_inject)

lemma ca_id_addressFor [simp]: "ca_id (addressFor i remote) = i"
  by (simp add: addressFor_def Let_def split: option.splits)

lemma ts_conn_update: "ts_conn (ts_update r c s) r' = (if r' = r \<and> r < length (ts_store s) then c else ts_conn s r')"
  by (auto simp: ts_conn_def ts_update_def nth_list_update list_update_beyond)

lemma ts_update_fields [simp]:
  "ts_connections (ts_update r c s) = ts_connections s" "length (ts_store (ts_update r c s)) = length (ts_store s)"
  "ts_clientIdCounter (ts_update r c s) = ts_clientIdCounter s"
  by (simp_all add: ts_update_def)

lemma ts_conn_fields [simp]:
  "ts_conn (s\<lparr>ts_connections := m\<rparr>) r = ts_conn s r" "ts_conn (s\<lparr>ts_bound := b\<rparr>) r = ts_conn s r" "ts_conn (s\<lparr>ts_listener := l\<rparr>) r = ts_conn s r"
  by (simp_all add: ts_conn_def)

lemma tc_close_facts [simp]: "tc_closed (tc_close c)" "tc_address (tc_close c) = tc_address c"
  by (simp_all add: tc_close_def)

lemma close_ref_facts [simp]:
  "ts_connections (close_ref r s) = ts_connections s" "length (ts_store (close_ref r s)) = length (ts_store s)"
  "ts_clientIdCounter (close_ref r s) = ts_clientIdCounter s"
  "tc_address (ts_conn (close_ref r s) r') = tc_address (ts_conn s r')"
  "r < length (ts_store s) \<Longrightarrow> tc_closed (ts_conn (close_ref r s) r') \<longleftrightarrow> tc_closed (ts_conn s r') \<or> r' = r"
  by (auto simp: close_ref_def ts_conn_update)

lemma tcp_unregister_ok:
  assumes "tcp_ok (s, fl, xs)" "tcp_unregister i s = (removed, s')"
  shows "tcp_ok (s', fl, (case removed of None \<Rightarrow> xs | Some r \<Rightarrow> r # xs))"
proof (cases "omap_get (ts_connections s) i")
  case None
  then show ?thesis using assms by (simp add: tcp_unregister_def)
next
  case (Some q)
  have q: "q < length (ts_store s)" "i = tcp_id (Suc q)" using assms(1) Some by (simp_all add: tcp_ok_def tcp_named_def)
  have s': "removed = Some q" "s' = s\<lparr>ts_connections := omap_del i (ts_connections s)\<rparr>" using assms(2) Some by (simp_all add: tcp_unregister_def)
  show ?thesis using assms(1) q unfolding tcp_ok_def s'
    by (auto simp: tcp_named_def tcp_held_def omap_get_del omap_ok_del)
qed

lemma tcp_drain_ok:
  assumes "tcp_ok (s, fl, xs)" "tcp_drain s = (drained, s')"
  shows "tcp_ok (s', fl, drained @ xs)"
proof -
  have s': "drained = map snd (ts_connections s)" "s' = s\<lparr>ts_connections := []\<rparr>" using assms(2) by (simp_all add: tcp_drain_def)
  have reg: "r \<in> snd ` set (ts_connections s)" if "omap_get (ts_connections s) i = Some r" for i r using map_of_SomeD [OF that] by force
  have len: "r < length (ts_store s)" if "(i, r) \<in> set (ts_connections s)" for i r
  proof -
    have "omap_get (ts_connections s) i = Some r"
      using assms(1) that by (intro map_of_is_SomeI) (auto simp: tcp_ok_def intro: omap_ok_distinct)
    then show ?thesis using assms(1) by (simp add: tcp_ok_def tcp_named_def)
  qed
  show ?thesis using assms(1) reg len by (auto simp: s' tcp_ok_def tcp_named_def tcp_held_def)
qed

lemma tcp_step_ok: "tcp_step x y \<Longrightarrow> tcp_ok x \<Longrightarrow> tcp_ok y"
proof (induction rule: tcp_step.induct)
  case (Tcp_bind out s r s')
  then show ?case by (auto simp: tcp_bind_def tcp_ok_def tcp_named_def tcp_held_def split: if_splits sum.splits)
next
  case (Tcp_open out now s r s')
  then show ?case
    by (auto simp: tcp_accept_open_def tcp_ok_def tcp_named_def tcp_held_def ts_conn_def nth_append mk_tcp_connection_def less_Suc_eq
        split: if_splits accept_tcp.splits)
next
  case (Tcp_register r fl s)
  then show ?case by (auto simp: tcp_register_def tcp_ok_def tcp_named_def tcp_held_def omap_get_put omap_ok_put)
next
  case (Tcp_use r s c)
  then show ?case by (auto simp: tcp_ok_def tcp_named_def tcp_held_def ts_conn_update)
next
  case (Tcp_close r xs s fl)
  then have r: "r < length (ts_store s)" by (simp add: tcp_ok_def)
  have "r' = r" if "r' \<in> set xs" "r' \<notin> set (remove1 r xs)" for r' using that by (metis in_set_remove1)
  moreover have "set (remove1 r xs) \<subseteq> set xs" by (rule set_remove1_subset)
  ultimately show ?case using Tcp_close.prems r by (auto simp: tcp_ok_def tcp_named_def tcp_held_def)
next
  case (Tcp_unregister i s removed s')
  then show ?case by (blast intro: tcp_unregister_ok)
next
  case (Tcp_drain s drained s')
  then show ?case by (blast intro: tcp_drain_ok)
qed (auto simp: tcp_ok_def tcp_named_def tcp_held_def close_listener_def)

text \<open>The whole shutdown, when no other thread comes between its parts.\<close>

lemma close_refs_facts:
  "ts_connections (fold close_ref rs s) = ts_connections s" "length (ts_store (fold close_ref rs s)) = length (ts_store s)"
  "(\<And>r. r \<in> set rs \<Longrightarrow> r < length (ts_store s)) \<Longrightarrow>
     tc_closed (ts_conn (fold close_ref rs s) r) \<longleftrightarrow> tc_closed (ts_conn s r) \<or> r \<in> set rs"
  by (induction rs arbitrary: s) auto

lemma tcp_close_closes:
  assumes ok: "tcp_ok (s, fl, xs)" and r: "r < length (ts_store s)"
  shows "ts_connections (tcp_close s) = [] \<and> (tc_closed (ts_conn (tcp_close s) r) \<or> r \<in> set fl \<or> r \<in> set xs)"
proof -
  let ?s = "s\<lparr>ts_bound := False, ts_connections := []\<rparr>" and ?rs = "map snd (ts_connections s)"
  have eq: "tcp_close s = close_listener (fold close_ref ?rs ?s)" by (simp add: tcp_close_def tcp_drain_def)
  have drain: "tcp_ok (s\<lparr>ts_connections := []\<rparr>, fl, ?rs @ xs)" by (rule tcp_drain_ok [OF ok]) (simp add: tcp_drain_def)
  then have len: "\<And>q. q \<in> set ?rs \<Longrightarrow> q < length (ts_store ?s)" by (auto simp: tcp_ok_def)
  from drain r have "tc_closed (ts_conn s r) \<or> r \<in> set fl \<or> r \<in> set xs \<or> r \<in> set ?rs" by (auto simp: tcp_ok_def tcp_held_def)
  then show ?thesis using close_refs_facts(3) [OF len, of ?rs r] unfolding eq by (auto simp: close_listener_def close_refs_facts(1))
qed

lemma tcp_reachable_ok: "tcp_step\<^sup>*\<^sup>* (mk_tcp_server, [], []) x \<Longrightarrow> tcp_ok x"
proof (induction rule: rtranclp_induct)
  case base then show ?case by (simp add: tcp_ok_def tcp_named_def mk_tcp_server_def)
next
  case (step y z) then show ?case using tcp_step_ok by blast
qed

text \<open>
  No TCP connection is lost: whatever the accept thread, the sessions and the owner do, every connection the transport made is closed,
  registered under its own id, in the hands of an accept that has not registered it, or in the hands of a thread that is about to close it; and a shutdown empties the registry and
  closes all but the last two kinds.
\<close>

theorem tcp_connections_held:
  assumes "tcp_step\<^sup>*\<^sup>* (mk_tcp_server, [], []) (s, fl, xs)" "r < length (ts_store s)"
  shows "(tc_closed (ts_conn s r) \<or> r \<in> set fl \<or> r \<in> set xs \<or> omap_get (ts_connections s) (tcp_id (Suc r)) = Some r) \<and>
    ts_connections (tcp_close s) = [] \<and> (tc_closed (ts_conn (tcp_close s) r) \<or> r \<in> set fl \<or> r \<in> set xs)"
proof -
  have ok: "tcp_ok (s, fl, xs)" using tcp_reachable_ok[OF assms(1)] .
  then have "tcp_held s fl xs r" using assms(2) by (simp add: tcp_ok_def)
  then show ?thesis using tcp_close_closes [OF ok assms(2)] by (simp add: tcp_held_def)
qed

theorem tcp_connections_held_witness:
  "\<exists>s. tcp_step\<^sup>*\<^sup>* (mk_tcp_server, [], []) (s, [], []) \<and> 0 < length (ts_store s) \<and> tc_closed (ts_conn (tcp_close s) 0)"
proof -
  obtain s1 where b: "tcp_bind (Inr 4533) mk_tcp_server = (None, s1)" "tcp_isBound s1" "ts_store s1 = []"
    by (simp add: tcp_bind_def mk_tcp_server_def tcp_isBound_def)
  obtain s2 where o: "tcp_accept_open (Tcp_accepted ''10.0.0.9:5000'') 0 s1 = (Accepted 0, s2)" "length (ts_store s2) = 1"
    using b by (simp add: tcp_accept_open_def)
  have "tcp_step (mk_tcp_server, [], []) (s1, [], [])" using tcp_step.Tcp_bind b(1) by blast
  moreover have "tcp_step (s1, [], []) (s2, [0], [])" using tcp_step.Tcp_open o(1) by blast
  moreover have "tcp_step (s2, [0], []) (tcp_register 0 s2, [], [])" using tcp_step.Tcp_register[of 0 "[0]" s2] by simp
  ultimately have r: "tcp_step\<^sup>*\<^sup>* (mk_tcp_server, [], []) (tcp_register 0 s2, [], [])" by (meson r_into_rtranclp rtranclp_trans)
  have l: "0 < length (ts_store (tcp_register 0 s2))" using o(2) by (simp add: tcp_register_def)
  show ?thesis using r l tcp_connections_held[OF r l] by auto
qed

text \<open>A disconnect of the composite reaches one half only: the ids of the halves differ.\<close>

lemma udp_disconnect_eq: "disconnectClient r sv = udp_disconnect (ca_id (sv_addr sv r)) sv"
  by (simp add: disconnectClient_def udp_disconnect_def)

lemma dual_disconnect_isolated:
  assumes "tcp_ok (du_tcp d, fl, xs)" "sv_inv X (du_udp d)"
  shows "dual_disconnectClient (tcp_id n) d = d\<lparr>du_tcp := tcp_disconnect (tcp_id n) (du_tcp d)\<rparr>"
    and "dual_disconnectClient (conn_id n) d = d\<lparr>du_udp := udp_disconnect (conn_id n) (du_udp d)\<rparr>"
proof -
  have ne: "tcp_id m \<noteq> conn_id k" for m k by (simp add: tcp_id_def conn_id_def)
  have "omap_get (sv_byId (du_udp d)) (tcp_id n) = None"
  proof (rule ccontr)
    assume "omap_get (sv_byId (du_udp d)) (tcp_id n) \<noteq> None"
    then obtain r where "omap_get (sv_byId (du_udp d)) (tcp_id n) = Some r" by blast
    then have "tcp_id n = conn_id r" using assms(2) unfolding sv_inv_def routed_def by blast
    then show False using ne by blast
  qed
  then show "dual_disconnectClient (tcp_id n) d = d\<lparr>du_tcp := tcp_disconnect (tcp_id n) (du_tcp d)\<rparr>"
    by (simp add: dual_disconnectClient_def udp_disconnect_def disconnect_unroute_def)
  have "omap_get (ts_connections (du_tcp d)) (conn_id n) = None"
  proof (rule ccontr)
    assume "omap_get (ts_connections (du_tcp d)) (conn_id n) \<noteq> None"
    then obtain r where "omap_get (ts_connections (du_tcp d)) (conn_id n) = Some r" by blast
    then have "conn_id n = tcp_id (Suc r)" using assms(1) unfolding tcp_ok_def tcp_named_def by simp
    then show False using ne by metis
  qed
  then show "dual_disconnectClient (conn_id n) d = d\<lparr>du_udp := udp_disconnect (conn_id n) (du_udp d)\<rparr>"
    by (simp add: dual_disconnectClient_def tcp_disconnect_def tcp_unregister_def)
qed

text \<open>The slices of a positive deadline are positive, so that no half blocks, and add up to it, except for a deadline of one.\<close>

lemma accept_slices: "0 < t \<Longrightarrow> 0 < tcp_slice t \<and> 0 < udp_slice t \<and> tcp_slice t + udp_slice t = max 2 t"
  by (auto simp: tcp_slice_def udp_slice_def)

end
