(* ===== verification/Socket_Io.thy ===== *)
theory Socket_Io
  imports Protocol_Handler
begin

text \<open>
  The parts of \<open>src/src/net/Socket.cpp\<close> that are more than a system call: who may use a descriptor while \<open>close\<close> is under way, the
  accept that polls in slices, the send that loops over partial writes under one budget, the counter of the datagrams the kernel dropped, and
  the error paths of the functions that make a socket. System calls are arguments: scripts of what they report. A section under the
  mutex of the socket is one operation; threads are the sequence of the operations.
\<close>

section \<open>The descriptor\<close>

text \<open>
  A descriptor is a number of the process. \<open>so_freed\<close> counts how often each number was given back, so that a number and its count
  identify one life of a descriptor; a scope keeps the pair it entered with, a close the number it took. \<open>so_others\<close> are the
  descriptors of the rest of the process, which may be given any number that is not in use.
\<close>

record io_socket =
  so_handle :: "nat option"
  so_inFlight :: nat
  so_scopes :: "(nat \<times> nat) list"
  so_closers :: "nat list"
  so_drainTimeouts :: nat
  so_freed :: "nat \<Rightarrow> nat"
  so_others :: "nat list"

definition no_socket :: io_socket where
  "no_socket = \<lparr>so_handle = None, so_inFlight = 0, so_scopes = [], so_closers = [], so_drainTimeouts = 0, so_freed = (\<lambda>h. 0), so_others = []\<rparr>"

definition io_enter :: "io_socket \<Rightarrow> io_socket" where
  "io_enter s =
     (case so_handle s of
        None \<Rightarrow> s
      | Some h \<Rightarrow> s\<lparr>so_inFlight := so_inFlight s + 1, so_scopes := so_scopes s @ [(h, so_freed s h)]\<rparr>)"

definition io_leave :: "nat \<Rightarrow> io_socket \<Rightarrow> io_socket option" where
  "io_leave i s =
     (if i < length (so_scopes s)
      then Some (s\<lparr>so_inFlight := so_inFlight s - 1, so_scopes := drop_nth i (so_scopes s)\<rparr>) else None)"

text \<open>\<open>close\<close>: taking the handle; and, after the shutdown, the end of the wait, by the predicate or by the deadline, and the release.\<close>

definition close_take :: "io_socket \<Rightarrow> io_socket" where
  "close_take s = (case so_handle s of None \<Rightarrow> s | Some h \<Rightarrow> s\<lparr>so_handle := None, so_closers := so_closers s @ [h]\<rparr>)"

definition close_free :: "bool \<Rightarrow> nat \<Rightarrow> io_socket \<Rightarrow> io_socket option" where
  "close_free deadline i s =
     (if i < length (so_closers s) \<and> (deadline \<or> so_inFlight s = 0)
      then let h = so_closers s ! i
           in Some (s\<lparr>so_drainTimeouts := so_drainTimeouts s + (if so_inFlight s = 0 then 0 else 1),
                      so_closers := drop_nth i (so_closers s),
                      so_freed := (so_freed s)(h := Suc (so_freed s h))\<rparr>)
      else None)"

text \<open>A new descriptor for the socket (construction, or the assignment of a fresh socket after \<open>close\<close>) and for somebody else.\<close>

definition in_use :: "nat \<Rightarrow> io_socket \<Rightarrow> bool" where
  "in_use h s \<longleftrightarrow> so_handle s = Some h \<or> h \<in> set (so_closers s) \<or> h \<in> set (so_others s)"

definition adopt_handle :: "nat \<Rightarrow> io_socket \<Rightarrow> io_socket option" where
  "adopt_handle h s = (if so_handle s = None \<and> \<not> in_use h s then Some (s\<lparr>so_handle := Some h\<rparr>) else None)"

datatype socket_call = Io_adopt nat | Io_enter | Io_leave nat | Io_take | Io_free bool nat | Io_other nat | Io_other_close nat

fun socket_op :: "socket_call \<Rightarrow> io_socket \<Rightarrow> io_socket option" where
  "socket_op (Io_adopt h) s = adopt_handle h s"
| "socket_op Io_enter s = Some (io_enter s)"
| "socket_op (Io_leave i) s = io_leave i s"
| "socket_op Io_take s = Some (close_take s)"
| "socket_op (Io_free deadline i) s = close_free deadline i s"
| "socket_op (Io_other h) s = (if in_use h s then None else Some (s\<lparr>so_others := so_others s @ [h]\<rparr>))"
| "socket_op (Io_other_close h) s =
     (if h \<in> set (so_others s) then Some (s\<lparr>so_others := removeAll h (so_others s), so_freed := (so_freed s)(h := Suc (so_freed s h))\<rparr>) else None)"

fun socket_run :: "socket_call list \<Rightarrow> io_socket \<Rightarrow> io_socket option" where
  "socket_run [] s = Some s"
| "socket_run (a # as) s = (case socket_op a s of None \<Rightarrow> None | Some s' \<Rightarrow> socket_run as s')"

section \<open>Sending\<close>

datatype send_out = Sent nat | Send_interrupted | Send_error

datatype send_stop = Stop_ok | Stop_budget | Stop_failed | Stop_notEntered

text \<open>
  \<open>sendAll\<close> over what \<open>send\<close> reported (a positive count of bytes, at most those offered) and the milliseconds since the call began; the
  stop reason and the bytes on the wire. No reason: the script ended inside the call.
\<close>

fun send_loop :: "nat \<Rightarrow> (send_out \<times> nat) list \<Rightarrow> bytes \<Rightarrow> send_stop option \<times> bytes" where
  "send_loop budget script [] = (Some Stop_ok, [])"
| "send_loop budget [] (b # bs) = (None, [])"
| "send_loop budget ((Sent n, elapsed) # script) (b # bs) =
     (let n = max 1 n; w = take n (b # bs); left = drop n (b # bs)
      in if left = [] then (Some Stop_ok, w)
         else if 0 < budget \<and> budget \<le> elapsed then (Some Stop_budget, w)
         else apsnd ((@) w) (send_loop budget script left))"
| "send_loop budget ((Send_interrupted, _) # script) (b # bs) = send_loop budget script (b # bs)"
| "send_loop budget ((Send_error, _) # script) (b # bs) = (Some Stop_failed, [])"

definition sendAll :: "bool \<Rightarrow> nat \<Rightarrow> (send_out \<times> nat) list \<Rightarrow> bytes \<Rightarrow> send_stop option \<times> bytes" where
  "sendAll entered budget script d = (if \<not> entered then (Some Stop_notEntered, []) else send_loop budget script d)"

section \<open>Accepting\<close>

definition kAcceptPollSliceMs :: int where "kAcceptPollSliceMs = 50"

text \<open>One wait: a connection is there, nothing (with whether a \<open>close\<close> has taken the handle), an interruption, a failure.\<close>

datatype wait_out = Ready | Quiet bool | Wait_interrupted | Wait_failed

definition accept_slice :: "int \<Rightarrow> int \<Rightarrow> int" where
  "accept_slice timeoutMs left_ms = (if timeoutMs > 0 \<and> left_ms < kAcceptPollSliceMs then left_ms else kAcceptPollSliceMs)"

text \<open>The result, when there is one, and the milliseconds each wait was given.\<close>

fun accept_wait :: "int \<Rightarrow> int \<Rightarrow> wait_out list \<Rightarrow> io_status option \<times> int list" where
  "accept_wait timeoutMs left_ms [] = (None, [])"
| "accept_wait timeoutMs left_ms (w # ws) =
     (let slice = accept_slice timeoutMs left_ms
      in case w of
           Ready \<Rightarrow> (Some Ok, [slice])
         | Wait_interrupted \<Rightarrow> (Some TimedOut, [slice])
         | Wait_failed \<Rightarrow> (Some Error, [slice])
         | Quiet closing \<Rightarrow>
             if closing then (Some Error, [slice])
             else if timeoutMs > 0 \<and> left_ms - slice \<le> 0 then (Some TimedOut, [slice])
             else apsnd ((#) slice) (accept_wait timeoutMs (if timeoutMs > 0 then left_ms - slice else left_ms) ws))"

datatype accept_out = Acc_socket | Acc_retry | Acc_failed

definition acceptTcp :: "bool \<Rightarrow> int \<Rightarrow> wait_out list \<Rightarrow> accept_out \<Rightarrow> io_status option" where
  "acceptTcp entered timeoutMs waits acc =
     (if \<not> entered then Some Error
      else case fst (accept_wait timeoutMs timeoutMs waits) of
             Some Ok \<Rightarrow> Some (case acc of Acc_socket \<Rightarrow> Ok | Acc_retry \<Rightarrow> TimedOut | Acc_failed \<Rightarrow> Error)
           | other \<Rightarrow> other)"

section \<open>Dropped datagrams\<close>

record drop_counter =
  dk_on :: bool
  dk_lastRaw :: u32
  dk_accum :: u64

definition no_drop_counter :: drop_counter where "no_drop_counter = \<lparr>dk_on = False, dk_lastRaw = 0, dk_accum = 0\<rparr>"

definition enableReceiveDropCounter :: drop_counter where
  "enableReceiveDropCounter = \<lparr>dk_on = True, dk_lastRaw = 0, dk_accum = 0\<rparr>"

text \<open>A datagram with the reading of the kernel.\<close>

definition drop_reading :: "u32 \<Rightarrow> drop_counter \<Rightarrow> drop_counter" where
  "drop_reading raw k = (if dk_on k then k\<lparr>dk_lastRaw := raw, dk_accum := dk_accum k + ucast (raw - dk_lastRaw k)\<rparr> else k)"

definition receiveDrops :: "drop_counter \<Rightarrow> int" where
  "receiveDrops k = (if dk_on k then sint (dk_accum k) else -1)"

section \<open>Making a socket\<close>

text \<open>
  The descriptor that \<open>socket\<close> gave, the calls on it, and the result: an error or the socket, with the descriptors that were closed again.
  The error texts are without the host name and the error number the code completes them with.
\<close>

definition listenTcp :: "bool \<Rightarrow> nat option \<Rightarrow> bool \<Rightarrow> bool \<Rightarrow> (string + nat) \<times> nat list" where
  "listenTcp resolved fd bind_ok listen_ok =
     (if \<not> resolved then (Inl ''getaddrinfo failed'', [])
      else case fd of
             None \<Rightarrow> (Inl ''socket() failed'', [])
           | Some h \<Rightarrow>
               if \<not> bind_ok then (Inl ''bind() failed'', [h])
               else if \<not> listen_ok then (Inl ''listen() failed'', [h])
               else (Inr h, []))"

definition bindUdp :: "bool \<Rightarrow> nat option \<Rightarrow> bool \<Rightarrow> (string + nat) \<times> nat list" where
  "bindUdp resolved fd bind_ok =
     (if \<not> resolved then (Inl ''getaddrinfo failed'', [])
      else case fd of None \<Rightarrow> (Inl ''socket() failed'', []) | Some h \<Rightarrow> if \<not> bind_ok then (Inl ''bind() failed'', [h]) else (Inr h, []))"

datatype connect_out = Connected | In_progress | Connect_failed

record connect_os =
  co_nonblocking :: bool
  co_connect :: connect_out
  co_wait :: int
  co_soError :: nat

definition connectTcp :: "bool \<Rightarrow> nat option \<Rightarrow> int \<Rightarrow> connect_os \<Rightarrow> (string + nat) \<times> nat list" where
  "connectTcp resolved fd timeoutMs os =
     (if \<not> resolved then (Inl ''getaddrinfo failed'', [])
      else case fd of
             None \<Rightarrow> (Inl ''socket() failed'', [])
           | Some h \<Rightarrow>
               if timeoutMs \<le> 0 then (if co_connect os \<noteq> Connected then (Inl ''connect() failed'', [h]) else (Inr h, []))
               else if \<not> co_nonblocking os then (Inl ''setNonBlocking failed'', [h])
               else if co_connect os = Connect_failed then (Inl ''connect() failed'', [h])
               else if co_connect os = In_progress \<and> co_wait os \<le> 0
                 then (Inl (if co_wait os = 0 then ''connect timed out'' else ''readiness wait failed''), [h])
               else if co_connect os = In_progress \<and> co_soError os \<noteq> 0
                 then (Inl (''connect failed (SO_ERROR='' @ to_string (co_soError os) @ '')''), [h])
               else (Inr h, []))"

text \<open>A descriptor that was made is closed exactly when it is not returned.\<close>

lemma made_sockets_not_leaked:
  "resolved \<Longrightarrow> listenTcp resolved (Some h) b l = (r, closing) \<Longrightarrow> (closing = [] \<and> r = Inr h) \<or> (closing = [h] \<and> isl r)"
  "resolved \<Longrightarrow> bindUdp resolved (Some h) b = (r, closing) \<Longrightarrow> (closing = [] \<and> r = Inr h) \<or> (closing = [h] \<and> isl r)"
  "resolved \<Longrightarrow> connectTcp resolved (Some h) t os = (r, closing) \<Longrightarrow> (closing = [] \<and> r = Inr h) \<or> (closing = [h] \<and> isl r)"
  by (auto simp: listenTcp_def bindUdp_def connectTcp_def split: if_splits)

section \<open>No call on a freed descriptor\<close>

definition socket_inv :: "io_socket \<Rightarrow> bool" where
  "socket_inv s \<longleftrightarrow> so_inFlight s = length (so_scopes s) \<and> distinct (so_closers s) \<and>
     (\<forall>h. so_handle s = Some h \<longrightarrow> h \<notin> set (so_closers s) \<and> h \<notin> set (so_others s)) \<and>
     set (so_closers s) \<inter> set (so_others s) = {} \<and>
     (so_drainTimeouts s = 0 \<longrightarrow> (\<forall>(h, g) \<in> set (so_scopes s). so_freed s h = g \<and> (so_handle s = Some h \<or> h \<in> set (so_closers s))))"

lemma socket_inv_op:
  assumes inv: "socket_inv s" and op: "socket_op a s = Some s'"
  shows "socket_inv s'"
proof (cases a)
  case (Io_adopt h) with assms show ?thesis by (auto simp: adopt_handle_def in_use_def socket_inv_def split: if_splits)
next
  case Io_enter with assms show ?thesis by (auto simp: io_enter_def socket_inv_def split: option.splits)
next
  case (Io_leave i)
  then have i: "i < length (so_scopes s)" "s' = s\<lparr>so_inFlight := so_inFlight s - 1, so_scopes := drop_nth i (so_scopes s)\<rparr>"
    using op by (auto simp: io_leave_def split: if_splits)
  have "\<forall>x \<in> set (drop_nth i (so_scopes s)). x \<in> set (so_scopes s)" using set_drop_nth by fastforce
  then show ?thesis using inv i by (fastforce simp: socket_inv_def)
next
  case Io_take with assms show ?thesis by (auto simp: close_take_def socket_inv_def split: option.splits)
next
  case (Io_free deadline i)
  then have i: "i < length (so_closers s)" "deadline \<or> so_inFlight s = 0" using op by (auto simp: close_free_def split: if_splits)
  have d: "distinct (so_closers s)" using inv by (simp add: socket_inv_def)
  note facts = set_drop_nth_distinct[OF d i(1)] distinct_drop_nth[OF d, of i]
  show ?thesis
  proof (cases "so_inFlight s = 0")
    case True
    then have "so_scopes s = []" using inv by (simp add: socket_inv_def)
    with Io_free assms i True facts show ?thesis by (auto simp: close_free_def socket_inv_def Let_def)
  next
    case False
    with Io_free assms i facts show ?thesis by (auto simp: close_free_def socket_inv_def Let_def)
  qed
next
  case (Io_other h) with assms show ?thesis by (auto simp: in_use_def socket_inv_def split: if_splits)
next
  case (Io_other_close h) with assms show ?thesis by (fastforce simp: socket_inv_def split: if_splits)
qed

lemma socket_inv_run: "socket_inv s \<Longrightarrow> socket_run as s = Some s' \<Longrightarrow> socket_inv s'"
  by (induction as arbitrary: s) (auto split: option.splits dest: socket_inv_op)

text \<open>
  C24: A descriptor is not given back while a system call is on it. Whatever the threads do, as long as no drain has run into its deadline, the
  number every call in progress works on is still held by the socket or by the \<open>close\<close> that waits, has not been given back since the
  call began, and nobody else in the process has it.
\<close>

theorem no_call_on_freed_descriptor:
  assumes "socket_run as no_socket = Some s" "so_drainTimeouts s = 0" "(h, g) \<in> set (so_scopes s)"
  shows "(so_handle s = Some h \<or> h \<in> set (so_closers s)) \<and> so_freed s h = g \<and> h \<notin> set (so_others s)"
proof -
  have "socket_inv s" by (rule socket_inv_run[OF _ assms(1)]) (simp add: socket_inv_def no_socket_def)
  then show ?thesis using assms(2,3) by (fastforce simp: socket_inv_def)
qed

definition closing_socket :: "socket_call list" where
  "closing_socket = [Io_other 3, Io_adopt 4, Io_enter, Io_take, Io_other 5, Io_other_close 3]"

theorem no_call_on_freed_descriptor_witness:
  "\<exists>s. socket_run closing_socket no_socket = Some s \<and> so_scopes s = [(4, 0)] \<and> so_drainTimeouts s = 0 \<and> so_handle s = None \<and> so_freed s 4 = 0 \<and> 4 \<notin> set (so_others s)"
proof -
  obtain s where s: "socket_run closing_socket no_socket = Some s" "so_scopes s = [(4, 0)]" "so_drainTimeouts s = 0" "so_handle s = None"
    by (simp add: closing_socket_def no_socket_def adopt_handle_def in_use_def io_enter_def close_take_def)
  then show ?thesis using no_call_on_freed_descriptor[OF s(1,3), of 4 0] by simp
qed

text \<open>The deadline of the drain is the exception the code counts: the number of a call in progress then belongs to somebody else.\<close>

lemma drain_deadline_exposes:
  "\<exists>s. socket_run [Io_adopt 4, Io_enter, Io_take, Io_free True 0, Io_other 4] no_socket = Some s \<and>
       so_drainTimeouts s = 1 \<and> so_scopes s = [(4, 0)] \<and> so_freed s 4 = 1 \<and> 4 \<in> set (so_others s)"
  by (simp add: no_socket_def adopt_handle_def in_use_def io_enter_def close_take_def close_free_def drop_nth_def)

section \<open>Sends and waits\<close>

lemma send_loop_prefix: "send_loop budget script d = (r, w) \<Longrightarrow> \<exists>rest. d = w @ rest \<and> (r = Some Stop_ok \<longleftrightarrow> rest = [])"
proof (induction budget script d arbitrary: r w rule: send_loop.induct)
  case (3 budget n elapsed script b bs)
  let ?n = "max 1 n" and ?d = "b # bs"
  show ?case
  proof (cases "drop ?n ?d = [] \<or> (0 < budget \<and> budget \<le> elapsed)")
    case True
    have "?d = take ?n ?d @ drop ?n ?d" by simp
    with True 3 show ?thesis by (auto simp: Let_def split: if_splits simp del: take_Cons drop_Cons append_take_drop_id)
  next
    case False
    then obtain r' w' where l: "send_loop budget script (drop ?n ?d) = (r', w')" "r = r'" "w = take ?n ?d @ w'"
      using 3(2) by (cases "send_loop budget script (drop ?n ?d)") (auto simp: Let_def split: if_splits)
    obtain rest where "drop ?n ?d = w' @ rest" "r' = Some Stop_ok \<longleftrightarrow> rest = []" using 3(1)[OF refl refl refl _ _ l(1)] False by auto
    then show ?thesis using l(2,3) by (metis append_take_drop_id append_assoc)
  qed
qed auto

text \<open>
  C28: The send loop implements what the framing layer assumes of a send: whatever partial writes, interruptions and failures the kernel
  reports, a call that ends has put a prefix of the frame on the wire. A call on an open socket reports success if and only if that prefix
  is the whole frame, also when the last byte went out after the budget was spent; a call that was not let in reports failure.
\<close>

theorem send_all_refines:
  assumes "sendAll entered budget script d = (Some stop, w)"
  shows "(\<exists>out. socket_sendAll out d = (stop = Stop_ok, w)) \<and> (stop = Stop_ok \<longleftrightarrow> entered \<and> w = d)"
proof (cases entered)
  case False
  then have "stop = Stop_notEntered" "w = []" using assms by (simp_all add: sendAll_def)
  then show ?thesis using False by (auto intro: exI[of _ "Some 0"])
next
  case True
  then have "send_loop budget script d = (Some stop, w)" using assms by (simp add: sendAll_def)
  then obtain rest where rest: "d = w @ rest" "stop = Stop_ok \<longleftrightarrow> rest = []" using send_loop_prefix by fastforce
  have "socket_sendAll (if rest = [] then None else Some (length w)) d = (stop = Stop_ok, w)" using rest by auto
  then show ?thesis using True rest by auto
qed

theorem send_all_refines_witness:
  "sendAll True 200 [(Sent 2, 10), (Send_interrupted, 15), (Sent 1, 250)] [1, 2, 3, 4, 5] = (Some Stop_budget, [1, 2, 3]) \<and>
   (\<exists>out. socket_sendAll out [1, 2, 3, 4, 5] = (False, [1, 2, 3])) \<and>
   sendAll True 200 [(Sent 2, 10), (Sent 3, 250)] [1, 2, 3, 4, 5] = (Some Stop_ok, [1, 2, 3, 4, 5])"
proof -
  have s: "sendAll True 200 [(Sent 2, 10), (Send_interrupted, 15), (Sent 1, 250)] [1, 2, 3, 4, 5] = (Some Stop_budget, [1, 2, 3])"
    by (simp add: sendAll_def)
  have t: "sendAll True 200 [(Sent 2, 10), (Sent 3, 250)] [1, 2, 3, 4, 5] = (Some Stop_ok, [1, 2, 3, 4, 5])" by (simp add: sendAll_def)
  show ?thesis using s t send_all_refines[OF s] by simp
qed

text \<open>A partial write at or after the budget ends the call: a peer that drains slowly cannot extend it.\<close>

lemma send_budget_ends:
  "0 < budget \<Longrightarrow> budget \<le> elapsed \<Longrightarrow> fst (send_loop budget ((Sent n, elapsed) # script) d) \<noteq> None"
  by (cases d) (auto simp: Let_def)

lemma accept_slices_sum:
  assumes "0 < left_ms" "left_ms \<le> t" "left_ms \<le> 50 * int n"
  shows "\<exists>slices. accept_wait t left_ms (replicate n (Quiet False)) = (Some TimedOut, slices) \<and> sum_list slices = left_ms \<and> list_all (\<lambda>x. 0 < x \<and> x \<le> 50) slices"
  using assms
proof (induction n arbitrary: left_ms)
  case (Suc n)
  show ?case
  proof (cases "left_ms \<le> 50")
    case True
    then show ?thesis using Suc.prems by (simp add: accept_slice_def kAcceptPollSliceMs_def Let_def)
  next
    case False
    obtain sl where "accept_wait t (left_ms - 50) (replicate n (Quiet False)) = (Some TimedOut, sl)" "sum_list sl = left_ms - 50" "list_all (\<lambda>x. 0 < x \<and> x \<le> 50) sl"
      using Suc.IH[of "left_ms - 50"] Suc.prems False by auto
    then show ?thesis using Suc.prems False by (simp add: accept_slice_def kAcceptPollSliceMs_def Let_def)
  qed
qed simp

text \<open>
  The accept keeps the caller's deadline although it waits in slices: with nobody connecting it returns TimedOut after waits that add up to
  exactly the deadline, each of at most 50 ms, so that a \<open>close\<close> is noticed that soon.
\<close>

theorem accept_deadline_exact:
  assumes "0 < t" "t \<le> 50 * int n"
  shows "\<exists>slices. accept_wait t t (replicate n (Quiet False)) = (Some TimedOut, slices) \<and> sum_list slices = t \<and> list_all (\<lambda>x. 0 < x \<and> x \<le> 50) slices"
  using accept_slices_sum[OF assms(1) order_refl assms(2)] .

theorem accept_deadline_exact_witness:
  "\<exists>slices. accept_wait 120 120 (replicate 3 (Quiet False)) = (Some TimedOut, slices) \<and> sum_list slices = 120 \<and> list_all (\<lambda>x. 0 < x \<and> x \<le> 50) slices"
  using accept_deadline_exact[of 120 3] by simp

section \<open>The drop counter\<close>

text \<open>True counts as the kernel has them, each within one turn of its counter of the one before.\<close>

fun paced :: "nat \<Rightarrow> nat list \<Rightarrow> bool" where
  "paced t [] = True"
| "paced t (u # us) = (t \<le> u \<and> u < t + 2 ^ 32 \<and> paced u us)"

lemma word_diff_nat:
  assumes "t \<le> u" "u < t + 2 ^ 32"
  shows "unat (word_of_nat u - word_of_nat t :: u32) = u - t"
  using assms by (simp add: unat_of_nat take_bit_nat_eq_self flip: of_nat_diff)

lemma drop_readings:
  assumes "paced t us" "dk_on k" "dk_lastRaw k = word_of_nat t" "dk_accum k = word_of_nat t"
  shows "dk_accum (fold drop_reading (map word_of_nat us) k) = word_of_nat (last (t # us)) \<and> dk_on (fold drop_reading (map word_of_nat us) k)"
  using assms
proof (induction us arbitrary: t k)
  case (Cons u us)
  have "ucast (word_of_nat u - word_of_nat t :: u32) = (word_of_nat (u - t) :: u64)"
    using word_diff_nat[of t u] Cons.prems(1) by (metis paced.simps(2) of_nat_unat)
  then show ?case using Cons.prems Cons.IH[of u "drop_reading (word_of_nat u) k"]
    by (simp add: drop_reading_def flip: of_nat_add)
qed simp

text \<open>
  The drop counter survives the wrap of the kernel's 32-bit count, and counts from the creation of the socket: after any readings that follow
  each other within one turn of that count, \<open>receiveDrops\<close> is the kernel's true count, what was dropped before the counter was enabled
  included.
\<close>

theorem drops_counted_since_creation:
  assumes "us \<noteq> []" "paced 0 us" "last us < 2 ^ 63"
  shows "receiveDrops (fold drop_reading (map word_of_nat us) enableReceiveDropCounter) = int (last us)"
proof -
  have "dk_accum (fold drop_reading (map word_of_nat us) enableReceiveDropCounter) = word_of_nat (last us) \<and>
      dk_on (fold drop_reading (map word_of_nat us) enableReceiveDropCounter)"
    using drop_readings[of 0 us enableReceiveDropCounter] assms(1,2) by (simp add: enableReceiveDropCounter_def)
  then show ?thesis using assms(3) by (simp add: receiveDrops_def signed_of_nat signed_take_bit_int_eq_self)
qed

theorem drops_counted_since_creation_witness:
  "receiveDrops (fold drop_reading (map word_of_nat [7, 4294967290, 4294967300]) enableReceiveDropCounter) = 4294967300"
  using drops_counted_since_creation[of "[7, 4294967290, 4294967300]"] by simp

end
