(* ===== verification/Spec2Isabelle.thy ===== *)
theory Spec2Isabelle
  imports Client_Lifecycle Control_Page Daemon_Devices Hamlib_Bridge Callback_Dispatcher Transports Socket_Io
begin

text \<open>
  Verification development for naudio, a C++ library that streams the audio of a radio over TCP and UDP.

  \<^bold>\<open>The program.\<close> A server owns the sound devices of a radio and shares them among its clients: what the capture
  device gives is fanned out to every subscriber (RX), and one client at a time may transmit (TX). A packet is a framed, checksummed
  record; control messages travel in packets of their own. Over TCP a protocol handler cuts the byte stream into packets; over UDP
  a connection composes a control-message retransmitter, a forward-error-correction encoder and decoder and a reorder buffer.
  Discovery lets a client find servers on the local network. The client mirrors the server: it connects, agrees on a
  format, plays, captures, and reconnects when the connection is lost.

  \<^bold>\<open>Theories and sources\<close> (paths under \<open>src/\<close>; each theory opens with what it takes from the code and what it leaves as an argument).

  \<^item> \<open>Prelude\<close>: names of the fixed-width types, \<open>omap\<close> (an executable \<open>std::map\<close> with the locale \<open>ordered_map\<close>), the
    checked signed operations of C++ (\<open>None\<close> where the language leaves an overflow undefined).
  \<^item> \<open>Byte_Cursor\<close>, \<open>Crc32\<close>, \<open>Audio_Packet\<close>: \<open>ByteCursor.hpp\<close>, \<open>Crc32.cpp\<close>, \<open>AudioPacket.cpp\<close>. The
    table-driven checksum is the bitwise one; the decoder accepts exactly what the encoder produces; a frame with one wrong byte is rejected.
  \<^item> \<open>Stream_Config\<close>, \<open>Control_Message\<close>: \<open>AudioStreamConfig.hpp\<close>, \<open>ControlMessage.cpp\<close>. Every message type, built and
    parsed back; a client name too long for its length field breaks the framing of the request.
  \<^item> \<open>Control_Reliability\<close>: \<open>ControlReliability.cpp\<close>. Pending table, retransmission, duplicate suppression; the number of
    copies of a message is bounded and the table stays well formed.
  \<^item> \<open>Reorder_Buffer\<close>, \<open>Fec_Encoder\<close>, \<open>Fec_Decoder\<close>: \<open>PacketReorderBuffer.cpp\<close>, \<open>FecEncoder.cpp\<close>, \<open>FecDecoder.cpp\<close>.
    A shuffled stream is restored, with timeout checks in between; what is emitted ascends in every run; any single loss of a block is repaired bit for bit; the memory of the decoder is bounded; after a
    wrap of the sequence numbers already delivered audio can be delivered again.
  \<^item> \<open>Bounded_Fifo\<close>, \<open>Ring_Buffer\<close>: the contract of a queue that drops its oldest elements (locale \<open>bounded_fifo\<close>) and
    \<open>AudioRingBuffer.cpp\<close>, which implements it, as does the ordered queue of the UDP connection.
  \<^item> \<open>Audio_Mixer\<close>: \<open>AudioMixer.cpp\<close>, the arbitration of the transmit channel: repaired packets never take it, and an idle
    owner loses it.
  \<^item> \<open>Protocol_Handler\<close>: \<open>AudioProtocolHandler.cpp\<close>. The incremental reader refines the cutting of the whole byte stream and a
    resynchronisation loses no intact packet.
  \<^item> \<open>Format_Conversion\<close>, \<open>Jitter_Estimator\<close>: \<open>FormatConversion.cpp\<close>, \<open>JitterEstimator.cpp\<close>. The decimator with its history
    computes the filter of the whole stream, whatever the chunks.
  \<^item> \<open>Udp_Connection\<close>, \<open>Udp_Server\<close>: \<open>UdpClientConnection.cpp\<close>, \<open>UdpServerTransport.cpp\<close>. Isolation of the clients of one
    socket, the effect of a forged datagram, the chunks of the audio, and the routing tables in every interleaving, where a connection is taken out of
    the tables under the lock and closed after it.
  \<^item> \<open>Discovery\<close>: \<open>Discovery.cpp\<close>. A scan finds the servers that answer it among any foreign datagrams; a flood of addresses defeats the rate limit.
  \<^item> \<open>Client_Session\<close>, \<open>Audio_Broadcaster\<close>, \<open>Stream_Server\<close>: the session of \<open>AudioStreamServer.cpp\<close>, \<open>AudioBroadcaster.cpp\<close>
    (locale \<open>broadcast_targets\<close>), and the threads of the server as a step relation, with the pairing of its events and what a stop guarantees. Closing a session is a
    sequence of sections that other threads interrupt.
  \<^item> \<open>Device_Layer\<close>: \<open>Types.hpp\<close>, \<open>DeviceEnumerator.cpp\<close>, \<open>FormatProbe.cpp\<close>, \<open>StreamOpener.cpp\<close>, \<open>PlatformConfigurator.cpp\<close> and
    the in-memory backend, which satisfies the locale \<open>exact_backend\<close>.
  \<^item> \<open>Stream_Client\<close>, \<open>Client_Lifecycle\<close>: \<open>AudioStreamClient.cpp\<close>. The handshake agrees with the server's; the threads of the
    client, reconnection included, as a step relation: one terminal event, an exact thread count, harmless late errors.
  \<^item> \<open>Daemon_Config\<close>: the settings of \<open>tools/na_audio_daemon.cpp\<close>: number parsing, the table of settings, reading and rendering the
    configuration file, both passes over the command line and the choice of the mode. Saving and reloading is characterised exactly, also
    what it loses.
  \<^item> \<open>Control_Page\<close>: the control page of the daemon: the JSON reader and writer, the HTTP request reader, authorization, every request
    that changes state, the write of the file and the pipeline, in sections of worker threads that interleave. Connections that are not commands of the page itself
    change nothing, whatever the interleaving.
  \<^item> \<open>Daemon_Devices\<close>: resolving a saved device against an enumeration, the refusal of an undeclared format, the signal meter and
    the watch for silence, with every floating-point operation rounded by an argument: it is equal to its description over intervals while the sums fit
    53 bits, and loses quiet signals beyond.
  \<^item> \<open>Hamlib_Bridge\<close>: \<open>tools/na_hamlib_bridge.c\<close> and \<open>tools/na_stream_rate.h\<close>: the choice of a rate, the byte ring (an instance of the
    bounded queue), and both workers, with the safety of PTT and the accounting of every byte.
  \<^item> \<open>Callback_Dispatcher\<close>: the thread that runs listener callbacks, with the notifications and the removal of listeners that use it:
    order, drain, what the fence guarantees, and the window in which a removed listener is still called.
  \<^item> \<open>Transports\<close>: the TCP connection and server transport, TCP and UDP on one port number (the paired bind is all or nothing), the client
    transports. Both halves are instances of one interface, \<open>bindable\<close>.
  \<^item> \<open>Socket_Io\<close>: of \<open>Socket.cpp\<close> the protocol between \<open>close\<close> and the calls in progress, the send loop, which refines the send of
    the framing layer, the sliced accept, the drop counter, and the error paths that make a socket.
  \<^bold>\<open>How the code is represented.\<close> Classes are records, enumerations datatypes; fields that wrap are words, other integers \<open>int\<close> or
  \<open>nat\<close> with the conversions written out. Exceptions and refusals are options or sums. Clocks, sockets, devices,
  random numbers and the shell are arguments: what they answer is universally quantified in the theorems, and where a loop
  reads until something happens, its argument is the finite script of the answers so far (the result then says whether the loop is
  still waiting). Loops over data are total functions; the locked sections and single atomic accesses of a thread are steps, and a theorem on
  the threads holds for every interleaving of them and every number of callers. Finer interleavings, between a load and the
  store it decides, are not represented. The host is little-endian, as the supported platforms are; a \<open>double\<close>
  is a rational number, rounded after every operation where more than its order or its truncation matters (the signal meter).

  \<^bold>\<open>What is not modelled.\<close> \<open>PortAudioBackend\<close>, the options and address queries of \<open>Socket\<close>, and \<open>ShellRunner\<close> are calls into
  the operating system and PortAudio: the model sees their answers. \<open>VirtualAudioGuide\<close> generates help texts. The C interface
  (\<open>naudio_c_api.cpp\<close>) forwards to the classes above. Of the daemon, the hardware
  and loopback modes beyond the choice and probe of a device, the tray, the service switch and the read-only pages start the modelled classes,
  call the operating system or print. Of the bridge, the command line and the set-up call libhamlib. \<open>na_wav_tap.c\<close> and the
  examples are programs over the C interface.
\<close>

end
